(* ===== verification/WW_Prelude.thy ===== *)
theory WW_Prelude
  imports Main "HOL-Library.Word" "HOL-Library.Monad_Syntax"
begin

text \<open>
  Shared vocabulary of the development: the C integer types as natural numbers with the
  wrap-around written out, runs that may be cut off as option values, byte memory with
  bounds, and the list lemmas the components use.

  A C computation that may fail an \<open>assert\<close>, call \<open>abortProgramNow\<close> or touch memory outside
  an allocation is a value of an option type: \<open>None\<close> is a run with no further behaviour.
  A function that reports failure to its caller returns that report as an ordinary value.
\<close>

unbundle bit_operations_syntax

named_theorems guard_simps
  \<open>rewrite rules for guarded steps of the option monad\<close>

named_theorems mem_simps
  \<open>rewrite rules for reads and writes of byte memory\<close>

section \<open>Integer types\<close>

type_synonym byte = "8 word"

abbreviation UINT8_MAX :: nat where
  "UINT8_MAX \<equiv> 255"

abbreviation UINT16_MAX :: nat where
  "UINT16_MAX \<equiv> 65535"

abbreviation UINT32_MAX :: nat where
  "UINT32_MAX \<equiv> 4294967295"

abbreviation UINT64_MAX :: nat where
  "UINT64_MAX \<equiv> 18446744073709551615"

text \<open>The target is a 64-bit one: \<open>size_t\<close> has 64 bits.\<close>

abbreviation SIZE_MAX :: nat where
  "SIZE_MAX \<equiv> 18446744073709551615"

text \<open>A conversion to an unsigned type keeps the value modulo the type's range.\<close>

definition u8 :: "nat \<Rightarrow> nat" where
  "u8 n = n mod 256"

definition u16 :: "nat \<Rightarrow> nat" where
  "u16 n = n mod 65536"

definition u32 :: "nat \<Rightarrow> nat" where
  "u32 n = n mod 4294967296"

definition u64 :: "nat \<Rightarrow> nat" where
  "u64 n = n mod 18446744073709551616"

text \<open>Unsigned subtraction wraps below zero.\<close>

definition sub32 :: "nat \<Rightarrow> nat \<Rightarrow> nat" where
  "sub32 a b = (a + (4294967296 - b mod 4294967296)) mod 4294967296"

definition sub64 :: "nat \<Rightarrow> nat \<Rightarrow> nat" where
  "sub64 a b = (a + (18446744073709551616 - b mod 18446744073709551616)) mod 18446744073709551616"

lemma u8_id [simp]: "n \<le> UINT8_MAX \<Longrightarrow> u8 n = n"
  by (simp add: u8_def)

lemma u16_id [simp]: "n \<le> UINT16_MAX \<Longrightarrow> u16 n = n"
  by (simp add: u16_def)

lemma u32_id [simp]: "n \<le> UINT32_MAX \<Longrightarrow> u32 n = n"
  by (simp add: u32_def)

lemma u64_id [simp]: "n \<le> UINT64_MAX \<Longrightarrow> u64 n = n"
  by (simp add: u64_def)

lemma u8_le [simp]: "u8 n \<le> UINT8_MAX"
  using mod_less_divisor [of 256 n] by (simp add: u8_def)

lemma u16_le [simp]: "u16 n \<le> UINT16_MAX"
  using mod_less_divisor [of 65536 n] by (simp add: u16_def)

lemma u32_le [simp]: "u32 n \<le> UINT32_MAX"
  using mod_less_divisor [of 4294967296 n] by (simp add: u32_def)

lemma u64_le [simp]: "u64 n \<le> UINT64_MAX"
  using mod_less_divisor [of 18446744073709551616 n] by (simp add: u64_def)

lemma sub32_id [simp]:
  assumes "b \<le> a" "a \<le> UINT32_MAX"
  shows "sub32 a b = a - b"
proof -
  have b: "b mod 4294967296 = b" using assms by simp
  have "a + (4294967296 - b) = (a - b) + 4294967296" using assms by simp
  moreover have "(a - b) mod 4294967296 = a - b" using assms by simp
  ultimately show ?thesis unfolding sub32_def b by (simp only: mod_add_self2)
qed

lemma sub64_id [simp]:
  assumes "b \<le> a" "a \<le> UINT64_MAX"
  shows "sub64 a b = a - b"
proof -
  have b: "b mod 18446744073709551616 = b" using assms by simp
  have "a + (18446744073709551616 - b) = (a - b) + 18446744073709551616" using assms by simp
  moreover have "(a - b) mod 18446744073709551616 = a - b" using assms by simp
  ultimately show ?thesis unfolding sub64_def b by (simp only: mod_add_self2)
qed

lemma sub32_le [simp]: "sub32 a b \<le> UINT32_MAX"
  using mod_less_divisor [of 4294967296 "a + (4294967296 - b mod 4294967296)"]
  by (simp add: sub32_def)

text \<open>Clearing the low bits of a 64-bit or 32-bit value, as \<open>x & ~(2\<^sup>k - 1)\<close> does.\<close>

definition clear_low64 :: "nat \<Rightarrow> nat \<Rightarrow> nat" where
  "clear_low64 m x = unat ((word_of_nat x :: 64 word) AND NOT (word_of_nat m))"

definition clear_low32 :: "nat \<Rightarrow> nat \<Rightarrow> nat" where
  "clear_low32 m x = unat ((word_of_nat x :: 32 word) AND NOT (word_of_nat m))"

lemma and_not_mask_word: "(w :: 'a::len word) AND NOT (mask n) = push_bit n (drop_bit n w)"
  by (rule bit_word_eqI) (auto simp: bit_simps not_less)

lemma unat_clear_mask:
  assumes "x < 2 ^ LENGTH('a::len)"
  shows "unat ((word_of_nat x :: 'a word) AND NOT (word_of_nat (2 ^ k - 1))) = x - x mod 2 ^ k"
proof -
  let ?w = "word_of_nat x :: 'a word"
  have m: "(word_of_nat (2 ^ k - 1) :: 'a word) = mask k"
    by (simp add: mask_eq_exp_minus_1 of_nat_diff)
  have x: "unat ?w = x" using assms by (simp add: unat_of_nat take_bit_nat_eq_self)
  have "unat (push_bit k (drop_bit k ?w)) = take_bit LENGTH('a) (push_bit k (drop_bit k (unat ?w)))"
    using unsigned_less [of ?w, where ?'a = nat]
    by (simp add: unsigned_push_bit_eq unsigned_drop_bit_eq take_bit_nat_eq_self
        del: unat_of_nat unsigned_of_nat unsigned_less)
  also have "\<dots> = (2 ^ k * (x div 2 ^ k)) mod 2 ^ LENGTH('a)"
    unfolding x by (simp add: take_bit_eq_mod push_bit_eq_mult drop_bit_eq_div mult.commute)
  also have "\<dots> = 2 ^ k * (x div 2 ^ k)"
    using assms by (intro mod_less) (simp add: le_less_trans [OF times_div_less_eq_dividend])
  finally show ?thesis
    unfolding m and_not_mask_word by (simp add: minus_mod_eq_mult_div)
qed

lemma clear_low64_31: "x \<le> UINT64_MAX \<Longrightarrow> clear_low64 31 x = x - x mod 32"
  using unat_clear_mask [of x 5, where ?'a = 64] by (simp add: clear_low64_def)

lemma clear_low64_63: "x \<le> UINT64_MAX \<Longrightarrow> clear_low64 63 x = x - x mod 64"
  using unat_clear_mask [of x 6, where ?'a = 64] by (simp add: clear_low64_def)

lemma clear_low32_31: "x \<le> UINT32_MAX \<Longrightarrow> clear_low32 31 x = x - x mod 32"
  using unat_clear_mask [of x 5, where ?'a = 32] by (simp add: clear_low32_def)

text \<open>Rounding up to a multiple, the specification of the alignment expressions.\<close>

definition round_up :: "nat \<Rightarrow> nat \<Rightarrow> nat" where
  "round_up k n = (n + k - 1) div k * k"

lemma round_up_split: "round_up k n + (n + k - 1) mod k = n + k - 1"
  by (simp only: round_up_def div_mult_mod_eq)

lemma round_up_ge: "0 < k \<Longrightarrow> n \<le> round_up k n"
  using round_up_split [of k n] mod_less_divisor [of k "n + k - 1"] by linarith

lemma round_up_less: "0 < k \<Longrightarrow> round_up k n < n + k"
  using round_up_split [of k n] by linarith

lemma round_up_dvd [simp]: "k dvd round_up k n"
  by (simp add: round_up_def)

lemma round_up_of_dvd:
  assumes "0 < k" "k dvd n"
  shows "round_up k n = n"
proof -
  from \<open>k dvd n\<close> obtain q where n: "n = k * q" ..
  have "n + k - 1 = (k - 1) + q * k" using \<open>0 < k\<close> by (simp add: n mult.commute)
  then have "(n + k - 1) div k = ((k - 1) + q * k) div k" by (rule arg_cong)
  also have "\<dots> = q + (k - 1) div k" using \<open>0 < k\<close> by (intro div_mult_self1) simp
  also have "\<dots> = q" using \<open>0 < k\<close> by simp
  finally show ?thesis by (simp add: round_up_def n mult.commute)
qed

lemma round_up_mask: "n + k - 1 - (n + k - 1) mod k = round_up k n"
  by (simp add: round_up_def minus_mod_eq_div_mult)

section \<open>Guarded steps\<close>

definition ensure :: "bool \<Rightarrow> unit option" where
  "ensure P = (if P then Some () else None)"

lemma ensure_simps [simp]:
  "P \<Longrightarrow> ensure P = Some ()"
  "\<not> P \<Longrightarrow> ensure P = None"
  "(ensure P = Some u) = P"
  "(ensure P = None) = (\<not> P)"
  by (simp_all add: ensure_def)

lemma ensure_bind [guard_simps]:
  "((ensure P) \<bind> f) = Some r \<longleftrightarrow> P \<and> f () = Some r"
  by (simp add: ensure_def)

lemma bind_SomeE:
  assumes "(m \<bind> f) = Some r"
  obtains x where "m = Some x" "f x = Some r"
  using assms by (cases m) auto

lemma bind_Some_iff [guard_simps]:
  "((m :: 'a option) \<bind> f) = Some r \<longleftrightarrow> (\<exists>x. m = Some x \<and> f x = Some r)"
  by (cases m) auto

section \<open>Byte memory\<close>

definition mem_read :: "'a list \<Rightarrow> nat \<Rightarrow> nat \<Rightarrow> 'a list option" where
  "mem_read m off n = (if off + n \<le> length m then Some (take n (drop off m)) else None)"

definition mem_write :: "'a list \<Rightarrow> nat \<Rightarrow> 'a list \<Rightarrow> 'a list option" where
  "mem_write m off xs =
     (if off + length xs \<le> length m then Some (take off m @ xs @ drop (off + length xs) m) else None)"

lemma mem_read_Some [mem_simps]:
  "off + n \<le> length m \<Longrightarrow> mem_read m off n = Some (take n (drop off m))"
  by (simp add: mem_read_def)

lemma mem_write_Some [mem_simps]:
  "off + length xs \<le> length m \<Longrightarrow>
   mem_write m off xs = Some (take off m @ xs @ drop (off + length xs) m)"
  by (simp add: mem_write_def)

lemma mem_write_length: "mem_write m off xs = Some m' \<Longrightarrow> length m' = length m"
  by (auto simp: mem_write_def split: if_splits)

lemma mem_read_length: "mem_read m off n = Some xs \<Longrightarrow> length xs = n"
  by (auto simp: mem_read_def split: if_splits)

text \<open>What a read returns after a write of a range that covers it or lies outside it.\<close>

lemma mem_read_write_same:
  "mem_write m off xs = Some m' \<Longrightarrow> mem_read m' off (length xs) = Some xs"
  by (auto simp: mem_write_def mem_read_def split: if_splits)

lemma mem_read_write_before:
  assumes "mem_write m off xs = Some m'" "i + n \<le> off"
  shows "mem_read m' i n = mem_read m i n"
proof -
  from assms have m': "m' = take off m @ xs @ drop (off + length xs) m" "off + length xs \<le> length m"
    by (auto simp: mem_write_def split: if_splits)
  have "take n (drop i m') = take n (drop i m)"
    using m' assms(2) by (simp add: take_drop min_def)
  then show ?thesis using m' assms(2) by (simp add: mem_read_def)
qed

section \<open>Integers in memory\<close>

text \<open>Little-endian bytes of an unsigned integer, the layout of the supported targets.\<close>

primrec le_bytes :: "nat \<Rightarrow> nat \<Rightarrow> byte list" where
  "le_bytes 0 v = []"
| "le_bytes (Suc k) v = word_of_nat v # le_bytes k (v div 256)"

primrec le_value :: "byte list \<Rightarrow> nat" where
  "le_value [] = 0"
| "le_value (b # bs) = unat b + 256 * le_value bs"

lemma length_le_bytes [simp]: "length (le_bytes k v) = k"
  by (induction k arbitrary: v) simp_all

lemma unat_byte_less: "unat (b :: byte) < 256"
  using unsigned_less [of b, where ?'a = nat] by simp

lemma unat_word8_of_nat: "unat (word_of_nat v :: byte) = v mod 256"
  by (simp add: unat_of_nat take_bit_eq_mod)

lemma le_value_le_bytes: "le_value (le_bytes k v) = v mod 256 ^ k"
proof (induction k arbitrary: v)
  case 0
  then show ?case by simp
next
  case (Suc k)
  have "v mod 256 ^ Suc k = 256 * (v div 256 mod 256 ^ k) + v mod 256"
    by (simp add: mod_mult2_eq mult.commute)
  then show ?case by (simp add: Suc unat_word8_of_nat)
qed

text \<open>Big-endian fields of protocol headers.\<close>

definition be16 :: "byte \<Rightarrow> byte \<Rightarrow> nat" where
  "be16 a b = unat a * 256 + unat b"

lemma be16_le: "be16 a b \<le> UINT16_MAX"
  using unat_byte_less [of a] unat_byte_less [of b] by (simp add: be16_def)

definition be_bytes16 :: "nat \<Rightarrow> byte list" where
  "be_bytes16 v = [word_of_nat (v div 256), word_of_nat v]"

text \<open>Reads of bytes and big-endian fields at an index, cut off outside the memory.\<close>

definition rd8 :: "byte list \<Rightarrow> nat \<Rightarrow> byte option" where
  "rd8 m i = (if i < length m then Some (m ! i) else None)"

definition rd_be16 :: "byte list \<Rightarrow> nat \<Rightarrow> nat option" where
  "rd_be16 m i = (if i + 2 \<le> length m then Some (be16 (m ! i) (m ! (i + 1))) else None)"

definition rd_be24 :: "byte list \<Rightarrow> nat \<Rightarrow> nat option" where
  "rd_be24 m i = (if i + 3 \<le> length m
     then Some (unat (m ! i) * 65536 + unat (m ! (i + 1)) * 256 + unat (m ! (i + 2))) else None)"

lemma rd8_Some [simp]: "i < length m \<Longrightarrow> rd8 m i = Some (m ! i)"
  by (simp add: rd8_def)

lemma rd_be16_Some [simp]: "i + 2 \<le> length m \<Longrightarrow> rd_be16 m i = Some (be16 (m ! i) (m ! (i + 1)))"
  by (simp add: rd_be16_def)

lemma be16_bytes: "v \<le> UINT16_MAX \<Longrightarrow> be16 (word_of_nat (v div 256)) (word_of_nat v) = v"
  by (simp add: be16_def unat_word8_of_nat)

lemma be_bytes_be16: "be_bytes16 (be16 a b) = [a, b]"
proof -
  have "unat b < 256" "unat a < 256" using unat_byte_less [of b] unat_byte_less [of a] by simp_all
  then have "be16 a b div 256 = unat a" "be16 a b mod 256 = unat b" by (simp_all add: be16_def)
  moreover have "(word_of_nat (be16 a b) :: byte) = word_of_nat (be16 a b mod 256)"
    by (simp add: word_unat_eq_iff unat_word8_of_nat)
  ultimately show ?thesis by (simp add: be_bytes16_def)
qed

lemma length_be_bytes16 [simp]: "length (be_bytes16 v) = 2"
  by (simp add: be_bytes16_def)

text \<open>Reads at the end of a known prefix.\<close>

lemma rd8_append: "i = length xs \<Longrightarrow> rd8 (xs @ b # ys) i = Some b"
  by (simp add: rd8_def)

lemma rd_be16_append:
  "i = length xs \<Longrightarrow> v \<le> UINT16_MAX \<Longrightarrow> rd_be16 (xs @ be_bytes16 v @ ys) i = Some v"
  by (simp add: rd_be16_def be_bytes16_def nth_append be16_bytes)

section \<open>Lists\<close>

lemma take_drop_prefix_append:
  "n \<le> length xs \<Longrightarrow> take n (xs @ ys) = take n xs"
  by simp

lemma take_take_drop:
  "m \<le> n \<Longrightarrow> take m (take n xs) = take m xs"
  by (simp add: min_def)

end
