(* ===== verification/Shift_Buffer.thy ===== *)
theory Shift_Buffer
  imports WW_Prelude
begin

text \<open>
  The shift buffer of \<open>ww/bufio/shiftbuffer.h\<close> and \<open>shiftbuffer.c\<close>: a byte array with a
  cursor, a length and left padding, on which headers are put in front of a payload by
  moving the cursor left. The theory holds its record, its operations for ordinary
  (memory-resident) buffers, the geometry invariant, and for every operation what it does
  to the payload. The allocator is the one of the debug build, which fills fresh storage
  with \<open>0x55\<close>. Buffers are values: a C function that updates a buffer through a pointer
  returns the updated buffer.
\<close>

section \<open>Representation\<close>

record sbuf =
  curpos :: nat
  sb_len :: nat
  sb_capacity :: nat
  l_pad :: nat
  sb_flags :: "16 word"
  sb_buf :: "byte list"

definition kSbufFlagSplice :: "16 word" where
  "kSbufFlagSplice = 1"

definition kSbufFlagRecalculateChecksum :: "16 word" where
  "kSbufFlagRecalculateChecksum = 4"

definition sizeof_sbuf :: nat where
  "sizeof_sbuf = 32"

definition kSbufAllocationAlignment :: nat where
  "kSbufAllocationAlignment = 32"

definition kCpuLineCacheSize :: nat where
  "kCpuLineCacheSize = 64"

definition kCpuLineCacheSizeMin1 :: nat where
  "kCpuLineCacheSizeMin1 = kCpuLineCacheSize - 1"

definition SPLICE_BUFFER_STORAGE_SIZE :: nat where
  "SPLICE_BUFFER_STORAGE_SIZE = 32"

section \<open>Flags and accessors\<close>

definition sbufIsSplice :: "sbuf \<Rightarrow> bool" where
  "sbufIsSplice b \<longleftrightarrow> sb_flags b AND kSbufFlagSplice \<noteq> 0"

definition sbufSetRecalculateChecksum :: "sbuf \<Rightarrow> bool \<Rightarrow> sbuf option" where
  "sbufSetRecalculateChecksum b requested = do {
     ensure (\<not> requested \<or> \<not> sbufIsSplice b);
     if requested
     then Some (b\<lparr>sb_flags := sb_flags b OR kSbufFlagRecalculateChecksum\<rparr>)
     else Some (b\<lparr>sb_flags := sb_flags b AND NOT kSbufFlagRecalculateChecksum\<rparr>)
   }"

definition sbufGetRecalculateChecksum :: "sbuf \<Rightarrow> bool" where
  "sbufGetRecalculateChecksum b \<longleftrightarrow> sb_flags b AND kSbufFlagRecalculateChecksum \<noteq> 0"

definition sbufReset :: "sbuf \<Rightarrow> sbuf" where
  "sbufReset b = b\<lparr>sb_flags := 0, sb_len := 0, curpos := l_pad b\<rparr>"

definition sbufGetTotalCapacity :: "sbuf \<Rightarrow> nat" where
  "sbufGetTotalCapacity b = sb_capacity b"

definition sbufGetTotalCapacityNoPadding :: "sbuf \<Rightarrow> nat" where
  "sbufGetTotalCapacityNoPadding b = sub32 (sb_capacity b) (l_pad b)"

definition sbufGetLeftCapacity :: "sbuf \<Rightarrow> nat" where
  "sbufGetLeftCapacity b = curpos b"

definition sbufGetMaximumWriteableSize :: "sbuf \<Rightarrow> nat" where
  "sbufGetMaximumWriteableSize b = sub32 (sb_capacity b) (curpos b)"

definition sbufGetTailCapacity :: "sbuf \<Rightarrow> nat option" where
  "sbufGetTailCapacity b = do {
     ensure (\<not> sbufIsSplice b);
     ensure (curpos b \<le> sb_capacity b);
     ensure (sb_len b \<le> sub32 (sb_capacity b) (curpos b));
     Some (sub32 (sub32 (sb_capacity b) (curpos b)) (sb_len b))
   }"

definition sbufGetLeftPadding :: "sbuf \<Rightarrow> nat" where
  "sbufGetLeftPadding b = l_pad b"

definition sbufGetLength :: "sbuf \<Rightarrow> nat" where
  "sbufGetLength b = sb_len b"

section \<open>Cursor and length\<close>

definition sbufShiftLeft :: "sbuf \<Rightarrow> nat \<Rightarrow> sbuf option" where
  "sbufShiftLeft b bytes = do {
     ensure (bytes \<le> sbufGetLeftCapacity b);
     Some (b\<lparr>curpos := sub32 (curpos b) bytes, sb_len := u32 (sb_len b + bytes)\<rparr>)
   }"

definition sbufShiftRight :: "sbuf \<Rightarrow> nat \<Rightarrow> sbuf option" where
  "sbufShiftRight b bytes = do {
     ensure (bytes \<le> sb_len b);
     Some (b\<lparr>curpos := u32 (curpos b + bytes), sb_len := sub32 (sb_len b) bytes\<rparr>)
   }"

definition sbufSetLength :: "sbuf \<Rightarrow> nat \<Rightarrow> sbuf option" where
  "sbufSetLength b bytes = do {
     ensure (u32 (curpos b + bytes) \<le> sb_capacity b);
     Some (b\<lparr>sb_len := bytes\<rparr>)
   }"

definition sbufConsume :: "sbuf \<Rightarrow> nat \<Rightarrow> sbuf option" where
  "sbufConsume b bytes = do {
     ensure (bytes \<le> sb_len b);
     sbufSetLength b (sub32 (sbufGetLength b) bytes)
   }"

section \<open>Reading and writing at the cursor\<close>

text \<open>
  \<open>sbufGetRawPtr\<close> and \<open>sbufGetMutablePtr\<close> are the address \<open>buf + curpos\<close>. An access
  through them at an offset is a read or write of the storage at \<open>curpos + offset\<close>.
\<close>

definition sbufRead :: "sbuf \<Rightarrow> nat \<Rightarrow> byte list option" where
  "sbufRead b n = mem_read (sb_buf b) (curpos b) n"

definition sbufWriteAt :: "sbuf \<Rightarrow> nat \<Rightarrow> byte list \<Rightarrow> sbuf option" where
  "sbufWriteAt b off xs = do {
     m \<leftarrow> mem_write (sb_buf b) (curpos b + off) xs;
     Some (b\<lparr>sb_buf := m\<rparr>)
   }"

definition sbufWrite :: "sbuf \<Rightarrow> byte list \<Rightarrow> sbuf option" where
  "sbufWrite b xs = sbufWriteAt b 0 xs"

definition sbufWriteZeros :: "sbuf \<Rightarrow> nat \<Rightarrow> sbuf option" where
  "sbufWriteZeros b n = sbufWriteAt b 0 (replicate n 0)"

definition sbufWriteBuf :: "sbuf \<Rightarrow> sbuf \<Rightarrow> nat \<Rightarrow> sbuf option" where
  "sbufWriteBuf to from n = do {
     ensure (n \<le> sbufGetMaximumWriteableSize to);
     xs \<leftarrow> sbufRead from n;
     sbufWriteAt to 0 xs
   }"

definition sbufReadUI8 :: "sbuf \<Rightarrow> nat option" where
  "sbufReadUI8 b = map_option le_value (sbufRead b 1)"

definition sbufWriteUI8 :: "sbuf \<Rightarrow> nat \<Rightarrow> sbuf option" where
  "sbufWriteUI8 b v = sbufWriteAt b 0 (le_bytes 1 v)"

definition sbufReadUI16 :: "sbuf \<Rightarrow> nat option" where
  "sbufReadUI16 b = map_option le_value (sbufRead b 2)"

definition sbufReadUI64 :: "sbuf \<Rightarrow> nat option" where
  "sbufReadUI64 b = map_option le_value (sbufRead b 8)"

definition sbufWriteUI16 :: "sbuf \<Rightarrow> nat \<Rightarrow> sbuf option" where
  "sbufWriteUI16 b v = sbufWriteAt b 0 (le_bytes 2 v)"

definition sbufWriteUI32 :: "sbuf \<Rightarrow> nat \<Rightarrow> sbuf option" where
  "sbufWriteUI32 b v = sbufWriteAt b 0 (le_bytes 4 v)"

section \<open>Sizing and allocation\<close>

definition sbufRoundCapacity :: "nat \<Rightarrow> nat" where
  "sbufRoundCapacity capacity =
     (if capacity \<noteq> 0 \<and> capacity mod kCpuLineCacheSize \<noteq> 0 then
        let c = (if capacity < kCpuLineCacheSize then kCpuLineCacheSize else capacity)
        in clear_low64 kCpuLineCacheSizeMin1 (u64 (c + kCpuLineCacheSizeMin1))
      else capacity)"

definition sbufTryComputeCapacityWithin :: "nat \<Rightarrow> nat \<Rightarrow> nat \<Rightarrow> nat option" where
  "sbufTryComputeCapacityWithin minimum_capacity pad_left size_max =
     (let aligned_pad = clear_low64 31 (u64 (pad_left + 31)) in
      if aligned_pad > UINT16_MAX then None
      else if minimum_capacity > UINT32_MAX then None
      else
        let capacity = sbufRoundCapacity minimum_capacity;
            total = u64 (capacity + aligned_pad)
        in if total > UINT32_MAX then None
           else
             let allocation_overhead = u64 (sizeof_sbuf + kSbufAllocationAlignment) in
             if size_max < allocation_overhead \<or> total > sub64 size_max allocation_overhead
             then None
             else Some (u32 total))"

definition sbufTryComputeCapacity :: "nat \<Rightarrow> nat \<Rightarrow> nat option" where
  "sbufTryComputeCapacity minimum_capacity pad_left =
     sbufTryComputeCapacityWithin minimum_capacity pad_left SIZE_MAX"

definition sbufGetAllocationCharge :: "sbuf \<Rightarrow> nat" where
  "sbufGetAllocationCharge b =
     (let storage = (if sbufIsSplice b
                     then u64 (sbufGetLeftPadding b + SPLICE_BUFFER_STORAGE_SIZE)
                     else sbufGetTotalCapacity b)
      in u64 (sizeof_sbuf + storage + kSbufAllocationAlignment))"

definition sbufTryComputeQueueCharge :: "nat \<Rightarrow> nat option" where
  "sbufTryComputeQueueCharge capacity =
     (let overhead = u64 (sizeof_sbuf + kSbufAllocationAlignment) in
      if capacity > sub64 SIZE_MAX overhead then None
      else Some (u64 (overhead + capacity)))"

definition sbufTryGetQueueCharge :: "sbuf \<Rightarrow> nat option" where
  "sbufTryGetQueueCharge b = sbufTryComputeQueueCharge (sbufGetTotalCapacity b)"

definition sbufGetQueueCharge :: "sbuf \<Rightarrow> nat option" where
  "sbufGetQueueCharge b =
     (let overhead = u64 (sizeof_sbuf + kSbufAllocationAlignment);
          capacity = sbufGetTotalCapacity b
      in do {
        ensure (capacity \<le> sub64 SIZE_MAX overhead);
        Some (u64 (overhead + capacity))
      })"

definition sbufAlignLeftPadding :: "nat \<Rightarrow> nat option" where
  "sbufAlignLeftPadding pad_left =
     (let aligned_pad = clear_low32 31 (u32 (pad_left + 31)) in
      if aligned_pad > UINT16_MAX then None else Some (u16 aligned_pad))"

definition sbufAllocate :: "nat \<Rightarrow> nat \<Rightarrow> sbuf" where
  "sbufAllocate capacity pad_left =
     \<lparr>curpos = pad_left, sb_len = 0, sb_capacity = capacity, l_pad = pad_left, sb_flags = 0,
      sb_buf = replicate capacity 0x55\<rparr>"

definition sbufCreateWithPadding :: "nat \<Rightarrow> nat \<Rightarrow> sbuf option" where
  "sbufCreateWithPadding minimum_capacity pad_left = do {
     pad \<leftarrow> sbufAlignLeftPadding pad_left;
     case sbufTryComputeCapacity minimum_capacity pad of
       None \<Rightarrow> None
     | Some real_cap \<Rightarrow> Some (sbufAllocate real_cap pad)
   }"

definition sbufCreate :: "nat \<Rightarrow> sbuf option" where
  "sbufCreate minimum_capacity = sbufCreateWithPadding minimum_capacity 0"

section \<open>Copying, growing and splitting\<close>

definition sbufReserveSpace :: "sbuf \<Rightarrow> nat \<Rightarrow> sbuf option" where
  "sbufReserveSpace b bytes =
     (let current_length = sbufGetLength b in
      if sbufGetMaximumWriteableSize b < bytes then do {
        bigger \<leftarrow> sbufCreateWithPadding (max current_length bytes) (l_pad b);
        bigger \<leftarrow> sbufSetLength bigger current_length;
        bigger \<leftarrow> sbufWriteBuf bigger b current_length;
        sbufSetRecalculateChecksum bigger (sbufGetRecalculateChecksum b)
      }
      else Some b)"

definition sbufConcatNoCheck :: "sbuf \<Rightarrow> sbuf \<Rightarrow> sbuf option" where
  "sbufConcatNoCheck root b =
     (let root_length = sbufGetLength root; append_length = sbufGetLength b in do {
        root \<leftarrow> sbufSetLength root (u32 (root_length + append_length));
        xs \<leftarrow> sbufRead b append_length;
        sbufWriteAt root root_length xs
      })"

definition sbufDuplicateTo :: "sbuf \<Rightarrow> sbuf \<Rightarrow> (bool \<times> sbuf) option" where
  "sbufDuplicateTo b dest =
     (let source_curpos = curpos b;
          source_length = sbufGetLength b;
          dest_capacity = sbufGetTotalCapacity dest
      in if source_curpos > dest_capacity \<or> source_length > sub32 dest_capacity source_curpos
         then Some (False, dest)
         else do {
           dest \<leftarrow> sbufSetLength (dest\<lparr>curpos := source_curpos\<rparr>) source_length;
           dest \<leftarrow> (if source_length > 0 then do {
                      xs \<leftarrow> sbufRead b source_length;
                      sbufWriteAt dest 0 xs
                    } else Some dest);
           dest \<leftarrow> sbufSetRecalculateChecksum dest (sbufGetRecalculateChecksum b);
           Some (True, dest)
         })"

definition sbufDuplicate :: "sbuf \<Rightarrow> sbuf option" where
  "sbufDuplicate b = do {
     newbuf \<leftarrow> sbufCreateWithPadding (sbufGetTotalCapacityNoPadding b) (l_pad b);
     (copied, newbuf) \<leftarrow> sbufDuplicateTo b newbuf;
     if copied then Some newbuf else None
   }"

definition debugBufferWontBeReused :: "sbuf \<Rightarrow> sbuf option" where
  "debugBufferWontBeReused b = sbufDuplicate b"

definition sbufConcat :: "sbuf \<Rightarrow> sbuf \<Rightarrow> sbuf option" where
  "sbufConcat root b =
     (let root_length = sbufGetLength root; append_length = sbufGetLength b in
      if root_length > sub32 UINT32_MAX append_length then None
      else do {
        root \<leftarrow> sbufReserveSpace root (u32 (root_length + append_length));
        root \<leftarrow> sbufSetLength root (u32 (root_length + append_length));
        xs \<leftarrow> sbufRead b append_length;
        sbufWriteAt root root_length xs
      })"

definition sbufMoveTo :: "sbuf \<Rightarrow> sbuf \<Rightarrow> nat \<Rightarrow> (sbuf \<times> sbuf) option" where
  "sbufMoveTo dest source bytes =
     (let dest_length = sbufGetLength dest in do {
        ensure (bytes \<le> sbufGetLength source);
        ensure (dest_length \<le> sub32 UINT32_MAX bytes);
        ensure (u32 (dest_length + bytes) \<le> sbufGetMaximumWriteableSize dest);
        xs \<leftarrow> sbufRead source bytes;
        dest \<leftarrow> sbufWriteAt dest dest_length xs;
        dest \<leftarrow> sbufSetLength dest (u32 (dest_length + bytes));
        source \<leftarrow> sbufShiftRight source bytes;
        Some (dest, source)
      })"

definition sbufSlice :: "sbuf \<Rightarrow> nat \<Rightarrow> (sbuf \<times> sbuf) option" where
  "sbufSlice b bytes = do {
     ensure (\<not> sbufIsSplice b);
     ensure (bytes \<le> sbufGetLength b);
     newbuf \<leftarrow> sbufCreateWithPadding bytes (l_pad b);
     sbufMoveTo newbuf b bytes
   }"

section \<open>Invariant and abstraction\<close>

text \<open>
  An ordinary buffer as the allocator makes it: the storage has the recorded capacity, the
  payload lies inside it, the padding is a multiple of 32 and the rest a multiple of the
  cache line.
\<close>

definition sbuf_ok :: "sbuf \<Rightarrow> bool" where
  "sbuf_ok b \<longleftrightarrow>
     length (sb_buf b) = sb_capacity b \<and> sb_capacity b \<le> UINT32_MAX \<and>
     curpos b + sb_len b \<le> sb_capacity b \<and>
     l_pad b \<le> sb_capacity b \<and> l_pad b \<le> UINT16_MAX \<and> 32 dvd l_pad b \<and>
     64 dvd sb_capacity b - l_pad b \<and> \<not> sbufIsSplice b"

definition payload :: "sbuf \<Rightarrow> byte list" where
  "payload b = take (sb_len b) (drop (curpos b) (sb_buf b))"

text \<open>The requests the allocator can satisfy.\<close>

definition sbuf_fits :: "nat \<Rightarrow> nat \<Rightarrow> bool" where
  "sbuf_fits minimum_capacity pad_left \<longleftrightarrow>
     round_up 32 pad_left \<le> UINT16_MAX \<and>
     round_up 64 minimum_capacity + round_up 32 pad_left \<le> UINT32_MAX"

text \<open>The effect of the operations on the record, free of guards and wrap-around.\<close>

definition sbuf_skip :: "sbuf \<Rightarrow> nat \<Rightarrow> sbuf" where
  "sbuf_skip b n = b\<lparr>curpos := curpos b + n, sb_len := sb_len b - n\<rparr>"

definition sbuf_append :: "sbuf \<Rightarrow> byte list \<Rightarrow> sbuf" where
  "sbuf_append b xs = b\<lparr>sb_len := sb_len b + length xs,
     sb_buf := take (curpos b + sb_len b) (sb_buf b) @ xs @
               drop (curpos b + sb_len b + length xs) (sb_buf b)\<rparr>"

lemmas sbuf_consts =
  sizeof_sbuf_def kSbufAllocationAlignment_def kCpuLineCacheSize_def kCpuLineCacheSizeMin1_def
  SPLICE_BUFFER_STORAGE_SIZE_def

lemmas sbuf_getters =
  sbufGetTotalCapacity_def sbufGetTotalCapacityNoPadding_def sbufGetLeftCapacity_def
  sbufGetMaximumWriteableSize_def sbufGetLeftPadding_def sbufGetLength_def

named_theorems sbuf_eqs
  \<open>what each buffer operation computes on a buffer that satisfies the invariant\<close>

named_theorems sbuf_obs
  \<open>payload and geometry of the results of buffer operations\<close>

lemma sbuf_okD:
  assumes "sbuf_ok b"
  shows "length (sb_buf b) = sb_capacity b" "sb_capacity b \<le> UINT32_MAX"
    "curpos b + sb_len b \<le> sb_capacity b" "l_pad b \<le> sb_capacity b"
    "l_pad b \<le> UINT16_MAX" "32 dvd l_pad b" "64 dvd sb_capacity b - l_pad b" "\<not> sbufIsSplice b"
  using assms by (simp_all add: sbuf_ok_def)

lemma length_payload [sbuf_obs]: "sbuf_ok b \<Longrightarrow> length (payload b) = sb_len b"
  by (auto simp: payload_def sbuf_ok_def)

lemma sbufIsSplice_update [simp]:
  "sbufIsSplice (b\<lparr>curpos := c\<rparr>) = sbufIsSplice b"
  "sbufIsSplice (b\<lparr>sb_len := n\<rparr>) = sbufIsSplice b"
  "sbufIsSplice (b\<lparr>sb_buf := m\<rparr>) = sbufIsSplice b"
  by (simp_all add: sbufIsSplice_def)

section \<open>Sizing\<close>

lemma clear_low64_pad: "pad \<le> UINT16_MAX \<Longrightarrow> clear_low64 31 (u64 (pad + 31)) = round_up 32 pad"
  using round_up_mask [of pad 32] by (simp add: clear_low64_31 add.commute)

lemma round_up_64_small: "0 < n \<Longrightarrow> n < 64 \<Longrightarrow> round_up 64 n = 64"
proof -
  assume "0 < n" "n < 64"
  then have "(n + 63) div 64 = 1" by (intro div_nat_eqI) simp_all
  then show ?thesis by (simp add: round_up_def)
qed

lemma clear_low64_cap: "n \<le> UINT32_MAX \<Longrightarrow> clear_low64 63 (u64 (n + 63)) = round_up 64 n"
  using round_up_mask [of n 64] by (simp add: clear_low64_63 add.commute)

lemma sbufRoundCapacity_eq:
  assumes "n \<le> UINT32_MAX"
  shows "sbufRoundCapacity n = round_up 64 n"
proof (cases "n = 0 \<or> n mod 64 = 0")
  case True
  then show ?thesis
    by (auto simp: sbufRoundCapacity_def sbuf_consts round_up_of_dvd mod_eq_0_iff_dvd)
next
  case False
  then have "sbufRoundCapacity n = clear_low64 63 (u64 ((if n < 64 then 64 else n) + 63))"
    by (auto simp: sbufRoundCapacity_def sbuf_consts Let_def)
  also have "\<dots> = round_up 64 (if n < 64 then 64 else n)"
    using assms by (simp only: clear_low64_cap split: if_split) simp
  also have "\<dots> = round_up 64 n"
    using False round_up_64_small [of n] by (simp add: round_up_of_dvd)
  finally show ?thesis .
qed

lemma sbufTryComputeCapacityWithin_eq:
  assumes "pad \<le> UINT16_MAX" "size_max \<le> UINT64_MAX"
  shows "sbufTryComputeCapacityWithin n pad size_max =
    (if sbuf_fits n pad \<and> round_up 64 n + round_up 32 pad + 64 \<le> size_max
     then Some (round_up 64 n + round_up 32 pad) else None)"
proof (cases "n \<le> UINT32_MAX")
  case False
  then have "\<not> sbuf_fits n pad"
    using round_up_ge [of 64 n] by (simp add: sbuf_fits_def)
  then show ?thesis
    using False by (simp add: sbufTryComputeCapacityWithin_def Let_def)
next
  case True
  let ?p = "round_up 32 pad" and ?c = "round_up 64 n"
  have "?c < n + 64" "?p < pad + 32" by (simp_all add: round_up_less)
  then have sum: "u64 (?c + ?p) = ?c + ?p" using True assms by simp
  show ?thesis
    using True assms(2)
    by (auto simp: sbufTryComputeCapacityWithin_def Let_def sbuf_consts clear_low64_pad [OF assms(1)]
        sbufRoundCapacity_eq sum sbuf_fits_def)
qed

lemma sbufTryComputeCapacity_eq:
  assumes "pad \<le> UINT16_MAX"
  shows "sbufTryComputeCapacity n pad =
    (if sbuf_fits n pad then Some (round_up 64 n + round_up 32 pad) else None)"
proof -
  have "sbuf_fits n pad \<Longrightarrow> round_up 64 n + round_up 32 pad + 64 \<le> SIZE_MAX"
    by (simp add: sbuf_fits_def)
  then show ?thesis
    by (auto simp: sbufTryComputeCapacity_def sbufTryComputeCapacityWithin_eq [OF assms])
qed

lemma sbufAlignLeftPadding_eq:
  assumes "pad \<le> UINT16_MAX"
  shows "sbufAlignLeftPadding pad =
    (if round_up 32 pad \<le> UINT16_MAX then Some (round_up 32 pad) else None)"
proof -
  have "clear_low32 31 (u32 (pad + 31)) = round_up 32 pad"
    using assms round_up_mask [of pad 32] by (simp add: clear_low32_31 add.commute)
  then show ?thesis by (auto simp: sbufAlignLeftPadding_def Let_def)
qed

lemma round_up_idem [simp]: "0 < k \<Longrightarrow> round_up k (round_up k n) = round_up k n"
  by (simp add: round_up_of_dvd)

lemma sbufCreateWithPadding_eq:
  assumes "pad \<le> UINT16_MAX"
  shows "sbufCreateWithPadding n pad =
    (if sbuf_fits n pad
     then Some (sbufAllocate (round_up 64 n + round_up 32 pad) (round_up 32 pad)) else None)"
proof (cases "round_up 32 pad \<le> UINT16_MAX")
  case True
  then show ?thesis
    by (simp add: sbufCreateWithPadding_def sbufAlignLeftPadding_eq [OF assms]
        sbufTryComputeCapacity_eq sbuf_fits_def)
next
  case False
  then show ?thesis
    by (simp add: sbufCreateWithPadding_def sbufAlignLeftPadding_eq [OF assms] sbuf_fits_def)
qed

lemma sbufIsSplice_fresh [simp]: "\<not> sbufIsSplice (sbufAllocate c p)"
  by (simp add: sbufIsSplice_def sbufAllocate_def)

lemma sbufAllocate_ok:
  "sbuf_fits n pad \<Longrightarrow> sbuf_ok (sbufAllocate (round_up 64 n + round_up 32 pad) (round_up 32 pad))"
  by (auto simp: sbuf_ok_def sbuf_fits_def)
     (simp_all add: sbufAllocate_def)

lemma sbufAllocate_obs [sbuf_obs]:
  "payload (sbufAllocate c p) = []" "sb_len (sbufAllocate c p) = 0"
  "curpos (sbufAllocate c p) = p" "l_pad (sbufAllocate c p) = p"
  "sb_capacity (sbufAllocate c p) = c" "sb_flags (sbufAllocate c p) = 0"
  by (simp_all add: sbufAllocate_def payload_def)

text \<open>The geometry of an existing buffer can be allocated again, and gives the same geometry.\<close>

lemma sbuf_fits_same:
  assumes "sbuf_ok b"
  shows "sbuf_fits (sb_capacity b - l_pad b) (l_pad b)"
    and "round_up 64 (sb_capacity b - l_pad b) + round_up 32 (l_pad b) = sb_capacity b"
    and "round_up 32 (l_pad b) = l_pad b"
  using sbuf_okD [OF assms] by (simp_all add: sbuf_fits_def round_up_of_dvd)

section \<open>The operations on a well-formed buffer\<close>

lemma sbuf_skip_obs [sbuf_obs]:
  assumes "sbuf_ok b" "n \<le> sb_len b"
  shows "sbuf_ok (sbuf_skip b n)" "payload (sbuf_skip b n) = drop n (payload b)"
    "sb_len (sbuf_skip b n) = sb_len b - n" "curpos (sbuf_skip b n) = curpos b + n"
    "sb_capacity (sbuf_skip b n) = sb_capacity b" "l_pad (sbuf_skip b n) = l_pad b"
  using assms by (simp_all add: sbuf_ok_def sbuf_skip_def payload_def drop_take add.commute)

lemma sbuf_append_obs [sbuf_obs]:
  assumes "sbuf_ok b" "curpos b + sb_len b + length xs \<le> sb_capacity b"
  shows "sbuf_ok (sbuf_append b xs)" "payload (sbuf_append b xs) = payload b @ xs"
    "sb_len (sbuf_append b xs) = sb_len b + length xs" "curpos (sbuf_append b xs) = curpos b"
    "sb_capacity (sbuf_append b xs) = sb_capacity b" "l_pad (sbuf_append b xs) = l_pad b"
proof -
  have "take (curpos b + sb_len b) (sb_buf b) = take (curpos b) (sb_buf b) @ payload b"
    by (simp add: payload_def take_add)
  then show "payload (sbuf_append b xs) = payload b @ xs"
    using sbuf_okD [OF assms(1)] length_payload [OF assms(1)]
    by (simp add: sbuf_append_def payload_def)
qed (use assms in \<open>auto simp: sbuf_ok_def sbuf_append_def\<close>)

lemma sbufShiftLeft_eq [sbuf_eqs]:
  "sbuf_ok b \<Longrightarrow> n \<le> curpos b \<Longrightarrow>
   sbufShiftLeft b n = Some (b\<lparr>curpos := curpos b - n, sb_len := sb_len b + n\<rparr>)"
  by (simp add: sbufShiftLeft_def sbuf_getters sbuf_ok_def)

lemma sbufShiftRight_eq [sbuf_eqs]:
  "sbuf_ok b \<Longrightarrow> n \<le> sb_len b \<Longrightarrow> sbufShiftRight b n = Some (sbuf_skip b n)"
  by (simp add: sbufShiftRight_def sbuf_ok_def sbuf_skip_def)

lemma sbufSetLength_eq [sbuf_eqs]:
  "sb_capacity b \<le> UINT32_MAX \<Longrightarrow> curpos b + n \<le> sb_capacity b \<Longrightarrow>
   sbufSetLength b n = Some (b\<lparr>sb_len := n\<rparr>)"
  by (simp add: sbufSetLength_def)

lemma sbufConsume_eq [sbuf_eqs]:
  assumes "sbuf_ok b" "n \<le> sb_len b"
  shows "sbufConsume b n = Some (b\<lparr>sb_len := sb_len b - n\<rparr>)"
proof -
  have "curpos b + (sb_len b - n) \<le> sb_capacity b" "sb_len b \<le> UINT32_MAX"
    using sbuf_okD [OF assms(1)] by linarith+
  then show ?thesis
    using assms by (simp add: sbufConsume_def sbuf_getters sbufSetLength_eq sbuf_okD)
qed

lemma sbufRead_eq [sbuf_eqs]:
  "sbuf_ok b \<Longrightarrow> n \<le> sb_len b \<Longrightarrow> sbufRead b n = Some (take n (payload b))"
  by (simp add: sbufRead_def sbuf_ok_def mem_simps payload_def min_def)

lemma sbufWriteAt_eq [sbuf_eqs]:
  "curpos b + off + length xs \<le> length (sb_buf b) \<Longrightarrow>
   sbufWriteAt b off xs = Some (b\<lparr>sb_buf :=
     take (curpos b + off) (sb_buf b) @ xs @ drop (curpos b + off + length xs) (sb_buf b)\<rparr>)"
  by (simp add: sbufWriteAt_def mem_simps)

lemma sbufWriteAt_nil:
  "curpos b + off \<le> length (sb_buf b) \<Longrightarrow> sbufWriteAt b off [] = Some b"
  by (simp add: sbufWriteAt_def mem_simps)

lemma set_write_append [sbuf_eqs]:
  assumes "sbuf_ok b" "curpos b + sb_len b + length xs \<le> sb_capacity b"
  shows "do { c \<leftarrow> sbufSetLength b (sb_len b + length xs); sbufWriteAt c (sb_len b) xs } =
         Some (sbuf_append b xs)"
  using assms
  by (simp add: sbufSetLength_eq sbufWriteAt_eq sbuf_ok_def sbuf_append_def)

lemma sbufTailCapacity_eq [sbuf_eqs]:
  assumes "sbuf_ok b"
  shows "sbufGetTailCapacity b = Some (sb_capacity b - curpos b - sb_len b)"
proof -
  have "sb_len b \<le> sb_capacity b - curpos b" "curpos b \<le> sb_capacity b"
    using sbuf_okD [OF assms] by linarith+
  then show ?thesis
    using sbuf_okD [OF assms] by (simp add: sbufGetTailCapacity_def)
qed

lemma sbufGetMaximumWriteableSize_eq [sbuf_eqs]:
  "sbuf_ok b \<Longrightarrow> sbufGetMaximumWriteableSize b = sb_capacity b - curpos b"
  by (simp add: sbuf_getters sbuf_ok_def)

lemma sbufGetTotalCapacityNoPadding_eq [sbuf_eqs]:
  "sbuf_ok b \<Longrightarrow> sbufGetTotalCapacityNoPadding b = sb_capacity b - l_pad b"
  by (simp add: sbuf_getters sbuf_ok_def)

lemma sbufReset_obs [sbuf_obs]:
  assumes "sbuf_ok b"
  shows "sbuf_ok (sbufReset b)" "payload (sbufReset b) = []" "sb_len (sbufReset b) = 0"
    "curpos (sbufReset b) = l_pad b" "sb_capacity (sbufReset b) = sb_capacity b"
    "l_pad (sbufReset b) = l_pad b"
  using sbuf_okD [OF assms]
  by (simp_all add: sbuf_ok_def sbufReset_def payload_def) (simp add: sbufIsSplice_def)

text \<open>The checksum request is one flag bit, apart from the splice bit.\<close>

lemma flag_or4_bit0: "(f OR (4 :: 16 word)) AND 1 = f AND 1"
  by (rule bit_word_eqI) (auto simp: bit_simps bit_1_iff)

lemma sbufSetRecalculateChecksum_eq [sbuf_eqs]:
  "\<not> sbufIsSplice b \<Longrightarrow> sbufSetRecalculateChecksum b r =
   Some (b\<lparr>sb_flags := (if r then sb_flags b OR 4 else sb_flags b AND NOT 4)\<rparr>)"
  by (simp add: sbufSetRecalculateChecksum_def kSbufFlagRecalculateChecksum_def)

lemma sbufIsSplice_flag [simp]:
  "sbufIsSplice (b\<lparr>sb_flags := (if r then sb_flags c OR 4 else sb_flags c AND NOT 4)\<rparr>) =
   sbufIsSplice c"
  by (simp add: sbufIsSplice_def kSbufFlagSplice_def flag_or4_bit0 and.assoc)

lemma sbufGetRecalculateChecksum_flag [simp]:
  "sbufGetRecalculateChecksum (b\<lparr>sb_flags := (if r then f OR 4 else f AND NOT 4)\<rparr>) = r"
  by (auto simp: sbufGetRecalculateChecksum_def kSbufFlagRecalculateChecksum_def and.assoc)

lemma sbuf_ok_flag [simp]:
  "sbuf_ok (b\<lparr>sb_flags := (if r then sb_flags b OR 4 else sb_flags b AND NOT 4)\<rparr>) = sbuf_ok b"
  by (simp add: sbuf_ok_def del: if_split)

lemma payload_flag [simp]: "payload (b\<lparr>sb_flags := f\<rparr>) = payload b"
  by (simp add: payload_def)

lemma sbufConcatNoCheck_eq [sbuf_eqs]:
  assumes "sbuf_ok root" "sbuf_ok b" "curpos root + sb_len root + sb_len b \<le> sb_capacity root"
  shows "sbufConcatNoCheck root b = Some (sbuf_append root (payload b))"
proof -
  have "u32 (sb_len root + sb_len b) = sb_len root + length (payload b)"
    using assms sbuf_okD(2) [OF assms(1)] by (simp add: length_payload)
  then show ?thesis
    using assms set_write_append [of root "payload b"]
    by (auto simp: sbufConcatNoCheck_def sbuf_getters sbufRead_eq length_payload bind_eq_Some_conv
        Let_def)
qed

lemma sbufMoveTo_eq [sbuf_eqs]:
  assumes "sbuf_ok dest" "sbuf_ok source" "n \<le> sb_len source"
    "curpos dest + sb_len dest + n \<le> sb_capacity dest"
  shows "sbufMoveTo dest source n =
    Some (sbuf_append dest (take n (payload source)), sbuf_skip source n)"
proof -
  have len: "length (take n (payload source)) = n"
    using assms by (simp add: length_payload)
  have u: "u32 (sb_len dest + n) = sb_len dest + n" "sb_len dest \<le> sub32 UINT32_MAX n"
    "sb_len dest + n \<le> sb_capacity dest - curpos dest"
    using assms sbuf_okD(2) [OF assms(1)] by simp_all
  show ?thesis
    using assms sbuf_okD [OF assms(1)] len u
    by (simp add: sbufMoveTo_def Let_def sbufGetLength_def sbufGetMaximumWriteableSize_eq
        sbufRead_eq sbufWriteAt_eq sbufSetLength_eq sbufShiftRight_eq sbuf_append_def)
qed

lemma sbufCreate_ok:
  assumes "pad \<le> UINT16_MAX" "sbuf_fits n pad"
  shows "\<exists>b. sbufCreateWithPadding n pad = Some b \<and> sbuf_ok b \<and> payload b = [] \<and>
    sb_len b = 0 \<and> sb_flags b = 0 \<and> curpos b = round_up 32 pad \<and> l_pad b = round_up 32 pad \<and>
    sb_capacity b = round_up 64 n + round_up 32 pad"
  using assms by (simp add: sbufCreateWithPadding_eq sbufAllocate_ok sbuf_obs)

lemma sbufWriteBuf_eq [sbuf_eqs]:
  assumes "sbuf_ok to" "sbuf_ok from" "n \<le> sb_len from" "n \<le> sb_capacity to - curpos to"
  shows "sbufWriteBuf to from n = sbufWriteAt to 0 (take n (payload from))"
  using assms by (simp add: sbufWriteBuf_def sbufGetMaximumWriteableSize_eq sbufRead_eq)

lemma sbuf_write_whole:
  assumes "sbuf_ok b" "sb_len b = length xs"
  shows "\<exists>d. sbufWriteAt b 0 xs = Some d \<and> sbuf_ok d \<and> payload d = xs \<and> sb_flags d = sb_flags b \<and>
    curpos d = curpos b \<and> sb_capacity d = sb_capacity b \<and> l_pad d = l_pad b \<and> sb_len d = sb_len b"
  using assms by (simp add: sbufWriteAt_eq sbuf_ok_def payload_def)

lemma sbuf_ok_set_len:
  "sbuf_ok b \<Longrightarrow> curpos b + n \<le> sb_capacity b \<Longrightarrow> sbuf_ok (b\<lparr>sb_len := n\<rparr>)"
  by (simp add: sbuf_ok_def)

lemma sbufReserveSpace_same [sbuf_eqs]:
  "sbuf_ok b \<Longrightarrow> n \<le> sb_capacity b - curpos b \<Longrightarrow> sbufReserveSpace b n = Some b"
  by (simp add: sbufReserveSpace_def sbufGetMaximumWriteableSize_eq)

lemma sbufReserveSpace_grow:
  assumes b: "sbuf_ok b" and n: "sb_capacity b - curpos b < n" and fits: "sbuf_fits n (l_pad b)"
  shows "\<exists>d. sbufReserveSpace b n = Some d \<and> sbuf_ok d \<and> payload d = payload b \<and>
    sb_len d = sb_len b \<and> n \<le> sb_capacity d - curpos d \<and> l_pad d = l_pad b \<and> curpos d = l_pad b \<and>
    sbufGetRecalculateChecksum d = sbufGetRecalculateChecksum b"
proof -
  note [simp] = length_payload [OF b]
  have len: "sb_len b \<le> n" "max (sb_len b) n = n" using sbuf_okD(3) [OF b] n by simp_all
  obtain f where f: "sbufCreateWithPadding n (l_pad b) = Some f" "sbuf_ok f"
    "curpos f = l_pad b" "l_pad f = l_pad b" "sb_capacity f = round_up 64 n + l_pad b"
    using sbufCreate_ok [OF sbuf_okD(5) [OF b] fits] sbuf_fits_same(3) [OF b] by auto
  have room: "n \<le> sb_capacity f - curpos f" using f round_up_ge [of 64 n] by simp
  let ?g = "f\<lparr>sb_len := sb_len b\<rparr>"
  have g: "sbufSetLength f (sb_len b) = Some ?g" "sbuf_ok ?g"
    using f len room sbuf_okD [OF f(2)] by (auto simp: sbufSetLength_eq intro!: sbuf_ok_set_len)
  obtain h where h: "sbufWriteAt ?g 0 (payload b) = Some h" "sbuf_ok h" "payload h = payload b"
    "curpos h = curpos f" "sb_capacity h = sb_capacity f" "l_pad h = l_pad f" "sb_len h = sb_len b"
    using sbuf_write_whole [OF g(2), of "payload b"] by auto
  have w: "sbufWriteBuf ?g b (sb_len b) = Some h"
    using h(1) g b len room by (simp add: sbufWriteBuf_eq)
  have "\<not> sbufIsSplice h" using sbuf_okD(8) [OF h(2)] .
  then show ?thesis
    using f g h w room n b len
    by (simp add: sbufReserveSpace_def sbufGetMaximumWriteableSize_eq sbufGetLength_def
        sbufSetRecalculateChecksum_eq del: if_split)
qed

lemma sbufReserveSpace_None:
  assumes "sbuf_ok b" "sb_capacity b - curpos b < n" "\<not> sbuf_fits n (l_pad b)"
  shows "sbufReserveSpace b n = None"
proof -
  have "max (sb_len b) n = n" using assms(2) sbuf_okD(3) [OF assms(1)] by simp
  then show ?thesis
    using assms sbuf_okD [OF assms(1)]
    by (simp add: sbufReserveSpace_def sbufGetMaximumWriteableSize_eq sbufGetLength_def
        sbufCreateWithPadding_eq)
qed

lemma sbufReserveSpace_cases:
  assumes "sbuf_ok b" "n \<le> sb_capacity b - curpos b \<or> sbuf_fits n (l_pad b)"
  shows "\<exists>d. sbufReserveSpace b n = Some d \<and> sbuf_ok d \<and> payload d = payload b \<and>
    sb_len d = sb_len b \<and> n \<le> sb_capacity d - curpos d \<and> l_pad d = l_pad b \<and>
    sbufGetRecalculateChecksum d = sbufGetRecalculateChecksum b"
proof (cases "n \<le> sb_capacity b - curpos b")
  case True
  then show ?thesis using assms(1) by (simp add: sbufReserveSpace_same)
next
  case False
  then show ?thesis using sbufReserveSpace_grow [OF assms(1), of n] assms(2) by auto
qed

lemma sbufConcat_ok:
  assumes "sbuf_ok root" "sbuf_ok b"
    "sb_len root + sb_len b \<le> sb_capacity root - curpos root \<or>
     sbuf_fits (sb_len root + sb_len b) (l_pad root)"
  shows "\<exists>d. sbufConcat root b = Some d \<and> sbuf_ok d \<and> payload d = payload root @ payload b \<and>
    l_pad d = l_pad root"
proof -
  let ?n = "sb_len root + sb_len b"
  have n: "?n \<le> UINT32_MAX"
    using assms(3) sbuf_okD [OF assms(1)] round_up_ge [of 64 ?n] by (auto simp: sbuf_fits_def)
  obtain d where d: "sbufReserveSpace root ?n = Some d" "sbuf_ok d" "payload d = payload root"
    "sb_len d = sb_len root" "?n \<le> sb_capacity d - curpos d" "l_pad d = l_pad root"
    using sbufReserveSpace_cases [OF assms(1,3)] by auto
  have room: "curpos d + sb_len d + length (payload b) \<le> sb_capacity d"
    using d sbuf_okD(3) [OF d(2)] by (simp add: length_payload [OF assms(2)])
  have "sbufConcat root b = Some (sbuf_append d (payload b))"
    using set_write_append [OF d(2) room] n d(1,4) assms(2)
    by (auto simp: sbufConcat_def Let_def sbufGetLength_def sbufRead_eq length_payload
        bind_eq_Some_conv)
  then show ?thesis using d room by (simp add: sbuf_append_obs)
qed

lemma sbufConcat_None:
  assumes "sbuf_ok root" "sbuf_ok b"
    "sb_capacity root - curpos root < sb_len root + sb_len b"
    "\<not> sbuf_fits (sb_len root + sb_len b) (l_pad root)"
  shows "sbufConcat root b = None"
proof (cases "sb_len root + sb_len b \<le> UINT32_MAX")
  case True
  then show ?thesis
    using sbufReserveSpace_None [OF assms(1,3,4)]
    by (simp add: sbufConcat_def Let_def sbufGetLength_def)
next
  case False
  moreover have "sb_len b \<le> UINT32_MAX" using sbuf_okD(2,3) [OF assms(2)] by simp
  moreover from calculation have "UINT32_MAX - sb_len b < sb_len root" by linarith
  ultimately show ?thesis by (simp add: sbufConcat_def Let_def sbufGetLength_def)
qed

lemma sbufDuplicateTo_ok:
  assumes b: "sbuf_ok b" and dest: "sbuf_ok dest" and fit: "curpos b + sb_len b \<le> sb_capacity dest"
  shows "\<exists>d. sbufDuplicateTo b dest = Some (True, d) \<and> sbuf_ok d \<and> payload d = payload b \<and>
    curpos d = curpos b \<and> sb_len d = sb_len b \<and> sb_capacity d = sb_capacity dest \<and>
    l_pad d = l_pad dest \<and> sbufGetRecalculateChecksum d = sbufGetRecalculateChecksum b"
proof -
  note [simp] = length_payload [OF b]
  let ?g = "dest\<lparr>curpos := curpos b, sb_len := sb_len b\<rparr>"
  have g: "sbufSetLength (dest\<lparr>curpos := curpos b\<rparr>) (sb_len b) = Some ?g" "sbuf_ok ?g"
    using fit sbuf_okD [OF dest] by (simp_all add: sbufSetLength_eq sbuf_ok_def)
  obtain h where h: "sbufWriteAt ?g 0 (payload b) = Some h" "sbuf_ok h" "payload h = payload b"
    "curpos h = curpos b" "sb_capacity h = sb_capacity dest" "l_pad h = l_pad dest"
    "sb_len h = sb_len b"
    using sbuf_write_whole [OF g(2), of "payload b"] by auto
  have e: "(if sb_len b > 0 then do { xs \<leftarrow> sbufRead b (sb_len b); sbufWriteAt ?g 0 xs } else Some ?g)
      = Some h"
    using h(1) b fit sbuf_okD(1) [OF dest]
    by (cases "sb_len b = 0") (simp_all add: sbufRead_eq sbufWriteAt_nil payload_def)
  have s: "sub32 (sb_capacity dest) (curpos b) = sb_capacity dest - curpos b"
    using fit sbuf_okD(2) [OF dest] by simp
  have "sb_len b \<le> sb_capacity dest - curpos b" "curpos b \<le> sb_capacity dest" using fit by linarith+
  then have "sbufDuplicateTo b dest = Some (True, h\<lparr>sb_flags :=
      (if sbufGetRecalculateChecksum b then sb_flags h OR 4 else sb_flags h AND NOT 4)\<rparr>)"
    unfolding sbufDuplicateTo_def Let_def sbufGetLength_def sbufGetTotalCapacity_def s g(1)
    using e sbuf_okD(8) [OF h(2)]
    by (simp add: sbufSetRecalculateChecksum_eq del: if_split)
  then show ?thesis using h by (simp del: if_split)
qed

lemma sbufDuplicateTo_small:
  assumes "sbuf_ok b" "sbuf_ok dest" "sb_capacity dest < curpos b + sb_len b"
  shows "sbufDuplicateTo b dest = Some (False, dest)"
  using assms sbuf_okD(2) [OF assms(2)]
  by (cases "curpos b \<le> sb_capacity dest") (auto simp: sbufDuplicateTo_def Let_def sbuf_getters)

lemma sbufDuplicate_ok:
  assumes b: "sbuf_ok b"
  shows "\<exists>d. sbufDuplicate b = Some d \<and> sbuf_ok d \<and> payload d = payload b \<and>
    curpos d = curpos b \<and> sb_len d = sb_len b \<and> sb_capacity d = sb_capacity b \<and>
    l_pad d = l_pad b \<and> sbufGetRecalculateChecksum d = sbufGetRecalculateChecksum b"
proof -
  note fits = sbuf_fits_same [OF b]
  obtain f where f: "sbufCreateWithPadding (sb_capacity b - l_pad b) (l_pad b) = Some f"
    "sbuf_ok f" "sb_capacity f = sb_capacity b" "l_pad f = l_pad b"
    using sbufCreate_ok [OF sbuf_okD(5) [OF b] fits(1)] fits(2,3) by auto
  from sbufDuplicateTo_ok [OF b f(2)] f sbuf_okD(3) [OF b] show ?thesis
    by (auto simp: sbufDuplicate_def sbufGetTotalCapacityNoPadding_eq [OF b])
qed

lemma sbufSlice_ok:
  assumes b: "sbuf_ok b" and n: "n \<le> sb_len b" and fits: "sbuf_fits n (l_pad b)"
  shows "\<exists>d r. sbufSlice b n = Some (d, r) \<and> sbuf_ok d \<and> sbuf_ok r \<and>
    payload d = take n (payload b) \<and> payload r = drop n (payload b) \<and>
    sb_capacity r = sb_capacity b \<and> l_pad d = l_pad b"
proof -
  obtain f where f: "sbufCreateWithPadding n (l_pad b) = Some f" "sbuf_ok f" "payload f = []"
    "sb_len f = 0" "curpos f = l_pad b" "l_pad f = l_pad b" "sb_capacity f = round_up 64 n + l_pad b"
    using sbufCreate_ok [OF sbuf_okD(5) [OF b] fits] sbuf_fits_same(3) [OF b] by auto
  have room: "curpos f + sb_len f + n \<le> sb_capacity f" using f round_up_ge [of 64 n] by simp
  have len: "length (take n (payload b)) = n" using n by (simp add: length_payload [OF b])
  have "sbufSlice b n = Some (sbuf_append f (take n (payload b)), sbuf_skip b n)"
    using f(1) b n sbufMoveTo_eq [OF f(2) b n room] sbuf_okD(8) [OF b]
    by (simp add: sbufSlice_def sbufGetLength_def)
  then show ?thesis
    using sbuf_append_obs [OF f(2), of "take n (payload b)"] sbuf_skip_obs [OF b n] f room len by simp
qed

lemma sbuf_prepend:
  assumes b: "sbuf_ok b" and n: "length xs \<le> curpos b"
  shows "\<exists>c d. sbufShiftLeft b (length xs) = Some c \<and> sbufWrite c xs = Some d \<and> sbuf_ok d \<and>
    payload d = xs @ payload b \<and> curpos d = curpos b - length xs \<and>
    sb_capacity d = sb_capacity b \<and> l_pad d = l_pad b"
proof -
  let ?c = "b\<lparr>curpos := curpos b - length xs, sb_len := sb_len b + length xs\<rparr>"
  let ?m = "take (curpos b - length xs) (sb_buf b) @ xs @ drop (curpos b) (sb_buf b)"
  have w: "sbufWrite ?c xs = Some (?c\<lparr>sb_buf := ?m\<rparr>)"
    using n sbuf_okD [OF b] by (simp add: sbufWrite_def sbufWriteAt_eq)
  have "payload (?c\<lparr>sb_buf := ?m\<rparr>) = xs @ payload b"
    using n sbuf_okD [OF b] by (simp add: payload_def)
  moreover have "sbuf_ok (?c\<lparr>sb_buf := ?m\<rparr>)"
    using n sbuf_okD [OF b] by (simp add: sbuf_ok_def)
  ultimately show ?thesis
    using w sbufShiftLeft_eq [OF b n] by simp
qed

lemma sbufWriteUI16_read:
  assumes "sbuf_ok b" "2 \<le> sb_len b"
  shows "\<exists>d. sbufWriteUI16 b v = Some d \<and> sbuf_ok d \<and> sbufReadUI16 d = Some (v mod 65536)"
proof -
  let ?m = "take (curpos b) (sb_buf b) @ le_bytes 2 v @ drop (curpos b + 2) (sb_buf b)"
  have "sbufWriteUI16 b v = Some (b\<lparr>sb_buf := ?m\<rparr>)"
    using assms by (simp add: sbufWriteUI16_def sbufWriteAt_eq sbuf_ok_def)
  moreover have "sbufReadUI16 (b\<lparr>sb_buf := ?m\<rparr>) = Some (v mod 65536)"
    using assms le_value_le_bytes [of 2 v]
    by (auto simp: sbufReadUI16_def sbufRead_def mem_read_def sbuf_ok_def)
  ultimately show ?thesis using assms by (auto simp: sbuf_ok_def)
qed

text \<open>
  The debug guard of \<open>sbufSetLength\<close> adds in 32 bits, so a length close to the type's
  maximum passes it and leaves a payload outside the storage.
\<close>

definition sbuf_sample :: sbuf where
  "sbuf_sample = \<lparr>curpos = 32, sb_len = 0, sb_capacity = 96, l_pad = 32, sb_flags = 0,
     sb_buf = replicate 96 0x55\<rparr>"

lemma sbuf_sample_ok: "sbuf_ok sbuf_sample"
  by (simp add: sbuf_ok_def sbuf_sample_def sbufIsSplice_def)

lemma payload_sample: "payload sbuf_sample = []"
  by (simp add: payload_def sbuf_sample_def)

lemma sbufSetLength_guard_wraps:
  "sbufSetLength sbuf_sample 4294967264 = Some (sbuf_sample\<lparr>sb_len := 4294967264\<rparr>)"
  "\<not> sbuf_ok (sbuf_sample\<lparr>sb_len := 4294967264\<rparr>)"
  by (simp_all add: sbufSetLength_def sbuf_sample_def u32_def sbuf_ok_def)

section \<open>Properties\<close>

text \<open>C29. Buffer sizing is exact: for every request, padding and allocation ceiling the
  64-bit computation accepts precisely the requests whose cache-line and padding rounding,
  done in unbounded arithmetic, fits a 32-bit capacity and, with the 64 bytes of header and
  alignment overhead, the ceiling. It then reports that exact capacity, so no
  wrapped-around size is ever accepted.\<close>

theorem sbuf_capacity_exact:
  assumes "pad_left \<le> UINT16_MAX" "size_max \<le> UINT64_MAX"
  shows "sbufTryComputeCapacityWithin minimum_capacity pad_left size_max =
    (if round_up 32 pad_left \<le> UINT16_MAX \<and>
        round_up 64 minimum_capacity + round_up 32 pad_left \<le> UINT32_MAX \<and>
        round_up 64 minimum_capacity + round_up 32 pad_left + 64 \<le> size_max
     then Some (round_up 64 minimum_capacity + round_up 32 pad_left) else None)"
  using sbufTryComputeCapacityWithin_eq [OF assms] by (simp add: sbuf_fits_def)

theorem sbuf_capacity_exact_witness:
  "sbufTryComputeCapacityWithin 4294967295 32 4294967295 = None \<and>
   sbufTryComputeCapacityWithin 100 40 4294967295 = Some 192"
  using sbuf_capacity_exact [of 32 4294967295 4294967295] sbuf_capacity_exact [of 40 4294967295 100]
  by (simp add: round_up_def)

text \<open>Duplicating a well-formed buffer never aborts and yields a well-formed buffer with
  the same payload, cursor, capacity, padding and checksum-repair request.\<close>

lemma sbuf_duplicate_total:
  assumes "sbuf_ok b"
  shows "\<exists>d. sbufDuplicate b = Some d \<and> sbuf_ok d \<and> payload d = payload b \<and>
    curpos d = curpos b \<and> sb_capacity d = sb_capacity b \<and> l_pad d = l_pad b \<and>
    sbufGetRecalculateChecksum d = sbufGetRecalculateChecksum b"
  using sbufDuplicate_ok [OF assms] by auto

text \<open>C30. Concatenation appends the whole second payload to the first, growing the storage
  when needed. It aborts exactly when the combined payload neither fits the present storage
  nor a representable replacement.\<close>

theorem sbuf_concat_exact:
  assumes "sbuf_ok root" "sbuf_ok b"
  shows "case sbufConcat root b of
      Some d \<Rightarrow> sbuf_ok d \<and> payload d = payload root @ payload b \<and> l_pad d = l_pad root
    | None \<Rightarrow> sb_capacity root - curpos root < sb_len root + sb_len b \<and>
        \<not> sbuf_fits (sb_len root + sb_len b) (l_pad root)"
proof (cases "sb_len root + sb_len b \<le> sb_capacity root - curpos root \<or>
     sbuf_fits (sb_len root + sb_len b) (l_pad root)")
  case True
  then show ?thesis using sbufConcat_ok [OF assms] by auto
next
  case False
  then show ?thesis using sbufConcat_None [OF assms] by (simp add: not_le)
qed

theorem sbuf_concat_exact_witness:
  "\<exists>c d. sbufShiftLeft sbuf_sample 3 = Some c \<and> sbufConcat c c = Some d \<and> length (payload d) = 6"
proof -
  let ?c = "sbuf_sample\<lparr>curpos := 29, sb_len := 3\<rparr>"
  have ok: "sbuf_ok ?c" by (simp add: sbuf_ok_def sbuf_sample_def sbufIsSplice_def)
  have "sbufShiftLeft sbuf_sample 3 = Some ?c"
    by (simp add: sbufShiftLeft_def sbuf_getters sbuf_sample_def)
  moreover have "\<exists>d. sbufConcat ?c ?c = Some d \<and> length (payload d) = 6"
    using sbuf_concat_exact [OF ok ok] length_payload [OF ok]
    by (cases "sbufConcat ?c ?c") (auto simp: sbuf_sample_def)
  ultimately show ?thesis by blast
qed

text \<open>A header written into the left padding comes before the payload, and shifting right
  by its length gives the original payload and cursor back.\<close>

lemma sbuf_header_roundtrip:
  assumes "sbuf_ok b" "length hdr \<le> curpos b"
  shows "\<exists>c d e. sbufShiftLeft b (length hdr) = Some c \<and> sbufWrite c hdr = Some d \<and>
    payload d = hdr @ payload b \<and> sbufShiftRight d (length hdr) = Some e \<and>
    sbuf_ok e \<and> payload e = payload b \<and> curpos e = curpos b"
proof -
  obtain c d where cd: "sbufShiftLeft b (length hdr) = Some c" "sbufWrite c hdr = Some d" "sbuf_ok d"
    "payload d = hdr @ payload b" "curpos d = curpos b - length hdr"
    using sbuf_prepend [OF assms] by blast
  have "length hdr \<le> sb_len d" using length_payload [OF cd(3)] cd(4) by simp
  with cd assms show ?thesis by (simp add: sbufShiftRight_eq sbuf_skip_obs)
qed

end
