(* ===== verification/Pools.thy ===== *)
theory Pools
  imports WW_Prelude "HOL-Library.Multiset"
begin

text \<open>
  The two object pools under the buffer pool: the mutex-protected master pool shared by the
  workers (\<open>ww/bufio/master_pool.h\<close>, \<open>master_pool.c\<close>) and the worker-local generic pool
  that draws from it (\<open>generic_pool.h\<close>, \<open>generic_pool.c\<close>). A pool's slot array is the list of
  its used slots, so the length field is the length of that list. A create handle is the
  outcome of calling it: \<open>None\<close> when it aborts or returns NULL, which the pools treat alike.

  The lockless length probes of the master pool are arguments: a stale probe is any number.
\<close>

section \<open>Allocation sizes\<close>

definition memoryTryComputeArraySize :: "nat \<Rightarrow> nat \<Rightarrow> nat option" where
  "memoryTryComputeArraySize cnt item_size =
     (if item_size = 0 \<or> cnt > SIZE_MAX div item_size then None
      else Some (u64 (cnt * item_size)))"

definition memoryAlignmentIsValid :: "nat \<Rightarrow> bool" where
  "memoryAlignmentIsValid alignment \<longleftrightarrow>
     alignment \<noteq> 0 \<and> (word_of_nat alignment :: 64 word) AND (word_of_nat alignment - 1) = 0"

definition sizeof_pointer :: nat where
  "sizeof_pointer = 8"

definition memoryAlignedAllocationSizeIsRepresentable :: "nat \<Rightarrow> nat \<Rightarrow> bool" where
  "memoryAlignedAllocationSizeIsRepresentable sz alignment \<longleftrightarrow>
     memoryAlignmentIsValid alignment \<and> sz \<le> sub64 SIZE_MAX (max alignment sizeof_pointer)"

section \<open>The master pool\<close>

record 'a master_pool =
  mp_available :: "'a list"
  mp_checked_out :: nat
  mp_cap :: nat

definition masterpoolRecordCheckout :: "'a master_pool \<Rightarrow> 'a master_pool option" where
  "masterpoolRecordCheckout pool =
     (let previous = mp_checked_out pool in do {
        ensure (previous \<noteq> SIZE_MAX);
        Some (pool\<lparr>mp_checked_out := u64 (previous + 1)\<rparr>)
      })"

definition masterpoolRecordReturn :: "'a master_pool \<Rightarrow> 'a master_pool option" where
  "masterpoolRecordReturn pool =
     (let previous = mp_checked_out pool in do {
        ensure (previous \<noteq> 0);
        Some (pool\<lparr>mp_checked_out := sub64 previous 1\<rparr>)
      })"

definition masterpoolGetCheckedOut :: "'a master_pool \<Rightarrow> nat" where
  "masterpoolGetCheckedOut pool = mp_checked_out pool"

definition masterpoolTryComputeGeometry :: "nat \<Rightarrow> nat \<Rightarrow> (nat \<times> nat) option" where
  "masterpoolTryComputeGeometry sizeof_master_pool pool_width =
     (let width = max 1 pool_width in
      if width > UINT32_MAX div 2 then None
      else
        let capacity = u32 (width * 2) in
        case memoryTryComputeArraySize capacity sizeof_pointer of
          None \<Rightarrow> None
        | Some container_len \<Rightarrow>
            if container_len > sub64 SIZE_MAX sizeof_master_pool then None
            else
              let required_size = u64 (sizeof_master_pool + container_len) in
              if \<not> memoryAlignedAllocationSizeIsRepresentable required_size 64 then None
              else Some (capacity, required_size))"

definition masterpoolCreateWithCapacity :: "nat \<Rightarrow> bool \<Rightarrow> nat \<Rightarrow> 'a master_pool option" where
  "masterpoolCreateWithCapacity sizeof_master_pool mutex_ok pool_width =
     (case masterpoolTryComputeGeometry sizeof_master_pool pool_width of
        None \<Rightarrow> None
      | Some (capacity, _) \<Rightarrow>
          if mutex_ok then Some \<lparr>mp_available = [], mp_checked_out = 0, mp_cap = capacity\<rparr>
          else None)"

primrec create_items :: "'a option \<Rightarrow> nat \<Rightarrow> 'a list option" where
  "create_items create 0 = Some []"
| "create_items create (Suc n) = do { x \<leftarrow> create; xs \<leftarrow> create_items create n; Some (x # xs) }"

definition masterpoolTryGetItems :: "'a master_pool \<Rightarrow> nat \<Rightarrow> 'a list \<times> 'a master_pool" where
  "masterpoolTryGetItems pool requested =
     (let cnt = length (mp_available pool);
          taken = min cnt requested
      in (map (\<lambda>i. mp_available pool ! (cnt - 1 - i)) [0..<taken],
          pool\<lparr>mp_available := take (cnt - taken) (mp_available pool)\<rparr>))"

definition masterpoolTryGetItem :: "'a master_pool \<Rightarrow> 'a option \<times> 'a master_pool" where
  "masterpoolTryGetItem pool =
     (case masterpoolTryGetItems pool 1 of
        ([], pool') \<Rightarrow> (None, pool')
      | (item # _, pool') \<Rightarrow> (Some item, pool'))"

definition masterpoolGetItems ::
  "'a option \<Rightarrow> nat \<Rightarrow> 'a master_pool \<Rightarrow> nat \<Rightarrow> ('a list \<times> 'a master_pool) option" where
  "masterpoolGetItems create probe pool cnt =
     (let (taken, pool') =
            (if probe > 0 then
               let tmp_len = length (mp_available pool);
                   consumed = min tmp_len cnt
               in if consumed > 0 then
                    let pbase = tmp_len - consumed
                    in (map (\<lambda>i. mp_available pool ! (pbase + i)) [0..<consumed],
                        pool\<lparr>mp_available := take pbase (mp_available pool)\<rparr>)
                  else ([], pool)
             else ([], pool))
      in do {
        fresh \<leftarrow> create_items create (cnt - length taken);
        Some (taken @ fresh, pool')
      })"

text \<open>The first component lists the items handed to the destroy handle.\<close>

definition masterpoolReuseItems ::
  "nat \<Rightarrow> 'a master_pool \<Rightarrow> 'a list \<Rightarrow> 'a list \<times> 'a master_pool" where
  "masterpoolReuseItems probe pool items =
     (if mp_cap pool = probe then (items, pool)
      else
        let tmp_len = length (mp_available pool);
            consumed = min (sub32 (mp_cap pool) tmp_len) (length items)
        in (drop consumed items,
            pool\<lparr>mp_available := mp_available pool @ take consumed items\<rparr>))"

definition masterpoolMakeEmpty :: "'a master_pool \<Rightarrow> 'a list \<times> 'a master_pool" where
  "masterpoolMakeEmpty pool = (mp_available pool, pool\<lparr>mp_available := []\<rparr>)"

definition masterpoolDestroy :: "'a master_pool \<Rightarrow> unit option" where
  "masterpoolDestroy pool =
     (if masterpoolGetCheckedOut pool \<noteq> 0 then None
      else if length (mp_available pool) \<noteq> 0 then None
      else Some ())"

section \<open>The generic pool\<close>

record 'a generic_pool =
  gp_available :: "'a list"
  gp_cap :: nat
  gp_free_threshold :: nat
  gp_item_size :: nat

definition genericpoolTryComputeGeometry :: "nat \<Rightarrow> nat \<Rightarrow> (nat \<times> nat \<times> nat) option" where
  "genericpoolTryComputeGeometry sizeof_generic_pool pool_width =
     (let width = max 1 pool_width in
      if width > UINT32_MAX div 2 then None
      else
        let capacity = u32 (width * 2) in
        case memoryTryComputeArraySize capacity sizeof_pointer of
          None \<Rightarrow> None
        | Some container_len \<Rightarrow>
            if container_len > sub64 SIZE_MAX sizeof_generic_pool then None
            else Some (capacity, u32 (u64 (capacity * 2) div 3),
                       u64 (sizeof_generic_pool + container_len)))"

definition allocateGenericPool :: "nat \<Rightarrow> nat \<Rightarrow> nat \<Rightarrow> 'a generic_pool option" where
  "allocateGenericPool sizeof_generic_pool item_size pool_width =
     (case genericpoolTryComputeGeometry sizeof_generic_pool pool_width of
        None \<Rightarrow> None
      | Some (capacity, free_threshold, _) \<Rightarrow>
          Some \<lparr>gp_available = [], gp_cap = capacity, gp_free_threshold = free_threshold,
                gp_item_size = item_size\<rparr>)"

definition genericpoolReCharge ::
  "'a option \<Rightarrow> 'a generic_pool \<Rightarrow> 'a master_pool \<Rightarrow> ('a generic_pool \<times> 'a master_pool) option" where
  "genericpoolReCharge create pool mp =
     (let len = length (gp_available pool);
          increase = min (sub32 (gp_cap pool) len) (gp_cap pool div 2)
      in do {
        ensure (len + increase \<le> gp_cap pool);
        (items, mp) \<leftarrow> masterpoolGetItems create (length (mp_available mp)) mp increase;
        Some (pool\<lparr>gp_available := gp_available pool @ items\<rparr>, mp)
      })"

definition genericpoolShrink ::
  "'a generic_pool \<Rightarrow> 'a master_pool \<Rightarrow> 'a generic_pool \<times> 'a master_pool" where
  "genericpoolShrink pool mp =
     (let len = length (gp_available pool);
          decrease = (if len < gp_cap pool div 2 then len else gp_cap pool div 2);
          (_, mp) = masterpoolReuseItems (length (mp_available mp)) mp
                      (drop (len - decrease) (gp_available pool))
      in (pool\<lparr>gp_available := take (len - decrease) (gp_available pool)\<rparr>, mp))"

definition genericpoolGetItem ::
  "'a option \<Rightarrow> 'a generic_pool \<Rightarrow> 'a master_pool \<Rightarrow> ('a \<times> 'a generic_pool \<times> 'a master_pool) option" where
  "genericpoolGetItem create pool mp = do {
     mp \<leftarrow> masterpoolRecordCheckout mp;
     (pool, mp) \<leftarrow> (if gp_available pool \<noteq> [] then Some (pool, mp)
                     else genericpoolReCharge create pool mp);
     ensure (gp_available pool \<noteq> []);
     Some (last (gp_available pool), pool\<lparr>gp_available := butlast (gp_available pool)\<rparr>, mp)
   }"

definition genericpoolReuseItem ::
  "'a generic_pool \<Rightarrow> 'a master_pool \<Rightarrow> 'a \<Rightarrow> ('a generic_pool \<times> 'a master_pool) option" where
  "genericpoolReuseItem pool mp b =
     (let (pool, mp) = (if length (gp_available pool) > gp_free_threshold pool
                        then genericpoolShrink pool mp else (pool, mp))
      in do {
        ensure (length (gp_available pool) < gp_cap pool);
        mp \<leftarrow> masterpoolRecordReturn mp;
        Some (pool\<lparr>gp_available := gp_available pool @ [b]\<rparr>, mp)
      })"

definition genericpoolReuseItemShared :: "'a master_pool \<Rightarrow> 'a \<Rightarrow> 'a master_pool option" where
  "genericpoolReuseItemShared mp item = do {
     ensure (masterpoolGetCheckedOut mp > 0);
     masterpoolRecordReturn (snd (masterpoolReuseItems (length (mp_available mp)) mp [item]))
   }"

definition genericpoolDestroy :: "'a generic_pool \<Rightarrow> 'a list" where
  "genericpoolDestroy pool = gp_available pool"

section \<open>Master pool laws\<close>

definition mp_ok :: "('a \<Rightarrow> bool) \<Rightarrow> 'a master_pool \<Rightarrow> bool" where
  "mp_ok P mp \<longleftrightarrow>
     length (mp_available mp) \<le> mp_cap mp \<and> mp_cap mp \<le> UINT32_MAX \<and> (\<forall>x\<in>set (mp_available mp). P x)"

lemma map_nth_offset: "map (\<lambda>i. xs ! (k + i)) [0..<length xs - k] = drop k xs"
  by (rule nth_equalityI) simp_all

lemma create_items_Some [simp]: "create_items (Some x) n = Some (replicate n x)"
  by (induction n) simp_all

lemma create_items_length: "create_items create n = Some xs \<Longrightarrow> length xs = n"
  by (induction n arbitrary: xs) (auto simp: guard_simps)

lemma create_items_made: "create_items create n = Some xs \<Longrightarrow> x \<in> set xs \<Longrightarrow> create = Some x"
  by (induction n arbitrary: xs) (auto simp: guard_simps)

text \<open>The number of cached items a call takes.\<close>

definition mp_taken :: "nat \<Rightarrow> 'a master_pool \<Rightarrow> nat \<Rightarrow> nat" where
  "mp_taken probe pool n = (if probe > 0 then min (length (mp_available pool)) n else 0)"

lemma masterpoolGetItems_eq:
  "masterpoolGetItems create probe pool n =
     (let k = mp_taken probe pool n; base = length (mp_available pool) - k in do {
        fresh \<leftarrow> create_items create (n - k);
        Some (drop base (mp_available pool) @ fresh, pool\<lparr>mp_available := take base (mp_available pool)\<rparr>)
      })"
proof (cases "mp_taken probe pool n = 0")
  case True
  then have "probe = 0 \<or> min (length (mp_available pool)) n = 0"
    by (simp add: mp_taken_def split: if_splits)
  then show ?thesis using True by (auto simp: masterpoolGetItems_def Let_def)
next
  case False
  let ?xs = "mp_available pool" and ?k = "mp_taken probe pool n"
  have p: "probe > 0" "?k = min (length ?xs) n" "?k > 0"
    using False by (auto simp: mp_taken_def split: if_splits)
  have "map (\<lambda>i. ?xs ! (length ?xs - ?k + i)) [0..<?k] = drop (length ?xs - ?k) ?xs"
    using map_nth_offset [of ?xs "length ?xs - ?k"] p(2) by simp
  then show ?thesis using p by (simp add: masterpoolGetItems_def Let_def)
qed

lemma mp_taken_le [simp]: "mp_taken probe pool n \<le> n"
  "mp_taken probe pool n \<le> length (mp_available pool)"
  by (simp_all add: mp_taken_def)

lemma masterpoolGetItems_length:
  "masterpoolGetItems create probe pool n = Some (items, pool') \<Longrightarrow> length items = n"
  by (auto simp: masterpoolGetItems_eq Let_def guard_simps dest: create_items_length)

lemma masterpoolGetItems_conserve:
  assumes "masterpoolGetItems create probe pool n = Some (items, pool')"
  shows "\<exists>fresh. mset items + mset (mp_available pool') = mset (mp_available pool) + mset fresh \<and>
    (\<forall>x\<in>set fresh. create = Some x) \<and> length fresh \<le> n \<and>
    mp_checked_out pool' = mp_checked_out pool \<and> mp_cap pool' = mp_cap pool"
proof -
  let ?xs = "mp_available pool" and ?k = "mp_taken probe pool n"
  obtain fresh where f: "create_items create (n - ?k) = Some fresh"
    "items = drop (length ?xs - ?k) ?xs @ fresh"
    "pool' = pool\<lparr>mp_available := take (length ?xs - ?k) ?xs\<rparr>"
    using assms by (auto simp: masterpoolGetItems_eq Let_def guard_simps)
  have "mset (take (length ?xs - ?k) ?xs) + mset (drop (length ?xs - ?k) ?xs) = mset ?xs"
    by (metis append_take_drop_id mset_append)
  then have "mset items + mset (mp_available pool') = mset ?xs + mset fresh"
    using f by (simp add: ac_simps)
  then show ?thesis using f create_items_length [OF f(1)] create_items_made [OF f(1)]
    by (intro exI [of _ fresh]) auto
qed

lemma masterpoolGetItems_ok:
  assumes "mp_ok P pool" "create = Some x" "P x"
  shows "\<exists>items pool'. masterpoolGetItems create probe pool n = Some (items, pool') \<and>
    length items = n \<and> (\<forall>i\<in>set items. P i) \<and> mp_ok P pool' \<and>
    mp_checked_out pool' = mp_checked_out pool"
proof -
  let ?xs = "mp_available pool" and ?k = "mp_taken probe pool n"
  let ?items = "drop (length ?xs - ?k) ?xs @ replicate (n - ?k) x"
  have "masterpoolGetItems create probe pool n =
      Some (?items, pool\<lparr>mp_available := take (length ?xs - ?k) ?xs\<rparr>)"
    using assms by (simp add: masterpoolGetItems_eq Let_def)
  moreover have "\<forall>i\<in>set ?items. P i"
    using assms by (auto simp: mp_ok_def dest: in_set_dropD)
  moreover have "mp_ok P (pool\<lparr>mp_available := take (length ?xs - ?k) ?xs\<rparr>)"
    using assms by (auto simp: mp_ok_def dest: in_set_takeD)
  ultimately show ?thesis by simp
qed

lemma masterpoolReuseItems_conserve:
  assumes "masterpoolReuseItems probe pool items = (gone, pool')"
  shows "mset gone + mset (mp_available pool') = mset (mp_available pool) + mset items"
    "mp_checked_out pool' = mp_checked_out pool" "mp_cap pool' = mp_cap pool"
proof -
  have "mset (take k items) + mset (drop k items) = mset items" for k
    by (metis append_take_drop_id mset_append)
  then show "mset gone + mset (mp_available pool') = mset (mp_available pool) + mset items"
    using assms by (auto simp: masterpoolReuseItems_def Let_def ac_simps split: if_splits)
qed (use assms in \<open>auto simp: masterpoolReuseItems_def Let_def split: if_splits\<close>)

lemma masterpoolReuseItems_ok:
  assumes "mp_ok P pool" "\<forall>i\<in>set items. P i"
  shows "mp_ok P (snd (masterpoolReuseItems probe pool items))"
  using assms
  by (auto simp: masterpoolReuseItems_def Let_def mp_ok_def dest: in_set_takeD)

lemma masterpoolTryGetItems_eq:
  "masterpoolTryGetItems pool n =
     (take (min (length (mp_available pool)) n) (rev (mp_available pool)),
      pool\<lparr>mp_available := take (length (mp_available pool) - n) (mp_available pool)\<rparr>)"
proof -
  let ?xs = "mp_available pool" and ?k = "min (length (mp_available pool)) n"
  have "map (\<lambda>i. ?xs ! (length ?xs - 1 - i)) [0..<?k] = take ?k (rev ?xs)"
    by (rule nth_equalityI) (simp_all add: rev_nth)
  moreover have "length ?xs - ?k = length ?xs - n" by simp
  ultimately show ?thesis by (simp add: masterpoolTryGetItems_def Let_def)
qed

section \<open>Workers interleaving on one master pool\<close>

text \<open>
  A worker first probes the length without the lock, then runs the locked part, with any
  number of steps of other workers in between. The items a worker gives back are its own.
\<close>

datatype 'a mp_pc = Idle | GetProbed nat nat | ReuseProbed nat "'a list"

record 'a mp_world =
  w_pool :: "'a master_pool"
  w_pc :: "nat \<Rightarrow> 'a mp_pc"
  w_held :: "nat \<Rightarrow> 'a list"

inductive mp_step :: "'a option \<Rightarrow> 'a mp_world \<Rightarrow> 'a mp_world \<Rightarrow> bool" for create where
  probe_get: "w_pc s w = Idle \<Longrightarrow>
     mp_step create s (s\<lparr>w_pc := (w_pc s)(w := GetProbed (length (mp_available (w_pool s))) n)\<rparr>)"
| locked_get: "w_pc s w = GetProbed probe n \<Longrightarrow>
     masterpoolGetItems create probe (w_pool s) n = Some (items, pool') \<Longrightarrow>
     mp_step create s (s\<lparr>w_pool := pool', w_pc := (w_pc s)(w := Idle),
       w_held := (w_held s)(w := w_held s w @ items)\<rparr>)"
| probe_reuse: "w_pc s w = Idle \<Longrightarrow> w_held s w = keep @ items \<Longrightarrow>
     mp_step create s (s\<lparr>w_pc := (w_pc s)(w := ReuseProbed (length (mp_available (w_pool s))) items),
       w_held := (w_held s)(w := keep)\<rparr>)"
| locked_reuse: "w_pc s w = ReuseProbed probe items \<Longrightarrow>
     masterpoolReuseItems probe (w_pool s) items = (gone, pool') \<Longrightarrow>
     mp_step create s (s\<lparr>w_pool := pool', w_pc := (w_pc s)(w := Idle)\<rparr>)"

inductive_cases mp_stepE: "mp_step create s t"

definition mp_start :: "nat \<Rightarrow> 'a mp_world" where
  "mp_start cap = \<lparr>w_pool = \<lparr>mp_available = [], mp_checked_out = 0, mp_cap = cap\<rparr>,
     w_pc = (\<lambda>_. Idle), w_held = (\<lambda>_. [])\<rparr>"

inductive mp_reachable :: "'a option \<Rightarrow> nat \<Rightarrow> 'a mp_world \<Rightarrow> bool" for create cap where
  start: "mp_reachable create cap (mp_start cap)"
| step: "mp_reachable create cap s \<Longrightarrow> mp_step create s t \<Longrightarrow> mp_reachable create cap t"

definition mp_world_ok :: "('a \<Rightarrow> bool) \<Rightarrow> nat \<Rightarrow> 'a mp_world \<Rightarrow> bool" where
  "mp_world_ok P cap s \<longleftrightarrow> mp_ok P (w_pool s) \<and> mp_cap (w_pool s) = cap \<and>
     (\<forall>w. \<forall>x\<in>set (w_held s w). P x) \<and>
     (\<forall>w probe items. w_pc s w = ReuseProbed probe items \<longrightarrow> (\<forall>x\<in>set items. P x))"

lemma masterpoolGetItems_keeps:
  assumes "mp_ok P pool" "\<forall>x. create = Some x \<longrightarrow> P x"
    "masterpoolGetItems create probe pool n = Some (items, pool')"
  shows "mp_ok P pool'" "\<forall>i\<in>set items. P i" "mp_cap pool' = mp_cap pool"
proof -
  let ?xs = "mp_available pool" and ?b = "length (mp_available pool) - mp_taken probe pool n"
  obtain fresh where f: "create_items create (n - mp_taken probe pool n) = Some fresh"
    "items = drop ?b ?xs @ fresh" "pool' = pool\<lparr>mp_available := take ?b ?xs\<rparr>"
    using assms(3) by (auto simp: masterpoolGetItems_eq Let_def guard_simps)
  have xs: "\<forall>x\<in>set ?xs. P x" using assms(1) by (simp add: mp_ok_def)
  show "mp_ok P pool'"
    using assms(1) xs set_take_subset [of ?b ?xs] f(3) by (auto simp: mp_ok_def)
  show "\<forall>i\<in>set items. P i"
    using xs set_drop_subset [of ?b ?xs] f(2) create_items_made [OF f(1)] assms(2) by auto
  show "mp_cap pool' = mp_cap pool" using f(3) by simp
qed

lemma mp_step_ok:
  assumes "mp_step create s t" "mp_world_ok P cap s" "\<forall>x. create = Some x \<longrightarrow> P x"
  shows "mp_world_ok P cap t"
  using assms(1)
proof cases
  case (probe_get w n)
  then show ?thesis using assms(2) by (simp add: mp_world_ok_def)
next
  case (locked_get w probe n items pool')
  have "mp_ok P pool'" "\<forall>i\<in>set items. P i" "mp_cap pool' = mp_cap (w_pool s)"
    using masterpoolGetItems_keeps [OF _ assms(3) locked_get(3)] assms(2)
    by (simp_all add: mp_world_ok_def)
  then show ?thesis using assms(2) locked_get(1) by (simp add: mp_world_ok_def ball_Un)
next
  case (probe_reuse w keep items)
  have "\<forall>x\<in>set (keep @ items). P x"
    using assms(2) probe_reuse(3) unfolding mp_world_ok_def by metis
  then show ?thesis using assms(2) probe_reuse(1) by (simp add: mp_world_ok_def)
next
  case (locked_reuse w probe items gone pool')
  have "\<forall>x\<in>set items. P x" using assms(2) locked_reuse(2) unfolding mp_world_ok_def by metis
  then have "mp_ok P pool'"
    using assms(2) masterpoolReuseItems_ok [of P "w_pool s" items probe] locked_reuse(3)
    by (simp add: mp_world_ok_def)
  moreover have "mp_cap pool' = mp_cap (w_pool s)"
    using masterpoolReuseItems_conserve(3) [OF locked_reuse(3)] .
  ultimately show ?thesis using assms(2) locked_reuse(1) by (simp add: mp_world_ok_def)
qed

lemma mp_reachable_ok:
  assumes "mp_reachable create cap s" "cap \<le> UINT32_MAX" "\<forall>x. create = Some x \<longrightarrow> P x"
  shows "mp_world_ok P cap s"
  using assms(1)
proof (induction rule: mp_reachable.induct)
  case start
  then show ?case using assms(2) by (simp add: mp_world_ok_def mp_start_def mp_ok_def)
next
  case (step s t)
  then show ?case using mp_step_ok assms(3) by blast
qed

section \<open>Generic pool laws\<close>

definition gp_ok :: "('a \<Rightarrow> bool) \<Rightarrow> 'a generic_pool \<Rightarrow> bool" where
  "gp_ok P gp \<longleftrightarrow> length (gp_available gp) \<le> gp_cap gp \<and> 2 \<le> gp_cap gp \<and> gp_cap gp \<le> UINT32_MAX \<and>
     gp_free_threshold gp < gp_cap gp \<and> (\<forall>x\<in>set (gp_available gp). P x)"

lemma allocateGenericPool_ok:
  assumes "allocateGenericPool sz item_size width = Some gp"
  shows "gp_ok P gp" "gp_available gp = []" "gp_cap gp = 2 * max 1 width"
proof -
  have w: "max 1 width \<le> UINT32_MAX div 2"
    using assms
    by (auto simp: allocateGenericPool_def genericpoolTryComputeGeometry_def Let_def
        split: option.splits if_splits)
  have cap: "gp_cap gp = 2 * max 1 width" "gp_free_threshold gp = (2 * (2 * max 1 width)) div 3"
    "gp_available gp = []"
    using assms w
    by (auto simp: allocateGenericPool_def genericpoolTryComputeGeometry_def Let_def mult.commute
        split: option.splits if_splits)
  then show "gp_cap gp = 2 * max 1 width" "gp_available gp = []" by simp_all
  have "gp_free_threshold gp < gp_cap gp" unfolding cap by (simp add: div_less_iff_less_mult)
  then show "gp_ok P gp" using cap w by (simp add: gp_ok_def)
qed

lemma genericpoolReCharge_ok:
  assumes gp: "gp_ok P gp" "gp_available gp = []" and mp: "mp_ok P mp" and c: "create = Some x" "P x"
  shows "\<exists>gp' mp'. genericpoolReCharge create gp mp = Some (gp', mp') \<and> gp_ok P gp' \<and> mp_ok P mp' \<and>
    gp_available gp' \<noteq> [] \<and> mp_checked_out mp' = mp_checked_out mp \<and>
    gp_free_threshold gp' = gp_free_threshold gp"
proof -
  let ?n = "gp_cap gp div 2"
  obtain items mp' where m: "masterpoolGetItems create (length (mp_available mp)) mp ?n = Some (items, mp')"
    "length items = ?n" "\<forall>i\<in>set items. P i" "mp_ok P mp'" "mp_checked_out mp' = mp_checked_out mp"
    using masterpoolGetItems_ok [OF mp c] by blast
  have "0 < ?n" "min (gp_cap gp) ?n = ?n" using gp(1) by (simp_all add: gp_ok_def)
  then show ?thesis
    using m gp by (auto simp: genericpoolReCharge_def Let_def gp_ok_def)
qed

lemma gp_ok_last:
  assumes "gp_ok P gp" "gp_available gp \<noteq> []"
  shows "P (last (gp_available gp))"
    "gp_ok P (gp\<lparr>gp_available := butlast (gp_available gp)\<rparr>)"
  using assms by (auto simp: gp_ok_def dest: in_set_butlastD)

lemma genericpoolGetItem_ok:
  assumes "gp_ok P gp" "mp_ok P mp" "create = Some x" "P x" "mp_checked_out mp < SIZE_MAX"
  shows "\<exists>i gp' mp'. genericpoolGetItem create gp mp = Some (i, gp', mp') \<and> P i \<and> gp_ok P gp' \<and>
    mp_ok P mp' \<and> mp_checked_out mp' = mp_checked_out mp + 1"
proof -
  let ?mp = "mp\<lparr>mp_checked_out := mp_checked_out mp + 1\<rparr>"
  have r: "masterpoolRecordCheckout mp = Some ?mp"
    using assms(5) by (simp add: masterpoolRecordCheckout_def Let_def)
  have mp: "mp_ok P ?mp" using assms(2) by (simp add: mp_ok_def)
  show ?thesis
  proof (cases "gp_available gp = []")
    case True
    obtain gp' mp' where g: "genericpoolReCharge create gp ?mp = Some (gp', mp')" "gp_ok P gp'"
      "mp_ok P mp'" "gp_available gp' \<noteq> []" "mp_checked_out mp' = mp_checked_out mp + 1"
      using genericpoolReCharge_ok [OF assms(1) True mp assms(3,4)] by auto
    then show ?thesis
      using True r gp_ok_last [OF g(2,4)] by (simp add: genericpoolGetItem_def)
  next
    case False
    then show ?thesis
      using r mp gp_ok_last [OF assms(1) False] by (simp add: genericpoolGetItem_def)
  qed
qed

lemma genericpoolShrink_ok:
  assumes "gp_ok P gp" "mp_ok P mp"
  shows "gp_ok P (fst (genericpoolShrink gp mp))" "mp_ok P (snd (genericpoolShrink gp mp))"
    "mp_checked_out (snd (genericpoolShrink gp mp)) = mp_checked_out mp"
    "gp_available gp \<noteq> [] \<Longrightarrow> length (gp_available (fst (genericpoolShrink gp mp))) < gp_cap gp"
    "gp_cap (fst (genericpoolShrink gp mp)) = gp_cap gp"
proof -
  let ?xs = "gp_available gp" and ?h = "gp_cap gp div 2"
  define d where "d = (if length ?xs < ?h then length ?xs else ?h)"
  define r where "r = masterpoolReuseItems (length (mp_available mp)) mp (drop (length ?xs - d) ?xs)"
  have e: "genericpoolShrink gp mp = (gp\<lparr>gp_available := take (length ?xs - d) ?xs\<rparr>, snd r)"
    by (simp add: genericpoolShrink_def Let_def d_def r_def split: prod.split)
  have "\<forall>i\<in>set (drop (length ?xs - d) ?xs). P i"
    using assms(1) set_drop_subset [of _ ?xs] by (auto simp: gp_ok_def)
  then show "mp_ok P (snd (genericpoolShrink gp mp))"
    using masterpoolReuseItems_ok [OF assms(2)] by (simp add: e r_def)
  show "mp_checked_out (snd (genericpoolShrink gp mp)) = mp_checked_out mp"
    using masterpoolReuseItems_conserve(2) [of _ mp _ "fst r" "snd r"] unfolding e r_def by simp
  show "gp_ok P (fst (genericpoolShrink gp mp))"
    using assms(1) set_take_subset [of "length ?xs - d" ?xs] by (auto simp: e gp_ok_def)
  show "gp_available gp \<noteq> [] \<Longrightarrow> length (gp_available (fst (genericpoolShrink gp mp))) < gp_cap gp"
    using assms(1) by (auto simp: e gp_ok_def d_def)
  show "gp_cap (fst (genericpoolShrink gp mp)) = gp_cap gp" by (simp add: e)
qed

lemma genericpoolReuseItem_ok:
  assumes gp: "gp_ok P gp" and mp: "mp_ok P mp" and b: "P b" and out: "0 < mp_checked_out mp"
    "mp_checked_out mp \<le> SIZE_MAX"
  shows "\<exists>gp' mp'. genericpoolReuseItem gp mp b = Some (gp', mp') \<and> gp_ok P gp' \<and> mp_ok P mp' \<and>
    mp_checked_out mp' = mp_checked_out mp - 1 \<and> last (gp_available gp') = b \<and> gp_available gp' \<noteq> []"
proof -
  define s where "s = (if length (gp_available gp) > gp_free_threshold gp
      then genericpoolShrink gp mp else (gp, mp))"
  have s: "gp_ok P (fst s)" "mp_ok P (snd s)" "mp_checked_out (snd s) = mp_checked_out mp"
    "length (gp_available (fst s)) < gp_cap (fst s)"
    using gp mp genericpoolShrink_ok [OF gp mp]
    by (cases "gp_available gp = []"; auto simp: s_def gp_ok_def)+
  have "genericpoolReuseItem gp mp b = Some ((fst s)\<lparr>gp_available := gp_available (fst s) @ [b]\<rparr>,
      (snd s)\<lparr>mp_checked_out := mp_checked_out mp - 1\<rparr>)"
    using s out
    by (simp add: genericpoolReuseItem_def s_def [symmetric] masterpoolRecordReturn_def Let_def split_beta)
  then show ?thesis using s b by (simp add: gp_ok_def mp_ok_def)
qed

section \<open>Properties\<close>

text \<open>Items are conserved by the shared pool whatever the lockless probe read: what a get
  hands out together with what stays cached is what was cached plus newly created items, and
  what a return destroys together with what is then cached is what was cached plus what came
  back. A get hands out exactly the number of items asked for.\<close>

lemma masterpool_conserves_items:
  assumes "masterpoolGetItems create probe1 pool n = Some (items, pool1)"
    "masterpoolReuseItems probe2 pool1 returned = (gone, pool2)"
  shows "length items = n \<and>
    (\<exists>fresh. (\<forall>x\<in>set fresh. create = Some x) \<and>
       mset items + mset (mp_available pool1) = mset (mp_available pool) + mset fresh \<and>
       mset gone + mset (mp_available pool2) + mset items =
         mset (mp_available pool) + mset fresh + mset returned)"
proof -
  obtain fresh where f: "\<forall>x\<in>set fresh. create = Some x"
    "mset items + mset (mp_available pool1) = mset (mp_available pool) + mset fresh"
    using masterpoolGetItems_conserve [OF assms(1)] by blast
  have "mset gone + mset (mp_available pool2) + mset items =
      (mset items + mset (mp_available pool1)) + mset returned"
    using masterpoolReuseItems_conserve(1) [OF assms(2)] by (simp add: ac_simps)
  then show ?thesis
    using f masterpoolGetItems_length [OF assms(1)] by (intro conjI exI [of _ fresh]) simp_all
qed

text \<open>C20. Under any interleaving of workers, each probing without the lock and acting later
  under it, the shared cache never holds more items than its capacity, and it and the workers
  only ever hold items the create handle produced.\<close>

theorem masterpool_interleaving_safe:
  assumes "mp_reachable create cap s" "cap \<le> UINT32_MAX"
  shows "length (mp_available (w_pool s)) \<le> mp_cap (w_pool s) \<and> mp_cap (w_pool s) = cap \<and>
    (\<forall>w. \<forall>x\<in>set (mp_available (w_pool s)) \<union> set (w_held s w). create = Some x)"
  using mp_reachable_ok [OF assms, of "\<lambda>x. create = Some x"]
  by (auto simp: mp_world_ok_def mp_ok_def)

theorem masterpool_interleaving_safe_witness:
  "\<exists>s. mp_reachable (Some (7::nat)) 2 s \<and> w_held s 0 = [7] \<and> mp_cap (w_pool s) = 2"
proof -
  let ?s = "(mp_start 2 :: nat mp_world)"
  let ?t = "?s\<lparr>w_pc := (w_pc ?s)(0 := GetProbed (length (mp_available (w_pool ?s))) 1)\<rparr>"
  let ?u = "?t\<lparr>w_pool := (w_pool ?t)\<lparr>mp_available := []\<rparr>, w_pc := (w_pc ?t)(0 := Idle),
      w_held := (w_held ?t)(0 := w_held ?t 0 @ [7])\<rparr>"
  have "mp_step (Some 7) ?s ?t" by (rule probe_get) (simp add: mp_start_def)
  moreover have "mp_step (Some 7) ?t ?u"
    by (rule locked_get [of ?t 0 "length (mp_available (w_pool ?s))" 1])
       (simp_all add: mp_start_def masterpoolGetItems_eq Let_def mp_taken_def)
  ultimately have r: "mp_reachable (Some 7) 2 ?u"
    by (meson mp_reachable.start mp_reachable.step)
  have "mp_cap (w_pool ?u) = 2" using masterpool_interleaving_safe [OF r] by simp
  moreover have "w_held ?u 0 = [7]" by (simp add: mp_start_def)
  ultimately show ?thesis using r by blast
qed

text \<open>A worker's generic pool never fails: taking an item always succeeds with a good item,
  giving one back never overruns the slot array, and a return followed by a take hands out the
  returned item with the checked-out count where it was.\<close>

lemma genericpool_reuse_get:
  assumes "gp_ok P gp" "mp_ok P mp" "P b" "0 < mp_checked_out mp" "mp_checked_out mp \<le> SIZE_MAX"
  shows "\<exists>gp1 mp1 gp2 mp2. genericpoolReuseItem gp mp b = Some (gp1, mp1) \<and>
    gp_ok P gp1 \<and> mp_ok P mp1 \<and> mp_checked_out mp1 = mp_checked_out mp - 1 \<and>
    genericpoolGetItem create gp1 mp1 = Some (b, gp2, mp2) \<and>
    gp_ok P gp2 \<and> mp_ok P mp2 \<and> mp_checked_out mp2 = mp_checked_out mp"
proof -
  obtain gp1 mp1 where r: "genericpoolReuseItem gp mp b = Some (gp1, mp1)" "gp_ok P gp1" "mp_ok P mp1"
    "mp_checked_out mp1 = mp_checked_out mp - 1" "last (gp_available gp1) = b" "gp_available gp1 \<noteq> []"
    using genericpoolReuseItem_ok [OF assms] by blast
  have "masterpoolRecordCheckout mp1 = Some (mp1\<lparr>mp_checked_out := mp_checked_out mp\<rparr>)"
    using r(4) assms(4,5) by (simp add: masterpoolRecordCheckout_def Let_def)
  moreover have "mp_ok P (mp1\<lparr>mp_checked_out := mp_checked_out mp\<rparr>)"
    using r(3) by (simp add: mp_ok_def)
  ultimately show ?thesis
    using r gp_ok_last(2) [OF r(2,6)] by (simp add: genericpoolGetItem_def)
qed

end
