(* ===== verification/Buffer_Pool.thy ===== *)
theory Buffer_Pool
  imports Shift_Buffer Pools
begin

text \<open>
  The worker-local buffer pool of \<open>ww/bufio/buffer_pool.c\<close>: three size tiers of cached shift
  buffers, each backed by its own master pool. The fields the C struct repeats per tier
  (container, size, padding, master pool) are one record here, and the three copies of the
  recharge and shrink code are one definition applied to the tier in question. The splice
  cache, whose entries own kernel pipes, is not part of the model. The build options
  \<open>BYPASS_BUFFERPOOL\<close>, \<open>BUFFER_POOL_DEBUG\<close> and \<open>POOL_THREAD_CHECK\<close> are off, their default.

  Other workers change a master pool between the calls of this one. The laws below hold for
  every state of the master pool that satisfies its invariant, so they hold after any such
  change.
\<close>

section \<open>Representation\<close>

record buffer_tier =
  tier_buffers :: "sbuf list"
  tier_size :: nat
  tier_padding :: nat
  tier_mp :: "sbuf master_pool"

record buffer_pool =
  bp_cap :: nat
  bp_free_threshold :: nat
  bp_large :: buffer_tier
  bp_medium :: buffer_tier
  bp_small :: buffer_tier
  bp_splice_payload_limit :: nat
  bp_waiting_budget_basis :: nat
  bp_splice_padding :: nat

definition kBufferPoolRechargeBatchSize :: nat where
  "kBufferPoolRechargeBatchSize = 4"

definition bufferpoolRechargeCount :: "nat \<Rightarrow> nat \<Rightarrow> nat" where
  "bufferpoolRechargeCount cap cached_count =
     min (sub32 cap cached_count) (min (cap div 2) kBufferPoolRechargeBatchSize)"

definition bufferpoolGetLargeBufferSize :: "buffer_pool \<Rightarrow> nat" where
  "bufferpoolGetLargeBufferSize pool = tier_size (bp_large pool)"

definition bufferpoolGetLargeBufferPadding :: "buffer_pool \<Rightarrow> nat" where
  "bufferpoolGetLargeBufferPadding pool = tier_padding (bp_large pool)"

definition bufferpoolGetMediumBufferSize :: "buffer_pool \<Rightarrow> nat" where
  "bufferpoolGetMediumBufferSize pool = tier_size (bp_medium pool)"

definition bufferpoolGetMediumBufferPadding :: "buffer_pool \<Rightarrow> nat" where
  "bufferpoolGetMediumBufferPadding pool = tier_padding (bp_medium pool)"

definition bufferpoolGetSmallBufferSize :: "buffer_pool \<Rightarrow> nat" where
  "bufferpoolGetSmallBufferSize pool = tier_size (bp_small pool)"

definition bufferpoolGetSmallBufferPadding :: "buffer_pool \<Rightarrow> nat" where
  "bufferpoolGetSmallBufferPadding pool = tier_padding (bp_small pool)"

section \<open>Recharging and shrinking a tier\<close>

text \<open>The create handle a tier installs: \<open>createLargeBufHandle\<close> and its two siblings.\<close>

definition createTierBuf :: "buffer_tier \<Rightarrow> sbuf option" where
  "createTierBuf t = sbufCreateWithPadding (tier_size t) (tier_padding t)"

definition bufferMatchesGeometry :: "sbuf \<Rightarrow> nat \<Rightarrow> nat \<Rightarrow> bool" where
  "bufferMatchesGeometry b payload_capacity left_padding \<longleftrightarrow>
     sbufGetTotalCapacityNoPadding b = payload_capacity \<and> sbufGetLeftPadding b = left_padding"

definition sameTierGeometry :: "buffer_tier \<Rightarrow> buffer_tier \<Rightarrow> bool" where
  "sameTierGeometry s t \<longleftrightarrow> tier_size s = tier_size t \<and> tier_padding s = tier_padding t"

definition bufferpoolTiersHaveIdenticalGeometry :: "buffer_pool \<Rightarrow> bool" where
  "bufferpoolTiersHaveIdenticalGeometry pool \<longleftrightarrow> sameTierGeometry (bp_large pool) (bp_small pool)"

definition requireExactMasterBuffer :: "buffer_tier \<Rightarrow> sbuf \<Rightarrow> sbuf option" where
  "requireExactMasterBuffer t b =
     (if bufferMatchesGeometry b (tier_size t) (tier_padding t) then Some b else createTierBuf t)"

primrec requireExactMasterBuffers :: "buffer_tier \<Rightarrow> sbuf list \<Rightarrow> sbuf list option" where
  "requireExactMasterBuffers t [] = Some []"
| "requireExactMasterBuffers t (b # bs) = do {
     c \<leftarrow> requireExactMasterBuffer t b;
     cs \<leftarrow> requireExactMasterBuffers t bs;
     Some (c # cs)
   }"

definition reChargeTier :: "nat \<Rightarrow> buffer_tier \<Rightarrow> buffer_tier option" where
  "reChargeTier cap t =
     (let len = length (tier_buffers t); increase = bufferpoolRechargeCount cap len in do {
        ensure (len + increase \<le> cap);
        (items, mp) \<leftarrow> masterpoolGetItems (createTierBuf t) (length (mp_available (tier_mp t)))
                          (tier_mp t) increase;
        items \<leftarrow> requireExactMasterBuffers t items;
        Some (t\<lparr>tier_buffers := tier_buffers t @ items, tier_mp := mp\<rparr>)
      })"

definition shrinkTier :: "nat \<Rightarrow> buffer_tier \<Rightarrow> buffer_tier" where
  "shrinkTier cap t =
     (let len = length (tier_buffers t);
          decrease = min len (cap div 2);
          (_, mp) = masterpoolReuseItems (length (mp_available (tier_mp t))) (tier_mp t)
                      (drop (len - decrease) (tier_buffers t))
      in t\<lparr>tier_buffers := take (len - decrease) (tier_buffers t), tier_mp := mp\<rparr>)"

definition reChargeLargeBuffers :: "buffer_pool \<Rightarrow> buffer_pool option" where
  "reChargeLargeBuffers pool = do {
     t \<leftarrow> reChargeTier (bp_cap pool) (bp_large pool); Some (pool\<lparr>bp_large := t\<rparr>) }"

definition reChargeMediumBuffers :: "buffer_pool \<Rightarrow> buffer_pool option" where
  "reChargeMediumBuffers pool = do {
     t \<leftarrow> reChargeTier (bp_cap pool) (bp_medium pool); Some (pool\<lparr>bp_medium := t\<rparr>) }"

definition reChargeSmallBuffers :: "buffer_pool \<Rightarrow> buffer_pool option" where
  "reChargeSmallBuffers pool = do {
     t \<leftarrow> reChargeTier (bp_cap pool) (bp_small pool); Some (pool\<lparr>bp_small := t\<rparr>) }"

definition firstCharge :: "buffer_pool \<Rightarrow> buffer_pool option" where
  "firstCharge pool = do {
     pool \<leftarrow> reChargeLargeBuffers pool;
     pool \<leftarrow> reChargeMediumBuffers pool;
     reChargeSmallBuffers pool
   }"

definition shrinkLargeBuffers :: "buffer_pool \<Rightarrow> buffer_pool" where
  "shrinkLargeBuffers pool = pool\<lparr>bp_large := shrinkTier (bp_cap pool) (bp_large pool)\<rparr>"

definition shrinkMediumBuffers :: "buffer_pool \<Rightarrow> buffer_pool" where
  "shrinkMediumBuffers pool = pool\<lparr>bp_medium := shrinkTier (bp_cap pool) (bp_medium pool)\<rparr>"

definition shrinkSmallBuffers :: "buffer_pool \<Rightarrow> buffer_pool" where
  "shrinkSmallBuffers pool = pool\<lparr>bp_small := shrinkTier (bp_cap pool) (bp_small pool)\<rparr>"

section \<open>Taking a buffer\<close>

definition tier_pop :: "buffer_tier \<Rightarrow> (sbuf \<times> buffer_tier) option" where
  "tier_pop t = do {
     ensure (tier_buffers t \<noteq> []);
     Some (last (tier_buffers t), t\<lparr>tier_buffers := butlast (tier_buffers t)\<rparr>)
   }"

definition pop_large :: "buffer_pool \<Rightarrow> (sbuf \<times> buffer_pool) option" where
  "pop_large pool = do { (b, t) \<leftarrow> tier_pop (bp_large pool); Some (b, pool\<lparr>bp_large := t\<rparr>) }"

definition pop_medium :: "buffer_pool \<Rightarrow> (sbuf \<times> buffer_pool) option" where
  "pop_medium pool = do { (b, t) \<leftarrow> tier_pop (bp_medium pool); Some (b, pool\<lparr>bp_medium := t\<rparr>) }"

definition pop_small :: "buffer_pool \<Rightarrow> (sbuf \<times> buffer_pool) option" where
  "pop_small pool = do { (b, t) \<leftarrow> tier_pop (bp_small pool); Some (b, pool\<lparr>bp_small := t\<rparr>) }"

definition bufferpoolGetLargeBuffer :: "buffer_pool \<Rightarrow> (sbuf \<times> buffer_pool) option" where
  "bufferpoolGetLargeBuffer pool =
     (if tier_buffers (bp_large pool) \<noteq> [] then pop_large pool
      else if bufferpoolTiersHaveIdenticalGeometry pool \<and> tier_buffers (bp_small pool) \<noteq> []
      then pop_small pool
      else if sameTierGeometry (bp_large pool) (bp_medium pool) \<and> tier_buffers (bp_medium pool) \<noteq> []
      then pop_medium pool
      else do { pool \<leftarrow> reChargeLargeBuffers pool; pop_large pool })"

definition bufferpoolGetMediumBuffer :: "buffer_pool \<Rightarrow> (sbuf \<times> buffer_pool) option" where
  "bufferpoolGetMediumBuffer pool =
     (if tier_buffers (bp_medium pool) \<noteq> [] then pop_medium pool
      else if sameTierGeometry (bp_large pool) (bp_medium pool) \<and> tier_buffers (bp_large pool) \<noteq> []
      then pop_large pool
      else if sameTierGeometry (bp_small pool) (bp_medium pool) \<and> tier_buffers (bp_small pool) \<noteq> []
      then pop_small pool
      else do { pool \<leftarrow> reChargeMediumBuffers pool; pop_medium pool })"

definition bufferpoolGetSmallBuffer :: "buffer_pool \<Rightarrow> (sbuf \<times> buffer_pool) option" where
  "bufferpoolGetSmallBuffer pool =
     (if tier_buffers (bp_small pool) \<noteq> [] then pop_small pool
      else if bufferpoolTiersHaveIdenticalGeometry pool \<and> tier_buffers (bp_large pool) \<noteq> []
      then pop_large pool
      else if sameTierGeometry (bp_small pool) (bp_medium pool) \<and> tier_buffers (bp_medium pool) \<noteq> []
      then pop_medium pool
      else do { pool \<leftarrow> reChargeSmallBuffers pool; pop_small pool })"

section \<open>Best fit\<close>

datatype buffer_pool_tier =
  kBufferPoolTierSmall | kBufferPoolTierMedium | kBufferPoolTierLarge | kBufferPoolTierDedicated

definition tier_fits :: "buffer_tier \<Rightarrow> nat \<Rightarrow> nat \<Rightarrow> bool" where
  "tier_fits t minimum_payload minimum_left_padding \<longleftrightarrow>
     minimum_payload \<le> tier_size t \<and> minimum_left_padding \<le> tier_padding t"

definition bufferpoolSelectBestFit :: "buffer_pool \<Rightarrow> nat \<Rightarrow> nat \<Rightarrow> buffer_pool_tier" where
  "bufferpoolSelectBestFit pool minimum_payload minimum_left_padding =
     (let small_fits = tier_fits (bp_small pool) minimum_payload minimum_left_padding;
          medium_fits = tier_fits (bp_medium pool) minimum_payload minimum_left_padding;
          large_fits = tier_fits (bp_large pool) minimum_payload minimum_left_padding;
          small = tier_size (bp_small pool);
          medium = tier_size (bp_medium pool);
          large = tier_size (bp_large pool)
      in if small_fits \<and> (\<not> medium_fits \<or> small \<le> medium) \<and> (\<not> large_fits \<or> small \<le> large)
         then kBufferPoolTierSmall
         else if medium_fits \<and> (\<not> large_fits \<or> medium \<le> large) then kBufferPoolTierMedium
         else if large_fits then kBufferPoolTierLarge
         else kBufferPoolTierDedicated)"

record buffer_pool_fit =
  fit_allocation_charge :: nat
  fit_payload_capacity :: nat
  fit_left_padding :: nat
  fit_pooled :: bool

text \<open>The outer option is the run, the inner one the returned flag with its out-parameter.\<close>

definition bufferpoolQueryBestFit ::
  "buffer_pool \<Rightarrow> nat \<Rightarrow> nat \<Rightarrow> buffer_pool_fit option option" where
  "bufferpoolQueryBestFit pool minimum_payload minimum_left_padding =
     (let tier = bufferpoolSelectBestFit pool minimum_payload minimum_left_padding;
          (payload, padding) =
            (case tier of
               kBufferPoolTierSmall \<Rightarrow> (tier_size (bp_small pool), tier_padding (bp_small pool))
             | kBufferPoolTierMedium \<Rightarrow> (tier_size (bp_medium pool), tier_padding (bp_medium pool))
             | kBufferPoolTierLarge \<Rightarrow> (tier_size (bp_large pool), tier_padding (bp_large pool))
             | kBufferPoolTierDedicated \<Rightarrow> (minimum_payload, minimum_left_padding))
      in case sbufTryComputeCapacity payload padding of
           None \<Rightarrow> Some None
         | Some capacity \<Rightarrow> do {
             padding \<leftarrow> sbufAlignLeftPadding padding;
             Some (Some \<lparr>fit_allocation_charge = u64 (sizeof_sbuf + capacity + kSbufAllocationAlignment),
                         fit_payload_capacity = sub32 capacity padding,
                         fit_left_padding = padding,
                         fit_pooled = (tier \<noteq> kBufferPoolTierDedicated)\<rparr>)
           })"

definition bufferpoolGetBestFit :: "buffer_pool \<Rightarrow> nat \<Rightarrow> nat \<Rightarrow> (sbuf \<times> buffer_pool) option" where
  "bufferpoolGetBestFit pool minimum_payload minimum_left_padding =
     (case bufferpoolSelectBestFit pool minimum_payload minimum_left_padding of
        kBufferPoolTierSmall \<Rightarrow> bufferpoolGetSmallBuffer pool
      | kBufferPoolTierMedium \<Rightarrow> bufferpoolGetMediumBuffer pool
      | kBufferPoolTierLarge \<Rightarrow> bufferpoolGetLargeBuffer pool
      | kBufferPoolTierDedicated \<Rightarrow> do {
          b \<leftarrow> sbufCreateWithPadding minimum_payload minimum_left_padding;
          Some (b, pool)
        })"

definition bufferpoolTryGetBestFit ::
  "buffer_pool \<Rightarrow> nat \<Rightarrow> nat \<Rightarrow> (sbuf option \<times> buffer_pool) option" where
  "bufferpoolTryGetBestFit pool minimum_payload minimum_left_padding =
     (case sbufTryComputeCapacity minimum_payload minimum_left_padding of
        None \<Rightarrow> Some (None, pool)
      | Some _ \<Rightarrow> do {
          (b, pool) \<leftarrow> bufferpoolGetBestFit pool (u32 minimum_payload) minimum_left_padding;
          Some (Some b, pool)
        })"

section \<open>Returning a buffer\<close>

definition tier_push :: "nat \<Rightarrow> nat \<Rightarrow> buffer_tier \<Rightarrow> sbuf \<Rightarrow> buffer_tier option" where
  "tier_push cap free_threshold t b =
     (let t = (if length (tier_buffers t) > free_threshold then shrinkTier cap t else t) in do {
        ensure (length (tier_buffers t) < cap);
        Some (t\<lparr>tier_buffers := tier_buffers t @ [b]\<rparr>)
      })"

definition bufferpoolReuseBuffer :: "buffer_pool \<Rightarrow> sbuf \<Rightarrow> buffer_pool option" where
  "bufferpoolReuseBuffer pool b =
     (let b = sbufReset b; cap = bp_cap pool; threshold = bp_free_threshold pool in
      if bufferMatchesGeometry b (tier_size (bp_large pool)) (tier_padding (bp_large pool)) then do {
        t \<leftarrow> tier_push cap threshold (bp_large pool) b; Some (pool\<lparr>bp_large := t\<rparr>)
      }
      else if bufferMatchesGeometry b (tier_size (bp_medium pool)) (tier_padding (bp_medium pool)) then do {
        t \<leftarrow> tier_push cap threshold (bp_medium pool) b; Some (pool\<lparr>bp_medium := t\<rparr>)
      }
      else if bufferMatchesGeometry b (tier_size (bp_small pool)) (tier_padding (bp_small pool)) then do {
        t \<leftarrow> tier_push cap threshold (bp_small pool) b; Some (pool\<lparr>bp_small := t\<rparr>)
      }
      else Some pool)"

definition sbufAppendMerge :: "buffer_pool \<Rightarrow> sbuf \<Rightarrow> sbuf \<Rightarrow> (sbuf \<times> buffer_pool) option" where
  "sbufAppendMerge pool b1 b2 = do {
     b1 \<leftarrow> sbufConcat b1 b2;
     pool \<leftarrow> bufferpoolReuseBuffer pool b2;
     Some (b1, pool)
   }"

definition sbufDuplicateByPool :: "buffer_pool \<Rightarrow> sbuf \<Rightarrow> (sbuf \<times> buffer_pool) option" where
  "sbufDuplicateByPool pool b =
     (let source_length = sbufGetLength b;
          payload_capacity = sbufGetTotalCapacityNoPadding b;
          finish = (\<lambda>bnew pool.
            if source_length > sbufGetMaximumWriteableSize bnew then do {
              pool \<leftarrow> bufferpoolReuseBuffer pool bnew;
              d \<leftarrow> sbufDuplicate b;
              Some (d, pool)
            }
            else do {
              bnew \<leftarrow> sbufSetLength bnew source_length;
              bnew \<leftarrow> sbufWriteBuf bnew b source_length;
              bnew \<leftarrow> sbufSetRecalculateChecksum bnew (sbufGetRecalculateChecksum b);
              Some (bnew, pool)
            })
      in if payload_capacity = tier_size (bp_large pool) then do {
           (bnew, pool) \<leftarrow> bufferpoolGetLargeBuffer pool; finish bnew pool
         }
         else if payload_capacity = tier_size (bp_medium pool) then do {
           (bnew, pool) \<leftarrow> bufferpoolGetMediumBuffer pool; finish bnew pool
         }
         else if payload_capacity = tier_size (bp_small pool) then do {
           (bnew, pool) \<leftarrow> bufferpoolGetSmallBuffer pool; finish bnew pool
         }
         else do { d \<leftarrow> sbufDuplicate b; Some (d, pool) })"

section \<open>Configuration\<close>

definition bufferpoolUpdateAllocationPaddings ::
  "buffer_pool \<Rightarrow> nat \<Rightarrow> nat \<Rightarrow> nat \<Rightarrow> nat \<Rightarrow> buffer_pool option" where
  "bufferpoolUpdateAllocationPaddings pool large medium small splice_pad = do {
     large \<leftarrow> sbufAlignLeftPadding large;
     medium \<leftarrow> sbufAlignLeftPadding medium;
     small \<leftarrow> sbufAlignLeftPadding small;
     splice_pad \<leftarrow> sbufAlignLeftPadding splice_pad;
     let l_new_max = max (tier_padding (bp_large pool)) large;
         medium_new_max = max (tier_padding (bp_medium pool)) medium;
         s_new_max = max (tier_padding (bp_small pool)) small;
         m_new_max = max (bp_splice_padding pool) splice_pad
     in if l_new_max = tier_padding (bp_large pool) \<and> s_new_max = tier_padding (bp_small pool) \<and>
           medium_new_max = tier_padding (bp_medium pool) \<and> m_new_max = bp_splice_padding pool
        then Some pool
        else do {
          ensure (tier_buffers (bp_small pool) = [] \<and> tier_buffers (bp_large pool) = [] \<and>
                  tier_buffers (bp_medium pool) = []);
          Some (pool\<lparr>bp_large := (bp_large pool)\<lparr>tier_padding := l_new_max\<rparr>,
                     bp_medium := (bp_medium pool)\<lparr>tier_padding := medium_new_max\<rparr>,
                     bp_small := (bp_small pool)\<lparr>tier_padding := s_new_max\<rparr>,
                     bp_splice_padding := m_new_max\<rparr>)
        }
   }"

definition bufferpoolTryRoundBufferSize :: "nat \<Rightarrow> nat option" where
  "bufferpoolTryRoundBufferSize requested = sbufTryComputeCapacity requested 0"

definition bufferpoolTryComputeGeometry :: "nat \<Rightarrow> (nat \<times> nat \<times> nat) option" where
  "bufferpoolTryComputeGeometry pool_width =
     (if pool_width = 0 \<or> pool_width > UINT32_MAX div 2 then None
      else
        let capacity = u32 (pool_width * 2) in
        case memoryTryComputeArraySize capacity sizeof_pointer of
          None \<Rightarrow> None
        | Some pointer_array_size \<Rightarrow>
            let two_thirds = u32 (u32 (capacity div 3 * 2) + u32 (capacity mod 3 * 2) div 3);
                threshold = max (capacity div 2) two_thirds
            in Some (capacity, threshold, pointer_array_size))"

definition new_tier :: "nat \<Rightarrow> sbuf master_pool \<Rightarrow> buffer_tier" where
  "new_tier sz mp = \<lparr>tier_buffers = [], tier_size = sz, tier_padding = 0, tier_mp = mp\<rparr>"

definition debugCheckRoundedSize :: "nat \<Rightarrow> unit option" where
  "debugCheckRoundedSize sz = do {
     b \<leftarrow> sbufCreateWithPadding sz 0;
     ensure (sbufGetTotalCapacityNoPadding b = sz);
     ensure (sbufGetLeftPadding b = 0)
   }"

text \<open>The inner option is the nullable result.\<close>

definition bufferpoolCreate ::
  "sbuf master_pool \<Rightarrow> sbuf master_pool \<Rightarrow> sbuf master_pool \<Rightarrow> nat \<Rightarrow> nat \<Rightarrow> nat \<Rightarrow> nat \<Rightarrow> nat \<Rightarrow> nat
   \<Rightarrow> buffer_pool option option" where
  "bufferpoolCreate mp_large mp_medium mp_small bufcount large_buffer_size medium_buffer_size
     small_buffer_size splice_payload_limit waiting_budget_basis =
     (if splice_payload_limit = 0 \<or> splice_payload_limit > 2147483647 \<or>
         waiting_budget_basis = 0 \<or> waiting_budget_basis > 2147483647 then Some None
      else case bufferpoolTryComputeGeometry bufcount of None \<Rightarrow> Some None
      | Some (capacity, free_threshold, _) \<Rightarrow>
      (case bufferpoolTryRoundBufferSize large_buffer_size of None \<Rightarrow> Some None
      | Some rounded_large \<Rightarrow>
      (case bufferpoolTryRoundBufferSize medium_buffer_size of None \<Rightarrow> Some None
      | Some rounded_medium \<Rightarrow>
      (case bufferpoolTryRoundBufferSize small_buffer_size of None \<Rightarrow> Some None
      | Some rounded_small \<Rightarrow> do {
          debugCheckRoundedSize rounded_large;
          debugCheckRoundedSize rounded_small;
          Some (Some \<lparr>bp_cap = capacity, bp_free_threshold = free_threshold,
                      bp_large = new_tier rounded_large mp_large,
                      bp_medium = new_tier rounded_medium mp_medium,
                      bp_small = new_tier rounded_small mp_small,
                      bp_splice_payload_limit = splice_payload_limit,
                      bp_waiting_budget_basis = waiting_budget_basis,
                      bp_splice_padding = 0\<rparr>)
        }))))"

section \<open>Invariant\<close>

text \<open>A buffer as the pool keeps it: well formed and reset.\<close>

definition idle_buf :: "sbuf \<Rightarrow> bool" where
  "idle_buf b \<longleftrightarrow> sbuf_ok b \<and> sb_len b = 0 \<and> curpos b = l_pad b \<and> sb_flags b = 0"

definition tier_buf :: "buffer_tier \<Rightarrow> sbuf \<Rightarrow> bool" where
  "tier_buf t b \<longleftrightarrow> idle_buf b \<and> sb_capacity b = tier_size t + tier_padding t \<and> l_pad b = tier_padding t"

definition tier_ok :: "nat \<Rightarrow> buffer_tier \<Rightarrow> bool" where
  "tier_ok cap t \<longleftrightarrow> length (tier_buffers t) \<le> cap \<and> (\<forall>b\<in>set (tier_buffers t). tier_buf t b) \<and>
     sbuf_fits (tier_size t) (tier_padding t) \<and> 64 dvd tier_size t \<and> 32 dvd tier_padding t \<and>
     mp_ok idle_buf (tier_mp t)"

definition pool_ok :: "buffer_pool \<Rightarrow> bool" where
  "pool_ok p \<longleftrightarrow> 2 \<le> bp_cap p \<and> bp_cap p \<le> UINT32_MAX \<and> bp_free_threshold p < bp_cap p \<and>
     tier_ok (bp_cap p) (bp_large p) \<and> tier_ok (bp_cap p) (bp_medium p) \<and> tier_ok (bp_cap p) (bp_small p)"

definition tier_geometry :: "buffer_tier \<Rightarrow> nat \<times> nat" where
  "tier_geometry t = (tier_size t, tier_padding t)"

definition pool_geometry :: "buffer_pool \<Rightarrow> (nat \<times> nat) \<times> (nat \<times> nat) \<times> (nat \<times> nat)" where
  "pool_geometry p = (tier_geometry (bp_large p), tier_geometry (bp_medium p), tier_geometry (bp_small p))"

lemma tier_okD:
  assumes "tier_ok cap t"
  shows "length (tier_buffers t) \<le> cap" "\<forall>b\<in>set (tier_buffers t). tier_buf t b"
    "sbuf_fits (tier_size t) (tier_padding t)" "64 dvd tier_size t" "32 dvd tier_padding t"
    "mp_ok idle_buf (tier_mp t)" "tier_padding t \<le> UINT16_MAX"
    "tier_size t + tier_padding t \<le> UINT32_MAX"
  using assms by (auto simp: tier_ok_def sbuf_fits_def round_up_of_dvd)

lemma idle_bufD: "idle_buf b \<Longrightarrow> sbuf_ok b" "idle_buf b \<Longrightarrow> payload b = []"
  by (simp_all add: idle_buf_def payload_def)

lemma idle_buf_reset: "sbuf_ok b \<Longrightarrow> idle_buf (sbufReset b)"
  using sbufReset_obs [of b] by (simp add: idle_buf_def) (simp add: sbufReset_def)

lemma createTierBuf_ok:
  assumes "tier_ok cap t"
  shows "\<exists>b. createTierBuf t = Some b \<and> tier_buf t b"
  using sbufCreate_ok [OF tier_okD(7,3) [OF assms]] tier_okD [OF assms]
  by (auto simp: createTierBuf_def tier_buf_def idle_buf_def round_up_of_dvd)

lemma match_tier_buf:
  assumes "idle_buf b" "bufferMatchesGeometry b (tier_size t) (tier_padding t)"
  shows "tier_buf t b"
proof -
  have "sbuf_ok b" using assms(1) by (rule idle_bufD)
  then show ?thesis
    using assms sbuf_okD(4) [of b]
    by (auto simp: tier_buf_def bufferMatchesGeometry_def sbufGetTotalCapacityNoPadding_eq
        sbufGetLeftPadding_def)
qed

lemma requireExact_ok:
  assumes "tier_ok cap t" "\<forall>b\<in>set bs. idle_buf b"
  shows "\<exists>cs. requireExactMasterBuffers t bs = Some cs \<and> length cs = length bs \<and>
    (\<forall>c\<in>set cs. tier_buf t c)"
  using assms(2)
proof (induction bs)
  case Nil
  then show ?case by simp
next
  case (Cons b bs)
  have "\<exists>c. requireExactMasterBuffer t b = Some c \<and> tier_buf t c"
    using match_tier_buf [of b t] createTierBuf_ok [OF assms(1)] Cons.prems
    by (auto simp: requireExactMasterBuffer_def)
  then show ?case using Cons by fastforce
qed

lemma reChargeTier_ok:
  assumes t: "tier_ok cap t" "tier_buffers t = []" and cap: "2 \<le> cap" "cap \<le> UINT32_MAX"
  shows "\<exists>u. reChargeTier cap t = Some u \<and> tier_ok cap u \<and> tier_buffers u \<noteq> [] \<and>
    tier_geometry u = tier_geometry t"
proof -
  obtain x where x: "createTierBuf t = Some x" "tier_buf t x" using createTierBuf_ok [OF t(1)] by blast
  define n where "n = bufferpoolRechargeCount cap 0"
  have n: "0 < n" "n \<le> cap"
    using cap by (auto simp: n_def bufferpoolRechargeCount_def kBufferPoolRechargeBatchSize_def)
  obtain items mp where m:
    "masterpoolGetItems (createTierBuf t) (length (mp_available (tier_mp t))) (tier_mp t) n = Some (items, mp)"
    "length items = n" "\<forall>i\<in>set items. idle_buf i" "mp_ok idle_buf mp"
    using masterpoolGetItems_ok [OF tier_okD(6) [OF t(1)] x(1), of "length (mp_available (tier_mp t))" n]
      x(2) unfolding tier_buf_def by blast
  obtain cs where c: "requireExactMasterBuffers t items = Some cs" "length cs = n"
    "\<forall>c\<in>set cs. tier_buf t c"
    using requireExact_ok [OF t(1) m(3)] m(2) by auto
  have "reChargeTier cap t = Some (t\<lparr>tier_buffers := cs, tier_mp := mp\<rparr>)"
    using t(2) n m c by (simp add: reChargeTier_def Let_def n_def [symmetric])
  then show ?thesis
    using t n m c by (auto simp: tier_ok_def tier_geometry_def tier_buf_def)
qed

lemma shrinkTier_ok:
  assumes "tier_ok cap t" "2 \<le> cap"
  shows "tier_ok cap (shrinkTier cap t)" "tier_geometry (shrinkTier cap t) = tier_geometry t"
    "tier_buffers t \<noteq> [] \<Longrightarrow> length (tier_buffers (shrinkTier cap t)) < cap"
proof -
  let ?xs = "tier_buffers t"
  define d where "d = length ?xs - min (length ?xs) (cap div 2)"
  define r where "r = masterpoolReuseItems (length (mp_available (tier_mp t))) (tier_mp t) (drop d ?xs)"
  have e: "shrinkTier cap t = t\<lparr>tier_buffers := take d ?xs, tier_mp := snd r\<rparr>"
    by (simp add: shrinkTier_def Let_def d_def r_def split: prod.split)
  have "\<forall>i\<in>set (drop d ?xs). idle_buf i"
    using tier_okD(2) [OF assms(1)] set_drop_subset [of d ?xs] by (auto simp: tier_buf_def)
  then have "mp_ok idle_buf (snd r)"
    using masterpoolReuseItems_ok [OF tier_okD(6) [OF assms(1)]] by (simp add: r_def)
  then show "tier_ok cap (shrinkTier cap t)"
    using assms(1) set_take_subset [of d ?xs] by (auto simp: e tier_ok_def tier_buf_def)
  show "tier_geometry (shrinkTier cap t) = tier_geometry t" by (simp add: e tier_geometry_def)
  show "?xs \<noteq> [] \<Longrightarrow> length (tier_buffers (shrinkTier cap t)) < cap"
    using tier_okD(1) [OF assms(1)] assms(2) by (auto simp: e d_def)
qed

lemma tier_pop_ok:
  assumes "tier_ok cap t" "tier_buffers t \<noteq> []"
  shows "\<exists>b u. tier_pop t = Some (b, u) \<and> tier_buf t b \<and> tier_ok cap u \<and> tier_geometry u = tier_geometry t"
  using assms
  by (auto simp: tier_pop_def tier_ok_def tier_geometry_def tier_buf_def dest: in_set_butlastD)

lemma tier_push_ok:
  assumes t: "tier_ok cap t" and cap: "2 \<le> cap" "free_threshold < cap" and b: "tier_buf t b"
  shows "\<exists>u. tier_push cap free_threshold t b = Some u \<and> tier_ok cap u \<and> tier_geometry u = tier_geometry t"
proof -
  define s where "s = (if length (tier_buffers t) > free_threshold then shrinkTier cap t else t)"
  have s: "tier_ok cap s" "tier_geometry s = tier_geometry t" "length (tier_buffers s) < cap"
    using t cap shrinkTier_ok [OF t cap(1)]
    by (cases "tier_buffers t = []"; auto simp: s_def)+
  have "tier_buf s b" using b s(2) by (simp add: tier_buf_def tier_geometry_def)
  then show ?thesis
    using s by (auto simp: tier_push_def s_def [symmetric] Let_def tier_ok_def tier_geometry_def tier_buf_def)
qed

section \<open>A source of buffers\<close>

text \<open>
  What the users of a pool rely on: taking never fails and gives a buffer in a known state,
  giving back never fails, and both keep the pool usable. A client's traffic is a list of
  such events.
\<close>

datatype 'b cache_event = Draw | Give 'b

fun cache_run ::
  "('s \<Rightarrow> ('b \<times> 's) option) \<Rightarrow> ('s \<Rightarrow> 'b \<Rightarrow> 's option) \<Rightarrow> 's \<Rightarrow> 'b cache_event list \<Rightarrow> ('b list \<times> 's) option" where
  "cache_run get put s [] = Some ([], s)"
| "cache_run get put s (Draw # es) = do {
     (b, s) \<leftarrow> get s; (bs, s) \<leftarrow> cache_run get put s es; Some (b # bs, s) }"
| "cache_run get put s (Give b # es) = do { s \<leftarrow> put s b; cache_run get put s es }"

locale buffer_source =
  fixes inv :: "'s \<Rightarrow> bool"
    and get :: "'s \<Rightarrow> ('b \<times> 's) option"
    and put :: "'s \<Rightarrow> 'b \<Rightarrow> 's option"
    and ready :: "'b \<Rightarrow> bool"
    and returnable :: "'b \<Rightarrow> bool"
  assumes get_ready: "inv s \<Longrightarrow> \<exists>b s'. get s = Some (b, s') \<and> ready b \<and> inv s'"
    and put_inv: "inv s \<Longrightarrow> returnable b \<Longrightarrow> \<exists>s'. put s b = Some s' \<and> inv s'"
begin

lemma run_total:
  assumes "inv s" "\<And>b. Give b \<in> set es \<Longrightarrow> returnable b"
  shows "\<exists>bs s'. cache_run get put s es = Some (bs, s') \<and> inv s' \<and> (\<forall>b\<in>set bs. ready b) \<and>
    length bs = length (filter (\<lambda>e. e = Draw) es)"
  using assms
proof (induction es arbitrary: s)
  case Nil
  then show ?case by simp
next
  case (Cons e es)
  show ?case
  proof (cases e)
    case Draw
    obtain b s1 where g: "get s = Some (b, s1)" "ready b" "inv s1" using get_ready [OF Cons.prems(1)] by blast
    then obtain bs s2 where "cache_run get put s1 es = Some (bs, s2)" "inv s2" "\<forall>b\<in>set bs. ready b"
      "length bs = length (filter (\<lambda>e. e = Draw) es)"
      using Cons.IH [OF g(3)] Cons.prems(2) by auto
    then show ?thesis using Draw g by simp
  next
    case (Give b)
    obtain s1 where "put s b = Some s1" "inv s1" using put_inv [OF Cons.prems(1)] Cons.prems(2) Give by auto
    then show ?thesis using Cons.IH [of s1] Cons.prems(2) Give by auto
  qed
qed

end

lemma pool_okD:
  assumes "pool_ok p"
  shows "2 \<le> bp_cap p" "bp_cap p \<le> UINT32_MAX" "bp_free_threshold p < bp_cap p"
    "tier_ok (bp_cap p) (bp_large p)" "tier_ok (bp_cap p) (bp_medium p)" "tier_ok (bp_cap p) (bp_small p)"
  using assms by (simp_all add: pool_ok_def)

lemma tier_buf_same: "tier_geometry s = tier_geometry t \<Longrightarrow> tier_buf s b = tier_buf t b"
  by (simp add: tier_buf_def tier_geometry_def)

lemma sameTierGeometry_iff: "sameTierGeometry s t \<longleftrightarrow> tier_geometry s = tier_geometry t"
  by (simp add: sameTierGeometry_def tier_geometry_def)

text \<open>The outcome of a take from pool \<open>p\<close>: a buffer of tier \<open>t\<close>, and a pool in order.\<close>

definition gives :: "buffer_pool \<Rightarrow> buffer_tier \<Rightarrow> (sbuf \<times> buffer_pool) option \<Rightarrow> bool" where
  "gives p t r \<longleftrightarrow> (\<exists>b q. r = Some (b, q) \<and> tier_buf t b \<and> pool_ok q \<and> pool_geometry q = pool_geometry p)"

lemma pop_large_gives:
  assumes "pool_ok p" "tier_buffers (bp_large p) \<noteq> []" "tier_geometry (bp_large p) = tier_geometry t"
  shows "gives p t (pop_large p)"
  using tier_pop_ok [OF pool_okD(4) [OF assms(1)] assms(2)] assms(1) tier_buf_same [OF assms(3)]
  by (auto simp: gives_def pop_large_def pool_ok_def pool_geometry_def)

lemma recharge_large_gives:
  assumes "pool_ok p" "tier_buffers (bp_large p) = []"
  shows "gives p (bp_large p) (do { q \<leftarrow> reChargeLargeBuffers p; pop_large q })"
proof -
  obtain u where u: "reChargeTier (bp_cap p) (bp_large p) = Some u" "tier_ok (bp_cap p) u"
    "tier_buffers u \<noteq> []" "tier_geometry u = tier_geometry (bp_large p)"
    using reChargeTier_ok [OF pool_okD(4) [OF assms(1)] assms(2) pool_okD(1,2) [OF assms(1)]] by blast
  have "pool_ok (p\<lparr>bp_large := u\<rparr>)" using assms(1) u(2) by (simp add: pool_ok_def)
  from pop_large_gives [OF this, of "bp_large p"] u show ?thesis
    by (auto simp: gives_def reChargeLargeBuffers_def pool_geometry_def)
qed

lemma pop_medium_gives:
  assumes "pool_ok p" "tier_buffers (bp_medium p) \<noteq> []" "tier_geometry (bp_medium p) = tier_geometry t"
  shows "gives p t (pop_medium p)"
  using tier_pop_ok [OF pool_okD(5) [OF assms(1)] assms(2)] assms(1) tier_buf_same [OF assms(3)]
  by (auto simp: gives_def pop_medium_def pool_ok_def pool_geometry_def)

lemma recharge_medium_gives:
  assumes "pool_ok p" "tier_buffers (bp_medium p) = []"
  shows "gives p (bp_medium p) (do { q \<leftarrow> reChargeMediumBuffers p; pop_medium q })"
proof -
  obtain u where u: "reChargeTier (bp_cap p) (bp_medium p) = Some u" "tier_ok (bp_cap p) u"
    "tier_buffers u \<noteq> []" "tier_geometry u = tier_geometry (bp_medium p)"
    using reChargeTier_ok [OF pool_okD(5) [OF assms(1)] assms(2) pool_okD(1,2) [OF assms(1)]] by blast
  have "pool_ok (p\<lparr>bp_medium := u\<rparr>)" using assms(1) u(2) by (simp add: pool_ok_def)
  from pop_medium_gives [OF this, of "bp_medium p"] u show ?thesis
    by (auto simp: gives_def reChargeMediumBuffers_def pool_geometry_def)
qed

lemma pop_small_gives:
  assumes "pool_ok p" "tier_buffers (bp_small p) \<noteq> []" "tier_geometry (bp_small p) = tier_geometry t"
  shows "gives p t (pop_small p)"
  using tier_pop_ok [OF pool_okD(6) [OF assms(1)] assms(2)] assms(1) tier_buf_same [OF assms(3)]
  by (auto simp: gives_def pop_small_def pool_ok_def pool_geometry_def)

lemma recharge_small_gives:
  assumes "pool_ok p" "tier_buffers (bp_small p) = []"
  shows "gives p (bp_small p) (do { q \<leftarrow> reChargeSmallBuffers p; pop_small q })"
proof -
  obtain u where u: "reChargeTier (bp_cap p) (bp_small p) = Some u" "tier_ok (bp_cap p) u"
    "tier_buffers u \<noteq> []" "tier_geometry u = tier_geometry (bp_small p)"
    using reChargeTier_ok [OF pool_okD(6) [OF assms(1)] assms(2) pool_okD(1,2) [OF assms(1)]] by blast
  have "pool_ok (p\<lparr>bp_small := u\<rparr>)" using assms(1) u(2) by (simp add: pool_ok_def)
  from pop_small_gives [OF this, of "bp_small p"] u show ?thesis
    by (auto simp: gives_def reChargeSmallBuffers_def pool_geometry_def)
qed

lemmas gives_rules =
  pop_large_gives pop_medium_gives pop_small_gives
  recharge_large_gives recharge_medium_gives recharge_small_gives

lemmas get_tier_defs =
  bufferpoolGetLargeBuffer_def bufferpoolGetMediumBuffer_def bufferpoolGetSmallBuffer_def
  bufferpoolTiersHaveIdenticalGeometry_def sameTierGeometry_iff

lemma get_gives:
  assumes "pool_ok p"
  shows "gives p (bp_large p) (bufferpoolGetLargeBuffer p)"
    and "gives p (bp_medium p) (bufferpoolGetMediumBuffer p)"
    and "gives p (bp_small p) (bufferpoolGetSmallBuffer p)"
  unfolding get_tier_defs using assms by (simp_all add: gives_rules)

lemma reuse_ok:
  assumes "pool_ok p" "sbuf_ok b"
  shows "\<exists>q. bufferpoolReuseBuffer p b = Some q \<and> pool_ok q \<and> pool_geometry q = pool_geometry p"
proof -
  note p = pool_okD [OF assms(1)] and idle = idle_buf_reset [OF assms(2)]
  let ?c = "sbufReset b"
  have push: "\<exists>u. tier_push (bp_cap p) (bp_free_threshold p) t ?c = Some u \<and> tier_ok (bp_cap p) u \<and>
      tier_geometry u = tier_geometry t"
    if "bufferMatchesGeometry ?c (tier_size t) (tier_padding t)" "tier_ok (bp_cap p) t" for t
    using tier_push_ok [OF that(2) p(1,3)] match_tier_buf [OF idle that(1)] by blast
  consider "bufferMatchesGeometry ?c (tier_size (bp_large p)) (tier_padding (bp_large p))"
    | "\<not> bufferMatchesGeometry ?c (tier_size (bp_large p)) (tier_padding (bp_large p))"
      "bufferMatchesGeometry ?c (tier_size (bp_medium p)) (tier_padding (bp_medium p))"
    | "\<not> bufferMatchesGeometry ?c (tier_size (bp_large p)) (tier_padding (bp_large p))"
      "\<not> bufferMatchesGeometry ?c (tier_size (bp_medium p)) (tier_padding (bp_medium p))"
      "bufferMatchesGeometry ?c (tier_size (bp_small p)) (tier_padding (bp_small p))"
    | "\<not> bufferMatchesGeometry ?c (tier_size (bp_large p)) (tier_padding (bp_large p))"
      "\<not> bufferMatchesGeometry ?c (tier_size (bp_medium p)) (tier_padding (bp_medium p))"
      "\<not> bufferMatchesGeometry ?c (tier_size (bp_small p)) (tier_padding (bp_small p))"
    by blast
  then show ?thesis
  proof cases
    case 1
    then show ?thesis
      using push [OF 1 p(4)] p by (auto simp: bufferpoolReuseBuffer_def Let_def pool_ok_def pool_geometry_def)
  next
    case 2
    then show ?thesis
      using push [OF 2(2) p(5)] p by (auto simp: bufferpoolReuseBuffer_def Let_def pool_ok_def pool_geometry_def)
  next
    case 3
    then show ?thesis
      using push [OF 3(3) p(6)] p by (auto simp: bufferpoolReuseBuffer_def Let_def pool_ok_def pool_geometry_def)
  next
    case 4
    then show ?thesis using assms(1) by (simp add: bufferpoolReuseBuffer_def Let_def)
  qed
qed

text \<open>A buffer that can take a payload of \<open>n\<close> bytes after at least \<open>pad\<close> bytes of padding.\<close>

definition fresh_buf :: "nat \<Rightarrow> nat \<Rightarrow> sbuf \<Rightarrow> bool" where
  "fresh_buf n pad b \<longleftrightarrow> idle_buf b \<and> n \<le> sb_capacity b - curpos b \<and> pad \<le> curpos b"

lemma fresh_bufD:
  assumes "fresh_buf n pad b"
  shows "sbuf_ok b" "payload b = []" "sb_len b = 0" "n \<le> sb_capacity b - curpos b" "pad \<le> curpos b"
    "curpos b + sb_len b + n \<le> sb_capacity b" "idle_buf b"
proof -
  have "sbuf_ok b" "sb_len b = 0" using assms by (simp_all add: fresh_buf_def idle_buf_def)
  then show "curpos b + sb_len b + n \<le> sb_capacity b"
    using assms sbuf_okD(3) [of b] by (auto simp: fresh_buf_def)
qed (use assms in \<open>auto simp: fresh_buf_def idle_buf_def payload_def\<close>)

text \<open>The geometry the selected tier stands for.\<close>

definition fit_geometry :: "buffer_pool \<Rightarrow> nat \<Rightarrow> nat \<Rightarrow> nat \<times> nat" where
  "fit_geometry p n pad = (case bufferpoolSelectBestFit p n pad of
       kBufferPoolTierSmall \<Rightarrow> tier_geometry (bp_small p)
     | kBufferPoolTierMedium \<Rightarrow> tier_geometry (bp_medium p)
     | kBufferPoolTierLarge \<Rightarrow> tier_geometry (bp_large p)
     | kBufferPoolTierDedicated \<Rightarrow> (round_up 64 n, round_up 32 pad))"

lemma select_fits:
  "bufferpoolSelectBestFit p n pad = kBufferPoolTierSmall \<Longrightarrow> tier_fits (bp_small p) n pad"
  "bufferpoolSelectBestFit p n pad = kBufferPoolTierMedium \<Longrightarrow> tier_fits (bp_medium p) n pad"
  "bufferpoolSelectBestFit p n pad = kBufferPoolTierLarge \<Longrightarrow> tier_fits (bp_large p) n pad"
  by (auto simp: bufferpoolSelectBestFit_def Let_def split: if_splits)

lemma tier_buf_fresh:
  "tier_buf t b \<Longrightarrow> tier_fits t n pad \<Longrightarrow> fresh_buf n pad b"
  by (auto simp: tier_buf_def fresh_buf_def tier_fits_def idle_buf_def)

lemma gives_fresh:
  assumes "gives p t r" "tier_fits t n pad" "fit_geometry p n pad = tier_geometry t"
  shows "\<exists>b q. r = Some (b, q) \<and> fresh_buf n pad b \<and> pool_ok q \<and> pool_geometry q = pool_geometry p \<and>
    (sb_capacity b - l_pad b, l_pad b) = fit_geometry p n pad"
  using assms tier_buf_fresh [of t _ n pad] unfolding gives_def
  by (auto simp: tier_buf_def tier_geometry_def)

lemma getBestFit_ok:
  assumes p: "pool_ok p" and fits: "sbuf_fits n pad" "pad \<le> UINT16_MAX"
  shows "\<exists>b q. bufferpoolGetBestFit p n pad = Some (b, q) \<and> fresh_buf n pad b \<and> pool_ok q \<and>
    pool_geometry q = pool_geometry p \<and> (sb_capacity b - l_pad b, l_pad b) = fit_geometry p n pad"
proof (cases "bufferpoolSelectBestFit p n pad")
  case kBufferPoolTierSmall
  then show ?thesis
    using gives_fresh [OF get_gives(3) [OF p] select_fits(1)]
    by (simp add: bufferpoolGetBestFit_def fit_geometry_def)
next
  case kBufferPoolTierMedium
  then show ?thesis
    using gives_fresh [OF get_gives(2) [OF p] select_fits(2)]
    by (simp add: bufferpoolGetBestFit_def fit_geometry_def)
next
  case kBufferPoolTierLarge
  then show ?thesis
    using gives_fresh [OF get_gives(1) [OF p] select_fits(3)]
    by (simp add: bufferpoolGetBestFit_def fit_geometry_def)
next
  case kBufferPoolTierDedicated
  then show ?thesis
    using sbufCreate_ok [OF fits(2,1)] p round_up_ge [of 64 n] round_up_ge [of 32 pad]
    by (auto simp: bufferpoolGetBestFit_def fit_geometry_def fresh_buf_def idle_buf_def)
qed

lemma queryBestFit_eq:
  assumes p: "pool_ok p" and fits: "sbuf_fits n pad" "pad \<le> UINT16_MAX"
  shows "\<exists>f. bufferpoolQueryBestFit p n pad = Some (Some f) \<and>
    (fit_payload_capacity f, fit_left_padding f) = fit_geometry p n pad \<and>
    fit_allocation_charge f = fit_payload_capacity f + fit_left_padding f + 64 \<and>
    fit_pooled f = (bufferpoolSelectBestFit p n pad \<noteq> kBufferPoolTierDedicated)"
proof -
  have cap: "sbufTryComputeCapacity x y = Some (round_up 64 x + round_up 32 y) \<and>
      sbufAlignLeftPadding y = Some (round_up 32 y) \<and>
      sub32 (round_up 64 x + round_up 32 y) (round_up 32 y) = round_up 64 x \<and>
      u64 (sizeof_sbuf + (round_up 64 x + round_up 32 y) + kSbufAllocationAlignment) =
        round_up 64 x + round_up 32 y + 64"
    if "sbuf_fits x y" "y \<le> UINT16_MAX" for x y
    using that by (simp add: sbufTryComputeCapacity_eq sbufAlignLeftPadding_eq sbuf_fits_def sbuf_consts)
  have tier: "sbuf_fits (tier_size t) (tier_padding t)" "tier_padding t \<le> UINT16_MAX"
      "round_up 64 (tier_size t) = tier_size t" "round_up 32 (tier_padding t) = tier_padding t"
    if "tier_ok (bp_cap p) t" for t
    using tier_okD [OF that] by (simp_all add: round_up_of_dvd)
  show ?thesis
    using cap [OF fits] cap [OF tier(1,2)] tier(3,4) pool_okD [OF p]
    by (cases "bufferpoolSelectBestFit p n pad")
       (simp_all add: bufferpoolQueryBestFit_def fit_geometry_def tier_geometry_def Let_def)
qed

lemma fill_fresh:
  assumes f: "fresh_buf (sb_len b) pad f" and b: "sbuf_ok b"
  shows "\<exists>d. (do { g \<leftarrow> sbufSetLength f (sb_len b); h \<leftarrow> sbufWriteBuf g b (sb_len b);
      sbufSetRecalculateChecksum h (sbufGetRecalculateChecksum b) }) = Some d \<and> sbuf_ok d \<and>
    payload d = payload b \<and> sbufGetRecalculateChecksum d = sbufGetRecalculateChecksum b"
proof -
  note F = fresh_bufD [OF f]
  let ?g = "f\<lparr>sb_len := sb_len b\<rparr>"
  have g: "sbufSetLength f (sb_len b) = Some ?g" "sbuf_ok ?g"
    using F sbuf_okD [OF F(1)] by (auto simp: sbufSetLength_eq intro!: sbuf_ok_set_len)
  obtain h where h: "sbufWriteAt ?g 0 (payload b) = Some h" "sbuf_ok h" "payload h = payload b"
    using sbuf_write_whole [OF g(2), of "payload b"] by (auto simp: length_payload [OF b])
  have "sbufWriteBuf ?g b (sb_len b) = Some h"
    using h(1) g(2) F b by (simp add: sbufWriteBuf_eq length_payload)
  then show ?thesis
    using g(1) h sbuf_okD(8) [OF h(2)] by (simp add: sbufSetRecalculateChecksum_eq del: if_split)
qed

lemma sbufDuplicateByPool_ok:
  assumes p: "pool_ok p" and b: "sbuf_ok b"
  shows "\<exists>d q. sbufDuplicateByPool p b = Some (d, q) \<and> sbuf_ok d \<and> payload d = payload b \<and>
    sbufGetRecalculateChecksum d = sbufGetRecalculateChecksum b \<and> pool_ok q"
proof -
  define finish where "finish = (\<lambda>bnew pool.
      if sbufGetLength b > sbufGetMaximumWriteableSize bnew then do {
        pool \<leftarrow> bufferpoolReuseBuffer pool bnew; d \<leftarrow> sbufDuplicate b; Some (d, pool)
      } else do {
        bnew \<leftarrow> sbufSetLength bnew (sbufGetLength b);
        bnew \<leftarrow> sbufWriteBuf bnew b (sbufGetLength b);
        bnew \<leftarrow> sbufSetRecalculateChecksum bnew (sbufGetRecalculateChecksum b);
        Some (bnew, pool)
      })"
  obtain c where c: "sbufDuplicate b = Some c" "sbuf_ok c" "payload c = payload b"
    "sbufGetRecalculateChecksum c = sbufGetRecalculateChecksum b"
    using sbufDuplicate_ok [OF b] by blast
  have fin: "\<exists>d q'. finish f q = Some (d, q') \<and> sbuf_ok d \<and> payload d = payload b \<and>
      sbufGetRecalculateChecksum d = sbufGetRecalculateChecksum b \<and> pool_ok q'"
    if "idle_buf f" "pool_ok q" for f q
  proof (cases "sb_len b > sb_capacity f - curpos f")
    case True
    then show ?thesis
      using c reuse_ok [OF that(2) idle_bufD(1) [OF that(1)]] idle_bufD(1) [OF that(1)]
      by (auto simp: finish_def sbufGetLength_def sbufGetMaximumWriteableSize_eq)
  next
    case False
    then have "fresh_buf (sb_len b) 0 f" using that(1) by (simp add: fresh_buf_def)
    from fill_fresh [OF this b] show ?thesis
      using False that idle_bufD(1) [OF that(1)]
      by (auto simp: finish_def sbufGetLength_def sbufGetMaximumWriteableSize_eq guard_simps)
  qed
  have tier: "\<exists>d q. (do { (bnew, pool) \<leftarrow> r; finish bnew pool }) = Some (d, q) \<and> sbuf_ok d \<and>
      payload d = payload b \<and> sbufGetRecalculateChecksum d = sbufGetRecalculateChecksum b \<and> pool_ok q"
    if "gives p t r" for t r
    using that fin by (auto simp: gives_def tier_buf_def)
  show ?thesis
    using tier [OF get_gives(1) [OF p]] tier [OF get_gives(2) [OF p]] tier [OF get_gives(3) [OF p]] c p
    unfolding sbufDuplicateByPool_def Let_def finish_def [symmetric] by simp
qed

lemma geometry_threshold:
  assumes "bufferpoolTryComputeGeometry w = Some (capacity, threshold, bytes)"
  shows "capacity = 2 * w" "0 < w" "capacity \<le> UINT32_MAX" "threshold < capacity"
proof -
  have w: "0 < w" "w \<le> UINT32_MAX div 2" and c: "capacity = 2 * w"
    using assms by (auto simp: bufferpoolTryComputeGeometry_def Let_def mult.commute
        split: if_splits option.splits)
  then show "capacity = 2 * w" "0 < w" "capacity \<le> UINT32_MAX" by simp_all
  have m: "capacity mod 3 \<le> 2" using pos_mod_bound [of 3 "int capacity"] by simp
  have d: "3 * (capacity div 3) + capacity mod 3 = capacity" by simp
  have "capacity div 3 * 2 + capacity mod 3 * 2 div 3 < capacity" "capacity div 2 < capacity"
    using m d w c by linarith+
  moreover have "threshold = max (capacity div 2) (capacity div 3 * 2 + capacity mod 3 * 2 div 3)"
  proof -
    have "u32 (capacity div 3 * 2) = capacity div 3 * 2" "u32 (capacity mod 3 * 2) = capacity mod 3 * 2"
      "u32 (capacity div 3 * 2 + capacity mod 3 * 2 div 3) = capacity div 3 * 2 + capacity mod 3 * 2 div 3"
      using m d w c by (intro u32_id; linarith)+
    moreover have "u32 (w * 2) = capacity" using w c by (simp add: mult.commute)
    ultimately show ?thesis
      using assms w by (auto simp: bufferpoolTryComputeGeometry_def Let_def split: option.splits)
  qed
  ultimately show "threshold < capacity" by simp
qed

lemma round_size_ok:
  assumes "bufferpoolTryRoundBufferSize n = Some r"
  shows "r = round_up 64 n" "sbuf_fits r 0" "64 dvd r" "debugCheckRoundedSize r = Some ()"
proof -
  have f: "sbuf_fits n 0" and r: "r = round_up 64 n"
    using assms by (auto simp: bufferpoolTryRoundBufferSize_def sbufTryComputeCapacity_eq round_up_def
        split: if_splits)
  show "r = round_up 64 n" "64 dvd r" using r by simp_all
  show fr: "sbuf_fits r 0" using f r by (simp add: sbuf_fits_def)
  have "sbuf_ok (sbufAllocate r 0)" using sbufAllocate_ok [OF fr] r by (simp add: round_up_def [of 32])
  then show "debugCheckRoundedSize r = Some ()"
    using fr r by (simp add: debugCheckRoundedSize_def sbufCreateWithPadding_eq round_up_def [of 32]
        sbufGetTotalCapacityNoPadding_eq sbufGetLeftPadding_def sbuf_obs)
qed

lemma bufferpoolCreate_ok:
  assumes "bufferpoolCreate mpl mpm mps w ls ms ss limit basis = Some (Some p)"
    "mp_ok idle_buf mpl" "mp_ok idle_buf mpm" "mp_ok idle_buf mps"
  shows "pool_ok p \<and> bp_cap p = 2 * w \<and>
    pool_geometry p = ((round_up 64 ls, 0), (round_up 64 ms, 0), (round_up 64 ss, 0))"
proof -
  obtain cap thr bytes rl rm rs where
    g: "bufferpoolTryComputeGeometry w = Some (cap, thr, bytes)" and
    r: "bufferpoolTryRoundBufferSize ls = Some rl" "bufferpoolTryRoundBufferSize ms = Some rm"
       "bufferpoolTryRoundBufferSize ss = Some rs" and
    p: "p = \<lparr>bp_cap = cap, bp_free_threshold = thr, bp_large = new_tier rl mpl,
        bp_medium = new_tier rm mpm, bp_small = new_tier rs mps, bp_splice_payload_limit = limit,
        bp_waiting_budget_basis = basis, bp_splice_padding = 0\<rparr>"
    using assms(1)
    by (auto simp: bufferpoolCreate_def guard_simps split: if_splits option.splits)
  have "tier_ok cap (new_tier x mp)" if "sbuf_fits x 0" "64 dvd x" "mp_ok idle_buf mp" for x mp
    using that by (simp add: tier_ok_def new_tier_def)
  then show ?thesis
    using geometry_threshold [OF g] round_size_ok [OF r(1)] round_size_ok [OF r(2)] round_size_ok [OF r(3)]
      assms(2-4)
    by (simp add: p pool_ok_def pool_geometry_def tier_geometry_def new_tier_def)
qed

text \<open>The source contract holds for every tier and for best-fit requests.\<close>

interpretation large: buffer_source
  "\<lambda>p. pool_ok p \<and> pool_geometry p = g" bufferpoolGetLargeBuffer bufferpoolReuseBuffer
  "\<lambda>b. idle_buf b \<and> (sb_capacity b - l_pad b, l_pad b) = fst g" sbuf_ok for g
proof
  fix s assume "pool_ok s \<and> pool_geometry s = g"
  then show "\<exists>b s'. bufferpoolGetLargeBuffer s = Some (b, s') \<and>
      (idle_buf b \<and> (sb_capacity b - l_pad b, l_pad b) = fst g) \<and> pool_ok s' \<and> pool_geometry s' = g"
    using get_gives(1) [of s] by (auto simp: gives_def tier_buf_def pool_geometry_def tier_geometry_def)
next
  fix s b assume "pool_ok s \<and> pool_geometry s = g" "sbuf_ok b"
  then show "\<exists>s'. bufferpoolReuseBuffer s b = Some s' \<and> pool_ok s' \<and> pool_geometry s' = g"
    using reuse_ok [of s b] by auto
qed

interpretation medium: buffer_source
  "\<lambda>p. pool_ok p \<and> pool_geometry p = g" bufferpoolGetMediumBuffer bufferpoolReuseBuffer
  "\<lambda>b. idle_buf b \<and> (sb_capacity b - l_pad b, l_pad b) = fst (snd g)" sbuf_ok for g
proof
  fix s assume "pool_ok s \<and> pool_geometry s = g"
  then show "\<exists>b s'. bufferpoolGetMediumBuffer s = Some (b, s') \<and>
      (idle_buf b \<and> (sb_capacity b - l_pad b, l_pad b) = fst (snd g)) \<and> pool_ok s' \<and> pool_geometry s' = g"
    using get_gives(2) [of s] by (auto simp: gives_def tier_buf_def pool_geometry_def tier_geometry_def)
qed (rule large.put_inv)

interpretation small: buffer_source
  "\<lambda>p. pool_ok p \<and> pool_geometry p = g" bufferpoolGetSmallBuffer bufferpoolReuseBuffer
  "\<lambda>b. idle_buf b \<and> (sb_capacity b - l_pad b, l_pad b) = snd (snd g)" sbuf_ok for g
proof
  fix s assume "pool_ok s \<and> pool_geometry s = g"
  then show "\<exists>b s'. bufferpoolGetSmallBuffer s = Some (b, s') \<and>
      (idle_buf b \<and> (sb_capacity b - l_pad b, l_pad b) = snd (snd g)) \<and> pool_ok s' \<and> pool_geometry s' = g"
    using get_gives(3) [of s] by (auto simp: gives_def tier_buf_def pool_geometry_def tier_geometry_def)
qed (rule large.put_inv)

interpretation fit: buffer_source
  "\<lambda>p. pool_ok p \<and> sbuf_fits n pad \<and> pad \<le> UINT16_MAX" "\<lambda>p. bufferpoolGetBestFit p n pad"
  bufferpoolReuseBuffer "fresh_buf n pad" sbuf_ok for n pad
proof
  fix s assume "pool_ok s \<and> sbuf_fits n pad \<and> pad \<le> UINT16_MAX"
  then show "\<exists>b s'. bufferpoolGetBestFit s n pad = Some (b, s') \<and> fresh_buf n pad b \<and>
      pool_ok s' \<and> sbuf_fits n pad \<and> pad \<le> UINT16_MAX"
    using getBestFit_ok [of s n pad] by blast
next
  fix s b assume "pool_ok s \<and> sbuf_fits n pad \<and> pad \<le> UINT16_MAX" "sbuf_ok b"
  then show "\<exists>s'. bufferpoolReuseBuffer s b = Some s' \<and> pool_ok s' \<and> sbuf_fits n pad \<and> pad \<le> UINT16_MAX"
    using reuse_ok [of s b] by auto
qed

section \<open>Properties\<close>

definition sample_pool :: buffer_pool where
  "sample_pool = (let mp = \<lparr>mp_available = [], mp_checked_out = 0, mp_cap = 4\<rparr> in
     \<lparr>bp_cap = 4, bp_free_threshold = 2, bp_large = new_tier 4096 mp, bp_medium = new_tier 1024 mp,
      bp_small = new_tier 256 mp, bp_splice_payload_limit = 1, bp_waiting_budget_basis = 1,
      bp_splice_padding = 0\<rparr>)"

lemma sample_pool_ok: "pool_ok sample_pool"
  by (simp add: pool_ok_def sample_pool_def Let_def tier_ok_def new_tier_def mp_ok_def sbuf_fits_def
      round_up_def)

text \<open>Creating a buffer pool over valid master pools yields a pool that satisfies its
  invariant, with room for twice the requested count and with the three payload sizes rounded up
  to the cache line.\<close>

lemma bufferpool_create_valid:
  assumes "bufferpoolCreate mpl mpm mps w ls ms ss limit basis = Some (Some p)"
    "mp_ok idle_buf mpl" "mp_ok idle_buf mpm" "mp_ok idle_buf mps"
  shows "pool_ok p \<and> bp_cap p = 2 * w \<and>
    pool_geometry p = ((round_up 64 ls, 0), (round_up 64 ms, 0), (round_up 64 ss, 0))"
  using bufferpoolCreate_ok [OF assms] .

text \<open>C21. Any traffic of takes of one tier and returns of well-formed buffers runs without a
  fault: no slot array is overrun, every taken buffer is reset and has exactly the tier's
  geometry, and the pool's invariant holds afterwards.\<close>

theorem bufferpool_traffic_safe:
  assumes "pool_ok p" "\<forall>b. Give b \<in> set es \<longrightarrow> sbuf_ok b"
  shows "\<exists>bs q. cache_run bufferpoolGetLargeBuffer bufferpoolReuseBuffer p es = Some (bs, q) \<and>
    pool_ok q \<and> length bs = length (filter (\<lambda>e. e = Draw) es) \<and>
    (\<forall>b\<in>set bs. idle_buf b \<and> (sb_capacity b - l_pad b, l_pad b) = tier_geometry (bp_large p))"
  using large.run_total [of p "pool_geometry p" es] assms by (auto simp: pool_geometry_def)

theorem bufferpool_traffic_safe_witness:
  "\<exists>bs q. cache_run bufferpoolGetLargeBuffer bufferpoolReuseBuffer sample_pool
     [Draw, Give sbuf_sample, Draw] = Some (bs, q) \<and> length bs = 2"
  using bufferpool_traffic_safe [OF sample_pool_ok, of "[Draw, Give sbuf_sample, Draw]"] sbuf_sample_ok
  by auto

text \<open>A best-fit request that is representable never fails, returns a reset buffer with at
  least the requested payload room and padding, and the preceding query predicts its allocation
  charge, payload capacity and padding exactly.\<close>

lemma bufferpool_best_fit_agrees:
  assumes "pool_ok p" "sbuf_fits n pad" "pad \<le> UINT16_MAX"
  shows "\<exists>b q f. bufferpoolGetBestFit p n pad = Some (b, q) \<and> fresh_buf n pad b \<and> pool_ok q \<and>
    bufferpoolQueryBestFit p n pad = Some (Some f) \<and>
    fit_allocation_charge f = sbufGetAllocationCharge b \<and>
    fit_payload_capacity f = sb_capacity b - l_pad b \<and> fit_left_padding f = l_pad b"
proof -
  obtain b q where b: "bufferpoolGetBestFit p n pad = Some (b, q)" "fresh_buf n pad b" "pool_ok q"
    "(sb_capacity b - l_pad b, l_pad b) = fit_geometry p n pad"
    using getBestFit_ok [OF assms] by blast
  obtain f where f: "bufferpoolQueryBestFit p n pad = Some (Some f)"
    "(fit_payload_capacity f, fit_left_padding f) = fit_geometry p n pad"
    "fit_allocation_charge f = fit_payload_capacity f + fit_left_padding f + 64"
    using queryBestFit_eq [OF assms] by blast
  have ok: "sbuf_ok b" using fresh_bufD(1) [OF b(2)] .
  have "fit_payload_capacity f = sb_capacity b - l_pad b" "fit_left_padding f = l_pad b"
    using b(4) f(2) by (metis prod.inject)+
  then show ?thesis
    using b f sbuf_okD [OF ok]
    by (auto simp: sbufGetAllocationCharge_def sbuf_getters sbuf_consts)
qed

text \<open>The selected tier is a smallest one that can hold the request, and a dedicated
  allocation is chosen exactly when no tier can.\<close>

lemma bufferpool_select_minimal:
  "case bufferpoolSelectBestFit p n pad of
     kBufferPoolTierDedicated \<Rightarrow>
       \<not> tier_fits (bp_small p) n pad \<and> \<not> tier_fits (bp_medium p) n pad \<and> \<not> tier_fits (bp_large p) n pad
   | tier \<Rightarrow>
       (let chosen = (case tier of kBufferPoolTierSmall \<Rightarrow> bp_small p
                      | kBufferPoolTierMedium \<Rightarrow> bp_medium p | _ \<Rightarrow> bp_large p)
        in tier_fits chosen n pad \<and>
           list_all (\<lambda>t. tier_fits t n pad \<longrightarrow> tier_size chosen \<le> tier_size t)
             [bp_small p, bp_medium p, bp_large p])"
  by (auto simp: bufferpoolSelectBestFit_def Let_def split: if_splits)

end
