(* ===== verification/Stc_Deque.thy ===== *)
theory Stc_Deque
  imports WW_Prelude
begin

text \<open>
  The double-ended queue the buffer containers are built on comes from the STC template
  library, which is fetched by the build and not part of the repository. Its operations are
  therefore a parameter of every definition that uses them: a record of functions on an
  arbitrary representation. The locale states the documented behaviour the code relies on, in
  terms of the sequence a \<open>c_foreach\<close> loop visits.

  The C deques hold pointers. The elements here are the buffers themselves, so an update made
  through the pointer that \<open>front\<close> or \<open>back\<close> returns is an operation that replaces the element
  in its slot. A reservation within the bound the callers check succeeds: the allocator
  terminates the process instead of failing.
\<close>

record ('q, 'a) deque_ops =
  dq_init :: 'q
  dq_with_capacity :: "nat \<Rightarrow> 'q"
  dq_size :: "'q \<Rightarrow> nat"
  dq_is_empty :: "'q \<Rightarrow> bool"
  dq_front :: "'q \<Rightarrow> 'a"
  dq_back :: "'q \<Rightarrow> 'a"
  dq_put_front :: "'q \<Rightarrow> 'a \<Rightarrow> 'q"
  dq_put_back :: "'q \<Rightarrow> 'a \<Rightarrow> 'q"
  dq_push_back :: "'q \<Rightarrow> 'a \<Rightarrow> 'q"
  dq_push_front :: "'q \<Rightarrow> 'a \<Rightarrow> 'q"
  dq_pull_front :: "'q \<Rightarrow> 'a \<times> 'q"
  dq_pop_front :: "'q \<Rightarrow> 'q"
  dq_clear :: "'q \<Rightarrow> 'q"
  dq_reserve :: "'q \<Rightarrow> nat \<Rightarrow> bool \<times> 'q"
  dq_elems :: "'q \<Rightarrow> 'a list"

locale stc_deque =
  fixes D :: "('q, 'a) deque_ops"
  assumes elems_init [simp]: "dq_elems D (dq_init D) = []"
    and elems_with_capacity [simp]: "dq_elems D (dq_with_capacity D n) = []"
    and size_elems [simp]: "dq_size D q = length (dq_elems D q)"
    and is_empty_elems [simp]: "dq_is_empty D q = (dq_elems D q = [])"
    and front_elems [simp]: "dq_elems D q \<noteq> [] \<Longrightarrow> dq_front D q = hd (dq_elems D q)"
    and back_elems [simp]: "dq_elems D q \<noteq> [] \<Longrightarrow> dq_back D q = last (dq_elems D q)"
    and elems_put_front [simp]:
      "dq_elems D q \<noteq> [] \<Longrightarrow> dq_elems D (dq_put_front D q x) = x # tl (dq_elems D q)"
    and elems_put_back [simp]:
      "dq_elems D q \<noteq> [] \<Longrightarrow> dq_elems D (dq_put_back D q x) = butlast (dq_elems D q) @ [x]"
    and elems_push_back [simp]: "dq_elems D (dq_push_back D q x) = dq_elems D q @ [x]"
    and elems_push_front [simp]: "dq_elems D (dq_push_front D q x) = x # dq_elems D q"
    and fst_pull_front [simp]: "dq_elems D q \<noteq> [] \<Longrightarrow> fst (dq_pull_front D q) = hd (dq_elems D q)"
    and elems_pull_front [simp]:
      "dq_elems D q \<noteq> [] \<Longrightarrow> dq_elems D (snd (dq_pull_front D q)) = tl (dq_elems D q)"
    and elems_pop_front [simp]: "dq_elems D q \<noteq> [] \<Longrightarrow> dq_elems D (dq_pop_front D q) = tl (dq_elems D q)"
    and elems_clear [simp]: "dq_elems D (dq_clear D q) = []"
    and elems_reserve [simp]: "dq_elems D (snd (dq_reserve D q n)) = dq_elems D q"
    and reserve_ok [simp]: "n \<le> 576460752303423487 \<Longrightarrow> fst (dq_reserve D q n)"
begin

lemma pull_front_Cons:
  assumes "dq_elems D q = x # xs"
  shows "\<exists>q'. dq_pull_front D q = (x, q') \<and> dq_elems D q' = xs"
  using fst_pull_front [of q] elems_pull_front [of q] assms
  by (cases "dq_pull_front D q") simp

end

text \<open>The sequence itself satisfies these laws.\<close>

definition list_deque :: "('a list, 'a) deque_ops" where
  "list_deque = \<lparr>dq_init = [], dq_with_capacity = (\<lambda>_. []), dq_size = length,
     dq_is_empty = (\<lambda>q. q = []), dq_front = hd, dq_back = last,
     dq_put_front = (\<lambda>q x. x # tl q), dq_put_back = (\<lambda>q x. butlast q @ [x]),
     dq_push_back = (\<lambda>q x. q @ [x]), dq_push_front = (\<lambda>q x. x # q),
     dq_pull_front = (\<lambda>q. (hd q, tl q)), dq_pop_front = tl, dq_clear = (\<lambda>_. []),
     dq_reserve = (\<lambda>q _. (True, q)), dq_elems = (\<lambda>q. q)\<rparr>"

interpretation list_dq: stc_deque "list_deque :: ('a list, 'a) deque_ops"
  by unfold_locales (simp_all add: list_deque_def)

end
