(* ===== verification/Buffer_Stream.thy ===== *)
theory Buffer_Stream
  imports Buffer_Pool Stc_Deque "HOL-Library.Sublist"
begin

text \<open>
  The byte stream over queued buffers of \<open>ww/bufio/buffer_stream.h\<close> and \<open>buffer_stream.c\<close>:
  pushes coalesce small chunks, reads merge or split buffers, delimiter searches cross chunk
  boundaries. Every operation is shown to act on the sequence of buffered bytes as a queue
  does, independently of how the bytes are cut into buffers, and to run to completion.

  The pool a stream points to is shared with other owners, so it is an argument and a result
  of the operations. Buffers have one owner at a time: the pointer comparisons that exclude
  pushing a buffer onto itself hold by that ownership. The reading loops are partial functions
  whose results are proved to exist.
\<close>

section \<open>Representation\<close>

record 'q buffer_stream =
  bs_q :: 'q
  bs_size :: nat
  bs_use_left_padding :: nat

definition kBufferStreamQCap :: nat where
  "kBufferStreamQCap = 16"

definition kBufferStreamCoalescingMaxIncomingSize :: nat where
  "kBufferStreamCoalescingMaxIncomingSize = 4096"

definition bufferstreamCheckSbufByteCount :: "nat \<Rightarrow> unit option" where
  "bufferstreamCheckSbufByteCount bytes = (if bytes > UINT32_MAX then None else Some ())"

definition bufferstreamValidatePush :: "'q buffer_stream \<Rightarrow> sbuf \<Rightarrow> nat option" where
  "bufferstreamValidatePush self buf = do {
     ensure (\<not> sbufIsSplice buf);
     let buf_len = sbufGetLength buf;
     bufferstreamCheckSbufByteCount buf_len;
     if bs_size self > sub64 UINT32_MAX buf_len then None else Some buf_len
   }"

definition bufferstreamEnqueueValidated ::
  "('q, sbuf) deque_ops \<Rightarrow> 'q buffer_stream \<Rightarrow> sbuf \<Rightarrow> nat \<Rightarrow> 'q buffer_stream" where
  "bufferstreamEnqueueValidated D self buf buf_len =
     self\<lparr>bs_q := dq_push_back D (bs_q self) buf, bs_size := u64 (bs_size self + buf_len)\<rparr>"

definition bufferstreamAllocExactReadBuffer ::
  "'q buffer_stream \<Rightarrow> buffer_pool \<Rightarrow> nat \<Rightarrow> (sbuf \<times> buffer_pool) option" where
  "bufferstreamAllocExactReadBuffer self pool bytes =
     (let use_left_padding = bs_use_left_padding self;
          required_payload = (if bytes > use_left_padding then sub32 bytes use_left_padding else 0)
      in do {
        (sl, pool) \<leftarrow>
          (if required_payload \<le> bufferpoolGetSmallBufferSize pool \<and>
              use_left_padding \<le> bufferpoolGetSmallBufferPadding pool
           then bufferpoolGetSmallBuffer pool
           else do {
             (got, pool) \<leftarrow> bufferpoolTryGetBestFit pool required_payload
                              (max use_left_padding (bufferpoolGetLargeBufferPadding pool));
             case got of None \<Rightarrow> None | Some sl \<Rightarrow> Some (sl, pool)
           });
        ensure (use_left_padding \<le> sbufGetLeftCapacity sl);
        sl \<leftarrow> (if use_left_padding > 0 then do {
                      sl \<leftarrow> sbufShiftLeft sl use_left_padding;
                      sbufSetLength sl 0
                    } else Some sl);
        sl \<leftarrow> sbufReserveSpace sl bytes;
        Some (sl, pool)
      })"

definition bufferstreamInitEmpty :: "('q, sbuf) deque_ops \<Rightarrow> nat \<Rightarrow> 'q buffer_stream" where
  "bufferstreamInitEmpty D use_left_padding =
     \<lparr>bs_q = dq_init D, bs_size = 0, bs_use_left_padding = use_left_padding\<rparr>"

definition bufferstreamCreate :: "('q, sbuf) deque_ops \<Rightarrow> nat \<Rightarrow> 'q buffer_stream" where
  "bufferstreamCreate D use_left_padding =
     \<lparr>bs_q = dq_with_capacity D kBufferStreamQCap, bs_size = 0,
      bs_use_left_padding = use_left_padding\<rparr>"

definition bufferstreamGetEntryCount :: "('q, sbuf) deque_ops \<Rightarrow> 'q buffer_stream \<Rightarrow> nat" where
  "bufferstreamGetEntryCount D self = dq_size D (bs_q self)"

definition bufferstreamGetHeadLength :: "('q, sbuf) deque_ops \<Rightarrow> 'q buffer_stream \<Rightarrow> nat" where
  "bufferstreamGetHeadLength D self =
     (if dq_is_empty D (bs_q self) then 0 else sbufGetLength (dq_front D (bs_q self)))"

definition bufferstreamGetBufLen :: "'q buffer_stream \<Rightarrow> nat" where
  "bufferstreamGetBufLen self = bs_size self"

definition bufferstreamIsEmpty :: "'q buffer_stream \<Rightarrow> bool" where
  "bufferstreamIsEmpty self \<longleftrightarrow> bs_size self = 0"

primrec charge_loop :: "nat \<Rightarrow> sbuf list \<Rightarrow> nat" where
  "charge_loop charge [] = charge"
| "charge_loop charge (entry # entries) =
     (let next = sbufGetAllocationCharge entry in
      if next > sub64 SIZE_MAX charge then SIZE_MAX
      else charge_loop (u64 (charge + next)) entries)"

definition bufferstreamGetCharge :: "('q, sbuf) deque_ops \<Rightarrow> 'q buffer_stream \<Rightarrow> nat" where
  "bufferstreamGetCharge D self = charge_loop 0 (dq_elems D (bs_q self))"

primrec reuse_all :: "buffer_pool \<Rightarrow> sbuf list \<Rightarrow> buffer_pool option" where
  "reuse_all pool [] = Some pool"
| "reuse_all pool (b # bs) = do { pool \<leftarrow> bufferpoolReuseBuffer pool b; reuse_all pool bs }"

definition bufferstreamEmpty ::
  "('q, sbuf) deque_ops \<Rightarrow> 'q buffer_stream \<Rightarrow> buffer_pool \<Rightarrow> ('q buffer_stream \<times> buffer_pool) option" where
  "bufferstreamEmpty D self pool = do {
     pool \<leftarrow> reuse_all pool (dq_elems D (bs_q self));
     Some (self\<lparr>bs_q := dq_clear D (bs_q self), bs_size := 0\<rparr>, pool)
   }"

definition bufferstreamDestroy ::
  "('q, sbuf) deque_ops \<Rightarrow> 'q buffer_stream \<Rightarrow> buffer_pool \<Rightarrow> buffer_pool option" where
  "bufferstreamDestroy D self pool = reuse_all pool (dq_elems D (bs_q self))"

section \<open>Pushing\<close>

definition bufferstreamPush ::
  "('q, sbuf) deque_ops \<Rightarrow> 'q buffer_stream \<Rightarrow> buffer_pool \<Rightarrow> sbuf \<Rightarrow>
   ('q buffer_stream \<times> buffer_pool) option" where
  "bufferstreamPush D self pool buf = do {
     incoming_len \<leftarrow> bufferstreamValidatePush self buf;
     if \<not> dq_is_empty D (bs_q self) \<and> incoming_len > 0 \<and>
        incoming_len \<le> kBufferStreamCoalescingMaxIncomingSize
     then do {
       let tail = dq_back D (bs_q self);
       let tail_len = sbufGetLength tail;
       tail_spare \<leftarrow> sbufGetTailCapacity tail;
       if incoming_len \<le> tail_spare then do {
         xs \<leftarrow> sbufRead buf incoming_len;
         tail \<leftarrow> sbufWriteAt tail tail_len xs;
         tail \<leftarrow> sbufSetLength tail (u32 (tail_len + incoming_len));
         pool \<leftarrow> bufferpoolReuseBuffer pool buf;
         Some (self\<lparr>bs_q := dq_put_back D (bs_q self) tail,
                    bs_size := u64 (bs_size self + incoming_len)\<rparr>, pool)
       }
       else Some (bufferstreamEnqueueValidated D self buf incoming_len, pool)
     }
     else Some (bufferstreamEnqueueValidated D self buf incoming_len, pool)
   }"

section \<open>Reading\<close>

partial_function (option) readExactLoop ::
  "('q, sbuf) deque_ops \<Rightarrow> 'q buffer_stream \<Rightarrow> buffer_pool \<Rightarrow> sbuf \<Rightarrow> nat \<Rightarrow>
   (sbuf \<times> 'q buffer_stream \<times> buffer_pool) option" where
  "readExactLoop D self pool container bytes =
     (if sbufGetLength container > bytes then do {
        (sl, pool) \<leftarrow> bufferstreamAllocExactReadBuffer self pool (u32 bytes);
        (sl, container) \<leftarrow> sbufMoveTo sl container (u32 bytes);
        Some (sl, self\<lparr>bs_q := dq_push_front D (bs_q self) container\<rparr>, pool)
      }
      else if sbufGetLength container = bytes then Some (container, self, pool)
      else do {
        ensure (dq_size D (bs_q self) > 0);
        (container, pool) \<leftarrow> sbufAppendMerge pool container (fst (dq_pull_front D (bs_q self)));
        readExactLoop D (self\<lparr>bs_q := snd (dq_pull_front D (bs_q self))\<rparr>) pool container bytes
      })"

definition bufferstreamReadExact ::
  "('q, sbuf) deque_ops \<Rightarrow> 'q buffer_stream \<Rightarrow> buffer_pool \<Rightarrow> nat \<Rightarrow>
   (sbuf \<times> 'q buffer_stream \<times> buffer_pool) option" where
  "bufferstreamReadExact D self pool bytes = do {
     ensure (bs_size self \<ge> bytes \<and> bytes > 0);
     ensure (dq_size D (bs_q self) > 0);
     bufferstreamCheckSbufByteCount bytes;
     readExactLoop D (self\<lparr>bs_size := sub64 (bs_size self) bytes,
                           bs_q := snd (dq_pull_front D (bs_q self))\<rparr>)
       pool (fst (dq_pull_front D (bs_q self))) bytes
   }"

definition bufferstreamFullRead ::
  "('q, sbuf) deque_ops \<Rightarrow> 'q buffer_stream \<Rightarrow> buffer_pool \<Rightarrow>
   (sbuf option \<times> 'q buffer_stream \<times> buffer_pool) option" where
  "bufferstreamFullRead D self pool =
     (let bytes = bufferstreamGetBufLen self in
      if bytes = 0 then Some (None, self, pool)
      else do {
        (b, self, pool) \<leftarrow> bufferstreamReadExact D self pool bytes;
        Some (Some b, self, pool)
      })"

partial_function (option) moveExactLoop ::
  "('q, sbuf) deque_ops \<Rightarrow> 'q buffer_stream \<Rightarrow> buffer_pool \<Rightarrow> sbuf \<Rightarrow> nat \<Rightarrow> nat \<Rightarrow>
   ('q buffer_stream \<times> buffer_pool \<times> sbuf) option" where
  "moveExactLoop D self pool destination target remaining =
     (if remaining > 0 then do {
        ensure (\<not> dq_is_empty D (bs_q self));
        let source = dq_front D (bs_q self);
        ensure (\<not> sbufIsSplice source);
        let available = sbufGetLength source;
        let cnt = min remaining available;
        destination \<leftarrow> (if cnt \<noteq> 0 then do {
                            xs \<leftarrow> sbufRead source cnt;
                            sbufWriteAt destination target xs
                          } else Some destination);
        (self, pool) \<leftarrow>
          (if cnt = available then do {
             pool \<leftarrow> bufferpoolReuseBuffer pool source;
             Some (self\<lparr>bs_q := dq_pop_front D (bs_q self)\<rparr>, pool)
           }
           else do {
             source \<leftarrow> sbufShiftRight source cnt;
             Some (self\<lparr>bs_q := dq_put_front D (bs_q self) source\<rparr>, pool)
           });
        moveExactLoop D self pool destination (target + cnt) (remaining - cnt)
      }
      else Some (self, pool, destination))"

definition bufferstreamMoveExactBytesTo ::
  "('q, sbuf) deque_ops \<Rightarrow> 'q buffer_stream \<Rightarrow> buffer_pool \<Rightarrow> sbuf \<Rightarrow> nat \<Rightarrow>
   ('q buffer_stream \<times> buffer_pool \<times> sbuf) option" where
  "bufferstreamMoveExactBytesTo D self pool destination bytes = do {
     ensure (\<not> sbufIsSplice destination);
     ensure (curpos destination \<le> sb_capacity destination);
     let length' = sbufGetLength destination;
     let writable = sbufGetMaximumWriteableSize destination;
     if bytes > bs_size self then None
     else if length' > writable \<or> bytes > sub32 writable length' then None
     else if bytes = 0 then Some (self, pool, destination)
     else do {
       (self, pool, destination) \<leftarrow>
         moveExactLoop D (self\<lparr>bs_size := sub64 (bs_size self) bytes\<rparr>) pool destination length' bytes;
       destination \<leftarrow> sbufSetLength destination (u32 (length' + u32 bytes));
       Some (self, pool, destination)
     }
   }"

partial_function (option) readAtLeastLoop ::
  "('q, sbuf) deque_ops \<Rightarrow> 'q buffer_stream \<Rightarrow> buffer_pool \<Rightarrow> sbuf \<Rightarrow> nat \<Rightarrow> nat \<Rightarrow>
   (sbuf \<times> 'q buffer_stream \<times> buffer_pool) option" where
  "readAtLeastLoop D self pool container consumed bytes =
     (if sbufGetLength container \<ge> bytes then
        Some (container, self\<lparr>bs_size := sub64 (bs_size self) consumed\<rparr>, pool)
      else do {
        ensure (dq_size D (bs_q self) > 0);
        let next = fst (dq_pull_front D (bs_q self));
        (container, pool) \<leftarrow> sbufAppendMerge pool container next;
        readAtLeastLoop D (self\<lparr>bs_q := snd (dq_pull_front D (bs_q self))\<rparr>) pool container
          (u64 (consumed + sbufGetLength next)) bytes
      })"

definition bufferstreamReadAtLeast ::
  "('q, sbuf) deque_ops \<Rightarrow> 'q buffer_stream \<Rightarrow> buffer_pool \<Rightarrow> nat \<Rightarrow>
   (sbuf \<times> 'q buffer_stream \<times> buffer_pool) option" where
  "bufferstreamReadAtLeast D self pool bytes = do {
     ensure (bs_size self \<ge> bytes \<and> bytes > 0);
     ensure (dq_size D (bs_q self) > 0);
     bufferstreamCheckSbufByteCount bytes;
     let container = fst (dq_pull_front D (bs_q self));
     readAtLeastLoop D (self\<lparr>bs_q := snd (dq_pull_front D (bs_q self))\<rparr>) pool container
       (sbufGetLength container) bytes
   }"

definition bufferstreamIdealRead ::
  "('q, sbuf) deque_ops \<Rightarrow> 'q buffer_stream \<Rightarrow> (sbuf \<times> 'q buffer_stream) option" where
  "bufferstreamIdealRead D self = do {
     ensure (bs_size self > 0);
     ensure (dq_size D (bs_q self) > 0);
     let container = fst (dq_pull_front D (bs_q self));
     Some (container, self\<lparr>bs_q := snd (dq_pull_front D (bs_q self)),
                           bs_size := sub64 (bs_size self) (sbufGetLength container)\<rparr>)
   }"

definition bufferstreamSettleRetained ::
  "('q, sbuf) deque_ops \<Rightarrow> 'q buffer_stream \<Rightarrow> buffer_pool \<Rightarrow> nat \<Rightarrow>
   (bool \<times> 'q buffer_stream \<times> buffer_pool) option" where
  "bufferstreamSettleRetained D self pool max_charge =
     (let bytes = bufferstreamGetBufLen self in
      if bytes = 0 then do {
        (self, pool) \<leftarrow> bufferstreamEmpty D self pool;
        Some (True, self, pool)
      }
      else do {
        let padding = bufferpoolGetLargeBufferPadding pool;
        query \<leftarrow> bufferpoolQueryBestFit pool bytes padding;
        case query of None \<Rightarrow> Some (False, self, pool)
        | Some fit \<Rightarrow>
            let charge_limit = max max_charge (fit_allocation_charge fit) in
            if bufferstreamGetCharge D self > charge_limit then do {
              (compact, pool) \<leftarrow> bufferpoolGetBestFit pool (u32 bytes) padding;
              (self, pool, compact) \<leftarrow> bufferstreamMoveExactBytesTo D self pool compact bytes;
              (self, pool) \<leftarrow> bufferstreamEmpty D self pool;
              (self, pool) \<leftarrow> bufferstreamPush D self pool compact;
              Some (True, self, pool)
            }
            else Some (True, self, pool)
      })"

section \<open>Viewing and searching\<close>

primrec viewByteLoop :: "sbuf list \<Rightarrow> nat \<Rightarrow> byte option" where
  "viewByteLoop [] offset = None"
| "viewByteLoop (b # bs) offset =
     (let blen = sbufGetLength b in
      if offset < blen then map_option hd (mem_read (sb_buf b) (curpos b + offset) 1)
      else viewByteLoop bs (offset - blen))"

definition bufferstreamViewByteAt ::
  "('q, sbuf) deque_ops \<Rightarrow> 'q buffer_stream \<Rightarrow> nat \<Rightarrow> byte option" where
  "bufferstreamViewByteAt D self at =
     (if at \<ge> bs_size self then None else viewByteLoop (dq_elems D (bs_q self)) at)"

primrec viewBytesLoop :: "sbuf list \<Rightarrow> nat \<Rightarrow> byte list \<Rightarrow> nat \<Rightarrow> byte list option" where
  "viewBytesLoop [] remaining_offset buf len = None"
| "viewBytesLoop (b # bs) remaining_offset buf len =
     (let blen = sbufGetLength b in
      if remaining_offset \<ge> blen then viewBytesLoop bs (remaining_offset - blen) buf len
      else do {
        let copy_start = remaining_offset;
        let copy_len = min (len - length buf) (blen - copy_start);
        xs \<leftarrow> mem_read (sb_buf b) (curpos b + copy_start) copy_len;
        if length (buf @ xs) = len then Some (buf @ xs) else viewBytesLoop bs 0 (buf @ xs) len
      })"

definition bufferstreamViewBytesAt ::
  "('q, sbuf) deque_ops \<Rightarrow> 'q buffer_stream \<Rightarrow> nat \<Rightarrow> nat \<Rightarrow> byte list option" where
  "bufferstreamViewBytesAt D self at len = do {
     ensure (len > 0 \<and> bs_size self \<noteq> 0 \<and> at \<le> bs_size self \<and> len \<le> sub64 (bs_size self) at);
     viewBytesLoop (dq_elems D (bs_q self)) at [] len
   }"

text \<open>The byte-by-byte searches: the state and the position of the candidate, or the result.\<close>

definition crlf_step :: "nat \<Rightarrow> byte \<Rightarrow> nat \<times> nat \<Rightarrow> nat + nat \<times> nat" where
  "crlf_step pos c st =
     (let (state, match_idx) = st in
      if state = 0 then (if c = 13 then Inr (1, pos) else Inr (state, match_idx))
      else if c = 10 then Inl match_idx
      else if c = 13 then Inr (state, pos)
      else Inr (0, match_idx))"

definition double_crlf_step :: "nat \<Rightarrow> byte \<Rightarrow> nat \<times> nat \<Rightarrow> nat + nat \<times> nat" where
  "double_crlf_step pos c st =
     (let (state, match_idx) = st in
      if state = 0 then (if c = 13 then Inr (1, pos) else Inr (state, match_idx))
      else if state = 1 then
        (if c = 10 then Inr (2, match_idx)
         else if c = 13 then Inr (state, pos)
         else Inr (0, match_idx))
      else if state = 2 then (if c = 13 then Inr (3, match_idx) else Inr (0, match_idx))
      else
        (if c = 10 then Inl (u64 (match_idx + 4))
         else if c = 13 then Inr (1, pos)
         else Inr (0, match_idx)))"

primrec scan_bytes ::
  "(nat \<Rightarrow> byte \<Rightarrow> nat \<times> nat \<Rightarrow> nat + nat \<times> nat) \<Rightarrow> nat \<Rightarrow> byte list \<Rightarrow> nat \<times> nat \<Rightarrow> nat + nat \<times> nat" where
  "scan_bytes step pos [] st = Inr st"
| "scan_bytes step pos (c # cs) st =
     (case step pos c st of Inl r \<Rightarrow> Inl r | Inr st \<Rightarrow> scan_bytes step (Suc pos) cs st)"

primrec scan_bufs ::
  "(nat \<Rightarrow> byte \<Rightarrow> nat \<times> nat \<Rightarrow> nat + nat \<times> nat) \<Rightarrow> nat \<Rightarrow> sbuf list \<Rightarrow> nat \<times> nat \<Rightarrow> nat option option" where
  "scan_bufs step cur_offset [] st = Some None"
| "scan_bufs step cur_offset (b # bs) st = do {
     xs \<leftarrow> sbufRead b (sbufGetLength b);
     case scan_bytes step cur_offset xs st of
       Inl r \<Rightarrow> Some (Some r)
     | Inr st \<Rightarrow> scan_bufs step (cur_offset + sbufGetLength b) bs st
   }"

definition bufferstreamFindCRLF ::
  "('q, sbuf) deque_ops \<Rightarrow> 'q buffer_stream \<Rightarrow> nat option option" where
  "bufferstreamFindCRLF D stream =
     (if bufferstreamGetBufLen stream < 2 then Some None
      else scan_bufs crlf_step 0 (dq_elems D (bs_q stream)) (0, 0))"

definition bufferstreamFindDoubleCRLF ::
  "('q, sbuf) deque_ops \<Rightarrow> 'q buffer_stream \<Rightarrow> nat option option" where
  "bufferstreamFindDoubleCRLF D stream =
     (if bufferstreamGetBufLen stream < 4 then Some None
      else scan_bufs double_crlf_step 0 (dq_elems D (bs_q stream)) (0, 0))"

section \<open>Abstraction\<close>

definition stream_bytes :: "('q, sbuf) deque_ops \<Rightarrow> 'q buffer_stream \<Rightarrow> byte list" where
  "stream_bytes D s = concat (map payload (dq_elems D (bs_q s)))"

definition stream_ok :: "('q, sbuf) deque_ops \<Rightarrow> 'q buffer_stream \<Rightarrow> bool" where
  "stream_ok D s \<longleftrightarrow> (\<forall>b\<in>set (dq_elems D (bs_q s)). sbuf_ok b) \<and>
     bs_size s = length (stream_bytes D s) \<and> bs_size s \<le> UINT32_MAX \<and> bs_use_left_padding s \<le> 65504"

text \<open>
  Reads that merge or split buffers allocate. Up to this many buffered bytes every such
  allocation is representable for every padding a buffer can have.
\<close>

abbreviation STREAM_SAFE_MAX :: nat where
  "STREAM_SAFE_MAX \<equiv> 4294836224"

lemma round_up_32_le: "pad \<le> 65504 \<Longrightarrow> round_up 32 pad \<le> 65504"
  using div_le_mono [of "pad + 31" 65535 32] by (simp add: round_up_def)

lemma pad_bound: "32 dvd pad \<Longrightarrow> pad \<le> UINT16_MAX \<Longrightarrow> pad \<le> 65504"
  by (elim dvdE) simp

lemma sbuf_pad_bound: "sbuf_ok b \<Longrightarrow> l_pad b \<le> 65504"
  using pad_bound [of "l_pad b"] by (simp add: sbuf_okD)

lemma safe_fits: "n \<le> STREAM_SAFE_MAX \<Longrightarrow> pad \<le> 65504 \<Longrightarrow> sbuf_fits n pad"
  using round_up_32_le [of pad] round_up_less [of 64 n] by (simp add: sbuf_fits_def)

lemma length_concat_payload:
  "\<forall>b\<in>set bs. sbuf_ok b \<Longrightarrow> length (concat (map payload bs)) = sum_list (map sb_len bs)"
  by (induction bs) (simp_all add: length_payload)

lemma reuse_all_ok:
  assumes "pool_ok p" "\<forall>b\<in>set bs. sbuf_ok b"
  shows "\<exists>q. reuse_all p bs = Some q \<and> pool_ok q \<and> pool_geometry q = pool_geometry p"
  using assms
proof (induction bs arbitrary: p)
  case Nil
  then show ?case by simp
next
  case (Cons b bs)
  then obtain q where "bufferpoolReuseBuffer p b = Some q" "pool_ok q" "pool_geometry q = pool_geometry p"
    using reuse_ok [of p b] by auto
  then show ?case using Cons.IH [of q] Cons.prems by auto
qed

lemma sbufAppendMerge_ok:
  assumes "pool_ok p" "sbuf_ok b1" "sbuf_ok b2" "sb_len b1 + sb_len b2 \<le> STREAM_SAFE_MAX"
  shows "\<exists>d q. sbufAppendMerge p b1 b2 = Some (d, q) \<and> sbuf_ok d \<and> payload d = payload b1 @ payload b2 \<and>
    pool_ok q"
  using sbufConcat_ok [OF assms(2,3)] safe_fits [OF assms(4) sbuf_pad_bound [OF assms(2)]]
    reuse_ok [OF assms(1,3)]
  by (auto simp: sbufAppendMerge_def)

lemma allocExact_fresh:
  assumes p: "pool_ok p" and u: "u \<le> 65504" and n: "n \<le> STREAM_SAFE_MAX"
  shows "\<exists>f q. (if n \<le> bufferpoolGetSmallBufferSize p \<and> u \<le> bufferpoolGetSmallBufferPadding p
       then bufferpoolGetSmallBuffer p
       else do { (got, q) \<leftarrow> bufferpoolTryGetBestFit p n (max u (bufferpoolGetLargeBufferPadding p));
                 case got of None \<Rightarrow> None | Some sl \<Rightarrow> Some (sl, q) }) = Some (f, q) \<and>
     fresh_buf n u f \<and> pool_ok q"
proof (cases "n \<le> bufferpoolGetSmallBufferSize p \<and> u \<le> bufferpoolGetSmallBufferPadding p")
  case True
  then show ?thesis
    using get_gives(3) [OF p] tier_buf_fresh [of "bp_small p" _ n u]
    by (auto simp: gives_def tier_fits_def bufferpoolGetSmallBufferSize_def
        bufferpoolGetSmallBufferPadding_def)
next
  case False
  define w where "w = max u (bufferpoolGetLargeBufferPadding p)"
  have w: "w \<le> 65504" "u \<le> w"
    using u pad_bound [OF tier_okD(5,7) [OF pool_okD(4) [OF p]]]
    by (simp_all add: w_def bufferpoolGetLargeBufferPadding_def)
  have fits: "sbuf_fits n w" using safe_fits [OF n w(1)] .
  obtain f q where f: "bufferpoolGetBestFit p n w = Some (f, q)" "fresh_buf n w f" "pool_ok q"
    using fit.get_ready [of p n w] p fits w by auto
  have "fresh_buf n u f" using f(2) w(2) by (auto simp: fresh_buf_def)
  then show ?thesis
    using False f w fits n
    by (auto simp: bufferpoolTryGetBestFit_def sbufTryComputeCapacity_eq w_def [symmetric])
qed

lemma allocExact_ok:
  assumes p: "pool_ok p" and u: "bs_use_left_padding s \<le> 65504" and n: "n \<le> STREAM_SAFE_MAX"
  shows "\<exists>f q. bufferstreamAllocExactReadBuffer s p n = Some (f, q) \<and> sbuf_ok f \<and> payload f = [] \<and>
    sb_len f = 0 \<and> curpos f + n \<le> sb_capacity f \<and> pool_ok q"
proof -
  let ?u = "bs_use_left_padding s"
  define r where "r = (if n > ?u then sub32 n ?u else 0)"
  have r: "r \<le> STREAM_SAFE_MAX" "n \<le> r + ?u" using n by (auto simp: r_def)
  obtain f q where f: "(if r \<le> bufferpoolGetSmallBufferSize p \<and> ?u \<le> bufferpoolGetSmallBufferPadding p
       then bufferpoolGetSmallBuffer p
       else do { (got, q) \<leftarrow> bufferpoolTryGetBestFit p r (max ?u (bufferpoolGetLargeBufferPadding p));
                 case got of None \<Rightarrow> None | Some sl \<Rightarrow> Some (sl, q) }) = Some (f, q)"
    and fr: "fresh_buf r ?u f" and q: "pool_ok q"
    using allocExact_fresh [OF p u r(1)] by blast
  note F = fresh_bufD [OF fr]
  let ?g = "f\<lparr>curpos := curpos f - ?u, sb_len := 0\<rparr>"
  have g: "sbuf_ok ?g" "curpos ?g + n \<le> sb_capacity ?g"
    using sbuf_okD [OF F(1)] F r(2) by (auto simp: sbuf_ok_def)
  have shift: "(if ?u > 0 then do { sl \<leftarrow> sbufShiftLeft f ?u; sbufSetLength sl 0 } else Some f) = Some ?g"
  proof (cases "?u > 0")
    case True
    then show ?thesis
      using F sbuf_okD [OF F(1)] by (simp add: sbufShiftLeft_eq sbufSetLength_eq)
  next
    case False
    then show ?thesis using F(3) by simp
  qed
  have "bufferstreamAllocExactReadBuffer s p n = Some (?g, q)"
    unfolding bufferstreamAllocExactReadBuffer_def Let_def r_def [symmetric] f
    using F g shift by (simp add: sbufGetLeftCapacity_def sbufReserveSpace_same)
  then show ?thesis using g q by (auto simp: payload_def)
qed

section \<open>The stream operations\<close>

locale sbuf_deque = stc_deque D for D :: "('q, sbuf) deque_ops"
begin

lemma stream_bytes_Cons:
  "dq_elems D (bs_q s) = b # bs \<Longrightarrow> stream_bytes D s = payload b @ concat (map payload bs)"
  by (simp add: stream_bytes_def)

lemma stream_nonempty: "stream_ok D s \<Longrightarrow> bs_size s > 0 \<Longrightarrow> dq_elems D (bs_q s) \<noteq> []"
  by (auto simp: stream_ok_def stream_bytes_def)

lemma empty_ok: "stream_ok D (bufferstreamInitEmpty D u)" "stream_ok D (bufferstreamCreate D u)"
  if "u \<le> 65504"
  using that
  by (simp_all add: stream_ok_def stream_bytes_def bufferstreamInitEmpty_def bufferstreamCreate_def)

lemma stream_empty_ok:
  assumes "stream_ok D s" "pool_ok p"
  shows "\<exists>s' p'. bufferstreamEmpty D s p = Some (s', p') \<and> stream_ok D s' \<and> stream_bytes D s' = [] \<and>
    pool_ok p' \<and> pool_geometry p' = pool_geometry p \<and> dq_elems D (bs_q s') = []"
  using assms reuse_all_ok [OF assms(2), of "dq_elems D (bs_q s)"]
  by (auto simp: bufferstreamEmpty_def stream_ok_def stream_bytes_def)

lemma enqueue_ok:
  assumes "stream_ok D s" "sbuf_ok b" "bs_size s + sb_len b \<le> UINT32_MAX"
  shows "stream_ok D (bufferstreamEnqueueValidated D s b (sb_len b))"
    "stream_bytes D (bufferstreamEnqueueValidated D s b (sb_len b)) = stream_bytes D s @ payload b"
  using assms
  by (auto simp: bufferstreamEnqueueValidated_def stream_ok_def stream_bytes_def length_payload)

lemma coalesce_ok:
  assumes s: "stream_ok D s" "dq_elems D (bs_q s) \<noteq> []" and b: "sbuf_ok b"
    and room: "curpos (last (dq_elems D (bs_q s))) + sb_len (last (dq_elems D (bs_q s))) + sb_len b
               \<le> sb_capacity (last (dq_elems D (bs_q s)))"
    and size: "bs_size s + sb_len b \<le> UINT32_MAX"
  defines "t \<equiv> s\<lparr>bs_q := dq_put_back D (bs_q s) (sbuf_append (last (dq_elems D (bs_q s))) (payload b)),
                bs_size := bs_size s + sb_len b\<rparr>"
  shows "stream_ok D t" "stream_bytes D t = stream_bytes D s @ payload b"
proof -
  let ?es = "dq_elems D (bs_q s)"
  have l: "sbuf_ok (last ?es)" using s by (auto simp: stream_ok_def)
  have es: "?es = butlast ?es @ [last ?es]" using s(2) by simp
  note app = sbuf_append_obs [OF l, of "payload b"]
  have bytes: "stream_bytes D s = concat (map payload (butlast ?es)) @ payload (last ?es)"
    unfolding stream_bytes_def by (subst es) simp
  show t: "stream_bytes D t = stream_bytes D s @ payload b"
    unfolding bytes using app(2) s(2) room b by (simp add: t_def stream_bytes_def length_payload)
  have "\<forall>c\<in>set (butlast ?es). sbuf_ok c" using s(1) by (auto simp: stream_ok_def dest: in_set_butlastD)
  then have ok: "\<forall>c\<in>set (dq_elems D (bs_q t)). sbuf_ok c"
    using app(1) s(2) room b by (simp add: t_def length_payload)
  show "stream_ok D t"
    using ok t s(1) size b by (simp add: stream_ok_def length_payload) (simp add: t_def)
qed

lemma push_ok:
  assumes s: "stream_ok D s" and p: "pool_ok p" and b: "sbuf_ok b"
    and size: "bs_size s + sb_len b \<le> UINT32_MAX"
  shows "\<exists>s' p'. bufferstreamPush D s p b = Some (s', p') \<and> stream_ok D s' \<and>
    stream_bytes D s' = stream_bytes D s @ payload b \<and> pool_ok p' \<and>
    bs_use_left_padding s' = bs_use_left_padding s"
proof -
  let ?es = "dq_elems D (bs_q s)"
  have "bs_size s \<le> sub64 UINT32_MAX (sb_len b)" using size by simp
  then have v: "bufferstreamValidatePush s b = Some (sb_len b)"
    using size sbuf_okD(8) [OF b]
    by (simp add: bufferstreamValidatePush_def sbufGetLength_def bufferstreamCheckSbufByteCount_def)
  have u: "u64 (bs_size s + sb_len b) = bs_size s + sb_len b" using size by simp
  have plain: "bs_use_left_padding (bufferstreamEnqueueValidated D s b (sb_len b)) = bs_use_left_padding s"
    by (simp add: bufferstreamEnqueueValidated_def)
  show ?thesis
  proof (cases "?es \<noteq> [] \<and> sb_len b > 0 \<and> sb_len b \<le> kBufferStreamCoalescingMaxIncomingSize \<and>
      sb_len b \<le> sb_capacity (last ?es) - curpos (last ?es) - sb_len (last ?es)")
    case True
    let ?t = "last ?es"
    have t: "sbuf_ok ?t" using s True by (auto simp: stream_ok_def)
    have room: "curpos ?t + sb_len ?t + sb_len b \<le> sb_capacity ?t"
      using True sbuf_okD(3) [OF t] by linarith
    have len: "u32 (sb_len ?t + sb_len b) = sb_len ?t + length (payload b)"
      using room sbuf_okD(2) [OF t] b by (simp add: length_payload)
    have w: "do { u \<leftarrow> sbufWriteAt ?t (sb_len ?t) (payload b); sbufSetLength u (u32 (sb_len ?t + sb_len b)) } =
        Some (sbuf_append ?t (payload b))"
      unfolding len using room t b
      by (simp add: sbufWriteAt_eq sbufSetLength_eq sbuf_okD length_payload sbuf_append_def)
    obtain p' where p': "bufferpoolReuseBuffer p b = Some p'" "pool_ok p'" using reuse_ok [OF p b] by blast
    let ?u = "s\<lparr>bs_q := dq_put_back D (bs_q s) (sbuf_append ?t (payload b)),
                bs_size := bs_size s + sb_len b\<rparr>"
    have "bufferstreamPush D s p b = Some (?u, p')"
      using True v w p' t b u
      by (simp add: bufferstreamPush_def sbufTailCapacity_eq sbufRead_eq length_payload sbufGetLength_def
          guard_simps) auto
    then show ?thesis using coalesce_ok [OF s _ b room size] True p' by auto
  next
    case False
    have "bufferstreamPush D s p b = Some (bufferstreamEnqueueValidated D s b (sb_len b), p)"
    proof (cases "?es \<noteq> [] \<and> sb_len b > 0 \<and> sb_len b \<le> kBufferStreamCoalescingMaxIncomingSize")
      case True
      have "sbuf_ok (last ?es)" using s True by (auto simp: stream_ok_def)
      then show ?thesis using True False v by (auto simp: bufferstreamPush_def sbufTailCapacity_eq)
    next
      case f: False
      then show ?thesis using v by (auto simp: bufferstreamPush_def)
    qed
    then show ?thesis using enqueue_ok [OF s b size] p plain by auto
  qed
qed

text \<open>Reads: the container holds a prefix of the remaining bytes and absorbs buffers from the
  front of the queue until it has enough.\<close>

lemma readExactLoop_split:
  assumes p: "pool_ok p" and c: "sbuf_ok c" and n: "n < sb_len c" "sb_len c \<le> STREAM_SAFE_MAX"
    and u: "bs_use_left_padding s \<le> 65504"
  shows "\<exists>r p'. readExactLoop D s p c n =
      Some (r, s\<lparr>bs_q := dq_push_front D (bs_q s) (sbuf_skip c n)\<rparr>, p') \<and>
    sbuf_ok r \<and> payload r = take n (payload c) \<and> pool_ok p'"
proof -
  have n': "n \<le> STREAM_SAFE_MAX" "u32 n = n" using n by simp_all
  obtain f q where f: "bufferstreamAllocExactReadBuffer s p n = Some (f, q)" "sbuf_ok f" "payload f = []"
    "sb_len f = 0" "curpos f + n \<le> sb_capacity f" "pool_ok q"
    using allocExact_ok [OF p u n'(1)] by blast
  have room: "curpos f + sb_len f + n \<le> sb_capacity f" using f by simp
  have len: "length (take n (payload c)) = n" using n c by (simp add: length_payload)
  have "readExactLoop D s p c n = Some (sbuf_append f (take n (payload c)),
      s\<lparr>bs_q := dq_push_front D (bs_q s) (sbuf_skip c n)\<rparr>, q)"
    using f(1) n n'(2) sbufMoveTo_eq [OF f(2) c _ room]
    by (simp add: readExactLoop.simps [of D s p c n] sbufGetLength_def)
  then show ?thesis
    using sbuf_append_obs(1,2) [OF f(2), of "take n (payload c)"] room len f(3,6) by simp
qed

lemma readExactLoop_done: "sb_len c = n \<Longrightarrow> readExactLoop D s p c n = Some (c, s, p)"
  by (simp add: readExactLoop.simps [of D s p c n] sbufGetLength_def)

lemma readExactLoop_merge:
  assumes "dq_elems D (bs_q s) = b # bs" "sb_len c < n" "sbufAppendMerge p c b = Some (d, q)"
  shows "readExactLoop D s p c n = readExactLoop D (s\<lparr>bs_q := snd (dq_pull_front D (bs_q s))\<rparr>) q d n"
  using assms by (simp add: readExactLoop.simps [of D s p c n] sbufGetLength_def)

lemma readExactLoop_ok:
  assumes "dq_elems D (bs_q s) = es" "pool_ok p" "sbuf_ok c" "\<forall>b\<in>set es. sbuf_ok b" "0 < n"
    "n \<le> sb_len c + length (concat (map payload es))"
    "sb_len c + length (concat (map payload es)) \<le> STREAM_SAFE_MAX"
    "bs_use_left_padding s \<le> 65504"
  shows "\<exists>r s' p'. readExactLoop D s p c n = Some (r, s', p') \<and> sbuf_ok r \<and>
    payload r = take n (payload c @ concat (map payload es)) \<and>
    stream_bytes D s' = drop n (payload c @ concat (map payload es)) \<and>
    (\<forall>b\<in>set (dq_elems D (bs_q s')). sbuf_ok b) \<and> pool_ok p' \<and>
    bs_size s' = bs_size s \<and> bs_use_left_padding s' = bs_use_left_padding s"
  using assms
proof (induction es arbitrary: s p c)
  case (Nil s p c)
  show ?case
  proof (cases "sb_len c = n")
    case True
    then show ?thesis
      using Nil by (simp add: readExactLoop_done length_payload stream_bytes_def)
  next
    case False
    then have n: "n < sb_len c" "sb_len c \<le> STREAM_SAFE_MAX" using Nil.prems by simp_all
    obtain r p' where "readExactLoop D s p c n =
        Some (r, s\<lparr>bs_q := dq_push_front D (bs_q s) (sbuf_skip c n)\<rparr>, p')"
      "sbuf_ok r" "payload r = take n (payload c)" "pool_ok p'"
      using readExactLoop_split [OF Nil.prems(2,3) n Nil.prems(8)] by blast
    then show ?thesis
      using Nil.prems n sbuf_skip_obs(1,2) [OF Nil.prems(3), of n]
      by (simp add: stream_bytes_def length_payload)
  qed
next
  case (Cons b bs s p c)
  have b: "sbuf_ok b" "\<forall>x\<in>set bs. sbuf_ok x" using Cons.prems(4) by simp_all
  consider "n < sb_len c" | "sb_len c = n" | "sb_len c < n" by linarith
  then show ?case
  proof cases
    case 1
    then have n: "n < sb_len c" "sb_len c \<le> STREAM_SAFE_MAX" using Cons.prems by simp_all
    obtain r p' where "readExactLoop D s p c n =
        Some (r, s\<lparr>bs_q := dq_push_front D (bs_q s) (sbuf_skip c n)\<rparr>, p')"
      "sbuf_ok r" "payload r = take n (payload c)" "pool_ok p'"
      using readExactLoop_split [OF Cons.prems(2,3) n Cons.prems(8)] by blast
    then show ?thesis
      using Cons.prems n sbuf_skip_obs(1,2) [OF Cons.prems(3), of n]
      by (simp add: stream_bytes_def length_payload)
  next
    case 2
    then show ?thesis
      using Cons.prems by (simp add: readExactLoop_done length_payload stream_bytes_def)
  next
    case 3
    let ?t = "s\<lparr>bs_q := snd (dq_pull_front D (bs_q s))\<rparr>"
    have t: "dq_elems D (bs_q ?t) = bs" using Cons.prems(1) by simp
    have "sb_len c + sb_len b \<le> STREAM_SAFE_MAX" using Cons.prems(7) b by (simp add: length_payload)
    then obtain d q where d: "sbufAppendMerge p c b = Some (d, q)" "sbuf_ok d"
      "payload d = payload c @ payload b" "pool_ok q"
      using sbufAppendMerge_ok [OF Cons.prems(2,3) b(1)] by blast
    have ld: "sb_len d = sb_len c + sb_len b"
      using length_payload [OF d(2)] d(3) b(1) Cons.prems(3) by (simp add: length_payload)
    show ?thesis
      using Cons.IH [OF t d(4,2) b(2) Cons.prems(5)] Cons.prems(6,7,8) ld b(1) d(3)
      unfolding readExactLoop_merge [OF Cons.prems(1) 3 d(1)]
      by (simp add: length_payload)
  qed
qed

lemma readExact_ok:
  assumes s: "stream_ok D s" and p: "pool_ok p" and n: "0 < n" "n \<le> bs_size s"
    and safe: "bs_size s \<le> STREAM_SAFE_MAX"
  shows "\<exists>r s' p'. bufferstreamReadExact D s p n = Some (r, s', p') \<and> sbuf_ok r \<and> stream_ok D s' \<and>
    payload r = take n (stream_bytes D s) \<and> stream_bytes D s' = drop n (stream_bytes D s) \<and>
    pool_ok p' \<and> bs_use_left_padding s' = bs_use_left_padding s"
proof -
  obtain b bs where es: "dq_elems D (bs_q s) = b # bs"
    using stream_nonempty [OF s] n by (cases "dq_elems D (bs_q s)") auto
  let ?t = "s\<lparr>bs_size := sub64 (bs_size s) n, bs_q := snd (dq_pull_front D (bs_q s))\<rparr>"
  have t: "dq_elems D (bs_q ?t) = bs" using es by simp
  have b: "sbuf_ok b" "\<forall>x\<in>set bs. sbuf_ok x" using s es by (simp_all add: stream_ok_def)
  have bytes: "stream_bytes D s = payload b @ concat (map payload bs)" using stream_bytes_Cons [OF es] .
  have size: "bs_size s = sb_len b + length (concat (map payload bs))"
    using s bytes b(1) by (simp add: stream_ok_def length_payload)
  have u: "bs_use_left_padding ?t \<le> 65504" using s by (simp add: stream_ok_def)
  obtain r s' p' where r: "readExactLoop D ?t p b n = Some (r, s', p')" "sbuf_ok r"
    "payload r = take n (payload b @ concat (map payload bs))"
    "stream_bytes D s' = drop n (payload b @ concat (map payload bs))"
    "\<forall>b\<in>set (dq_elems D (bs_q s')). sbuf_ok b" "pool_ok p'" "bs_size s' = bs_size ?t"
    "bs_use_left_padding s' = bs_use_left_padding ?t"
    using readExactLoop_ok [OF t p b n(1) _ _ u] n(2) safe size by auto
  have "bufferstreamReadExact D s p n = Some (r, s', p')"
    using r(1) n es safe
    by (simp add: bufferstreamReadExact_def bufferstreamCheckSbufByteCount_def)
  moreover have "stream_ok D s'"
    using r(4,5,7,8) s n size safe by (simp add: stream_ok_def bytes [symmetric])
  ultimately show ?thesis using r bytes by simp
qed

end

text \<open>Bytes put behind the payload, before the length is raised over them.\<close>

definition sbuf_poke :: "sbuf \<Rightarrow> nat \<Rightarrow> byte list \<Rightarrow> sbuf" where
  "sbuf_poke d k xs = d\<lparr>sb_buf := take (curpos d + k) (sb_buf d) @ xs @
     drop (curpos d + k + length xs) (sb_buf d)\<rparr>"

lemma sbuf_poke_obs [simp]:
  "curpos (sbuf_poke d k xs) = curpos d" "sb_len (sbuf_poke d k xs) = sb_len d"
  "sb_capacity (sbuf_poke d k xs) = sb_capacity d"
  "curpos d + k + length xs \<le> length (sb_buf d) \<Longrightarrow> length (sb_buf (sbuf_poke d k xs)) = length (sb_buf d)"
  by (simp_all add: sbuf_poke_def)

lemma sbuf_poke_nil [simp]: "sbuf_poke d k [] = d"
  by (simp add: sbuf_poke_def)

lemma sbuf_poke_poke:
  assumes "curpos d + k + length xs \<le> length (sb_buf d)"
  shows "sbuf_poke (sbuf_poke d k xs) (k + length xs) ys = sbuf_poke d k (xs @ ys)"
proof -
  have "take (curpos d + (k + length xs)) (take (curpos d + k) (sb_buf d) @ xs @
      drop (curpos d + k + length xs) (sb_buf d)) = take (curpos d + k) (sb_buf d) @ xs"
    using assms by simp
  then show ?thesis using assms by (simp add: sbuf_poke_def ac_simps)
qed

lemma sbufWriteAt_poke:
  "curpos d + k + length xs \<le> length (sb_buf d) \<Longrightarrow> sbufWriteAt d k xs = Some (sbuf_poke d k xs)"
  by (simp add: sbufWriteAt_eq sbuf_poke_def)

context sbuf_deque
begin

lemma moveExactLoop_0 [simp]: "moveExactLoop D s p d k 0 = Some (s, p, d)"
  by (simp add: moveExactLoop.simps [of D s p d k 0])

lemma moveExactLoop_ok:
  assumes "dq_elems D (bs_q s) = es" "pool_ok p" "\<forall>b\<in>set es. sbuf_ok b"
    "n \<le> length (concat (map payload es))" "curpos d + k + n \<le> length (sb_buf d)"
  shows "\<exists>s' p'. moveExactLoop D s p d k n =
      Some (s', p', sbuf_poke d k (take n (concat (map payload es)))) \<and>
    stream_bytes D s' = drop n (concat (map payload es)) \<and>
    (\<forall>b\<in>set (dq_elems D (bs_q s')). sbuf_ok b) \<and> pool_ok p' \<and> pool_geometry p' = pool_geometry p \<and>
    bs_size s' = bs_size s \<and> bs_use_left_padding s' = bs_use_left_padding s"
  using assms
proof (induction es arbitrary: s p d k n)
  case (Nil s p d k n)
  then show ?case
    by (simp add: stream_bytes_def)
next
  case (Cons b bs s p d k n)
  have b: "sbuf_ok b" "\<forall>x\<in>set bs. sbuf_ok x" using Cons.prems(3) by simp_all
  note lb [simp] = length_payload [OF b(1)]
  consider "n = 0" | "0 < n" "sb_len b \<le> n" | "0 < n" "n < sb_len b" by linarith
  then show ?case
  proof cases
    case 1
    then show ?thesis
      using Cons.prems by (simp add: stream_bytes_def)
  next
    case 2
    let ?t = "s\<lparr>bs_q := dq_pop_front D (bs_q s)\<rparr>" and ?d = "sbuf_poke d k (payload b)"
    have t: "dq_elems D (bs_q ?t) = bs" using Cons.prems(1) by simp
    obtain q where q: "bufferpoolReuseBuffer p b = Some q" "pool_ok q" "pool_geometry q = pool_geometry p"
      using reuse_ok [OF Cons.prems(2) b(1)] by blast
    have room: "curpos d + k + length (payload b) \<le> length (sb_buf d)" using Cons.prems(5) 2 by simp
    have "sb_len b = 0 \<Longrightarrow> payload b = []" by (simp add: payload_def)
    then have step: "moveExactLoop D s p d k n = moveExactLoop D ?t q ?d (k + sb_len b) (n - sb_len b)"
      using 2 Cons.prems(1) q(1) b(1) room sbuf_okD(8) [OF b(1)]
      by (cases "sb_len b = 0")
         (simp_all add: moveExactLoop.simps [of D s p d k n] sbufGetLength_def min_absorb2 sbufRead_eq
           sbufWriteAt_poke Let_def)
    have "n - sb_len b \<le> length (concat (map payload bs))" using Cons.prems(4) by simp
    moreover have "curpos ?d + (k + sb_len b) + (n - sb_len b) \<le> length (sb_buf ?d)"
      using Cons.prems(5) 2 room by simp
    ultimately show ?thesis
      using Cons.IH [OF t q(2) b(2), of "n - sb_len b" ?d "k + sb_len b"]
        sbuf_poke_poke [OF room, of "take (n - sb_len b) (concat (map payload bs))"] 2 q(3)
      unfolding step by simp
  next
    case 3
    let ?t = "s\<lparr>bs_q := dq_put_front D (bs_q s) (sbuf_skip b n)\<rparr>"
    let ?d = "sbuf_poke d k (take n (payload b))"
    have w: "sbufWriteAt d k (take n (payload b)) = Some ?d"
      using Cons.prems(5) 3 by (intro sbufWriteAt_poke) simp
    have "moveExactLoop D s p d k n = moveExactLoop D ?t p ?d (k + n) 0"
      using 3 Cons.prems(1) b(1) w sbuf_okD(8) [OF b(1)]
      by (simp add: moveExactLoop.simps [of D s p d k n] sbufGetLength_def min_absorb1 sbufRead_eq
          sbufShiftRight_eq)
    also have "\<dots> = Some (?t, p, ?d)" by simp
    finally show ?thesis
      using 3 Cons.prems sbuf_skip_obs(1,2) [OF b(1), of n]
      by (simp add: stream_bytes_def)
  qed
qed

lemma moveExactBytesTo_ok:
  assumes s: "stream_ok D s" and p: "pool_ok p" and d: "sbuf_ok d" and n: "n \<le> bs_size s"
    and room: "curpos d + sb_len d + n \<le> sb_capacity d"
  shows "\<exists>s' p'. bufferstreamMoveExactBytesTo D s p d n =
      Some (s', p', sbuf_append d (take n (stream_bytes D s))) \<and> stream_ok D s' \<and>
    stream_bytes D s' = drop n (stream_bytes D s) \<and> pool_ok p' \<and> pool_geometry p' = pool_geometry p \<and>
    bs_use_left_padding s' = bs_use_left_padding s"
proof -
  note D = sbuf_okD [OF d]
  have len: "length (take n (stream_bytes D s)) = n" using s n by (simp add: stream_ok_def)
  have wr: "sbufGetMaximumWriteableSize d = sb_capacity d - curpos d"
    using d by (rule sbufGetMaximumWriteableSize_eq)
  have guards: "\<not> sb_len d > sb_capacity d - curpos d"
    "sub32 (sb_capacity d - curpos d) (sb_len d) = sb_capacity d - curpos d - sb_len d"
    "n \<le> sb_capacity d - curpos d - sb_len d" "u32 n = n" "u32 (sb_len d + n) = sb_len d + n"
    "curpos d \<le> sb_capacity d"
    using room D by simp_all
  show ?thesis
  proof (cases "n = 0")
    case True
    then show ?thesis
      using s p n D guards by (simp add: bufferstreamMoveExactBytesTo_def wr sbufGetLength_def sbuf_append_def)
  next
    case False
    let ?t = "s\<lparr>bs_size := sub64 (bs_size s) n\<rparr>"
    obtain s' p' where m: "moveExactLoop D ?t p d (sb_len d) n =
        Some (s', p', sbuf_poke d (sb_len d) (take n (stream_bytes D s)))"
      "stream_bytes D s' = drop n (stream_bytes D s)" "\<forall>b\<in>set (dq_elems D (bs_q s')). sbuf_ok b"
      "pool_ok p'" "pool_geometry p' = pool_geometry p" "bs_size s' = bs_size ?t"
      "bs_use_left_padding s' = bs_use_left_padding s"
      using moveExactLoop_ok [of ?t "dq_elems D (bs_q s)" p n d "sb_len d"] s p n room D(1)
      by (auto simp: stream_ok_def stream_bytes_def)
    have "sbufSetLength (sbuf_poke d (sb_len d) (take n (stream_bytes D s))) (sb_len d + n) =
        Some (sbuf_append d (take n (stream_bytes D s)))"
      using room D len by (simp add: sbufSetLength_eq sbuf_poke_def sbuf_append_def)
    then have "bufferstreamMoveExactBytesTo D s p d n =
        Some (s', p', sbuf_append d (take n (stream_bytes D s)))"
      using m(1) False n D guards
      by (simp add: bufferstreamMoveExactBytesTo_def wr sbufGetLength_def)
    moreover have "stream_ok D s'"
      using m s n by (auto simp: stream_ok_def)
    ultimately show ?thesis using m by simp
  qed
qed

end

section \<open>Delimiter searches\<close>

text \<open>
  A search feeds the bytes one at a time to a step function that keeps how much of the
  delimiter has just been seen. The contract of such a step is that it stops exactly when the
  bytes so far end in the delimiter; the search then finds the first occurrence.
\<close>

definition occurs_at :: "'a list \<Rightarrow> 'a list \<Rightarrow> nat \<Rightarrow> bool" where
  "occurs_at p xs i \<longleftrightarrow> take (length p) (drop i xs) = p"

definition first_occurrence :: "'a list \<Rightarrow> 'a list \<Rightarrow> nat \<Rightarrow> bool" where
  "first_occurrence p xs i \<longleftrightarrow> occurs_at p xs i \<and> (\<forall>j<i. \<not> occurs_at p xs j)"

lemma occurs_at_bound: "p \<noteq> [] \<Longrightarrow> occurs_at p xs i \<Longrightarrow> i + length p \<le> length xs"
proof -
  assume "p \<noteq> []" "occurs_at p xs i"
  then have "length (take (length p) (drop i xs)) = length p" by (simp add: occurs_at_def)
  then show ?thesis using \<open>p \<noteq> []\<close> by (cases "i \<le> length xs") auto
qed

lemma occurs_at_append:
  assumes "p \<noteq> []" "occurs_at p xs i"
  shows "occurs_at p (xs @ ys) i"
  using occurs_at_bound [OF assms] assms(2) by (simp add: occurs_at_def)

lemma occurs_at_prefix: "j + length p \<le> length xs \<Longrightarrow> occurs_at p (xs @ ys) j = occurs_at p xs j"
  by (simp add: occurs_at_def)

lemma occurs_at_snoc:
  assumes "p \<noteq> []"
  shows "occurs_at p (xs @ [c]) i \<longleftrightarrow>
    occurs_at p xs i \<or> (i + length p = Suc (length xs) \<and> suffix p (xs @ [c]))"
proof (cases "i + length p = Suc (length xs)")
  case True
  then have i: "i \<le> length (xs @ [c])" "length (drop i (xs @ [c])) = length p" using assms by simp_all
  have "occurs_at p (xs @ [c]) i \<longleftrightarrow> drop i (xs @ [c]) = p" using i(2) by (simp add: occurs_at_def)
  also have "\<dots> \<longleftrightarrow> suffix p (xs @ [c])"
  proof
    assume "drop i (xs @ [c]) = p"
    then show "suffix p (xs @ [c])" by (metis suffix_drop)
  next
    assume "suffix p (xs @ [c])"
    then obtain zs where z: "xs @ [c] = zs @ p" by (auto simp: suffix_def)
    then have "length zs = i" using True by (metis add_right_cancel length_append length_append_singleton)
    then show "drop i (xs @ [c]) = p" using z by simp
  qed
  finally show ?thesis using True occurs_at_bound [OF assms, of xs i] by auto
next
  case False
  then have "occurs_at p (xs @ [c]) i \<longleftrightarrow> occurs_at p xs i"
    using occurs_at_bound [OF assms, of "xs @ [c]" i] occurs_at_append [OF assms, of xs i "[c]"]
    by (auto simp: occurs_at_def)
  then show ?thesis using False by simp
qed

locale delimiter_scan =
  fixes step :: "nat \<Rightarrow> byte \<Rightarrow> nat \<times> nat \<Rightarrow> nat + nat \<times> nat"
    and p :: "byte list"
    and I :: "byte list \<Rightarrow> nat \<times> nat \<Rightarrow> bool"
    and f :: "nat \<Rightarrow> nat"
  assumes nonempty: "p \<noteq> []"
    and start: "I [] (0, 0)"
    and step_stop: "I xs st \<Longrightarrow> step (length xs) c st = Inl r \<Longrightarrow>
      suffix p (xs @ [c]) \<and> r = f (Suc (length xs) - length p)"
    and step_go: "I xs st \<Longrightarrow> step (length xs) c st = Inr st' \<Longrightarrow>
      \<not> suffix p (xs @ [c]) \<and> I (xs @ [c]) st'"
begin

lemma scan_from:
  assumes "I xs st" "\<forall>j. \<not> occurs_at p xs j"
  shows "case scan_bytes step (length xs) ys st of
      Inl r \<Rightarrow> \<exists>i. first_occurrence p (xs @ ys) i \<and> r = f i
    | Inr _ \<Rightarrow> \<forall>j. \<not> occurs_at p (xs @ ys) j"
  using assms
proof (induction ys arbitrary: xs st)
  case Nil
  then show ?case by simp
next
  case (Cons c ys)
  show ?case
  proof (cases "step (length xs) c st")
    case (Inl r)
    let ?i = "Suc (length xs) - length p"
    have s: "suffix p (xs @ [c])" "r = f ?i" using step_stop [OF Cons.prems(1) Inl] by simp_all
    have "?i + length p = Suc (length xs)" using suffix_length_le [OF s(1)] by simp
    then have o: "occurs_at p (xs @ [c]) j \<longleftrightarrow> j = ?i" for j
      using occurs_at_snoc [OF nonempty, of xs c j] s(1) Cons.prems(2) by auto
    have "\<not> occurs_at p (xs @ c # ys) j" if "j < ?i" for j
    proof
      assume a: "occurs_at p (xs @ c # ys) j"
      have "j + length p \<le> length (xs @ [c])" using that suffix_length_le [OF s(1)] by simp
      then have "occurs_at p (xs @ [c]) j"
        using a occurs_at_prefix [of j p "xs @ [c]" ys] by simp
      then show False using o that by simp
    qed
    moreover have "occurs_at p (xs @ c # ys) ?i"
      using occurs_at_append [OF nonempty, of "xs @ [c]" ?i ys] o by simp
    ultimately show ?thesis using Inl s(2) by (auto simp: first_occurrence_def)
  next
    case (Inr st')
    have s: "\<not> suffix p (xs @ [c])" "I (xs @ [c]) st'" using step_go [OF Cons.prems(1) Inr] by simp_all
    have "\<forall>j. \<not> occurs_at p (xs @ [c]) j"
      using occurs_at_snoc [OF nonempty, of xs c] s(1) Cons.prems(2) by auto
    from Cons.IH [OF s(2) this] have "case scan_bytes step (Suc (length xs)) ys st' of
        Inl r \<Rightarrow> \<exists>i. first_occurrence p (xs @ c # ys) i \<and> r = f i
      | Inr _ \<Rightarrow> \<forall>j. \<not> occurs_at p (xs @ c # ys) j"
      by (simp only: append_assoc append_Cons append_Nil length_append_singleton)
    then show ?thesis using Inr by simp
  qed
qed

lemma scan_first:
  "case scan_bytes step 0 ys (0, 0) of
      Inl r \<Rightarrow> \<exists>i. first_occurrence p ys i \<and> r = f i
    | Inr _ \<Rightarrow> \<forall>j. \<not> occurs_at p ys j"
proof -
  have "\<forall>j. \<not> occurs_at p [] j" using nonempty by (simp add: occurs_at_def)
  from scan_from [OF start this, of ys] show ?thesis by (simp only: append_Nil list.size)
qed

end

lemma suffix_snoc_iff: "suffix (p @ [a]) (xs @ [c]) \<longleftrightarrow> a = c \<and> suffix p xs"
  by simp

text \<open>What the state of a search says of the bytes seen so far.\<close>

definition crlf_seen :: "byte list \<Rightarrow> nat \<times> nat \<Rightarrow> bool" where
  "crlf_seen xs st \<longleftrightarrow> (case st of (state, m) \<Rightarrow>
     (state = 1 \<and> suffix [13] xs \<and> length xs = Suc m) \<or> (state = 0 \<and> \<not> suffix [13] xs))"

definition double_crlf_seen :: "byte list \<Rightarrow> nat \<times> nat \<Rightarrow> bool" where
  "double_crlf_seen xs st \<longleftrightarrow> (case st of (state, m) \<Rightarrow>
     (state = 3 \<and> suffix [13, 10, 13] xs \<and> length xs = m + 3) \<or>
     (state = 2 \<and> suffix [13, 10] xs \<and> length xs = m + 2) \<or>
     (state = 1 \<and> suffix [13] xs \<and> \<not> suffix [13, 10, 13] xs \<and> length xs = m + 1) \<or>
     (state = 0 \<and> \<not> suffix [13] xs \<and> \<not> suffix [13, 10] xs))"

lemma suffix_snoc_lits:
  "suffix [a] (xs @ [c]) \<longleftrightarrow> a = c"
  "suffix [a, b] (xs @ [c]) \<longleftrightarrow> b = c \<and> suffix [a] xs"
  "suffix [a, b, d] (xs @ [c]) \<longleftrightarrow> d = c \<and> suffix [a, b] xs"
  "suffix [a, b, d, e] (xs @ [c]) \<longleftrightarrow> e = c \<and> suffix [a, b, d] xs"
  using suffix_snoc_iff [of "[]" a xs c] suffix_snoc_iff [of "[a]" b xs c]
    suffix_snoc_iff [of "[a, b]" d xs c] suffix_snoc_iff [of "[a, b, d]" e xs c]
  by simp_all

lemma suffix_last_unique: "suffix [a, b] xs \<Longrightarrow> \<not> suffix [c] xs" if "b \<noteq> c"
  using that by (auto simp: suffix_def)

lemma suffix_last_unique3: "suffix [a, b, d] xs \<Longrightarrow> \<not> suffix [e, c] xs" if "d \<noteq> c"
  using that by (auto simp: suffix_def)

lemma suffix_last3: "suffix [a, b, d] xs \<Longrightarrow> suffix [d] xs"
  by (auto simp: suffix_def)

interpretation crlf: delimiter_scan crlf_step "[13, 10]" crlf_seen "\<lambda>i. i"
proof
  show "crlf_seen [] (0, 0)" by (simp add: crlf_seen_def)
next
  fix xs st c r
  assume "crlf_seen xs st" "crlf_step (length xs) c st = Inl r"
  then show "suffix [13, 10] (xs @ [c]) \<and> r = Suc (length xs) - length [13::byte, 10]"
    by (auto simp: crlf_seen_def crlf_step_def suffix_snoc_lits split: prod.splits if_splits)
next
  fix xs st c st'
  assume "crlf_seen xs st" "crlf_step (length xs) c st = Inr st'"
  then show "\<not> suffix [13, 10] (xs @ [c]) \<and> crlf_seen (xs @ [c]) st'"
    by (auto simp: crlf_seen_def crlf_step_def suffix_snoc_lits split: prod.splits if_splits)
qed simp

interpretation double_crlf: delimiter_scan double_crlf_step "[13, 10, 13, 10]" double_crlf_seen "\<lambda>i. u64 (i + 4)"
proof
  show "double_crlf_seen [] (0, 0)" by (simp add: double_crlf_seen_def)
next
  fix xs st c r
  assume "double_crlf_seen xs st" "double_crlf_step (length xs) c st = Inl r"
  then show "suffix [13, 10, 13, 10] (xs @ [c]) \<and> r = u64 (Suc (length xs) - length [13::byte, 10, 13, 10] + 4)"
    by (auto simp: double_crlf_seen_def double_crlf_step_def suffix_snoc_lits split: prod.splits if_splits)
next
  fix xs st c st'
  assume "double_crlf_seen xs st" "double_crlf_step (length xs) c st = Inr st'"
  moreover have "(13 :: byte) \<noteq> 10" by simp
  ultimately show "\<not> suffix [13, 10, 13, 10] (xs @ [c]) \<and> double_crlf_seen (xs @ [c]) st'"
    using suffix_last_unique [of 10 13 13 xs] suffix_last_unique3 [of 13 10 13 10 xs 13]
      suffix_last3 [of 13 10 13 xs]
    by (auto simp: double_crlf_seen_def double_crlf_step_def suffix_snoc_lits split: prod.splits if_splits)
qed simp

lemma scan_bytes_append:
  "scan_bytes step pos (xs @ ys) st =
     (case scan_bytes step pos xs st of Inl r \<Rightarrow> Inl r | Inr st' \<Rightarrow> scan_bytes step (pos + length xs) ys st')"
  by (induction xs arbitrary: pos st) (auto split: sum.split)

lemma scan_bufs_eq:
  assumes "\<forall>b\<in>set bs. sbuf_ok b"
  shows "scan_bufs step pos bs st =
    Some (case scan_bytes step pos (concat (map payload bs)) st of Inl r \<Rightarrow> Some r | Inr _ \<Rightarrow> None)"
  using assms
  by (induction bs arbitrary: pos st)
     (auto simp: sbufRead_eq sbufGetLength_def length_payload scan_bytes_append split: sum.split)

end
