(* ===== verification/Buffer_Budget.thy ===== *)
theory Buffer_Budget
  imports Shift_Buffer
begin

text \<open>
  Retained-memory budgets of \<open>ww/bufio/buffer_budget.h\<close> and \<open>buffer_budget.c\<close>. Queues and
  reservations point to a shared budget, so budgets live in a store indexed by references and
  a NULL pointer is \<open>None\<close>.

  An account is what one owner holds: the budget it points to and the cost it has acquired
  there. Every operation is \<open>balanced\<close>: it changes the usage of each budget by exactly the
  change of the accounts that point to it.
\<close>

section \<open>Data\<close>

record buffer_budget_cost =
  cost_bytes :: nat
  cost_charge :: nat

record buffer_budget =
  limits :: buffer_budget_cost
  used :: buffer_budget_cost

type_synonym budget_ref = nat

type_synonym budgets = "budget_ref \<Rightarrow> buffer_budget"

record buffer_budget_reservation =
  rv_budget :: "budget_ref option"
  rv_cost :: buffer_budget_cost

definition zero_cost :: buffer_budget_cost where
  "zero_cost = \<lparr>cost_bytes = 0, cost_charge = 0\<rparr>"

definition empty_reservation :: buffer_budget_reservation where
  "empty_reservation = \<lparr>rv_budget = None, rv_cost = zero_cost\<rparr>"

section \<open>Operations\<close>

definition bufferbudgetInit :: "buffer_budget_cost \<Rightarrow> buffer_budget" where
  "bufferbudgetInit lim = \<lparr>limits = lim, used = zero_cost\<rparr>"

definition bufferbudgetGetUsage :: "buffer_budget \<Rightarrow> buffer_budget_cost" where
  "bufferbudgetGetUsage budget = used budget"

definition bufferbudgetGetLimits :: "buffer_budget \<Rightarrow> buffer_budget_cost" where
  "bufferbudgetGetLimits budget = limits budget"

definition bufferbudgetTryGetCost :: "sbuf \<Rightarrow> buffer_budget_cost option" where
  "bufferbudgetTryGetCost buf =
     (case sbufTryGetQueueCharge buf of
        None \<Rightarrow> None
      | Some charge \<Rightarrow> Some \<lparr>cost_bytes = sbufGetLength buf, cost_charge = charge\<rparr>)"

definition bufferbudgetTryAcquire :: "buffer_budget \<Rightarrow> buffer_budget_cost \<Rightarrow> (bool \<times> buffer_budget) option" where
  "bufferbudgetTryAcquire budget cost = do {
     ensure (cost_bytes (used budget) \<le> cost_bytes (limits budget) \<and>
             cost_charge (used budget) \<le> cost_charge (limits budget));
     if cost_bytes cost > sub64 (cost_bytes (limits budget)) (cost_bytes (used budget)) \<or>
        cost_charge cost > sub64 (cost_charge (limits budget)) (cost_charge (used budget))
     then Some (False, budget)
     else Some (True, budget\<lparr>used := \<lparr>cost_bytes = u64 (cost_bytes (used budget) + cost_bytes cost),
                                     cost_charge = u64 (cost_charge (used budget) + cost_charge cost)\<rparr>\<rparr>)
   }"

definition bufferbudgetRelease :: "buffer_budget \<Rightarrow> buffer_budget_cost \<Rightarrow> buffer_budget option" where
  "bufferbudgetRelease budget cost =
     (if cost_bytes cost > cost_bytes (used budget) \<or> cost_charge cost > cost_charge (used budget) then None
      else Some (budget\<lparr>used := \<lparr>cost_bytes = sub64 (cost_bytes (used budget)) (cost_bytes cost),
                                cost_charge = sub64 (cost_charge (used budget)) (cost_charge cost)\<rparr>\<rparr>))"

definition bufferbudgetAssertEmpty :: "buffer_budget \<Rightarrow> unit option" where
  "bufferbudgetAssertEmpty budget = ensure (cost_bytes (used budget) = 0 \<and> cost_charge (used budget) = 0)"

text \<open>The same two operations through a pointer into the store.\<close>

definition budgetTryAcquireAt :: "budgets \<Rightarrow> budget_ref \<Rightarrow> buffer_budget_cost \<Rightarrow> (bool \<times> budgets) option" where
  "budgetTryAcquireAt B r cost = do {
     (acquired, budget) \<leftarrow> bufferbudgetTryAcquire (B r) cost;
     Some (acquired, B(r := budget))
   }"

definition budgetReleaseAt :: "budgets \<Rightarrow> budget_ref \<Rightarrow> buffer_budget_cost \<Rightarrow> budgets option" where
  "budgetReleaseAt B r cost = do {
     budget \<leftarrow> bufferbudgetRelease (B r) cost;
     Some (B(r := budget))
   }"

definition bufferbudgetTryReserve ::
  "budgets \<Rightarrow> budget_ref \<Rightarrow> sbuf \<Rightarrow> buffer_budget_reservation \<Rightarrow>
   (bool \<times> budgets \<times> buffer_budget_reservation) option" where
  "bufferbudgetTryReserve B r buf reservation = do {
     ensure (rv_budget reservation = None);
     case bufferbudgetTryGetCost buf of
       None \<Rightarrow> Some (False, B, reservation)
     | Some cost \<Rightarrow> do {
         (acquired, B) \<leftarrow> budgetTryAcquireAt B r cost;
         if \<not> acquired then Some (False, B, reservation)
         else Some (True, B, \<lparr>rv_budget = Some r, rv_cost = cost\<rparr>)
       }
   }"

definition bufferbudgetReservationReduce ::
  "budgets \<Rightarrow> buffer_budget_reservation \<Rightarrow> buffer_budget_cost \<Rightarrow>
   (budgets \<times> buffer_budget_reservation) option" where
  "bufferbudgetReservationReduce B reservation remaining =
     (case rv_budget reservation of
        None \<Rightarrow> None
      | Some r \<Rightarrow> do {
          ensure (cost_bytes remaining \<le> cost_bytes (rv_cost reservation) \<and>
                  cost_charge remaining \<le> cost_charge (rv_cost reservation));
          B \<leftarrow> budgetReleaseAt B r
                \<lparr>cost_bytes = sub64 (cost_bytes (rv_cost reservation)) (cost_bytes remaining),
                 cost_charge = sub64 (cost_charge (rv_cost reservation)) (cost_charge remaining)\<rparr>;
          Some (B, reservation\<lparr>rv_cost := remaining\<rparr>)
        })"

definition bufferbudgetReservationSetBytes ::
  "budgets \<Rightarrow> buffer_budget_reservation \<Rightarrow> nat \<Rightarrow> (budgets \<times> buffer_budget_reservation) option" where
  "bufferbudgetReservationSetBytes B reservation remaining =
     bufferbudgetReservationReduce B reservation ((rv_cost reservation)\<lparr>cost_bytes := remaining\<rparr>)"

definition bufferbudgetReservationRelease ::
  "budgets \<Rightarrow> buffer_budget_reservation \<Rightarrow> (budgets \<times> buffer_budget_reservation) option" where
  "bufferbudgetReservationRelease B reservation =
     (case rv_budget reservation of
        None \<Rightarrow> Some (B, reservation)
      | Some r \<Rightarrow> do {
          B \<leftarrow> budgetReleaseAt B r (rv_cost reservation);
          Some (B, empty_reservation)
        })"

section \<open>Accounts and balance\<close>

definition budget_ok :: "buffer_budget \<Rightarrow> bool" where
  "budget_ok b \<longleftrightarrow>
     cost_bytes (used b) \<le> cost_bytes (limits b) \<and> cost_bytes (limits b) \<le> SIZE_MAX \<and>
     cost_charge (used b) \<le> cost_charge (limits b) \<and> cost_charge (limits b) \<le> SIZE_MAX"

type_synonym account = "budget_ref option \<times> buffer_budget_cost"

definition rv_account :: "buffer_budget_reservation \<Rightarrow> account" where
  "rv_account v = (rv_budget v, rv_cost v)"

definition share :: "(buffer_budget_cost \<Rightarrow> nat) \<Rightarrow> budget_ref \<Rightarrow> account \<Rightarrow> nat" where
  "share f r a = (if fst a = Some r then f (snd a) else 0)"

definition held :: "(buffer_budget_cost \<Rightarrow> nat) \<Rightarrow> budget_ref \<Rightarrow> account list \<Rightarrow> nat" where
  "held f r as = sum_list (map (share f r) as)"

definition balanced :: "budgets \<Rightarrow> account list \<Rightarrow> budgets \<Rightarrow> account list \<Rightarrow> bool" where
  "balanced B as B' bs \<longleftrightarrow>
     (\<forall>r. limits (B' r) = limits (B r) \<and>
          cost_bytes (used (B' r)) + held cost_bytes r as = cost_bytes (used (B r)) + held cost_bytes r bs \<and>
          cost_charge (used (B' r)) + held cost_charge r as = cost_charge (used (B r)) + held cost_charge r bs)"

text \<open>The accounts are covered by the usage their budgets record.\<close>

definition covered :: "budgets \<Rightarrow> account list \<Rightarrow> bool" where
  "covered B as \<longleftrightarrow>
     (\<forall>r. budget_ok (B r) \<and> held cost_bytes r as \<le> cost_bytes (used (B r)) \<and>
          held cost_charge r as \<le> cost_charge (used (B r)))"

lemma held_simps [simp]:
  "held f r [] = 0"
  "held f r (a # as) = share f r a + held f r as"
  "held f r (as @ bs) = held f r as + held f r bs"
  by (simp_all add: held_def)

lemma share_simps [simp]:
  "share f r (None, c) = 0"
  "share f r (Some r', c) = (if r = r' then f c else 0)"
  by (auto simp: share_def)

lemma zero_cost_simps [simp]: "cost_bytes zero_cost = 0" "cost_charge zero_cost = 0"
  by (simp_all add: zero_cost_def)

lemma rv_account_empty [simp]: "rv_account empty_reservation = (None, zero_cost)"
  by (simp add: rv_account_def empty_reservation_def)

lemma balanced_refl [simp]: "balanced B as B as"
  by (simp add: balanced_def)

lemma balancedI:
  assumes "\<And>r. limits (B' r) = limits (B r)"
    "\<And>r. cost_bytes (used (B' r)) + held cost_bytes r as = cost_bytes (used (B r)) + held cost_bytes r bs"
    "\<And>r. cost_charge (used (B' r)) + held cost_charge r as = cost_charge (used (B r)) + held cost_charge r bs"
  shows "balanced B as B' bs"
  using assms by (simp add: balanced_def)

lemma balancedD:
  assumes "balanced B as B' bs"
  shows "limits (B' r) = limits (B r)"
    "cost_bytes (used (B' r)) + held cost_bytes r as = cost_bytes (used (B r)) + held cost_bytes r bs"
    "cost_charge (used (B' r)) + held cost_charge r as = cost_charge (used (B r)) + held cost_charge r bs"
  using assms by (simp_all add: balanced_def)

lemma balanced_context:
  "balanced B as B' bs \<Longrightarrow> balanced B (xs @ as @ ys) B' (xs @ bs @ ys)"
  by (simp add: balanced_def)

lemma coveredD:
  assumes "covered B as"
  shows "budget_ok (B r)" "held cost_bytes r as \<le> cost_bytes (used (B r))"
    "held cost_charge r as \<le> cost_charge (used (B r))"
  using assms by (simp_all add: covered_def)

lemma covered_first:
  assumes "covered B (a # as)"
  shows "covered B [a]"
  unfolding covered_def
proof
  fix r
  from coveredD [OF assms, of r]
  show "budget_ok (B r) \<and> held cost_bytes r [a] \<le> cost_bytes (used (B r)) \<and>
    held cost_charge r [a] \<le> cost_charge (used (B r))" by simp
qed

text \<open>Balanced steps keep coverage as long as they respect the limits.\<close>

lemma balanced_covered:
  assumes "balanced B as B' bs" "covered B as" "\<forall>r. budget_ok (B' r)"
  shows "covered B' bs"
  unfolding covered_def
proof
  fix r
  have "cost_bytes (used (B' r)) + held cost_bytes r as = cost_bytes (used (B r)) + held cost_bytes r bs"
    "cost_charge (used (B' r)) + held cost_charge r as = cost_charge (used (B r)) + held cost_charge r bs"
    using assms(1) by (auto simp: balanced_def)
  with coveredD(2,3) [OF assms(2), of r] assms(3)
  show "budget_ok (B' r) \<and> held cost_bytes r bs \<le> cost_bytes (used (B' r)) \<and>
    held cost_charge r bs \<le> cost_charge (used (B' r))"
    by auto
qed

section \<open>The operations are balanced\<close>

text \<open>An acquisition is granted exactly when both components still fit.\<close>

definition affords :: "buffer_budget \<Rightarrow> buffer_budget_cost \<Rightarrow> bool" where
  "affords b c \<longleftrightarrow> cost_bytes (used b) + cost_bytes c \<le> cost_bytes (limits b) \<and>
     cost_charge (used b) + cost_charge c \<le> cost_charge (limits b)"

definition spend :: "buffer_budget \<Rightarrow> buffer_budget_cost \<Rightarrow> buffer_budget" where
  "spend b c = b\<lparr>used := \<lparr>cost_bytes = cost_bytes (used b) + cost_bytes c,
                         cost_charge = cost_charge (used b) + cost_charge c\<rparr>\<rparr>"

lemma acquire_eq:
  assumes "budget_ok b"
  shows "bufferbudgetTryAcquire b c = Some (if affords b c then (True, spend b c) else (False, b))"
proof -
  have s: "sub64 (cost_bytes (limits b)) (cost_bytes (used b)) = cost_bytes (limits b) - cost_bytes (used b)"
    "sub64 (cost_charge (limits b)) (cost_charge (used b)) = cost_charge (limits b) - cost_charge (used b)"
    using assms by (simp_all add: budget_ok_def)
  have a: "affords b c \<longleftrightarrow> \<not> (cost_bytes c > cost_bytes (limits b) - cost_bytes (used b) \<or>
      cost_charge c > cost_charge (limits b) - cost_charge (used b))"
    using assms by (auto simp: affords_def budget_ok_def)
  show ?thesis
  proof (cases "affords b c")
    case True
    then have "u64 (cost_bytes (used b) + cost_bytes c) = cost_bytes (used b) + cost_bytes c"
      "u64 (cost_charge (used b) + cost_charge c) = cost_charge (used b) + cost_charge c"
      using assms by (simp_all add: affords_def budget_ok_def)
    with True a s assms show ?thesis
      by (simp add: bufferbudgetTryAcquire_def budget_ok_def spend_def)
  next
    case False
    with a s assms show ?thesis by (auto simp: bufferbudgetTryAcquire_def budget_ok_def)
  qed
qed

lemma release_eq:
  assumes "budget_ok b" "cost_bytes c \<le> cost_bytes (used b)" "cost_charge c \<le> cost_charge (used b)"
  shows "bufferbudgetRelease b c = Some (b\<lparr>used := \<lparr>cost_bytes = cost_bytes (used b) - cost_bytes c,
    cost_charge = cost_charge (used b) - cost_charge c\<rparr>\<rparr>)"
  using assms by (simp add: bufferbudgetRelease_def budget_ok_def)

lemma acquireAt_ok:
  assumes "\<forall>r. budget_ok (B r)"
  shows "\<exists>B'. budgetTryAcquireAt B r c = Some (affords (B r) c, B') \<and> (\<forall>r. budget_ok (B' r)) \<and>
    (if affords (B r) c then balanced B [(None, zero_cost)] B' [(Some r, c)] else B' = B)"
proof (cases "affords (B r) c")
  case True
  have "budget_ok (spend (B r) c)"
    using assms True by (auto simp: budget_ok_def spend_def affords_def)
  moreover have "balanced B [(None, zero_cost)] (B(r := spend (B r) c)) [(Some r, c)]"
    by (simp add: balanced_def spend_def)
  ultimately show ?thesis using True assms by (simp add: budgetTryAcquireAt_def acquire_eq)
next
  case False
  with assms show ?thesis by (simp add: budgetTryAcquireAt_def acquire_eq)
qed

lemma releaseAt_ok:
  assumes "covered B [(Some r, c)]"
  shows "\<exists>B'. budgetReleaseAt B r c = Some B' \<and> (\<forall>r. budget_ok (B' r)) \<and>
    balanced B [(Some r, c)] B' [(None, zero_cost)]"
proof -
  have c: "cost_bytes c \<le> cost_bytes (used (B r))" "cost_charge c \<le> cost_charge (used (B r))"
    using coveredD(2,3) [OF assms, of r] by simp_all
  let ?b = "(B r)\<lparr>used := \<lparr>cost_bytes = cost_bytes (used (B r)) - cost_bytes c,
    cost_charge = cost_charge (used (B r)) - cost_charge c\<rparr>\<rparr>"
  have "budgetReleaseAt B r c = Some (B(r := ?b))"
    using release_eq [OF coveredD(1) [OF assms] c] by (simp add: budgetReleaseAt_def)
  moreover have "budget_ok ?b" using coveredD(1) [OF assms, of r] by (auto simp: budget_ok_def)
  moreover have "balanced B [(Some r, c)] (B(r := ?b)) [(None, zero_cost)]"
    using c by (simp add: balanced_def)
  ultimately show ?thesis using coveredD(1) [OF assms] by simp
qed

definition cost_le :: "buffer_budget_cost \<Rightarrow> buffer_budget_cost \<Rightarrow> bool" where
  "cost_le a b \<longleftrightarrow> cost_bytes a \<le> cost_bytes b \<and> cost_charge a \<le> cost_charge b"

lemma reduce_ok:
  assumes "covered B [rv_account v]" "rv_budget v = Some r" "cost_le c (rv_cost v)"
  shows "\<exists>B'. bufferbudgetReservationReduce B v c = Some (B', v\<lparr>rv_cost := c\<rparr>) \<and>
    (\<forall>r. budget_ok (B' r)) \<and> balanced B [rv_account v] B' [rv_account (v\<lparr>rv_cost := c\<rparr>)]"
proof -
  let ?d = "\<lparr>cost_bytes = cost_bytes (rv_cost v) - cost_bytes c,
    cost_charge = cost_charge (rv_cost v) - cost_charge c\<rparr>"
  have v: "rv_account v = (Some r, rv_cost v)" using assms(2) by (simp add: rv_account_def)
  have le: "cost_bytes (rv_cost v) \<le> cost_bytes (used (B r))" "cost_charge (rv_cost v) \<le> cost_charge (used (B r))"
    using coveredD(2,3) [OF assms(1), of r] by (simp_all add: v)
  have max: "cost_bytes (rv_cost v) \<le> SIZE_MAX" "cost_charge (rv_cost v) \<le> SIZE_MAX"
    using le coveredD(1) [OF assms(1), of r] by (simp_all add: budget_ok_def)
  have "covered B [(Some r, ?d)]"
    using le coveredD(1) [OF assms(1)] by (simp add: covered_def le_trans [OF diff_le_self])
  from releaseAt_ok [OF this] obtain B' where B': "budgetReleaseAt B r ?d = Some B'"
    "\<forall>r. budget_ok (B' r)" "balanced B [(Some r, ?d)] B' [(None, zero_cost)]" by blast
  have "bufferbudgetReservationReduce B v c = Some (B', v\<lparr>rv_cost := c\<rparr>)"
    using assms(2,3) B'(1) max by (simp add: bufferbudgetReservationReduce_def cost_le_def)
  moreover have "balanced B [rv_account v] B' [rv_account (v\<lparr>rv_cost := c\<rparr>)]"
  proof (rule balancedI)
    fix x
    note d = balancedD [OF B'(3), of x]
    show "limits (B' x) = limits (B x)" by (rule d(1))
    show "cost_bytes (used (B' x)) + held cost_bytes x [rv_account v] =
        cost_bytes (used (B x)) + held cost_bytes x [rv_account (v\<lparr>rv_cost := c\<rparr>)]"
      using d(2) assms(2,3) by (cases "x = r") (auto simp: rv_account_def cost_le_def)
    show "cost_charge (used (B' x)) + held cost_charge x [rv_account v] =
        cost_charge (used (B x)) + held cost_charge x [rv_account (v\<lparr>rv_cost := c\<rparr>)]"
      using d(3) assms(2,3) by (cases "x = r") (auto simp: rv_account_def cost_le_def)
  qed
  ultimately show ?thesis using B'(2) by blast
qed

lemma rv_release_ok:
  assumes "covered B [rv_account v]"
  shows "\<exists>B' v'. bufferbudgetReservationRelease B v = Some (B', v') \<and> (\<forall>r. budget_ok (B' r)) \<and>
    rv_budget v' = None \<and> balanced B [rv_account v] B' [rv_account v']"
proof (cases "rv_budget v")
  case None
  with coveredD(1) [OF assms] show ?thesis by (simp add: bufferbudgetReservationRelease_def)
next
  case (Some r)
  then have v: "rv_account v = (Some r, rv_cost v)" by (simp add: rv_account_def)
  with assms releaseAt_ok [of B r "rv_cost v"] Some show ?thesis
    by (auto simp: bufferbudgetReservationRelease_def empty_reservation_def rv_account_def)
qed

text \<open>The cost of a well-formed buffer is always representable.\<close>

definition entry_cost :: "sbuf \<Rightarrow> buffer_budget_cost" where
  "entry_cost b = \<lparr>cost_bytes = sb_len b,
     cost_charge = sizeof_sbuf + kSbufAllocationAlignment + sb_capacity b\<rparr>"

lemma entry_cost_bounds:
  assumes "sbuf_ok b"
  shows "cost_bytes (entry_cost b) \<le> UINT32_MAX" "cost_charge (entry_cost b) \<le> 2 * UINT32_MAX"
    "0 < cost_charge (entry_cost b)"
  using sbuf_okD(2,3) [OF assms] by (simp_all add: entry_cost_def sbuf_consts)

lemma queueCharge_eq:
  assumes "sbuf_ok b"
  shows "sbufTryGetQueueCharge b = Some (cost_charge (entry_cost b))"
    "sbufGetQueueCharge b = Some (cost_charge (entry_cost b))"
  using sbuf_okD(2) [OF assms]
  by (simp_all add: sbufTryGetQueueCharge_def sbufTryComputeQueueCharge_def sbufGetQueueCharge_def
      Let_def sbufGetTotalCapacity_def entry_cost_def sbuf_consts)

lemma getCost_eq: "sbuf_ok b \<Longrightarrow> bufferbudgetTryGetCost b = Some (entry_cost b)"
  by (simp add: bufferbudgetTryGetCost_def queueCharge_eq sbufGetLength_def)
     (simp add: entry_cost_def)

lemma tryReserve_ok:
  assumes "\<forall>r. budget_ok (B r)" "sbuf_ok b" "rv_budget v = None"
  shows "\<exists>B' v'. bufferbudgetTryReserve B r b v = Some (affords (B r) (entry_cost b), B', v') \<and>
    (\<forall>r. budget_ok (B' r)) \<and> balanced B [rv_account v] B' [rv_account v']"
proof -
  have v: "rv_account v = (None, rv_cost v)" using assms(3) by (simp add: rv_account_def)
  obtain B' where B': "budgetTryAcquireAt B r (entry_cost b) = Some (affords (B r) (entry_cost b), B')"
    "\<forall>r. budget_ok (B' r)"
    "if affords (B r) (entry_cost b) then balanced B [(None, zero_cost)] B' [(Some r, entry_cost b)] else B' = B"
    using acquireAt_ok [OF assms(1)] by blast
  show ?thesis
  proof (cases "affords (B r) (entry_cost b)")
    case True
    let ?v = "\<lparr>rv_budget = Some r, rv_cost = entry_cost b\<rparr>"
    have "bufferbudgetTryReserve B r b v = Some (True, B', ?v)"
      using True B'(1) assms(2,3) by (simp add: bufferbudgetTryReserve_def getCost_eq)
    moreover have "balanced B [rv_account v] B' [rv_account ?v]"
      using B'(3) True by (simp add: v) (simp add: rv_account_def balanced_def)
    ultimately show ?thesis using True B'(2) by (intro exI [of _ B'] exI [of _ ?v]) simp
  next
    case False
    with B' assms(2,3) show ?thesis by (simp add: bufferbudgetTryReserve_def getCost_eq)
  qed
qed

end
