(* ===== verification/Buffer_Queue.thy ===== *)
theory Buffer_Queue
  imports Buffer_Stream Buffer_Budget
begin

text \<open>
  The buffer queue of \<open>ww/bufio/buffer_queue.h\<close> and \<open>buffer_queue.c\<close> and the context queue of
  \<open>ww/bufio/context_queue.c\<close>. A buffer queue keeps whole buffers in order, caches their total
  length and charge, and holds that total in the budget it is bound to. Insertions are
  transactional: a refused one changes nothing.

  The operations take the store of budgets because a queue only points to its budget. A pointer
  argument that may be NULL, such as a reservation, is an option; the buffer of an insertion is
  passed in and handed back because a debug build replaces it.
\<close>

section \<open>Buffer queue\<close>

record 'q buffer_queue =
  bq_budget :: "budget_ref option"
  bq_q :: 'q
  total_len :: nat
  total_charge :: nat

definition kBufferQueueQCap :: int where
  "kBufferQueueQCap = 8"

definition PTRDIFF_MAX :: nat where
  "PTRDIFF_MAX = 9223372036854775807"

definition bufferqueueInitEmpty :: "('q, sbuf) deque_ops \<Rightarrow> 'q buffer_queue" where
  "bufferqueueInitEmpty D = \<lparr>bq_budget = None, bq_q = dq_init D, total_len = 0, total_charge = 0\<rparr>"

definition bufferqueueReserveExtra :: "('q, sbuf) deque_ops \<Rightarrow> 'q buffer_queue \<Rightarrow> nat \<Rightarrow> bool \<times> 'q buffer_queue" where
  "bufferqueueReserveExtra D self extra =
     (let entries = dq_size D (bq_q self);
          maximum_capacity = PTRDIFF_MAX div (2 * 8)
      in if entries > maximum_capacity \<or> extra > sub64 maximum_capacity entries then (False, self)
         else let (reserved, q) = dq_reserve D (bq_q self) (u64 (entries + extra))
              in (reserved, self\<lparr>bq_q := q\<rparr>))"

definition bufferqueueInit :: "('q, sbuf) deque_ops \<Rightarrow> int \<Rightarrow> bool \<times> 'q buffer_queue" where
  "bufferqueueInit D init_capacity =
     (let init_capacity = (if init_capacity < 1 then kBufferQueueQCap else init_capacity)
      in bufferqueueReserveExtra D (bufferqueueInitEmpty D) (nat init_capacity))"

definition bufferqueueCreate :: "('q, sbuf) deque_ops \<Rightarrow> int \<Rightarrow> 'q buffer_queue option" where
  "bufferqueueCreate D init_capacity =
     (case bufferqueueInit D init_capacity of (made, bq) \<Rightarrow> if made then Some bq else None)"

definition bufferqueueDestroy ::
  "('q, sbuf) deque_ops \<Rightarrow> budgets \<Rightarrow> buffer_pool \<Rightarrow> 'q buffer_queue \<Rightarrow>
   (budgets \<times> buffer_pool \<times> 'q buffer_queue) option" where
  "bufferqueueDestroy D B pool self = do {
     pool \<leftarrow> (if dq_size D (bq_q self) > 0 then reuse_all pool (dq_elems D (bq_q self)) else Some pool);
     B \<leftarrow> (case bq_budget self of
            None \<Rightarrow> Some B
          | Some r \<Rightarrow> budgetReleaseAt B r \<lparr>cost_bytes = total_len self, cost_charge = total_charge self\<rparr>);
     Some (B, pool, bufferqueueInitEmpty D)
   }"

definition bufferqueueTakeBuffer :: "sbuf \<Rightarrow> sbuf option" where
  "bufferqueueTakeBuffer buf = (if sbufIsSplice buf then Some buf else debugBufferWontBeReused buf)"

definition bufferqueueTryAttachBudget ::
  "budgets \<Rightarrow> 'q buffer_queue \<Rightarrow> budget_ref \<Rightarrow> (bool \<times> budgets \<times> 'q buffer_queue) option" where
  "bufferqueueTryAttachBudget B self budget = do {
     ensure (bq_budget self = None);
     (acquired, B) \<leftarrow> budgetTryAcquireAt B budget
                       \<lparr>cost_bytes = total_len self, cost_charge = total_charge self\<rparr>;
     if \<not> acquired then Some (False, B, self)
     else Some (True, B, self\<lparr>bq_budget := Some budget\<rparr>)
   }"

definition bufferqueueTryRebindBudget ::
  "budgets \<Rightarrow> 'q buffer_queue \<Rightarrow> budget_ref \<Rightarrow> (bool \<times> budgets \<times> 'q buffer_queue) option" where
  "bufferqueueTryRebindBudget B self destination =
     (case bq_budget self of
        None \<Rightarrow> None
      | Some budget \<Rightarrow>
          if budget = destination then Some (True, B, self)
          else do {
            let cost = \<lparr>cost_bytes = total_len self, cost_charge = total_charge self\<rparr>;
            (acquired, B) \<leftarrow> budgetTryAcquireAt B destination cost;
            if \<not> acquired then Some (False, B, self)
            else do {
              B \<leftarrow> budgetReleaseAt B budget cost;
              Some (True, B, self\<lparr>bq_budget := Some destination\<rparr>)
            }
          })"

text \<open>
  Insertion. The result is whether the queue took the buffer, the budgets, the queue, the
  buffer the caller's pointer now refers to, and the reservation it passed.
\<close>

type_synonym 'q insertion = "bool \<times> budgets \<times> 'q buffer_queue \<times> sbuf \<times> buffer_budget_reservation option"

definition insertAdmit ::
  "budgets \<Rightarrow> 'q buffer_queue \<Rightarrow> buffer_budget_cost \<Rightarrow> buffer_budget_reservation option \<Rightarrow> (bool \<times> budgets) option" where
  "insertAdmit B self cost reservation =
     (case reservation of
        Some v \<Rightarrow> do {
          ensure (bq_budget self \<noteq> None \<and> rv_budget v = bq_budget self);
          ensure (cost_bytes (rv_cost v) = cost_bytes cost \<and> cost_charge (rv_cost v) = cost_charge cost);
          Some (True, B)
        }
      | None \<Rightarrow> (case bq_budget self of None \<Rightarrow> Some (True, B) | Some r \<Rightarrow> budgetTryAcquireAt B r cost))"

definition bufferqueueTryInsert ::
  "('q, sbuf) deque_ops \<Rightarrow> budgets \<Rightarrow> 'q buffer_queue \<Rightarrow> sbuf \<Rightarrow> bool \<Rightarrow> buffer_budget_reservation option \<Rightarrow>
   'q insertion option" where
  "bufferqueueTryInsert D B self b front reservation =
     (case bufferbudgetTryGetCost b of
        None \<Rightarrow> Some (False, B, self, b, reservation)
      | Some cost \<Rightarrow>
          if total_charge self > sub64 SIZE_MAX (cost_charge cost) \<or>
             total_len self > sub64 SIZE_MAX (cost_bytes cost)
          then Some (False, B, self, b, reservation)
          else do {
            (admitted, B) \<leftarrow> insertAdmit B self cost reservation;
            if \<not> admitted then Some (False, B, self, b, reservation)
            else (case bufferqueueReserveExtra D self 1 of
              (reserved, self) \<Rightarrow>
                if \<not> reserved then do {
                  B \<leftarrow> (case (bq_budget self, reservation) of
                         (Some r, None) \<Rightarrow> budgetReleaseAt B r cost
                       | _ \<Rightarrow> Some B);
                  Some (False, B, self, b, reservation)
                }
                else do {
                  entry \<leftarrow> bufferqueueTakeBuffer b;
                  charge \<leftarrow> sbufGetQueueCharge entry;
                  ensure (charge = cost_charge cost);
                  let q = (if front then dq_push_front D (bq_q self) entry
                           else dq_push_back D (bq_q self) entry);
                  Some (True, B,
                        self\<lparr>bq_q := q, total_len := u64 (total_len self + cost_bytes cost),
                             total_charge := u64 (total_charge self + cost_charge cost)\<rparr>,
                        entry, map_option (\<lambda>_. empty_reservation) reservation)
                })
          })"

definition bufferqueueTryPushBack ::
  "('q, sbuf) deque_ops \<Rightarrow> budgets \<Rightarrow> 'q buffer_queue \<Rightarrow> sbuf \<Rightarrow> 'q insertion option" where
  "bufferqueueTryPushBack D B self b = bufferqueueTryInsert D B self b False None"

definition bufferqueueTryPushFront ::
  "('q, sbuf) deque_ops \<Rightarrow> budgets \<Rightarrow> 'q buffer_queue \<Rightarrow> sbuf \<Rightarrow> 'q insertion option" where
  "bufferqueueTryPushFront D B self b = bufferqueueTryInsert D B self b True None"

definition bufferqueueTryPushBackReserved ::
  "('q, sbuf) deque_ops \<Rightarrow> budgets \<Rightarrow> 'q buffer_queue \<Rightarrow> sbuf \<Rightarrow> buffer_budget_reservation \<Rightarrow> 'q insertion option" where
  "bufferqueueTryPushBackReserved D B self b v = bufferqueueTryInsert D B self b False (Some v)"

definition bufferqueueTryPushFrontReserved ::
  "('q, sbuf) deque_ops \<Rightarrow> budgets \<Rightarrow> 'q buffer_queue \<Rightarrow> sbuf \<Rightarrow> buffer_budget_reservation \<Rightarrow> 'q insertion option" where
  "bufferqueueTryPushFrontReserved D B self b v = bufferqueueTryInsert D B self b True (Some v)"

definition bufferqueuePushBack ::
  "('q, sbuf) deque_ops \<Rightarrow> budgets \<Rightarrow> 'q buffer_queue \<Rightarrow> sbuf \<Rightarrow> (sbuf \<times> budgets \<times> 'q buffer_queue) option" where
  "bufferqueuePushBack D B self b = do {
     (taken, B, self, b, _) \<leftarrow> bufferqueueTryPushBack D B self b;
     if taken then Some (b, B, self) else None
   }"

definition bufferqueuePushFront ::
  "('q, sbuf) deque_ops \<Rightarrow> budgets \<Rightarrow> 'q buffer_queue \<Rightarrow> sbuf \<Rightarrow> (sbuf \<times> budgets \<times> 'q buffer_queue) option" where
  "bufferqueuePushFront D B self b = do {
     (taken, B, self, b, _) \<leftarrow> bufferqueueTryPushFront D B self b;
     if taken then Some (b, B, self) else None
   }"

type_synonym 'q removal = "sbuf option \<times> budgets \<times> 'q buffer_queue \<times> buffer_budget_reservation option"

definition bufferqueuePop ::
  "('q, sbuf) deque_ops \<Rightarrow> budgets \<Rightarrow> 'q buffer_queue \<Rightarrow> buffer_budget_reservation option \<Rightarrow> 'q removal option" where
  "bufferqueuePop D B self reservation =
     (if dq_size D (bq_q self) = 0 then Some (None, B, self, reservation)
      else (case dq_pull_front D (bq_q self) of (b, q) \<Rightarrow> do {
        charge \<leftarrow> sbufGetQueueCharge b;
        ensure (total_len self \<ge> sbufGetLength b \<and> total_charge self \<ge> charge);
        let self = self\<lparr>bq_q := q, total_len := sub64 (total_len self) (sbufGetLength b),
                        total_charge := sub64 (total_charge self) charge\<rparr>;
        let cost = \<lparr>cost_bytes = sbufGetLength b, cost_charge = charge\<rparr>;
        case bq_budget self of
          None \<Rightarrow> Some (Some b, B, self, reservation)
        | Some r \<Rightarrow> (case reservation of
            Some v \<Rightarrow> Some (Some b, B, self, Some \<lparr>rv_budget = Some r, rv_cost = cost\<rparr>)
          | None \<Rightarrow> do { B \<leftarrow> budgetReleaseAt B r cost; Some (Some b, B, self, None) })
      }))"

definition bufferqueuePopFront ::
  "('q, sbuf) deque_ops \<Rightarrow> budgets \<Rightarrow> 'q buffer_queue \<Rightarrow> 'q removal option" where
  "bufferqueuePopFront D B self = bufferqueuePop D B self None"

definition bufferqueuePopFrontReserved ::
  "('q, sbuf) deque_ops \<Rightarrow> budgets \<Rightarrow> 'q buffer_queue \<Rightarrow> buffer_budget_reservation \<Rightarrow> 'q removal option" where
  "bufferqueuePopFrontReserved D B self v = do {
     ensure (bq_budget self \<noteq> None \<and> rv_budget v = None);
     bufferqueuePop D B self (Some v)
   }"

definition bufferqueueFront :: "('q, sbuf) deque_ops \<Rightarrow> 'q buffer_queue \<Rightarrow> sbuf option" where
  "bufferqueueFront D self = (if dq_size D (bq_q self) = 0 then None else Some (dq_front D (bq_q self)))"

definition bufferqueueGetBufCount :: "('q, sbuf) deque_ops \<Rightarrow> 'q buffer_queue \<Rightarrow> nat" where
  "bufferqueueGetBufCount D self = dq_size D (bq_q self)"

definition bufferqueueGetBufLen :: "'q buffer_queue \<Rightarrow> nat" where
  "bufferqueueGetBufLen self = total_len self"

definition bufferqueueGetCharge :: "'q buffer_queue \<Rightarrow> nat" where
  "bufferqueueGetCharge self = total_charge self"

section \<open>Context queue\<close>

text \<open>The queue of contexts never looks inside its elements.\<close>

record 'q context_queue =
  cq_q :: 'q

definition kContextQueueCap :: nat where
  "kContextQueueCap = 8"

definition contextqueueCreate :: "('q, 'c) deque_ops \<Rightarrow> 'q context_queue" where
  "contextqueueCreate D = \<lparr>cq_q = dq_with_capacity D kContextQueueCap\<rparr>"

definition contextqueuePush :: "('q, 'c) deque_ops \<Rightarrow> 'q context_queue \<Rightarrow> 'c \<Rightarrow> 'q context_queue" where
  "contextqueuePush D self c = self\<lparr>cq_q := dq_push_back D (cq_q self) c\<rparr>"

definition contextqueuePop :: "('q, 'c) deque_ops \<Rightarrow> 'q context_queue \<Rightarrow> 'c option \<times> 'q context_queue" where
  "contextqueuePop D self =
     (if dq_is_empty D (cq_q self) then (None, self)
      else (case dq_pull_front D (cq_q self) of (c, q) \<Rightarrow> (Some c, self\<lparr>cq_q := q\<rparr>)))"

definition contextqueueLen :: "('q, 'c) deque_ops \<Rightarrow> 'q context_queue \<Rightarrow> nat" where
  "contextqueueLen D self = dq_size D (cq_q self)"

end
