(* ===== verification/Stream_Laws.thy ===== *)
theory Stream_Laws
  imports Buffer_Stream
begin

text \<open>
  The contract of the buffer stream as a queue of bytes, the remaining operations (reading at
  least or whatever is at the front, views, compaction), and the properties of the component.
\<close>

section \<open>A queue of bytes\<close>

text \<open>
  What protocol code relies on: a push appends the bytes of a chunk, an exact read removes that
  many bytes from the front, and neither fails below the size limit.
\<close>

locale byte_fifo =
  fixes inv :: "'s \<Rightarrow> bool"
    and bytes :: "'s \<Rightarrow> byte list"
    and good :: "'b \<Rightarrow> bool"
    and data :: "'b \<Rightarrow> byte list"
    and push :: "'s \<Rightarrow> 'b \<Rightarrow> 's option"
    and pull :: "'s \<Rightarrow> nat \<Rightarrow> ('b \<times> 's) option"
    and limit :: nat
  assumes push_bytes: "inv s \<Longrightarrow> good b \<Longrightarrow> length (bytes s) + length (data b) \<le> limit \<Longrightarrow>
      \<exists>s'. push s b = Some s' \<and> inv s' \<and> bytes s' = bytes s @ data b"
    and pull_bytes: "inv s \<Longrightarrow> 0 < n \<Longrightarrow> n \<le> length (bytes s) \<Longrightarrow> length (bytes s) \<le> limit \<Longrightarrow>
      \<exists>b s'. pull s n = Some (b, s') \<and> good b \<and> inv s' \<and> data b = take n (bytes s) \<and>
        bytes s' = drop n (bytes s)"

primrec push_all :: "('s \<Rightarrow> 'b \<Rightarrow> 's option) \<Rightarrow> 's \<Rightarrow> 'b list \<Rightarrow> 's option" where
  "push_all push s [] = Some s"
| "push_all push s (b # bs) = do { s \<leftarrow> push s b; push_all push s bs }"

primrec pull_all :: "('s \<Rightarrow> nat \<Rightarrow> ('b \<times> 's) option) \<Rightarrow> 's \<Rightarrow> nat list \<Rightarrow> ('b list \<times> 's) option" where
  "pull_all pull s [] = Some ([], s)"
| "pull_all pull s (n # ns) = do { (b, s) \<leftarrow> pull s n; (bs, s) \<leftarrow> pull_all pull s ns; Some (b # bs, s) }"

text \<open>The reads a list of lengths asks of a byte sequence.\<close>

primrec segments :: "byte list \<Rightarrow> nat list \<Rightarrow> byte list list" where
  "segments xs [] = []"
| "segments xs (n # ns) = take n xs # segments (drop n xs) ns"

context byte_fifo
begin

lemma push_all_bytes:
  assumes "inv s" "\<forall>b\<in>set bs. good b" "length (bytes s) + length (concat (map data bs)) \<le> limit"
  shows "\<exists>s'. push_all push s bs = Some s' \<and> inv s' \<and> bytes s' = bytes s @ concat (map data bs)"
  using assms
proof (induction bs arbitrary: s)
  case Nil
  then show ?case by simp
next
  case (Cons b bs)
  then obtain s1 where "push s b = Some s1" "inv s1" "bytes s1 = bytes s @ data b"
    using push_bytes [of s b] by auto
  then show ?case using Cons.IH [of s1] Cons.prems by auto
qed

lemma pull_all_bytes:
  assumes "inv s" "\<forall>n\<in>set ns. 0 < n" "sum_list ns \<le> length (bytes s)" "length (bytes s) \<le> limit"
  shows "\<exists>bs s'. pull_all pull s ns = Some (bs, s') \<and> inv s' \<and> (\<forall>b\<in>set bs. good b) \<and>
    map data bs = segments (bytes s) ns \<and> bytes s' = drop (sum_list ns) (bytes s)"
  using assms
proof (induction ns arbitrary: s)
  case Nil
  then show ?case by simp
next
  case (Cons n ns)
  then obtain b s1 where b: "pull s n = Some (b, s1)" "good b" "inv s1" "data b = take n (bytes s)"
    "bytes s1 = drop n (bytes s)"
    using pull_bytes [of s n] by auto
  have "sum_list ns \<le> length (bytes s1)" "length (bytes s1) \<le> limit" using Cons.prems b by simp_all
  then obtain bs s2 where "pull_all pull s1 ns = Some (bs, s2)" "inv s2" "\<forall>b\<in>set bs. good b"
    "map data bs = segments (bytes s1) ns" "bytes s2 = drop (sum_list ns) (bytes s1)"
    using Cons.IH [OF b(3)] Cons.prems(2) by auto
  then show ?case using b by (simp add: add.commute)
qed

text \<open>What is read depends on the bytes pushed, not on how they were cut into chunks.\<close>

lemma chunking_irrelevant:
  assumes "inv s" "\<forall>b\<in>set bs \<union> set cs. good b" "concat (map data bs) = concat (map data cs)"
    "length (bytes s) + length (concat (map data bs)) \<le> limit"
    "\<forall>n\<in>set ns. 0 < n" "sum_list ns \<le> length (bytes s) + length (concat (map data bs))"
  shows "\<exists>rs ss sr ts tr. push_all push s bs = Some rs \<and> pull_all pull rs ns = Some (sr, ss) \<and>
    (\<exists>rt. push_all push s cs = Some rt \<and> pull_all pull rt ns = Some (tr, ts)) \<and>
    map data sr = map data tr \<and> map data sr = segments (bytes s @ concat (map data bs)) ns"
proof -
  obtain s1 where s1: "push_all push s bs = Some s1" "inv s1" "bytes s1 = bytes s @ concat (map data bs)"
    using push_all_bytes [of s bs] assms by auto
  obtain t1 where t1: "push_all push s cs = Some t1" "inv t1" "bytes t1 = bytes s @ concat (map data cs)"
    using push_all_bytes [of s cs] assms by auto
  have "\<exists>bs s'. pull_all pull s1 ns = Some (bs, s') \<and> map data bs = segments (bytes s1) ns"
    using pull_all_bytes [OF s1(2) assms(5)] s1(3) assms(4,6) by auto
  moreover have "\<exists>bs s'. pull_all pull t1 ns = Some (bs, s') \<and> map data bs = segments (bytes t1) ns"
    using pull_all_bytes [OF t1(2) assms(5)] t1(3) assms(3,4,6) by auto
  ultimately show ?thesis using s1 t1 assms(3) by fastforce
qed

end

section \<open>The stream is a queue of bytes\<close>

definition stream_push ::
  "('q, sbuf) deque_ops \<Rightarrow> 'q buffer_stream \<times> buffer_pool \<Rightarrow> sbuf \<Rightarrow> ('q buffer_stream \<times> buffer_pool) option" where
  "stream_push D st b = bufferstreamPush D (fst st) (snd st) b"

definition stream_pull ::
  "('q, sbuf) deque_ops \<Rightarrow> 'q buffer_stream \<times> buffer_pool \<Rightarrow> nat \<Rightarrow>
   (sbuf \<times> 'q buffer_stream \<times> buffer_pool) option" where
  "stream_pull D st n = bufferstreamReadExact D (fst st) (snd st) n"

sublocale sbuf_deque < stream: byte_fifo
  "\<lambda>st. stream_ok D (fst st) \<and> pool_ok (snd st)" "\<lambda>st. stream_bytes D (fst st)" sbuf_ok payload
  "stream_push D" "stream_pull D" STREAM_SAFE_MAX
proof
  fix st b
  assume "stream_ok D (fst st) \<and> pool_ok (snd st)" "sbuf_ok b"
    "length (stream_bytes D (fst st)) + length (payload b) \<le> STREAM_SAFE_MAX"
  then show "\<exists>s'. stream_push D st b = Some s' \<and> (stream_ok D (fst s') \<and> pool_ok (snd s')) \<and>
      stream_bytes D (fst s') = stream_bytes D (fst st) @ payload b"
    using push_ok [of "fst st" "snd st" b]
    by (auto simp: stream_push_def stream_ok_def length_payload)
next
  fix st n
  assume "stream_ok D (fst st) \<and> pool_ok (snd st)" "0 < n" "n \<le> length (stream_bytes D (fst st))"
    "length (stream_bytes D (fst st)) \<le> STREAM_SAFE_MAX"
  then show "\<exists>b s'. stream_pull D st n = Some (b, s') \<and> sbuf_ok b \<and>
      (stream_ok D (fst s') \<and> pool_ok (snd s')) \<and> payload b = take n (stream_bytes D (fst st)) \<and>
      stream_bytes D (fst s') = drop n (stream_bytes D (fst st))"
    using readExact_ok [of "fst st" "snd st" n]
    by (auto simp: stream_pull_def stream_ok_def)
qed

interpretation list_stream: sbuf_deque "list_deque :: (sbuf list, sbuf) deque_ops"
  by unfold_locales

section \<open>The other reads\<close>

context sbuf_deque
begin

lemmas stream_chunking = stream.chunking_irrelevant

lemma readAtLeastLoop_ok:
  assumes "dq_elems D (bs_q s) = es" "pool_ok p" "sbuf_ok c" "\<forall>b\<in>set es. sbuf_ok b"
    "n \<le> sb_len c + length (concat (map payload es))"
    "sb_len c + length (concat (map payload es)) \<le> STREAM_SAFE_MAX"
    "bs_size s = sb_len c + length (concat (map payload es))"
  shows "\<exists>r s' p'. readAtLeastLoop D s p c (sb_len c) n = Some (r, s', p') \<and> sbuf_ok r \<and>
    n \<le> length (payload r) \<and> payload r @ stream_bytes D s' = payload c @ concat (map payload es) \<and>
    (\<forall>b\<in>set (dq_elems D (bs_q s')). sbuf_ok b) \<and> pool_ok p' \<and> bs_size s' = length (stream_bytes D s') \<and>
    bs_use_left_padding s' = bs_use_left_padding s"
  using assms
proof (induction es arbitrary: s p c)
  case (Nil s p c)
  then show ?case
    by (simp add: readAtLeastLoop.simps [of D s p c "sb_len c" n] sbufGetLength_def length_payload
        stream_bytes_def)
next
  case (Cons b bs s p c)
  have b: "sbuf_ok b" "\<forall>x\<in>set bs. sbuf_ok x" using Cons.prems(4) by simp_all
  show ?case
  proof (cases "n \<le> sb_len c")
    case True
    then show ?thesis
      using Cons.prems
      by (simp add: readAtLeastLoop.simps [of D s p c "sb_len c" n] sbufGetLength_def length_payload
          stream_bytes_def)
  next
    case False
    let ?t = "s\<lparr>bs_q := snd (dq_pull_front D (bs_q s))\<rparr>"
    have t: "dq_elems D (bs_q ?t) = bs" using Cons.prems(1) by simp
    have lim: "sb_len c + sb_len b \<le> STREAM_SAFE_MAX" using Cons.prems(6) b by (simp add: length_payload)
    then obtain d q where d: "sbufAppendMerge p c b = Some (d, q)" "sbuf_ok d"
      "payload d = payload c @ payload b" "pool_ok q"
      using sbufAppendMerge_ok [OF Cons.prems(2,3) b(1)] by blast
    have ld: "sb_len d = sb_len c + sb_len b"
      using length_payload [OF d(2)] d(3) b(1) Cons.prems(3) by (simp add: length_payload)
    have "readAtLeastLoop D s p c (sb_len c) n = readAtLeastLoop D ?t q d (sb_len d) n"
      using False Cons.prems(1) d(1) ld lim
      by (simp add: readAtLeastLoop.simps [of D s p c "sb_len c" n] sbufGetLength_def)
    moreover have "n \<le> sb_len d + length (concat (map payload bs))"
      "sb_len d + length (concat (map payload bs)) \<le> STREAM_SAFE_MAX"
      "bs_size ?t = sb_len d + length (concat (map payload bs))"
      using Cons.prems(5,6,7) ld b(1) by (simp_all add: length_payload)
    ultimately show ?thesis using Cons.IH [OF t d(4,2) b(2)] d(3) by simp
  qed
qed

lemma readAtLeast_ok:
  assumes s: "stream_ok D s" and p: "pool_ok p" and n: "0 < n" "n \<le> bs_size s"
    and safe: "bs_size s \<le> STREAM_SAFE_MAX"
  shows "\<exists>r s' p'. bufferstreamReadAtLeast D s p n = Some (r, s', p') \<and> sbuf_ok r \<and> stream_ok D s' \<and>
    n \<le> length (payload r) \<and> payload r @ stream_bytes D s' = stream_bytes D s \<and> pool_ok p'"
proof -
  obtain b bs where es: "dq_elems D (bs_q s) = b # bs"
    using stream_nonempty [OF s] n by (cases "dq_elems D (bs_q s)") auto
  let ?t = "s\<lparr>bs_q := snd (dq_pull_front D (bs_q s))\<rparr>"
  have t: "dq_elems D (bs_q ?t) = bs" using es by simp
  have b: "sbuf_ok b" "\<forall>x\<in>set bs. sbuf_ok x" using s es by (simp_all add: stream_ok_def)
  have bytes: "stream_bytes D s = payload b @ concat (map payload bs)" using stream_bytes_Cons [OF es] .
  have size: "bs_size ?t = sb_len b + length (concat (map payload bs))"
    using s bytes b(1) by (simp add: stream_ok_def length_payload)
  obtain r s' p' where r: "readAtLeastLoop D ?t p b (sb_len b) n = Some (r, s', p')" "sbuf_ok r"
    "n \<le> length (payload r)" "payload r @ stream_bytes D s' = stream_bytes D s"
    "\<forall>b\<in>set (dq_elems D (bs_q s')). sbuf_ok b" "pool_ok p'" "bs_size s' = length (stream_bytes D s')"
    "bs_use_left_padding s' = bs_use_left_padding ?t"
    using readAtLeastLoop_ok [OF t p b _ _ size, of n] n(2) safe size unfolding bytes by auto
  have "bufferstreamReadAtLeast D s p n = Some (r, s', p')"
    using r(1) n es safe
    by (simp add: bufferstreamReadAtLeast_def bufferstreamCheckSbufByteCount_def sbufGetLength_def)
  moreover have "length (stream_bytes D s') \<le> UINT32_MAX"
    using arg_cong [OF r(4), of length] s by (simp add: stream_ok_def)
  ultimately show ?thesis using r s by (auto simp: stream_ok_def)
qed

lemma idealRead_ok:
  assumes s: "stream_ok D s" and n: "0 < bs_size s"
  shows "\<exists>r s'. bufferstreamIdealRead D s = Some (r, s') \<and> sbuf_ok r \<and> stream_ok D s' \<and>
    payload r @ stream_bytes D s' = stream_bytes D s"
proof -
  obtain b bs where es: "dq_elems D (bs_q s) = b # bs"
    using stream_nonempty [OF s n] by (cases "dq_elems D (bs_q s)") auto
  let ?t = "s\<lparr>bs_q := snd (dq_pull_front D (bs_q s)), bs_size := sub64 (bs_size s) (sb_len b)\<rparr>"
  have t: "dq_elems D (bs_q ?t) = bs" using es by simp
  have b: "sbuf_ok b" "\<forall>x\<in>set bs. sbuf_ok x" using s es by (simp_all add: stream_ok_def)
  have bytes: "stream_bytes D s = payload b @ concat (map payload bs)" using stream_bytes_Cons [OF es] .
  have tb: "stream_bytes D ?t = concat (map payload bs)" unfolding stream_bytes_def t ..
  have size: "bs_size s = sb_len b + length (concat (map payload bs))" "bs_size s \<le> UINT32_MAX"
    using s bytes b(1) by (simp_all add: stream_ok_def length_payload)
  have "bufferstreamIdealRead D s = Some (b, ?t)"
    using n es by (simp add: bufferstreamIdealRead_def sbufGetLength_def)
  moreover have "stream_ok D ?t"
    using tb t b s size unfolding stream_ok_def by auto
  ultimately show ?thesis using b tb bytes by simp
qed

lemma fullRead_ok:
  assumes s: "stream_ok D s" and p: "pool_ok p" and safe: "bs_size s \<le> STREAM_SAFE_MAX"
  shows "\<exists>r s' p'. bufferstreamFullRead D s p = Some (r, s', p') \<and> stream_ok D s' \<and> pool_ok p' \<and>
    stream_bytes D s' = [] \<and> (case r of None \<Rightarrow> stream_bytes D s = [] | Some b \<Rightarrow> sbuf_ok b \<and> payload b = stream_bytes D s)"
proof (cases "bs_size s = 0")
  case True
  then show ?thesis
    using s p by (auto simp: bufferstreamFullRead_def bufferstreamGetBufLen_def stream_ok_def)
next
  case False
  then show ?thesis
    using readExact_ok [OF s p, of "bs_size s"] safe s
    by (auto simp: bufferstreamFullRead_def bufferstreamGetBufLen_def stream_ok_def)
qed

section \<open>Views and searches\<close>

lemma viewByteLoop_eq:
  "\<forall>b\<in>set bs. sbuf_ok b \<Longrightarrow> i < length (concat (map payload bs)) \<Longrightarrow>
   viewByteLoop bs i = Some (concat (map payload bs) ! i)"
proof (induction bs arbitrary: i)
  case Nil
  then show ?case by simp
next
  case (Cons b bs)
  have b: "sbuf_ok b" using Cons.prems by simp
  note lb [simp] = length_payload [OF b]
  show ?case
  proof (cases "i < sb_len b")
    case True
    have bound: "curpos b + i < length (sb_buf b)" using True sbuf_okD [OF b] by linarith
    then have "mem_read (sb_buf b) (curpos b + i) 1 = Some [sb_buf b ! (curpos b + i)]"
      by (simp add: mem_read_def take_Suc_conv_app_nth hd_drop_conv_nth drop_Suc [symmetric]
          Cons_nth_drop_Suc [symmetric])
    moreover have "payload b ! i = sb_buf b ! (curpos b + i)"
      using True bound by (simp add: payload_def)
    ultimately show ?thesis using True by (simp add: sbufGetLength_def nth_append)
  next
    case False
    then show ?thesis using Cons.IH [of "i - sb_len b"] Cons.prems
      by (simp add: sbufGetLength_def nth_append)
  qed
qed

lemma viewBytesLoop_eq:
  "\<forall>b\<in>set bs. sbuf_ok b \<Longrightarrow> length acc < n \<Longrightarrow>
   i + (n - length acc) \<le> length (concat (map payload bs)) \<Longrightarrow>
   viewBytesLoop bs i acc n = Some (acc @ take (n - length acc) (drop i (concat (map payload bs))))"
proof (induction bs arbitrary: i acc)
  case Nil
  then show ?case by simp
next
  case (Cons b bs)
  have b: "sbuf_ok b" using Cons.prems by simp
  note lb [simp] = length_payload [OF b]
  show ?case
  proof (cases "sb_len b \<le> i")
    case True
    then show ?thesis
      using Cons.IH [of acc "i - sb_len b"] Cons.prems by (simp add: sbufGetLength_def)
  next
    case False
    let ?k = "min (n - length acc) (sb_len b - i)"
    have bound: "curpos b + i + ?k \<le> length (sb_buf b)" using False sbuf_okD [OF b] by linarith
    have "take ?k (drop i (payload b)) = take ?k (drop (curpos b + i) (sb_buf b))"
      by (simp add: payload_def drop_take add.commute min_def)
    then have rd: "mem_read (sb_buf b) (curpos b + i) ?k = Some (take ?k (drop i (payload b)))"
      using bound by (simp add: mem_read_def)
    have len: "length (take ?k (drop i (payload b))) = ?k" by simp
    show ?thesis
    proof (cases "n - length acc \<le> sb_len b - i")
      case True
      then show ?thesis
        using False rd len Cons.prems(2) by (simp add: sbufGetLength_def)
    next
      case more: False
      then have k: "?k = sb_len b - i" by simp
      have "viewBytesLoop bs 0 (acc @ drop i (payload b)) n =
          Some ((acc @ drop i (payload b)) @
            take (n - length (acc @ drop i (payload b))) (drop 0 (concat (map payload bs))))"
        using Cons.prems more by (intro Cons.IH) simp_all
      then show ?thesis
        using False rd k more Cons.prems(2) by (simp add: sbufGetLength_def)
    qed
  qed
qed

lemma viewBytesAt_ok:
  assumes "stream_ok D s" "0 < n" "at + n \<le> bs_size s"
  shows "bufferstreamViewBytesAt D s at n = Some (take n (drop at (stream_bytes D s)))"
proof -
  have ok: "\<forall>b\<in>set (dq_elems D (bs_q s)). sbuf_ok b" and size: "bs_size s = length (stream_bytes D s)" "bs_size s \<le> UINT32_MAX"
    using assms(1) by (simp_all add: stream_ok_def)
  have "viewBytesLoop (dq_elems D (bs_q s)) at [] n = Some (take n (drop at (stream_bytes D s)))"
    using viewBytesLoop_eq [OF ok, of "[]" n at] assms(2,3) size(1) by (simp add: stream_bytes_def)
  moreover have "n \<le> sub64 (bs_size s) at" using assms(3) size(2) by simp
  ultimately show ?thesis using assms(2,3) by (simp add: bufferstreamViewBytesAt_def)
qed

text \<open>Reading a prefix and returning its buffer to the pool.\<close>

lemma discard_ok:
  assumes "stream_ok D s" "pool_ok p" "0 < n" "n \<le> bs_size s" "bs_size s \<le> STREAM_SAFE_MAX"
  shows "\<exists>r s' p' q. bufferstreamReadExact D s p n = Some (r, s', p') \<and> bufferpoolReuseBuffer p' r = Some q \<and>
    stream_ok D s' \<and> pool_ok q \<and> stream_bytes D s' = drop n (stream_bytes D s)"
proof -
  obtain r s' p' where r: "bufferstreamReadExact D s p n = Some (r, s', p')" "sbuf_ok r" "stream_ok D s'"
    "stream_bytes D s' = drop n (stream_bytes D s)" "pool_ok p'"
    using readExact_ok [OF assms] by blast
  moreover obtain q where "bufferpoolReuseBuffer p' r = Some q" "pool_ok q" using reuse_ok [OF r(5,2)] by blast
  ultimately show ?thesis by blast
qed

lemma init_empty_ok:
  assumes "u \<le> 65504"
  shows "stream_ok D (bufferstreamInitEmpty D u)" "stream_bytes D (bufferstreamInitEmpty D u) = []"
    "bs_size (bufferstreamInitEmpty D u) = 0"
  using empty_ok [OF assms] by (simp_all add: stream_ok_def bufferstreamInitEmpty_def)

lemma charge_loop_le: "charge \<le> SIZE_MAX \<Longrightarrow> charge_loop charge bs \<le> SIZE_MAX"
  by (induction bs arbitrary: charge) (simp_all add: Let_def)

lemma allocation_charge: "sbuf_ok b \<Longrightarrow> sbufGetAllocationCharge b = sb_capacity b + 64"
  using sbuf_okD [of b] by (simp add: sbufGetAllocationCharge_def sbuf_getters sbuf_consts)

text \<open>Compaction keeps the bytes and brings the storage under the larger of the caller's
  threshold and one best-fit buffer.\<close>

lemma settle_ok:
  assumes s: "stream_ok D s" and p: "pool_ok p" and safe: "bs_size s \<le> STREAM_SAFE_MAX"
  shows "\<exists>s' p'. bufferstreamSettleRetained D s p limit = Some (True, s', p') \<and> stream_ok D s' \<and>
    pool_ok p' \<and> stream_bytes D s' = stream_bytes D s \<and>
    (stream_bytes D s = [] \<longrightarrow> dq_elems D (bs_q s') = []) \<and>
    (\<exists>b q. stream_bytes D s \<noteq> [] \<longrightarrow>
       bufferpoolGetBestFit p (bs_size s) (bufferpoolGetLargeBufferPadding p) = Some (b, q) \<and>
       bufferstreamGetCharge D s' \<le> max limit (sbufGetAllocationCharge b))"
proof (cases "bs_size s = 0")
  case True
  then show ?thesis
    using stream_empty_ok [OF s p] s
    by (auto simp: bufferstreamSettleRetained_def bufferstreamGetBufLen_def stream_ok_def)
next
  case False
  let ?w = "bufferpoolGetLargeBufferPadding p" and ?n = "bs_size s"
  have w: "?w \<le> 65504"
    using pad_bound [OF tier_okD(5,7) [OF pool_okD(4) [OF p]]] by (simp add: bufferpoolGetLargeBufferPadding_def)
  have fits: "sbuf_fits ?n ?w" "?w \<le> UINT16_MAX" using safe_fits [OF safe w] w by simp_all
  obtain b q where b: "bufferpoolGetBestFit p ?n ?w = Some (b, q)" "fresh_buf ?n ?w b" "pool_ok q"
    "pool_geometry q = pool_geometry p" "(sb_capacity b - l_pad b, l_pad b) = fit_geometry p ?n ?w"
    using getBestFit_ok [OF p fits] by blast
  obtain fi where fi: "bufferpoolQueryBestFit p ?n ?w = Some (Some fi)"
    "(fit_payload_capacity fi, fit_left_padding fi) = fit_geometry p ?n ?w"
    "fit_allocation_charge fi = fit_payload_capacity fi + fit_left_padding fi + 64"
    using queryBestFit_eq [OF p fits] by blast
  note B = fresh_bufD [OF b(2)]
  have charge: "fit_allocation_charge fi = sbufGetAllocationCharge b"
  proof -
    have "fit_payload_capacity fi = sb_capacity b - l_pad b" "fit_left_padding fi = l_pad b"
      using b(5) fi(2) by (metis prod.inject)+
    then show ?thesis using fi(3) sbuf_okD(4) [OF B(1)] by (simp add: allocation_charge [OF B(1)])
  qed
  note unf = bufferstreamSettleRetained_def bufferstreamGetBufLen_def
  show ?thesis
  proof (cases "bufferstreamGetCharge D s \<le> max limit (fit_allocation_charge fi)")
    case True
    then have "bufferstreamSettleRetained D s p limit = Some (True, s, p)"
      using False fi(1) by (simp add: unf not_less max_def)
    then show ?thesis using s p b(1) True False charge by (auto simp: stream_ok_def)
  next
    case big: False
    let ?c = "sbuf_append b (stream_bytes D s)"
    have n: "?n = length (stream_bytes D s)" using s by (simp add: stream_ok_def)
    obtain s1 p1 where m: "bufferstreamMoveExactBytesTo D s q b ?n = Some (s1, p1, ?c)" "stream_ok D s1"
      "stream_bytes D s1 = []" "pool_ok p1" "bs_use_left_padding s1 = bs_use_left_padding s"
      using moveExactBytesTo_ok [OF s b(3) B(1) _ B(6)] n by auto
    obtain s2 p2 where e: "bufferstreamEmpty D s1 p1 = Some (s2, p2)" "stream_ok D s2"
      "stream_bytes D s2 = []" "pool_ok p2" "dq_elems D (bs_q s2) = []"
      using stream_empty_ok [OF m(2,4)] by blast
    have room: "curpos b + sb_len b + length (stream_bytes D s) \<le> sb_capacity b" using B(6) n by simp
    note C = sbuf_append_obs [OF B(1) room]
    have s2: "bs_size s2 = 0" using e by (simp add: stream_ok_def)
    have sl: "sb_len ?c \<le> UINT32_MAX" using sbuf_okD(2,3) [OF C(1)] by simp
    obtain s3 p3 where c: "bufferstreamPush D s2 p2 ?c = Some (s3, p3)" "stream_ok D s3"
      "stream_bytes D s3 = stream_bytes D s2 @ payload ?c" "pool_ok p3"
      using push_ok [OF e(2,4) C(1)] s2 sl by auto
    have "s3 = bufferstreamEnqueueValidated D s2 ?c (sb_len ?c)"
      using c(1) e(5) s2 sl sbuf_okD(8) [OF C(1)]
      by (simp add: bufferstreamPush_def bufferstreamValidatePush_def bufferstreamCheckSbufByteCount_def
          sbufGetLength_def)
    then have "dq_elems D (bs_q s3) = [?c]" using e(5) by (simp add: bufferstreamEnqueueValidated_def)
    moreover have "sbufGetAllocationCharge ?c = sbufGetAllocationCharge b" "sbufGetAllocationCharge b \<le> SIZE_MAX"
      using C(1,5) sbuf_okD(2) [OF B(1)] by (simp_all add: allocation_charge B(1))
    ultimately have ch: "bufferstreamGetCharge D s3 = sbufGetAllocationCharge b"
      by (simp add: bufferstreamGetCharge_def Let_def)
    have "bufferstreamSettleRetained D s p limit = Some (True, s3, p3)"
      using False big fi(1) b(1) m(1) e(1) c(1) safe by (simp add: unf Let_def not_le)
    then show ?thesis using c e(3) C(2) B(2) b(1) ch False n by auto
  qed
qed

end

section \<open>Properties\<close>

definition sample_stream :: "sbuf list buffer_stream" where
  "sample_stream = \<lparr>bs_q = [sbuf_append sbuf_sample [71, 69], sbuf_append sbuf_sample [84, 13, 10]],
     bs_size = 5, bs_use_left_padding = 0\<rparr>"

lemma sample_append_ok:
  assumes "length xs \<le> 64"
  shows "sbuf_ok (sbuf_append sbuf_sample xs)" "payload (sbuf_append sbuf_sample xs) = xs"
    "sb_len (sbuf_append sbuf_sample xs) = length xs"
proof -
  have "curpos sbuf_sample + sb_len sbuf_sample + length xs \<le> sb_capacity sbuf_sample"
    using assms by (simp add: sbuf_sample_def)
  from sbuf_append_obs [OF sbuf_sample_ok this] show "sbuf_ok (sbuf_append sbuf_sample xs)"
    "payload (sbuf_append sbuf_sample xs) = xs" "sb_len (sbuf_append sbuf_sample xs) = length xs"
    using payload_sample by (simp_all add: sbuf_sample_def)
qed

lemma sample_stream_ok:
  "stream_ok list_deque sample_stream" "stream_bytes list_deque sample_stream = [71, 69, 84, 13, 10]"
  by (simp_all add: stream_ok_def stream_bytes_def sample_stream_def list_deque_def sample_append_ok)

text \<open>C5. The stream is a queue of bytes: pushing any buffers and then reading any exact lengths
  never fails, and the reads return the consecutive segments of the pushed byte sequence, the
  same for every way the bytes were cut into buffers.\<close>

theorem stream_chunking_irrelevant:
  assumes "sbuf_deque D" "stream_ok D s" "pool_ok p" "\<forall>b\<in>set bs \<union> set cs. sbuf_ok b"
    "concat (map payload bs) = concat (map payload cs)"
    "length (stream_bytes D s) + length (concat (map payload bs)) \<le> STREAM_SAFE_MAX"
    "\<forall>n\<in>set ns. 0 < n"
    "sum_list ns \<le> length (stream_bytes D s) + length (concat (map payload bs))"
  shows "\<exists>st sr t u tr v. push_all (stream_push D) (s, p) bs = Some st \<and>
    pull_all (stream_pull D) st ns = Some (sr, t) \<and>
    push_all (stream_push D) (s, p) cs = Some u \<and> pull_all (stream_pull D) u ns = Some (tr, v) \<and>
    map payload sr = map payload tr \<and>
    map payload sr = segments (stream_bytes D s @ concat (map payload bs)) ns"
  using sbuf_deque.stream_chunking [OF assms(1), of "(s, p)" bs cs ns] assms(2-8)
  by fastforce

theorem stream_chunking_irrelevant_witness:
  "\<exists>st sr t. push_all (stream_push list_deque) (sample_stream, sample_pool)
      [sbuf_append sbuf_sample [1], sbuf_append sbuf_sample [2, 3]] = Some st \<and>
    pull_all (stream_pull list_deque) st [4, 3] = Some (sr, t) \<and>
    map payload sr = [[71, 69, 84, 13], [10, 1, 2]]"
  using stream_chunking_irrelevant [OF list_stream.sbuf_deque_axioms sample_stream_ok(1) sample_pool_ok,
      of "[sbuf_append sbuf_sample [1], sbuf_append sbuf_sample [2, 3]]" "[sbuf_append sbuf_sample [1, 2, 3]]"
         "[4, 3]"]
  by (auto simp: sample_append_ok sample_stream_ok)

text \<open>Views are random access into the byte sequence: viewing a range copies exactly those
  bytes across buffer boundaries, viewing one byte returns it, and neither aborts in range.\<close>

lemma stream_views:
  assumes "sbuf_deque D" "stream_ok D s" "0 < n" "at + n \<le> bs_size s"
  shows "bufferstreamViewBytesAt D s at n = Some (take n (drop at (stream_bytes D s))) \<and>
    bufferstreamViewByteAt D s at = Some (stream_bytes D s ! at)"
proof -
  have ok: "\<forall>b\<in>set (dq_elems D (bs_q s)). sbuf_ok b" and size: "bs_size s = length (stream_bytes D s)"
    "bs_size s \<le> UINT32_MAX"
    using assms(2) by (simp_all add: stream_ok_def)
  have "viewBytesLoop (dq_elems D (bs_q s)) at [] n = Some (take n (drop at (stream_bytes D s)))"
    using sbuf_deque.viewBytesLoop_eq [OF assms(1) ok, of "[]" n at] assms(3,4) size(1)
    by (simp add: stream_bytes_def)
  moreover have "viewByteLoop (dq_elems D (bs_q s)) at = Some (stream_bytes D s ! at)"
    using sbuf_deque.viewByteLoop_eq [OF assms(1) ok, of at] assms(3,4) size(1)
    by (simp add: stream_bytes_def)
  moreover have "stream_bytes D s \<noteq> []" "n \<le> length (stream_bytes D s) - at"
    using assms(3,4) size(1) by auto
  ultimately show ?thesis
    using assms(3,4) size
    by (auto simp: bufferstreamViewBytesAt_def bufferstreamViewByteAt_def guard_simps)
qed

text \<open>The line-end search returns the position of the first CR LF in the buffered bytes,
  wherever the buffer boundaries fall, and reports absence exactly when there is none.\<close>

lemma stream_find_crlf_first:
  assumes "sbuf_deque D" "stream_ok D s"
  shows "case bufferstreamFindCRLF D s of
      Some (Some i) \<Rightarrow> first_occurrence [13, 10] (stream_bytes D s) i
    | Some None \<Rightarrow> \<forall>i. \<not> occurs_at [13, 10] (stream_bytes D s) i
    | None \<Rightarrow> False"
proof (cases "bs_size s < 2")
  case True
  then have "\<not> occurs_at [13, 10] (stream_bytes D s) i" for i
    using occurs_at_bound [of "[13, 10]" "stream_bytes D s" i] assms(2) by (auto simp: stream_ok_def)
  then show ?thesis using True by (simp add: bufferstreamFindCRLF_def bufferstreamGetBufLen_def)
next
  case False
  then have "bufferstreamFindCRLF D s =
      Some (case scan_bytes crlf_step 0 (stream_bytes D s) (0, 0) of Inl r \<Rightarrow> Some r | Inr _ \<Rightarrow> None)"
    using assms(2) scan_bufs_eq [of "dq_elems D (bs_q s)" crlf_step 0 "(0, 0)"]
    by (simp add: bufferstreamFindCRLF_def bufferstreamGetBufLen_def stream_ok_def stream_bytes_def)
  then show ?thesis using crlf.scan_first [of "stream_bytes D s"] by (auto split: sum.splits)
qed

text \<open>C31. The header-end search returns the position just after the first CR LF CR LF, also
  when partial matches overlap and across buffer boundaries.\<close>

theorem stream_find_header_end_first:
  assumes "sbuf_deque D" "stream_ok D s"
  shows "case bufferstreamFindDoubleCRLF D s of
      Some (Some e) \<Rightarrow> \<exists>i. first_occurrence [13, 10, 13, 10] (stream_bytes D s) i \<and> e = i + 4
    | Some None \<Rightarrow> \<forall>i. \<not> occurs_at [13, 10, 13, 10] (stream_bytes D s) i
    | None \<Rightarrow> False"
proof (cases "bs_size s < 4")
  case True
  then have "\<not> occurs_at [13, 10, 13, 10] (stream_bytes D s) i" for i
    using occurs_at_bound [of "[13, 10, 13, 10]" "stream_bytes D s" i] assms(2) by (auto simp: stream_ok_def)
  then show ?thesis using True by (simp add: bufferstreamFindDoubleCRLF_def bufferstreamGetBufLen_def)
next
  case False
  then have e: "bufferstreamFindDoubleCRLF D s =
      Some (case scan_bytes double_crlf_step 0 (stream_bytes D s) (0, 0) of Inl r \<Rightarrow> Some r | Inr _ \<Rightarrow> None)"
    using assms(2) scan_bufs_eq [of "dq_elems D (bs_q s)" double_crlf_step 0 "(0, 0)"]
    by (simp add: bufferstreamFindDoubleCRLF_def bufferstreamGetBufLen_def stream_ok_def stream_bytes_def)
  have "u64 (i + 4) = i + 4" if "first_occurrence [13, 10, 13, 10] (stream_bytes D s) i" for i
    using occurs_at_bound [of "[13, 10, 13, 10]" "stream_bytes D s" i] that assms(2)
    by (simp add: first_occurrence_def stream_ok_def)
  then show ?thesis using double_crlf.scan_first [of "stream_bytes D s"] e by (auto split: sum.splits)
qed

definition header_stream :: "sbuf list buffer_stream" where
  "header_stream = sample_stream\<lparr>bs_q := [sbuf_append sbuf_sample [13, 10, 13], sbuf_append sbuf_sample [13, 10, 13, 10, 65]],
     bs_size := 8\<rparr>"

lemma header_stream_ok:
  "stream_ok list_deque header_stream" "stream_bytes list_deque header_stream = [13, 10, 13, 13, 10, 13, 10, 65]"
  by (simp_all add: stream_ok_def stream_bytes_def header_stream_def sample_stream_def list_deque_def sample_append_ok)

theorem stream_find_header_end_first_witness:
  "bufferstreamFindDoubleCRLF list_deque header_stream = Some (Some 7) \<and>
    first_occurrence [13, 10, 13, 10] (stream_bytes list_deque header_stream) 3"
proof -
  have "bufferstreamFindDoubleCRLF list_deque header_stream = Some (Some 7)"
    by (simp add: bufferstreamFindDoubleCRLF_def bufferstreamGetBufLen_def header_stream_def sample_stream_def
        list_deque_def sbufRead_eq sample_append_ok sbufGetLength_def double_crlf_step_def)
  with stream_find_header_end_first [OF list_stream.sbuf_deque_axioms header_stream_ok(1)]
  show ?thesis by simp
qed

text \<open>Settling retained storage never fails and never changes the buffered bytes. It drops
  all storage of an empty stream, and otherwise leaves a storage charge of at most the larger of
  the caller's threshold and the charge of one best-fit buffer for the whole content.\<close>

lemma stream_settle_bounded:
  assumes "sbuf_deque D" "stream_ok D s" "pool_ok p" "bs_size s \<le> STREAM_SAFE_MAX"
    "bufferpoolGetBestFit p (bs_size s) (bufferpoolGetLargeBufferPadding p) = Some (b, q)"
  shows "\<exists>s' p'. bufferstreamSettleRetained D s p limit = Some (True, s', p') \<and> stream_ok D s' \<and>
    pool_ok p' \<and> stream_bytes D s' = stream_bytes D s \<and>
    (if stream_bytes D s = [] then dq_elems D (bs_q s') = []
     else bufferstreamGetCharge D s' \<le> max limit (sbufGetAllocationCharge b))"
  using sbuf_deque.settle_ok [OF assms(1-4), of limit] assms(5) by auto

end
