(* ===== verification/Queue_Laws.thy ===== *)
theory Queue_Laws
  imports Buffer_Queue Stream_Laws
begin

text \<open>
  Correctness of the buffer queue: first-in first-out order, transactional insertion, cached
  totals, and exact budget accounting. The last part runs any number of queues and reservations
  that share budgets and shows that usage is always the sum of what the owners hold, so the
  underflow abort of \<open>bufferbudgetRelease\<close> is never reached.
\<close>

section \<open>One queue\<close>

definition queue_ok :: "('q, sbuf) deque_ops \<Rightarrow> 'q buffer_queue \<Rightarrow> bool" where
  "queue_ok D q \<longleftrightarrow> (\<forall>b\<in>set (dq_elems D (bq_q q)). sbuf_ok b) \<and>
     total_len q = sum_list (map sb_len (dq_elems D (bq_q q))) \<and>
     total_charge q = sum_list (map (\<lambda>b. cost_charge (entry_cost b)) (dq_elems D (bq_q q))) \<and>
     total_len q \<le> SIZE_MAX \<and> total_charge q \<le> SIZE_MAX"

definition queue_cost :: "'q buffer_queue \<Rightarrow> buffer_budget_cost" where
  "queue_cost q = \<lparr>cost_bytes = total_len q, cost_charge = total_charge q\<rparr>"

definition bq_account :: "'q buffer_queue \<Rightarrow> account" where
  "bq_account q = (bq_budget q, queue_cost q)"

definition rv_accounts :: "buffer_budget_reservation option \<Rightarrow> account list" where
  "rv_accounts v = (case v of None \<Rightarrow> [] | Some v \<Rightarrow> [rv_account v])"

lemma rv_accounts_simps [simp]:
  "rv_accounts None = []" "rv_accounts (Some v) = [rv_account v]"
  by (simp_all add: rv_accounts_def)

lemma queue_cost_simps [simp]:
  "cost_bytes (queue_cost q) = total_len q" "cost_charge (queue_cost q) = total_charge q"
  by (simp_all add: queue_cost_def)

text \<open>Whether an insertion is accepted.\<close>

definition admissible ::
  "('q, sbuf) deque_ops \<Rightarrow> budgets \<Rightarrow> 'q buffer_queue \<Rightarrow> sbuf \<Rightarrow> buffer_budget_reservation option \<Rightarrow> bool" where
  "admissible D B q b v \<longleftrightarrow>
     total_len q + cost_bytes (entry_cost b) \<le> SIZE_MAX \<and>
     total_charge q + cost_charge (entry_cost b) \<le> SIZE_MAX \<and>
     length (dq_elems D (bq_q q)) < 576460752303423487 \<and>
     (v \<noteq> None \<or> (case bq_budget q of None \<Rightarrow> True | Some r \<Rightarrow> affords (B r) (entry_cost b)))"

text \<open>The precondition of an insertion that moves a reservation into the queue.\<close>

definition reserved_for :: "'q buffer_queue \<Rightarrow> sbuf \<Rightarrow> buffer_budget_reservation \<Rightarrow> bool" where
  "reserved_for q b v \<longleftrightarrow> bq_budget q \<noteq> None \<and> rv_budget v = bq_budget q \<and> rv_cost v = entry_cost b"

lemma release_spend:
  assumes "budget_ok b" "affords b c"
  shows "bufferbudgetRelease (spend b c) c = Some b"
proof -
  have "budget_ok (spend b c)" using assms by (auto simp: budget_ok_def spend_def affords_def)
  then show ?thesis by (simp add: release_eq spend_def)
qed

lemma insertAdmit_eq:
  assumes "\<forall>r. budget_ok (B r)" "\<forall>w. v = Some w \<longrightarrow> reserved_for q b w"
  shows "insertAdmit B q (entry_cost b) v =
    Some (if v \<noteq> None \<or> bq_budget q = None then (True, B)
          else if affords (B (the (bq_budget q))) (entry_cost b)
          then (True, B(the (bq_budget q) := spend (B (the (bq_budget q))) (entry_cost b)))
          else (False, B))"
  using assms
  by (cases v; cases "bq_budget q")
     (auto simp: insertAdmit_def reserved_for_def budgetTryAcquireAt_def acquire_eq)

context sbuf_deque
begin

lemma reserveExtra_one:
  "bufferqueueReserveExtra D q 1 =
     (if length (dq_elems D (bq_q q)) < 576460752303423487
      then (True, q\<lparr>bq_q := snd (dq_reserve D (bq_q q) (length (dq_elems D (bq_q q)) + 1))\<rparr>)
      else (False, q))"
proof -
  have c: "PTRDIFF_MAX div (2 * 8) = 576460752303423487" by (simp add: PTRDIFF_MAX_def)
  show ?thesis
  proof (cases "length (dq_elems D (bq_q q)) < 576460752303423487")
    case True
    then have "fst (dq_reserve D (bq_q q) (length (dq_elems D (bq_q q)) + 1))" by simp
    with True show ?thesis
      unfolding bufferqueueReserveExtra_def c by (simp add: Let_def split_def)
  next
    case False
    then show ?thesis
      unfolding bufferqueueReserveExtra_def c
      by (cases "length (dq_elems D (bq_q q)) = 576460752303423487") (simp_all add: Let_def)
  qed
qed

lemma takeBuffer_ok:
  assumes "sbuf_ok b"
  shows "\<exists>d. bufferqueueTakeBuffer b = Some d \<and> sbuf_ok d \<and> payload d = payload b \<and>
    entry_cost d = entry_cost b"
  using sbufDuplicate_ok [OF assms] sbuf_okD(8) [OF assms]
  by (auto simp: bufferqueueTakeBuffer_def debugBufferWontBeReused_def entry_cost_def)

text \<open>A refused insertion leaves budgets, queue, buffer and reservation as they were.\<close>

lemma insert_refused:
  assumes "\<forall>r. budget_ok (B r)" "sbuf_ok b" "\<forall>w. v = Some w \<longrightarrow> reserved_for q b w"
    "\<not> admissible D B q b v" "queue_ok D q"
  shows "bufferqueueTryInsert D B q b front v = Some (False, B, q, b, v)"
proof -
  let ?c = "entry_cost b"
  have s: "sub64 SIZE_MAX (cost_charge ?c) = SIZE_MAX - cost_charge ?c"
    "sub64 SIZE_MAX (cost_bytes ?c) = SIZE_MAX - cost_bytes ?c"
    "cost_charge ?c \<le> SIZE_MAX" "cost_bytes ?c \<le> SIZE_MAX"
    using entry_cost_bounds [OF assms(2)] by simp_all
  show ?thesis
  proof (cases "total_charge q > SIZE_MAX - cost_charge ?c \<or> total_len q > SIZE_MAX - cost_bytes ?c")
    case True
    then show ?thesis unfolding bufferqueueTryInsert_def getCost_eq [OF assms(2)] option.case s(1,2) by simp
  next
    case False
    then have fits: "total_len q + cost_bytes ?c \<le> SIZE_MAX" "total_charge q + cost_charge ?c \<le> SIZE_MAX"
      using s(3,4) by linarith+
    consider (poor) "v = None" "bq_budget q \<noteq> None" "\<not> affords (B (the (bq_budget q))) ?c"
      | (full) "\<not> length (dq_elems D (bq_q q)) < 576460752303423487"
          "v \<noteq> None \<or> bq_budget q = None \<or> affords (B (the (bq_budget q))) ?c"
      using assms(4) fits by (auto simp: admissible_def split: option.splits)
    then show ?thesis
    proof cases
      case poor
      then show ?thesis
        unfolding bufferqueueTryInsert_def getCost_eq [OF assms(2)] option.case s(1,2)
          insertAdmit_eq [OF assms(1,3)] using False by auto
    next
      case full
      have r: "\<And>r. affords (B r) ?c \<Longrightarrow> budgetReleaseAt (B(r := spend (B r) ?c)) r ?c = Some B"
        using assms(1) by (simp add: budgetReleaseAt_def release_spend)
      show ?thesis
        unfolding bufferqueueTryInsert_def getCost_eq [OF assms(2)] option.case s(1,2)
          insertAdmit_eq [OF assms(1,3)] reserveExtra_one
        using False full r by (cases v; cases "bq_budget q") simp_all
    qed
  qed
qed

text \<open>An accepted one appends or prepends a buffer with the same payload and pays for it.\<close>

lemma insert_accepted:
  assumes B: "\<forall>r. budget_ok (B r)" and b: "sbuf_ok b" and v: "\<forall>w. v = Some w \<longrightarrow> reserved_for q b w"
    and adm: "admissible D B q b v" and q: "queue_ok D q"
  shows "\<exists>B' q' d. bufferqueueTryInsert D B q b front v =
      Some (True, B', q', d, map_option (\<lambda>_. empty_reservation) v) \<and>
    sbuf_ok d \<and> payload d = payload b \<and> entry_cost d = entry_cost b \<and> queue_ok D q' \<and>
    bq_budget q' = bq_budget q \<and>
    dq_elems D (bq_q q') = (if front then d # dq_elems D (bq_q q) else dq_elems D (bq_q q) @ [d]) \<and>
    (\<forall>r. budget_ok (B' r)) \<and>
    balanced B (bq_account q # rv_accounts v) B'
      (bq_account q' # rv_accounts (map_option (\<lambda>_. empty_reservation) v))"
proof -
  let ?c = "entry_cost b" and ?es = "dq_elems D (bq_q q)"
  obtain d where d: "bufferqueueTakeBuffer b = Some d" "sbuf_ok d" "payload d = payload b"
    "entry_cost d = entry_cost b" using takeBuffer_ok [OF b] by blast
  have fits: "total_len q + cost_bytes ?c \<le> SIZE_MAX" "total_charge q + cost_charge ?c \<le> SIZE_MAX"
    "length ?es < 576460752303423487"
    using adm by (simp_all add: admissible_def)
  have s: "sub64 SIZE_MAX (cost_charge ?c) = SIZE_MAX - cost_charge ?c"
    "sub64 SIZE_MAX (cost_bytes ?c) = SIZE_MAX - cost_bytes ?c"
    using entry_cost_bounds [OF b] by simp_all
  have small: "\<not> (total_charge q > SIZE_MAX - cost_charge ?c \<or> total_len q > SIZE_MAX - cost_bytes ?c)"
    using fits by linarith
  define B' where "B' = (if v \<noteq> None \<or> bq_budget q = None then B
    else B(the (bq_budget q) := spend (B (the (bq_budget q))) ?c))"
  have admit: "insertAdmit B q ?c v = Some (True, B')"
    using adm unfolding insertAdmit_eq [OF B v] B'_def by (auto simp: admissible_def)
  define rq where "rq = snd (dq_reserve D (bq_q q) (length ?es + 1))"
  define q' where "q' = q\<lparr>bq_q := (if front then dq_push_front D rq d else dq_push_back D rq d),
    total_len := total_len q + cost_bytes ?c, total_charge := total_charge q + cost_charge ?c\<rparr>"
  have run: "bufferqueueTryInsert D B q b front v =
      Some (True, B', q', d, map_option (\<lambda>_. empty_reservation) v)"
    unfolding bufferqueueTryInsert_def getCost_eq [OF b] option.case s admit reserveExtra_one
    using small fits d queueCharge_eq(2) [OF d(2)] by (simp add: q'_def rq_def)
  have es: "dq_elems D (bq_q q') = (if front then d # ?es else ?es @ [d])"
    by (simp add: q'_def rq_def)
  have "queue_ok D q'"
    using q d(2,4) fits es unfolding queue_ok_def
    by (cases front) (auto simp: q'_def entry_cost_def)
  moreover have "\<forall>r. budget_ok (B' r)"
    using B adm by (auto simp: B'_def admissible_def budget_ok_def spend_def affords_def)
  moreover have "balanced B (bq_account q # rv_accounts v) B'
      (bq_account q' # rv_accounts (map_option (\<lambda>_. empty_reservation) v))"
  proof (rule balancedI)
    fix r
    have m: "share f r (bq_account q') = share f r (bq_account q) + share f r (bq_budget q, ?c)"
      if "f = cost_bytes \<or> f = cost_charge" for f
      using that by (auto simp: share_def bq_account_def q'_def)
    show "limits (B' r) = limits (B r)" by (simp add: B'_def spend_def)
    show "cost_bytes (used (B' r)) + held cost_bytes r (bq_account q # rv_accounts v) = cost_bytes (used (B r)) +
        held cost_bytes r (bq_account q' # rv_accounts (map_option (\<lambda>_. empty_reservation) v))"
      using v m by (cases v; cases "bq_budget q")
        (auto simp: B'_def spend_def reserved_for_def rv_account_def empty_reservation_def)
    show "cost_charge (used (B' r)) + held cost_charge r (bq_account q # rv_accounts v) = cost_charge (used (B r)) +
        held cost_charge r (bq_account q' # rv_accounts (map_option (\<lambda>_. empty_reservation) v))"
      using v m by (cases v; cases "bq_budget q")
        (auto simp: B'_def spend_def reserved_for_def rv_account_def empty_reservation_def)
  qed
  ultimately show ?thesis using run d es by (auto simp: q'_def)
qed

text \<open>Removal takes the oldest buffer and its cost out of the cached totals.\<close>

lemma pop_empty:
  "dq_elems D (bq_q q) = [] \<Longrightarrow> bufferqueuePop D B q v = Some (None, B, q, v)"
  by (simp add: bufferqueuePop_def)

lemma pop_first:
  assumes q: "queue_ok D q" and B: "covered B [bq_account q]" and es: "dq_elems D (bq_q q) = b # bs"
    and v: "\<forall>w. v = Some w \<longrightarrow> bq_budget q \<noteq> None \<and> rv_budget w = None"
  shows "\<exists>B' q' v'. bufferqueuePop D B q v = Some (Some b, B', q', v') \<and> queue_ok D q' \<and>
    bq_budget q' = bq_budget q \<and> dq_elems D (bq_q q') = bs \<and> (\<forall>r. budget_ok (B' r)) \<and>
    (v' = None \<longleftrightarrow> v = None) \<and> (\<forall>w. v' = Some w \<longrightarrow> reserved_for q' b w) \<and>
    balanced B (bq_account q # rv_accounts v) B' (bq_account q' # rv_accounts v')"
proof -
  let ?c = "entry_cost b"
  have b: "sbuf_ok b" using q es by (simp add: queue_ok_def)
  obtain rest where pull: "dq_pull_front D (bq_q q) = (b, rest)" "dq_elems D rest = bs"
    using pull_front_Cons [OF es] by blast
  have tot: "total_len q = cost_bytes ?c + sum_list (map sb_len bs)"
    "total_charge q = cost_charge ?c + sum_list (map (\<lambda>b. cost_charge (entry_cost b)) bs)"
    "total_len q \<le> SIZE_MAX" "total_charge q \<le> SIZE_MAX"
    using q es by (simp_all add: queue_ok_def) (simp add: entry_cost_def)
  define q' where "q' = q\<lparr>bq_q := rest, total_len := total_len q - cost_bytes ?c,
    total_charge := total_charge q - cost_charge ?c\<rparr>"
  have cost: "\<lparr>cost_bytes = sbufGetLength b, cost_charge = cost_charge ?c\<rparr> = ?c" "sbufGetLength b = cost_bytes ?c"
    "\<lparr>cost_bytes = cost_bytes ?c, cost_charge = cost_charge ?c\<rparr> = ?c"
    by (simp_all add: entry_cost_def sbufGetLength_def)
  have "cost_bytes ?c \<le> total_len q" "cost_charge ?c \<le> total_charge q" using tot by simp_all
  then have start: "bufferqueuePop D B q v = (case bq_budget q of
          None \<Rightarrow> Some (Some b, B, q', v)
        | Some r \<Rightarrow> (case v of
            Some v \<Rightarrow> Some (Some b, B, q', Some \<lparr>rv_budget = Some r, rv_cost = ?c\<rparr>)
          | None \<Rightarrow> do { B \<leftarrow> budgetReleaseAt B r ?c; Some (Some b, B, q', None) }))"
    using es pull queueCharge_eq(2) [OF b] tot(3,4) cost
    by (cases "bq_budget q"; cases v) (simp_all add: bufferqueuePop_def q'_def cost(3))
  have ok: "queue_ok D q'" "bq_budget q' = bq_budget q" "dq_elems D (bq_q q') = bs"
    using q tot pull es by (simp_all add: queue_ok_def q'_def)
  have diff: "share cost_bytes r (bq_account q') + share cost_bytes r (bq_budget q, ?c) = share cost_bytes r (bq_account q)"
    "share cost_charge r (bq_account q') + share cost_charge r (bq_budget q, ?c) = share cost_charge r (bq_account q)" for r
    using tot by (auto simp: share_def bq_account_def q'_def)
  show ?thesis
  proof (cases "bq_budget q")
    case None
    then have "v = None" using v by (cases v) auto
    then show ?thesis using start None ok coveredD(1) [OF B] by (simp add: balanced_def bq_account_def)
  next
    case (Some r)
    show ?thesis
    proof (cases v)
      case None
      have "covered B [(Some r, ?c)]"
        unfolding covered_def
      proof
        fix x
        have "held cost_bytes x [(Some r, ?c)] \<le> held cost_bytes x [bq_account q]"
          "held cost_charge x [(Some r, ?c)] \<le> held cost_charge x [bq_account q]"
          using diff [of x] Some by simp_all
        with coveredD [OF B, of x] show "budget_ok (B x) \<and>
            held cost_bytes x [(Some r, ?c)] \<le> cost_bytes (used (B x)) \<and>
            held cost_charge x [(Some r, ?c)] \<le> cost_charge (used (B x))" by linarith
      qed
      from releaseAt_ok [OF this] obtain B' where B': "budgetReleaseAt B r ?c = Some B'"
        "\<forall>r. budget_ok (B' r)" "balanced B [(Some r, ?c)] B' [(None, zero_cost)]" by blast
      have "balanced B [bq_account q] B' [bq_account q']"
      proof (rule balancedI)
        fix x
        note d = balancedD [OF B'(3), of x]
        show "limits (B' x) = limits (B x)" by (rule d(1))
        show "cost_bytes (used (B' x)) + held cost_bytes x [bq_account q] =
            cost_bytes (used (B x)) + held cost_bytes x [bq_account q']"
          using d(2) diff(1) [of x] Some by simp
        show "cost_charge (used (B' x)) + held cost_charge x [bq_account q] =
            cost_charge (used (B x)) + held cost_charge x [bq_account q']"
          using d(3) diff(2) [of x] Some by simp
      qed
      then show ?thesis using start Some None B' ok by simp
    next
      case (Some w)
      let ?w = "\<lparr>rv_budget = Some r, rv_cost = ?c\<rparr>"
      have w: "share f x (rv_account w) = 0" for f x
        using v Some by (simp add: rv_account_def)
      have "balanced B [bq_account q, rv_account w] B [bq_account q', rv_account ?w]"
        using diff w \<open>bq_budget q = Some r\<close>
        by (intro balancedI) (simp_all add: rv_account_def del: share_simps)
      then show ?thesis
        using start ok v \<open>bq_budget q = Some r\<close> Some coveredD(1) [OF B]
        by (simp add: reserved_for_def)
    qed
  qed
qed

text \<open>Destroying a queue gives its buffers to the pool and its cost back.\<close>

lemma destroy_ok:
  assumes "queue_ok D q" "covered B [bq_account q]" "pool_ok p"
  shows "\<exists>B' p'. bufferqueueDestroy D B p q = Some (B', p', bufferqueueInitEmpty D) \<and> pool_ok p' \<and>
    (\<forall>r. budget_ok (B' r)) \<and> balanced B [bq_account q] B' [bq_account (bufferqueueInitEmpty D)]"
proof -
  obtain p' where p': "(if dq_size D (bq_q q) > 0 then reuse_all p (dq_elems D (bq_q q)) else Some p) = Some p'"
    "pool_ok p'"
    using reuse_all_ok [OF assms(3), of "dq_elems D (bq_q q)"] assms(1,3)
    by (cases "dq_elems D (bq_q q) = []") (auto simp: queue_ok_def)
  have e: "bq_account (bufferqueueInitEmpty D) = (None, zero_cost)"
    by (simp add: bufferqueueInitEmpty_def bq_account_def queue_cost_def zero_cost_def)
  show ?thesis
  proof (cases "bq_budget q")
    case None
    then show ?thesis using p' e coveredD(1) [OF assms(2)]
      by (simp add: bufferqueueDestroy_def bq_account_def balanced_def)
  next
    case (Some r)
    then have a: "bq_account q = (Some r, queue_cost q)" by (simp add: bq_account_def)
    obtain B' where "budgetReleaseAt B r (queue_cost q) = Some B'" "\<forall>r. budget_ok (B' r)"
      "balanced B [(Some r, queue_cost q)] B' [(None, zero_cost)]"
      using releaseAt_ok [of B r "queue_cost q"] assms(2) unfolding a by blast
    then show ?thesis using p' e a Some by (simp add: bufferqueueDestroy_def queue_cost_def)
  qed
qed

lemma init_queue_ok [simp]: "queue_ok D (bufferqueueInitEmpty D)"
  by (simp add: queue_ok_def bufferqueueInitEmpty_def)

end

lemma queue_ok_budget [simp]: "queue_ok D (q\<lparr>bq_budget := r\<rparr>) = queue_ok D q"
  by (simp add: queue_ok_def)

lemma attach_ok:
  assumes "\<forall>r. budget_ok (B r)" "bq_budget q = None"
  shows "\<exists>B' q'. bufferqueueTryAttachBudget B q r = Some (affords (B r) (queue_cost q), B', q') \<and>
    (\<forall>r. budget_ok (B' r)) \<and> (q' = q \<or> q' = q\<lparr>bq_budget := Some r\<rparr>) \<and>
    balanced B [bq_account q] B' [bq_account q']"
proof -
  obtain B' where B': "budgetTryAcquireAt B r (queue_cost q) = Some (affords (B r) (queue_cost q), B')"
    "\<forall>r. budget_ok (B' r)" "if affords (B r) (queue_cost q)
       then balanced B [(None, zero_cost)] B' [(Some r, queue_cost q)] else B' = B"
    using acquireAt_ok [OF assms(1)] by blast
  show ?thesis
  proof (cases "affords (B r) (queue_cost q)")
    case True
    then have "balanced B [bq_account q] B' [bq_account (q\<lparr>bq_budget := Some r\<rparr>)]"
      using B'(3) assms(2) by (simp add: balanced_def bq_account_def queue_cost_def)
    then show ?thesis using True B' assms(2)
      unfolding bufferqueueTryAttachBudget_def queue_cost_def [symmetric] by simp
  next
    case False
    then show ?thesis using B' assms(2)
      unfolding bufferqueueTryAttachBudget_def queue_cost_def [symmetric] by simp
  qed
qed

lemma rebind_ok:
  assumes "covered B [bq_account q]" "bq_budget q = Some old"
  shows "\<exists>B' q'. bufferqueueTryRebindBudget B q r = Some (r = old \<or> affords (B r) (queue_cost q), B', q') \<and>
    (\<forall>r. budget_ok (B' r)) \<and> (q' = q \<or> q' = q\<lparr>bq_budget := Some r\<rparr>) \<and>
    balanced B [bq_account q] B' [bq_account q']"
proof -
  let ?c = "queue_cost q"
  note ok = coveredD(1) [OF assms(1)]
  have a: "bq_account q = (Some old, ?c)" using assms(2) by (simp add: bq_account_def)
  obtain B1 where B1: "budgetTryAcquireAt B r ?c = Some (affords (B r) ?c, B1)"
    "\<forall>r. budget_ok (B1 r)" "if affords (B r) ?c then balanced B [(None, zero_cost)] B1 [(Some r, ?c)] else B1 = B"
    using acquireAt_ok [of B r ?c] ok by blast
  consider (same) "r = old" | (refused) "r \<noteq> old" "\<not> affords (B r) ?c" | (moved) "r \<noteq> old" "affords (B r) ?c"
    by blast
  then show ?thesis
  proof cases
    case same
    then show ?thesis using assms(2) ok by (simp add: bufferqueueTryRebindBudget_def)
  next
    case refused
    then show ?thesis using assms(2) ok B1
      unfolding bufferqueueTryRebindBudget_def queue_cost_def [symmetric] by simp
  next
    case moved
    have b1: "balanced B [(Some old, ?c), (None, zero_cost)] B1 [(Some old, ?c), (Some r, ?c)]"
      using balanced_context [of B "[(None, zero_cost)]" B1 "[(Some r, ?c)]" "[(Some old, ?c)]" "[]"] B1(3) moved
      by simp
    have "covered B [(Some old, ?c), (None, zero_cost)]" using assms(1) a by (simp add: covered_def)
    from balanced_covered [OF b1 this B1(2)] have c1: "covered B1 [(Some old, ?c), (Some r, ?c)]" .
    then have "covered B1 [(Some old, ?c)]" by (rule covered_first)
    from releaseAt_ok [OF this] obtain B' where B': "budgetReleaseAt B1 old ?c = Some B'"
      "\<forall>r. budget_ok (B' r)" "balanced B1 [(Some old, ?c)] B' [(None, zero_cost)]" by blast
    have "balanced B [bq_account q] B' [bq_account (q\<lparr>bq_budget := Some r\<rparr>)]"
    proof (rule balancedI)
      fix x
      have n: "bq_account (q\<lparr>bq_budget := Some r\<rparr>) = (Some r, ?c)" by (simp add: bq_account_def queue_cost_def)
      have "balanced B [(None, zero_cost)] B1 [(Some r, ?c)]" using B1(3) moved by simp
      note d = balancedD [OF this, of x] balancedD [OF B'(3), of x]
      show "limits (B' x) = limits (B x)" using d by simp
      show "cost_bytes (used (B' x)) + held cost_bytes x [bq_account q] =
        cost_bytes (used (B x)) + held cost_bytes x [bq_account (q\<lparr>bq_budget := Some r\<rparr>)]"
        using d(2,5) unfolding n a by simp
      show "cost_charge (used (B' x)) + held cost_charge x [bq_account q] =
        cost_charge (used (B x)) + held cost_charge x [bq_account (q\<lparr>bq_budget := Some r\<rparr>)]"
        using d(3,6) unfolding n a by simp
    qed
    then show ?thesis using assms(2) moved B1(1) B'
      unfolding bufferqueueTryRebindBudget_def queue_cost_def [symmetric] by simp
  qed
qed

section \<open>Owners that share budgets\<close>

text \<open>
  A worker holds queues and reservations in any number, bound to any of its budgets. The
  commands are the calls the nodes make; \<open>owner_allowed\<close> is what \<open>buffer_queue.h\<close> and
  \<open>buffer_budget.h\<close> require of the caller.
\<close>

record 'q owners =
  ow_budgets :: budgets
  ow_pool :: buffer_pool
  ow_queues :: "'q buffer_queue list"
  ow_resvs :: "buffer_budget_reservation list"

datatype owner_cmd =
    Insert nat sbuf bool
  | InsertReserved nat nat sbuf bool
  | Remove nat
  | RemoveReserved nat nat
  | Attach nat budget_ref
  | Rebind nat budget_ref
  | DestroyQueue nat
  | Reserve nat budget_ref sbuf
  | Reduce nat buffer_budget_cost
  | Release nat

fun owner_exec :: "('q, sbuf) deque_ops \<Rightarrow> 'q owners \<Rightarrow> owner_cmd \<Rightarrow> 'q owners option" where
  "owner_exec D s (Insert i b front) = do {
     (_, B, q, _, _) \<leftarrow> (if front then bufferqueueTryPushFront D (ow_budgets s) (ow_queues s ! i) b
                         else bufferqueueTryPushBack D (ow_budgets s) (ow_queues s ! i) b);
     Some (s\<lparr>ow_budgets := B, ow_queues := (ow_queues s)[i := q]\<rparr>)
   }"
| "owner_exec D s (InsertReserved i j b front) = do {
     (_, B, q, _, v) \<leftarrow>
        (if front then bufferqueueTryPushFrontReserved D (ow_budgets s) (ow_queues s ! i) b (ow_resvs s ! j)
         else bufferqueueTryPushBackReserved D (ow_budgets s) (ow_queues s ! i) b (ow_resvs s ! j));
     Some (s\<lparr>ow_budgets := B, ow_queues := (ow_queues s)[i := q], ow_resvs := (ow_resvs s)[j := the v]\<rparr>)
   }"
| "owner_exec D s (Remove i) = do {
     (_, B, q, _) \<leftarrow> bufferqueuePopFront D (ow_budgets s) (ow_queues s ! i);
     Some (s\<lparr>ow_budgets := B, ow_queues := (ow_queues s)[i := q]\<rparr>)
   }"
| "owner_exec D s (RemoveReserved i j) = do {
     (_, B, q, v) \<leftarrow> bufferqueuePopFrontReserved D (ow_budgets s) (ow_queues s ! i) (ow_resvs s ! j);
     Some (s\<lparr>ow_budgets := B, ow_queues := (ow_queues s)[i := q], ow_resvs := (ow_resvs s)[j := the v]\<rparr>)
   }"
| "owner_exec D s (Attach i r) = do {
     (_, B, q) \<leftarrow> bufferqueueTryAttachBudget (ow_budgets s) (ow_queues s ! i) r;
     Some (s\<lparr>ow_budgets := B, ow_queues := (ow_queues s)[i := q]\<rparr>)
   }"
| "owner_exec D s (Rebind i r) = do {
     (_, B, q) \<leftarrow> bufferqueueTryRebindBudget (ow_budgets s) (ow_queues s ! i) r;
     Some (s\<lparr>ow_budgets := B, ow_queues := (ow_queues s)[i := q]\<rparr>)
   }"
| "owner_exec D s (DestroyQueue i) = do {
     (B, p, q) \<leftarrow> bufferqueueDestroy D (ow_budgets s) (ow_pool s) (ow_queues s ! i);
     Some (s\<lparr>ow_budgets := B, ow_pool := p, ow_queues := (ow_queues s)[i := q]\<rparr>)
   }"
| "owner_exec D s (Reserve j r b) = do {
     (_, B, v) \<leftarrow> bufferbudgetTryReserve (ow_budgets s) r b (ow_resvs s ! j);
     Some (s\<lparr>ow_budgets := B, ow_resvs := (ow_resvs s)[j := v]\<rparr>)
   }"
| "owner_exec D s (Reduce j c) = do {
     (B, v) \<leftarrow> bufferbudgetReservationReduce (ow_budgets s) (ow_resvs s ! j) c;
     Some (s\<lparr>ow_budgets := B, ow_resvs := (ow_resvs s)[j := v]\<rparr>)
   }"
| "owner_exec D s (Release j) = do {
     (B, v) \<leftarrow> bufferbudgetReservationRelease (ow_budgets s) (ow_resvs s ! j);
     Some (s\<lparr>ow_budgets := B, ow_resvs := (ow_resvs s)[j := v]\<rparr>)
   }"

fun owner_allowed :: "'q owners \<Rightarrow> owner_cmd \<Rightarrow> bool" where
  "owner_allowed s (Insert i b front) = (i < length (ow_queues s) \<and> sbuf_ok b)"
| "owner_allowed s (InsertReserved i j b front) =
     (i < length (ow_queues s) \<and> j < length (ow_resvs s) \<and> sbuf_ok b \<and>
      reserved_for (ow_queues s ! i) b (ow_resvs s ! j))"
| "owner_allowed s (Remove i) = (i < length (ow_queues s))"
| "owner_allowed s (RemoveReserved i j) =
     (i < length (ow_queues s) \<and> j < length (ow_resvs s) \<and>
      bq_budget (ow_queues s ! i) \<noteq> None \<and> rv_budget (ow_resvs s ! j) = None)"
| "owner_allowed s (Attach i r) = (i < length (ow_queues s) \<and> bq_budget (ow_queues s ! i) = None)"
| "owner_allowed s (Rebind i r) = (i < length (ow_queues s) \<and> bq_budget (ow_queues s ! i) \<noteq> None)"
| "owner_allowed s (DestroyQueue i) = (i < length (ow_queues s))"
| "owner_allowed s (Reserve j r b) =
     (j < length (ow_resvs s) \<and> sbuf_ok b \<and> rv_budget (ow_resvs s ! j) = None)"
| "owner_allowed s (Reduce j c) =
     (j < length (ow_resvs s) \<and> rv_budget (ow_resvs s ! j) \<noteq> None \<and> cost_le c (rv_cost (ow_resvs s ! j)))"
| "owner_allowed s (Release j) = (j < length (ow_resvs s))"

text \<open>The states a worker reaches by allowed calls.\<close>

inductive owners_reach :: "('q, sbuf) deque_ops \<Rightarrow> 'q owners \<Rightarrow> 'q owners \<Rightarrow> bool" for D where
  reach_start: "owners_reach D s s"
| reach_step: "owners_reach D s t \<Longrightarrow> owner_allowed t c \<Longrightarrow> owner_exec D t c = Some u \<Longrightarrow> owners_reach D s u"

definition accounts :: "'q owners \<Rightarrow> account list" where
  "accounts s = map bq_account (ow_queues s) @ map rv_account (ow_resvs s)"

text \<open>Usage is exactly what the owners hold, and never more than the limits.\<close>

definition exact :: "budgets \<Rightarrow> account list \<Rightarrow> bool" where
  "exact B as \<longleftrightarrow>
     (\<forall>r. budget_ok (B r) \<and> cost_bytes (used (B r)) = held cost_bytes r as \<and>
          cost_charge (used (B r)) = held cost_charge r as)"

definition owners_ok :: "('q, sbuf) deque_ops \<Rightarrow> 'q owners \<Rightarrow> bool" where
  "owners_ok D s \<longleftrightarrow> (\<forall>q\<in>set (ow_queues s). queue_ok D q) \<and> pool_ok (ow_pool s) \<and>
     exact (ow_budgets s) (accounts s)"

lemma held_update:
  "i < length as \<Longrightarrow> held f r (as[i := a]) + share f r (as ! i) = held f r as + share f r a"
proof (induction as arbitrary: i)
  case (Cons x as)
  then show ?case by (cases i) (simp_all add: add.assoc add.left_commute)
qed simp

lemma held_nth: "i < length as \<Longrightarrow> share f r (as ! i) \<le> held f r as"
  using held_update [of i as f r "(None, zero_cost)"] by simp

lemma held_two:
  assumes "i < length as" "k < length as" "i \<noteq> k"
  shows "share f r (as ! i) + share f r (as ! k) \<le> held f r as"
  using held_update [of i as f r "(None, zero_cost)"] held_nth [of k "as[i := (None, zero_cost)]" f r] assms
  by simp

lemma exact_covered_one: "exact B as \<Longrightarrow> i < length as \<Longrightarrow> covered B [as ! i]"
  by (simp add: exact_def covered_def held_nth)

lemma exact_covered_two:
  "exact B as \<Longrightarrow> i < length as \<Longrightarrow> k < length as \<Longrightarrow> i \<noteq> k \<Longrightarrow> covered B [as ! i, as ! k]"
  by (simp add: exact_def covered_def held_two)

lemma exactI:
  assumes "\<And>r. budget_ok (B r)" "\<And>r. cost_bytes (used (B r)) = held cost_bytes r as"
    "\<And>r. cost_charge (used (B r)) = held cost_charge r as"
  shows "exact B as"
  using assms by (simp add: exact_def)

lemma exactD:
  assumes "exact B as"
  shows "budget_ok (B r)" "cost_bytes (used (B r)) = held cost_bytes r as"
    "cost_charge (used (B r)) = held cost_charge r as"
  using assms by (simp_all add: exact_def)

lemma exact_update_one:
  assumes "exact B as" "i < length as" "balanced B [as ! i] B' [a]" "\<forall>r. budget_ok (B' r)"
  shows "exact B' (as[i := a])"
proof (rule exactI)
  fix r
  note e = exactD [OF assms(1), of r] and b = balancedD [OF assms(3), of r]
  show "budget_ok (B' r)" using assms(4) by blast
  show "cost_bytes (used (B' r)) = held cost_bytes r (as[i := a])"
    using held_update [OF assms(2), of cost_bytes r a] e b by simp
  show "cost_charge (used (B' r)) = held cost_charge r (as[i := a])"
    using held_update [OF assms(2), of cost_charge r a] e b by simp
qed

lemma exact_update_two:
  assumes "exact B as" "i < length as" "k < length as" "i \<noteq> k"
    "balanced B [as ! i, as ! k] B' [a, c]" "\<forall>r. budget_ok (B' r)"
  shows "exact B' (as[i := a, k := c])"
proof (rule exactI)
  fix r
  note e = exactD [OF assms(1), of r] and b = balancedD [OF assms(5), of r]
  have h: "held f r (as[i := a, k := c]) + (share f r (as ! i) + share f r (as ! k)) =
      held f r as + (share f r a + share f r c)" for f
    using held_update [OF assms(2), of f r a] held_update [of k "as[i := a]" f r c] assms(3,4) by simp
  show "budget_ok (B' r)" using assms(6) by blast
  show "cost_bytes (used (B' r)) = held cost_bytes r (as[i := a, k := c])"
    using h [of cost_bytes] e b by simp
  show "cost_charge (used (B' r)) = held cost_charge r (as[i := a, k := c])"
    using h [of cost_charge] e b by simp
qed

lemma accounts_queue:
  assumes "i < length (ow_queues s)"
  shows "accounts s ! i = bq_account (ow_queues s ! i)" "i < length (accounts s)"
    "accounts (s\<lparr>ow_budgets := B, ow_queues := (ow_queues s)[i := q]\<rparr>) = (accounts s)[i := bq_account q]"
    "accounts (s\<lparr>ow_budgets := B, ow_pool := p, ow_queues := (ow_queues s)[i := q]\<rparr>) =
       (accounts s)[i := bq_account q]"
  using assms by (simp_all add: accounts_def nth_append list_update_append map_update)

lemma accounts_resv:
  assumes "j < length (ow_resvs s)"
  shows "accounts s ! (length (ow_queues s) + j) = rv_account (ow_resvs s ! j)"
    "length (ow_queues s) + j < length (accounts s)"
    "accounts (s\<lparr>ow_budgets := B, ow_resvs := (ow_resvs s)[j := v]\<rparr>) =
       (accounts s)[length (ow_queues s) + j := rv_account v]"
  using assms by (simp_all add: accounts_def nth_append list_update_append map_update)

lemma accounts_both:
  assumes "i < length (ow_queues s)" "j < length (ow_resvs s)"
  shows "accounts (s\<lparr>ow_budgets := B, ow_queues := (ow_queues s)[i := q], ow_resvs := (ow_resvs s)[j := v]\<rparr>) =
    (accounts s)[i := bq_account q, length (ow_queues s) + j := rv_account v]"
  using assms by (simp add: accounts_def list_update_append map_update)

lemma owners_okD:
  assumes "owners_ok D s"
  shows "i < length (ow_queues s) \<Longrightarrow> queue_ok D (ow_queues s ! i)" "pool_ok (ow_pool s)"
    "exact (ow_budgets s) (accounts s)" "\<forall>r. budget_ok (ow_budgets s r)"
    "i < length (ow_queues s) \<Longrightarrow> covered (ow_budgets s) [bq_account (ow_queues s ! i)]"
    "j < length (ow_resvs s) \<Longrightarrow> covered (ow_budgets s) [rv_account (ow_resvs s ! j)]"
proof -
  show e: "exact (ow_budgets s) (accounts s)" "pool_ok (ow_pool s)" using assms by (simp_all add: owners_ok_def)
  show "i < length (ow_queues s) \<Longrightarrow> queue_ok D (ow_queues s ! i)" using assms by (simp add: owners_ok_def)
  show "\<forall>r. budget_ok (ow_budgets s r)" using exactD(1) [OF e(1)] by blast
  show "i < length (ow_queues s) \<Longrightarrow> covered (ow_budgets s) [bq_account (ow_queues s ! i)]"
    using exact_covered_one [OF e(1) accounts_queue(2)] accounts_queue(1) by fastforce
  show "j < length (ow_resvs s) \<Longrightarrow> covered (ow_budgets s) [rv_account (ow_resvs s ! j)]"
    using exact_covered_one [OF e(1) accounts_resv(2)] accounts_resv(1) by fastforce
qed

lemma owners_queue_step:
  assumes "owners_ok D s" "i < length (ow_queues s)" "queue_ok D q" "\<forall>r. budget_ok (B r)"
    "balanced (ow_budgets s) [bq_account (ow_queues s ! i)] B [bq_account q]" "pool_ok p"
  shows "owners_ok D (s\<lparr>ow_budgets := B, ow_queues := (ow_queues s)[i := q]\<rparr>)"
    "owners_ok D (s\<lparr>ow_budgets := B, ow_pool := p, ow_queues := (ow_queues s)[i := q]\<rparr>)"
proof -
  note a = accounts_queue [OF assms(2)]
  have "exact B ((accounts s)[i := bq_account q])"
    using exact_update_one [OF owners_okD(3) [OF assms(1)] a(2)] assms(4,5) a(1) by simp
  then show "owners_ok D (s\<lparr>ow_budgets := B, ow_queues := (ow_queues s)[i := q]\<rparr>)"
    "owners_ok D (s\<lparr>ow_budgets := B, ow_pool := p, ow_queues := (ow_queues s)[i := q]\<rparr>)"
    using assms(1,3,6) a(3,4) unfolding owners_ok_def
    by (auto dest!: set_update_subset_insert [THEN subsetD])
qed

lemma owners_resv_step:
  assumes "owners_ok D s" "j < length (ow_resvs s)" "\<forall>r. budget_ok (B r)"
    "balanced (ow_budgets s) [rv_account (ow_resvs s ! j)] B [rv_account v]"
  shows "owners_ok D (s\<lparr>ow_budgets := B, ow_resvs := (ow_resvs s)[j := v]\<rparr>)"
proof -
  note a = accounts_resv [OF assms(2)]
  have "exact B ((accounts s)[length (ow_queues s) + j := rv_account v])"
    using exact_update_one [OF owners_okD(3) [OF assms(1)] a(2)] assms(3,4) a(1) by simp
  then show ?thesis using assms(1) a(3) by (simp add: owners_ok_def)
qed

lemma owners_both_step:
  assumes "owners_ok D s" "i < length (ow_queues s)" "j < length (ow_resvs s)" "queue_ok D q"
    "\<forall>r. budget_ok (B r)"
    "balanced (ow_budgets s) [bq_account (ow_queues s ! i), rv_account (ow_resvs s ! j)] B
       [bq_account q, rv_account v]"
  shows "owners_ok D (s\<lparr>ow_budgets := B, ow_queues := (ow_queues s)[i := q], ow_resvs := (ow_resvs s)[j := v]\<rparr>)"
proof -
  note a = accounts_queue [OF assms(2)] and r = accounts_resv [OF assms(3)]
  have "exact B ((accounts s)[i := bq_account q, length (ow_queues s) + j := rv_account v])"
    using exact_update_two [OF owners_okD(3) [OF assms(1)] a(2) r(2)] assms(2,5,6) a(1) r(1) by simp
  then show ?thesis using assms(1,4) accounts_both [OF assms(2,3)] unfolding owners_ok_def
    by (auto dest!: set_update_subset_insert [THEN subsetD])
qed

context sbuf_deque
begin

text \<open>Every allowed call completes and keeps the accounting exact.\<close>

lemma exec_insert:
  assumes s: "owners_ok D s" and i: "i < length (ow_queues s)" and b: "sbuf_ok b"
  shows "\<exists>t. owner_exec D s (Insert i b front) = Some t \<and> owners_ok D t"
proof -
  let ?q = "ow_queues s ! i" and ?B = "ow_budgets s"
  note ok = owners_okD(1) [OF s i] owners_okD(4) [OF s]
  have "\<exists>t B' q' d. bufferqueueTryInsert D ?B ?q b front None = Some (t, B', q', d, None) \<and>
      queue_ok D q' \<and> (\<forall>r. budget_ok (B' r)) \<and> balanced ?B [bq_account ?q] B' [bq_account q']"
    using insert_refused [OF ok(2) b _ _ ok(1), of None front]
      insert_accepted [OF ok(2) b _ _ ok(1), of None front] ok
    by (cases "admissible D ?B ?q b None") fastforce+
  then show ?thesis
    using owners_queue_step(1) [OF s i _ _ _ owners_okD(2) [OF s]]
    by (cases front) (fastforce simp: bufferqueueTryPushFront_def bufferqueueTryPushBack_def)+
qed

lemma exec_insert_reserved:
  assumes s: "owners_ok D s" and i: "i < length (ow_queues s)" and j: "j < length (ow_resvs s)"
    and b: "sbuf_ok b" and v: "reserved_for (ow_queues s ! i) b (ow_resvs s ! j)"
  shows "\<exists>t. owner_exec D s (InsertReserved i j b front) = Some t \<and> owners_ok D t"
proof -
  let ?q = "ow_queues s ! i" and ?B = "ow_budgets s" and ?v = "ow_resvs s ! j"
  note ok = owners_okD(1) [OF s i] owners_okD(4) [OF s]
  have "\<exists>t B' q' d w. bufferqueueTryInsert D ?B ?q b front (Some ?v) = Some (t, B', q', d, Some w) \<and>
      queue_ok D q' \<and> (\<forall>r. budget_ok (B' r)) \<and>
      balanced ?B [bq_account ?q, rv_account ?v] B' [bq_account q', rv_account w]"
    using insert_refused [OF ok(2) b _ _ ok(1), of "Some ?v" front]
      insert_accepted [OF ok(2) b _ _ ok(1), of "Some ?v" front] ok v
    by (cases "admissible D ?B ?q b (Some ?v)") fastforce+
  then show ?thesis
    using owners_both_step [OF s i j]
    by (cases front) (fastforce simp: bufferqueueTryPushFrontReserved_def bufferqueueTryPushBackReserved_def)+
qed

lemma exec_remove:
  assumes s: "owners_ok D s" and i: "i < length (ow_queues s)"
  shows "\<exists>t. owner_exec D s (Remove i) = Some t \<and> owners_ok D t"
proof (cases "dq_elems D (bq_q (ow_queues s ! i))")
  case Nil
  then show ?thesis using pop_empty [OF Nil] s by (simp add: bufferqueuePopFront_def)
next
  case (Cons b bs)
  from pop_first [OF owners_okD(1,5) [OF s] Cons, of None] i
  obtain B' q' where "bufferqueuePop D (ow_budgets s) (ow_queues s ! i) None = Some (Some b, B', q', None)"
    "queue_ok D q'" "\<forall>r. budget_ok (B' r)"
    "balanced (ow_budgets s) [bq_account (ow_queues s ! i)] B' [bq_account q']"
    by auto
  with owners_queue_step(1) [OF s i _ _ _ owners_okD(2) [OF s]] show ?thesis
    by (simp add: bufferqueuePopFront_def)
qed

lemma exec_remove_reserved:
  assumes s: "owners_ok D s" and i: "i < length (ow_queues s)" and j: "j < length (ow_resvs s)"
    and v: "bq_budget (ow_queues s ! i) \<noteq> None" "rv_budget (ow_resvs s ! j) = None"
  shows "\<exists>t. owner_exec D s (RemoveReserved i j) = Some t \<and> owners_ok D t"
proof (cases "dq_elems D (bq_q (ow_queues s ! i))")
  case Nil
  then show ?thesis using pop_empty [OF Nil] s v by (simp add: bufferqueuePopFrontReserved_def)
next
  case (Cons b bs)
  from pop_first [OF owners_okD(1,5) [OF s] Cons, of "Some (ow_resvs s ! j)"] i v
  obtain B' q' w where "bufferqueuePop D (ow_budgets s) (ow_queues s ! i) (Some (ow_resvs s ! j)) =
      Some (Some b, B', q', Some w)"
    "queue_ok D q'" "\<forall>r. budget_ok (B' r)"
    "balanced (ow_budgets s) [bq_account (ow_queues s ! i), rv_account (ow_resvs s ! j)] B'
       [bq_account q', rv_account w]"
    by fastforce
  with owners_both_step [OF s i j] show ?thesis using v
    by (simp add: bufferqueuePopFrontReserved_def)
qed

lemma exec_binding:
  assumes s: "owners_ok D s" and i: "i < length (ow_queues s)"
  shows "bq_budget (ow_queues s ! i) = None \<Longrightarrow> \<exists>t. owner_exec D s (Attach i r) = Some t \<and> owners_ok D t"
    "bq_budget (ow_queues s ! i) \<noteq> None \<Longrightarrow> \<exists>t. owner_exec D s (Rebind i r) = Some t \<and> owners_ok D t"
    "\<exists>t. owner_exec D s (DestroyQueue i) = Some t \<and> owners_ok D t"
proof -
  note q = owners_okD(1) [OF s i] and p = owners_okD(2) [OF s]
  show "\<exists>t. owner_exec D s (Attach i r) = Some t \<and> owners_ok D t" if none: "bq_budget (ow_queues s ! i) = None"
  proof -
    obtain g B' q' where "bufferqueueTryAttachBudget (ow_budgets s) (ow_queues s ! i) r = Some (g, B', q')"
      "\<forall>r. budget_ok (B' r)" "queue_ok D q'"
      "balanced (ow_budgets s) [bq_account (ow_queues s ! i)] B' [bq_account q']"
      using attach_ok [OF owners_okD(4) [OF s] none, of r] q by auto
    then show ?thesis using owners_queue_step(1) [OF s i _ _ _ p] by simp
  qed
  show "\<exists>t. owner_exec D s (Rebind i r) = Some t \<and> owners_ok D t" if "bq_budget (ow_queues s ! i) \<noteq> None"
  proof -
    from that obtain old where old: "bq_budget (ow_queues s ! i) = Some old" by blast
    obtain g B' q' where "bufferqueueTryRebindBudget (ow_budgets s) (ow_queues s ! i) r = Some (g, B', q')"
      "\<forall>r. budget_ok (B' r)" "queue_ok D q'"
      "balanced (ow_budgets s) [bq_account (ow_queues s ! i)] B' [bq_account q']"
      using rebind_ok [OF owners_okD(5) [OF s i] old, of r] q by auto
    then show ?thesis using owners_queue_step(1) [OF s i _ _ _ p] by simp
  qed
  obtain B' p' where "bufferqueueDestroy D (ow_budgets s) (ow_pool s) (ow_queues s ! i) =
      Some (B', p', bufferqueueInitEmpty D)" "pool_ok p'" "\<forall>r. budget_ok (B' r)"
    "balanced (ow_budgets s) [bq_account (ow_queues s ! i)] B' [bq_account (bufferqueueInitEmpty D)]"
    using destroy_ok [OF q owners_okD(5) [OF s i] p] by blast
  then show "\<exists>t. owner_exec D s (DestroyQueue i) = Some t \<and> owners_ok D t"
    using owners_queue_step(2) [OF s i] by simp
qed

lemma exec_reservation:
  assumes s: "owners_ok D s" and j: "j < length (ow_resvs s)"
  shows "sbuf_ok b \<Longrightarrow> rv_budget (ow_resvs s ! j) = None \<Longrightarrow>
      \<exists>t. owner_exec D s (Reserve j r b) = Some t \<and> owners_ok D t"
    "rv_budget (ow_resvs s ! j) \<noteq> None \<Longrightarrow> cost_le c (rv_cost (ow_resvs s ! j)) \<Longrightarrow>
      \<exists>t. owner_exec D s (Reduce j c) = Some t \<and> owners_ok D t"
    "\<exists>t. owner_exec D s (Release j) = Some t \<and> owners_ok D t"
proof -
  note v = owners_okD(6) [OF s j]
  show "\<exists>t. owner_exec D s (Reserve j r b) = Some t \<and> owners_ok D t"
    if none: "sbuf_ok b" "rv_budget (ow_resvs s ! j) = None"
  proof -
    obtain g B' w where "bufferbudgetTryReserve (ow_budgets s) r b (ow_resvs s ! j) = Some (g, B', w)"
      "\<forall>r. budget_ok (B' r)" "balanced (ow_budgets s) [rv_account (ow_resvs s ! j)] B' [rv_account w]"
      using tryReserve_ok [OF owners_okD(4) [OF s] none, of r] by blast
    then show ?thesis using owners_resv_step [OF s j] by simp
  qed
  show "\<exists>t. owner_exec D s (Reduce j c) = Some t \<and> owners_ok D t"
    if "rv_budget (ow_resvs s ! j) \<noteq> None" "cost_le c (rv_cost (ow_resvs s ! j))"
  proof -
    from that(1) obtain r where "rv_budget (ow_resvs s ! j) = Some r" by blast
    from reduce_ok [OF v this that(2)] show ?thesis using owners_resv_step [OF s j] by auto
  qed
  obtain B' w where "bufferbudgetReservationRelease (ow_budgets s) (ow_resvs s ! j) = Some (B', w)"
    "\<forall>r. budget_ok (B' r)" "balanced (ow_budgets s) [rv_account (ow_resvs s ! j)] B' [rv_account w]"
    using rv_release_ok [OF v] by blast
  then show "\<exists>t. owner_exec D s (Release j) = Some t \<and> owners_ok D t"
    using owners_resv_step [OF s j] by simp
qed

lemma exec_ok:
  assumes "owners_ok D s" "owner_allowed s c"
  shows "\<exists>t. owner_exec D s c = Some t \<and> owners_ok D t"
proof (cases c)
  case (Insert i b front)
  with assms show ?thesis using exec_insert by (simp del: owner_exec.simps)
next
  case (InsertReserved i j b front)
  with assms show ?thesis using exec_insert_reserved by (simp del: owner_exec.simps)
next
  case (Remove i)
  with assms show ?thesis using exec_remove by (simp del: owner_exec.simps)
next
  case (RemoveReserved i j)
  with assms show ?thesis using exec_remove_reserved by (simp del: owner_exec.simps)
qed (use assms exec_binding exec_reservation in \<open>simp_all del: owner_exec.simps\<close>)

lemma reach_ok: "owners_reach D s t \<Longrightarrow> owners_ok D s \<Longrightarrow> owners_ok D t"
  by (induction rule: owners_reach.induct) (use exec_ok in fastforce)+

end

section \<open>First in, first out\<close>

text \<open>
  The contract of a queue as its clients see it. Both the buffer queue and the context queue
  meet it, so whatever was pushed comes out in the order it went in.
\<close>

primrec take_n :: "('s \<Rightarrow> ('a option \<times> 's) option) \<Rightarrow> nat \<Rightarrow> 's \<Rightarrow> ('a list \<times> 's) option" where
  "take_n take1 0 s = Some ([], s)"
| "take_n take1 (Suc n) s = do {
     (x, s) \<leftarrow> take1 s;
     case x of None \<Rightarrow> Some ([], s)
     | Some x \<Rightarrow> do { (xs, s) \<leftarrow> take_n take1 n s; Some (x # xs, s) } }"

locale fifo =
  fixes put :: "'s \<Rightarrow> 'a \<Rightarrow> 's option"
    and take1 :: "'s \<Rightarrow> ('a option \<times> 's) option"
    and ok :: "'s \<Rightarrow> bool"
    and item_ok :: "'a \<Rightarrow> bool"
    and view :: "'a \<Rightarrow> 'v"
    and contents :: "'s \<Rightarrow> 'v list"
  assumes put_law: "ok s \<Longrightarrow> item_ok x \<Longrightarrow> put s x = Some t \<Longrightarrow> ok t \<and> contents t = contents s @ [view x]"
    and take_law: "ok s \<Longrightarrow> contents s = v # vs \<Longrightarrow>
      \<exists>x t. take1 s = Some (Some x, t) \<and> view x = v \<and> contents t = vs \<and> ok t"
    and take_empty: "ok s \<Longrightarrow> contents s = [] \<Longrightarrow> take1 s = Some (None, s)"
begin

lemma push_all_contents:
  "ok s \<Longrightarrow> \<forall>x\<in>set xs. item_ok x \<Longrightarrow> push_all put s xs = Some t \<Longrightarrow> ok t \<and> contents t = contents s @ map view xs"
proof (induction xs arbitrary: s)
  case (Cons x xs)
  then obtain u where u: "put s x = Some u" "push_all put u xs = Some t" by (auto elim: bind_SomeE)
  with put_law [of s x u] Cons show ?case by fastforce
qed simp

lemma take_n_contents:
  "ok s \<Longrightarrow> \<exists>xs t. take_n take1 n s = Some (xs, t) \<and> map view xs = take n (contents s) \<and>
     contents t = drop n (contents s) \<and> ok t"
proof (induction n arbitrary: s)
  case (Suc n)
  show ?case
  proof (cases "contents s")
    case Nil
    with take_empty [OF Suc.prems] Suc.prems show ?thesis by simp
  next
    case (Cons v vs)
    from take_law [OF Suc.prems Cons] obtain x u where u: "take1 s = Some (Some x, u)" "view x = v"
      "contents u = vs" "ok u" by blast
    with Suc.IH [OF u(4)] Cons show ?thesis by fastforce
  qed
qed simp

lemma in_order:
  assumes "ok s" "\<forall>x\<in>set xs. item_ok x" "push_all put s xs = Some t"
  shows "\<exists>ys u. take_n take1 n t = Some (ys, u) \<and> map view ys = take n (contents s @ map view xs) \<and>
    contents u = drop n (contents s @ map view xs)"
  using push_all_contents [OF assms] take_n_contents [of t n] by auto

end

definition queue_put :: "('q, sbuf) deque_ops \<Rightarrow> budgets \<times> 'q buffer_queue \<Rightarrow> sbuf \<Rightarrow>
    (budgets \<times> 'q buffer_queue) option" where
  "queue_put D s b = do {
     (_, B, q) \<leftarrow> bufferqueuePushBack D (fst s) (snd s) b;
     Some (B, q)
   }"

definition queue_take :: "('q, sbuf) deque_ops \<Rightarrow> budgets \<times> 'q buffer_queue \<Rightarrow>
    (sbuf option \<times> budgets \<times> 'q buffer_queue) option" where
  "queue_take D s = do {
     (b, B, q, _) \<leftarrow> bufferqueuePopFront D (fst s) (snd s);
     Some (b, B, q)
   }"

definition queue_payloads :: "('q, sbuf) deque_ops \<Rightarrow> budgets \<times> 'q buffer_queue \<Rightarrow> byte list list" where
  "queue_payloads D s = map payload (dq_elems D (bq_q (snd s)))"

definition bound_ok :: "('q, sbuf) deque_ops \<Rightarrow> budgets \<times> 'q buffer_queue \<Rightarrow> bool" where
  "bound_ok D s \<longleftrightarrow> queue_ok D (snd s) \<and> covered (fst s) [bq_account (snd s)]"

context sbuf_deque
begin

lemma queue_put_law:
  assumes "bound_ok D s" "sbuf_ok b" "queue_put D s b = Some t"
  shows "bound_ok D t \<and> queue_payloads D t = queue_payloads D s @ [payload b]"
proof -
  have ok: "queue_ok D (snd s)" "\<forall>r. budget_ok (fst s r)" "covered (fst s) [bq_account (snd s)]"
    using assms(1) by (auto simp: bound_ok_def covered_def)
  show ?thesis
  proof (cases "admissible D (fst s) (snd s) b None")
    case False
    from insert_refused [OF ok(2) assms(2) _ False ok(1), of False] assms(3) show ?thesis
      by (simp add: queue_put_def bufferqueuePushBack_def bufferqueueTryPushBack_def)
  next
    case True
    from insert_accepted [OF ok(2) assms(2) _ True ok(1), of False]
    obtain B' q' d where i: "bufferqueueTryInsert D (fst s) (snd s) b False None = Some (True, B', q', d, None)"
      "payload d = payload b" "queue_ok D q'" "dq_elems D (bq_q q') = dq_elems D (bq_q (snd s)) @ [d]"
      "\<forall>r. budget_ok (B' r)" "balanced (fst s) [bq_account (snd s)] B' [bq_account q']"
      by auto
    then have "t = (B', q')" using assms(3)
      by (simp add: queue_put_def bufferqueuePushBack_def bufferqueueTryPushBack_def)
    then show ?thesis using i balanced_covered [OF i(6) ok(3) i(5)]
      by (simp add: bound_ok_def queue_payloads_def)
  qed
qed

text \<open>A short unbound queue admits every well-formed buffer.\<close>

lemma put_unbound:
  assumes q: "bq_budget q = None" "queue_ok D q" and b: "sbuf_ok b" and B: "\<forall>r. budget_ok (B r)"
    and room: "length (dq_elems D (bq_q q)) < 5" "total_len q \<le> UINT32_MAX" "total_charge q \<le> 2 * UINT32_MAX"
  shows "\<exists>q'. queue_put D (B, q) b = Some (B, q') \<and> bq_budget q' = None \<and> queue_ok D q' \<and>
    length (dq_elems D (bq_q q')) = length (dq_elems D (bq_q q)) + 1 \<and>
    total_len q' = total_len q + cost_bytes (entry_cost b) \<and>
    total_charge q' = total_charge q + cost_charge (entry_cost b)"
proof -
  have "admissible D B q b None" using q room entry_cost_bounds [OF b] by (simp add: admissible_def)
  from insert_accepted [OF B b _ this q(2), of False] obtain B' q' d where
    i: "bufferqueueTryInsert D B q b False None = Some (True, B', q', d, None)"
      "entry_cost d = entry_cost b" "queue_ok D q'" "bq_budget q' = bq_budget q"
      "dq_elems D (bq_q q') = dq_elems D (bq_q q) @ [d]" by auto
  have "B' = B" using i(1) q(1) b
    by (auto simp: bufferqueueTryInsert_def insertAdmit_def getCost_eq guard_simps split: if_splits prod.splits)
  then show ?thesis using i q
    by (auto simp: queue_put_def bufferqueuePushBack_def bufferqueueTryPushBack_def queue_ok_def entry_cost_def)
qed

lemma queue_take_law:
  assumes "bound_ok D s" "queue_payloads D s = v # vs"
  shows "\<exists>x t. queue_take D s = Some (Some x, t) \<and> payload x = v \<and> queue_payloads D t = vs \<and> bound_ok D t"
proof -
  have ok: "queue_ok D (snd s)" "covered (fst s) [bq_account (snd s)]"
    using assms(1) by (simp_all add: bound_ok_def)
  from assms(2) obtain b bs where es: "dq_elems D (bq_q (snd s)) = b # bs" "payload b = v" "map payload bs = vs"
    by (auto simp: queue_payloads_def map_eq_Cons_conv)
  from pop_first [OF ok es(1), of None] obtain B' q' where
    r: "bufferqueuePop D (fst s) (snd s) None = Some (Some b, B', q', None)" "queue_ok D q'"
      "dq_elems D (bq_q q') = bs" "\<forall>r. budget_ok (B' r)" "balanced (fst s) [bq_account (snd s)] B' [bq_account q']"
    by auto
  with es balanced_covered [OF r(5) ok(2) r(4)] show ?thesis
    by (auto simp: queue_take_def bufferqueuePopFront_def queue_payloads_def bound_ok_def)
qed

end

sublocale sbuf_deque < bq: fifo "queue_put D" "queue_take D" "bound_ok D" sbuf_ok payload "queue_payloads D"
proof unfold_locales
  show "bound_ok D t \<and> queue_payloads D t = queue_payloads D s @ [payload b]"
    if "bound_ok D s" "sbuf_ok b" "queue_put D s b = Some t" for s b t
    using that by (rule queue_put_law)
  show "\<exists>x t. queue_take D s = Some (Some x, t) \<and> payload x = v \<and> queue_payloads D t = vs \<and> bound_ok D t"
    if "bound_ok D s" "queue_payloads D s = v # vs" for s v vs
    using that by (rule queue_take_law)
  show "queue_take D s = Some (None, s)" if "queue_payloads D s = []" for s
    using that by (simp add: queue_take_def bufferqueuePopFront_def pop_empty queue_payloads_def)
qed

sublocale stc_deque < cq: fifo "\<lambda>s c. Some (contextqueuePush D s c)" "\<lambda>s. Some (contextqueuePop D s)"
  "\<lambda>_. True" "\<lambda>_. True" "\<lambda>c. c" "\<lambda>s. dq_elems D (cq_q (s :: 'q context_queue))"
proof unfold_locales
  fix s :: "'q context_queue" and v vs
  assume "dq_elems D (cq_q s) = v # vs"
  then show "\<exists>x t. Some (contextqueuePop D s) = Some (Some x, t) \<and> x = v \<and> dq_elems D (cq_q t) = vs \<and> True"
    using pull_front_Cons [of "cq_q s" v vs] by (auto simp: contextqueuePop_def)
qed (auto simp: contextqueuePush_def contextqueuePop_def)

context sbuf_deque
begin

lemmas queue_in_order = bq.in_order

end

context stc_deque
begin

lemmas context_in_order = cq.in_order

end

section \<open>Properties\<close>

definition sample_budgets :: budgets where
  "sample_budgets r = bufferbudgetInit \<lparr>cost_bytes = 100, cost_charge = 1000\<rparr>"

definition sample_owners :: "sbuf list owners" where
  "sample_owners = \<lparr>ow_budgets = sample_budgets, ow_pool = sample_pool,
     ow_queues = [bufferqueueInitEmpty list_deque], ow_resvs = [empty_reservation]\<rparr>"

lemma sample_budgets_ok: "budget_ok (sample_budgets r)" "used (sample_budgets r) = zero_cost"
  by (simp_all add: sample_budgets_def bufferbudgetInit_def budget_ok_def)

lemma sample_owners_ok: "owners_ok list_deque sample_owners"
  using list_stream.init_queue_ok
  by (simp add: owners_ok_def sample_owners_def sample_pool_ok exact_def sample_budgets_ok accounts_def
      bq_account_def bufferqueueInitEmpty_def)

text \<open>C6. Budget accounting is exact: however queues and reservations bound to shared budgets are
  used within their documented preconditions, each budget's usage is the sum of what its owners
  hold, stays within both limits, and no call aborts.\<close>

theorem budget_accounting_exact:
  assumes "sbuf_deque D" "owners_ok D s" "owners_reach D s t"
  shows "owners_ok D t \<and>
    cost_bytes (used (ow_budgets t r)) = held cost_bytes r (accounts t) \<and>
    cost_bytes (used (ow_budgets t r)) \<le> cost_bytes (limits (ow_budgets t r)) \<and>
    cost_charge (used (ow_budgets t r)) = held cost_charge r (accounts t) \<and>
    cost_charge (used (ow_budgets t r)) \<le> cost_charge (limits (ow_budgets t r)) \<and>
    (owner_allowed t c \<longrightarrow> (\<exists>u. owner_exec D t c = Some u))"
proof -
  have t: "owners_ok D t" using sbuf_deque.reach_ok [OF assms(1,3,2)] .
  note e = exactD [OF owners_okD(3) [OF t], of r]
  show ?thesis using t e sbuf_deque.exec_ok [OF assms(1) t] by (auto simp: budget_ok_def)
qed

theorem budget_accounting_exact_witness:
  "\<exists>t u. owner_exec list_deque sample_owners (Attach 0 7) = Some t \<and>
    owner_exec list_deque t (Insert 0 (sbuf_append sbuf_sample [1, 2, 3]) False) = Some u \<and>
    cost_bytes (used (ow_budgets u 7)) = held cost_bytes 7 (accounts u)"
proof -
  note D = list_stream.sbuf_deque_axioms
  have a: "owner_allowed sample_owners (Attach 0 7)"
    by (simp add: sample_owners_def bufferqueueInitEmpty_def)
  from budget_accounting_exact [OF D sample_owners_ok reach_start, of 7 "Attach 0 7"] a
  obtain t where t: "owner_exec list_deque sample_owners (Attach 0 7) = Some t" by blast
  from reach_step [OF reach_start a t] have r: "owners_reach list_deque sample_owners t" .
  have "length (ow_queues t) = 1" using t by (auto simp: sample_owners_def elim!: bind_SomeE)
  then have b: "owner_allowed t (Insert 0 (sbuf_append sbuf_sample [1, 2, 3]) False)"
    by (simp add: sample_append_ok)
  from budget_accounting_exact [OF D sample_owners_ok r, of 7 "Insert 0 (sbuf_append sbuf_sample [1, 2, 3]) False"] b
  obtain u where u: "owner_exec list_deque t (Insert 0 (sbuf_append sbuf_sample [1, 2, 3]) False) = Some u" by blast
  from budget_accounting_exact [OF D sample_owners_ok reach_step [OF r b u]] t u show ?thesis by blast
qed

text \<open>C23. Insertion is transactional: it is accepted exactly when the totals stay representable,
  the ring can grow and the budget affords the buffer. An accepted buffer keeps its payload and is
  charged at its cost; a refused one leaves budgets, queue, buffer and reservation untouched.\<close>

theorem queue_insert_transactional:
  assumes "sbuf_deque D" "\<forall>r. budget_ok (B r)" "sbuf_ok b" "\<forall>w. v = Some w \<longrightarrow> reserved_for q b w"
    "queue_ok D q"
  shows "\<exists>B' q' d v'. bufferqueueTryInsert D B q b front v = Some (admissible D B q b v, B', q', d, v') \<and>
    (if admissible D B q b v
     then payload d = payload b \<and> queue_ok D q' \<and> v' = map_option (\<lambda>_. empty_reservation) v \<and>
       dq_elems D (bq_q q') = (if front then d # dq_elems D (bq_q q) else dq_elems D (bq_q q) @ [d]) \<and>
       total_len q' = total_len q + sb_len b \<and>
       balanced B (bq_account q # rv_accounts v) B' (bq_account q' # rv_accounts v')
     else B' = B \<and> q' = q \<and> d = b \<and> v' = v)"
proof (cases "admissible D B q b v")
  case False
  with sbuf_deque.insert_refused [OF assms(1-4) False assms(5)] show ?thesis by simp
next
  case True
  from sbuf_deque.insert_accepted [OF assms(1-4) True assms(5), of front]
  obtain B' q' d where i: "bufferqueueTryInsert D B q b front v =
      Some (True, B', q', d, map_option (\<lambda>_. empty_reservation) v)" "payload d = payload b"
    "entry_cost d = entry_cost b" "queue_ok D q'"
    "dq_elems D (bq_q q') = (if front then d # dq_elems D (bq_q q) else dq_elems D (bq_q q) @ [d])"
    "balanced B (bq_account q # rv_accounts v) B'
       (bq_account q' # rv_accounts (map_option (\<lambda>_. empty_reservation) v))"
    by blast
  have "total_len q' = total_len q + sb_len b"
    using i(3,4,5) assms(5) by (simp add: queue_ok_def entry_cost_def split: if_splits)
  with i True show ?thesis by (simp (no_asm_simp))
qed

theorem queue_insert_transactional_witness:
  "\<exists>B' q' d v'. bufferqueueTryInsert list_deque sample_budgets (bufferqueueInitEmpty list_deque)
      (sbuf_append sbuf_sample [7]) False None = Some (True, B', q', d, v') \<and> payload d = [7] \<and> total_len q' = 1"
proof -
  have "admissible list_deque sample_budgets (bufferqueueInitEmpty list_deque) (sbuf_append sbuf_sample [7]) None"
    using entry_cost_bounds [OF sample_append_ok(1) [of "[7]"]]
    by (simp add: admissible_def bufferqueueInitEmpty_def)
  with queue_insert_transactional [OF list_stream.sbuf_deque_axioms _ sample_append_ok(1) [of "[7]"] _
      list_stream.init_queue_ok, of sample_budgets None False]
  show ?thesis
    by (auto simp: sample_budgets_ok sample_append_ok) (auto simp: bufferqueueInitEmpty_def)
qed

text \<open>C32. The buffer queue is first in, first out: after any pushes that were admitted, removals
  return the earlier contents followed by the pushed payloads in order, chunk boundaries intact.\<close>

theorem queue_fifo:
  assumes "sbuf_deque D" "bound_ok D s" "\<forall>b\<in>set bs. sbuf_ok b" "push_all (queue_put D) s bs = Some t"
  shows "\<exists>cs u. take_n (queue_take D) n t = Some (cs, u) \<and>
    map payload cs = take n (queue_payloads D s @ map payload bs) \<and>
    queue_payloads D u = drop n (queue_payloads D s @ map payload bs)"
  using sbuf_deque.queue_in_order [OF assms] .

theorem queue_fifo_witness:
  "\<exists>t cs u. push_all (queue_put list_deque) (sample_budgets, bufferqueueInitEmpty list_deque)
      [sbuf_append sbuf_sample [7], sbuf_append sbuf_sample [8, 9]] = Some t \<and>
    take_n (queue_take list_deque) 2 t = Some (cs, u) \<and> map payload cs = [[7], [8, 9]]"
proof -
  note D = list_stream.sbuf_deque_axioms
  let ?a = "sbuf_append sbuf_sample [7]" and ?b = "sbuf_append sbuf_sample [8, 9]"
  let ?s = "(sample_budgets, bufferqueueInitEmpty list_deque)"
  obtain q where q: "queue_put list_deque ?s ?a = Some (sample_budgets, q)" "bq_budget q = None" "queue_ok list_deque q"
    "length (dq_elems list_deque (bq_q q)) = 1" "total_len q \<le> UINT32_MAX" "total_charge q \<le> 2 * UINT32_MAX"
    using list_stream.put_unbound [of "bufferqueueInitEmpty list_deque" ?a sample_budgets] entry_cost_bounds [of ?a]
    by (auto simp: sample_append_ok sample_budgets_ok bufferqueueInitEmpty_def list_deque_def queue_ok_def)
  obtain q' where q': "queue_put list_deque (sample_budgets, q) ?b = Some (sample_budgets, q')"
    using list_stream.put_unbound [OF q(2,3) _ _ _ q(5,6), of ?b sample_budgets] q(4) by (auto simp: sample_append_ok sample_budgets_ok)
  have e: "queue_payloads list_deque ?s = []"
    by (simp add: queue_payloads_def bufferqueueInitEmpty_def list_deque_def)
  have "bound_ok list_deque ?s" using sample_budgets_ok
    by (simp add: bound_ok_def covered_def bq_account_def bufferqueueInitEmpty_def)
       (simp add: queue_ok_def list_deque_def)
  from queue_fifo [OF D this, of "[?a, ?b]" "(sample_budgets, q')" 2] q(1) q' e show ?thesis
    by (auto simp: sample_append_ok)
qed

end
