(* ===== verification/Rate_Bucket.thy ===== *)
theory Rate_Bucket
  imports WW_Prelude
begin

text \<open>
  The token bucket of \<open>ww/base/rate_bucket.c\<close>, which the traffic shapers use. Credit is whole
  bytes plus thousandths of a byte. The C code never forms the products \<open>rate * elapsed\<close> or
  \<open>missing * 1000\<close>, which could overflow; the theorems show that its decomposed arithmetic
  computes exactly what the unbounded formulas say.
\<close>

section \<open>Model\<close>

record rate_bucket =
  credit :: nat
  last_refill_ms :: nat
  remainder :: nat
  has_clock :: bool

definition ratebucketSaturatingAdd :: "nat \<Rightarrow> nat \<Rightarrow> nat" where
  "ratebucketSaturatingAdd a b = (if b > sub64 UINT64_MAX a then UINT64_MAX else u64 (a + b))"

definition ratebucketSaturatingMultiply :: "nat \<Rightarrow> nat \<Rightarrow> nat" where
  "ratebucketSaturatingMultiply a b = (if a \<noteq> 0 \<and> b > UINT64_MAX div a then UINT64_MAX else u64 (a * b))"

definition ratebucketInit :: "nat \<Rightarrow> rate_bucket" where
  "ratebucketInit initial_credit =
     \<lparr>credit = initial_credit, last_refill_ms = 0, remainder = 0, has_clock = False\<rparr>"

definition ratebucketClamp :: "rate_bucket \<Rightarrow> nat \<Rightarrow> rate_bucket" where
  "ratebucketClamp bucket capacity =
     (if credit bucket \<ge> capacity then bucket\<lparr>credit := capacity, remainder := 0\<rparr> else bucket)"

text \<open>The tail of the refill: \<open>rate * elapsed / 1000\<close> without forming an unbounded product.\<close>

definition refillEarned :: "rate_bucket \<Rightarrow> nat \<Rightarrow> nat \<Rightarrow> nat \<Rightarrow> rate_bucket" where
  "refillEarned bucket rate capacity elapsed =
     (let missing = sub64 capacity (credit bucket);
          seconds = elapsed div 1000
      in if seconds \<noteq> 0 \<and> rate > sub64 missing 1 div seconds
         then bucket\<lparr>credit := capacity, remainder := 0\<rparr>
         else let earned = u64 (seconds * rate);
                  millis = elapsed mod 1000;
                  whole = rate div 1000
              in if millis \<noteq> 0 \<and> whole > sub64 (sub64 missing earned) 1 div millis
                 then bucket\<lparr>credit := capacity, remainder := 0\<rparr>
                 else let earned = u64 (earned + u64 (millis * whole));
                          fraction = u64 (millis * (rate mod 1000) + remainder bucket);
                          extra = fraction div 1000
                      in if extra \<ge> sub64 missing earned
                         then bucket\<lparr>credit := capacity, remainder := 0\<rparr>
                         else bucket\<lparr>credit := u64 (credit bucket + u64 (earned + extra)),
                                     remainder := u16 (fraction mod 1000)\<rparr>)"

definition ratebucketRefill :: "rate_bucket \<Rightarrow> nat \<Rightarrow> nat \<Rightarrow> nat \<Rightarrow> nat \<Rightarrow> rate_bucket option" where
  "ratebucketRefill bucket rate capacity step_ms now_ms = do {
     ensure (step_ms > 0);
     let bucket = ratebucketClamp bucket capacity;
     if \<not> has_clock bucket then Some (bucket\<lparr>last_refill_ms := now_ms, has_clock := True\<rparr>)
     else if now_ms \<le> last_refill_ms bucket then Some bucket
     else do {
       let elapsed = sub64 now_ms (last_refill_ms bucket);
       let elapsed = sub64 elapsed (elapsed mod step_ms);
       let bucket = bucket\<lparr>last_refill_ms := u64 (last_refill_ms bucket + elapsed)\<rparr>;
       if elapsed = 0 \<or> credit bucket = capacity \<or> rate = 0 then Some bucket
       else Some (refillEarned bucket rate capacity elapsed)
     }
   }"

definition ratebucketAvailable :: "rate_bucket \<Rightarrow> nat" where
  "ratebucketAvailable bucket = credit bucket"

definition ratebucketGrant :: "rate_bucket \<Rightarrow> nat \<Rightarrow> bool \<Rightarrow> nat \<times> rate_bucket" where
  "ratebucketGrant bucket requested allow_partial =
     (let grant = (if requested > credit bucket then (if allow_partial then credit bucket else 0) else requested)
      in (grant, bucket\<lparr>credit := sub64 (credit bucket) grant\<rparr>))"

text \<open>
  The binary search over the millisecond suffix of a wait. Its bounds stay between 0 and 1000.
\<close>

function retry_search :: "nat \<Rightarrow> nat \<Rightarrow> nat \<Rightarrow> nat \<Rightarrow> nat \<Rightarrow> nat" where
  "retry_search rate rem fraction low high =
     (if low < high then
        let middle = low + (high - low) div 2;
            whole = u64 ((rate div 1000) * middle);
            part = u64 ((rate mod 1000) * middle + fraction);
            whole = u64 (whole + part div 1000)
        in if whole \<ge> rem then retry_search rate rem fraction low middle
           else retry_search rate rem fraction (middle + 1) high
      else low)"
  by pat_completeness auto
termination
  by (relation "measure (\<lambda>(_, _, _, low, high). high - low)") (simp_all add: Let_def, linarith+)

declare retry_search.simps [simp del]

definition ratebucketRetryMs :: "rate_bucket \<Rightarrow> nat \<Rightarrow> nat \<Rightarrow> nat \<Rightarrow> nat \<Rightarrow> nat option" where
  "ratebucketRetryMs bucket rate step_ms now_ms requested = do {
     ensure (step_ms > 0);
     if credit bucket \<ge> requested then Some 0
     else if rate = 0 then Some UINT64_MAX
     else do {
       let missing = sub64 requested (credit bucket);
       let seconds = missing div rate;
       let rem = missing mod rate;
       let (seconds, rem) = (if rem = 0 \<and> seconds \<noteq> 0 then (sub64 seconds 1, rate) else (seconds, rem));
       let wait = ratebucketSaturatingMultiply seconds 1000;
       let low = retry_search rate rem (remainder bucket) 0 1000;
       let wait = ratebucketSaturatingAdd wait low;
       if wait = UINT64_MAX then Some wait
       else do {
         let steps = u64 (wait div step_ms + (if wait mod step_ms \<noteq> 0 then 1 else 0));
         let rounded = ratebucketSaturatingMultiply steps step_ms;
         let phase = (if has_clock bucket \<and> now_ms > last_refill_ms bucket
                      then sub64 now_ms (last_refill_ms bucket) mod step_ms else 0);
         Some (if rounded > phase then sub64 rounded phase else 1)
       }
     }
   }"

section \<open>Refilling\<close>

definition bucket_ok :: "rate_bucket \<Rightarrow> bool" where
  "bucket_ok b \<longleftrightarrow> credit b \<le> UINT64_MAX \<and> last_refill_ms b \<le> UINT64_MAX \<and> remainder b < 1000"

text \<open>Credit in thousandths, the whole recharge steps elapsed, and credit cut at the capacity.\<close>

definition tokens :: "rate_bucket \<Rightarrow> nat" where
  "tokens b = 1000 * credit b + remainder b"

definition whole_steps :: "nat \<Rightarrow> nat \<Rightarrow> nat \<Rightarrow> nat" where
  "whole_steps step_ms since now_ms = (now_ms - since) div step_ms * step_ms"

definition settle :: "nat \<Rightarrow> nat \<Rightarrow> rate_bucket \<Rightarrow> rate_bucket" where
  "settle capacity t b =
     (if t div 1000 \<ge> capacity then b\<lparr>credit := capacity, remainder := 0\<rparr>
      else b\<lparr>credit := t div 1000, remainder := t mod 1000\<rparr>)"

lemma tokens_div [simp]: "bucket_ok b \<Longrightarrow> tokens b div 1000 = credit b"
  and tokens_mod [simp]: "bucket_ok b \<Longrightarrow> tokens b mod 1000 = remainder b"
  by (simp_all add: tokens_def bucket_ok_def)

lemma settle_full: "capacity \<le> t div 1000 \<Longrightarrow> settle capacity t b = b\<lparr>credit := capacity, remainder := 0\<rparr>"
  by (simp add: settle_def)

lemma settle_partial:
  "t div 1000 < capacity \<Longrightarrow> settle capacity t b = b\<lparr>credit := t div 1000, remainder := t mod 1000\<rparr>"
  by (simp add: settle_def)

lemma settle_same:
  assumes "bucket_ok b" "credit b < capacity"
  shows "settle capacity (tokens b) (b\<lparr>last_refill_ms := l\<rparr>) = b\<lparr>last_refill_ms := l\<rparr>"
  using assms by (simp add: settle_def)

lemma minus_mod_steps: "(x :: nat) - x mod k = x div k * k"
  by (simp add: minus_mod_eq_div_mult)

text \<open>The decomposition of \<open>rate * elapsed\<close> into seconds, milliseconds and thousandths.\<close>

lemma earn_sum:
  fixes rate e c f :: nat
  assumes "e = 1000 * s + m" "rate = 1000 * w + g"
  shows "1000 * c + f + rate * e = 1000 * (c + (s * rate + m * w)) + (m * g + f)"
proof -
  have "rate * e = 1000 * (s * rate) + m * rate" using assms(1) by (simp add: algebra_simps)
  moreover have "m * rate = 1000 * (m * w) + m * g" using assms(2) by (simp add: algebra_simps)
  ultimately show ?thesis by simp
qed

lemma earn_split:
  fixes rate e c f :: nat
  assumes "e = 1000 * s + m" "rate = 1000 * w + g"
  shows "(1000 * c + f + rate * e) div 1000 = c + (s * rate + m * w) + (m * g + f) div 1000"
    "(1000 * c + f + rate * e) mod 1000 = (m * g + f) mod 1000"
  unfolding earn_sum [OF assms] by (simp_all only: div_mult_self4 mod_mult_self4)

lemma le_div_iff: "0 < (k :: nat) \<Longrightarrow> (n \<le> m div k) = (n * k \<le> m)"
  by (simp add: less_eq_div_iff_mult_less_eq)

lemma small_fraction:
  assumes "f < 1000"
  shows "e mod 1000 * (rate mod 1000) + f \<le> (1000000 :: nat)"
proof -
  have "e mod 1000 * (rate mod 1000) \<le> 999 * (999 :: nat)"
    using mod_less_divisor [of 1000 e] mod_less_divisor [of 1000 rate] by (intro mult_le_mono) linarith+
  then show ?thesis using assms by simp
qed

text \<open>The decomposed arithmetic is exact whenever some credit is missing.\<close>

lemma refillEarned_eq:
  assumes b: "bucket_ok b" and cap: "credit b < capacity" "capacity \<le> UINT64_MAX"
  shows "refillEarned b rate capacity e = settle capacity (tokens b + rate * e) b"
proof -
  define s m w g where parts: "s = e div 1000" "m = e mod 1000" "w = rate div 1000" "g = rate mod 1000"
  define f missing where fm: "f = m * g + remainder b" "missing = capacity - credit b"
  have bounds: "credit b \<le> UINT64_MAX" "remainder b < 1000"
    using b by (simp_all add: bucket_ok_def)
  have sub: "sub64 capacity (credit b) = missing" "sub64 missing 1 = missing - 1"
    using cap bounds by (simp_all add: fm)
  have missing: "0 < missing" "missing \<le> UINT64_MAX" "capacity = credit b + missing"
    using cap by (simp_all add: fm)
  have split: "(tokens b + rate * e) div 1000 = credit b + (s * rate + m * w) + f div 1000"
    "(tokens b + rate * e) mod 1000 = f mod 1000"
    using earn_split [of e s m rate w g "credit b" "remainder b"]
    by (simp_all add: parts tokens_def fm)
  have f: "u64 f = f" using small_fraction [OF bounds(2), of e rate] by (simp add: parts fm)
  have start: "refillEarned b rate capacity e =
      (if s \<noteq> 0 \<and> rate > (missing - 1) div s then b\<lparr>credit := capacity, remainder := 0\<rparr>
       else if m \<noteq> 0 \<and> w > sub64 (sub64 missing (u64 (s * rate))) 1 div m
       then b\<lparr>credit := capacity, remainder := 0\<rparr>
       else if f div 1000 \<ge> sub64 missing (u64 (u64 (s * rate) + u64 (m * w)))
       then b\<lparr>credit := capacity, remainder := 0\<rparr>
       else b\<lparr>credit := u64 (credit b + u64 (u64 (u64 (s * rate) + u64 (m * w)) + f div 1000)),
              remainder := u16 (f mod 1000)\<rparr>)"
    by (simp only: refillEarned_def Let_def sub f parts [symmetric] fm(1) [symmetric])
  show ?thesis
  proof (cases "missing \<le> s * rate")
    case True
    then have "s \<noteq> 0" using missing(1) by (cases "s = 0") simp_all
    moreover from this have "\<not> rate \<le> (missing - 1) div s"
      using True missing(1) by (simp add: le_div_iff mult.commute)
    moreover have "capacity \<le> (tokens b + rate * e) div 1000" using True missing by (simp add: split)
    ultimately show ?thesis unfolding start by (simp add: settle_full)
  next
    case False
    then have g1: "\<not> (s \<noteq> 0 \<and> rate > (missing - 1) div s)"
      by (cases "s = 0") (auto simp: not_less le_div_iff mult.commute)
    have u1: "u64 (s * rate) = s * rate" "sub64 missing (s * rate) = missing - s * rate"
      "sub64 (missing - s * rate) 1 = missing - s * rate - 1"
      using False missing by simp_all
    show ?thesis
    proof (cases "missing - s * rate \<le> m * w")
      case True
      then have "m \<noteq> 0" using False by (cases "m = 0") simp_all
      moreover from this have "\<not> w \<le> (missing - s * rate - 1) div m"
        using True False by (simp add: le_div_iff mult.commute)
      moreover have "capacity \<le> (tokens b + rate * e) div 1000" using True False missing by (simp add: split)
      ultimately show ?thesis unfolding start u1 using g1 by (simp add: settle_full)
    next
      case less: False
      then have g2: "\<not> (m \<noteq> 0 \<and> w > (missing - s * rate - 1) div m)"
        by (cases "m = 0") (auto simp: not_less le_div_iff mult.commute)
      have u2: "u64 (m * w) = m * w" "u64 (s * rate + m * w) = s * rate + m * w"
        "sub64 missing (s * rate + m * w) = missing - (s * rate + m * w)"
        using False less missing by simp_all
      show ?thesis
      proof (cases "f div 1000 \<ge> missing - (s * rate + m * w)")
        case True
        then have "capacity \<le> (tokens b + rate * e) div 1000" using missing by (simp add: split)
        then show ?thesis unfolding start u1 u2 using g1 g2 True by (simp add: settle_full)
      next
        case under: False
        have "u64 (s * rate + m * w + f div 1000) = s * rate + m * w + f div 1000"
          "u64 (credit b + (s * rate + m * w + f div 1000)) = credit b + (s * rate + m * w + f div 1000)"
          "u16 (f mod 1000) = f mod 1000"
          using under missing cap(2) mod_less_divisor [of 1000 f] by simp_all
        moreover have "(tokens b + rate * e) div 1000 < capacity" using under missing by (simp add: split)
        ultimately show ?thesis 
          unfolding start u1 u2 if_not_P [OF g1] if_not_P [OF g2] if_not_P [OF under]
          by (simp add: settle_partial split add.assoc)
      qed
    qed
  qed
qed

text \<open>The whole operation.\<close>

lemma refill_eq:
  assumes b: "bucket_ok b" and cap: "capacity \<le> UINT64_MAX" and step: "0 < step_ms" and now: "now_ms \<le> UINT64_MAX"
    and clock: "has_clock b"
  shows "ratebucketRefill b rate capacity step_ms now_ms =
    (let e = whole_steps step_ms (last_refill_ms b) now_ms
     in Some (settle capacity (tokens b + rate * e) (b\<lparr>last_refill_ms := last_refill_ms b + e\<rparr>)))"
proof -
  let ?l = "last_refill_ms b" and ?e = "whole_steps step_ms (last_refill_ms b) now_ms"
  let ?c = "ratebucketClamp b capacity"
  have el: "now_ms - ?l - (now_ms - ?l) mod step_ms = ?e" "?e \<le> now_ms - ?l"
    by (simp_all add: whole_steps_def minus_mod_steps)
  have sub: "sub64 now_ms ?l = now_ms - ?l" "sub64 (now_ms - ?l) ((now_ms - ?l) mod step_ms) = ?e"
    "u64 (?l + ?e) = ?l + ?e" if "?l < now_ms"
    using that now b el by (simp_all add: bucket_ok_def)
  have c: "last_refill_ms ?c = ?l" "has_clock ?c" using clock by (simp_all add: ratebucketClamp_def)
  have start: "ratebucketRefill b rate capacity step_ms now_ms = Some (
      if now_ms \<le> ?l then ?c
      else if ?e = 0 \<or> credit ?c = capacity \<or> rate = 0 then ?c\<lparr>last_refill_ms := ?l + ?e\<rparr>
      else refillEarned (?c\<lparr>last_refill_ms := ?l + ?e\<rparr>) rate capacity ?e)"
    using step c by (simp add: ratebucketRefill_def sub Let_def)
  have old: "now_ms \<le> ?l \<Longrightarrow> ?e = 0" by (simp add: whole_steps_def)
  show ?thesis
  proof (cases "capacity \<le> credit b")
    case True
    have "credit b \<le> (tokens b + rate * ?e) div 1000"
      using tokens_div [OF b] div_le_mono [of "tokens b" "tokens b + rate * ?e" 1000] by simp
    then show ?thesis using True old
      by (simp add: start Let_def settle_full ratebucketClamp_def)
  next
    case False
    then have cb: "?c = b" by (simp add: ratebucketClamp_def)
    have ok: "bucket_ok (b\<lparr>last_refill_ms := ?l + ?e\<rparr>)"
      using b el now by (cases "?l < now_ms") (simp_all add: bucket_ok_def old)
    consider "now_ms \<le> ?l" | "\<not> now_ms \<le> ?l" "?e = 0 \<or> rate = 0" | "\<not> now_ms \<le> ?l" "?e \<noteq> 0" "rate \<noteq> 0"
      by blast
    then show ?thesis
    proof cases
      case 1
      then show ?thesis using settle_same [OF b, of capacity ?l] False
        by (simp add: start cb old Let_def)
    next
      case 2
      then have t: "tokens b + rate * ?e = tokens b" by auto
      have "ratebucketRefill b rate capacity step_ms now_ms = Some (b\<lparr>last_refill_ms := ?l + ?e\<rparr>)"
        using 2 unfolding start cb by auto
      then show ?thesis using settle_same [OF b, of capacity "?l + ?e"] False
        unfolding Let_def t by simp
    next
      case 3
      then have "ratebucketRefill b rate capacity step_ms now_ms =
          Some (refillEarned (b\<lparr>last_refill_ms := ?l + ?e\<rparr>) rate capacity ?e)"
        using False unfolding start cb by simp
      then show ?thesis using refillEarned_eq [OF ok, of capacity rate ?e] False cap
        by (simp add: Let_def tokens_def)
    qed
  qed
qed

lemma refill_unclocked:
  "0 < step_ms \<Longrightarrow> \<not> has_clock b \<Longrightarrow> ratebucketRefill b rate capacity step_ms now_ms =
     Some ((ratebucketClamp b capacity)\<lparr>last_refill_ms := now_ms, has_clock := True\<rparr>)"
  by (simp add: ratebucketRefill_def ratebucketClamp_def)

lemma settle_bucket_ok:
  assumes "bucket_ok b" "capacity \<le> UINT64_MAX"
  shows "bucket_ok (settle capacity t b)"
  using assms mod_less_divisor [of 1000 t] by (auto simp: bucket_ok_def settle_def)

lemma settle_obs [simp]:
  "last_refill_ms (settle c t b) = last_refill_ms b" "has_clock (settle c t b) = has_clock b"
  "credit (settle c t b) = min c (t div 1000)"
  by (simp_all add: settle_def min_def)

lemma whole_steps_bound: "since + whole_steps step_ms since now_ms \<le> max since now_ms"
  by (cases "since \<le> now_ms")
     (simp_all add: whole_steps_def le_diff_conv2 [symmetric] minus_mod_steps [symmetric] max_def)

lemma refill_ok:
  assumes "bucket_ok b" "capacity \<le> UINT64_MAX" "0 < step_ms" "now_ms \<le> UINT64_MAX"
  shows "\<exists>b'. ratebucketRefill b rate capacity step_ms now_ms = Some b' \<and> bucket_ok b' \<and> credit b' \<le> capacity \<and>
    has_clock b' \<and> last_refill_ms b' \<le> max (last_refill_ms b) now_ms"
proof (cases "has_clock b")
  case True
  let ?e = "whole_steps step_ms (last_refill_ms b) now_ms"
  have le: "last_refill_ms b + ?e \<le> max (last_refill_ms b) now_ms" by (rule whole_steps_bound)
  then have "bucket_ok (b\<lparr>last_refill_ms := last_refill_ms b + ?e\<rparr>)"
    using assms by (auto simp: bucket_ok_def max_def split: if_splits)
  with le show ?thesis using refill_eq [OF assms True, of rate] settle_bucket_ok assms(2) True
    by (simp add: Let_def)
next
  case False
  with assms show ?thesis by (auto simp: refill_unclocked ratebucketClamp_def bucket_ok_def)
qed

text \<open>Refilling in between does not change what is earned.\<close>

lemma whole_steps_split:
  assumes "0 < step_ms" "since \<le> t1" "t1 \<le> t2"
  shows "whole_steps step_ms since t1 + whole_steps step_ms (since + whole_steps step_ms since t1) t2 =
    whole_steps step_ms since t2"
proof -
  let ?k = "(t1 - since) div step_ms"
  have "?k * step_ms \<le> t2 - since"
    using le_trans [OF times_div_less_eq_dividend [of step_ms "t1 - since"], of "t2 - since"] assms(2,3)
    by (simp add: mult.commute)
  then obtain r where r: "t2 - since = ?k * step_ms + r" using le_Suc_ex by blast
  then have "t2 - (since + ?k * step_ms) = r" by simp
  moreover have "(t2 - since) div step_ms = ?k + r div step_ms" unfolding r using assms(1) by simp
  ultimately show ?thesis by (simp add: whole_steps_def add_mult_distrib)
qed

lemma settle_again:
  "settle c (tokens (settle c t b) + x) (settle c t b\<lparr>last_refill_ms := l\<rparr>) =
   settle c (t + x) (b\<lparr>last_refill_ms := l\<rparr>)"
proof (cases "c \<le> t div 1000")
  case True
  moreover have "t div 1000 \<le> (t + x) div 1000" by (rule div_le_mono) simp
  moreover have "c \<le> (1000 * c + x) div 1000" by simp
  ultimately show ?thesis by (simp add: settle_full tokens_def)
next
  case False
  then have "tokens (settle c t b) = t" by (simp add: settle_partial tokens_def)
  then show ?thesis using False by (simp add: settle_def)
qed

lemma refill_twice:
  assumes "bucket_ok b" "capacity \<le> UINT64_MAX" "0 < step_ms" "has_clock b"
    "last_refill_ms b \<le> t1" "t1 \<le> t2" "t2 \<le> UINT64_MAX"
  shows "do { b \<leftarrow> ratebucketRefill b rate capacity step_ms t1; ratebucketRefill b rate capacity step_ms t2 } =
    ratebucketRefill b rate capacity step_ms t2"
proof -
  let ?l = "last_refill_ms b" and ?e1 = "whole_steps step_ms (last_refill_ms b) t1"
  let ?e2 = "whole_steps step_ms (last_refill_ms b + ?e1) t2"
  let ?b1 = "settle capacity (tokens b + rate * ?e1) (b\<lparr>last_refill_ms := ?l + ?e1\<rparr>)"
  have t1: "t1 \<le> UINT64_MAX" using assms by simp
  have r1: "ratebucketRefill b rate capacity step_ms t1 = Some ?b1"
    using refill_eq [OF assms(1-3) t1 assms(4)] by (simp add: Let_def)
  have ok: "bucket_ok ?b1"
    using refill_ok [OF assms(1-3) t1, of rate] r1 by simp
  have "ratebucketRefill ?b1 rate capacity step_ms t2 =
      Some (settle capacity (tokens ?b1 + rate * ?e2) (?b1\<lparr>last_refill_ms := ?l + ?e1 + ?e2\<rparr>))"
    using refill_eq [OF ok assms(2,3,7)] assms(4) by (simp add: Let_def)
  also have "\<dots> = Some (settle capacity (tokens b + rate * (?e1 + ?e2)) (b\<lparr>last_refill_ms := ?l + (?e1 + ?e2)\<rparr>))"
    unfolding settle_again by (simp add: add.assoc distrib_left)
  also have "?e1 + ?e2 = whole_steps step_ms ?l t2" by (rule whole_steps_split [OF assms(3,5,6)])
  finally show ?thesis using r1 refill_eq [OF assms(1-3,7,4)] by (simp add: Let_def)
qed

section \<open>Runs\<close>

datatype bucket_op = Refill nat | Grant nat bool

primrec bucket_run :: "nat \<Rightarrow> nat \<Rightarrow> nat \<Rightarrow> rate_bucket \<Rightarrow> bucket_op list \<Rightarrow> (nat \<times> rate_bucket) option" where
  "bucket_run rate capacity step_ms b [] = Some (0, b)"
| "bucket_run rate capacity step_ms b (a # as) =
     (case a of
        Refill now_ms \<Rightarrow> do {
          b \<leftarrow> ratebucketRefill b rate capacity step_ms now_ms;
          bucket_run rate capacity step_ms b as
        }
      | Grant requested partial \<Rightarrow> do {
          let (granted, b) = ratebucketGrant b requested partial;
          (total, b) \<leftarrow> bucket_run rate capacity step_ms b as;
          Some (granted + total, b)
        })"

definition op_times :: "bucket_op list \<Rightarrow> nat set" where
  "op_times as = {t. Refill t \<in> set as}"

lemma grant_obs:
  assumes "bucket_ok b" "ratebucketGrant b r p = (g, b')"
  shows "bucket_ok b'" "g \<le> credit b" "credit b' = credit b - g" "remainder b' = remainder b"
    "last_refill_ms b' = last_refill_ms b" "has_clock b' = has_clock b" "g \<le> r"
  using assms by (auto simp: ratebucketGrant_def Let_def bucket_ok_def split: if_splits)

lemma settle_tokens_le:
  assumes "bucket_ok b"
  shows "tokens (settle c t b) \<le> t"
proof (cases "c \<le> t div 1000")
  case True
  have "1000 * (t div 1000) \<le> t" by (rule times_div_less_eq_dividend)
  moreover have "1000 * c \<le> 1000 * (t div 1000)" using True by (rule mult_le_mono2)
  ultimately show ?thesis using True by (simp add: settle_full tokens_def)
next
  case False
  then show ?thesis by (simp add: settle_partial tokens_def)
qed

lemma run_conforms:
  assumes "bucket_ok b" "has_clock b" "capacity \<le> UINT64_MAX" "0 < step_ms" "\<forall>t\<in>op_times as. t \<le> UINT64_MAX"
  shows "\<exists>total b'. bucket_run rate capacity step_ms b as = Some (total, b') \<and> bucket_ok b' \<and>
    last_refill_ms b \<le> last_refill_ms b' \<and>
    1000 * total + tokens b' \<le> tokens b + rate * (last_refill_ms b' - last_refill_ms b)"
  using assms(1,2,5)
proof (induction as arbitrary: b)
  case Nil
  then show ?case by simp
next
  case (Cons a as)
  have rest: "\<forall>t\<in>op_times as. t \<le> UINT64_MAX" using Cons.prems(3) by (auto simp: op_times_def)
  show ?case
  proof (cases a)
    case (Refill now)
    let ?e = "whole_steps step_ms (last_refill_ms b) now"
    let ?c = "b\<lparr>last_refill_ms := last_refill_ms b + ?e\<rparr>"
    let ?b = "settle capacity (tokens b + rate * ?e) ?c"
    have now: "now \<le> UINT64_MAX" using Cons.prems(3) Refill by (auto simp: op_times_def)
    have r: "ratebucketRefill b rate capacity step_ms now = Some ?b"
      using refill_eq [OF Cons.prems(1) assms(3,4) now Cons.prems(2)] by (simp add: Let_def)
    have ok: "bucket_ok ?b" using refill_ok [OF Cons.prems(1) assms(3,4) now, of rate] r by simp
    have c: "tokens ?b \<le> tokens b + rate * ?e"
      by (cases "capacity \<le> (tokens b + rate * ?e) div 1000")
         (use settle_tokens_le [OF Cons.prems(1), of capacity "tokens b + rate * ?e"]
          in \<open>simp_all add: settle_def tokens_def\<close>)
    from Cons.IH [OF ok _ rest] Cons.prems(2) obtain total b' where
      IH: "bucket_run rate capacity step_ms ?b as = Some (total, b')" "bucket_ok b'"
        "last_refill_ms b + ?e \<le> last_refill_ms b'"
        "1000 * total + tokens b' \<le> tokens ?b + rate * (last_refill_ms b' - (last_refill_ms b + ?e))" by auto
    have "rate * ?e + rate * (last_refill_ms b' - (last_refill_ms b + ?e)) =
        rate * (last_refill_ms b' - last_refill_ms b)"
      using IH(3) by (simp flip: distrib_left)
    then show ?thesis using Refill r IH c by simp
  next
    case (Grant req part)
    obtain g b1 where g: "ratebucketGrant b req part = (g, b1)" by fastforce
    note o = grant_obs [OF Cons.prems(1) g]
    from Cons.IH [OF o(1) _ rest] Cons.prems(2) o obtain total b' where
      IH: "bucket_run rate capacity step_ms b1 as = Some (total, b')" "bucket_ok b'"
        "last_refill_ms b \<le> last_refill_ms b'"
        "1000 * total + tokens b' \<le> tokens b1 + rate * (last_refill_ms b' - last_refill_ms b)" by auto
    have "1000 * g + tokens b1 = tokens b" using o by (simp add: tokens_def)
    then show ?thesis using Grant g IH by simp
  qed
qed

section \<open>Waiting\<close>

text \<open>The bytes earned in \<open>t\<close> milliseconds, starting from a fraction.\<close>

definition earns :: "nat \<Rightarrow> nat \<Rightarrow> nat \<Rightarrow> nat" where
  "earns rate f t = (rate * t + f) div 1000"

lemma earns_mono: "t \<le> u \<Longrightarrow> earns rate f t \<le> earns rate f u"
  by (simp add: earns_def div_le_mono)

lemma earns_seconds: "earns rate f (1000 * s + t) = rate * s + earns rate f t"
proof -
  have "rate * (1000 * s + t) + f = 1000 * (rate * s) + (rate * t + f)" by (simp add: algebra_simps)
  then show ?thesis by (simp only: earns_def div_mult_self4)
qed

lemma saturating_multiply_eq: "ratebucketSaturatingMultiply a b = min UINT64_MAX (a * b)"
proof (cases "a = 0")
  case False
  then have "(b > UINT64_MAX div a) = (a * b > UINT64_MAX)"
    using le_div_iff [of a b UINT64_MAX] by (simp only: not_le [symmetric] mult.commute)
  then show ?thesis using False by (simp add: ratebucketSaturatingMultiply_def min_def)
qed (simp add: ratebucketSaturatingMultiply_def)

lemma saturating_add_eq: "a \<le> UINT64_MAX \<Longrightarrow> ratebucketSaturatingAdd a b = min UINT64_MAX (a + b)"
  by (auto simp: ratebucketSaturatingAdd_def min_def)

lemma search_probe:
  assumes "rate \<le> UINT64_MAX" "f < 1000" "m \<le> 1000"
  shows "u64 (u64 (rate div 1000 * m) + u64 (rate mod 1000 * m + f) div 1000) = earns rate f m"
proof -
  have "rate mod 1000 * m \<le> 999 * 1000"
    using mod_less_divisor [of 1000 rate] assms(3) by (intro mult_le_mono) linarith+
  then have p: "u64 (rate mod 1000 * m + f) = rate mod 1000 * m + f" using assms(2) by simp
  have w: "rate div 1000 * m \<le> rate div 1000 * 1000" using assms(3) by simp
  also have "\<dots> \<le> rate" by simp
  finally have w: "u64 (rate div 1000 * m) = rate div 1000 * m" "rate div 1000 * m \<le> UINT64_MAX"
    using assms(1) by simp_all
  have "rate * m + f = 1000 * (rate div 1000 * m) + (rate mod 1000 * m + f)"
    using mult_div_mod_eq [of 1000 rate] by (metis add.assoc add_mult_distrib mult.assoc)
  then have e: "earns rate f m = rate div 1000 * m + (rate mod 1000 * m + f) div 1000"
    by (simp only: earns_def div_mult_self4)
  have "earns rate f m \<le> earns rate f 1000" using assms(3) by (rule earns_mono)
  also have "\<dots> = rate" using earns_seconds [of rate f 1 0] assms(2) by (simp add: earns_def)
  finally show ?thesis using assms(1) by (simp add: p w e)
qed

lemma retry_search_step:
  assumes "rate \<le> UINT64_MAX" "f < 1000" "low < high" "high \<le> 1000"
  obtains m where "low \<le> m" "m < high"
    "retry_search rate rem f low high =
      (if rem \<le> earns rate f m then retry_search rate rem f low m else retry_search rate rem f (m + 1) high)"
proof
  let ?m = "low + (high - low) div 2"
  show m: "low \<le> ?m" "?m < high" using assms(3) by auto
  have "?m \<le> 1000" using m assms(4) by linarith
  note probe = search_probe [OF assms(1,2) this]
  show "retry_search rate rem f low high =
      (if rem \<le> earns rate f ?m then retry_search rate rem f low ?m else retry_search rate rem f (?m + 1) high)"
    by (subst retry_search.simps) (simp only: Let_def probe assms(3) if_True)
qed

lemma retry_search_least:
  assumes "rate \<le> UINT64_MAX" "f < 1000" "low \<le> high" "high \<le> 1000" "rem \<le> earns rate f high"
    "\<forall>t<low. earns rate f t < rem"
  shows "rem \<le> earns rate f (retry_search rate rem f low high) \<and> retry_search rate rem f low high \<le> 1000 \<and>
    (\<forall>t<retry_search rate rem f low high. earns rate f t < rem)"
  using assms(3-6)
proof (induction "high - low" arbitrary: low high rule: less_induct)
  case less
  show ?case
  proof (cases "low < high")
    case False
    then have "retry_search rate rem f low high = low" by (subst retry_search.simps) simp
    then show ?thesis using False less.prems by simp
  next
    case True
    then obtain m where m: "low \<le> m" "m < high" "retry_search rate rem f low high =
        (if rem \<le> earns rate f m then retry_search rate rem f low m else retry_search rate rem f (m + 1) high)"
      using retry_search_step [OF assms(1,2) True less.prems(2)] by blast
    show ?thesis
    proof (cases "rem \<le> earns rate f m")
      case yes: True
      then show ?thesis unfolding m(3) using less.hyps [of m low] m(1,2) less.prems(2,4) by simp
    next
      case no: False
      have "\<forall>t<m + 1. earns rate f t < rem"
        using no earns_mono [of _ m rate f] by (auto simp: less_Suc_eq_le not_le intro: le_less_trans)
      then show ?thesis unfolding m(3) using no less.hyps [of high "m + 1"] m(1,2) less.prems(2,3) by simp
    qed
  qed
qed

lemma retry_search_eqI:
  assumes "rate \<le> UINT64_MAX" "f < 1000" "Suc t \<le> 1000" "rem \<le> earns rate f (Suc t)" "earns rate f t < rem"
  shows "retry_search rate rem f 0 1000 = Suc t"
proof -
  have "rem \<le> earns rate f 1000" using earns_mono [OF assms(3), of rate f] assms(4) by linarith
  then have r: "rem \<le> earns rate f (retry_search rate rem f 0 1000)"
    "\<forall>u<retry_search rate rem f 0 1000. earns rate f u < rem"
    using retry_search_least [OF assms(1,2), of 0 1000 rem] by simp_all
  have "\<not> retry_search rate rem f 0 1000 \<le> t" using r(1) assms(5) earns_mono [of _ t rate f] by fastforce
  moreover have "\<not> Suc t < retry_search rate rem f 0 1000" using r(2) assms(4) not_le by blast
  ultimately show ?thesis by linarith
qed

lemma steps_up:
  assumes "0 < (k :: nat)"
  shows "w \<le> (w div k + (if w mod k \<noteq> 0 then 1 else 0)) * k"
    "(w div k + (if w mod k \<noteq> 0 then 1 else 0)) * k < w + k"
proof -
  have d: "w = w div k * k + w mod k" "w mod k < k" using assms by simp_all
  show "w \<le> (w div k + (if w mod k \<noteq> 0 then 1 else 0)) * k"
  proof (cases "w mod k = 0")
    case False
    then have "(w div k + (if w mod k \<noteq> 0 then 1 else 0)) * k = w div k * k + k" by (simp add: add_mult_distrib)
    then show ?thesis using d by linarith
  qed (use d in simp)
  show "(w div k + (if w mod k \<noteq> 0 then 1 else 0)) * k < w + k"
  proof (cases "w mod k = 0")
    case False
    then have "(w div k + (if w mod k \<noteq> 0 then 1 else 0)) * k = w div k * k + k" by (simp add: add_mult_distrib)
    then show ?thesis using d False by linarith
  qed (use d assms in simp)
qed

lemma multiple_gap:
  assumes "(a :: nat) * k < b * k"
  shows "a * k + k \<le> b * k"
proof -
  have "a < b" using assms by (simp add: mult_less_cancel2)
  then have "(a + 1) * k \<le> b * k" by (intro mult_le_mono1) simp
  then show ?thesis by simp
qed

text \<open>The value of the wait: the least whole number of steps after which enough is earned.\<close>

lemma retry_returns:
  assumes "bucket_ok b" "0 < step_ms" "requested \<le> UINT64_MAX"
  shows "\<exists>w. ratebucketRetryMs b rate step_ms now_ms requested = Some w \<and> (w = 0 \<longleftrightarrow> requested \<le> credit b) \<and>
    (credit b < requested \<longrightarrow> rate = 0 \<longrightarrow> w = UINT64_MAX)"
proof (cases "requested \<le> credit b \<or> rate = 0")
  case True
  then show ?thesis using assms(2) by (auto simp: ratebucketRetryMs_def)
next
  case False
  have pos: "(if ratebucketSaturatingMultiply s step_ms > phase then sub64 (ratebucketSaturatingMultiply s step_ms) phase
      else 1) \<noteq> 0" for s phase
    by (simp add: saturating_multiply_eq)
  have tail: "\<exists>w. (if wait = UINT64_MAX then Some wait else Some
      (if ratebucketSaturatingMultiply s step_ms > phase then sub64 (ratebucketSaturatingMultiply s step_ms) phase
       else 1)) = Some w \<and> w \<noteq> 0" for wait s phase
    using pos [of phase s] by simp
  have step: "ensure (step_ms > 0) = Some ()" using assms(2) by (simp add: ensure_def)
  have branch: "(requested \<le> credit b) = False" "(rate = 0) = False" using False by simp_all
  have "\<exists>w. ratebucketRetryMs b rate step_ms now_ms requested = Some w \<and> w \<noteq> 0"
    unfolding ratebucketRetryMs_def Let_def step
    by (simp only: branch if_False bind.bind_lunit split: prod.splits) (intro allI impI tail)
  then show ?thesis using False by auto
qed

lemma retry_value:
  assumes b: "bucket_ok b" "has_clock b" and step: "0 < step_ms"
    and now: "last_refill_ms b \<le> now_ms" "now_ms - last_refill_ms b < step_ms" "now_ms \<le> UINT64_MAX"
    and req: "credit b < requested" "requested \<le> UINT64_MAX" and rate: "0 < rate" "rate \<le> UINT64_MAX"
    and w: "ratebucketRetryMs b rate step_ms now_ms requested = Some w" "now_ms + w < UINT64_MAX"
  shows "\<exists>r n. now_ms + w = last_refill_ms b + r \<and> r = n * step_ms \<and> 0 < w \<and>
    requested - credit b \<le> earns rate (remainder b) r \<and>
    (\<forall>k. k * step_ms < r \<longrightarrow> earns rate (remainder b) (k * step_ms) < requested - credit b)"
proof -
  let ?f = "remainder b"
  define missing where "missing = requested - credit b"
  define s where "s = (if missing mod rate = 0 \<and> missing div rate \<noteq> 0 then missing div rate - 1 else missing div rate)"
  define rem where "rem = (if missing mod rate = 0 \<and> missing div rate \<noteq> 0 then rate else missing mod rate)"
  define low where "low = retry_search rate rem ?f 0 1000"
  have f: "?f < 1000" using b by (simp add: bucket_ok_def)
  have mis: "0 < missing" "missing \<le> UINT64_MAX" using req by (simp_all add: missing_def)
  have parts: "missing = rate * s + rem" "0 < rem" "rem \<le> rate"
  proof -
    have d: "missing = rate * (missing div rate) + missing mod rate" by simp
    show "0 < rem" using mis(1) rate(1) by (auto simp: rem_def div_eq_0_iff)
    show "rem \<le> rate" using rate(1) by (simp add: rem_def less_imp_le)
    show "missing = rate * s + rem"
      using d by (cases "missing div rate") (auto simp: s_def rem_def)
  qed
  have "rem \<le> earns rate ?f 1000" using earns_seconds [of rate ?f 1 0] parts(3) by simp
  then have low: "rem \<le> earns rate ?f low" "low \<le> 1000" "\<forall>t<low. earns rate ?f t < rem"
    using retry_search_least [OF rate(2) f, of 0 1000 rem] by (simp_all add: low_def)
  have low0: "0 < low" using low(1) f parts(2) by (cases low) (simp_all add: earns_def)
  have enough: "missing \<le> earns rate ?f (1000 * s + low)"
    using low(1) by (simp add: earns_seconds parts(1))
  have short: "earns rate ?f t < missing" if "t < 1000 * s + low" for t
  proof (cases "t < 1000 * s")
    case True
    have "earns rate ?f t \<le> earns rate ?f (1000 * s + 0)" using True by (intro earns_mono) simp
    also have "\<dots> = rate * s" using f unfolding earns_seconds by (simp add: earns_def)
    finally show ?thesis using parts by simp
  next
    case False
    then obtain u where u: "t = 1000 * s + u" using le_Suc_ex not_less by blast
    then show ?thesis using low(3) that by (simp add: earns_seconds parts(1))
  qed
  define wait where "wait = ratebucketSaturatingAdd (ratebucketSaturatingMultiply s 1000) low"
  have run: "ratebucketRetryMs b rate step_ms now_ms requested =
    (if wait = UINT64_MAX then Some wait else Some (
       let rounded = ratebucketSaturatingMultiply
             (u64 (wait div step_ms + (if wait mod step_ms \<noteq> 0 then 1 else 0))) step_ms;
           phase = (if has_clock b \<and> now_ms > last_refill_ms b
             then sub64 now_ms (last_refill_ms b) mod step_ms else 0)
       in if rounded > phase then sub64 rounded phase else 1))"
  proof -
    have m: "sub64 requested (credit b) = missing" using req by (simp add: missing_def)
    have p: "(if missing mod rate = 0 \<and> missing div rate \<noteq> 0 then (sub64 (missing div rate) 1, rate)
        else (missing div rate, missing mod rate)) = (s, rem)"
      using mis le_trans [OF div_le_dividend [of missing rate] mis(2)] by (auto simp: s_def rem_def)
    show ?thesis
      using step req(1) rate(1)
      unfolding ratebucketRetryMs_def Let_def m p prod.case low_def [symmetric] wait_def [symmetric]
      by simp
  qed
  have wait: "wait = 1000 * s + low" "wait < UINT64_MAX"
  proof -
    have "wait \<noteq> UINT64_MAX" using w run by auto
    moreover have "wait = UINT64_MAX \<or> wait = 1000 * s + low \<and> wait \<le> UINT64_MAX"
      using low0 by (simp add: wait_def saturating_add_eq saturating_multiply_eq min_def)
    ultimately show "wait = 1000 * s + low" "wait < UINT64_MAX" by auto
  qed
  let ?l = "last_refill_ms b" and ?phase = "now_ms - last_refill_ms b"
  define n where "n = wait div step_ms + (if wait mod step_ms \<noteq> 0 then 1 else 0)"
  note up = steps_up [OF step, of wait, folded n_def]
  have "n \<le> wait + 1" using div_le_dividend [of wait step_ms] unfolding n_def by (simp only: split: if_split) linarith
  then have n: "u64 n = n" using wait(2) by simp
  have phase: "(if has_clock b \<and> now_ms > ?l then sub64 now_ms ?l mod step_ms else 0) = ?phase"
    using b(2) now by simp
  have val: "w = (if ratebucketSaturatingMultiply n step_ms > ?phase
      then sub64 (ratebucketSaturatingMultiply n step_ms) ?phase else 1)"
    using w(1) wait(2) unfolding run Let_def phase n_def [symmetric] n by simp
  have fits: "n * step_ms \<le> UINT64_MAX"
  proof (rule ccontr)
    assume "\<not> n * step_ms \<le> UINT64_MAX"
    then have "ratebucketSaturatingMultiply n step_ms = UINT64_MAX" by (simp add: saturating_multiply_eq)
    then have "w = (if UINT64_MAX > ?phase then UINT64_MAX - ?phase else 1)" using val by simp
    then show False using w(2) by (simp split: if_splits)
  qed
  then have sat: "ratebucketSaturatingMultiply n step_ms = n * step_ms" by (simp add: saturating_multiply_eq)
  have "n \<noteq> 0" using up(1) wait(1) low0 by (cases "n = 0") simp_all
  then have big: "?phase < n * step_ms" using now(2) by (cases n) simp_all
  then have w_eq: "w = n * step_ms - ?phase" using val fits unfolding sat by simp
  then have reach: "now_ms + w = ?l + n * step_ms" using now(1) big by simp
  have first: "missing \<le> earns rate ?f (n * step_ms)"
    using enough earns_mono [OF up(1), of rate ?f] wait(1) by simp
  have least: "earns rate ?f (k * step_ms) < missing" if "k * step_ms < n * step_ms" for k
    using short [of "k * step_ms"] multiple_gap [OF that] up(2) wait(1) by simp
  show ?thesis
    using reach first least w_eq big
    by (intro exI [of _ "n * step_ms"] exI [of _ n]) (simp add: missing_def)
qed

lemma refill_credit:
  assumes "bucket_ok b" "capacity \<le> UINT64_MAX" "0 < step_ms" "t \<le> UINT64_MAX" "has_clock b" "credit b \<le> capacity"
    "ratebucketRefill b rate capacity step_ms t = Some b'"
  shows "credit b' = min capacity (credit b + earns rate (remainder b) (whole_steps step_ms (last_refill_ms b) t))"
proof -
  have "(tokens b + rate * e) div 1000 = credit b + earns rate (remainder b) e" for e
    by (simp add: tokens_def earns_def add.assoc add.commute [of "remainder b"])
  then show ?thesis using refill_eq [OF assms(1-5)] assms(7) by (auto simp: Let_def)
qed

section \<open>Properties\<close>

definition sample_bucket :: rate_bucket where
  "sample_bucket = \<lparr>credit = 100, last_refill_ms = 5000, remainder = 250, has_clock = True\<rparr>"

lemma sample_bucket_ok: "bucket_ok sample_bucket" "has_clock sample_bucket" "last_refill_ms sample_bucket = 5000"
  "credit sample_bucket = 100"
  by (simp_all add: bucket_ok_def sample_bucket_def)

text \<open>C19. Refilling is exact: for every 64-bit rate, capacity and clock the bucket ends with the old
  credit plus rate times elapsed whole steps, in thousandths, cut at the capacity, although the
  code forms no product that could overflow.\<close>

theorem rate_refill_exact:
  assumes "bucket_ok b" "has_clock b" "capacity \<le> UINT64_MAX" "0 < step_ms" "now_ms \<le> UINT64_MAX"
  shows "\<exists>b'. ratebucketRefill b rate capacity step_ms now_ms = Some b' \<and> bucket_ok b' \<and>
    (let e = whole_steps step_ms (last_refill_ms b) now_ms; t = tokens b + rate * e
     in last_refill_ms b' = last_refill_ms b + e \<and>
        (if capacity \<le> t div 1000 then credit b' = capacity \<and> remainder b' = 0 else tokens b' = t))"
  using refill_eq [OF assms(1,3,4,5,2), of rate] refill_ok [OF assms(1,3,4,5), of rate]
  by (auto simp: Let_def settle_def tokens_def)

theorem rate_refill_exact_witness:
  "\<exists>b'. ratebucketRefill sample_bucket 18446744073709551615 18446744073709551615 1 1000000 = Some b' \<and>
    credit b' = 18446744073709551615"
  using rate_refill_exact [OF sample_bucket_ok(1,2), of 18446744073709551615 1 1000000 18446744073709551615]
  by (auto simp: Let_def whole_steps_def sample_bucket_def tokens_def)

text \<open>Refilling is free of drift: any intermediate refill leaves the later result unchanged.\<close>

lemma rate_refill_no_drift:
  assumes "bucket_ok b" "has_clock b" "capacity \<le> UINT64_MAX" "0 < step_ms"
    "last_refill_ms b \<le> t1" "t1 \<le> t2" "t2 \<le> UINT64_MAX"
  shows "do { b \<leftarrow> ratebucketRefill b rate capacity step_ms t1; ratebucketRefill b rate capacity step_ms t2 } =
    ratebucketRefill b rate capacity step_ms t2"
  using refill_twice [OF assms(1,3,4,2,5-7)] .

text \<open>C8. The bucket enforces its rate: over any run of refills and grants the granted bytes never
  exceed the initial credit plus rate times the time the clock advanced.\<close>

theorem rate_conformance:
  assumes "bucket_ok b" "has_clock b" "capacity \<le> UINT64_MAX" "0 < step_ms" "\<forall>t\<in>op_times as. t \<le> UINT64_MAX"
  shows "\<exists>total b'. bucket_run rate capacity step_ms b as = Some (total, b') \<and>
    1000 * total \<le> 1000 * credit b + remainder b + rate * (last_refill_ms b' - last_refill_ms b)"
  using run_conforms [OF assms, of rate] by (auto simp: tokens_def)

theorem rate_conformance_witness:
  "\<exists>total b'. bucket_run 500 1000 10 sample_bucket [Grant 80 False, Refill 5100, Grant 90 True] = Some (total, b') \<and>
    1000 * total \<le> 100250 + 500 * (last_refill_ms b' - 5000)"
  using rate_conformance [OF sample_bucket_ok(1,2), of 1000 10 "[Grant 80 False, Refill 5100, Grant 90 True]" 500]
  by (auto simp: op_times_def sample_bucket_def)

text \<open>C28. The reported wait, on every branch. It is zero exactly when the credit is there already, and the value that stands for
  an endless wait when the rate is zero. Otherwise, for a bucket with a clock whose last refill lies less than one recharge
  step back, for a request within the capacity and a wait that ends before the clock does, it is exact: refilling when the
  wait is over yields the requested credit, and refilling at any earlier moment does not.\<close>

theorem rate_retry_exact:
  assumes "bucket_ok b" "has_clock b" "0 < step_ms" "last_refill_ms b \<le> now_ms" "now_ms - last_refill_ms b < step_ms"
    "requested \<le> capacity" "capacity \<le> UINT64_MAX" "rate \<le> UINT64_MAX"
  shows "\<exists>w. ratebucketRetryMs b rate step_ms now_ms requested = Some w \<and> (w = 0 \<longleftrightarrow> requested \<le> credit b) \<and>
    (credit b < requested \<longrightarrow> rate = 0 \<longrightarrow> w = UINT64_MAX) \<and>
    (credit b < requested \<longrightarrow> 0 < rate \<longrightarrow> now_ms + w < UINT64_MAX \<longrightarrow>
      (\<exists>b'. ratebucketRefill b rate capacity step_ms (now_ms + w) = Some b' \<and> requested \<le> credit b') \<and>
      (\<forall>t. now_ms \<le> t \<longrightarrow> t < now_ms + w \<longrightarrow>
         (\<exists>b'. ratebucketRefill b rate capacity step_ms t = Some b' \<and> credit b' < requested)))"
proof -
  from retry_returns [OF assms(1,3) order.trans [OF assms(6,7)]] obtain w
    where w: "ratebucketRetryMs b rate step_ms now_ms requested = Some w \<and> (w = 0 \<longleftrightarrow> requested \<le> credit b) \<and>
      (credit b < requested \<longrightarrow> rate = 0 \<longrightarrow> w = UINT64_MAX)" ..
  have exact: "(\<exists>b'. ratebucketRefill b rate capacity step_ms (now_ms + w) = Some b' \<and> requested \<le> credit b') \<and>
      (\<forall>t. now_ms \<le> t \<longrightarrow> t < now_ms + w \<longrightarrow>
         (\<exists>b'. ratebucketRefill b rate capacity step_ms t = Some b' \<and> credit b' < requested))"
    if c: "credit b < requested" "0 < rate" "now_ms + w < UINT64_MAX"
  proof (intro conjI allI impI)
    have now: "now_ms \<le> UINT64_MAX" and req: "requested \<le> UINT64_MAX" using assms(6,7) c(3) by linarith+
    obtain r n where r: "now_ms + w = last_refill_ms b + r" "r = n * step_ms" "0 < w"
      "requested - credit b \<le> earns rate (remainder b) r"
      "\<And>k. k * step_ms < r \<Longrightarrow> earns rate (remainder b) (k * step_ms) < requested - credit b"
      using retry_value [OF assms(1-5) now c(1) req c(2) assms(8) conjunct1 [OF w] c(3)] by blast
    have total: "\<exists>b'. ratebucketRefill b rate capacity step_ms t = Some b' \<and> credit b' =
        min capacity (credit b + earns rate (remainder b) (whole_steps step_ms (last_refill_ms b) t))"
      if "t < UINT64_MAX" for t
    proof -
      have t: "t \<le> UINT64_MAX" and b: "credit b \<le> capacity" using that c(1) assms(6) by linarith+
      from refill_ok [OF assms(1,7,3) t, of rate] obtain b'
        where "ratebucketRefill b rate capacity step_ms t = Some b'" by blast
      with refill_credit [OF assms(1,7,3) t assms(2) b this] show ?thesis by blast
    qed
    have end_steps: "whole_steps step_ms (last_refill_ms b) (now_ms + w) = r"
      using r(1,2) assms(3) by (simp add: whole_steps_def)
    have "requested \<le> min capacity (credit b + earns rate (remainder b) r)"
      using r(4) assms(6) c(1) by linarith
    with total [OF c(3)] end_steps
    show "\<exists>b'. ratebucketRefill b rate capacity step_ms (now_ms + w) = Some b' \<and> requested \<le> credit b'"
      by metis
    fix t assume t: "now_ms \<le> t" "t < now_ms + w"
    let ?k = "(t - last_refill_ms b) div step_ms"
    have "?k * step_ms \<le> t - last_refill_ms b" by simp
    then have "?k * step_ms < r" using t r(1) assms(4) by linarith
    from r(5) [OF this]
    have "credit b + earns rate (remainder b) (whole_steps step_ms (last_refill_ms b) t) < requested"
      using t(1) assms(4) c(1) by (simp add: whole_steps_def)
    then have "min capacity (credit b + earns rate (remainder b) (whole_steps step_ms (last_refill_ms b) t)) < requested"
      by linarith
    moreover have "t < UINT64_MAX" using t(2) c(3) by linarith
    ultimately show "\<exists>b'. ratebucketRefill b rate capacity step_ms t = Some b' \<and> credit b' < requested"
      using total [of t] by metis
  qed
  show ?thesis
    by (rule exI [of _ w]) (use w in \<open>elim conjE, intro conjI impI exact [THEN conjunct1] exact [THEN conjunct2]; simp\<close>)
qed

lemma retry_sample: "ratebucketRetryMs sample_bucket 500 10 5003 101 = Some 7"
proof -
  have "retry_search 500 1 250 0 1000 = 2"
    using retry_search_eqI [of 500 250 1 1] by (simp add: earns_def numeral_2_eq_2)
  then show ?thesis
    by (simp add: ratebucketRetryMs_def sample_bucket_def saturating_multiply_eq saturating_add_eq Let_def)
qed

theorem rate_retry_exact_witness:
  "\<exists>b' b''. ratebucketRetryMs sample_bucket 500 10 5003 101 = Some 7 \<and>
    ratebucketRefill sample_bucket 500 1000 10 (5003 + 7) = Some b' \<and> 101 \<le> credit b' \<and>
    ratebucketRefill sample_bucket 500 1000 10 5009 = Some b'' \<and> credit b'' < 101"
proof -
  have e: "(\<exists>b'. ratebucketRefill sample_bucket 500 1000 10 (5003 + 7) = Some b' \<and> 101 \<le> credit b') \<and>
      (\<forall>t. 5003 \<le> t \<longrightarrow> t < 5003 + 7 \<longrightarrow>
         (\<exists>b'. ratebucketRefill sample_bucket 500 1000 10 t = Some b' \<and> credit b' < 101))"
    using rate_retry_exact [OF sample_bucket_ok(1,2), of 10 5003 101 1000 500] retry_sample
    by (simp add: sample_bucket_def)
  obtain b' where "ratebucketRefill sample_bucket 500 1000 10 (5003 + 7) = Some b'" "101 \<le> credit b'" using e by blast
  moreover have "\<exists>b''. ratebucketRefill sample_bucket 500 1000 10 5009 = Some b'' \<and> credit b'' < 101"
    using e by simp
  ultimately show ?thesis using retry_sample by blast
qed

text \<open>
  A saturated wait is reduced by the phase, so the value that stands for an unrepresentable wait
  is not returned although the rounded wait does not fit in 64 bits.
\<close>

lemma retry_saturation_phase:
  "ratebucketRetryMs \<lparr>credit = 0, last_refill_ms = 0, remainder = 0, has_clock = True\<rparr> 10 1000 1
     184467440737095511 = Some 18446744073709551614"
proof -
  have "retry_search 10 1 0 0 1000 = 100"
    using retry_search_eqI [of 10 0 99 1] by (simp add: earns_def)
  then show ?thesis
    by (simp add: ratebucketRetryMs_def saturating_multiply_eq saturating_add_eq Let_def)
qed

end
