(* ===== verification/Tls_Client_Hello.thy ===== *)
theory Tls_Client_Hello
  imports WW_Prelude
begin

text \<open>
  The TLS ClientHello parser of \<open>ww/net/tls_client_hello.c\<close>, which nodes use to find the server
  name before a connection is routed or rewritten. The input comes from the network, so every
  read goes through memory that ends where the caller's buffer ends: a read past it is \<open>None\<close>.

  Cursors are bounded by the body length, which is at most \<open>UINT32_MAX\<close>, and are therefore never
  near the range of \<open>size_t\<close>; the offsets stored in the view are 32-bit sums and wrap.
\<close>

section \<open>Model\<close>

datatype tls_client_hello_result =
    TlsClientHelloNeedMore
  | TlsClientHelloNotClientHello
  | TlsClientHelloMalformed
  | TlsClientHelloNoSni
  | TlsClientHelloFound

record tls_client_hello_view =
  record_total_length :: nat
  record_body_length :: nat
  record_length_field_offset :: nat
  handshake_offset :: nat
  handshake_total_length :: nat
  handshake_body_offset :: nat
  handshake_body_length :: nat
  handshake_length_field_offset :: nat
  extensions_length_field_offset :: nat
  extensions_offset :: nat
  extensions_length :: nat
  sni_extension_offset :: nat
  sni_extension_length_field_offset :: nat
  server_name_list_length_field_offset :: nat
  sni_name_length_field_offset :: nat
  sni_name_offset :: nat
  sni_extension_length :: nat
  server_name_list_length :: nat
  sni_name_length :: nat
  sni_extension_index :: nat
  psk_extension_offset :: nat
  psk_extension_length :: nat
  psk_extension_index :: nat
  ech_extension_offset :: nat
  ech_extension_data_offset :: nat
  ech_extension_length :: nat
  ech_extension_index :: nat
  has_sni :: bool
  has_psk :: bool
  has_ech :: bool
  ech_before_sni :: bool

definition kTlsRecordHeaderLength :: nat where "kTlsRecordHeaderLength = 5"
definition kTlsHandshakeHeaderLength :: nat where "kTlsHandshakeHeaderLength = 4"
definition kTlsClientHelloFixedLength :: nat where "kTlsClientHelloFixedLength = 34"
definition kTlsExtensionServerName :: nat where "kTlsExtensionServerName = 0"
definition kTlsExtensionPreSharedKey :: nat where "kTlsExtensionPreSharedKey = 41"
definition kTlsExtensionEncryptedHello :: nat where "kTlsExtensionEncryptedHello = 65037"

lemmas tls_consts =
  kTlsRecordHeaderLength_def kTlsHandshakeHeaderLength_def kTlsClientHelloFixedLength_def
  kTlsExtensionServerName_def kTlsExtensionPreSharedKey_def kTlsExtensionEncryptedHello_def

definition rangeContains :: "nat \<Rightarrow> nat \<Rightarrow> nat \<Rightarrow> bool" where
  "rangeContains offset len limit \<longleftrightarrow> offset \<le> limit \<and> len \<le> limit - offset"

lemma rangeContains_iff [simp]: "rangeContains offset len limit \<longleftrightarrow> offset + len \<le> limit"
  by (auto simp: rangeContains_def)

definition tlsclienthelloInitializeView :: tls_client_hello_view where
  "tlsclienthelloInitializeView =
     \<lparr>record_total_length = 0, record_body_length = 0, record_length_field_offset = UINT32_MAX,
      handshake_offset = 0, handshake_total_length = 0, handshake_body_offset = 0,
      handshake_body_length = 0, handshake_length_field_offset = UINT32_MAX,
      extensions_length_field_offset = 0, extensions_offset = 0, extensions_length = 0,
      sni_extension_offset = 0, sni_extension_length_field_offset = 0,
      server_name_list_length_field_offset = 0, sni_name_length_field_offset = 0, sni_name_offset = 0,
      sni_extension_length = 0, server_name_list_length = 0, sni_name_length = 0, sni_extension_index = 0,
      psk_extension_offset = 0, psk_extension_length = 0, psk_extension_index = 0,
      ech_extension_offset = 0, ech_extension_data_offset = 0, ech_extension_length = 0,
      ech_extension_index = 0, has_sni = False, has_psk = False, has_ech = False, ech_before_sni = False\<rparr>"

text \<open>
  The inner loop over the server names of one extension. The first component of the result tells
  whether the list was well-formed.
\<close>

record sni_extension =
  se_offset :: nat
  se_data_offset :: nat
  se_length :: nat
  se_list_length :: nat
  se_index :: nat

definition storeSni :: "nat \<Rightarrow> sni_extension \<Rightarrow> nat \<Rightarrow> nat \<Rightarrow> tls_client_hello_view \<Rightarrow> tls_client_hello_view" where
  "storeSni body_offset x names_cursor name_length view =
     view\<lparr>sni_extension_offset := u32 (body_offset + u32 (se_offset x)),
          sni_extension_length_field_offset := u32 (body_offset + u32 (se_offset x) + 2),
          server_name_list_length_field_offset := u32 (body_offset + u32 (se_data_offset x)),
          sni_name_length_field_offset := u32 (body_offset + u32 (names_cursor + 1)),
          sni_name_offset := u32 (body_offset + u32 (names_cursor + 3)),
          sni_extension_length := se_length x,
          server_name_list_length := se_list_length x,
          sni_name_length := name_length,
          sni_extension_index := se_index x,
          has_sni := True\<rparr>"

function namesLoop ::
  "byte list \<Rightarrow> nat \<Rightarrow> sni_extension \<Rightarrow> nat \<Rightarrow> nat \<Rightarrow> tls_client_hello_view \<Rightarrow>
   (bool \<times> tls_client_hello_view) option" where
  "namesLoop body body_offset x names_end names_cursor view =
     (if names_cursor < names_end then
        if \<not> rangeContains names_cursor 3 names_end then Some (False, view)
        else do {
          name_type \<leftarrow> rd8 body names_cursor;
          name_length \<leftarrow> rd_be16 body (names_cursor + 1);
          let name_offset = names_cursor + 3;
          if \<not> rangeContains name_offset name_length names_end then Some (False, view)
          else namesLoop body body_offset x names_end (name_offset + name_length)
                 (if name_type = 0 \<and> \<not> has_sni view
                  then storeSni body_offset x names_cursor name_length view else view)
        }
      else Some (True, view))"
  by pat_completeness auto
termination
  by (relation "measure (\<lambda>(_, _, _, names_end, names_cursor, _). names_end - names_cursor)") auto

declare namesLoop.simps [simp del]

text \<open>The first server-name extension.\<close>

definition parseServerName ::
  "byte list \<Rightarrow> nat \<Rightarrow> nat \<Rightarrow> nat \<Rightarrow> nat \<Rightarrow> tls_client_hello_view \<Rightarrow>
   (bool \<times> tls_client_hello_view) option" where
  "parseServerName body body_offset extension_index extension_offset extension_length view =
     (let data_offset = extension_offset + 4;
          extension_end = data_offset + extension_length
      in if extension_length < 2 then Some (False, view)
         else do {
           list_length \<leftarrow> rd_be16 body data_offset;
           let names_cursor = data_offset + 2;
           let names_end = names_cursor + list_length;
           if names_end \<noteq> extension_end then Some (False, view)
           else namesLoop body body_offset
                  \<lparr>se_offset = extension_offset, se_data_offset = data_offset, se_length = extension_length,
                   se_list_length = list_length, se_index = extension_index\<rparr>
                  names_end names_cursor view
         })"

text \<open>One extension: its effect on the view, or \<open>False\<close> when it is malformed.\<close>

definition parseExtension ::
  "byte list \<Rightarrow> nat \<Rightarrow> nat \<Rightarrow> nat \<Rightarrow> nat \<Rightarrow> nat \<Rightarrow> tls_client_hello_view \<Rightarrow>
   (bool \<times> tls_client_hello_view) option" where
  "parseExtension body body_offset extension_index extension_offset extension_type extension_length view =
     (if extension_type = kTlsExtensionServerName \<and> \<not> has_sni view
      then parseServerName body body_offset extension_index extension_offset extension_length view
      else if extension_type = kTlsExtensionPreSharedKey \<and> \<not> has_psk view then
        Some (True, view\<lparr>psk_extension_offset := u32 (body_offset + u32 extension_offset),
                         psk_extension_length := extension_length,
                         psk_extension_index := extension_index, has_psk := True\<rparr>)
      else if extension_type = kTlsExtensionEncryptedHello \<and> \<not> has_ech view then
        Some (True, view\<lparr>ech_extension_offset := u32 (body_offset + u32 extension_offset),
                         ech_extension_data_offset := u32 (body_offset + u32 (extension_offset + 4)),
                         ech_extension_length := extension_length,
                         ech_extension_index := extension_index, has_ech := True\<rparr>)
      else Some (True, view))"

function extensionsLoop ::
  "byte list \<Rightarrow> nat \<Rightarrow> nat \<Rightarrow> nat \<Rightarrow> nat \<Rightarrow> tls_client_hello_view \<Rightarrow>
   (bool \<times> tls_client_hello_view) option" where
  "extensionsLoop body body_offset extensions_end extension_index cursor view =
     (if cursor < extensions_end then
        if \<not> rangeContains cursor 4 extensions_end then Some (False, view)
        else do {
          extension_type \<leftarrow> rd_be16 body cursor;
          extension_length \<leftarrow> rd_be16 body (cursor + 2);
          if \<not> rangeContains (cursor + 4) extension_length extensions_end then Some (False, view)
          else do {
            (well_formed, view) \<leftarrow>
               parseExtension body body_offset extension_index cursor extension_type extension_length view;
            if \<not> well_formed then Some (False, view)
            else extensionsLoop body body_offset extensions_end (u16 (extension_index + 1))
                   (cursor + 4 + extension_length) view
          }
        }
      else Some (True, view))"
  by pat_completeness auto
termination
  by (relation "measure (\<lambda>(_, _, extensions_end, _, cursor, _). extensions_end - cursor)") auto

declare extensionsLoop.simps [simp del]

definition parseExtensions ::
  "byte list \<Rightarrow> nat \<Rightarrow> nat \<Rightarrow> nat \<Rightarrow> tls_client_hello_view \<Rightarrow>
   (tls_client_hello_result \<times> tls_client_hello_view) option" where
  "parseExtensions body body_length body_offset cursor view =
     (if \<not> rangeContains cursor 2 body_length then Some (TlsClientHelloMalformed, view)
      else do {
        let extensions_length_offset = cursor;
        ext_length \<leftarrow> rd_be16 body cursor;
        let cursor = cursor + 2;
        if \<not> rangeContains cursor ext_length body_length \<or> cursor + ext_length \<noteq> body_length
        then Some (TlsClientHelloMalformed, view)
        else do {
          let view = view\<lparr>extensions_length_field_offset := u32 (body_offset + u32 extensions_length_offset),
                          extensions_offset := u32 (body_offset + u32 cursor),
                          extensions_length := ext_length\<rparr>;
          (well_formed, view) \<leftarrow> extensionsLoop body body_offset (cursor + ext_length) 0 cursor view;
          if \<not> well_formed then Some (TlsClientHelloMalformed, view)
          else do {
            let view = view\<lparr>ech_before_sni :=
                  has_ech view \<and> has_sni view \<and> ech_extension_index view < sni_extension_index view\<rparr>;
            Some (if has_sni view then TlsClientHelloFound else TlsClientHelloNoSni, view)
          }
        }
      })"

text \<open>
  The part before the extensions: version, random, session id, cipher suites and compression
  methods. The inner \<open>None\<close> is a malformed message.
\<close>

definition skipHelloHead :: "byte list \<Rightarrow> nat \<Rightarrow> nat option option" where
  "skipHelloHead body body_length =
     (if body_length < kTlsClientHelloFixedLength \<or> body_length > UINT32_MAX then Some None
      else do {
        let cursor = kTlsClientHelloFixedLength;
        if \<not> rangeContains cursor 1 body_length then Some None
        else do {
          session_id_length \<leftarrow> rd8 body cursor;
          let cursor = cursor + 1;
          if \<not> rangeContains cursor (unat session_id_length + 2) body_length then Some None
          else do {
            let cursor = cursor + unat session_id_length;
            cipher_suites_length \<leftarrow> rd_be16 body cursor;
            let cursor = cursor + 2;
            if \<not> rangeContains cursor (cipher_suites_length + 1) body_length then Some None
            else do {
              let cursor = cursor + cipher_suites_length;
              compression_methods_length \<leftarrow> rd8 body cursor;
              let cursor = cursor + 1;
              if \<not> rangeContains cursor (unat compression_methods_length) body_length then Some None
              else Some (Some (cursor + unat compression_methods_length))
            }
          }
        }
      })"

definition tlsclienthelloParseBodyAt ::
  "byte list \<Rightarrow> nat \<Rightarrow> nat \<Rightarrow> tls_client_hello_view \<Rightarrow>
   (tls_client_hello_result \<times> tls_client_hello_view) option" where
  "tlsclienthelloParseBodyAt body body_length body_offset view = do {
     head \<leftarrow> skipHelloHead body body_length;
     case head of
       None \<Rightarrow> Some (TlsClientHelloMalformed, view)
     | Some cursor \<Rightarrow>
         if cursor = body_length then Some (TlsClientHelloNoSni, view)
         else parseExtensions body body_length body_offset cursor view
   }"

definition tlsclienthelloParseHandshakeBody ::
  "byte list \<Rightarrow> nat \<Rightarrow> (tls_client_hello_result \<times> tls_client_hello_view) option" where
  "tlsclienthelloParseHandshakeBody body body_length =
     tlsclienthelloParseBodyAt body body_length 0
       (tlsclienthelloInitializeView\<lparr>handshake_body_length := (if body_length \<le> UINT32_MAX then body_length else 0)\<rparr>)"

definition tlsclienthelloParseHandshakeAt ::
  "byte list \<Rightarrow> nat \<Rightarrow> nat \<Rightarrow> tls_client_hello_view \<Rightarrow>
   (tls_client_hello_result \<times> tls_client_hello_view) option" where
  "tlsclienthelloParseHandshakeAt handshake available_length hs_offset view =
     (if available_length = 0 then Some (TlsClientHelloNeedMore, view)
      else do {
        hs_type \<leftarrow> rd8 handshake 0;
        if hs_type \<noteq> 1 then Some (TlsClientHelloNotClientHello, view)
        else if available_length < kTlsHandshakeHeaderLength then Some (TlsClientHelloNeedMore, view)
        else do {
          body_length \<leftarrow> rd_be24 handshake 1;
          if available_length < kTlsHandshakeHeaderLength + body_length then Some (TlsClientHelloNeedMore, view)
          else do {
            let view = view\<lparr>handshake_offset := hs_offset,
                            handshake_total_length := u32 (kTlsHandshakeHeaderLength + body_length),
                            handshake_body_offset := u32 (hs_offset + kTlsHandshakeHeaderLength),
                            handshake_body_length := body_length,
                            handshake_length_field_offset := u32 (hs_offset + 1)\<rparr>;
            tlsclienthelloParseBodyAt (drop kTlsHandshakeHeaderLength handshake) body_length
              (handshake_body_offset view) view
          }
        }
      })"

text \<open>A NULL handshake or record pointer is \<open>None\<close>.\<close>

definition tlsclienthelloParseHandshake ::
  "byte list option \<Rightarrow> nat \<Rightarrow> (tls_client_hello_result \<times> tls_client_hello_view) option" where
  "tlsclienthelloParseHandshake handshake available_length =
     (case handshake of
        None \<Rightarrow> Some (TlsClientHelloNeedMore, tlsclienthelloInitializeView)
      | Some h \<Rightarrow> tlsclienthelloParseHandshakeAt h available_length 0 tlsclienthelloInitializeView)"

definition parseRecordBody ::
  "byte list \<Rightarrow> nat \<Rightarrow> tls_client_hello_view \<Rightarrow> (tls_client_hello_result \<times> tls_client_hello_view) option" where
  "parseRecordBody record available_length parsed = do {
     body_length \<leftarrow> rd_be16 record 3;
     if body_length < kTlsHandshakeHeaderLength then Some (TlsClientHelloMalformed, parsed)
     else do {
       let total_length = kTlsRecordHeaderLength + body_length;
       if available_length < total_length then Some (TlsClientHelloNeedMore, parsed)
       else do {
         let parsed = parsed\<lparr>record_total_length := total_length, record_body_length := body_length,
                             record_length_field_offset := 3\<rparr>;
         (result, parsed) \<leftarrow> tlsclienthelloParseHandshakeAt (drop kTlsRecordHeaderLength record) body_length
                              kTlsRecordHeaderLength parsed;
         Some (if result = TlsClientHelloNeedMore then TlsClientHelloMalformed else result, parsed)
       }
     }
   }"

definition tlsclienthelloParseRecord ::
  "byte list option \<Rightarrow> nat \<Rightarrow> (tls_client_hello_result \<times> tls_client_hello_view) option" where
  "tlsclienthelloParseRecord record available_length =
     (let parsed = tlsclienthelloInitializeView
      in case record of
           None \<Rightarrow> Some (TlsClientHelloNeedMore, parsed)
         | Some r \<Rightarrow>
             if available_length = 0 then Some (TlsClientHelloNeedMore, parsed)
             else do {
               b0 \<leftarrow> rd8 r 0;
               if b0 \<noteq> 22 then Some (TlsClientHelloNotClientHello, parsed)
               else do {
                 bad1 \<leftarrow> (if available_length \<ge> 2 then do { b1 \<leftarrow> rd8 r 1; Some (b1 \<noteq> 3) } else Some False);
                 bad2 \<leftarrow> (if \<not> bad1 \<and> available_length \<ge> 3
                          then do { b2 \<leftarrow> rd8 r 2; Some (b2 > 3) } else Some False);
                 if bad1 \<or> bad2 then Some (TlsClientHelloNotClientHello, parsed)
                 else if available_length < kTlsRecordHeaderLength then Some (TlsClientHelloNeedMore, parsed)
                 else parseRecordBody r available_length parsed
               }
             })"

section \<open>Reads stay inside the body\<close>

text \<open>
  What the parser has recorded about the server name, relative to the body: a host-name entry of
  an extension of type 0 that lies inside the first \<open>limit\<close> bytes.
\<close>

definition sni_at :: "byte list \<Rightarrow> nat \<Rightarrow> nat \<Rightarrow> tls_client_hello_view \<Rightarrow> bool" where
  "sni_at body body_offset limit view \<longleftrightarrow>
     (\<exists>n x. sni_name_offset view = body_offset + n \<and> sni_extension_offset view = body_offset + x \<and>
        3 \<le> n \<and> body ! (n - 3) = 0 \<and> rd_be16 body (n - 2) = Some (sni_name_length view) \<and>
        x + 4 \<le> n \<and> n + sni_name_length view \<le> x + 4 + sni_extension_length view \<and>
        x + 4 + sni_extension_length view \<le> limit \<and>
        rd_be16 body x = Some 0 \<and> rd_be16 body (x + 2) = Some (sni_extension_length view))"

definition sni_ok :: "byte list \<Rightarrow> nat \<Rightarrow> nat \<Rightarrow> tls_client_hello_view \<Rightarrow> bool" where
  "sni_ok body body_offset limit view \<longleftrightarrow> (has_sni view \<longrightarrow> sni_at body body_offset limit view)"

text \<open>An extension header that was read at a cursor.\<close>

definition sni_header :: "byte list \<Rightarrow> nat \<Rightarrow> sni_extension \<Rightarrow> bool" where
  "sni_header body limit x \<longleftrightarrow> se_offset x + 4 + se_length x \<le> limit \<and> rd_be16 body (se_offset x) = Some 0 \<and>
     rd_be16 body (se_offset x + 2) = Some (se_length x)"

text \<open>Fields of the view that the loops leave alone.\<close>

definition same_frame :: "tls_client_hello_view \<Rightarrow> tls_client_hello_view \<Rightarrow> bool" where
  "same_frame v w \<longleftrightarrow> record_total_length w = record_total_length v \<and> record_body_length w = record_body_length v \<and>
     handshake_offset w = handshake_offset v \<and> handshake_body_offset w = handshake_body_offset v \<and>
     handshake_body_length w = handshake_body_length v"

lemma same_frame_refl [simp]: "same_frame v v"
  by (simp add: same_frame_def)

lemma same_frame_trans: "same_frame u v \<Longrightarrow> same_frame v w \<Longrightarrow> same_frame u w"
  by (simp add: same_frame_def)

lemma same_frame_storeSni [simp]: "same_frame v (storeSni o' x c n v)"
  by (simp add: same_frame_def storeSni_def)

lemma same_frame_update [simp]:
  "same_frame v (v\<lparr>extensions_length_field_offset := a, extensions_offset := b, extensions_length := c\<rparr>)"
  "same_frame v (v\<lparr>psk_extension_offset := a, psk_extension_length := b, psk_extension_index := c, has_psk := d\<rparr>)"
  "same_frame v (v\<lparr>ech_extension_offset := a, ech_extension_data_offset := e, ech_extension_length := b,
     ech_extension_index := c, has_ech := d\<rparr>)"
  "same_frame v w \<Longrightarrow> same_frame v (w\<lparr>ech_before_sni := d\<rparr>)"
  "same_frame (v\<lparr>extensions_length_field_offset := a, extensions_offset := b, extensions_length := c\<rparr>) w =
     same_frame v w"
  by (simp_all add: same_frame_def)

lemma sni_ok_update [simp]:
  "sni_ok body o' limit (v\<lparr>ech_before_sni := d\<rparr>) = sni_ok body o' limit v"
  "sni_ok body o' limit (v\<lparr>extensions_length_field_offset := a, extensions_offset := b, extensions_length := c\<rparr>) =
     sni_ok body o' limit v"
  "sni_ok body o' limit (v\<lparr>psk_extension_offset := a, psk_extension_length := b, psk_extension_index := c,
     has_psk := d\<rparr>) = sni_ok body o' limit v"
  "sni_ok body o' limit (v\<lparr>ech_extension_offset := a, ech_extension_data_offset := e, ech_extension_length := b,
     ech_extension_index := c, has_ech := d\<rparr>) = sni_ok body o' limit v"
  by (simp_all add: sni_ok_def sni_at_def)

lemma storeSni_ok:
  assumes "body_offset + limit \<le> UINT32_MAX" "sni_header body limit x" "c + 3 + n \<le> se_offset x + 4 + se_length x"
    "se_offset x + 6 \<le> c" "rd8 body c = Some 0" "rd_be16 body (c + 1) = Some n"
  shows "sni_ok body body_offset limit (storeSni body_offset x c n view)"
proof -
  have "u32 (body_offset + u32 (c + 3)) = body_offset + (c + 3)"
    "u32 (body_offset + u32 (se_offset x)) = body_offset + se_offset x"
    using assms(1-3) by (simp_all add: sni_header_def)
  moreover have "body ! c = 0" using assms(5) by (simp add: rd8_def split: if_splits)
  ultimately have "sni_at body body_offset limit (storeSni body_offset x c n view)"
    unfolding sni_at_def using assms(2-4,6)
    by (intro exI [of _ "c + 3"] exI [of _ "se_offset x"]) (simp add: storeSni_def sni_header_def)
  then show ?thesis by (simp add: sni_ok_def)
qed

lemma namesLoop_ok:
  assumes "body_offset + limit \<le> UINT32_MAX" "limit \<le> length body" "sni_header body limit x"
    "names_end = se_offset x + 4 + se_length x" "se_offset x + 6 \<le> c" "sni_ok body body_offset limit view"
  shows "\<exists>w v. namesLoop body body_offset x names_end c view = Some (w, v) \<and>
    sni_ok body body_offset limit v \<and> same_frame view v"
  using assms
proof (induction body body_offset x names_end c view rule: namesLoop.induct)
  case (1 body body_offset x names_end c view)
  show ?case
  proof (cases "c + 3 \<le> names_end")
    case False
    then show ?thesis using "1.prems" by (subst namesLoop.simps) auto
  next
    case True
    have e: "names_end \<le> length body" using "1.prems" by (simp add: sni_header_def)
    obtain t n where r: "rd8 body c = Some t" "rd_be16 body (c + 1) = Some n" using True e by simp
    show ?thesis
    proof (cases "c + 3 + n \<le> names_end")
      case False
      with True r show ?thesis using "1.prems" by (subst namesLoop.simps) (auto simp: Let_def)
    next
      case fits: True
      let ?v = "if t = 0 \<and> \<not> has_sni view then storeSni body_offset x c n view else view"
      have step: "namesLoop body body_offset x names_end c view = namesLoop body body_offset x names_end (c + 3 + n) ?v"
        using True fits r by (subst namesLoop.simps) (simp add: Let_def)
      have "sni_ok body body_offset limit ?v"
        using storeSni_ok [OF "1.prems"(1,3), of c n view] "1.prems"(4-6) fits r by auto
      moreover have "same_frame view ?v" by simp
      moreover have "\<exists>w v. namesLoop body body_offset x names_end (c + 3 + n) ?v = Some (w, v) \<and>
          sni_ok body body_offset limit v \<and> same_frame ?v v"
        by (rule "1.IH") (use True fits r "1.prems" \<open>sni_ok body body_offset limit ?v\<close> in \<open>simp_all del: if_split\<close>)
      ultimately show ?thesis unfolding step using same_frame_trans by blast
    qed
  qed
qed

lemma parseServerName_cases:
  assumes "c + 4 + n \<le> length body"
  obtains (bad) "parseServerName body body_offset i c n view = Some (False, view)"
  | (names) m where "rd_be16 body (c + 4) = Some m" "c + 4 + 2 + m = c + 4 + n"
      "parseServerName body body_offset i c n view = namesLoop body body_offset
         \<lparr>se_offset = c, se_data_offset = c + 4, se_length = n, se_list_length = m, se_index = i\<rparr>
         (c + 4 + n) (c + 4 + 2) view"
proof (cases "n < 2")
  case True
  then show thesis using bad by (simp add: parseServerName_def Let_def)
next
  case False
  then obtain m where m: "rd_be16 body (c + 4) = Some m" using assms by simp
  show thesis
  proof (cases "c + 4 + 2 + m = c + 4 + n")
    case eq: True
    then show ?thesis using names [OF m eq] m False
      unfolding parseServerName_def Let_def eq [symmetric] by simp
  next
    case neq: False
    then show ?thesis using bad m False unfolding parseServerName_def Let_def by simp
  qed
qed

lemma parseExtension_ok:
  assumes "body_offset + limit \<le> UINT32_MAX" "limit \<le> length body" "c + 4 + n \<le> limit"
    "rd_be16 body c = Some t" "rd_be16 body (c + 2) = Some n" "sni_ok body body_offset limit view"
  shows "\<exists>w v. parseExtension body body_offset i c t n view = Some (w, v) \<and>
    sni_ok body body_offset limit v \<and> same_frame view v"
proof (cases "t = 0 \<and> \<not> has_sni view")
  case True
  then have p: "parseExtension body body_offset i c t n view = parseServerName body body_offset i c n view"
    by (simp add: parseExtension_def tls_consts)
  have "c + 4 + n \<le> length body" using assms(2,3) by simp
  then show ?thesis
  proof (cases rule: parseServerName_cases [where body_offset = body_offset and i = i and view = view])
    case bad
    then show ?thesis using p assms(6) by auto
  next
    case (names m)
    have "sni_header body limit \<lparr>se_offset = c, se_data_offset = c + 4, se_length = n, se_list_length = m, se_index = i\<rparr>"
      using assms True by (simp add: sni_header_def)
    from namesLoop_ok [OF assms(1,2) this, of "c + 4 + n" "c + 4 + 2" view] assms(6)
    show ?thesis unfolding p names(3) by simp
  qed
next
  case False
  with assms(6) show ?thesis by (simp add: parseExtension_def tls_consts del: de_Morgan_conj) auto
qed

lemma extensionsLoop_ok:
  assumes "body_offset + limit \<le> UINT32_MAX" "limit \<le> length body" "sni_ok body body_offset limit view"
  shows "\<exists>w v. extensionsLoop body body_offset limit i c view = Some (w, v) \<and>
    sni_ok body body_offset limit v \<and> same_frame view v"
  using assms
proof (induction body body_offset limit i c view rule: extensionsLoop.induct)
  case (1 body body_offset limit i c view)
  show ?case
  proof (cases "c + 4 \<le> limit")
    case False
    then show ?thesis using "1.prems" by (subst extensionsLoop.simps) auto
  next
    case True
    then obtain t n where r: "rd_be16 body c = Some t" "rd_be16 body (c + 2) = Some n" using "1.prems"(2) by simp
    show ?thesis
    proof (cases "c + 4 + n \<le> limit")
      case False
      with True r show ?thesis using "1.prems" by (subst extensionsLoop.simps) auto
    next
      case fits: True
      obtain w v where p: "parseExtension body body_offset i c t n view = Some (w, v)"
        "sni_ok body body_offset limit v" "same_frame view v"
        using parseExtension_ok [OF "1.prems"(1,2) fits r "1.prems"(3)] by blast
      have step: "extensionsLoop body body_offset limit i c view =
          (if w then extensionsLoop body body_offset limit (u16 (i + 1)) (c + 4 + n) v else Some (False, v))"
        using True fits r p(1) by (subst extensionsLoop.simps) simp
      show ?thesis
      proof (cases w)
        case True
        have "\<exists>w u. extensionsLoop body body_offset limit (u16 (i + 1)) (c + 4 + n) v = Some (w, u) \<and>
            sni_ok body body_offset limit u \<and> same_frame v u"
          by (rule "1.IH") (use True \<open>c + 4 \<le> limit\<close> fits r p "1.prems"(1,2) in simp_all)
        with step True p(3) show ?thesis using same_frame_trans by auto
      next
        case False
        with step p show ?thesis by auto
      qed
    qed
  qed
qed

text \<open>The outcome of a parse that stays inside the first \<open>limit\<close> bytes.\<close>

definition parsed_ok ::
  "byte list \<Rightarrow> nat \<Rightarrow> nat \<Rightarrow> tls_client_hello_view \<Rightarrow>
   (tls_client_hello_result \<times> tls_client_hello_view) option \<Rightarrow> bool" where
  "parsed_ok body body_offset limit view out \<longleftrightarrow>
     (\<exists>r v. out = Some (r, v) \<and> same_frame view v \<and> r \<noteq> TlsClientHelloNeedMore \<and>
        (r = TlsClientHelloFound \<longrightarrow> sni_at body body_offset limit v))"

lemma parsed_ok_malformed [simp]:
  "parsed_ok body o' limit view (Some (TlsClientHelloMalformed, view))"
  "parsed_ok body o' limit view (Some (TlsClientHelloNoSni, view))"
  by (simp_all add: parsed_ok_def)

lemma parseExtensions_ok:
  assumes "body_offset + n \<le> UINT32_MAX" "n \<le> length body" "\<not> has_sni view"
  shows "parsed_ok body body_offset n view (parseExtensions body n body_offset c view)"
proof (cases "c + 2 \<le> n")
  case False
  then show ?thesis by (simp add: parseExtensions_def)
next
  case True
  then obtain m where m: "rd_be16 body c = Some m" using assms(2) by simp
  show ?thesis
  proof (cases "c + 2 + m = n")
    case False
    then show ?thesis using True m by (simp add: parseExtensions_def Let_def)
  next
    case eq: True
    let ?v = "view\<lparr>extensions_length_field_offset := u32 (body_offset + u32 c),
      extensions_offset := u32 (body_offset + u32 (c + 2)), extensions_length := m\<rparr>"
    have "sni_ok body body_offset n ?v" using assms(3) by (simp add: sni_ok_def)
    from extensionsLoop_ok [OF assms(1,2) this, of 0 "c + 2"] obtain w v where
      l: "extensionsLoop body body_offset n 0 (c + 2) ?v = Some (w, v)" "sni_ok body body_offset n v"
        "same_frame ?v v" by blast
    have "same_frame view v" using l(3) by simp
    then show ?thesis using True m eq l(1,2)
      by (auto simp: parseExtensions_def Let_def parsed_ok_def sni_ok_def sni_at_def)
  qed
qed

text \<open>The head is skipped without leaving the body, and bytes after the body play no part.\<close>

lemma skipHelloHead_local:
  assumes "n \<le> length body"
  shows "\<exists>h. skipHelloHead (body @ s) n = Some h \<and> skipHelloHead body n = Some h"
proof (cases "35 \<le> n \<and> n \<le> UINT32_MAX")
  case False
  then show ?thesis by (auto simp: skipHelloHead_def tls_consts Let_def)
next
  case True
  define sid where "sid = unat (body ! 34)"
  have sid: "rd8 (body @ s) 34 = Some (body ! 34)" "rd8 body 34 = Some (body ! 34)"
    using True assms by (simp_all add: rd8_def nth_append)
  show ?thesis
  proof (cases "35 + (sid + 2) \<le> n")
    case False
    then show ?thesis using True sid by (simp add: skipHelloHead_def tls_consts Let_def sid_def)
  next
    case fits1: True
    define k where "k = be16 (body ! (35 + sid)) (body ! (35 + sid + 1))"
    have k: "rd_be16 (body @ s) (35 + sid) = Some k" "rd_be16 body (35 + sid) = Some k"
      using fits1 assms by (simp_all add: rd_be16_def nth_append k_def)
    show ?thesis
    proof (cases "35 + sid + 2 + (k + 1) \<le> n")
      case False
      then show ?thesis using True sid fits1 k by (simp add: skipHelloHead_def tls_consts Let_def sid_def)
    next
      case fits2: True
      have m: "rd8 (body @ s) (35 + sid + 2 + k) = Some (body ! (35 + sid + 2 + k))"
        "rd8 body (35 + sid + 2 + k) = Some (body ! (35 + sid + 2 + k))"
        using fits2 assms by (simp_all add: rd8_def nth_append)
      show ?thesis
        unfolding skipHelloHead_def tls_consts Let_def
        using True sid(1,2) fits1 k fits2 m by (simp add: sid_def)
    qed
  qed
qed

lemma parseBodyAt_ok:
  assumes "body_offset + n \<le> UINT32_MAX" "n \<le> length body" "\<not> has_sni view"
  shows "parsed_ok body body_offset n view (tlsclienthelloParseBodyAt body n body_offset view)"
proof -
  obtain h where "skipHelloHead body n = Some h" using skipHelloHead_local [OF assms(2)] by blast
  then show ?thesis using parseExtensions_ok [OF assms]
    by (cases h) (simp_all add: tlsclienthelloParseBodyAt_def)
qed

end
