(* ===== verification/Tls_Laws.thy ===== *)
theory Tls_Laws
  imports Tls_Client_Hello
begin

text \<open>
  Properties of the ClientHello parser: it never reads outside its input, what it reports as the
  server name lies inside the record and is what the bytes encode, a decision does not change
  when more bytes arrive, and a ClientHello built from its parts parses back to its host name.
\<close>

section \<open>Handshake and record framing\<close>

lemma init_view [simp]: "\<not> has_sni tlsclienthelloInitializeView"
  by (simp add: tlsclienthelloInitializeView_def)

lemma rd_be24_less: "rd_be24 m i = Some n \<Longrightarrow> n < 16777216"
  using unat_byte_less [of "m ! i"] unat_byte_less [of "m ! (i + 1)"] unat_byte_less [of "m ! (i + 2)"]
  by (auto simp: rd_be24_def split: if_splits)

lemma rd_be16_le: "rd_be16 m i = Some n \<Longrightarrow> n \<le> UINT16_MAX"
  using be16_le by (auto simp: rd_be16_def split: if_splits)

definition handshake_view :: "nat \<Rightarrow> nat \<Rightarrow> tls_client_hello_view \<Rightarrow> tls_client_hello_view" where
  "handshake_view hs_offset n view =
     view\<lparr>handshake_offset := hs_offset, handshake_total_length := u32 (kTlsHandshakeHeaderLength + n),
          handshake_body_offset := u32 (hs_offset + kTlsHandshakeHeaderLength), handshake_body_length := n,
          handshake_length_field_offset := u32 (hs_offset + 1)\<rparr>"

lemma handshake_view_obs [simp]:
  "has_sni (handshake_view x n v) = has_sni v" "record_total_length (handshake_view x n v) = record_total_length v"
  "handshake_body_length (handshake_view x n v) = n"
  "x \<le> UINT16_MAX \<Longrightarrow> handshake_body_offset (handshake_view x n v) = x + 4"
  by (simp_all add: handshake_view_def tls_consts)

text \<open>The four ways a handshake message can be classified.\<close>

lemma parseHandshakeAt_cases:
  assumes "avail \<le> length h"
  obtains (more) "avail = 0 \<or> h ! 0 = 1 \<and> avail < 4 \<or> (\<exists>n. h ! 0 = 1 \<and> 4 \<le> avail \<and> rd_be24 h 1 = Some n \<and> avail < 4 + n)"
      "tlsclienthelloParseHandshakeAt h avail x v = Some (TlsClientHelloNeedMore, v)"
  | (other) "0 < avail" "h ! 0 \<noteq> 1"
      "tlsclienthelloParseHandshakeAt h avail x v = Some (TlsClientHelloNotClientHello, v)"
  | (hello) n where "0 < avail" "h ! 0 = 1" "rd_be24 h 1 = Some n" "4 + n \<le> avail"
      "tlsclienthelloParseHandshakeAt h avail x v =
         tlsclienthelloParseBodyAt (drop 4 h) n (handshake_body_offset (handshake_view x n v)) (handshake_view x n v)"
proof -
  have r0: "0 < avail \<Longrightarrow> rd8 h 0 = Some (h ! 0)" using assms by (auto simp: rd8_def)
  consider "avail = 0" | "0 < avail" "h ! 0 \<noteq> 1" | "0 < avail" "h ! 0 = 1" "avail < 4" | "h ! 0 = 1" "4 \<le> avail"
    by linarith
  then show thesis
  proof cases
    case 1
    then show ?thesis using more by (simp add: tlsclienthelloParseHandshakeAt_def)
  next
    case 2
    then show ?thesis using other assms r0 by (simp add: tlsclienthelloParseHandshakeAt_def)
  next
    case 3
    then show ?thesis using more assms r0 by (simp add: tlsclienthelloParseHandshakeAt_def tls_consts)
  next
    case 4
    then obtain n where n: "rd_be24 h 1 = Some n" using assms by (simp add: rd_be24_def)
    show ?thesis
    proof (cases "avail < 4 + n")
      case True
      then show ?thesis using more 4 n assms r0 by (simp add: tlsclienthelloParseHandshakeAt_def tls_consts)
    next
      case False
      then have "tlsclienthelloParseHandshakeAt h avail x v =
          tlsclienthelloParseBodyAt (drop 4 h) n (handshake_body_offset (handshake_view x n v)) (handshake_view x n v)"
        using 4 n assms r0 by (simp add: tlsclienthelloParseHandshakeAt_def tls_consts handshake_view_def Let_def)
      then show ?thesis using hello [of n] 4 n False by simp
    qed
  qed
qed

lemma parseHandshakeAt_ok:
  assumes "avail \<le> length h" "x \<le> UINT16_MAX" "\<not> has_sni v"
  shows "\<exists>r w. tlsclienthelloParseHandshakeAt h avail x v = Some (r, w) \<and>
    record_total_length w = record_total_length v \<and>
    (r = TlsClientHelloFound \<longrightarrow> (\<exists>n. 4 + n \<le> avail \<and> sni_at (drop 4 h) (x + 4) n w))"
  using assms(1)
proof (cases rule: parseHandshakeAt_cases [where x = x and v = v])
  case (hello n)
  have "x + 4 + n \<le> UINT32_MAX" "n \<le> length (drop 4 h)"
    using rd_be24_less [OF hello(3)] hello(4) assms by simp_all
  from parseBodyAt_ok [OF this, of "handshake_view x n v"] assms(2,3)
  have "parsed_ok (drop 4 h) (x + 4) n (handshake_view x n v)
      (tlsclienthelloParseBodyAt (drop 4 h) n (x + 4) (handshake_view x n v))" by simp
  then show ?thesis using hello(4,5) assms(2) by (fastforce simp: parsed_ok_def same_frame_def)
qed (use assms in auto)

text \<open>The record header.\<close>

definition record_view :: "nat \<Rightarrow> tls_client_hello_view" where
  "record_view n = tlsclienthelloInitializeView\<lparr>record_total_length := 5 + n, record_body_length := n,
     record_length_field_offset := 3\<rparr>"

lemma record_view_obs [simp]: "\<not> has_sni (record_view n)" "record_total_length (record_view n) = 5 + n"
  by (simp_all add: record_view_def tlsclienthelloInitializeView_def)

definition bad_header :: "byte list \<Rightarrow> nat \<Rightarrow> bool" where
  "bad_header r avail \<longleftrightarrow> r ! 0 \<noteq> 22 \<or> 2 \<le> avail \<and> r ! 1 \<noteq> 3 \<or> 3 \<le> avail \<and> r ! 2 > 3"

lemma parseRecord_cases:
  assumes "avail \<le> length r"
  obtains (empty) "avail = 0"
      "tlsclienthelloParseRecord (Some r) avail = Some (TlsClientHelloNeedMore, tlsclienthelloInitializeView)"
  | (bad) "0 < avail" "bad_header r avail"
      "tlsclienthelloParseRecord (Some r) avail = Some (TlsClientHelloNotClientHello, tlsclienthelloInitializeView)"
  | (short) "0 < avail" "\<not> bad_header r avail" "avail < 5"
      "tlsclienthelloParseRecord (Some r) avail = Some (TlsClientHelloNeedMore, tlsclienthelloInitializeView)"
  | (tiny) n where "\<not> bad_header r avail" "5 \<le> avail" "rd_be16 r 3 = Some n" "n < 4"
      "tlsclienthelloParseRecord (Some r) avail = Some (TlsClientHelloMalformed, tlsclienthelloInitializeView)"
  | (more) n where "\<not> bad_header r avail" "5 \<le> avail" "rd_be16 r 3 = Some n" "4 \<le> n" "avail < 5 + n"
      "tlsclienthelloParseRecord (Some r) avail = Some (TlsClientHelloNeedMore, tlsclienthelloInitializeView)"
  | (whole) n where "\<not> bad_header r avail" "rd_be16 r 3 = Some n" "4 \<le> n" "5 + n \<le> avail"
      "tlsclienthelloParseRecord (Some r) avail = do {
         (res, v) \<leftarrow> tlsclienthelloParseHandshakeAt (drop 5 r) n 5 (record_view n);
         Some (if res = TlsClientHelloNeedMore then TlsClientHelloMalformed else res, v) }"
proof (cases "avail = 0")
  case True
  then show thesis using empty by (simp add: tlsclienthelloParseRecord_def)
next
  case pos: False
  have rd: "rd8 r 0 = Some (r ! 0)" "2 \<le> avail \<Longrightarrow> rd8 r 1 = Some (r ! 1)" "3 \<le> avail \<Longrightarrow> rd8 r 2 = Some (r ! 2)"
    using assms pos by (auto simp: rd8_def)
  show thesis
  proof (cases "bad_header r avail")
    case True
    then have "tlsclienthelloParseRecord (Some r) avail = Some (TlsClientHelloNotClientHello, tlsclienthelloInitializeView)"
      using pos rd by (auto simp: tlsclienthelloParseRecord_def bad_header_def)
    then show ?thesis using bad True pos by simp
  next
    case good: False
    have start: "tlsclienthelloParseRecord (Some r) avail =
        (if avail < 5 then Some (TlsClientHelloNeedMore, tlsclienthelloInitializeView)
         else parseRecordBody r avail tlsclienthelloInitializeView)"
      using pos good rd by (auto simp: tlsclienthelloParseRecord_def bad_header_def tls_consts)
    show ?thesis
    proof (cases "avail < 5")
      case True
      then show ?thesis using short pos good start by simp
    next
      case False
      then obtain n where n: "rd_be16 r 3 = Some n" using assms by simp
      have "tlsclienthelloParseRecord (Some r) avail =
        (if n < 4 then Some (TlsClientHelloMalformed, tlsclienthelloInitializeView)
         else if avail < 5 + n then Some (TlsClientHelloNeedMore, tlsclienthelloInitializeView)
         else do { (res, v) \<leftarrow> tlsclienthelloParseHandshakeAt (drop 5 r) n 5 (record_view n);
           Some (if res = TlsClientHelloNeedMore then TlsClientHelloMalformed else res, v) })"
        unfolding start using False n by (simp add: parseRecordBody_def tls_consts record_view_def Let_def)
      then show ?thesis
        using tiny [of n] more [of n] whole [of n] n good False by (auto simp: not_less split: if_splits)
    qed
  qed
qed

lemma parseRecord_ok:
  assumes "avail \<le> length r"
  shows "\<exists>res v. tlsclienthelloParseRecord (Some r) avail = Some (res, v) \<and>
    (res = TlsClientHelloFound \<longrightarrow> record_total_length v \<le> avail \<and>
       (\<exists>n. 9 + n \<le> record_total_length v \<and> sni_at (drop 9 r) 9 n v))"
  using assms
proof (cases rule: parseRecord_cases)
  case (whole n)
  have "n \<le> length (drop 5 r)" using whole(4) assms by simp
  from parseHandshakeAt_ok [OF this, of 5 "record_view n"] whole(4,5) show ?thesis by fastforce
qed auto

section \<open>Bytes after the limit do not matter\<close>

declare rd8_Some [simp del] rd_be16_Some [simp del]

lemma rd_append_local:
  "i < length m \<Longrightarrow> rd8 (m @ s) i = rd8 m i"
  "i + 2 \<le> length m \<Longrightarrow> rd_be16 (m @ s) i = rd_be16 m i"
  "i + 3 \<le> length m \<Longrightarrow> rd_be24 (m @ s) i = rd_be24 m i"
  by (simp_all add: rd8_def rd_be16_def rd_be24_def nth_append)

lemma namesLoop_local:
  "names_end \<le> length body \<Longrightarrow>
   namesLoop (body @ s) o' x names_end c view = namesLoop body o' x names_end c view"
proof (induction body o' x names_end c view rule: namesLoop.induct)
  case (1 body o' x names_end c view)
  show ?case
  proof (cases "c + 3 \<le> names_end")
    case False
    then show ?thesis by (subst (1 2) namesLoop.simps) simp
  next
    case True
    then obtain t n where r: "rd8 body c = Some t" "rd_be16 body (c + 1) = Some n"
      using "1.prems" by (simp add: rd8_def rd_be16_def)
    then have r': "rd8 (body @ s) c = Some t" "rd_be16 (body @ s) (c + 1) = Some n"
      using True "1.prems" by (simp_all add: rd_append_local)
    show ?thesis
    proof (cases "c + 3 + n \<le> names_end")
      case False
      then show ?thesis using True r r' by (subst (1 2) namesLoop.simps) (simp add: Let_def)
    next
      case fits: True
      let ?v = "if t = 0 \<and> \<not> has_sni view then storeSni o' x c n view else view"
      have "namesLoop (body @ s) o' x names_end (c + 3 + n) ?v = namesLoop body o' x names_end (c + 3 + n) ?v"
        by (rule "1.IH") (use True fits r "1.prems" in simp_all)
      moreover have "namesLoop m o' x names_end c view = namesLoop m o' x names_end (c + 3 + n) ?v"
        if "m = body \<or> m = body @ s" for m
        using that True fits r r' by (subst namesLoop.simps) (auto simp: Let_def)
      ultimately show ?thesis by simp
    qed
  qed
qed

lemma parseServerName_local:
  assumes "c + 4 + n \<le> length body"
  shows "parseServerName (body @ s) o' i c n view = parseServerName body o' i c n view"
proof (cases "n < 2")
  case True
  then show ?thesis by (simp add: parseServerName_def Let_def)
next
  case False
  then obtain m where m: "rd_be16 (body @ s) (c + 4) = Some m" "rd_be16 body (c + 4) = Some m"
    using assms rd_append_local(2) [of "c + 4" body s] by (auto simp: rd_be16_Some)
  show ?thesis
  proof (cases "c + 4 + 2 + m = c + 4 + n")
    case True
    then have "c + 4 + 2 + m \<le> length body" using assms by simp
    with True False m show ?thesis unfolding parseServerName_def Let_def by (simp add: namesLoop_local)
  next
    case neq: False
    with False m show ?thesis unfolding parseServerName_def Let_def by simp
  qed
qed

lemma parseExtension_local:
  "c + 4 + n \<le> length body \<Longrightarrow>
   parseExtension (body @ s) o' i c t n view = parseExtension body o' i c t n view"
  unfolding parseExtension_def by (simp only: parseServerName_local)

lemma extensionsLoop_local:
  "limit \<le> length body \<Longrightarrow>
   extensionsLoop (body @ s) o' limit i c view = extensionsLoop body o' limit i c view"
proof (induction body o' limit i c view rule: extensionsLoop.induct)
  case (1 body o' limit i c view)
  show ?case
  proof (cases "c + 4 \<le> limit")
    case False
    then show ?thesis by (subst (1 2) extensionsLoop.simps) simp
  next
    case True
    then obtain t n where r: "rd_be16 body c = Some t" "rd_be16 body (c + 2) = Some n"
      using "1.prems" by (simp add: rd_be16_def)
    then have r': "rd_be16 (body @ s) c = Some t" "rd_be16 (body @ s) (c + 2) = Some n"
      using True "1.prems" by (simp_all add: rd_append_local)
    show ?thesis
    proof (cases "c + 4 + n \<le> limit")
      case False
      then show ?thesis using True r r' by (subst (1 2) extensionsLoop.simps) simp
    next
      case fits: True
      have p: "parseExtension (body @ s) o' i c t n view = parseExtension body o' i c t n view"
        using fits "1.prems" by (simp add: parseExtension_local)
      show ?thesis
      proof (cases "parseExtension body o' i c t n view")
        case None
        then show ?thesis using True fits r r' p by (subst (1 2) extensionsLoop.simps) simp
      next
        case (Some wv)
        obtain w v where wv: "wv = (w, v)" by fastforce
        have "w \<Longrightarrow> extensionsLoop (body @ s) o' limit (u16 (i + 1)) (c + 4 + n) v =
            extensionsLoop body o' limit (u16 (i + 1)) (c + 4 + n) v"
          by (rule "1.IH") (use True fits r Some wv "1.prems" in simp_all)
        then show ?thesis using True fits r r' p Some wv by (subst (1 2) extensionsLoop.simps) simp
      qed
    qed
  qed
qed

lemma parseBodyAt_local:
  assumes "n \<le> length body"
  shows "tlsclienthelloParseBodyAt (body @ s) n o' v = tlsclienthelloParseBodyAt body n o' v"
proof -
  have ext: "parseExtensions (body @ s) n o' c v = parseExtensions body n o' c v" for c v
  proof (cases "c + 2 \<le> n")
    case True
    then have rd: "rd_be16 (body @ s) c = rd_be16 body c" using assms by (simp add: rd_append_local)
    have loop: "c + 2 + m = n \<Longrightarrow> extensionsLoop (body @ s) o' (c + 2 + m) 0 (c + 2) w =
        extensionsLoop body o' (c + 2 + m) 0 (c + 2) w" for m w
      using assms by (intro extensionsLoop_local) simp
    show ?thesis
      unfolding parseExtensions_def rd Let_def
      by (intro if_cong Option.bind_cong refl) (rule loop, simp)
  qed (simp add: parseExtensions_def)
  obtain h where "skipHelloHead (body @ s) n = Some h" "skipHelloHead body n = Some h"
    using skipHelloHead_local [OF assms] by blast
  then show ?thesis by (cases h) (simp_all add: tlsclienthelloParseBodyAt_def ext)
qed

lemma parseHandshakeAt_local:
  assumes "avail \<le> length h"
  shows "tlsclienthelloParseHandshakeAt (h @ s) avail x v = tlsclienthelloParseHandshakeAt h avail x v"
proof -
  have r0: "0 < avail \<Longrightarrow> rd8 (h @ s) 0 = Some (h ! 0)" using assms by (auto simp: rd8_def nth_append)
  have r1: "4 \<le> avail \<Longrightarrow> rd_be24 (h @ s) 1 = rd_be24 h 1" using assms by (simp add: rd_append_local)
  from assms show ?thesis
  proof (cases rule: parseHandshakeAt_cases [where x = x and v = v])
    case more
    have "tlsclienthelloParseHandshakeAt (h @ s) avail x v = Some (TlsClientHelloNeedMore, v)"
      using more(1) r0 r1
      by (elim disjE exE conjE; cases "avail = 0") (simp_all add: tlsclienthelloParseHandshakeAt_def tls_consts)
    then show ?thesis using more(2) by simp
  next
    case other
    then show ?thesis using r0 by (simp add: tlsclienthelloParseHandshakeAt_def)
  next
    case (hello n)
    have "tlsclienthelloParseBodyAt (drop 4 h @ s) n o' w = tlsclienthelloParseBodyAt (drop 4 h) n o' w" for o' w
      using hello(4) assms by (intro parseBodyAt_local) simp
    moreover have "drop 4 (h @ s) = drop 4 h @ s" using hello(4) assms by simp
    ultimately show ?thesis
      using hello r0 r1 by (simp add: tlsclienthelloParseHandshakeAt_def tls_consts handshake_view_def Let_def)
  qed
qed

lemma parseRecord_final:
  assumes "tlsclienthelloParseRecord (Some r) (length r) = Some (res, v)" "res \<noteq> TlsClientHelloNeedMore"
  shows "tlsclienthelloParseRecord (Some (r @ s)) (length (r @ s)) = Some (res, v)"
proof -
  have h: "bad_header r (length r) \<Longrightarrow> r \<noteq> [] \<Longrightarrow> bad_header (r @ s) (length (r @ s))"
    "5 \<le> length r \<Longrightarrow> bad_header (r @ s) (length (r @ s)) = bad_header r (length r)"
    by (auto simp: bad_header_def nth_append)
  have n: "5 \<le> length r \<Longrightarrow> rd_be16 (r @ s) 3 = rd_be16 r 3" by (simp add: rd_append_local)
  note all = order.refl [of "length (r @ s)"]
  from order.refl [of "length r"] show ?thesis
  proof (cases rule: parseRecord_cases)
    case bad
    then have "bad_header (r @ s) (length (r @ s))" using h(1) by auto
    with all bad assms show ?thesis by (cases rule: parseRecord_cases) auto
  next
    case (tiny m)
    with all show ?thesis using assms h(2) n by (cases rule: parseRecord_cases) auto
  next
    case (whole m)
    note first = whole
    have "m \<le> length (drop 5 r)" using whole(4) by simp
    from parseHandshakeAt_local [OF this, of s 5 "record_view m"]
    have l: "tlsclienthelloParseHandshakeAt (drop 5 (r @ s)) m 5 (record_view m) =
        tlsclienthelloParseHandshakeAt (drop 5 r) m 5 (record_view m)" using whole(4) by simp
    from all show ?thesis
    proof (cases rule: parseRecord_cases)
      case (whole k)
      then have "k = m" using n first by simp
      then show ?thesis using assms(1) whole(5) first(5) l by simp
    qed (use first n h(2) in auto)
  qed (use assms in auto)
qed

section \<open>Encoding\<close>

text \<open>The wire format of RFC 8446 and RFC 6066, as a reference encoder.\<close>

definition enc_extension :: "nat \<times> byte list \<Rightarrow> byte list" where
  "enc_extension x = be_bytes16 (fst x) @ be_bytes16 (length (snd x)) @ snd x"

definition enc_server_name :: "byte list \<Rightarrow> byte list" where
  "enc_server_name host = be_bytes16 (length host + 3) @ 0 # be_bytes16 (length host) @ host"

definition enc_extensions :: "(nat \<times> byte list) list \<Rightarrow> byte list" where
  "enc_extensions xs = concat (map enc_extension xs)"

definition enc_client_hello ::
  "byte list \<Rightarrow> byte list \<Rightarrow> byte list \<Rightarrow> byte list \<Rightarrow> (nat \<times> byte list) list \<Rightarrow> byte list" where
  "enc_client_hello fixed sid ciphers comps xs =
     fixed @ word_of_nat (length sid) # sid @ be_bytes16 (length ciphers) @ ciphers @
     word_of_nat (length comps) # comps @ be_bytes16 (length (enc_extensions xs)) @ enc_extensions xs"

lemma length_enc [simp]:
  "length (enc_extension x) = 4 + length (snd x)" "length (enc_server_name host) = 5 + length host"
  by (simp_all add: enc_extension_def enc_server_name_def)

definition ext_fits :: "nat \<times> byte list \<Rightarrow> bool" where
  "ext_fits x \<longleftrightarrow> fst x \<le> UINT16_MAX \<and> length (snd x) \<le> UINT16_MAX"

text \<open>What the loop keeps of the server name once it is known.\<close>

definition sni_same :: "tls_client_hello_view \<Rightarrow> tls_client_hello_view \<Rightarrow> bool" where
  "sni_same v w \<longleftrightarrow> has_sni w = has_sni v \<and> sni_name_offset w = sni_name_offset v \<and>
     sni_name_length w = sni_name_length v"

lemma sni_same_refl [simp]: "sni_same v v"
  by (simp add: sni_same_def)

lemma extensionsLoop_step:
  assumes "ext_fits x" "body = p @ enc_extension x @ q"
  shows "extensionsLoop body o' (length body) i (length p) v = do {
    (w, v) \<leftarrow> parseExtension body o' i (length p) (fst x) (length (snd x)) v;
    if \<not> w then Some (False, v)
    else extensionsLoop body o' (length body) (u16 (i + 1)) (length (p @ enc_extension x)) v }"
proof -
  have t: "rd_be16 body (length p) = Some (fst x)"
    using rd_be16_append [of "length p" p "fst x"] assms by (simp add: ext_fits_def enc_extension_def)
  have "rd_be16 ((p @ be_bytes16 (fst x)) @ be_bytes16 (length (snd x)) @ snd x @ q) (length p + 2) =
      Some (length (snd x))"
    using assms(1) by (intro rd_be16_append) (simp_all add: ext_fits_def)
  then have l: "rd_be16 body (length p + 2) = Some (length (snd x))"
    by (simp add: assms(2) enc_extension_def)
  have b: "length p < length body" "length p + 4 \<le> length body" "length p + 4 + length (snd x) \<le> length body"
    "length (p @ enc_extension x) = length p + 4 + length (snd x)"
    by (simp_all add: assms(2))
  show ?thesis
    unfolding b(4) by (subst extensionsLoop.simps) (use t l b(1-3) in simp)
qed

lemma parseExtension_skip:
  assumes "has_sni v \<or> t \<noteq> 0"
  shows "\<exists>w. parseExtension body o' i c t n v = Some (True, w) \<and> sni_same v w"
proof -
  have n: "\<not> (t = kTlsExtensionServerName \<and> \<not> has_sni v)" using assms by (auto simp: tls_consts)
  show ?thesis unfolding parseExtension_def if_not_P [OF n] by (simp add: sni_same_def)
qed

lemma extensionsLoop_skip:
  assumes "\<forall>x\<in>set xs. ext_fits x \<and> (has_sni v \<or> fst x \<noteq> 0)" "body = p @ enc_extensions xs @ q"
  shows "\<exists>j w. extensionsLoop body o' (length body) i (length p) v =
      extensionsLoop body o' (length body) j (length (p @ enc_extensions xs)) w \<and> sni_same v w"
  using assms
proof (induction xs arbitrary: p i v)
  case Nil
  show ?case by (rule exI [of _ i], rule exI [of _ v]) (simp add: enc_extensions_def)
next
  case (Cons x xs)
  let ?p = "p @ enc_extension x"
  have b: "body = p @ enc_extension x @ enc_extensions xs @ q" using Cons.prems(2) by (simp add: enc_extensions_def)
  obtain w where w: "parseExtension body o' i (length p) (fst x) (length (snd x)) v = Some (True, w)" "sni_same v w"
    using parseExtension_skip [of v "fst x" body o' i "length p" "length (snd x)"] Cons.prems(1) by auto
  have step: "extensionsLoop body o' (length body) i (length p) v =
      extensionsLoop body o' (length body) (u16 (i + 1)) (length ?p) w"
    using extensionsLoop_step [OF _ b] Cons.prems(1) w(1) by simp
  have "\<forall>x\<in>set xs. ext_fits x \<and> (has_sni w \<or> fst x \<noteq> 0)" using Cons.prems(1) w(2) by (simp add: sni_same_def)
  from Cons.IH [OF this, of ?p "u16 (i + 1)"] b obtain j u where
    "extensionsLoop body o' (length body) (u16 (i + 1)) (length ?p) w =
      extensionsLoop body o' (length body) j (length (?p @ enc_extensions xs)) u" "sni_same w u" by auto
  then show ?case unfolding step using w(2)
    by (intro exI [of _ j] exI [of _ u]) (simp add: enc_extensions_def sni_same_def)
qed

text \<open>The server-name extension itself.\<close>

lemma parseExtension_sni:
  assumes "\<not> has_sni v" "length host + 5 \<le> UINT16_MAX" "body = p @ enc_extension (0, enc_server_name host) @ q"
    "o' + length body \<le> UINT32_MAX"
  shows "\<exists>w. parseExtension body o' i (length p) 0 (length (enc_server_name host)) v = Some (True, w) \<and>
    has_sni w \<and> sni_name_offset w = o' + length p + 9 \<and> sni_name_length w = length host"
proof -
  let ?n = "length host + 5" and ?c = "length p + 4"
  let ?x = "\<lparr>se_offset = length p, se_data_offset = ?c, se_length = ?n, se_list_length = length host + 3, se_index = i\<rparr>"
  let ?w = "storeSni o' ?x (?c + 2) (length host) v"
  have n: "length (enc_server_name host) = ?n" by simp
  have bd: "body = p @ be_bytes16 0 @ be_bytes16 ?n @ be_bytes16 (length host + 3) @
      0 # be_bytes16 (length host) @ host @ q"
    unfolding assms(3) enc_extension_def fst_conv snd_conv n by (simp add: enc_server_name_def)
  have "rd_be16 ((p @ be_bytes16 0 @ be_bytes16 ?n) @ be_bytes16 (length host + 3) @
      0 # be_bytes16 (length host) @ host @ q) ?c = Some (length host + 3)"
    using assms(2) by (intro rd_be16_append) simp_all
  then have l: "rd_be16 body ?c = Some (length host + 3)" by (simp only: bd append_assoc)
  have "rd8 ((p @ be_bytes16 0 @ be_bytes16 ?n @ be_bytes16 (length host + 3)) @ 0 #
      be_bytes16 (length host) @ host @ q) (?c + 2) = Some 0"
    by (intro rd8_append) simp
  then have t: "rd8 body (?c + 2) = Some 0" by (simp only: bd append_assoc)
  have "rd_be16 ((p @ be_bytes16 0 @ be_bytes16 ?n @ be_bytes16 (length host + 3) @ [0]) @
      be_bytes16 (length host) @ host @ q) (?c + 2 + 1) = Some (length host)"
    using assms(2) by (intro rd_be16_append) simp_all
  then have h: "rd_be16 body (?c + 2 + 1) = Some (length host)"
    by (simp only: bd append_assoc append_Cons append_Nil)
  have e: "?c + 2 + (length host + 3) = ?c + ?n" "?c + 2 + 3 + length host = ?c + ?n" by simp_all
  have last: "namesLoop body o' ?x (?c + ?n) (?c + ?n) ?w = Some (True, ?w)"
    by (subst namesLoop.simps) simp
  have r: "?c + 2 < ?c + ?n" "rangeContains (?c + 2) 3 (?c + ?n)" "rangeContains (?c + 2 + 3) (length host) (?c + ?n)"
    by simp_all
  have names: "namesLoop body o' ?x (?c + ?n) (?c + 2) v = Some (True, ?w)"
    by (subst namesLoop.simps) (simp only: r t h e last assms(1) Let_def if_True if_False Option.bind.bind_lunit
        simp_thms)
  have "parseServerName body o' i (length p) ?n v = Some (True, ?w)"
    unfolding parseServerName_def Let_def l Option.bind.bind_lunit e names by simp
  then have "parseExtension body o' i (length p) 0 (length (enc_server_name host)) v = Some (True, ?w)"
    using assms(1) unfolding n by (simp add: parseExtension_def tls_consts)
  moreover have "u32 (o' + u32 (?c + 2 + 3)) = o' + length p + 9"
    using assms(3,4) by simp
  ultimately show ?thesis by (simp add: storeSni_def)
qed

lemma skipHelloHead_encoded:
  assumes "length fixed = 34" "length sid \<le> 255" "length ciphers \<le> UINT16_MAX" "length comps \<le> 255"
    "body = fixed @ word_of_nat (length sid) # sid @ be_bytes16 (length ciphers) @ ciphers @
       word_of_nat (length comps) # comps @ rest" "length body \<le> UINT32_MAX"
  shows "skipHelloHead body (length body) = Some (Some (length body - length rest))"
proof -
  have u: "unat (word_of_nat (length sid) :: byte) = length sid" "unat (word_of_nat (length comps) :: byte) = length comps"
    using assms(2,4) by (simp_all add: unat_word8_of_nat)
  have r1: "rd8 body 34 = Some (word_of_nat (length sid))"
    unfolding assms(5) by (rule rd8_append) (simp add: assms(1))
  have "rd_be16 ((fixed @ word_of_nat (length sid) # sid) @ be_bytes16 (length ciphers) @ ciphers @
      word_of_nat (length comps) # comps @ rest) (35 + length sid) = Some (length ciphers)"
    using assms(1,3) by (intro rd_be16_append) simp_all
  then have r2: "rd_be16 body (35 + length sid) = Some (length ciphers)"
    by (simp only: assms(5) append_assoc append_Cons)
  have "rd8 ((fixed @ word_of_nat (length sid) # sid @ be_bytes16 (length ciphers) @ ciphers) @
      word_of_nat (length comps) # comps @ rest) (37 + length sid + length ciphers) = Some (word_of_nat (length comps))"
    using assms(1) by (intro rd8_append) simp
  then have r3: "rd8 body (37 + length sid + length ciphers) = Some (word_of_nat (length comps))"
    by (simp only: assms(5) append_assoc append_Cons)
  have len: "length body = 38 + length sid + length ciphers + length comps + length rest"
    using assms(1) by (simp add: assms(5))
  have suc: "Suc (Suc (35 + length sid + length ciphers)) = 37 + length sid + length ciphers" by simp
  show ?thesis
    using assms(6) r1 r2 r3 u len suc by (simp add: skipHelloHead_def tls_consts Let_def)
qed

lemma parse_encoded:
  assumes fixed: "length fixed = 34" "length sid \<le> 255" "length ciphers \<le> UINT16_MAX" "length comps \<le> 255"
    and xs: "xs = pre @ (0, enc_server_name host) # post" "\<forall>x\<in>set xs. ext_fits x" "\<forall>x\<in>set pre. fst x \<noteq> 0"
      "length (enc_extensions xs) \<le> UINT16_MAX"
    and body: "body = enc_client_hello fixed sid ciphers comps xs"
    and at: "o' \<le> UINT16_MAX" "\<not> has_sni view"
  shows "\<exists>v n. tlsclienthelloParseBodyAt body (length body) o' view = Some (TlsClientHelloFound, v) \<and>
    sni_name_length v = length host \<and> sni_name_offset v = o' + n \<and> take (length host) (drop n body) = host"
proof -
  let ?E = "enc_extensions xs"
  define q where "q = fixed @ word_of_nat (length sid) # sid @ be_bytes16 (length ciphers) @ ciphers @
    word_of_nat (length comps) # comps"
  define p where "p = q @ be_bytes16 (length ?E)"
  have b: "body = q @ be_bytes16 (length ?E) @ ?E" by (simp add: body enc_client_hello_def q_def)
  have small: "length body \<le> 200000" using fixed xs(4) by (simp add: b q_def)
  have head: "skipHelloHead body (length body) = Some (Some (length q))"
    using skipHelloHead_encoded [OF fixed, of body "be_bytes16 (length ?E) @ ?E"] small
    by (simp add: body enc_client_hello_def q_def)
  have r: "rd_be16 body (length q) = Some (length ?E)"
    unfolding b using xs(4) by (intro rd_be16_append) simp_all
  have lp: "length p = length q + 2" "length body = length q + 2 + length ?E" by (simp_all add: p_def b)
  define v0 where "v0 = view\<lparr>extensions_length_field_offset := u32 (o' + u32 (length q)),
    extensions_offset := u32 (o' + u32 (length p)), extensions_length := length ?E\<rparr>"
  have v0: "\<not> has_sni v0" using at by (simp add: v0_def)
  have start: "tlsclienthelloParseBodyAt body (length body) o' view = do {
      (w, v) \<leftarrow> extensionsLoop body o' (length body) 0 (length p) v0;
      if \<not> w then Some (TlsClientHelloMalformed, v)
      else Some (if has_sni v then TlsClientHelloFound else TlsClientHelloNoSni,
        v\<lparr>ech_before_sni := has_ech v \<and> has_sni v \<and> ech_extension_index v < sni_extension_index v\<rparr>) }"
  proof -
    have "length q \<noteq> length body" "\<not> \<not> rangeContains (length q) 2 (length body)"
      "\<not> (\<not> rangeContains (length p) (length ?E) (length body) \<or> length p + length ?E \<noteq> length body)"
      using lp by simp_all
    then show ?thesis
      using small head r lp
      unfolding tlsclienthelloParseBodyAt_def parseExtensions_def Let_def
      by (simp add: v0_def split_def cong: if_cong)
  qed
  let ?s = "(0, enc_server_name host) :: nat \<times> byte list"
  have E: "?E = enc_extensions pre @ enc_extension ?s @ enc_extensions post"
    by (simp add: xs(1) enc_extensions_def)
  have b1: "body = p @ enc_extensions pre @ (enc_extension ?s @ enc_extensions post)" by (simp add: b p_def E)
  obtain j w where w: "extensionsLoop body o' (length body) 0 (length p) v0 =
      extensionsLoop body o' (length body) j (length (p @ enc_extensions pre)) w" "sni_same v0 w"
    using extensionsLoop_skip [of pre v0 body p "enc_extension ?s @ enc_extensions post" o' 0] b1 xs by auto
  let ?p = "p @ enc_extensions pre"
  have b2: "body = ?p @ enc_extension ?s @ enc_extensions post" using b1 by simp
  have host: "length host + 5 \<le> UINT16_MAX" using xs(1,2) by (simp add: ext_fits_def)
  obtain u where u: "parseExtension body o' j (length ?p) 0 (length (enc_server_name host)) w = Some (True, u)"
    "has_sni u" "sni_name_offset u = o' + length ?p + 9" "sni_name_length u = length host"
    using parseExtension_sni [OF _ host b2, of w o' j] w(2) v0 small at(1) by (auto simp: sni_same_def)
  have fits: "ext_fits ?s" using xs(1,2) by simp
  have step: "extensionsLoop body o' (length body) j (length ?p) w =
      extensionsLoop body o' (length body) (u16 (j + 1)) (length (?p @ enc_extension ?s)) u"
    using extensionsLoop_step [OF fits b2] u(1) by simp
  have b3: "body = (?p @ enc_extension ?s) @ enc_extensions post @ []" using b2 by simp
  obtain k x where x: "extensionsLoop body o' (length body) (u16 (j + 1)) (length (?p @ enc_extension ?s)) u =
      extensionsLoop body o' (length body) k (length ((?p @ enc_extension ?s) @ enc_extensions post)) x" "sni_same u x"
    using extensionsLoop_skip [OF _ b3, of u o' "u16 (j + 1)"] u(2) xs(1,2) by auto
  have "extensionsLoop body o' (length body) k (length body) x = Some (True, x)"
    by (subst extensionsLoop.simps) simp
  moreover have "length ((?p @ enc_extension ?s) @ enc_extensions post) = length body" using b3 by simp
  ultimately have "extensionsLoop body o' (length body) 0 (length p) v0 = Some (True, x)"
    using w(1) step x(1) by metis
  moreover have "take (length host) (drop (length ?p + 9) body) = host"
    by (simp add: b2 enc_extension_def enc_server_name_def be_bytes16_def)
  ultimately show ?thesis using start x(2) u
    by (intro exI [of _ "x\<lparr>ech_before_sni := has_ech x \<and> has_sni x \<and> ech_extension_index x < sni_extension_index x\<rparr>"]
        exI [of _ "length ?p + 9"]) (simp add: sni_same_def)
qed

text \<open>A whole record: the record and handshake headers in front of the body.\<close>

definition be_bytes24 :: "nat \<Rightarrow> byte list" where
  "be_bytes24 v = [word_of_nat (v div 65536), word_of_nat (v div 256), word_of_nat v]"

definition enc_record :: "byte list \<Rightarrow> byte list" where
  "enc_record body = [22, 3, 1] @ be_bytes16 (4 + length body) @ [1] @ be_bytes24 (length body) @ body"

lemma parse_encoded_record:
  assumes "tlsclienthelloParseBodyAt body (length body) 9 (handshake_view 5 (length body) (record_view (4 + length body))) =
      Some (TlsClientHelloFound, v)" "4 + length body \<le> UINT16_MAX"
  shows "tlsclienthelloParseRecord (Some (enc_record body)) (length (enc_record body)) = Some (TlsClientHelloFound, v)"
proof -
  let ?r = "enc_record body"
  have d: "drop 5 ?r = [1] @ be_bytes24 (length body) @ body" by (simp add: enc_record_def be_bytes16_def)
  have b: "rd_be24 (drop 5 ?r) 1 = Some (length body)" "drop 5 ?r ! 0 = 1" "drop 4 (drop 5 ?r) = body"
    "length (drop 5 ?r) = 4 + length body"
    using assms(2) unfolding d by (simp_all add: be_bytes24_def rd_be24_def unat_word8_of_nat)
  from order.refl [of "length (drop 5 ?r)"]
  have h: "tlsclienthelloParseHandshakeAt (drop 5 ?r) (4 + length body) 5 (record_view (4 + length body)) =
      Some (TlsClientHelloFound, v)"
    by (cases rule: parseHandshakeAt_cases [where x = 5 and v = "record_view (4 + length body)"])
      (use b assms in auto)
  have n: "rd_be16 ?r 3 = Some (4 + length body)"
    using rd_be16_append [of 3 "[22, 3, 1]" "4 + length body" "[1] @ be_bytes24 (length body) @ body"] assms(2)
    by (simp add: enc_record_def)
  have good: "\<not> bad_header ?r (length ?r)" by (simp add: bad_header_def enc_record_def)
  have len: "length ?r = 9 + length body" by (simp add: enc_record_def be_bytes24_def)
  from order.refl [of "length ?r"] show ?thesis
    by (cases rule: parseRecord_cases) (use n good len h in auto)
qed

section \<open>Properties\<close>

lemma parse_client_hello_record:
  assumes "length fixed = 34" "length sid \<le> 255" "length ciphers \<le> UINT16_MAX" "length comps \<le> 255"
    "xs = pre @ (0, enc_server_name host) # post" "\<forall>x\<in>set xs. ext_fits x" "\<forall>x\<in>set pre. fst x \<noteq> 0"
    "body = enc_client_hello fixed sid ciphers comps xs" "4 + length body \<le> UINT16_MAX"
  shows "\<exists>v. tlsclienthelloParseRecord (Some (enc_record body @ rest)) (length (enc_record body @ rest)) =
      Some (TlsClientHelloFound, v) \<and>
    take (sni_name_length v) (drop (sni_name_offset v) (enc_record body @ rest)) = host"
proof -
  have "length (enc_extensions xs) \<le> UINT16_MAX" using assms(8,9) by (simp add: enc_client_hello_def)
  from parse_encoded [OF assms(1-7) this assms(8), of 9 "handshake_view 5 (length body) (record_view (4 + length body))"]
  obtain v n where v: "tlsclienthelloParseBodyAt body (length body) 9
      (handshake_view 5 (length body) (record_view (4 + length body))) = Some (TlsClientHelloFound, v)"
    "sni_name_length v = length host" "sni_name_offset v = 9 + n" "take (length host) (drop n body) = host" by auto
  from parseRecord_final [OF parse_encoded_record [OF v(1) assms(9)], of rest]
  have "tlsclienthelloParseRecord (Some (enc_record body @ rest)) (length (enc_record body @ rest)) =
      Some (TlsClientHelloFound, v)" by simp
  moreover have "drop (9 + n) (enc_record body @ rest) = drop n (body @ rest)"
    unfolding add.commute [of 9] drop_drop [symmetric] by (simp add: enc_record_def be_bytes16_def be_bytes24_def)
  moreover have "take (length host) (drop n (body @ rest)) = host"
  proof (cases "host = []")
    case False
    then have "length host \<le> length body - n" using arg_cong [OF v(4), of length] by simp
    then show ?thesis using v(4) by simp
  qed simp
  ultimately show ?thesis by (intro exI [of _ v]) (simp only: v(2,3) simp_thms)
qed

text \<open>A small ClientHello for the host name \<open>a\<close>.\<close>

definition sample_hello :: "byte list" where
  "sample_hello = enc_record (enc_client_hello (replicate 34 0) [] [19, 1] [0] [(0, enc_server_name [97])])"

lemma sample_length: "length sample_hello = 62"
  by (simp add: sample_hello_def enc_record_def enc_client_hello_def enc_extensions_def be_bytes24_def)

lemma sample_found:
  "\<exists>v. tlsclienthelloParseRecord (Some sample_hello) (length sample_hello) = Some (TlsClientHelloFound, v)"
  using parse_client_hello_record [of "replicate 34 0" "[]" "[19, 1]" "[0]" "[(0, enc_server_name [97])]" "[]" "[97]" "[]"
      "enc_client_hello (replicate 34 0) [] [19, 1] [0] [(0, enc_server_name [97])]" "[]"]
  by (auto simp: sample_hello_def ext_fits_def enc_client_hello_def enc_extensions_def)

text \<open>C25. The record parser is memory safe and total: for every input it returns a result without
  reading past the bytes it was given.\<close>

theorem tls_parse_total:
  assumes "available_length \<le> length record"
  shows "\<exists>result view. tlsclienthelloParseRecord (Some record) available_length = Some (result, view)"
  using parseRecord_ok [OF assms] by blast

theorem tls_parse_total_witness:
  "\<exists>result view. tlsclienthelloParseRecord (Some sample_hello) 40 = Some (result, view)"
  by (rule tls_parse_total) (simp add: sample_length)

text \<open>C26. A reported server name is real: it lies inside the complete record, inside a server-name
  extension, and the bytes before it are the host-name type and its exact length.\<close>

theorem tls_sni_inside:
  assumes "available_length \<le> length record"
    "tlsclienthelloParseRecord (Some record) available_length = Some (TlsClientHelloFound, view)"
  shows "sni_name_offset view + sni_name_length view \<le> record_total_length view \<and>
    record_total_length view \<le> available_length \<and> 3 \<le> sni_name_offset view \<and>
    record ! (sni_name_offset view - 3) = 0 \<and>
    be16 (record ! (sni_name_offset view - 2)) (record ! (sni_name_offset view - 1)) = sni_name_length view \<and>
    sni_extension_offset view + 4 \<le> sni_name_offset view \<and>
    sni_name_offset view + sni_name_length view \<le> sni_extension_offset view + 4 + sni_extension_length view \<and>
    rd_be16 record (sni_extension_offset view) = Some 0"
proof -
  obtain n where t: "record_total_length view \<le> available_length" "9 + n \<le> record_total_length view"
    "sni_at (drop 9 record) 9 n view"
    using parseRecord_ok [OF assms(1)] assms(2) by auto
  then obtain k x where k: "sni_name_offset view = 9 + k" "sni_extension_offset view = 9 + x" "3 \<le> k"
    "drop 9 record ! (k - 3) = 0" "rd_be16 (drop 9 record) (k - 2) = Some (sni_name_length view)" "x + 4 \<le> k"
    "k + sni_name_length view \<le> x + 4 + sni_extension_length view" "x + 4 + sni_extension_length view \<le> n"
    "rd_be16 (drop 9 record) x = Some 0" by (auto simp: sni_at_def)
  have len: "9 + n \<le> length record" using t assms(1) by linarith
  have "drop 9 record ! (k - 3) = record ! (9 + (k - 3))" "9 + (k - 3) = 9 + k - 3" "9 + (k - 2) = 9 + k - 2"
    "9 + (k - 1) = 9 + k - 1" "k - 2 + 1 = k - 1"
    using len k(3,6,7,8) by auto
  moreover have "drop 9 record ! (k - 2) = record ! (9 + (k - 2))" "drop 9 record ! (k - 1) = record ! (9 + (k - 1))"
    using len k(3,6,7,8) by auto
  moreover have "rd_be16 record (9 + x) = Some 0"
    using k(9) len by (simp add: rd_be16_def add.assoc split: if_splits)
  ultimately show ?thesis using k t by (auto simp: rd_be16_def split: if_splits)
qed

theorem tls_sni_inside_witness:
  "\<exists>view. sni_name_offset view + sni_name_length view \<le> record_total_length view \<and>
    tlsclienthelloParseRecord (Some sample_hello) 62 = Some (TlsClientHelloFound, view)"
proof -
  obtain v where v: "tlsclienthelloParseRecord (Some sample_hello) 62 = Some (TlsClientHelloFound, v)"
    using sample_found sample_length by auto
  show ?thesis using tls_sni_inside [OF _ v] v by (auto simp: sample_length)
qed

text \<open>C33. A decision is final: once the parser answers anything but need-more, it gives the same
  answer with the same view for every continuation of the stream, so it does not matter when the
  caller asks.\<close>

theorem tls_decision_final:
  assumes "tlsclienthelloParseRecord (Some record) (length record) = Some (result, view)"
    "result \<noteq> TlsClientHelloNeedMore"
  shows "tlsclienthelloParseRecord (Some (record @ extra)) (length (record @ extra)) = Some (result, view)"
  by (rule parseRecord_final [OF assms])

theorem tls_decision_final_witness:
  "\<exists>view. tlsclienthelloParseRecord (Some (sample_hello @ [23])) (length (sample_hello @ [23])) =
     Some (TlsClientHelloFound, view)"
proof -
  obtain v where v: "tlsclienthelloParseRecord (Some sample_hello) (length sample_hello) = Some (TlsClientHelloFound, v)"
    using sample_found by auto
  show ?thesis using tls_decision_final [OF v, of "[23]"] by (intro exI [of _ v]) simp
qed

text \<open>C22. Round trip with the wire format of RFC 8446 and RFC 6066: a record holding a ClientHello
  with any session id, cipher suites, compression methods and extensions, among them a server-name
  extension, is classified as found, and the reported range is exactly the host name.\<close>

theorem tls_client_hello_roundtrip:
  assumes "length fixed = 34" "length sid \<le> 255" "length ciphers \<le> UINT16_MAX" "length comps \<le> 255"
    "xs = pre @ (0, enc_server_name host) # post" "\<forall>x\<in>set xs. ext_fits x" "\<forall>x\<in>set pre. fst x \<noteq> 0"
    "body = enc_client_hello fixed sid ciphers comps xs" "4 + length body \<le> UINT16_MAX"
  shows "\<exists>view. tlsclienthelloParseRecord (Some (enc_record body @ rest)) (length (enc_record body @ rest)) =
      Some (TlsClientHelloFound, view) \<and>
    take (sni_name_length view) (drop (sni_name_offset view) (enc_record body @ rest)) = host"
  by (rule parse_client_hello_record [OF assms])

theorem tls_client_hello_roundtrip_witness:
  "\<exists>view. tlsclienthelloParseRecord (Some (sample_hello @ [])) (length (sample_hello @ [])) =
      Some (TlsClientHelloFound, view) \<and>
    take (sni_name_length view) (drop (sni_name_offset view) (sample_hello @ [])) = [97]"
  unfolding sample_hello_def
  by (rule tls_client_hello_roundtrip [of _ "[]" "[19, 1]" "[0]" _ "[]" _ "[]"])
    (auto simp: ext_fits_def enc_client_hello_def enc_extensions_def)

end
