(* ===== verification/Generic_Sniffer.thy ===== *)
theory Generic_Sniffer
  imports Tls_Laws
begin

text \<open>
  First-payload protocol sniffing (\<open>src/ww/net/generic_sniffer.c\<close>): HTTP/1 method, header and host
  detection, TLS ClientHello detection across fragmented records, and the BitTorrent handshake.
  Bytes are read through \<^const>\<open>rd8\<close>, so a run that leaves its memory is \<^const>\<open>None\<close>. Pointers
  into the payload are offsets; \<open>payload_len\<close> is kept apart from the memory behind it. The index
  variables are \<open>uint32_t\<close> and stay below \<open>payload_len\<close>, so they are written as plain numbers.
\<close>

datatype generic_sniffer_result = GenericSnifferNeedMore | GenericSnifferMissing | GenericSnifferFound

definition kGenericSnifferMethodDecideBytes :: nat where "kGenericSnifferMethodDecideBytes = 8"
definition kGenericSnifferMaxWindowBytes :: nat where "kGenericSnifferMaxWindowBytes = 8192"

definition ascii :: "string \<Rightarrow> byte list" where
  "ascii s = map of_char s"

section \<open>Scanning loops\<close>

text \<open>
  \<open>scan_up\<close> is the loop that advances an index until a condition holds or the limit is reached,
  \<open>scan_down\<close> the one that moves an end backwards while a condition holds.
\<close>

function scan_up :: "(nat \<Rightarrow> bool option) \<Rightarrow> nat \<Rightarrow> nat \<Rightarrow> nat option" where
  "scan_up stop i limit =
     (if i < limit then do { s \<leftarrow> stop i; if s then Some i else scan_up stop (i + 1) limit } else Some i)"
  by pat_completeness auto
termination by (relation "measure (\<lambda>(_, i, limit). limit - i)") auto

declare scan_up.simps [simp del]

function scan_down :: "(nat \<Rightarrow> bool option) \<Rightarrow> nat \<Rightarrow> nat \<Rightarrow> nat option" where
  "scan_down keep bottom n =
     (if n > bottom then do { k \<leftarrow> keep (n - 1); if k then scan_down keep bottom (n - 1) else Some n } else Some n)"
  by pat_completeness auto
termination by (relation "measure (\<lambda>(_, _, n). n)") auto

declare scan_down.simps [simp del]

lemma scan_up_ge: "scan_up stop i limit = Some r \<Longrightarrow> i \<le> r"
proof (induction stop i limit rule: scan_up.induct)
  case (1 stop i limit)
  from "1.prems" show ?case
    by (subst (asm) scan_up.simps) (auto simp: guard_simps split: if_splits dest: "1.IH")
qed

lemma scan_up_total:
  assumes "\<And>j. i \<le> j \<Longrightarrow> j < limit \<Longrightarrow> stop j = Some (S j)"
  shows "\<exists>r. scan_up stop i limit = Some r \<and> i \<le> r \<and> (i \<le> limit \<longrightarrow> r \<le> limit) \<and>
    (\<forall>j. i \<le> j \<and> j < r \<longrightarrow> \<not> S j) \<and> (r < limit \<longrightarrow> S r)"
  using assms
proof (induction stop i limit rule: scan_up.induct)
  case (1 stop i limit)
  show ?case
  proof (cases "i < limit \<and> \<not> S i")
    case True
    then have "stop i = Some False" using "1.prems" by simp
    with True obtain r where "scan_up stop (i + 1) limit = Some r" "i + 1 \<le> r" "r \<le> limit"
      "\<forall>j. i + 1 \<le> j \<and> j < r \<longrightarrow> \<not> S j" "r < limit \<longrightarrow> S r"
      using "1.IH" [of False] "1.prems" by auto
    moreover from this have "\<not> S j" if "i \<le> j" "j < r" for j
      using that True by (cases "j = i") auto
    ultimately show ?thesis using True \<open>stop i = Some False\<close>
      by (subst scan_up.simps) (auto intro!: exI [of _ r])
  next
    case False
    then show ?thesis using "1.prems" [of i] by (subst scan_up.simps) auto
  qed
qed

lemma scan_up_at:
  assumes "i \<le> r" "r \<le> limit" "\<And>j. i \<le> j \<Longrightarrow> j < r \<Longrightarrow> stop j = Some False" "r < limit \<Longrightarrow> stop r = Some True"
  shows "scan_up stop i limit = Some r"
  using assms
proof (induction stop i limit rule: scan_up.induct)
  case (1 stop i limit)
  show ?case
  proof (cases "i = r")
    case True
    then show ?thesis using "1.prems" by (subst scan_up.simps) auto
  next
    case False
    then have "stop i = Some False" "i < limit" "i + 1 \<le> r" using "1.prems" by auto
    then show ?thesis using "1.IH" [of False] "1.prems" by (subst scan_up.simps) simp
  qed
qed

lemma scan_down_total:
  assumes "\<And>j. j < n \<Longrightarrow> keep j = Some (K j)" "bottom \<le> n"
  shows "\<exists>r. scan_down keep bottom n = Some r \<and> bottom \<le> r \<and> r \<le> n \<and>
    (\<forall>j. r \<le> j \<and> j < n \<longrightarrow> K j) \<and> (bottom < r \<longrightarrow> \<not> K (r - 1))"
  using assms
proof (induction keep bottom n rule: scan_down.induct)
  case (1 keep bottom n)
  show ?case
  proof (cases "n > bottom \<and> K (n - 1)")
    case True
    then have k: "keep (n - 1) = Some True" using "1.prems" by simp
    with True obtain r where "scan_down keep bottom (n - 1) = Some r" "bottom \<le> r" "r \<le> n - 1"
      "\<forall>j. r \<le> j \<and> j < n - 1 \<longrightarrow> K j" "bottom < r \<longrightarrow> \<not> K (r - 1)"
      using "1.IH" [OF _ k TrueI] "1.prems" True by fastforce
    moreover from this have "K j" if "r \<le> j" "j < n" for j
      using that True by (cases "j = n - 1") auto
    ultimately show ?thesis using True k
      by (subst scan_down.simps) (auto intro!: exI [of _ r])
  next
    case False
    then show ?thesis using "1.prems" by (subst scan_down.simps) (auto simp: not_less)
  qed
qed

lemma scan_down_at:
  assumes "bottom \<le> r" "r \<le> n" "\<And>j. r \<le> j \<Longrightarrow> j < n \<Longrightarrow> keep j = Some True" "bottom < r \<Longrightarrow> keep (r - 1) = Some False"
  shows "scan_down keep bottom n = Some r"
  using assms
proof (induction keep bottom n rule: scan_down.induct)
  case (1 keep bottom n)
  show ?case
  proof (cases "n = r")
    case True
    then show ?thesis using "1.prems" by (subst scan_down.simps) auto
  next
    case False
    then have "keep (n - 1) = Some True" "bottom < n" "r \<le> n - 1" using "1.prems" by auto
    then show ?thesis using "1.IH" [of True] "1.prems" by (subst scan_down.simps) simp
  qed
qed

section \<open>HTTP/1 requests\<close>

definition asciiLower :: "byte \<Rightarrow> byte" where
  "asciiLower c = (if 65 \<le> c \<and> c \<le> 90 then c OR 32 else c)"

text \<open>The C string \<open>name\<close> is the list without its terminator; the empty rest is its NUL.\<close>

fun headerNameEquals :: "byte list \<Rightarrow> nat \<Rightarrow> nat \<Rightarrow> byte list \<Rightarrow> bool option" where
  "headerNameEquals p at 0 name = Some (name = [])"
| "headerNameEquals p at (Suc n) [] = Some False"
| "headerNameEquals p at (Suc n) (c # cs) = do {
     b \<leftarrow> rd8 p at;
     if asciiLower b \<noteq> c then Some False else headerNameEquals p (at + 1) n cs
   }"

definition http1_methods :: "byte list list" where
  "http1_methods = map ascii [''GET '', ''POST '', ''PUT '', ''HEAD '', ''DELETE '', ''OPTIONS '', ''PATCH '',
     ''TRACE '', ''CONNECT '']"

text \<open>The comparison of the payload with one method: a full match returns from the function, a match of a
  shorter payload sets \<open>any_prefix\<close>.\<close>

fun methodsLoop :: "byte list \<Rightarrow> nat \<Rightarrow> byte list list \<Rightarrow> bool \<Rightarrow> (bool \<times> bool) option" where
  "methodsLoop p n [] any_prefix = Some (False, any_prefix)"
| "methodsLoop p n (m # ms) any_prefix = do {
     let mlen = length m;
     let cmp = (if n < mlen then n else mlen);
     bytes \<leftarrow> mem_read p 0 cmp;
     if bytes = take cmp m
     then (if n \<ge> mlen then Some (True, any_prefix) else methodsLoop p n ms True)
     else methodsLoop p n ms any_prefix
   }"

definition classifyHttpMethodEx :: "byte list \<Rightarrow> nat \<Rightarrow> bool \<Rightarrow> int option" where
  "classifyHttpMethodEx p n include_http2_preface = do {
     (matched, any_prefix) \<leftarrow> methodsLoop p n http1_methods False;
     if matched then Some 1
     else do {
       (matched, any_prefix) \<leftarrow> (if include_http2_preface then methodsLoop p n [ascii ''PRI ''] any_prefix
                                else Some (False, any_prefix));
       if matched then Some 1 else Some (if any_prefix then -1 else 0)
     }
   }"

definition classifyHttpMethod :: "byte list \<Rightarrow> nat \<Rightarrow> int option" where
  "classifyHttpMethod p n = classifyHttpMethodEx p n True"

definition classifyHttp1Method :: "byte list \<Rightarrow> nat \<Rightarrow> int option" where
  "classifyHttp1Method p n = classifyHttpMethodEx p n False"

text \<open>The position of the line feed, or the inner \<^const>\<open>None\<close>.\<close>

definition findLineFeed :: "byte list \<Rightarrow> nat \<Rightarrow> nat \<Rightarrow> nat option option" where
  "findLineFeed p start finish = do {
     i \<leftarrow> scan_up (\<lambda>i. do { b \<leftarrow> rd8 p i; Some (b = 10) }) start finish;
     Some (if i < finish then Some i else None)
   }"

text \<open>The guards \<open>i + 3U < n\<close> and \<open>i + 1U < n\<close> end the loops before the sum can wrap.\<close>

definition rd_equal :: "byte list \<Rightarrow> nat \<Rightarrow> byte list \<Rightarrow> bool option" where
  "rd_equal p i xs = do { bytes \<leftarrow> mem_read p i (length xs); Some (bytes = xs) }"

definition findHeaderEnd :: "byte list \<Rightarrow> nat \<Rightarrow> nat option option" where
  "findHeaderEnd p n = do {
     i \<leftarrow> scan_up (\<lambda>i. rd_equal p i [13, 10, 13, 10]) 0 (n - 3);
     if i < n - 3 then Some (Some i)
     else do {
       i \<leftarrow> scan_up (\<lambda>i. rd_equal p i [10, 10]) 0 (n - 1);
       Some (if i < n - 1 then Some i else None)
     }
   }"

text \<open>The conversion \<open>(int) i\<close> of a \<open>uint32_t\<close>.\<close>

definition int32_of :: "nat \<Rightarrow> int" where
  "int32_of i = (if i < 2147483648 then int i else int i - 4294967296)"

function colonLoop :: "byte list \<Rightarrow> nat \<Rightarrow> nat \<Rightarrow> int \<Rightarrow> (int \<times> bool) option" where
  "colonLoop host host_len i colon_index =
     (if i < host_len then do {
        c \<leftarrow> rd8 host i;
        if c = 58 then (if colon_index \<ge> 0 then Some (colon_index, True)
                        else colonLoop host host_len (i + 1) (int32_of i))
        else colonLoop host host_len (i + 1) colon_index
      }
      else Some (colon_index, False))"
  by pat_completeness auto
termination by (relation "measure (\<lambda>(_, n, i, _). n - i)") auto

declare colonLoop.simps [simp del]

text \<open>
  Strips trailing blanks, a numeric port and trailing dots. The host pointer is never moved, so the
  result is the new length; a bracketed address keeps its port.
\<close>

definition genericsnifferStripHostPortAndDot :: "byte list \<Rightarrow> nat \<Rightarrow> nat option" where
  "genericsnifferStripHostPortAndDot host host_len = do {
     host_len \<leftarrow> scan_down (\<lambda>i. do { b \<leftarrow> rd8 host i; Some (b = 32 \<or> b = 9 \<or> b = 13) }) 0 host_len;
     bracket \<leftarrow> (if host_len > 0 then do { b \<leftarrow> rd8 host 0; Some (b = 91) } else Some False);
     if bracket then Some host_len
     else do {
       (colon_index, multiple_colons) \<leftarrow> colonLoop host host_len 0 (-1);
       host_len \<leftarrow>
         (if colon_index > 0 \<and> \<not> multiple_colons \<and> nat colon_index + 1 < host_len
          then do {
            i \<leftarrow> scan_up (\<lambda>i. do { b \<leftarrow> rd8 host i; Some (b < 48 \<or> b > 57) }) (nat colon_index + 1) host_len;
            Some (if i < host_len then host_len else nat colon_index)
          }
          else Some host_len);
       scan_down (\<lambda>i. do { b \<leftarrow> rd8 host i; Some (b = 46) }) 0 host_len
     }
   }"

text \<open>One header line: the value's offset and length when the name matches.\<close>

definition headerLine :: "byte list \<Rightarrow> nat \<Rightarrow> nat \<Rightarrow> byte list \<Rightarrow> (nat \<times> nat) option option" where
  "headerLine p line_start line_end name = do {
     cr \<leftarrow> (if line_end > line_start then do { b \<leftarrow> rd8 p (line_end - 1); Some (b = 13) } else Some False);
     let content_end = (if cr then line_end - 1 else line_end);
     colon \<leftarrow> scan_up (\<lambda>i. do { b \<leftarrow> rd8 p i; Some (b = 58) }) line_start content_end;
     name_end \<leftarrow> scan_down (\<lambda>i. do { b \<leftarrow> rd8 p i; Some (b = 32 \<or> b = 9) }) line_start colon;
     hit \<leftarrow> (if colon < content_end then headerNameEquals p line_start (name_end - line_start) name else Some False);
     if hit then do {
       value_start \<leftarrow> scan_up (\<lambda>i. do { b \<leftarrow> rd8 p i; Some (\<not> (b = 32 \<or> b = 9)) }) (colon + 1) content_end;
       Some (Some (value_start, content_end - value_start))
     }
     else Some None
   }"

lemma findLineFeed_ge: "findLineFeed p i n = Some (Some r) \<Longrightarrow> i \<le> r"
  by (auto simp: findLineFeed_def guard_simps split: if_splits dest: scan_up_ge)

function headerLinesLoop :: "byte list \<Rightarrow> nat \<Rightarrow> byte list \<Rightarrow> nat \<Rightarrow> (nat \<times> nat) option option" where
  "headerLinesLoop p header_end name line_start =
     (if line_start < header_end then do {
        lf \<leftarrow> findLineFeed p line_start header_end;
        let line_end = (case lf of None \<Rightarrow> header_end | Some i \<Rightarrow> i);
        hit \<leftarrow> headerLine p line_start line_end name;
        case hit of
          Some value \<Rightarrow> Some (Some value)
        | None \<Rightarrow> headerLinesLoop p header_end name (line_end + 1)
      }
      else Some None)"
  by pat_completeness auto
termination
  by (relation "measure (\<lambda>(_, n, _, i). n - i)") (auto split: option.splits dest!: findLineFeed_ge)

declare headerLinesLoop.simps [simp del]

text \<open>The found value is returned as its offset and length; the caller that passes NULL ignores it.\<close>

definition findHttpHeader ::
  "byte list \<Rightarrow> nat \<Rightarrow> byte list \<Rightarrow> (generic_sniffer_result \<times> nat \<times> nat) option" where
  "findHttpHeader p n name = do {
     e \<leftarrow> findHeaderEnd p n;
     case e of
       None \<Rightarrow> Some (if n < kGenericSnifferMaxWindowBytes then GenericSnifferNeedMore else GenericSnifferMissing, 0, 0)
     | Some header_end \<Rightarrow> do {
         lf \<leftarrow> findLineFeed p 0 header_end;
         case lf of
           None \<Rightarrow> Some (GenericSnifferMissing, 0, 0)
         | Some request_line_end \<Rightarrow> do {
             hit \<leftarrow> headerLinesLoop p header_end name (request_line_end + 1);
             case hit of
               Some value \<Rightarrow> Some (GenericSnifferFound, value)
             | None \<Rightarrow> Some (GenericSnifferMissing, 0, 0)
           }
       }
   }"

definition findHttpHost :: "byte list \<Rightarrow> nat \<Rightarrow> (generic_sniffer_result \<times> nat \<times> nat) option" where
  "findHttpHost p n = do {
     (result, value, value_len) \<leftarrow> findHttpHeader p n (ascii ''host'');
     if result \<noteq> GenericSnifferFound then Some (result, 0, 0)
     else do {
       value_len \<leftarrow> genericsnifferStripHostPortAndDot (drop value p) value_len;
       Some (if value_len = 0 then (GenericSnifferMissing, 0, 0) else (GenericSnifferFound, value, value_len))
     }
   }"

definition genericsnifferSniffHttp1Host ::
  "byte list \<Rightarrow> nat \<Rightarrow> (generic_sniffer_result \<times> nat \<times> nat) option" where
  "genericsnifferSniffHttp1Host payload payload_len =
     (if payload_len = 0 then Some (GenericSnifferNeedMore, 0, 0)
      else do {
        http_method \<leftarrow> classifyHttpMethod payload payload_len;
        if http_method < 0 \<and> payload_len < kGenericSnifferMethodDecideBytes then Some (GenericSnifferNeedMore, 0, 0)
        else if http_method \<le> 0 then Some (GenericSnifferMissing, 0, 0)
        else findHttpHost payload payload_len
      })"

definition genericsnifferSniffHttp1Request :: "byte list \<Rightarrow> nat \<Rightarrow> generic_sniffer_result option" where
  "genericsnifferSniffHttp1Request payload payload_len =
     (if payload_len = 0 then Some GenericSnifferNeedMore
      else do {
        http_method \<leftarrow> classifyHttp1Method payload payload_len;
        if http_method < 0 \<and> payload_len < kGenericSnifferMethodDecideBytes then Some GenericSnifferNeedMore
        else Some (if http_method > 0 then GenericSnifferFound else GenericSnifferMissing)
      })"

definition genericsnifferSniffHttp1UpgradeHeader :: "byte list \<Rightarrow> nat \<Rightarrow> generic_sniffer_result option" where
  "genericsnifferSniffHttp1UpgradeHeader payload payload_len =
     (if payload_len = 0 then Some GenericSnifferNeedMore
      else do {
        http_method \<leftarrow> classifyHttpMethod payload payload_len;
        if http_method < 0 \<and> payload_len < kGenericSnifferMethodDecideBytes then Some GenericSnifferNeedMore
        else if http_method \<le> 0 then Some GenericSnifferMissing
        else do { (result, _) \<leftarrow> findHttpHeader payload payload_len (ascii ''upgrade''); Some result }
      })"

section \<open>TLS ClientHello across records\<close>

text \<open>\<open>memoryCopy\<close> between the payload and the scratch window.\<close>

definition memoryCopy :: "byte list \<Rightarrow> nat \<Rightarrow> byte list \<Rightarrow> nat \<Rightarrow> nat \<Rightarrow> byte list option" where
  "memoryCopy dst at src from n = do { bytes \<leftarrow> mem_read src from n; mem_write dst at bytes }"

text \<open>The copies of one record's fragment: what is still missing of the handshake header or body, and after
  a completed header the part of the body that the record holds. \<open>Inl\<close> is an early return.\<close>

definition collectFragment ::
  "byte list \<Rightarrow> nat \<Rightarrow> nat \<Rightarrow> byte list \<Rightarrow> nat \<Rightarrow> nat \<Rightarrow>
   (tls_client_hello_result + (byte list \<times> nat \<times> nat)) option" where
  "collectFragment payload offset record_len scratch used needed = do {
     let n = min record_len (sub32 needed used);
     scratch \<leftarrow> memoryCopy scratch used payload (offset + 5) n;
     let used = used + n;
     s0 \<leftarrow> rd8 scratch 0;
     if s0 \<noteq> 1 then Some (Inl TlsClientHelloNotClientHello)
     else if used = 4 \<and> needed = 4 then do {
       body_length \<leftarrow> rd_be24 scratch 1;
       let needed = needed + body_length;
       if needed > kGenericSnifferMaxWindowBytes then Some (Inl TlsClientHelloMalformed)
       else do {
         let rest = min (record_len - n) (sub32 needed used);
         scratch \<leftarrow> memoryCopy scratch used payload (offset + 5 + n) rest;
         Some (Inr (scratch, used + rest, needed))
       }
     }
     else Some (Inr (scratch, used, needed))
   }"

text \<open>The verdict of a run: the result, the view, and whether the view's bytes are the scratch window's.\<close>

type_synonym hello_verdict = "tls_client_hello_result \<times> tls_client_hello_view \<times> byte list option"

definition badRecordHeader :: "byte list \<Rightarrow> nat \<Rightarrow> nat \<Rightarrow> bool option" where
  "badRecordHeader payload offset available = do {
     r0 \<leftarrow> rd8 payload offset;
     if r0 \<noteq> 22 then Some True
     else do {
       bad1 \<leftarrow> (if available \<ge> 2 then do { r1 \<leftarrow> rd8 payload (offset + 1); Some (r1 \<noteq> 3) } else Some False);
       if bad1 then Some True
       else if available \<ge> 3 then do { r2 \<leftarrow> rd8 payload (offset + 2); Some (r2 > 3) } else Some False
     }
   }"

function recordsLoop ::
  "byte list \<Rightarrow> nat \<Rightarrow> tls_client_hello_view \<Rightarrow> nat \<Rightarrow> nat \<Rightarrow> nat \<Rightarrow> byte list \<Rightarrow> hello_verdict option" where
  "recordsLoop payload payload_len hello offset used needed scratch =
     (if offset < payload_len then do {
        let available = payload_len - offset;
        bad \<leftarrow> badRecordHeader payload offset available;
        if bad then Some (TlsClientHelloMalformed, hello, None)
        else if available < 5 then Some (TlsClientHelloNeedMore, hello, None)
        else do {
          record_len \<leftarrow> rd_be16 payload (offset + 3);
          if record_len = 0 then Some (TlsClientHelloMalformed, hello, None)
          else if record_len > available - 5 then Some (TlsClientHelloNeedMore, hello, None)
          else do {
            c \<leftarrow> collectFragment payload offset record_len scratch used needed;
            case c of
              Inl result \<Rightarrow> Some (result, hello, None)
            | Inr (scratch, used, needed) \<Rightarrow>
                if used = needed then do {
                  (result, hello) \<leftarrow> tlsclienthelloParseHandshake (Some scratch) used;
                  Some (result, hello, Some scratch)
                }
                else recordsLoop payload payload_len hello (offset + 5 + record_len) used needed scratch
          }
        }
      }
      else Some (TlsClientHelloNeedMore, hello, None))"
  by pat_completeness auto
termination by (relation "measure (\<lambda>(_, n, _, i, _). n - i)") auto

declare recordsLoop.simps [simp del]

definition sniffTlsClientHelloRecords :: "byte list \<Rightarrow> nat \<Rightarrow> byte list \<Rightarrow> hello_verdict option" where
  "sniffTlsClientHelloRecords payload payload_len scratch = do {
     (result, hello) \<leftarrow> tlsclienthelloParseRecord (Some payload) payload_len;
     if result \<noteq> TlsClientHelloMalformed then Some (result, hello, None)
     else recordsLoop payload payload_len hello 0 0 4 scratch
   }"

definition genericsnifferSniffTlsClientHello :: "byte list \<Rightarrow> nat \<Rightarrow> byte list \<Rightarrow> generic_sniffer_result option" where
  "genericsnifferSniffTlsClientHello payload payload_len scratch = do {
     (result, _, _) \<leftarrow> sniffTlsClientHelloRecords payload payload_len scratch;
     if result = TlsClientHelloNeedMore
     then Some (if payload_len < kGenericSnifferMaxWindowBytes then GenericSnifferNeedMore else GenericSnifferMissing)
     else Some (if result = TlsClientHelloFound \<or> result = TlsClientHelloNoSni then GenericSnifferFound
                else GenericSnifferMissing)
   }"

text \<open>The host is the borrowed view: the memory it points into and its length.\<close>

definition genericsnifferSniffTlsClientHelloSni ::
  "byte list \<Rightarrow> nat \<Rightarrow> byte list \<Rightarrow> (generic_sniffer_result \<times> byte list \<times> nat) option" where
  "genericsnifferSniffTlsClientHelloSni payload payload_len scratch = do {
     (result, hello, window) \<leftarrow> sniffTlsClientHelloRecords payload payload_len scratch;
     let hello_bytes = (case window of None \<Rightarrow> payload | Some bytes \<Rightarrow> bytes);
     if result = TlsClientHelloNeedMore
     then Some (if payload_len < kGenericSnifferMaxWindowBytes then GenericSnifferNeedMore else GenericSnifferMissing, [], 0)
     else if result \<noteq> TlsClientHelloFound then Some (GenericSnifferMissing, [], 0)
     else do {
       let value = drop (sni_name_offset hello) hello_bytes;
       value_len \<leftarrow> genericsnifferStripHostPortAndDot value (sni_name_length hello);
       Some (if value_len = 0 then (GenericSnifferMissing, [], 0) else (GenericSnifferFound, value, value_len))
     }
   }"

section \<open>BitTorrent\<close>

definition bittorrent_prefix :: "byte list" where
  "bittorrent_prefix = 19 # ascii ''BitTorrent protocol''"

definition genericsnifferSniffBittorrentHandshake :: "byte list \<Rightarrow> nat \<Rightarrow> generic_sniffer_result option" where
  "genericsnifferSniffBittorrentHandshake payload payload_len =
     (if payload_len = 0 then Some GenericSnifferNeedMore
      else do {
        let compare_len = (if payload_len < length bittorrent_prefix then payload_len else length bittorrent_prefix);
        bytes \<leftarrow> mem_read payload 0 compare_len;
        if bytes \<noteq> take compare_len bittorrent_prefix then Some GenericSnifferMissing
        else Some (if payload_len < length bittorrent_prefix then GenericSnifferNeedMore else GenericSnifferFound)
      })"

end
