(* ===== verification/Sniffer_Laws.thy ===== *)
theory Sniffer_Laws
  imports Generic_Sniffer
begin

text \<open>
  Properties of protocol sniffing: no sniffer reads outside its payload or writes outside its
  scratch window, and host names are stripped to the expected shape.
\<close>

declare rd8_Some [simp] rd_be16_Some [simp]

section \<open>Host names\<close>

lemma scan_up_cong:
  assumes "\<And>j. i \<le> j \<Longrightarrow> j < limit \<Longrightarrow> f j = g j"
  shows "scan_up f i limit = scan_up g i limit"
  using assms
proof (induction f i limit rule: scan_up.induct)
  case (1 f i limit)
  show ?case
  proof (cases "i < limit \<and> f i = Some False")
    case True
    then have "scan_up f (i + 1) limit = scan_up g (i + 1) limit" using "1.prems" by (intro "1.IH") auto
    moreover have "g i = Some False" using "1.prems" [of i] True by simp
    ultimately show ?thesis using True by (subst (1 2) scan_up.simps) simp
  next
    case False
    then have "i < limit \<Longrightarrow> g i = f i \<and> (f i = None \<or> f i = Some True)" using "1.prems" [of i] by (cases "f i") auto
    then show ?thesis by (subst (1 2) scan_up.simps) auto
  qed
qed

lemma scan_down_cong:
  assumes "\<And>j. j < n \<Longrightarrow> f j = g j"
  shows "scan_down f bottom n = scan_down g bottom n"
  using assms
proof (induction f bottom n rule: scan_down.induct)
  case (1 f bottom n)
  show ?case
  proof (cases "n > bottom \<and> f (n - 1) = Some True")
    case True
    then have "scan_down f bottom (n - 1) = scan_down g bottom (n - 1)" using "1.prems" by (intro "1.IH") auto
    moreover have "g (n - 1) = Some True" using "1.prems" [of "n - 1"] True by simp
    ultimately show ?thesis using True by (subst (1 2) scan_down.simps) simp
  next
    case False
    then have "n > bottom \<Longrightarrow> g (n - 1) = f (n - 1) \<and> (f (n - 1) = None \<or> f (n - 1) = Some False)"
      using "1.prems" [of "n - 1"] by (cases "f (n - 1)") auto
    then show ?thesis by (subst (1 2) scan_down.simps) auto
  qed
qed

lemma colonLoop_ok:
  assumes "len \<le> length h" "len \<le> UINT32_MAX" "c \<ge> 0 \<longrightarrow> nat c < len \<and> h ! nat c = 58"
  shows "\<exists>c' m. colonLoop h len i c = Some (c', m) \<and> (c' \<ge> 0 \<longrightarrow> nat c' < len \<and> h ! nat c' = 58)"
  using assms
proof (induction h len i c rule: colonLoop.induct)
  case (1 h len i c)
  have n: "int32_of i \<ge> 0 \<Longrightarrow> nat (int32_of i) = i" if "i < len" using that "1.prems"(2) by (simp add: int32_of_def split: if_splits)
  show ?case
  proof (cases "i < len")
    case True
    then have r: "rd8 h i = Some (h ! i)" using "1.prems" by simp
    show ?thesis
    proof (cases "h ! i = 58")
      case colon: True
      show ?thesis
      proof (cases "c \<ge> 0")
        case True
        then show ?thesis using \<open>i < len\<close> r colon "1.prems" by (subst colonLoop.simps) auto
      next
        case False
        then have "\<exists>c' m. colonLoop h len (i + 1) (int32_of i) = Some (c', m) \<and> (c' \<ge> 0 \<longrightarrow> nat c' < len \<and> h ! nat c' = 58)"
          using True r colon "1.prems" n by (intro "1.IH"(1)) auto
        then show ?thesis using True r colon False by (subst colonLoop.simps) simp
      qed
    next
      case False
      then have "\<exists>c' m. colonLoop h len (i + 1) c = Some (c', m) \<and> (c' \<ge> 0 \<longrightarrow> nat c' < len \<and> h ! nat c' = 58)"
        using True r "1.prems" by (intro "1.IH"(2)) auto
      then show ?thesis using True r False by (subst colonLoop.simps) simp
    qed
  next
    case False
    then show ?thesis using "1.prems" by (subst colonLoop.simps) auto
  qed
qed

lemma colonLoop_local: "len \<le> length h \<Longrightarrow> colonLoop (h @ s) len i c = colonLoop h len i c"
proof (induction h len i c rule: colonLoop.induct)
  case (1 h len i c)
  show ?case
  proof (cases "i < len")
    case True
    then have r: "rd8 h i = Some (h ! i)" "rd8 (h @ s) i = Some (h ! i)" using "1.prems" by (simp_all add: nth_append)
    show ?thesis using "1.IH" [OF True r(1)] "1.prems" True r
      by (subst (1 2) colonLoop.simps) simp
  next
    case False
    then show ?thesis by (subst (1 2) colonLoop.simps) simp
  qed
qed

text \<open>What is stripped: blanks at the end, before them a numeric port, before it dots.\<close>

definition is_blank :: "byte \<Rightarrow> bool" where "is_blank b \<longleftrightarrow> b = 32 \<or> b = 9 \<or> b = 13"
definition is_digit :: "byte \<Rightarrow> bool" where "is_digit b \<longleftrightarrow> 48 \<le> b \<and> b \<le> 57"

lemma not_digit: "(b < 48 \<or> 57 < b) \<longleftrightarrow> \<not> is_digit b"
  by (auto simp: is_digit_def not_le)

definition stripped_to :: "byte list \<Rightarrow> nat \<Rightarrow> nat \<Rightarrow> bool" where
  "stripped_to host len r \<longleftrightarrow>
     (\<exists>d e. r \<le> d \<and> d \<le> e \<and> e \<le> len \<and>
        (\<forall>j. e \<le> j \<and> j < len \<longrightarrow> is_blank (host ! j)) \<and> (0 < e \<longrightarrow> \<not> is_blank (host ! (e - 1))) \<and>
        (d = e \<or> 0 < d \<and> d + 1 < e \<and> host ! d = 58 \<and> (\<forall>j. d < j \<and> j < e \<longrightarrow> is_digit (host ! j))) \<and>
        (\<forall>j. r \<le> j \<and> j < d \<longrightarrow> host ! j = 46) \<and>
        (if 0 < e \<and> host ! 0 = 91 then r = e else 0 < r \<longrightarrow> host ! (r - 1) \<noteq> 46))"

lemma strip_ok:
  assumes "len \<le> length h" "len \<le> UINT32_MAX"
  shows "\<exists>r. genericsnifferStripHostPortAndDot h len = Some r \<and> stripped_to h len r"
proof -
  obtain e where e: "scan_down (\<lambda>i. do { b \<leftarrow> rd8 h i; Some (b = 32 \<or> b = 9 \<or> b = 13) }) 0 len = Some e" "e \<le> len"
    "\<forall>j. e \<le> j \<and> j < len \<longrightarrow> is_blank (h ! j)" "0 < e \<longrightarrow> \<not> is_blank (h ! (e - 1))"
    using scan_down_total [of len "\<lambda>i. do { b \<leftarrow> rd8 h i; Some (b = 32 \<or> b = 9 \<or> b = 13) }" "\<lambda>j. is_blank (h ! j)" 0] assms
    by (auto simp: is_blank_def)
  have b0: "(if e > 0 then do { b \<leftarrow> rd8 h 0; Some (b = 91) } else Some False) = Some (0 < e \<and> h ! 0 = 91)"
    using e(2) assms by (auto simp: rd8_def)
  show ?thesis
  proof (cases "0 < e \<and> h ! 0 = 91")
    case True
    then have "genericsnifferStripHostPortAndDot h len = Some e"
      unfolding genericsnifferStripHostPortAndDot_def e(1) Option.bind.bind_lunit b0 by simp
    moreover have "stripped_to h len e"
      unfolding stripped_to_def using e(2-4) True by (intro exI [of _ e]) auto
    ultimately show ?thesis by blast
  next
    case False
    obtain c m where c: "colonLoop h e 0 (-1) = Some (c, m)" "c \<ge> 0 \<longrightarrow> nat c < e \<and> h ! nat c = 58"
      using colonLoop_ok [of e h "-1" 0] e(2) assms by auto
    define cond where "cond \<longleftrightarrow> c > 0 \<and> \<not> m \<and> nat c + 1 < e"
    obtain d where d: "(if cond then do {
            i \<leftarrow> scan_up (\<lambda>i. do { b \<leftarrow> rd8 h i; Some (b < 48 \<or> b > 57) }) (nat c + 1) e;
            Some (if i < e then e else nat c) } else Some e) = Some d" "d \<le> e"
      "d = e \<or> 0 < d \<and> d + 1 < e \<and> h ! d = 58 \<and> (\<forall>j. d < j \<and> j < e \<longrightarrow> is_digit (h ! j))"
    proof (cases cond)
      case True
      obtain i where i: "scan_up (\<lambda>i. do { b \<leftarrow> rd8 h i; Some (b < 48 \<or> b > 57) }) (nat c + 1) e = Some i" "i \<le> e"
        "\<forall>j. nat c + 1 \<le> j \<and> j < i \<longrightarrow> is_digit (h ! j)"
        using scan_up_total [of "nat c + 1" e "\<lambda>i. do { b \<leftarrow> rd8 h i; Some (b < 48 \<or> b > 57) }" "\<lambda>j. \<not> is_digit (h ! j)"]
          True e(2) assms by (auto simp: cond_def not_digit)
      show ?thesis
        using that [of "if i < e then e else nat c"] i c(2) True by (auto simp: cond_def)
    qed (use that [of e] in simp)
    obtain r where r: "scan_down (\<lambda>i. do { b \<leftarrow> rd8 h i; Some (b = 46) }) 0 d = Some r" "r \<le> d"
      "\<forall>j. r \<le> j \<and> j < d \<longrightarrow> h ! j = 46" "0 < r \<longrightarrow> h ! (r - 1) \<noteq> 46"
      using scan_down_total [of d "\<lambda>i. do { b \<leftarrow> rd8 h i; Some (b = 46) }" "\<lambda>j. h ! j = 46" 0] d(2) e(2) assms by auto
    have "genericsnifferStripHostPortAndDot h len = Some r"
      unfolding genericsnifferStripHostPortAndDot_def e(1) Option.bind.bind_lunit b0 if_not_P [OF False] c(1)
        prod.case cond_def [symmetric] d(1) by (rule r(1))
    moreover have "stripped_to h len r"
      unfolding stripped_to_def using e(2-4) d(2,3) r(2-4) False by (intro exI [of _ d] exI [of _ e]) auto
    ultimately show ?thesis by blast
  qed
qed

lemma rd8_local: "i < length h \<Longrightarrow> rd8 (h @ s) i = rd8 h i"
  by (simp add: rd8_def nth_append)

lemma strip_local:
  assumes "len \<le> length h" "len \<le> UINT32_MAX"
  shows "genericsnifferStripHostPortAndDot (h @ s) len = genericsnifferStripHostPortAndDot h len"
proof -
  let ?d = "\<lambda>P h n. scan_down (\<lambda>i. do { b \<leftarrow> rd8 h i; Some (P b) }) 0 n"
  let ?u = "\<lambda>P h i n. scan_up (\<lambda>i. do { b \<leftarrow> rd8 h i; Some (P b) }) i n"
  have d: "?d P (h @ s) n = ?d P h n" if "n \<le> length h" for P n
    using that by (intro scan_down_cong) (simp add: nth_append)
  have u: "?u P (h @ s) i n = ?u P h i n" if "n \<le> length h" for P i n
    using that by (intro scan_up_cong) (simp add: nth_append)
  obtain e where e: "?d (\<lambda>b. b = 32 \<or> b = 9 \<or> b = 13) h len = Some e" "e \<le> len"
    using scan_down_total [of len "\<lambda>i. do { b \<leftarrow> rd8 h i; Some (b = 32 \<or> b = 9 \<or> b = 13) }" "\<lambda>j. is_blank (h ! j)" 0] assms
    by (auto simp: is_blank_def)
  have b0: "(if e > 0 then do { b \<leftarrow> rd8 (h @ s) 0; Some (b = 91) } else Some False) =
      (if e > 0 then do { b \<leftarrow> rd8 h 0; Some (b = 91) } else Some False)"
    using e(2) assms by (cases h) (simp_all add: rd8_def)
  obtain c m where c: "colonLoop h e 0 (-1) = Some (c, m)" "c \<ge> 0 \<longrightarrow> nat c < e"
    using colonLoop_ok [of e h "-1" 0] e(2) assms by auto
  have eh: "e \<le> length h" "c \<ge> 0 \<Longrightarrow> nat c \<le> length h" using e(2) c(2) assms by auto
  show ?thesis
    unfolding genericsnifferStripHostPortAndDot_def d [OF assms(1)] e(1) Option.bind.bind_lunit b0
      colonLoop_local [OF eh(1)] u [OF eh(1)] c(1) prod.case
    by (intro Option.bind_cong refl if_cong) (auto simp: guard_simps split: if_splits intro!: d eh)
qed

lemma strip_le:
  assumes "genericsnifferStripHostPortAndDot h len = Some r" "len \<le> length h" "len \<le> UINT32_MAX"
  shows "r \<le> len"
  using strip_ok [OF assms(2,3)] assms(1) by (auto simp: stripped_to_def)

section \<open>No sniffer leaves its memory\<close>

lemma mem_read_ok: "off + n \<le> length m \<Longrightarrow> mem_read m off n = Some (take n (drop off m))"
  by (simp add: mem_read_def)

lemma methodsLoop_total: "n \<le> length p \<Longrightarrow> \<exists>r. methodsLoop p n ms a = Some r"
  by (induction ms arbitrary: a) (auto simp: mem_read_ok Let_def)

lemma classify_total: "n \<le> length p \<Longrightarrow> \<exists>k. classifyHttpMethodEx p n f = Some k"
proof -
  assume n: "n \<le> length p"
  from methodsLoop_total [OF n, of http1_methods False] obtain x y where 1: "methodsLoop p n http1_methods False = Some (x, y)" by auto
  from methodsLoop_total [OF n, of "[ascii ''PRI '']" y] obtain u v where 2: "methodsLoop p n [ascii ''PRI ''] y = Some (u, v)" by auto
  show ?thesis unfolding classifyHttpMethodEx_def 1 using 2 by simp
qed

lemma findLineFeed_total:
  assumes "finish \<le> length p" "start \<le> finish"
  obtains (hit) i where "findLineFeed p start finish = Some (Some i)" "start \<le> i" "i < finish"
  | (none) "findLineFeed p start finish = Some None"
proof -
  obtain r where r: "scan_up (\<lambda>i. do { b \<leftarrow> rd8 p i; Some (b = 10) }) start finish = Some r" "start \<le> r"
    using scan_up_total [of start finish "\<lambda>i. do { b \<leftarrow> rd8 p i; Some (b = 10) }" "\<lambda>j. p ! j = 10"] assms by auto
  show thesis using r hit [of r] none by (cases "r < finish") (simp_all add: findLineFeed_def)
qed

lemma rd_equal_ok: "i + length xs \<le> length p \<Longrightarrow> rd_equal p i xs = Some (take (length xs) (drop i p) = xs)"
  by (simp add: rd_equal_def mem_read_ok)

lemma findHeaderEnd_total:
  assumes "n \<le> length p"
  obtains (hit) e where "findHeaderEnd p n = Some (Some e)" "e < n" | (none) "findHeaderEnd p n = Some None"
proof -
  obtain a where a: "scan_up (\<lambda>i. rd_equal p i [13, 10, 13, 10]) 0 (n - 3) = Some a"
    using scan_up_total [of 0 "n - 3" "\<lambda>i. rd_equal p i [13, 10, 13, 10]" "\<lambda>i. take 4 (drop i p) = [13, 10, 13, 10]"] assms
    by (auto simp: rd_equal_ok numeral_eq_Suc)
  obtain b where b: "scan_up (\<lambda>i. rd_equal p i [10, 10]) 0 (n - 1) = Some b"
    using scan_up_total [of 0 "n - 1" "\<lambda>i. rd_equal p i [10, 10]" "\<lambda>i. take 2 (drop i p) = [10, 10]"] assms
    by (auto simp: rd_equal_ok numeral_eq_Suc)
  show thesis using a b hit [of a] hit [of b] none
    by (cases "a < n - 3"; cases "b < n - 1") (simp_all add: findHeaderEnd_def)
qed

lemma headerNameEquals_total: "at + n \<le> length p \<Longrightarrow> \<exists>b. headerNameEquals p at n name = Some b"
  by (induction p at n name rule: headerNameEquals.induct) auto

lemma headerLine_total:
  assumes "line_end \<le> length p" "line_start \<le> line_end"
  shows "\<exists>r. headerLine p line_start line_end name = Some r \<and> (\<forall>v l. r = Some (v, l) \<longrightarrow> v + l \<le> line_end)"
proof -
  obtain cr where cr: "(if line_end > line_start then do { b \<leftarrow> rd8 p (line_end - 1); Some (b = 13) } else Some False) = Some cr"
    "cr \<longrightarrow> line_start < line_end"
    using assms by (cases "line_start < line_end") auto
  define c where "c = (if cr then line_end - 1 else line_end)"
  have c: "line_start \<le> c" "c \<le> line_end" using cr(2) assms(2) by (auto simp: c_def)
  obtain k where k: "scan_up (\<lambda>i. do { b \<leftarrow> rd8 p i; Some (b = 58) }) line_start c = Some k" "line_start \<le> k" "k \<le> c"
    using scan_up_total [of line_start c "\<lambda>i. do { b \<leftarrow> rd8 p i; Some (b = 58) }" "\<lambda>j. p ! j = 58"] c assms by auto
  obtain e where e: "scan_down (\<lambda>i. do { b \<leftarrow> rd8 p i; Some (b = 32 \<or> b = 9) }) line_start k = Some e" "line_start \<le> e" "e \<le> k"
    using scan_down_total [of k "\<lambda>i. do { b \<leftarrow> rd8 p i; Some (b = 32 \<or> b = 9) }" "\<lambda>j. p ! j = 32 \<or> p ! j = 9" line_start] k c assms
    by auto
  obtain hit where hit: "headerNameEquals p line_start (e - line_start) name = Some hit"
    using headerNameEquals_total [of line_start "e - line_start" p name] e k c assms by auto
  obtain v where v: "scan_up (\<lambda>i. do { b \<leftarrow> rd8 p i; Some (\<not> (b = 32 \<or> b = 9)) }) (k + 1) c = Some v" "k + 1 \<le> c \<longrightarrow> v \<le> c"
    using scan_up_total [of "k + 1" c "\<lambda>i. do { b \<leftarrow> rd8 p i; Some (\<not> (b = 32 \<or> b = 9)) }" "\<lambda>j. \<not> (p ! j = 32 \<or> p ! j = 9)"] c assms
    by auto
  show ?thesis
    unfolding headerLine_def cr(1) Option.bind.bind_lunit Let_def c_def [symmetric] k(1) e(1) hit v(1)
    using v(2) c by auto
qed

lemma headerLinesLoop_total:
  assumes "header_end \<le> length p"
  shows "\<exists>r. headerLinesLoop p header_end name i = Some r \<and> (\<forall>v l. r = Some (v, l) \<longrightarrow> v + l \<le> length p)"
  using assms
proof (induction p header_end name i rule: headerLinesLoop.induct)
  case (1 p header_end name i)
  show ?case
  proof (cases "i < header_end")
    case True
    obtain lf where lf: "findLineFeed p i header_end = Some lf" "\<forall>x. lf = Some x \<longrightarrow> i \<le> x \<and> x < header_end"
      using findLineFeed_total [of header_end p i] "1.prems" True by (metis less_imp_le option.distinct(1) option.inject)
    define l where "l = (case lf of None \<Rightarrow> header_end | Some i \<Rightarrow> i)"
    have l: "i \<le> l" "l \<le> header_end" using lf(2) True by (auto simp: l_def split: option.splits)
    obtain r where r: "headerLine p i l name = Some r" "\<forall>v k. r = Some (v, k) \<longrightarrow> v + k \<le> l"
      using headerLine_total [of l p i name] l "1.prems" by auto
    show ?thesis
    proof (cases r)
      case None
      from "1.IH" [OF True lf(1) l_def r(1) None "1.prems"]
      show ?thesis using True lf(1) r(1) None by (subst headerLinesLoop.simps) (simp add: l_def [symmetric])
    next
      case (Some v)
      then show ?thesis using True lf(1) r l "1.prems"
        by (subst headerLinesLoop.simps) (auto simp: l_def [symmetric])
    qed
  next
    case False
    then show ?thesis by (subst headerLinesLoop.simps) simp
  qed
qed

lemma findHttpHeader_total:
  assumes "n \<le> length p"
  shows "\<exists>r v l. findHttpHeader p n name = Some (r, v, l) \<and> v + l \<le> length p"
  using assms
proof (cases rule: findHeaderEnd_total)
  case (hit e)
  then have e: "e \<le> length p" using assms by simp
  obtain x where x: "headerLinesLoop p e name i = Some (x i)" "\<forall>v l. x i = Some (v, l) \<longrightarrow> v + l \<le> length p" for i
    using headerLinesLoop_total [OF e, of name] by metis
  from e le0 show ?thesis
  proof (cases rule: findLineFeed_total)
    case (hit i)
    then show ?thesis using x [of "i + 1"] \<open>findHeaderEnd p n = Some (Some e)\<close>
      by (cases "x (i + 1)") (auto simp: findHttpHeader_def)
  qed (simp add: findHttpHeader_def hit(1))
qed (simp add: findHttpHeader_def)

lemma http1_host_total:
  assumes "n \<le> length p" "n \<le> UINT32_MAX" "length p \<le> UINT32_MAX"
  shows "\<exists>r. genericsnifferSniffHttp1Host p n = Some r"
proof -
  obtain k where k: "classifyHttpMethod p n = Some k" using classify_total [OF assms(1)] by (auto simp: classifyHttpMethod_def)
  obtain r v l where f: "findHttpHeader p n (ascii ''host'') = Some (r, v, l)" "v + l \<le> length p"
    using findHttpHeader_total [OF assms(1)] by blast
  have l: "l \<le> length (drop v p)" "l \<le> UINT32_MAX" using f(2) assms(3) by simp_all
  obtain m where "genericsnifferStripHostPortAndDot (drop v p) l = Some m" using strip_ok [OF l] by auto
  then show ?thesis unfolding genericsnifferSniffHttp1Host_def k findHttpHost_def f(1) by auto
qed

text \<open>The scratch window: what is collected never exceeds what is needed, which fits the window.\<close>

lemma memoryCopy_ok:
  assumes "from + n \<le> length src" "at + n \<le> length dst"
  shows "memoryCopy dst at src from n = Some (take at dst @ take n (drop from src) @ drop (at + n) dst)"
  using assms by (simp add: memoryCopy_def mem_read_ok mem_write_Some)

lemma collectFragment_total:
  assumes "offset + 5 + record_len \<le> length payload" "length scratch = 8192" "used < needed" "needed \<le> 8192"
  shows "(\<exists>r. collectFragment payload offset record_len scratch used needed = Some (Inl r)) \<or>
    (\<exists>s u d. collectFragment payload offset record_len scratch used needed = Some (Inr (s, u, d)) \<and>
       length s = 8192 \<and> u \<le> d \<and> d \<le> 8192)"
proof -
  let ?n = "min record_len (sub32 needed used)"
  have sub: "sub32 needed used = needed - used" using assms by (intro sub32_id) auto
  have "memoryCopy scratch used payload (offset + 5) ?n =
      Some (take used scratch @ take ?n (drop (offset + 5) payload) @ drop (used + ?n) scratch)"
    using assms by (intro memoryCopy_ok) (auto simp: sub)
  then obtain s where s: "memoryCopy scratch used payload (offset + 5) ?n = Some s" "length s = 8192"
    using assms by (auto simp: sub)
  show ?thesis
  proof (cases "s ! 0 = 1 \<and> used + ?n = 4 \<and> needed = 4")
    case True
    obtain b where b: "rd_be24 s 1 = Some b" using s(2) by (simp add: rd_be24_def)
    show ?thesis
    proof (cases "4 + b > 8192")
      case big: True
      then show ?thesis using s b True
        by (auto simp: collectFragment_def Let_def kGenericSnifferMaxWindowBytes_def)
    next
      case False
      let ?r = "min (record_len - ?n) (sub32 (4 + b) 4)"
      have r: "?r \<le> b" using False by simp
      have "memoryCopy s 4 payload (offset + 5 + ?n) ?r =
          Some (take 4 s @ take ?r (drop (offset + 5 + ?n) payload) @ drop (4 + ?r) s)"
        using assms False r s(2) by (intro memoryCopy_ok) auto
      then obtain t where "memoryCopy s 4 payload (offset + 5 + ?n) ?r = Some t" "length t = 8192"
        using assms s(2) r False by auto
      then show ?thesis using s b True False r
        by (auto simp: collectFragment_def Let_def kGenericSnifferMaxWindowBytes_def)
    qed
  next
    case False
    then show ?thesis using s assms sub by (auto simp: collectFragment_def Let_def)
  qed
qed

lemma badRecordHeader_total:
  assumes "offset < length payload" "available = length payload - offset"
  shows "badRecordHeader payload offset available =
    Some (payload ! offset \<noteq> 22 \<or> 2 \<le> available \<and> payload ! (offset + 1) \<noteq> 3 \<or>
      3 \<le> available \<and> payload ! (offset + 2) > 3)"
  using assms by (auto simp: badRecordHeader_def)

definition verdict_ok :: "byte list \<Rightarrow> hello_verdict \<Rightarrow> bool" where
  "verdict_ok payload v \<longleftrightarrow>
     (let bytes = (case snd (snd v) of None \<Rightarrow> payload | Some s \<Rightarrow> s)
      in fst v = TlsClientHelloFound \<longrightarrow>
           sni_name_offset (fst (snd v)) + sni_name_length (fst (snd v)) \<le> length bytes \<and>
           sni_name_length (fst (snd v)) \<le> UINT16_MAX)"

lemma sni_at_inside:
  assumes "sni_at body o' n v"
  shows "sni_name_offset v + sni_name_length v \<le> o' + n" "sni_name_length v \<le> UINT16_MAX"
  using assms rd_be16_le by (auto simp: sni_at_def)

lemma parseHandshake_verdict:
  assumes "used \<le> length s"
  shows "\<exists>r v. tlsclienthelloParseHandshake (Some s) used = Some (r, v) \<and> verdict_ok payload (r, v, Some s)"
proof -
  obtain r v where v: "tlsclienthelloParseHandshakeAt s used 0 tlsclienthelloInitializeView = Some (r, v)"
    "r = TlsClientHelloFound \<longrightarrow> (\<exists>n. 4 + n \<le> used \<and> sni_at (drop 4 s) (0 + 4) n v)"
    using parseHandshakeAt_ok [OF assms, of 0 tlsclienthelloInitializeView] by auto
  have "verdict_ok payload (r, v, Some s)"
    using v(2) assms by (fastforce simp: verdict_ok_def Let_def dest: sni_at_inside)
  then show ?thesis using v(1) by (simp add: tlsclienthelloParseHandshake_def)
qed

lemma recordsLoop_total:
  assumes "n = length payload" "length scratch = 8192" "used < needed" "needed \<le> 8192"
  shows "\<exists>v. recordsLoop payload n hello offset used needed scratch = Some v \<and> verdict_ok payload v"
  using assms
proof (induction payload n hello offset used needed scratch rule: recordsLoop.induct)
  case (1 payload n hello offset used needed scratch)
  have quiet: "verdict_ok payload (TlsClientHelloMalformed, hello, None)" "verdict_ok payload (TlsClientHelloNeedMore, hello, None)"
    by (simp_all add: verdict_ok_def)
  show ?case
  proof (cases "offset < n")
    case at: True
    let ?a = "n - offset"
    obtain bad where bad: "badRecordHeader payload offset ?a = Some bad" using badRecordHeader_total at "1.prems"(1) by auto
    show ?thesis
    proof (cases "bad \<or> ?a < 5")
      case True
      then show ?thesis using at bad quiet by (subst recordsLoop.simps) (cases bad, simp_all add: Let_def)
    next
      case False
      obtain k where k: "rd_be16 payload (offset + 3) = Some k" using False at "1.prems"(1) by auto
      show ?thesis
      proof (cases "k = 0 \<or> k > ?a - 5")
        case True
        then show ?thesis using at bad False k quiet by (subst recordsLoop.simps) auto
      next
        case fits: False
        have head: "recordsLoop payload n hello offset used needed scratch = do {
            c \<leftarrow> collectFragment payload offset k scratch used needed;
            case c of
              Inl result \<Rightarrow> Some (result, hello, None)
            | Inr (scratch, used, needed) \<Rightarrow>
                if used = needed then do {
                  (result, hello) \<leftarrow> tlsclienthelloParseHandshake (Some scratch) used;
                  Some (result, hello, Some scratch)
                }
                else recordsLoop payload n hello (offset + 5 + k) used needed scratch }"
          using at bad False k fits by (subst recordsLoop.simps) simp
        have "offset + 5 + k \<le> length payload" using fits at False "1.prems"(1) by auto
        from collectFragment_total [OF this "1.prems"(2-4)] show ?thesis
        proof (elim disjE exE conjE)
          fix r assume r: "collectFragment payload offset k scratch used needed = Some (Inl r)"
          then have "r \<noteq> TlsClientHelloFound"
            by (auto simp: collectFragment_def guard_simps Let_def split: if_splits)
          then show ?thesis using head r by (simp add: verdict_ok_def)
        next
          fix s u d assume c: "collectFragment payload offset k scratch used needed = Some (Inr (s, u, d))"
            "length s = 8192" "u \<le> d" "d \<le> 8192"
          show ?thesis
          proof (cases "u = d")
            case True
            then show ?thesis using head c parseHandshake_verdict [of u s payload] by auto
          next
            case ne: False
            have "\<exists>v. recordsLoop payload n hello (offset + 5 + k) u d s = Some v \<and> verdict_ok payload v"
              using at bad False k fits c ne "1.prems"(1) by (intro "1.IH") auto
            then show ?thesis using head c ne by simp
          qed
        qed
      qed
    qed
  next
    case False
    then show ?thesis using quiet by (subst recordsLoop.simps) simp
  qed
qed

lemma sniffRecords_total:
  assumes "length scratch = 8192"
  shows "\<exists>v. sniffTlsClientHelloRecords payload (length payload) scratch = Some v \<and> verdict_ok payload v"
proof -
  obtain r v where v: "tlsclienthelloParseRecord (Some payload) (length payload) = Some (r, v)"
    "r = TlsClientHelloFound \<longrightarrow> record_total_length v \<le> length payload \<and>
       (\<exists>n. 9 + n \<le> record_total_length v \<and> sni_at (drop 9 payload) 9 n v)"
    using parseRecord_ok [OF order.refl, of payload] by blast
  have "verdict_ok payload (r, v, None)"
    using v(2) by (fastforce simp: verdict_ok_def Let_def dest: sni_at_inside)
  then show ?thesis using v(1) recordsLoop_total [OF refl assms, of 0 4 payload v 0]
    by (auto simp: sniffTlsClientHelloRecords_def)
qed

lemma sniff_sni_total:
  assumes "length scratch = 8192"
  shows "\<exists>r. genericsnifferSniffTlsClientHelloSni payload (length payload) scratch = Some r"
proof -
  obtain r v w where v: "sniffTlsClientHelloRecords payload (length payload) scratch = Some (r, v, w)"
    "verdict_ok payload (r, v, w)" using sniffRecords_total [OF assms] by (metis prod.exhaust)
  let ?b = "drop (sni_name_offset v) (case w of None \<Rightarrow> payload | Some s \<Rightarrow> s)"
  have "\<exists>k. genericsnifferStripHostPortAndDot ?b (sni_name_length v) = Some k" if "r = TlsClientHelloFound"
  proof -
    have "sni_name_length v \<le> length ?b" "sni_name_length v \<le> UINT32_MAX"
      using v(2) that by (auto simp: verdict_ok_def Let_def)
    from strip_ok [OF this] show ?thesis by blast
  qed
  then show ?thesis by (auto simp: genericsnifferSniffTlsClientHelloSni_def v(1) Let_def)
qed

section \<open>Properties\<close>

text \<open>Host stripping has exactly the documented shape: what is cut off is blanks at the end,
  before them at most one numeric port, before it dots; what is left ends in none of them, and a
  bracketed address keeps its port. It never fails.\<close>

lemma strip_shape:
  assumes "host_len \<le> length host" "host_len \<le> UINT32_MAX"
  shows "\<exists>r. genericsnifferStripHostPortAndDot host host_len = Some r \<and> stripped_to host host_len r"
  by (rule strip_ok [OF assms])

text \<open>C24. Every sniffer answers on every payload without leaving the payload or the scratch window.\<close>

theorem sniffers_memory_safe:
  assumes "length payload \<le> UINT32_MAX" "length scratch = kGenericSnifferMaxWindowBytes"
  shows "genericsnifferSniffHttp1Host payload (length payload) \<noteq> None \<and>
    genericsnifferSniffHttp1Request payload (length payload) \<noteq> None \<and>
    genericsnifferSniffHttp1UpgradeHeader payload (length payload) \<noteq> None \<and>
    genericsnifferSniffTlsClientHello payload (length payload) scratch \<noteq> None \<and>
    genericsnifferSniffTlsClientHelloSni payload (length payload) scratch \<noteq> None \<and>
    genericsnifferSniffBittorrentHandshake payload (length payload) \<noteq> None"
proof -
  let ?n = "length payload"
  have s: "length scratch = 8192" using assms(2) by (simp add: kGenericSnifferMaxWindowBytes_def)
  obtain k where k: "classifyHttpMethodEx payload ?n f = Some (k f)" for f
    using classify_total [OF order.refl, of payload] by metis
  obtain r v where h: "findHttpHeader payload ?n (ascii ''upgrade'') = Some (r, v)"
    using findHttpHeader_total [OF order.refl, of payload] by blast
  obtain a b c where t: "sniffTlsClientHelloRecords payload ?n scratch = Some (a, b, c)"
    using sniffRecords_total [OF s, of payload] by (metis prod.exhaust)
  show ?thesis
    using http1_host_total [OF order.refl assms(1,1)] sniff_sni_total [OF s, of payload]
    by (auto simp: genericsnifferSniffHttp1Request_def genericsnifferSniffHttp1UpgradeHeader_def
        classifyHttpMethod_def classifyHttp1Method_def k h genericsnifferSniffTlsClientHello_def t
        genericsnifferSniffBittorrentHandshake_def Let_def mem_read_ok)
qed

theorem sniffers_memory_safe_witness:
  "genericsnifferSniffTlsClientHelloSni [22, 3, 1, 0, 1, 1] (length [22 :: byte, 3, 1, 0, 1, 1]) (replicate 8192 0) \<noteq> None"
  using sniffers_memory_safe [of "[22, 3, 1, 0, 1, 1]" "replicate 8192 0"]
  by (simp add: kGenericSnifferMaxWindowBytes_def)

end
