(* ===== verification/Sniffer_Fragments.thy ===== *)
theory Sniffer_Fragments
  imports Sniffer_Laws
begin

text \<open>
  A ClientHello is found however it is split into TLS records: the scratch window of the sniffer
  holds exactly the handshake message, and the server name is the one the message encodes.
\<close>

section \<open>A ClientHello split into records\<close>

definition hs_message :: "byte list \<Rightarrow> byte list" where
  "hs_message body = 1 # be_bytes24 (length body) @ body"

definition tls_record :: "byte list \<Rightarrow> byte list" where
  "tls_record f = [22, 3, 1] @ be_bytes16 (length f) @ f"

definition tls_records :: "byte list list \<Rightarrow> byte list" where
  "tls_records fs = concat (map tls_record fs)"

lemma length_hs_message [simp]: "length (hs_message body) = 4 + length body"
  by (simp add: hs_message_def be_bytes24_def)

lemma length_tls_record [simp]: "length (tls_record f) = 5 + length f"
  by (simp add: tls_record_def)

lemma enc_record_alt: "enc_record body = tls_record (hs_message body)"
  unfolding tls_record_def length_hs_message by (simp add: enc_record_def hs_message_def)

lemma rd_be24_message:
  assumes "length body < 16777216"
  shows "rd_be24 (hs_message body) 1 = Some (length body)"
proof -
  let ?n = "length body"
  have "?n div 65536 = ?n div 256 div 256" by (simp add: div_mult2_eq [symmetric])
  moreover have "?n div 256 div 256 * 256 + ?n div 256 mod 256 = ?n div 256" "?n div 256 * 256 + ?n mod 256 = ?n"
    by (rule div_mult_mod_eq)+
  ultimately have "?n div 65536 * 65536 + ?n div 256 mod 256 * 256 + ?n mod 256 = ?n" by linarith
  then show ?thesis using assms by (simp add: hs_message_def be_bytes24_def rd_be24_def unat_word8_of_nat)
qed

lemma rd_be24_take: "take 4 s = take 4 m \<Longrightarrow> 4 \<le> length s \<Longrightarrow> 4 \<le> length m \<Longrightarrow> rd_be24 s 1 = rd_be24 m 1"
proof -
  assume t: "take 4 s = take 4 m" and l: "4 \<le> length s" "4 \<le> length m"
  have "s ! i = m ! i" if "i < 4" for i using t that by (metis nth_take)
  then show ?thesis using l by (simp add: rd_be24_def)
qed

lemma copy_step:
  assumes "take u s = take u m" "u + n \<le> length m" "length m \<le> length s" "take n (drop from src) = take n (drop u m)"
    "from + n \<le> length src"
  shows "\<exists>t. memoryCopy s u src from n = Some t \<and> length t = length s \<and> take (u + n) t = take (u + n) m"
proof -
  let ?t = "take u s @ take n (drop from src) @ drop (u + n) s"
  have "memoryCopy s u src from n = Some ?t" using assms by (intro memoryCopy_ok) auto
  moreover have "length ?t = length s" using assms by auto
  moreover have "take (u + n) ?t = take (u + n) m"
    using assms by (simp add: take_add)
  ultimately show ?thesis by blast
qed

lemma collectFragment_message:
  assumes m: "m = hs_message body" "length m \<le> 8192"
    and f: "f @ more_fragments = drop used m" "f \<noteq> []"
    and payload: "payload = pre @ tls_record f @ rest"
    and scratch: "take used scratch = take used m" "length scratch = 8192"
  shows "\<exists>s. collectFragment payload (length pre) (length f) scratch used (if used < 4 then 4 else length m) =
      Some (Inr (s, used + length f, if used + length f < 4 then 4 else length m)) \<and>
    length s = 8192 \<and> take (used + length f) s = take (used + length f) m"
proof -
  let ?needed = "if used < 4 then 4 else length m"
  let ?n = "min (length f) (?needed - used)"
  have lf: "used + length f \<le> length m" "used < length m"
  proof -
    have "length f + length more_fragments = length m - used" by (simp only: f(1) length_append [symmetric] length_drop)
    moreover have "0 < length f" using f(2) by blast
    ultimately show "used + length f \<le> length m" "used < length m" by linarith+
  qed
  have sub: "sub32 ?needed used = ?needed - used" using lf m(2) by (intro sub32_id) auto
  have d5: "drop (length pre + 5) payload = f @ rest"
    unfolding payload add.commute [of _ 5] drop_drop [symmetric] by (simp add: tls_record_def be_bytes16_def)
  have len: "length payload = length pre + 5 + length f + length rest" by (simp add: payload)
  have part: "take k (drop (length pre + 5 + i) payload) = take k (drop (used + i) m)" if "i + k \<le> length f" for i k
  proof -
    have "drop (length pre + 5 + i) payload = drop i (drop (length pre + 5) payload)" "drop (used + i) m = drop i (drop used m)"
      by (simp_all add: add.commute)
    then have "drop (length pre + 5 + i) payload = drop i (f @ rest)" "drop (used + i) m = drop i (f @ more_fragments)"
      by (simp_all only: d5 f(1))
    then show ?thesis using that by simp
  qed
  have n: "used + ?n \<le> length m" using lf by auto
  have "?n \<le> length f" by (rule min.cobounded1)
  then have room: "length pre + 5 + ?n \<le> length payload" using len by linarith
  have p0: "take ?n (drop (length pre + 5) payload) = take ?n (drop used m)" using part [of 0 ?n] by simp
  obtain s where s: "memoryCopy scratch used payload (length pre + 5) ?n = Some s" "length s = 8192"
    "take (used + ?n) s = take (used + ?n) m"
    using copy_step [OF scratch(1) n _ p0 room] scratch(2) m(2) by auto
  have lpos: "0 < length f" using f(2) by blast
  moreover have "0 < ?needed - used" using lf by auto
  ultimately have pos: "0 < used + ?n" by linarith
  have "s ! 0 = take (used + ?n) s ! 0" using pos by (rule nth_take [symmetric])
  also have "\<dots> = m ! 0" unfolding s(3) using pos by (rule nth_take)
  finally have s0: "rd8 s 0 = Some 1" using s(2) m(1) by (simp add: rd8_def hs_message_def)
  show ?thesis
  proof (cases "used < 4 \<and> 4 \<le> used + length f")
    case True
    then have n4: "used + ?n = 4" "?needed = 4" by auto
    have "rd_be24 s 1 = rd_be24 m 1" using s(2,3) lf m n4 True by (intro rd_be24_take) auto
    then have b: "rd_be24 s 1 = Some (length body)" using rd_be24_message [of body] m by simp
    let ?r = "length f - ?n"
    have r: "min (length f - ?n) (sub32 (4 + length body) 4) = ?r" using n4 lf m by auto
    have p4: "take ?r (drop (length pre + 5 + ?n) payload) = take ?r (drop 4 m)" using part [of ?n ?r] n4 by simp
    obtain t where t: "memoryCopy s 4 payload (length pre + 5 + ?n) ?r = Some t" "length t = 8192"
      "take (4 + ?r) t = take (4 + ?r) m"
      using copy_step [OF s(3) [unfolded n4(1)] _ _ p4] s(2) m(2) lf n4 len by auto
    have u: "4 + ?r = used + length f" using n4 by linarith
    have "collectFragment payload (length pre) (length f) scratch used ?needed = Some (Inr (t, 4 + ?r, 4 + length body))"
      unfolding collectFragment_def Let_def sub s(1) Option.bind.bind_lunit s0 n4(1) b
      using t(1) r m unfolding n4(2) by (simp add: kGenericSnifferMaxWindowBytes_def)
    then show ?thesis using t u True m(1) by (auto simp: add.commute)
  next
    case False
    then have nf: "?n = length f" using lf by auto
    have no: "\<not> (used + length f = 4 \<and> ?needed = 4)" using False lpos by (cases "used < 4") (simp, linarith)
    have "collectFragment payload (length pre) (length f) scratch used ?needed = Some (Inr (s, used + length f, ?needed))"
      unfolding collectFragment_def Let_def sub s(1) Option.bind.bind_lunit s0
      unfolding nf if_not_P [OF no] by simp
    then show ?thesis using s nf False by auto
  qed
qed

text \<open>The loop over the records collects exactly the message and parses it.\<close>

lemma badRecordHeader_record:
  assumes "payload = pre @ tls_record f @ rest"
  shows "badRecordHeader payload (length pre) (length payload - length pre) = Some False"
proof -
  have "payload ! length pre = 22" "payload ! (length pre + 1) = 3" "payload ! (length pre + 2) = 1"
    by (simp_all add: assms tls_record_def nth_append)
  then show ?thesis by (subst badRecordHeader_total) (simp_all add: assms)
qed

lemma recordsLoop_fragments:
  assumes "m = hs_message body" "length m \<le> 8192" "concat fs = drop used m" "\<forall>f\<in>set fs. f \<noteq> []"
    "payload = pre @ tls_records fs @ rest" "take used scratch = take used m" "length scratch = 8192" "used < length m"
  shows "\<exists>s. length s = 8192 \<and> take (length m) s = m \<and>
    recordsLoop payload (length payload) hello (length pre) used (if used < 4 then 4 else length m) scratch =
      do { (r, v) \<leftarrow> tlsclienthelloParseHandshake (Some s) (length m); Some (r, v, Some s) }"
  using assms(3-)
proof (induction fs arbitrary: pre used scratch)
  case Nil
  then show ?case by simp
next
  case (Cons f fs)
  let ?needed = "if used < 4 then 4 else length m" and ?u = "used + length f"
  let ?needed' = "if ?u < 4 then 4 else length m"
  have f: "f @ concat fs = drop used m" "f \<noteq> []" using Cons.prems by auto
  have p: "payload = pre @ tls_record f @ (tls_records fs @ rest)" using Cons.prems(3) by (simp add: tls_records_def)
  obtain s where s: "collectFragment payload (length pre) (length f) scratch used ?needed = Some (Inr (s, ?u, ?needed'))"
    "length s = 8192" "take ?u s = take ?u m"
    using collectFragment_message [OF assms(1,2) f p Cons.prems(4,5)] by blast
  have lf: "?u + length (concat fs) = length m"
    using arg_cong [OF f(1), of length] Cons.prems(6) by simp
  have rd: "rd_be16 payload (length pre + 3) = Some (length f)"
    using rd_be16_append [of "length pre + 3" "pre @ [22, 3, 1]" "length f" "f @ tls_records fs @ rest"] lf assms(2)
    by (simp add: p tls_record_def)
  have len: "length payload = length pre + 5 + length f + length (tls_records fs @ rest)" by (simp add: p)
  have step: "recordsLoop payload (length payload) hello (length pre) used ?needed scratch =
      (if ?u = ?needed' then do { (r, v) \<leftarrow> tlsclienthelloParseHandshake (Some s) ?u; Some (r, v, Some s) }
       else recordsLoop payload (length payload) hello (length pre + 5 + length f) ?u ?needed' s)"
  proof -
    have g: "length pre < length payload" "\<not> length payload - length pre < 5" "length f \<noteq> 0"
      "\<not> length f > length payload - length pre - 5"
      using len f(2) by auto
    show ?thesis
      by (subst recordsLoop.simps)
        (simp only: g badRecordHeader_record [OF p] rd s(1) Let_def Option.bind.bind_lunit if_True if_False sum.case prod.case)
  qed
  show ?case
  proof (cases "?u = length m")
    case True
    then have "?u = ?needed'" using assms(1) by auto
    then show ?thesis using step s True by auto
  next
    case False
    then have u: "?u < length m" "?u \<noteq> ?needed'" using lf assms(1) by auto
    have c: "concat fs = drop ?u m"
    proof -
      have "drop ?u m = drop (length f) (drop used m)" by (simp add: add.commute)
      then show ?thesis by (simp add: f(1) [symmetric])
    qed
    have pos: "length (pre @ tls_record f) = length pre + 5 + length f" by simp
    have "\<exists>t. length t = 8192 \<and> take (length m) t = m \<and>
      recordsLoop payload (length payload) hello (length (pre @ tls_record f)) ?u ?needed' s =
        do { (r, v) \<leftarrow> tlsclienthelloParseHandshake (Some t) (length m); Some (r, v, Some t) }"
      using c p Cons.prems(2) s(2,3) u(1) by (intro Cons.IH) auto
    then show ?thesis unfolding step if_not_P [OF u(2)] pos .
  qed
qed

text \<open>The direct view of the first record only answers for a whole message.\<close>

text \<open>A message that is too long for the window is refused as soon as its header is collected.\<close>

lemma collectFragment_header:
  assumes m: "m = hs_message body" "8192 < length m" "length body < 16777216"
    and f: "f @ more_fragments = drop used m" "f \<noteq> []" "used < 4"
    and payload: "payload = pre @ tls_record f @ rest"
    and scratch: "take used scratch = take used m" "length scratch = 8192"
  shows "\<exists>s. length s = 8192 \<and> (used + length f < 4 \<longrightarrow> take (used + length f) s = take (used + length f) m) \<and>
    collectFragment payload (length pre) (length f) scratch used 4 =
      Some (if used + length f < 4 then Inr (s, used + length f, 4) else Inl TlsClientHelloMalformed)"
proof -
  let ?n = "min (length f) (4 - used)"
  have sub: "sub32 4 used = 4 - used" using f(3) by (intro sub32_id) auto
  have d5: "drop (length pre + 5) payload = f @ rest"
    unfolding payload add.commute [of _ 5] drop_drop [symmetric] by (simp add: tls_record_def be_bytes16_def)
  have p0: "take ?n (drop (length pre + 5) payload) = take ?n (drop used (take 4 m))"
    using f(1) [symmetric] by (simp add: d5 drop_take min_def)
  have room: "length pre + 5 + ?n \<le> length payload" by (simp add: payload)
  obtain s where s: "memoryCopy scratch used payload (length pre + 5) ?n = Some s" "length s = 8192"
    "take (used + ?n) s = take (used + ?n) (take 4 m)"
  proof -
    have "take used scratch = take used (take 4 m)" "used + ?n \<le> length (take 4 m)" "length (take 4 m) \<le> length scratch"
      using scratch f(3) m(2) by auto
    from copy_step [OF this p0 room] show ?thesis using that scratch(2) by auto
  qed
  have lpos: "0 < length f" using f(2) by blast
  then have pos: "0 < used + ?n" "used + ?n \<le> 4" using f(3) by auto
  have "s ! 0 = take (used + ?n) s ! 0" using pos(1) by (rule nth_take [symmetric])
  also have "\<dots> = m ! 0" unfolding s(3) using pos by simp
  finally have s0: "rd8 s 0 = Some 1" using s(2) m(1) by (simp add: rd8_def hs_message_def)
  show ?thesis
  proof (cases "used + length f < 4")
    case True
    then have nf: "?n = length f" by auto
    have no: "\<not> (used + length f = 4 \<and> (4 :: nat) = 4)" using True by simp
    have "collectFragment payload (length pre) (length f) scratch used 4 = Some (Inr (s, used + length f, 4))"
      unfolding collectFragment_def Let_def sub s(1) Option.bind.bind_lunit s0
      unfolding nf if_not_P [OF no] by simp
    then show ?thesis using s True nf by auto
  next
    case False
    then have n4: "used + ?n = 4" using f(3) by auto
    have "rd_be24 s 1 = rd_be24 m 1" using s(2,3) m(2) n4 by (intro rd_be24_take) auto
    then have b: "rd_be24 s 1 = Some (length body)" using rd_be24_message [OF m(3)] m(1) by simp
    have "collectFragment payload (length pre) (length f) scratch used 4 = Some (Inl TlsClientHelloMalformed)"
      unfolding collectFragment_def Let_def sub s(1) Option.bind.bind_lunit s0 n4 b
      using m(1,2) by (simp add: kGenericSnifferMaxWindowBytes_def)
    then show ?thesis using s(2) False by auto
  qed
qed

lemma recordsLoop_oversized:
  assumes "m = hs_message body" "8192 < length m" "length body < 16777216" "concat fs = drop used m"
    "\<forall>f\<in>set fs. f \<noteq> [] \<and> length f \<le> UINT16_MAX" "payload = pre @ tls_records fs @ rest"
    "take used scratch = take used m" "length scratch = 8192" "used < 4"
  shows "recordsLoop payload (length payload) hello (length pre) used 4 scratch = Some (TlsClientHelloMalformed, hello, None)"
  using assms(4-)
proof (induction fs arbitrary: pre used scratch)
  case Nil
  then show ?case using assms(2) by simp
next
  case (Cons f fs)
  let ?u = "used + length f"
  have f: "f @ concat fs = drop used m" "f \<noteq> []" using Cons.prems by auto
  have p: "payload = pre @ tls_record f @ (tls_records fs @ rest)" using Cons.prems(3) by (simp add: tls_records_def)
  obtain s where s: "length s = 8192" "?u < 4 \<longrightarrow> take ?u s = take ?u m"
    "collectFragment payload (length pre) (length f) scratch used 4 =
      Some (if ?u < 4 then Inr (s, ?u, 4) else Inl TlsClientHelloMalformed)"
    using collectFragment_header [OF assms(1-3) f Cons.prems(6) p Cons.prems(4,5)] by blast
  have rd: "rd_be16 payload (length pre + 3) = Some (length f)"
    using rd_be16_append [of "length pre + 3" "pre @ [22, 3, 1]" "length f" "f @ tls_records fs @ rest"] Cons.prems(2)
    by (simp add: p tls_record_def)
  have g: "length pre < length payload" "\<not> length payload - length pre < 5" "length f \<noteq> 0"
    "\<not> length f > length payload - length pre - 5"
    using f(2) by (simp_all add: p)
  have step: "recordsLoop payload (length payload) hello (length pre) used 4 scratch =
      (if ?u < 4 then recordsLoop payload (length payload) hello (length (pre @ tls_record f)) ?u 4 s
       else Some (TlsClientHelloMalformed, hello, None))"
  proof -
    have "length (pre @ tls_record f) = length pre + 5 + length f" "?u < 4 \<Longrightarrow> ?u \<noteq> 4" by simp_all
    then show ?thesis
      by (subst recordsLoop.simps, cases "?u < 4")
        (simp_all only: g badRecordHeader_record [OF p] rd s(3) Let_def Option.bind.bind_lunit if_True if_False sum.case prod.case)
  qed
  have "concat fs = drop ?u m"
  proof -
    have "drop ?u m = drop (length f) (drop used m)" by (simp add: add.commute)
    then show ?thesis by (simp add: f(1) [symmetric])
  qed
  then have "?u < 4 \<Longrightarrow> recordsLoop payload (length payload) hello (length (pre @ tls_record f)) ?u 4 s =
      Some (TlsClientHelloMalformed, hello, None)"
    using Cons.prems(2) p s by (intro Cons.IH) auto
  then show ?case unfolding step by simp
qed

lemma parseRecord_partial:
  assumes "m = hs_message body" "length body < 16777216" "length f \<le> UINT16_MAX" "f @ g = m" "f \<noteq> []" "g \<noteq> []"
    "payload = tls_record f @ rest"
  shows "\<exists>v. tlsclienthelloParseRecord (Some payload) (length payload) = Some (TlsClientHelloMalformed, v)"
proof -
  have lf: "length f < length m" using assms(4,6) by auto
  have n: "rd_be16 payload 3 = Some (length f)"
    using rd_be16_append [of 3 "[22, 3, 1]" "length f" "f @ rest"] assms(3) by (simp add: assms(7) tls_record_def)
  have good: "\<not> bad_header payload (length payload)" by (simp add: bad_header_def assms(7) tls_record_def)
  have d: "drop 5 payload = f @ rest" by (simp add: assms(7) tls_record_def be_bytes16_def)
  have f0: "f ! 0 = 1" using assms(1,4,5) by (cases f) (auto simp: hs_message_def)
  have b: "rd_be24 f 1 = Some (length body)" if "4 \<le> length f"
  proof -
    have "rd_be24 f 1 = rd_be24 m 1" using that lf assms(4) by (intro rd_be24_take) auto
    then show ?thesis using rd_be24_message [of body] assms(1,2) by simp
  qed
  have more: "tlsclienthelloParseHandshakeAt (f @ rest) (length f) 5 v = Some (TlsClientHelloNeedMore, v)" for v
  proof -
    from order.refl [of "length f"] have "tlsclienthelloParseHandshakeAt f (length f) 5 v = Some (TlsClientHelloNeedMore, v)"
      by (cases rule: parseHandshakeAt_cases [where x = 5 and v = v]) (use f0 b lf assms(1) in auto)
    then show ?thesis by (simp add: parseHandshakeAt_local)
  qed
  from order.refl [of "length payload"] show ?thesis
    by (cases rule: parseRecord_cases) (use n good d more assms(5,7) in auto)
qed

lemma parseHandshakeAt_message:
  assumes "tlsclienthelloParseBodyAt body (length body) 4 (handshake_view 0 (length body) v) = Some (r, w)"
    "length body < 16777216"
  shows "tlsclienthelloParseHandshakeAt (hs_message body) (length (hs_message body)) 0 v = Some (r, w)"
proof -
  have b: "rd_be24 (hs_message body) 1 = Some (length body)" "hs_message body ! 0 = 1" "drop 4 (hs_message body) = body"
    using rd_be24_message [OF assms(2)] by (simp_all add: hs_message_def be_bytes24_def)
  from order.refl [of "length (hs_message body)"] show ?thesis
    by (cases rule: parseHandshakeAt_cases [where x = 0 and v = v]) (use b assms in auto)
qed

lemma message_segment:
  assumes "s = hs_message body @ t" "take (length host) (drop n body) = host"
  shows "take (length host) (drop (4 + n) s) = host"
proof -
  have "drop (4 + n) s = drop n (body @ t)"
    unfolding add.commute [of 4] drop_drop [symmetric] by (simp add: assms(1) hs_message_def be_bytes24_def)
  moreover have "take (length host) (drop n (body @ t)) = host"
  proof (cases "host = []")
    case False
    then have "length host \<le> length body - n" using arg_cong [OF assms(2), of length] by simp
    then show ?thesis using assms(2) by simp
  qed simp
  ultimately show ?thesis by simp
qed

text \<open>What the sniffer reports, in terms of the bytes of the host name.\<close>

lemma sniff_sni_report:
  assumes "sniffTlsClientHelloRecords payload n scratch = Some (TlsClientHelloFound, v, w)"
    "take (sni_name_length v) (drop (sni_name_offset v) (case w of None \<Rightarrow> payload | Some s \<Rightarrow> s)) = host"
    "sni_name_length v = length host" "genericsnifferStripHostPortAndDot host (length host) = Some k"
    "length host \<le> UINT32_MAX"
  shows "\<exists>value. genericsnifferSniffTlsClientHelloSni payload n scratch =
      Some (if k = 0 then (GenericSnifferMissing, [], 0) else (GenericSnifferFound, value, k)) \<and> take k value = take k host"
proof -
  let ?b = "drop (sni_name_offset v) (case w of None \<Rightarrow> payload | Some s \<Rightarrow> s)"
  have b: "?b = host @ drop (length host) ?b" using assms(2,3) by (metis append_take_drop_id)
  have "k \<le> length host" using strip_le [OF assms(4) order.refl assms(5)] .
  moreover have "genericsnifferStripHostPortAndDot ?b (length host) = Some k"
    by (subst b) (simp only: strip_local [OF order.refl assms(5)] assms(4))
  ultimately show ?thesis
    using assms(1,3) arg_cong [OF b, of "take k"]
    by (intro exI [of _ ?b]) (simp add: genericsnifferSniffTlsClientHelloSni_def Let_def)
qed

text \<open>A message in one record is read in place.\<close>

lemma sniff_one_record:
  assumes hello: "length fixed = 34" "length sid \<le> 255" "length ciphers \<le> UINT16_MAX" "length comps \<le> 255"
      "xs = before @ (0, enc_server_name host) # after" "\<forall>x\<in>set xs. ext_fits x" "\<forall>x\<in>set before. fst x \<noteq> 0"
      "body = enc_client_hello fixed sid ciphers comps xs"
    and fits: "4 + length body \<le> UINT16_MAX" and p: "p = enc_record body @ rest"
  shows "\<exists>v. sniffTlsClientHelloRecords p (length p) scratch = Some (TlsClientHelloFound, v, None) \<and>
    sni_name_length v = length host \<and> take (length host) (drop (sni_name_offset v) p) = host"
proof -
  from parse_client_hello_record [OF hello fits, of rest]
  obtain v where v: "tlsclienthelloParseRecord (Some p) (length p) = Some (TlsClientHelloFound, v)"
    "take (sni_name_length v) (drop (sni_name_offset v) p) = host" by (auto simp: p)
  have "sni_name_offset v + sni_name_length v \<le> length p"
    using parseRecord_ok [OF order.refl, of p] v(1) sni_at_inside(1) by fastforce
  then have "sni_name_length v = length host" using arg_cong [OF v(2), of length] by simp
  then show ?thesis using v by (auto simp: sniffTlsClientHelloRecords_def)
qed

text \<open>A message in several records is collected in the window, or refused when the window is too small.\<close>

lemma sniff_collected:
  assumes hello: "length fixed = 34" "length sid \<le> 255" "length ciphers \<le> UINT16_MAX" "length comps \<le> 255"
      "xs = before @ (0, enc_server_name host) # after" "\<forall>x\<in>set xs. ext_fits x" "\<forall>x\<in>set before. fst x \<noteq> 0"
      "body = enc_client_hello fixed sid ciphers comps xs" "length (enc_extensions xs) \<le> UINT16_MAX"
    and direct: "tlsclienthelloParseRecord (Some p) (length p) = Some (TlsClientHelloMalformed, v0)"
    and message: "p = tls_records fs @ rest" "concat fs = hs_message body" "length (hs_message body) \<le> 8192" "\<forall>f\<in>set fs. f \<noteq> []"
    and scratch: "length scratch = 8192"
  shows "\<exists>v s. sniffTlsClientHelloRecords p (length p) scratch = Some (TlsClientHelloFound, v, Some s) \<and>
    sni_name_length v = length host \<and> take (length host) (drop (sni_name_offset v) s) = host"
proof -
  let ?m = "hs_message body"
  have lb: "length body < 16777216" using message(3) by simp
  obtain s where s: "length s = 8192" "take (length ?m) s = ?m"
    "recordsLoop p (length p) v0 0 0 4 scratch =
      do { (r, v) \<leftarrow> tlsclienthelloParseHandshake (Some s) (length ?m); Some (r, v, Some s) }"
    using recordsLoop_fragments [OF refl message(3), of fs 0 p "[]" rest scratch v0] message scratch by auto
  obtain v n where v: "tlsclienthelloParseBodyAt body (length body) 4 (handshake_view 0 (length body) tlsclienthelloInitializeView) =
      Some (TlsClientHelloFound, v)" "sni_name_length v = length host" "sni_name_offset v = 4 + n"
    "take (length host) (drop n body) = host"
    using parse_encoded [OF hello(1-7,9,8), of 4 "handshake_view 0 (length body) tlsclienthelloInitializeView"]
    by auto
  have at: "tlsclienthelloParseHandshakeAt ?m (length ?m) 0 tlsclienthelloInitializeView = Some (TlsClientHelloFound, v)"
    by (rule parseHandshakeAt_message) (use v(1) lb in simp_all)
  have sm: "s = ?m @ drop (length ?m) s" using s(2) by (metis append_take_drop_id)
  have "tlsclienthelloParseHandshake (Some s) (length ?m) = Some (TlsClientHelloFound, v)"
    unfolding tlsclienthelloParseHandshake_def
    by (subst sm) (simp only: option.case parseHandshakeAt_local [OF order.refl] at)
  then have "sniffTlsClientHelloRecords p (length p) scratch = Some (TlsClientHelloFound, v, Some s)"
    using direct s(3) by (simp add: sniffTlsClientHelloRecords_def)
  moreover have "take (length host) (drop (4 + n) s) = host" by (rule message_segment [OF sm v(4)])
  ultimately show ?thesis using v(2,3) by (auto intro!: exI [of _ v])
qed

lemma sniff_refused:
  assumes "length body < 16777216" "concat fs = hs_message body" "8192 < length (hs_message body)"
    "\<forall>f\<in>set fs. f \<noteq> [] \<and> length f \<le> UINT16_MAX" "length scratch = 8192" "p = tls_records fs @ rest"
    "tlsclienthelloParseRecord (Some p) (length p) = Some (TlsClientHelloMalformed, v0)"
  shows "genericsnifferSniffTlsClientHelloSni p (length p) scratch = Some (GenericSnifferMissing, [], 0)"
  using recordsLoop_oversized [OF refl assms(3,1), of fs 0 p "[]" rest scratch v0] assms
  by (simp add: genericsnifferSniffTlsClientHelloSni_def sniffTlsClientHelloRecords_def)

lemma length_client_hello:
  assumes "length fixed = 34" "length sid \<le> 255" "length ciphers \<le> UINT16_MAX" "length comps \<le> 255"
    "length (enc_extensions xs) \<le> UINT16_MAX"
  shows "length (enc_client_hello fixed sid ciphers comps xs) < 16777216"
  using assms by (simp add: enc_client_hello_def)

section \<open>Properties\<close>

text \<open>C7. What the sniffer reports does not depend on how a ClientHello is split into TLS records, up to the size of its window. For
  every well-formed ClientHello that carries a server name, every split of its handshake message into nonempty records, arbitrary bytes
  behind, and whatever the scratch window held before: it reports exactly the host name, stripped of port and dots. There
  are two exceptions, and in both it reports that there is none: nothing is left of the name after stripping, or the message is
  longer than the 8,192 bytes of the window and came in more than one record.\<close>

theorem sniff_sni_any_fragmentation:
  assumes "length fixed = 34" "length sid \<le> 255" "length ciphers \<le> UINT16_MAX" "length comps \<le> 255"
    "xs = before @ (0, enc_server_name host) # after" "\<forall>x\<in>set xs. ext_fits x" "\<forall>x\<in>set before. fst x \<noteq> 0"
    "body = enc_client_hello fixed sid ciphers comps xs" "length (enc_extensions xs) \<le> UINT16_MAX"
    "concat fs = hs_message body" "\<forall>f\<in>set fs. f \<noteq> [] \<and> length f \<le> UINT16_MAX" "length scratch = 8192"
  shows "\<exists>k value. genericsnifferStripHostPortAndDot host (length host) = Some k \<and>
    genericsnifferSniffTlsClientHelloSni (tls_records fs @ rest) (length (tls_records fs @ rest)) scratch =
      Some (if k = 0 \<or> 1 < length fs \<and> 8192 < length (hs_message body) then (GenericSnifferMissing, [], 0)
            else (GenericSnifferFound, value, k)) \<and> take k value = take k host"
proof -
  let ?p = "tls_records fs @ rest"
  have h: "length host \<le> UINT32_MAX" using assms(5,6) by (simp add: ext_fits_def)
  obtain k where k: "genericsnifferStripHostPortAndDot host (length host) = Some k" using strip_ok [OF order.refl h] by blast
  note report = sniff_sni_report [OF _ _ _ k h]
  have lb: "length body < 16777216" using length_client_hello [OF assms(1-4,9)] assms(8) by simp
  obtain f gs where fs: "fs = f # gs" using assms(10) by (cases fs) (simp_all add: hs_message_def)
  show ?thesis
  proof (cases "gs = []")
    case True
    then have f: "f = hs_message body" using fs assms(10) by simp
    then have "4 + length body \<le> UINT16_MAX" using assms(11) fs by simp
    from sniff_one_record [OF assms(1-8) this, of ?p rest scratch]
    obtain v where v: "sniffTlsClientHelloRecords ?p (length ?p) scratch = Some (TlsClientHelloFound, v, None)"
      "sni_name_length v = length host" "take (length host) (drop (sni_name_offset v) ?p) = host"
      using f fs True by (auto simp: tls_records_def enc_record_alt)
    have "\<not> (1 < length fs \<and> 8192 < length (hs_message body))" using fs True by simp
    then show ?thesis using report [OF v(1)] v(2,3) k by (simp only: simp_thms option.case) blast
  next
    case False
    then have g: "concat gs \<noteq> []" "1 < length fs" using assms(11) fs by (cases gs; simp)+
    obtain v0 where v0: "tlsclienthelloParseRecord (Some ?p) (length ?p) = Some (TlsClientHelloMalformed, v0)"
      using parseRecord_partial [OF refl lb, of f "concat gs" ?p "tls_records gs @ rest"] g(1) assms(10,11)
      by (auto simp: fs tls_records_def)
    show ?thesis
    proof (cases "8192 < length (hs_message body)")
      case True
      from sniff_refused [OF lb assms(10) True assms(11,12) refl v0] show ?thesis using k g(2) True by auto
    next
      case False
      then have le: "length (hs_message body) \<le> 8192" by (rule leI)
      have "\<forall>f\<in>set fs. f \<noteq> []" using assms(11) by blast
      from sniff_collected [OF assms(1-9) v0 refl assms(10) le this assms(12)]
      obtain v s where v: "sniffTlsClientHelloRecords ?p (length ?p) scratch = Some (TlsClientHelloFound, v, Some s)"
        "sni_name_length v = length host" "take (length host) (drop (sni_name_offset v) s) = host" by blast
      show ?thesis using report [OF v(1)] v(2,3) k False by (simp only: simp_thms option.case) blast
    qed
  qed
qed

lemma strip_sample: "genericsnifferStripHostPortAndDot [97] 1 = Some 1"
proof -
  have "scan_down f 0 1 = Some 1" if "f 0 = Some False" for f using that by (intro scan_down_at) auto
  then show ?thesis
    by (simp add: genericsnifferStripHostPortAndDot_def colonLoop.simps)
qed

theorem sniff_sni_any_fragmentation_witness:
  "\<exists>fs value. fs = [[1], drop 1 (hs_message (enc_client_hello (replicate 34 0) [] [19, 1] [0] [(0, enc_server_name [97])]))] \<and>
    genericsnifferSniffTlsClientHelloSni (tls_records fs @ [23]) (length (tls_records fs @ [23])) (replicate 8192 0) =
      Some (GenericSnifferFound, value, 1) \<and> take 1 value = take 1 [97]"
proof -
  let ?body = "enc_client_hello (replicate 34 0) [] [19, 1] [0] [(0, enc_server_name [97])]"
  let ?fs = "[[1], drop 1 (hs_message ?body)]"
  have c: "concat ?fs = hs_message ?body" "\<forall>f\<in>set ?fs. f \<noteq> []"
    by (simp_all add: hs_message_def be_bytes24_def)
  have l: "length (hs_message ?body) \<le> 8192" "length (enc_extensions [(0, enc_server_name [97])]) \<le> UINT16_MAX"
    by (simp_all add: enc_client_hello_def enc_extensions_def)
  show ?thesis
    using sniff_sni_any_fragmentation [of "replicate 34 0" "[]" "[19, 1]" "[0]" "[(0, enc_server_name [97])]" "[]" "[97]" "[]"
        ?body ?fs "replicate 8192 0" "[23]", OF _ _ _ _ _ _ _ refl l(2) c(1)] strip_sample c(2) l(1)
    by (simp add: ext_fits_def)
qed

end
