(* ===== verification/Sniffer_Http.thy ===== *)
theory Sniffer_Http
  imports Sniffer_Laws
begin

text \<open>
  The HTTP host is the value of the first host header of a request, wherever it stands among the
  header lines, whatever these lines are and whatever follows the header section.
\<close>

section \<open>Requests and their header lines\<close>

text \<open>A request is its first line, the header lines and an empty line, with CR LF between them. A header line is any nonempty line.\<close>

definition line_ok :: "byte list \<Rightarrow> bool" where
  "line_ok l \<longleftrightarrow> l \<noteq> [] \<and> 13 \<notin> set l \<and> 10 \<notin> set l"

definition header_block :: "byte list list \<Rightarrow> byte list" where
  "header_block ls = concat (map (\<lambda>l. [13, 10] @ l) ls)"

definition http_request :: "byte list \<Rightarrow> byte list list \<Rightarrow> byte list" where
  "http_request req ls = req @ header_block ls @ [13, 10, 13, 10]"

text \<open>Name and value of a line with a colon: the blanks before the colon and those after it belong to neither.\<close>

abbreviation header_blank :: "byte \<Rightarrow> bool" where
  "header_blank b \<equiv> b = 32 \<or> b = 9"

definition line_name :: "byte list \<Rightarrow> byte list" where
  "line_name l = rev (dropWhile header_blank (rev (takeWhile (\<lambda>b. b \<noteq> 58) l)))"

definition line_value :: "byte list \<Rightarrow> byte list" where
  "line_value l = dropWhile header_blank (tl (dropWhile (\<lambda>b. b \<noteq> 58) l))"

definition line_named :: "byte list \<Rightarrow> byte list \<Rightarrow> bool" where
  "line_named name l \<longleftrightarrow> 58 \<in> set l \<and> map asciiLower (line_name l) = name"

definition header_value :: "byte list \<Rightarrow> byte list list \<Rightarrow> byte list option" where
  "header_value name ls = map_option line_value (find (line_named name) ls)"

lemma header_block_simps [simp]:
  "header_block [] = []" "header_block (l # ls) = [13, 10] @ l @ header_block ls"
  by (simp_all add: header_block_def)

lemma line_clean: "line_ok l \<Longrightarrow> b \<in> set l \<Longrightarrow> b \<noteq> 13 \<and> b \<noteq> 10"
  by (auto simp: line_ok_def)

lemma trimmed:
  "\<exists>bl. xs = rev (dropWhile P (rev xs)) @ bl \<and> (\<forall>b\<in>set bl. P b)"
  "rev (dropWhile P (rev xs)) \<noteq> [] \<Longrightarrow> \<not> P (last (rev (dropWhile P (rev xs))))"
proof -
  have "xs = rev (takeWhile P (rev xs) @ dropWhile P (rev xs))" by simp
  then show "\<exists>bl. xs = rev (dropWhile P (rev xs)) @ bl \<and> (\<forall>b\<in>set bl. P b)"
    using set_takeWhileD [of _ P "rev xs"] by (intro exI [of _ "rev (takeWhile P (rev xs))"]) (simp only: rev_append set_rev, blast)
  show "rev (dropWhile P (rev xs)) \<noteq> [] \<Longrightarrow> \<not> P (last (rev (dropWhile P (rev xs))))"
    using hd_dropWhile [of P "rev xs"] by (simp add: last_rev)
qed

lemma line_parts:
  assumes "58 \<in> set l"
  shows "\<exists>bl sp. l = line_name l @ bl @ 58 # sp @ line_value l \<and> 58 \<notin> set (line_name l @ bl) \<and> (\<forall>b\<in>set bl. header_blank b) \<and>
    (\<forall>b\<in>set sp. header_blank b)"
proof -
  let ?n = "takeWhile (\<lambda>b. b \<noteq> 58) l" and ?r = "dropWhile (\<lambda>b. b \<noteq> 58) l"
  have "?r \<noteq> []" using assms by (simp add: dropWhile_eq_Nil_conv)
  moreover from this have "hd ?r = 58" using hd_dropWhile [of "\<lambda>b. b \<noteq> 58" l] by blast
  ultimately have r: "?r = 58 # tl ?r" by (metis list.collapse)
  obtain bl where bl: "?n = line_name l @ bl" "\<forall>b\<in>set bl. header_blank b"
    using trimmed(1) [of ?n header_blank] unfolding line_name_def by blast
  let ?sp = "takeWhile header_blank (tl ?r)"
  have sp: "tl ?r = ?sp @ line_value l" unfolding line_value_def by simp
  have "l = ?n @ ?r" by simp
  also have "\<dots> = line_name l @ bl @ 58 # ?sp @ line_value l" by (subst r, subst sp, subst bl(1)) (simp only: append.assoc append_Cons append_Nil)
  finally have "l = line_name l @ bl @ 58 # ?sp @ line_value l" .
  moreover have "58 \<notin> set ?n" using set_takeWhileD [of 58 "\<lambda>b. b \<noteq> 58" l] by blast
  moreover have "\<forall>b\<in>set ?sp. header_blank b" using set_takeWhileD [of _ header_blank "tl ?r"] by blast
  ultimately show ?thesis using bl by (intro exI [of _ bl] exI [of _ ?sp]) (simp only: simp_thms)
qed

lemma line_name_last: "line_name l \<noteq> [] \<Longrightarrow> \<not> header_blank (last (line_name l))"
  unfolding line_name_def by (rule trimmed(2))

lemma line_value_hd: "line_value l \<noteq> [] \<Longrightarrow> \<not> header_blank (hd (line_value l))"
  unfolding line_value_def by (rule hd_dropWhile)

text \<open>No empty line before the end of the headers.\<close>

lemma header_block_no_end:
  assumes "\<forall>b\<in>set req. b \<noteq> 13" "\<forall>h\<in>set hs. line_ok h" "j < length (req @ header_block hs)"
  shows "\<not> ((req @ header_block hs @ s) ! j = 13 \<and> (req @ header_block hs @ s) ! (j + 2) = 13)"
  using assms
proof (induction hs arbitrary: req j)
  case Nil
  then have "(req @ s) ! j \<in> set req" by (simp add: nth_append)
  then show ?case using Nil by auto
next
  case (Cons h hs)
  let ?p = "req @ header_block (h # hs) @ s" and ?q = "h @ header_block hs @ s"
  have p: "?p = req @ 13 # 10 # ?q" by simp
  consider "j < length req" | "j = length req" | "j = length req + 1" | i where "j = length req + 2 + i"
    by (metis add_2_eq_Suc' less_antisym less_imp_add_positive not_less_eq linorder_neqE_nat Suc_eq_plus1 le_Suc_ex less_eq_Suc_le)
  then show ?case
  proof cases
    case 1
    then have "?p ! j \<in> set req" by (simp add: nth_append)
    then show ?thesis using Cons.prems(1) by auto
  next
    case 2
    have h: "h \<noteq> []" using Cons.prems(2) by (simp add: line_ok_def)
    then have "h ! 0 \<in> set h" by simp
    moreover have "?p ! (j + 2) = h ! 0" using 2 h by (simp add: p nth_append)
    ultimately show ?thesis using line_clean [of h] Cons.prems(2) by auto
  next
    case 3
    then show ?thesis unfolding p by (simp add: nth_append)
  next
    case 4
    have "?p ! j = ?q ! i" "?p ! (j + 2) = ?q ! (i + 2)" unfolding p by (simp_all add: 4 nth_append)
    moreover have "\<not> (?q ! i = 13 \<and> ?q ! (i + 2) = 13)"
    proof (rule Cons.IH)
      show "\<forall>b\<in>set h. b \<noteq> 13" using line_clean [of h] Cons.prems(2) by auto
    qed (use Cons.prems(2,3) 4 in auto)
    ultimately show ?thesis by simp
  qed
qed

lemma findHeaderEnd_request:
  assumes "\<forall>b\<in>set req. b \<noteq> 13" "\<forall>h\<in>set hs. line_ok h" "p = http_request req hs @ body"
  shows "findHeaderEnd p (length p) = Some (Some (length (req @ header_block hs)))"
proof -
  let ?e = "length (req @ header_block hs)"
  have p: "p = req @ header_block hs @ ([13, 10, 13, 10] @ body)" by (simp add: assms(3) http_request_def)
  have len: "?e + 4 \<le> length p" by (simp add: p)
  have "scan_up (\<lambda>i. rd_equal p i [13, 10, 13, 10]) 0 (length p - 3) = Some ?e"
  proof (rule scan_up_at)
    fix j assume j: "j < ?e"
    have "take 4 (drop j p) \<noteq> [13, 10, 13, 10]"
    proof
      assume t: "take 4 (drop j p) = [13, 10, 13, 10]"
      have "p ! j = take 4 (drop j p) ! 0" "p ! (j + 2) = take 4 (drop j p) ! 2" using j len by simp_all
      then show False using header_block_no_end [OF assms(1,2) j, of "[13, 10, 13, 10] @ body"] t by (simp add: p)
    qed
    then show "rd_equal p j [13, 10, 13, 10] = Some False"
      using rd_equal_ok [of j "[13, 10, 13, 10]" p] j len by (simp add: numeral_eq_Suc)
  next
    have "drop ?e p = [13, 10, 13, 10] @ body" by (simp add: p)
    then show "rd_equal p ?e [13, 10, 13, 10] = Some True"
      using rd_equal_ok [of ?e "[13, 10, 13, 10]" p] len by simp
  qed (use len in auto)
  moreover have "?e < length p - 3" using len by linarith
  ultimately show ?thesis by (simp add: findHeaderEnd_def)
qed

section \<open>One header line\<close>

lemma headerNameEquals_line:
  "headerNameEquals (a @ n @ s) (length a) (length n) name = Some (map asciiLower n = name)"
proof (induction n arbitrary: a name)
  case (Cons b n)
  show ?case
  proof (cases name)
    case (Cons c cs)
    have "rd8 (a @ b # n @ s) (length a) = Some b" by (rule rd8_append) simp
    moreover have "headerNameEquals (a @ b # n @ s) (length a + 1) (length n) cs = Some (map asciiLower n = cs)"
      using Cons.IH [of "a @ [b]" cs] by simp
    ultimately show ?thesis using Cons by simp
  qed simp
qed auto

lemma nth_mid: "i < length m \<Longrightarrow> (a @ m @ s) ! (length a + i) = m ! i"
  by (simp add: nth_append)

lemma nth_mem_mid: "length a \<le> j \<Longrightarrow> j < length a + length m \<Longrightarrow> (a @ m @ s) ! j \<in> set m"
  using nth_mid [of "j - length a" m a s] nth_mem [of "j - length a" m] by force

text \<open>Scanning over a run of bytes.\<close>

lemma scan_up_run:
  assumes "p = a @ x @ s" "\<forall>b\<in>set x. \<not> P b" "length a + length x \<le> e" "e \<le> length p" "length a + length x < e \<longrightarrow> P (hd s)"
  shows "scan_up (\<lambda>i. do { b \<leftarrow> rd8 p i; Some (P b) }) (length a) e = Some (length a + length x)"
proof (rule scan_up_at)
  fix j assume j: "length a \<le> j" "j < length a + length x"
  have "p ! j \<in> set x" unfolding assms(1) using j by (rule nth_mem_mid)
  moreover have "j < length p" using j assms(3,4) by linarith
  ultimately show "do { b \<leftarrow> rd8 p j; Some (P b) } = Some False" using assms(2) by simp
next
  assume l: "length a + length x < e"
  then have "s \<noteq> []" using assms(1,4) by auto
  then have "p ! (length a + length x) = hd s" by (simp add: assms(1) nth_append hd_conv_nth)
  moreover have "length a + length x < length p" using l assms(4) by linarith
  ultimately show "do { b \<leftarrow> rd8 p (length a + length x); Some (P b) } = Some True" using assms(5) l by simp
qed (use assms(3) in auto)

lemma scan_down_run:
  assumes "p = a @ x @ y @ s" "\<forall>b\<in>set y. P b" "x \<noteq> [] \<longrightarrow> \<not> P (last x)"
  shows "scan_down (\<lambda>i. do { b \<leftarrow> rd8 p i; Some (P b) }) (length a) (length a + length x + length y) = Some (length a + length x)"
proof (rule scan_down_at)
  fix j assume j: "length a + length x \<le> j" "j < length a + length x + length y"
  have "((a @ x) @ y @ s) ! j \<in> set y" using j by (intro nth_mem_mid) auto
  then have "p ! j \<in> set y" by (simp add: assms(1))
  moreover have "j < length p" using j by (simp add: assms(1))
  ultimately show "do { b \<leftarrow> rd8 p j; Some (P b) } = Some True" using assms(2) by simp
next
  assume "length a < length a + length x"
  then have x: "x \<noteq> []" by auto
  then have "p ! (length a + (length x - 1)) = last x"
    unfolding assms(1) by (subst nth_mid) (simp_all add: last_conv_nth)
  moreover have "length a + (length x - 1) = length a + length x - 1" "length a + length x - 1 < length p"
    using x by (cases x; simp add: assms(1))+
  ultimately show "do { b \<leftarrow> rd8 p (length a + length x - 1); Some (P b) } = Some False" using assms(3) x by simp
qed auto

lemma line_content_end:
  assumes "line_ok l" "p = a @ l @ s" "e = length a + length l"
    "line_end = e \<or> s \<noteq> [] \<and> hd s = 13 \<and> line_end = e + 1"
  shows "(if line_end > length a then do { b \<leftarrow> rd8 p (line_end - 1); Some (b = 13) } else Some False) = Some (line_end = e + 1)"
proof (cases "line_end = e")
  case True
  have l: "0 < length l" using assms(1) by (simp add: line_ok_def)
  have "length a + length l - 1 < length a + length l" using l by simp
  then have "p ! (e - 1) \<in> set l" unfolding assms(2,3) using l by (intro nth_mem_mid) linarith+
  then have "p ! (e - 1) \<noteq> 13" using line_clean [OF assms(1)] by blast
  moreover have "length p = e + length s" by (simp add: assms(2,3))
  then have "e - 1 < length p" "length a < e" using l assms(3) by linarith+
  ultimately show ?thesis using True by simp
next
  case False
  then have "p ! e = 13" "line_end = e + 1" "e < length p"
    using assms(4) by (auto simp: assms(2,3) nth_append hd_conv_nth)
  then show ?thesis by (simp add: assms(3))
qed

text \<open>A line is a hit exactly when it has a colon and its name is the wanted one; then its value is returned.\<close>

lemma headerLine_request:
  assumes "line_ok l" "p = a @ l @ s" "e = length a + length l"
    "line_end = e \<or> s \<noteq> [] \<and> hd s = 13 \<and> line_end = e + 1"
  shows "headerLine p (length a) line_end name =
    Some (if line_named name l then Some (e - length (line_value l), length (line_value l)) else None)"
proof -
  note cr = line_content_end [OF assms]
  have ce: "(if line_end = e + 1 then line_end - 1 else line_end) = e" using assms(4) by auto
  have len: "e \<le> length p" by (simp add: assms(2,3))
  show ?thesis
  proof (cases "58 \<in> set l")
    case False
    have colon: "scan_up (\<lambda>i. do { b \<leftarrow> rd8 p i; Some (b = 58) }) (length a) e = Some e"
      unfolding assms(3) by (rule scan_up_run [OF assms(2)]) (use False len in \<open>auto simp: assms(3)\<close>)
    obtain y where y: "l = rev (dropWhile header_blank (rev l)) @ y" "\<forall>b\<in>set y. header_blank b"
      using trimmed(1) [of l header_blank] by blast
    define x where "x = rev (dropWhile header_blank (rev l))"
    have xy: "l = x @ y" "\<forall>b\<in>set y. header_blank b" "x \<noteq> [] \<longrightarrow> \<not> header_blank (last x)"
      using y trimmed(2) [of header_blank l] unfolding x_def by (blast, blast, blast)
    have trim: "scan_down (\<lambda>i. do { b \<leftarrow> rd8 p i; Some (b = 32 \<or> b = 9) }) (length a) e = Some (length a + length x)"
      using scan_down_run [of p a x y s header_blank] xy by (simp add: assms(2,3) add.assoc)
    show ?thesis
      unfolding headerLine_def cr Option.bind.bind_lunit Let_def ce colon trim using False by (simp add: line_named_def)
  next
    case True
    let ?n = "line_name l" and ?v = "line_value l"
    obtain bl sp where l: "l = ?n @ bl @ 58 # sp @ ?v" "58 \<notin> set (?n @ bl)" "\<forall>b\<in>set bl. header_blank b"
      "\<forall>b\<in>set sp. header_blank b" using line_parts [OF True] by blast
    define k where "k = length a + length ?n + length bl"
    have e: "e = k + 1 + length sp + length ?v" unfolding assms(3) k_def by (subst l(1)) simp
    have p: "p = a @ (?n @ bl) @ 58 # sp @ ?v @ s" "p = a @ ?n @ bl @ 58 # sp @ ?v @ s"
      "p = (a @ ?n @ bl @ [58]) @ sp @ ?v @ s"
      unfolding assms(2) by (subst l(1); simp)+
    have colon: "scan_up (\<lambda>i. do { b \<leftarrow> rd8 p i; Some (b = 58) }) (length a) e = Some k"
      using scan_up_run [OF p(1), of "\<lambda>b. b = 58" e] l(2) len e by (auto simp: k_def add.assoc)
    have trim: "scan_down (\<lambda>i. do { b \<leftarrow> rd8 p i; Some (b = 32 \<or> b = 9) }) (length a) k = Some (length a + length ?n)"
      unfolding k_def using l(3) line_name_last [of l] by (intro scan_down_run [OF p(2)]) auto
    have name: "headerNameEquals p (length a) (length a + length ?n - length a) name = Some (map asciiLower ?n = name)"
      unfolding p(2) by (simp only: diff_add_inverse headerNameEquals_line)
    have v: "scan_up (\<lambda>i. do { b \<leftarrow> rd8 p i; Some (\<not> (b = 32 \<or> b = 9)) }) (k + 1) e = Some (k + 1 + length sp)"
    proof -
      have hd: "hd (?v @ s) = hd ?v" "?v \<noteq> []" if "k + 1 + length sp < e" using that e by auto
      have "length (a @ ?n @ bl @ [58]) = k + 1" by (simp add: k_def)
      with scan_up_run [OF p(3), of "\<lambda>b. \<not> header_blank b" e] l(4) len e hd line_value_hd [of l]
      show ?thesis by (simp only:) auto
    qed
    have "k < e" "k + 1 + length sp = e - length ?v" "e - (e - length ?v) = length ?v" using e by auto
    then show ?thesis
      unfolding headerLine_def cr Option.bind.bind_lunit Let_def ce colon trim name using v True
      by (simp add: line_named_def)
  qed
qed

text \<open>The reported range holds the value.\<close>

lemma line_value_at:
  assumes "58 \<in> set l" "p = a @ l @ s" "e = length a + length l"
  shows "take (length (line_value l)) (drop (e - length (line_value l)) p) = line_value l" "e \<le> length p"
    "length (line_value l) \<le> e"
proof -
  let ?v = "line_value l"
  obtain bl sp where l: "l = line_name l @ bl @ 58 # sp @ ?v" using line_parts [OF assms(1)] by blast
  obtain x where x: "l = x @ ?v" by (rule that [of "line_name l @ bl @ 58 # sp"], subst l) simp
  have "e - length ?v = length (a @ x)" unfolding assms(3) by (subst x) simp
  moreover have "p = (a @ x) @ ?v @ s" unfolding assms(2) by (subst x) simp
  ultimately show "take (length ?v) (drop (e - length ?v) p) = ?v" by (metis append_eq_conv_conj)
  have "length l = length x + length ?v" using arg_cong [OF x, of length] by simp
  then show "e \<le> length p" "length ?v \<le> e" by (simp_all add: assms(2,3))
qed

section \<open>All header lines\<close>

lemma findLineFeed_at:
  assumes "start \<le> r" "r \<le> finish" "finish \<le> length p" "\<And>j. start \<le> j \<Longrightarrow> j < r \<Longrightarrow> p ! j \<noteq> 10" "r < finish \<Longrightarrow> p ! r = 10"
  shows "findLineFeed p start finish = Some (if r < finish then Some r else None)"
proof -
  have "scan_up (\<lambda>i. do { b \<leftarrow> rd8 p i; Some (b = 10) }) start finish = Some r"
    using assms by (intro scan_up_at) auto
  then show ?thesis by (simp add: findLineFeed_def)
qed

lemma header_value_Cons:
  "header_value name (l # ls) = (if line_named name l then Some (line_value l) else header_value name ls)"
  by (simp add: header_value_def)

lemma headerLinesLoop_request:
  assumes "\<forall>x\<in>set (l # ls). line_ok x" "p = a @ l @ header_block ls @ s"
    "header_end = length (a @ l @ header_block ls)"
  shows "\<exists>off. headerLinesLoop p header_end name (length a) =
      Some (map_option (\<lambda>v. (off, length v)) (header_value name (l # ls))) \<and>
    (\<forall>v. header_value name (l # ls) = Some v \<longrightarrow> take (length v) (drop off p) = v \<and> off + length v \<le> length p)"
  using assms
proof (induction ls arbitrary: l a)
  case Nil
  let ?e = "length a + length l"
  have p: "p = a @ l @ s" and e: "header_end = ?e" and ok: "line_ok l" using Nil by auto
  have clean: "p ! j \<noteq> 10" if "length a \<le> j" "j < ?e" for j
  proof -
    have "p ! j \<in> set l" unfolding p using that by (rule nth_mem_mid)
    then show ?thesis using line_clean [OF ok] by auto
  qed
  have lf: "findLineFeed p (length a) header_end = Some None"
    using findLineFeed_at [of "length a" ?e ?e p] clean by (simp add: e p)
  have pos: "length a < header_end" using ok by (simp add: e line_ok_def)
  have line: "headerLine p (length a) header_end name =
      Some (if line_named name l then Some (?e - length (line_value l), length (line_value l)) else None)"
    by (rule headerLine_request [OF ok p refl]) (simp add: e)
  have loop: "headerLinesLoop p header_end name (length a) =
      Some (if line_named name l then Some (?e - length (line_value l), length (line_value l)) else None)"
    using pos lf line by (subst headerLinesLoop.simps) (simp, subst headerLinesLoop.simps, simp)
  show ?case
    using loop line_value_at [OF _ p refl]
    by (intro exI [of _ "?e - length (line_value l)"]) (auto simp: header_value_def line_named_def)
next
  case (Cons g ls)
  let ?e = "length a + length l"
  let ?s = "header_block (g # ls) @ s"
  have p: "p = a @ l @ ?s" and ok: "line_ok l" using Cons.prems by auto
  have p': "p = (a @ l @ [13, 10]) @ g @ header_block ls @ s" using p by simp
  have clean: "p ! j \<noteq> 10" if "length a \<le> j" "j < ?e + 1" for j
  proof (cases "j < ?e")
    case True
    then have "p ! j \<in> set l" unfolding p using that(1) by (intro nth_mem_mid)
    then show ?thesis using line_clean [OF ok] by auto
  next
    case False
    then have "j = ?e" using that by simp
    then show ?thesis by (simp add: p nth_append)
  qed
  have end_: "header_end = ?e + 2 + length g + length (header_block ls)" "header_end \<le> length p"
    using Cons.prems(3) by (simp_all add: p)
  have lf: "findLineFeed p (length a) header_end = Some (Some (?e + 1))"
  proof -
    have "p ! (?e + 1) = 10" by (simp add: p nth_append)
    then show ?thesis using findLineFeed_at [of "length a" "?e + 1" header_end p] clean end_ by simp
  qed
  have line: "headerLine p (length a) (?e + 1) name =
      Some (if line_named name l then Some (?e - length (line_value l), length (line_value l)) else None)"
    by (rule headerLine_request [OF ok p refl]) simp
  have pos: "length a < header_end" by (simp add: end_)
  have loop: "headerLinesLoop p header_end name (length a) =
      (if line_named name l then Some (Some (?e - length (line_value l), length (line_value l)))
       else headerLinesLoop p header_end name (length (a @ l @ [13, 10])))"
    using pos lf line by (subst headerLinesLoop.simps) simp
  show ?case
  proof (cases "line_named name l")
    case True
    show ?thesis
      using loop True line_value_at [OF _ p refl]
      by (intro exI [of _ "?e - length (line_value l)"]) (auto simp: header_value_Cons line_named_def)
  next
    case False
    have "header_end = length ((a @ l @ [13, 10]) @ g @ header_block ls)" by (simp add: end_(1))
    then show ?thesis using Cons.IH [OF _ p'] Cons.prems(1) loop False by (simp add: header_value_Cons [of name l])
  qed
qed

lemma findHttpHeader_request:
  assumes "\<forall>b\<in>set req. b \<noteq> 13 \<and> b \<noteq> 10" "\<forall>x\<in>set ls. line_ok x" "p = http_request req ls @ body"
  shows "\<exists>off. findHttpHeader p (length p) name =
      Some (case header_value name ls of None \<Rightarrow> (GenericSnifferMissing, 0, 0)
        | Some v \<Rightarrow> (GenericSnifferFound, off, length v)) \<and>
    (\<forall>v. header_value name ls = Some v \<longrightarrow> take (length v) (drop off p) = v \<and> off + length v \<le> length p)"
proof -
  let ?e = "length (req @ header_block ls)" and ?a = "req @ [13, 10]"
  have e: "findHeaderEnd p (length p) = Some (Some ?e)"
    using findHeaderEnd_request [of req ls p body] assms by auto
  have p0: "p = [] @ req @ (header_block ls @ [13, 10, 13, 10] @ body)" by (simp add: assms(3) http_request_def)
  have clean: "p ! j \<noteq> 10" if "j < length req" for j
  proof -
    have "p ! j \<in> set req" unfolding p0 by (rule nth_mem_mid) (use that in simp_all)
    then show ?thesis using assms(1) by blast
  qed
  show ?thesis
  proof (cases ls)
    case Nil
    have "findLineFeed p 0 ?e = Some None"
      using findLineFeed_at [of 0 "length req" ?e p] clean Nil by (simp add: p0)
    then show ?thesis using e Nil by (simp add: findHttpHeader_def header_value_def)
  next
    case (Cons l ks)
    have p: "p = ?a @ l @ header_block ks @ ([13, 10, 13, 10] @ body)" by (simp add: p0 Cons)
    have lf: "findLineFeed p 0 ?e = Some (Some (length req + 1))"
    proof -
      have "p ! (length req + 1) = 10" "p ! length req = 13" by (simp_all add: p nth_append)
      moreover from this have "p ! j \<noteq> 10" if "j < length req + 1" for j
        using clean that by (cases "j = length req") auto
      ultimately show ?thesis using findLineFeed_at [of 0 "length req + 1" ?e p] by (simp add: p Cons)
    qed
    have "?e = length (?a @ l @ header_block ks)" by (simp add: Cons)
    from headerLinesLoop_request [OF _ p this, of name] assms(2) Cons obtain off where off:
      "headerLinesLoop p ?e name (length ?a) = Some (map_option (\<lambda>v. (off, length v)) (header_value name ls))"
      "\<forall>v. header_value name ls = Some v \<longrightarrow> take (length v) (drop off p) = v \<and> off + length v \<le> length p" by blast
    have "length ?a = length req + 1 + 1" by simp
    with off(1) have "headerLinesLoop p ?e name (length req + 1 + 1) = Some (map_option (\<lambda>v. (off, length v)) (header_value name ls))"
      by (simp only:)
    then have "findHttpHeader p (length p) name =
        Some (case header_value name ls of None \<Rightarrow> (GenericSnifferMissing, 0, 0) | Some v \<Rightarrow> (GenericSnifferFound, off, length v))"
      unfolding findHttpHeader_def e Option.bind.bind_lunit option.case lf
      by (cases "header_value name ls") simp_all
    then show ?thesis using off(2) by blast
  qed
qed

lemma methodsLoop_hit:
  assumes "m \<in> set ms" "p = m @ q"
  shows "\<exists>a. methodsLoop p (length p) ms b = Some (True, a)"
  using assms
proof (induction ms arbitrary: b)
  case (Cons x xs)
  show ?case
  proof (cases "x = m")
    case True
    then show ?thesis using Cons.prems(2) by (simp add: mem_read_ok Let_def)
  next
    case False
    then show ?thesis using Cons by (auto simp: mem_read_ok Let_def)
  qed
qed simp

section \<open>Properties\<close>

text \<open>C27. Take any request whose first line starts with a method the sniffer knows, with any number of nonempty header lines, with
  CR LF as line end and no CR or LF within a line, and any body. The sniffer reports the value of the first line that has a colon
  and is named host, compared without regard to case and to blanks before the colon; blanks after the colon are skipped, and
  port and dots are stripped. Without such a line, or when nothing is left of the value, it reports that there is no host.\<close>

theorem sniff_http_host:
  assumes "m \<in> set http1_methods" "\<forall>b\<in>set (m @ target). b \<noteq> 13 \<and> b \<noteq> 10" "\<forall>l\<in>set ls. line_ok l"
    "payload = http_request (m @ target) ls @ body" "length payload \<le> UINT32_MAX"
  shows "case header_value (ascii ''host'') ls of
      None \<Rightarrow> genericsnifferSniffHttp1Host payload (length payload) = Some (GenericSnifferMissing, 0, 0)
    | Some v \<Rightarrow> (\<exists>k off. genericsnifferStripHostPortAndDot v (length v) = Some k \<and>
        genericsnifferSniffHttp1Host payload (length payload) =
          Some (if k = 0 then (GenericSnifferMissing, 0, 0) else (GenericSnifferFound, off, k)) \<and>
        take k (drop off payload) = take k v)"
proof -
  have "payload = m @ (target @ header_block ls @ [13, 10, 13, 10] @ body)" by (simp add: assms(4) http_request_def)
  from methodsLoop_hit [OF assms(1) this, of False] have m: "classifyHttpMethod payload (length payload) = Some 1"
    by (auto simp: classifyHttpMethod_def classifyHttpMethodEx_def)
  have ne: "length payload \<noteq> 0" by (simp add: assms(4) http_request_def)
  have start: "genericsnifferSniffHttp1Host payload (length payload) = findHttpHost payload (length payload)"
    using m ne by (simp add: genericsnifferSniffHttp1Host_def)
  obtain off where off: "findHttpHeader payload (length payload) (ascii ''host'') =
      Some (case header_value (ascii ''host'') ls of None \<Rightarrow> (GenericSnifferMissing, 0, 0)
        | Some v \<Rightarrow> (GenericSnifferFound, off, length v))"
    "\<forall>v. header_value (ascii ''host'') ls = Some v \<longrightarrow> take (length v) (drop off payload) = v \<and> off + length v \<le> length payload"
    using findHttpHeader_request [OF assms(2-4)] by blast
  show ?thesis
  proof (cases "header_value (ascii ''host'') ls")
    case None
    then show ?thesis using off(1) by (simp add: start findHttpHost_def)
  next
    case (Some v)
    have v: "take (length v) (drop off payload) = v" "length v \<le> UINT32_MAX" using off(2) Some assms(5) by auto
    obtain k where k: "genericsnifferStripHostPortAndDot v (length v) = Some k" using strip_ok [OF order.refl v(2)] by auto
    have d: "drop off payload = v @ drop (length v) (drop off payload)" using v(1) by (metis append_take_drop_id)
    have "genericsnifferStripHostPortAndDot (drop off payload) (length v) = Some k"
      by (subst d) (simp only: strip_local [OF order.refl v(2)] k)
    moreover have "take k (drop off payload) = take k v"
      using strip_le [OF k order.refl v(2)] arg_cong [OF v(1), of "take k"] by (simp add: min_def)
    ultimately show ?thesis using off(1) Some k by (auto simp: start findHttpHost_def)
  qed
qed

definition sample_lines :: "byte list list" where
  "sample_lines = [ascii ''X'', ascii ''A: b'', ascii ''HOST :a:80'', ascii ''host: c'']"

definition sample_request :: "byte list" where
  "sample_request = http_request (ascii ''GET '' @ ascii ''/'') sample_lines @ ascii ''body''"

lemma strip_sample_port: "genericsnifferStripHostPortAndDot ([97, 58, 56, 48] @ s) 4 = Some 1"
proof -
  have c: "colonLoop [97, 58, 56, 48] 4 0 (- 1) = Some (1, False)"
    by (simp add: colonLoop.simps int32_of_def)
  have d: "scan_down (\<lambda>i. do { b \<leftarrow> rd8 [97, 58, 56, 48] i; Some (b = 32 \<or> b = 9 \<or> b = 13) }) 0 4 = Some 4"
    "scan_down (\<lambda>i. do { b \<leftarrow> rd8 [97, 58, 56, 48] i; Some (b = 46) }) 0 1 = Some 1"
    "scan_up (\<lambda>i. do { b \<leftarrow> rd8 [97, 58, 56, 48] i; Some (b < 48 \<or> b > 57) }) (Suc (Suc 0)) 4 = Some 4"
    by (simp_all add: scan_down.simps scan_up.simps)
  have "genericsnifferStripHostPortAndDot [97, 58, 56, 48] 4 = Some 1"
    unfolding genericsnifferStripHostPortAndDot_def d(1) using c d(2,3) by simp
  then show ?thesis by (subst strip_local) simp_all
qed

lemma sample_request_host:
  "genericsnifferSniffHttp1Host sample_request (length sample_request) = Some (GenericSnifferFound, 22, 1)"
  "header_value (ascii ''host'') sample_lines = Some [97, 58, 56, 48]"
proof -
  have "findHttpHeader sample_request (length sample_request) (ascii ''host'') = Some (GenericSnifferFound, 22, 4)"
    "classifyHttpMethod sample_request (length sample_request) = Some 1" "length sample_request \<noteq> 0"
    "drop 22 sample_request = [97, 58, 56, 48] @ drop 26 sample_request"
    by code_simp+
  then show "genericsnifferSniffHttp1Host sample_request (length sample_request) = Some (GenericSnifferFound, 22, 1)"
    using strip_sample_port by (simp add: genericsnifferSniffHttp1Host_def findHttpHost_def)
  show "header_value (ascii ''host'') sample_lines = Some [97, 58, 56, 48]" by code_simp
qed

theorem sniff_http_host_witness:
  "genericsnifferSniffHttp1Host sample_request (length sample_request) = Some (GenericSnifferFound, 22, 1) \<and>
    take 1 (drop 22 sample_request) = take 1 [97, 58, 56, 48]"
proof -
  have "ascii ''GET '' \<in> set http1_methods" by (simp add: http1_methods_def)
  moreover have "\<forall>l\<in>set sample_lines. line_ok l" by (simp add: sample_lines_def line_ok_def ascii_def)
  moreover have "length sample_request \<le> UINT32_MAX" "\<forall>b\<in>set (ascii ''GET '' @ ascii ''/''). b \<noteq> 13 \<and> b \<noteq> 10"
    by (simp_all add: sample_request_def http_request_def sample_lines_def ascii_def)
  ultimately have "case header_value (ascii ''host'') sample_lines of
      None \<Rightarrow> genericsnifferSniffHttp1Host sample_request (length sample_request) = Some (GenericSnifferMissing, 0, 0)
    | Some v \<Rightarrow> (\<exists>k off. genericsnifferStripHostPortAndDot v (length v) = Some k \<and>
        genericsnifferSniffHttp1Host sample_request (length sample_request) =
          Some (if k = 0 then (GenericSnifferMissing, 0, 0) else (GenericSnifferFound, off, k)) \<and>
        take k (drop off sample_request) = take k v)"
    by (intro sniff_http_host) (assumption+, rule sample_request_def)
  then show ?thesis unfolding sample_request_host option.case by (auto split: if_splits)
qed

section \<open>A later CR LF CR LF overrides an earlier LF LF\<close>

text \<open>The search for CR LF CR LF covers the whole payload before LF LF is looked for. A request whose
  header section ends in LF LF has no host while only its headers have arrived, and a host taken
  from its body once a CR LF CR LF arrives there.\<close>

definition lf_request :: "byte list" where
  "lf_request = ascii ''GET /'' @ [10] @ ascii ''A: b'' @ [10, 10]"

definition lf_request_body :: "byte list" where
  "lf_request_body = ascii ''Host: x'' @ [13, 10, 13, 10]"

lemma lf_request_missing:
  "genericsnifferSniffHttp1Host lf_request (length lf_request) = Some (GenericSnifferMissing, 0, 0)"
  by code_simp

lemma lf_request_host_from_body:
  "genericsnifferSniffHttp1Host (lf_request @ lf_request_body) (length (lf_request @ lf_request_body)) =
     Some (GenericSnifferFound, 18, 1)"
  by code_simp

end
