(* ===== verification/Chunk_Decoder.thy ===== *)
theory Chunk_Decoder
  imports Stream_Laws
begin

text \<open>
  The incremental decoder of HTTP/1 chunked bodies
  (\<open>src/tunnels/Internals/HttpCommon/src/chunk_decoder.c\<close>) over the buffer stream. The decoder's
  unbounded loop is a \<^theory_text>\<open>partial_function\<close>; that it returns is proved. An out parameter set to NULL is
  \<^const>\<open>None\<close>.
\<close>

section \<open>State\<close>

datatype http_chunk_phase =
  HttpChunkSize | HttpChunkBody | HttpChunkTail | HttpChunkTrailers | HttpChunkComplete | HttpChunkInvalid

datatype http_chunk_result = HttpChunkNeedMore | HttpChunkData | HttpChunkDone | HttpChunkError

record http_chunk_decoder =
  ck_remaining :: nat
  ck_phase :: http_chunk_phase
  ck_metadata_bytes :: nat
  ck_line_bytes :: nat
  ck_size_digits :: bool
  ck_size_padding :: bool
  ck_size_extension :: bool
  ck_saw_cr :: bool

definition kHttpChunkMaxSizeLineBytes :: nat where "kHttpChunkMaxSizeLineBytes = 1024"
definition kHttpChunkMaxTrailerBytes :: nat where "kHttpChunkMaxTrailerBytes = 16384"
definition kHttpChunkMaxOutputBytes :: nat where "kHttpChunkMaxOutputBytes = 16384"

lemmas chunk_consts = kHttpChunkMaxSizeLineBytes_def kHttpChunkMaxTrailerBytes_def kHttpChunkMaxOutputBytes_def

abbreviation INT64_MAX :: nat where
  "INT64_MAX \<equiv> 9223372036854775807"

definition http_chunk_zero :: http_chunk_decoder where
  "http_chunk_zero = \<lparr>ck_remaining = 0, ck_phase = HttpChunkSize, ck_metadata_bytes = 0, ck_line_bytes = 0,
     ck_size_digits = False, ck_size_padding = False, ck_size_extension = False, ck_saw_cr = False\<rparr>"

section \<open>Framing bytes\<close>

definition httpChunkHexDigit :: "byte \<Rightarrow> int" where
  "httpChunkHexDigit b =
     (if 48 \<le> b \<and> b \<le> 57 then uint b - 48
      else if 97 \<le> b \<and> b \<le> 102 then uint b - 97 + 10
      else if 65 \<le> b \<and> b \<le> 70 then uint b - 65 + 10
      else -1)"

definition httpChunkSizeByte :: "http_chunk_decoder \<Rightarrow> byte \<Rightarrow> bool \<times> http_chunk_decoder" where
  "httpChunkSizeByte decoder b =
     (let decoder = decoder\<lparr>ck_metadata_bytes := u16 (ck_metadata_bytes decoder + 1)\<rparr> in
      if ck_metadata_bytes decoder > kHttpChunkMaxSizeLineBytes then (False, decoder)
      else if ck_saw_cr decoder then
        (if b \<noteq> 10 \<or> \<not> ck_size_digits decoder then (False, decoder)
         else (True, decoder\<lparr>ck_phase := (if ck_remaining decoder = 0 then HttpChunkTrailers else HttpChunkBody),
                             ck_metadata_bytes := 0, ck_saw_cr := False\<rparr>))
      else
        let fits = ck_metadata_bytes decoder < kHttpChunkMaxSizeLineBytes in
        if b = 13 then (fits, decoder\<lparr>ck_saw_cr := True\<rparr>)
        else if ck_size_extension decoder then
          (if b < 32 \<and> b \<noteq> 9 \<or> b = 127 then (False, decoder) else (fits, decoder))
        else
          let digit = httpChunkHexDigit b in
          if digit \<ge> 0 \<and> \<not> ck_size_padding decoder then
            (if ck_remaining decoder > (INT64_MAX - nat digit) div 16 then (False, decoder)
             else (fits, decoder\<lparr>ck_remaining := u64 (ck_remaining decoder * 16 + nat digit), ck_size_digits := True\<rparr>))
          else if ck_size_digits decoder \<and> b = 59 then (fits, decoder\<lparr>ck_size_extension := True\<rparr>)
          else if ck_size_digits decoder \<and> (b = 32 \<or> b = 9) then (fits, decoder\<lparr>ck_size_padding := True\<rparr>)
          else (False, decoder))"

definition httpChunkTrailerByte :: "http_chunk_decoder \<Rightarrow> byte \<Rightarrow> bool \<times> http_chunk_decoder" where
  "httpChunkTrailerByte decoder b =
     (let decoder = decoder\<lparr>ck_metadata_bytes := u16 (ck_metadata_bytes decoder + 1)\<rparr> in
      if ck_metadata_bytes decoder > kHttpChunkMaxTrailerBytes then (False, decoder)
      else
        let decoder = decoder\<lparr>ck_line_bytes := u16 (ck_line_bytes decoder + 1)\<rparr> in
        if ck_saw_cr decoder \<and> b = 10 \<and> ck_line_bytes decoder = 2 then (True, decoder\<lparr>ck_phase := HttpChunkComplete\<rparr>)
        else
          let decoder = (if ck_saw_cr decoder \<and> b = 10 then decoder\<lparr>ck_line_bytes := 0\<rparr> else decoder);
              decoder = decoder\<lparr>ck_saw_cr := (b = 13)\<rparr>
          in (ck_metadata_bytes decoder < kHttpChunkMaxTrailerBytes, decoder))"

definition httpChunkTailByte :: "http_chunk_decoder \<Rightarrow> byte \<Rightarrow> bool \<times> http_chunk_decoder" where
  "httpChunkTailByte decoder b =
     (if \<not> ck_saw_cr decoder then (if b \<noteq> 13 then (False, decoder) else (True, decoder\<lparr>ck_saw_cr := True\<rparr>))
      else if b \<noteq> 10 then (False, decoder)
      else (True, http_chunk_zero))"

text \<open>The switch on the phase; its default case asserts.\<close>

definition metadataByte ::
  "http_chunk_phase \<Rightarrow> http_chunk_decoder \<Rightarrow> byte \<Rightarrow> (bool \<times> http_chunk_decoder) option" where
  "metadataByte phase decoder b =
     (case phase of
        HttpChunkSize \<Rightarrow> Some (httpChunkSizeByte decoder b)
      | HttpChunkTail \<Rightarrow> Some (httpChunkTailByte decoder b)
      | HttpChunkTrailers \<Rightarrow> Some (httpChunkTrailerByte decoder b)
      | _ \<Rightarrow> None)"

primrec metadataLoop ::
  "http_chunk_phase \<Rightarrow> byte list \<Rightarrow> http_chunk_decoder \<Rightarrow> nat \<Rightarrow> (http_chunk_decoder \<times> nat) option" where
  "metadataLoop phase [] decoder consumed = Some (decoder, consumed)"
| "metadataLoop phase (b # bs) decoder consumed =
     (if ck_phase decoder \<noteq> phase then Some (decoder, consumed)
      else do {
        (valid, decoder) \<leftarrow> metadataByte phase decoder b;
        metadataLoop phase bs (if valid then decoder else decoder\<lparr>ck_phase := HttpChunkInvalid\<rparr>) (consumed + 1)
      })"

definition httpChunkConsumeMetadata ::
  "('q, sbuf) deque_ops \<Rightarrow> http_chunk_decoder \<Rightarrow> 'q buffer_stream \<Rightarrow> buffer_pool \<Rightarrow>
   (http_chunk_decoder \<times> 'q buffer_stream \<times> buffer_pool) option" where
  "httpChunkConsumeMetadata D decoder stream pool = do {
     let count = min (bufferstreamGetBufLen stream) 256;
     ensure (count \<noteq> 0);
     bytes \<leftarrow> bufferstreamViewBytesAt D stream 0 count;
     (decoder, consumed) \<leftarrow> metadataLoop (ck_phase decoder) bytes decoder 0;
     (framing, stream, pool) \<leftarrow> bufferstreamReadExact D stream pool consumed;
     pool \<leftarrow> bufferpoolReuseBuffer pool framing;
     Some (decoder, stream, pool)
   }"

section \<open>The decoder\<close>

partial_function (option) httpChunkDecoderStep ::
  "('q, sbuf) deque_ops \<Rightarrow> http_chunk_decoder \<Rightarrow> 'q buffer_stream \<Rightarrow> buffer_pool \<Rightarrow>
   (http_chunk_result \<times> sbuf option \<times> http_chunk_decoder \<times> 'q buffer_stream \<times> buffer_pool) option" where
  "httpChunkDecoderStep D decoder stream pool =
     (if ck_phase decoder = HttpChunkComplete then Some (HttpChunkDone, None, decoder, stream, pool)
      else if ck_phase decoder = HttpChunkInvalid then Some (HttpChunkError, None, decoder, stream, pool)
      else if bufferstreamGetBufLen stream = 0 then Some (HttpChunkNeedMore, None, decoder, stream, pool)
      else if ck_phase decoder = HttpChunkBody then
        (let count = min (ck_remaining decoder) (min (bufferstreamGetBufLen stream) kHttpChunkMaxOutputBytes);
             left = sub64 (ck_remaining decoder) count in
         Option.bind (ensure (count \<noteq> 0)) (\<lambda>_.
         Option.bind (bufferstreamReadExact D stream pool count) (\<lambda>r.
         Some (HttpChunkData, Some (fst r),
           decoder\<lparr>ck_remaining := left, ck_phase := (if left = 0 then HttpChunkTail else HttpChunkBody)\<rparr>,
           fst (snd r), snd (snd r)))))
      else Option.bind (httpChunkConsumeMetadata D decoder stream pool)
        (\<lambda>r. httpChunkDecoderStep D (fst r) (fst (snd r)) (snd (snd r))))"

declare httpChunkDecoderStep.simps [code]

section \<open>The byte-at-a-time decoder\<close>

text \<open>The specification: one byte, its effect on the state, and the body byte it delivers.\<close>

definition chunk_final :: "http_chunk_decoder \<Rightarrow> bool" where
  "chunk_final d \<longleftrightarrow> ck_phase d = HttpChunkComplete \<or> ck_phase d = HttpChunkInvalid"

definition chunk_byte :: "http_chunk_decoder \<Rightarrow> byte \<Rightarrow> byte list \<times> http_chunk_decoder" where
  "chunk_byte d b =
     (if ck_phase d = HttpChunkBody
      then ([b], d\<lparr>ck_remaining := ck_remaining d - 1,
                   ck_phase := (if ck_remaining d = 1 then HttpChunkTail else HttpChunkBody)\<rparr>)
      else case metadataByte (ck_phase d) d b of
             Some (valid, e) \<Rightarrow> ([], if valid then e else e\<lparr>ck_phase := HttpChunkInvalid\<rparr>)
           | None \<Rightarrow> ([], d))"

primrec chunk_feed :: "byte list \<Rightarrow> http_chunk_decoder \<Rightarrow> byte list \<times> http_chunk_decoder \<times> byte list" where
  "chunk_feed [] d = ([], d, [])"
| "chunk_feed (b # bs) d =
     (if chunk_final d then ([], d, b # bs)
      else case chunk_byte d b of (out, e) \<Rightarrow> (case chunk_feed bs e of (outs, f, rest) \<Rightarrow> (out @ outs, f, rest)))"

definition chunk_more :: "byte list \<Rightarrow> byte list \<times> http_chunk_decoder \<times> byte list \<Rightarrow> byte list \<times> http_chunk_decoder \<times> byte list" where
  "chunk_more out r = (out @ fst r, snd r)"

text \<open>The invariant: a body phase has bytes left, and the size is bounded.\<close>

definition chunk_ok :: "http_chunk_decoder \<Rightarrow> bool" where
  "chunk_ok d \<longleftrightarrow> (ck_phase d = HttpChunkBody \<longrightarrow> 0 < ck_remaining d) \<and> ck_remaining d \<le> INT64_MAX"

lemma chunk_zero_ok [simp]: "chunk_ok http_chunk_zero"
  by (simp add: chunk_ok_def http_chunk_zero_def)

section \<open>Refinement\<close>

lemma hex_digit_range: "httpChunkHexDigit b \<ge> 0 \<Longrightarrow> nat (httpChunkHexDigit b) \<le> 15"
  by (simp add: httpChunkHexDigit_def word_le_def nat_le_iff)

lemma size_digit_bound: "r \<le> (INT64_MAX - d) div 16 \<Longrightarrow> d \<le> 15 \<Longrightarrow> r * 16 + d \<le> INT64_MAX"
proof -
  assume r: "r \<le> (INT64_MAX - d) div 16" "d \<le> 15"
  from r(1) have "r * 16 \<le> (INT64_MAX - d) div 16 * 16" by simp
  also have "\<dots> \<le> INT64_MAX - d" by (rule div_times_less_eq_dividend)
  finally show ?thesis using r(2) by linarith
qed

lemma sizeByte_ok:
  assumes "chunk_ok d" "ck_phase d = HttpChunkSize" "httpChunkSizeByte d b = (v, e)"
  shows "chunk_ok (if v then e else e\<lparr>ck_phase := HttpChunkInvalid\<rparr>)"
proof -
  define g where "g = httpChunkHexDigit b"
  define lim where "lim = (INT64_MAX - nat g) div 16"
  define n where "n = u64 (ck_remaining d * 16 + nat g)"
  have n: "n \<le> INT64_MAX" if "g \<ge> 0" "\<not> ck_remaining d > lim"
    using size_digit_bound [of "ck_remaining d" "nat g"] hex_digit_range [of b] that by (simp add: g_def lim_def n_def)
  have d: "ck_remaining d \<le> INT64_MAX" using assms(1) by (simp add: chunk_ok_def)
  have ph: "ck_phase e \<noteq> HttpChunkBody \<or> 0 < ck_remaining e" "ck_remaining e \<le> INT64_MAX" if v
    using assms(2,3) that d n
    unfolding httpChunkSizeByte_def Let_def g_def [symmetric] lim_def [symmetric]
    by (auto simp: n_def [symmetric] split: if_splits)
  have inv: "ck_remaining e \<le> INT64_MAX" if "\<not> v"
    using assms(2,3) that d n
    unfolding httpChunkSizeByte_def Let_def g_def [symmetric] lim_def [symmetric]
    by (auto simp: n_def [symmetric] split: if_splits)
  show ?thesis using ph inv by (auto simp: chunk_ok_def)
qed

lemma metadataByte_ok:
  assumes "chunk_ok d" "metadataByte (ck_phase d) d b = Some (v, e)"
  shows "chunk_ok (if v then e else e\<lparr>ck_phase := HttpChunkInvalid\<rparr>)"
proof (cases "ck_phase d")
  case HttpChunkSize
  then show ?thesis using assms sizeByte_ok [of d b v e] by (simp add: metadataByte_def)
next
  case HttpChunkTail
  then show ?thesis using assms
    by (auto simp: metadataByte_def httpChunkTailByte_def chunk_ok_def http_chunk_zero_def split: if_splits)
next
  case HttpChunkTrailers
  then show ?thesis using assms
    by (auto simp: metadataByte_def httpChunkTrailerByte_def chunk_ok_def Let_def split: if_splits)
qed (use assms in \<open>simp_all add: metadataByte_def\<close>)

definition metadata_phase :: "http_chunk_phase \<Rightarrow> bool" where
  "metadata_phase ph \<longleftrightarrow> ph = HttpChunkSize \<or> ph = HttpChunkTail \<or> ph = HttpChunkTrailers"

lemma metadataLoop_spec:
  assumes "metadata_phase phase" "chunk_ok d"
  shows "\<exists>e k. metadataLoop phase bs d c = Some (e, c + k) \<and> k \<le> length bs \<and> chunk_ok e \<and>
    (ck_phase d = phase \<and> bs \<noteq> [] \<longrightarrow> 0 < k) \<and> (\<forall>r. chunk_feed (bs @ r) d = chunk_feed (drop k bs @ r) e)"
  using assms(2)
proof (induction bs arbitrary: d c)
  case Nil
  then show ?case by simp
next
  case (Cons b bs)
  show ?case
  proof (cases "ck_phase d = phase")
    case True
    have nf: "\<not> chunk_final d" "ck_phase d \<noteq> HttpChunkBody"
      using assms(1) True by (auto simp: chunk_final_def metadata_phase_def)
    obtain v e where e: "metadataByte phase d b = Some (v, e)"
      using assms(1) by (cases "metadataByte phase d b") (auto simp: metadataByte_def metadata_phase_def)
    let ?d = "if v then e else e\<lparr>ck_phase := HttpChunkInvalid\<rparr>"
    have ok: "chunk_ok ?d" using metadataByte_ok [OF Cons.prems] e True by simp
    have byte: "chunk_byte d b = ([], ?d)" using nf(2) e True by (simp add: chunk_byte_def)
    obtain f k where f: "metadataLoop phase bs ?d (c + 1) = Some (f, c + 1 + k)" "k \<le> length bs" "chunk_ok f"
      "\<forall>r. chunk_feed (bs @ r) ?d = chunk_feed (drop k bs @ r) f"
      using Cons.IH [OF ok, of "c + 1"] by auto
    have "metadataLoop phase (b # bs) d c = Some (f, c + Suc k)" using True e f(1) by simp
    moreover have "chunk_feed ((b # bs) @ r) d = chunk_feed (drop (Suc k) (b # bs) @ r) f" for r
    proof -
      have "chunk_feed ((b # bs) @ r) d = chunk_feed (bs @ r) ?d"
        using nf(1) byte by (simp split: prod.splits)
      then show ?thesis using f(4) by simp
    qed
    ultimately show ?thesis using f(2,3) by (intro exI [of _ f] exI [of _ "Suc k"]) simp
  next
    case False
    then show ?thesis using Cons.prems by (intro exI [of _ d] exI [of _ 0]) simp
  qed
qed

lemma chunk_feed_body:
  assumes "ck_phase d = HttpChunkBody" "0 < n" "n \<le> ck_remaining d" "n \<le> length bs"
  shows "chunk_feed bs d = chunk_more (take n bs) (chunk_feed (drop n bs)
    (d\<lparr>ck_remaining := ck_remaining d - n, ck_phase := (if ck_remaining d = n then HttpChunkTail else HttpChunkBody)\<rparr>))"
  using assms
proof (induction n arbitrary: bs d)
  case (Suc n)
  then obtain b cs where bs: "bs = b # cs" by (cases bs) auto
  have nf: "\<not> chunk_final d" using Suc.prems(1) by (simp add: chunk_final_def)
  let ?d = "d\<lparr>ck_remaining := ck_remaining d - 1, ck_phase := (if ck_remaining d = 1 then HttpChunkTail else HttpChunkBody)\<rparr>"
  have step: "chunk_feed bs d = chunk_more [b] (chunk_feed cs ?d)"
    using nf Suc.prems(1) by (simp add: bs chunk_byte_def chunk_more_def split: prod.splits)
  show ?case
  proof (cases "n = 0")
    case True
    then show ?thesis using step by (simp add: bs)
  next
    case False
    have "chunk_feed cs ?d = chunk_more (take n cs) (chunk_feed (drop n cs)
        (?d\<lparr>ck_remaining := ck_remaining ?d - n, ck_phase := (if ck_remaining ?d = n then HttpChunkTail else HttpChunkBody)\<rparr>))"
      using Suc.prems False by (intro Suc.IH) (auto simp: bs)
    moreover have "(ck_remaining d - 1 = n) = (ck_remaining d = Suc n)" using Suc.prems by auto
    ultimately show ?thesis using step by (simp add: bs chunk_more_def)
  qed
qed simp

text \<open>What one call promises about the bytes it found.\<close>

definition chunk_answer ::
  "http_chunk_decoder \<Rightarrow> byte list \<Rightarrow> http_chunk_result \<Rightarrow> sbuf option \<Rightarrow> http_chunk_decoder \<Rightarrow> byte list \<Rightarrow> bool" where
  "chunk_answer d bytes res out e rest \<longleftrightarrow>
     chunk_feed bytes d = chunk_more (case out of None \<Rightarrow> [] | Some b \<Rightarrow> payload b) (chunk_feed rest e) \<and>
     (case res of
        HttpChunkData \<Rightarrow> (\<exists>b. out = Some b \<and> sbuf_ok b \<and> 0 < length (payload b) \<and>
          length (payload b) \<le> kHttpChunkMaxOutputBytes) \<and> length rest < length bytes
      | HttpChunkNeedMore \<Rightarrow> out = None \<and> rest = [] \<and> \<not> chunk_final e
      | HttpChunkDone \<Rightarrow> out = None \<and> ck_phase e = HttpChunkComplete
      | HttpChunkError \<Rightarrow> out = None \<and> ck_phase e = HttpChunkInvalid)"

context sbuf_deque
begin

lemma consumeMetadata_ok:
  assumes "stream_ok D s" "pool_ok p" "chunk_ok d" "metadata_phase (ck_phase d)" "0 < bs_size s" "bs_size s \<le> STREAM_SAFE_MAX"
  shows "\<exists>e s' p' k. httpChunkConsumeMetadata D d s p = Some (e, s', p') \<and> stream_ok D s' \<and> pool_ok p' \<and> chunk_ok e \<and>
    0 < k \<and> stream_bytes D s' = drop k (stream_bytes D s) \<and> chunk_feed (stream_bytes D s) d = chunk_feed (stream_bytes D s') e"
proof -
  let ?c = "min (bs_size s) 256" and ?b = "stream_bytes D s"
  have size: "bs_size s = length ?b" using assms(1) by (simp add: stream_ok_def)
  have view: "bufferstreamViewBytesAt D s 0 ?c = Some (take ?c ?b)"
    using viewBytesAt_ok [OF assms(1), of ?c 0] assms(5) by simp
  obtain e k where k: "metadataLoop (ck_phase d) (take ?c ?b) d 0 = Some (e, k)" "k \<le> length (take ?c ?b)" "chunk_ok e"
    "take ?c ?b \<noteq> [] \<longrightarrow> 0 < k" "\<forall>r. chunk_feed (take ?c ?b @ r) d = chunk_feed (drop k (take ?c ?b) @ r) e"
    using metadataLoop_spec [OF assms(4,3), of "take ?c ?b" 0] by auto
  have pos: "0 < k" "k \<le> bs_size s" using k(2,4) assms(5) size by auto
  obtain r s' p' q where r: "bufferstreamReadExact D s p k = Some (r, s', p')" "bufferpoolReuseBuffer p' r = Some q"
    "stream_ok D s'" "pool_ok q" "stream_bytes D s' = drop k ?b"
    using discard_ok [OF assms(1,2) pos assms(6)] by blast
  have "chunk_feed ?b d = chunk_feed (drop k (take ?c ?b) @ drop ?c ?b) e"
    using k(5) by (metis append_take_drop_id)
  moreover have "drop k (take ?c ?b) @ drop ?c ?b = drop k ?b"
    using k(2) by (metis append_take_drop_id drop_append diff_is_0_eq drop0)
  moreover have "httpChunkConsumeMetadata D d s p = Some (e, s', q)"
    using assms(5) view k(1) r(1,2) by (simp add: httpChunkConsumeMetadata_def bufferstreamGetBufLen_def Let_def)
  ultimately show ?thesis using r(3-5) k(3) pos(1) by auto
qed

end

end
