(* ===== verification/Chunk_Laws.thy ===== *)
theory Chunk_Laws
  imports Chunk_Decoder
begin

text \<open>
  The chunk decoder refines the byte-at-a-time decoder, returns on every input, and decodes a
  chunked message to its body however the message is cut into buffers.
\<close>

section \<open>One call\<close>

context sbuf_deque
begin

lemma chunk_step_ok:
  assumes "stream_ok D s" "pool_ok p" "chunk_ok d" "bs_size s \<le> STREAM_SAFE_MAX"
  shows "\<exists>res out e s' p'. httpChunkDecoderStep D d s p = Some (res, out, e, s', p') \<and> stream_ok D s' \<and> pool_ok p' \<and>
    chunk_ok e \<and> bs_size s' \<le> bs_size s \<and> chunk_answer d (stream_bytes D s) res out e (stream_bytes D s')"
  using assms
proof (induction "length (stream_bytes D s)" arbitrary: d s p rule: less_induct)
  case less
  let ?b = "stream_bytes D s"
  have size: "bs_size s = length ?b" using less.prems(1) by (simp add: stream_ok_def)
  consider "chunk_final d" | "\<not> chunk_final d" "?b = []" | "ck_phase d = HttpChunkBody" "?b \<noteq> []"
    | "metadata_phase (ck_phase d)" "?b \<noteq> []"
    by (cases "ck_phase d") (auto simp: chunk_final_def metadata_phase_def)
  then show ?case
  proof cases
    case 1
    then show ?thesis using less.prems
      by (subst httpChunkDecoderStep.simps) (auto simp: chunk_final_def chunk_answer_def chunk_more_def)
  next
    case 2
    then show ?thesis using less.prems size
      by (subst httpChunkDecoderStep.simps)
        (auto simp: chunk_final_def chunk_answer_def chunk_more_def bufferstreamGetBufLen_def)
  next
    case 3
    let ?n = "min (ck_remaining d) (min (length ?b) 16384)"
    let ?e = "d\<lparr>ck_remaining := ck_remaining d - ?n, ck_phase := (if ck_remaining d = ?n then HttpChunkTail else HttpChunkBody)\<rparr>"
    have r: "0 < ck_remaining d" "ck_remaining d \<le> INT64_MAX" using 3(1) less.prems(3) by (auto simp: chunk_ok_def)
    have n: "0 < ?n" "?n \<le> length ?b" "?n \<le> ck_remaining d" "?n \<le> bs_size s" using r(1) 3(2) size by auto
    obtain b s' p' where b: "bufferstreamReadExact D s p ?n = Some (b, s', p')" "sbuf_ok b" "stream_ok D s'"
      "payload b = take ?n ?b" "stream_bytes D s' = drop ?n ?b" "pool_ok p'"
      using readExact_ok [OF less.prems(1,2) n(1,4) less.prems(4)] by blast
    have left: "sub64 (ck_remaining d) ?n = ck_remaining d - ?n" "(ck_remaining d - ?n = 0) = (ck_remaining d = ?n)"
      using n(3) r(2) by auto
    have guard: "\<not> ck_phase d = HttpChunkComplete" "\<not> ck_phase d = HttpChunkInvalid" "bufferstreamGetBufLen s \<noteq> 0"
      "min (ck_remaining d) (min (bufferstreamGetBufLen s) kHttpChunkMaxOutputBytes) = ?n"
      using 3 size by (simp_all add: bufferstreamGetBufLen_def chunk_consts)
    have step: "httpChunkDecoderStep D d s p = Some (HttpChunkData, Some b, ?e, s', p')"
    proof -
      have en: "ensure (?n \<noteq> 0) = Some ()" using n(1) by simp
      show ?thesis
        by (subst httpChunkDecoderStep.simps)
          (simp only: guard 3(1) Let_def left if_True if_False simp_thms http_chunk_phase.distinct b(1) Option.bind.bind_lunit en fst_conv snd_conv)
    qed
    have "chunk_answer d ?b HttpChunkData (Some b) ?e (stream_bytes D s')"
      using chunk_feed_body [OF 3(1) n(1,3,2)] b(2,4,5) n(1,2)
      by (simp add: chunk_answer_def chunk_consts)
    moreover have "chunk_ok ?e" using r n(3) by (auto simp: chunk_ok_def)
    moreover have "bs_size s' \<le> bs_size s" using b(3,5) size by (simp add: stream_ok_def)
    ultimately show ?thesis using step b(3,6) by blast
  next
    case 4
    obtain e t q k where e: "httpChunkConsumeMetadata D d s p = Some (e, t, q)" "stream_ok D t" "pool_ok q" "chunk_ok e"
      "0 < k" "stream_bytes D t = drop k ?b" "chunk_feed ?b d = chunk_feed (stream_bytes D t) e"
      using consumeMetadata_ok [OF less.prems(1-3) 4(1) _ less.prems(4)] 4(2) size by auto
    have small: "length (stream_bytes D t) < length ?b" using e(5,6) 4(2) by simp
    moreover have t: "bs_size t \<le> bs_size s" using e(2,6) size by (simp add: stream_ok_def)
    ultimately obtain res out f s' p' where ih: "httpChunkDecoderStep D e t q = Some (res, out, f, s', p')" "stream_ok D s'"
      "pool_ok p'" "chunk_ok f" "bs_size s' \<le> bs_size t"
      "chunk_answer e (stream_bytes D t) res out f (stream_bytes D s')"
      using less.hyps [OF small e(2,3,4)] less.prems(4) by auto
    have "httpChunkDecoderStep D d s p = Some (res, out, f, s', p')"
      using 4 e(1) ih(1) size
      by (subst httpChunkDecoderStep.simps) (auto simp: metadata_phase_def bufferstreamGetBufLen_def)
    moreover have "chunk_answer d ?b res out f (stream_bytes D s')"
      using ih(6) e(7) small by (auto simp: chunk_answer_def split: http_chunk_result.splits)
    ultimately show ?thesis using ih(2-5) t by auto
  qed
qed

end

section \<open>Whole deliveries\<close>

text \<open>A caller that takes outputs until the decoder wants more input or stops. Every output removes at
  least one byte, so the size of the stream bounds the calls.\<close>

primrec chunk_drain ::
  "nat \<Rightarrow> ('q, sbuf) deque_ops \<Rightarrow> http_chunk_decoder \<Rightarrow> 'q buffer_stream \<Rightarrow> buffer_pool \<Rightarrow>
   (sbuf list \<times> http_chunk_decoder \<times> 'q buffer_stream \<times> buffer_pool) option" where
  "chunk_drain 0 D d s p = None"
| "chunk_drain (Suc n) D d s p = do {
     (res, out, d, s, p) \<leftarrow> httpChunkDecoderStep D d s p;
     case out of
       None \<Rightarrow> Some ([], d, s, p)
     | Some b \<Rightarrow> do { (outs, r) \<leftarrow> chunk_drain n D d s p; Some (b # outs, r) }
   }"

text \<open>Input arrives in buffers; after each one the caller drains the decoder.\<close>

primrec chunk_deliver ::
  "('q, sbuf) deque_ops \<Rightarrow> http_chunk_decoder \<Rightarrow> 'q buffer_stream \<Rightarrow> buffer_pool \<Rightarrow> sbuf list \<Rightarrow>
   (sbuf list \<times> http_chunk_decoder \<times> 'q buffer_stream \<times> buffer_pool) option" where
  "chunk_deliver D d s p [] = Some ([], d, s, p)"
| "chunk_deliver D d s p (b # bs) = do {
     (s, p) \<leftarrow> bufferstreamPush D s p b;
     (outs, d, s, p) \<leftarrow> chunk_drain (bs_size s + 1) D d s p;
     (rest, r) \<leftarrow> chunk_deliver D d s p bs;
     Some (outs @ rest, r)
   }"

lemma chunk_feed_final: "chunk_final d \<Longrightarrow> chunk_feed bs d = ([], d, bs)"
  by (cases bs) simp_all

lemma chunk_feed_append:
  "chunk_feed (xs @ ys) d = (case chunk_feed xs d of (o1, d1, r1) \<Rightarrow> chunk_more o1 (chunk_feed (r1 @ ys) d1))"
proof (induction xs arbitrary: d)
  case Nil
  then show ?case by (simp add: chunk_more_def)
next
  case (Cons x xs)
  show ?case
  proof (cases "chunk_final d")
    case True
    then show ?thesis by (simp add: chunk_more_def chunk_feed_final)
  next
    case False
    then show ?thesis using Cons.IH by (simp add: chunk_more_def split: prod.splits)
  qed
qed

lemma chunk_answer_out:
  "chunk_answer d bytes res out e rest \<Longrightarrow> out = None \<Longrightarrow>
   chunk_feed bytes d = ([], e, rest) \<and> chunk_feed rest e = ([], e, rest)"
  by (cases res) (auto simp: chunk_answer_def chunk_more_def chunk_feed_final chunk_final_def)

lemma chunk_answer_data:
  "chunk_answer d bytes res (Some b) e rest \<Longrightarrow>
   sbuf_ok b \<and> length rest < length bytes \<and> chunk_feed bytes d = chunk_more (payload b) (chunk_feed rest e)"
  by (cases res) (auto simp: chunk_answer_def)

context sbuf_deque
begin

lemma chunk_drain_ok:
  assumes "stream_ok D s" "pool_ok p" "chunk_ok d" "bs_size s \<le> STREAM_SAFE_MAX" "length (stream_bytes D s) < n"
  shows "\<exists>outs e s' p'. chunk_drain n D d s p = Some (outs, e, s', p') \<and> stream_ok D s' \<and> pool_ok p' \<and> chunk_ok e \<and>
    bs_size s' \<le> bs_size s \<and> chunk_feed (stream_bytes D s) d = (concat (map payload outs), e, stream_bytes D s') \<and>
    chunk_feed (stream_bytes D s') e = ([], e, stream_bytes D s')"
  using assms
proof (induction n arbitrary: d s p)
  case (Suc n)
  obtain res out e t q where e: "httpChunkDecoderStep D d s p = Some (res, out, e, t, q)" "stream_ok D t" "pool_ok q"
    "chunk_ok e" "bs_size t \<le> bs_size s" "chunk_answer d (stream_bytes D s) res out e (stream_bytes D t)"
    using chunk_step_ok [OF Suc.prems(1-4)] by blast
  show ?case
  proof (cases out)
    case None
    then show ?thesis using e chunk_answer_out [OF e(6) None] by simp
  next
    case (Some b)
    note a = chunk_answer_data [OF e(6) [unfolded Some]]
    have "\<exists>outs f s' p'. chunk_drain n D e t q = Some (outs, f, s', p') \<and> stream_ok D s' \<and> pool_ok p' \<and> chunk_ok f \<and>
      bs_size s' \<le> bs_size t \<and> chunk_feed (stream_bytes D t) e = (concat (map payload outs), f, stream_bytes D s') \<and>
      chunk_feed (stream_bytes D s') f = ([], f, stream_bytes D s')"
      using e(2-5) a Suc.prems(4,5) by (intro Suc.IH) auto
    then obtain outs f s' p' where f: "chunk_drain n D e t q = Some (outs, f, s', p')" "stream_ok D s'" "pool_ok p'" "chunk_ok f"
      "bs_size s' \<le> bs_size t" "chunk_feed (stream_bytes D t) e = (concat (map payload outs), f, stream_bytes D s')"
      "chunk_feed (stream_bytes D s') f = ([], f, stream_bytes D s')" by blast
    have "chunk_drain (Suc n) D d s p = Some (b # outs, f, s', p')" using e(1) Some f(1) by simp
    then show ?thesis using f a e(5) by (auto simp: chunk_more_def)
  qed
qed simp

lemma chunk_deliver_ok:
  assumes "stream_ok D s" "pool_ok p" "chunk_ok d" "\<forall>b\<in>set bs. sbuf_ok b"
    "bs_size s + length (concat (map payload bs)) \<le> STREAM_SAFE_MAX"
    "chunk_feed (stream_bytes D s) d = ([], d, stream_bytes D s)"
  shows "\<exists>outs e s' p'. chunk_deliver D d s p bs = Some (outs, e, s', p') \<and> stream_ok D s' \<and> pool_ok p' \<and> chunk_ok e \<and>
    chunk_feed (stream_bytes D s @ concat (map payload bs)) d = (concat (map payload outs), e, stream_bytes D s')"
  using assms
proof (induction bs arbitrary: d s p)
  case Nil
  then show ?case by simp
next
  case (Cons b bs)
  have size: "bs_size s = length (stream_bytes D s)" using Cons.prems(1) by (simp add: stream_ok_def)
  have b: "sbuf_ok b" using Cons.prems(4) by simp
  obtain t q where t: "bufferstreamPush D s p b = Some (t, q)" "stream_ok D t" "stream_bytes D t = stream_bytes D s @ payload b" "pool_ok q"
    using push_ok [OF Cons.prems(1,2) b] Cons.prems(5) length_payload [OF b] by auto
  have ts: "bs_size t = length (stream_bytes D s) + length (payload b)" using t(2,3) by (simp add: stream_ok_def)
  have "bs_size t \<le> STREAM_SAFE_MAX" "length (stream_bytes D t) < bs_size t + 1"
    using ts size Cons.prems(5) t(3) by auto
  then obtain outs e u v where e: "chunk_drain (bs_size t + 1) D d t q = Some (outs, e, u, v)" "stream_ok D u" "pool_ok v" "chunk_ok e"
    "bs_size u \<le> bs_size t" "chunk_feed (stream_bytes D t) d = (concat (map payload outs), e, stream_bytes D u)"
    "chunk_feed (stream_bytes D u) e = ([], e, stream_bytes D u)"
    using chunk_drain_ok [OF t(2,4) Cons.prems(3)] by blast
  have "bs_size u + length (concat (map payload bs)) \<le> STREAM_SAFE_MAX"
    using e(5) ts size Cons.prems(5) by simp
  then obtain more f s' p' where f: "chunk_deliver D e u v bs = Some (more, f, s', p')" "stream_ok D s'" "pool_ok p'" "chunk_ok f"
    "chunk_feed (stream_bytes D u @ concat (map payload bs)) e = (concat (map payload more), f, stream_bytes D s')"
    using Cons.IH [OF e(2-4) _ _ e(7)] Cons.prems(4) by auto
  have "chunk_deliver D d s p (b # bs) = Some (outs @ more, f, s', p')" using t(1) e(1) f(1) by (simp del: chunk_drain.simps add: Suc_eq_plus1 [symmetric])
  moreover have "chunk_feed (stream_bytes D s @ concat (map payload (b # bs))) d =
      (concat (map payload (outs @ more)), f, stream_bytes D s')"
    using chunk_feed_append [of "stream_bytes D t" "concat (map payload bs)" d] e(6) f(5) t(3)
    by (simp add: chunk_more_def)
  ultimately show ?case using f(2-4) by blast
qed

end

section \<open>The wire format\<close>

definition hex_char :: "nat \<Rightarrow> byte" where
  "hex_char g = word_of_nat (if g < 10 then 48 + g else 87 + g)"

function hex_digits :: "nat \<Rightarrow> byte list" where
  "hex_digits n = (if n < 16 then [hex_char n] else hex_digits (n div 16) @ [hex_char (n mod 16)])"
  by pat_completeness auto
termination by (relation "measure id") auto

declare hex_digits.simps [simp del]

definition enc_chunk :: "byte list \<Rightarrow> byte list" where
  "enc_chunk d = hex_digits (length d) @ [13, 10] @ d @ [13, 10]"

definition enc_chunked :: "byte list list \<Rightarrow> byte list" where
  "enc_chunked ds = concat (map enc_chunk ds) @ [48, 13, 10, 13, 10]"

definition size_state :: "nat \<Rightarrow> nat \<Rightarrow> http_chunk_decoder" where
  "size_state n k = http_chunk_zero\<lparr>ck_remaining := n, ck_metadata_bytes := k, ck_size_digits := True\<rparr>"

lemma hex_char_facts:
  assumes "g < 16"
  shows "httpChunkHexDigit (hex_char g) = int g" "hex_char g \<noteq> 13"
proof -
  have "g = 0 \<or> g = 1 \<or> g = 2 \<or> g = 3 \<or> g = 4 \<or> g = 5 \<or> g = 6 \<or> g = 7 \<or> g = 8 \<or> g = 9 \<or> g = 10 \<or> g = 11 \<or>
      g = 12 \<or> g = 13 \<or> g = 14 \<or> g = 15" using assms by presburger
  then show "httpChunkHexDigit (hex_char g) = int g" "hex_char g \<noteq> 13"
    by (elim disjE; simp add: hex_char_def httpChunkHexDigit_def)+
qed

lemma size_digit_step:
  assumes "g < 16" "m * 16 + g \<le> INT64_MAX" "ck_metadata_bytes d = k" "k + 1 < 1024"
    "d = http_chunk_zero \<and> m = 0 \<or> d = size_state m k"
  shows "chunk_feed (hex_char g # r) d = chunk_feed r (size_state (m * 16 + g) (k + 1))"
proof -
  have ph: "ck_phase d = HttpChunkSize" "\<not> ck_saw_cr d" "\<not> ck_size_extension d" "\<not> ck_size_padding d" "ck_remaining d = m"
    using assms(5) by (auto simp: size_state_def http_chunk_zero_def)
  have upd: "d\<lparr>ck_metadata_bytes := Suc k, ck_remaining := m * 16 + g, ck_size_digits := True\<rparr> = size_state (m * 16 + g) (Suc k)"
    using assms(5) by (elim disjE conjE) (simp_all add: size_state_def http_chunk_zero_def)
  have le: "\<not> m > (INT64_MAX - g) div 16" using assms(2) by (simp add: not_less less_eq_div_iff_mult_less_eq)
  have "httpChunkSizeByte d (hex_char g) = (True, size_state (m * 16 + g) (k + 1))"
    using assms(2-4) le ph hex_char_facts [OF assms(1)] upd
    by (simp add: httpChunkSizeByte_def Let_def chunk_consts)
  then have "chunk_byte d (hex_char g) = ([], size_state (m * 16 + g) (k + 1))"
    using ph(1) by (simp add: chunk_byte_def metadataByte_def)
  then show ?thesis using ph(1) by (simp add: chunk_final_def split: prod.splits)
qed

lemma length_hex_digits: "n < 16 ^ k \<Longrightarrow> 0 < k \<Longrightarrow> length (hex_digits n) \<le> k"
proof (induction n arbitrary: k rule: hex_digits.induct)
  case (1 n)
  show ?case
  proof (cases "n < 16")
    case True
    then show ?thesis using 1 by (subst hex_digits.simps) simp
  next
    case False
    then have "k \<noteq> 1" using 1 by auto
    then obtain j where j: "k = Suc j" "0 < j" using 1 by (cases k) auto
    then have "n div 16 < 16 ^ j" using 1 by (simp add: less_mult_imp_div_less mult.commute)
    from "1.IH" [OF False this j(2)] show ?thesis using False j by (subst hex_digits.simps) simp
  qed
qed

lemma hex_digits_feed:
  assumes "n \<le> INT64_MAX"
  shows "chunk_feed (hex_digits n @ r) http_chunk_zero = chunk_feed r (size_state n (length (hex_digits n)))"
  using assms
proof (induction n arbitrary: r rule: hex_digits.induct)
  case (1 n)
  show ?case
  proof (cases "n < 16")
    case True
    then have h: "hex_digits n = [hex_char n]" by (subst hex_digits.simps) simp
    show ?thesis unfolding h using size_digit_step [OF True, of 0 http_chunk_zero 0 r] True
      by (simp add: http_chunk_zero_def)
  next
    case False
    let ?m = "n div 16" and ?g = "n mod 16"
    have h: "hex_digits n = hex_digits ?m @ [hex_char ?g]" using False by (subst hex_digits.simps) simp
    have "?m < 16 ^ 15" using "1.prems" by (simp add: less_mult_imp_div_less)
    then have len: "length (hex_digits ?m) \<le> 15" by (rule length_hex_digits) simp
    have "chunk_feed (hex_digits n @ r) http_chunk_zero = chunk_feed (hex_char ?g # r) (size_state ?m (length (hex_digits ?m)))"
      unfolding h using "1.IH" [OF False, of "hex_char ?g # r"] "1.prems" by simp
    also have "\<dots> = chunk_feed r (size_state (?m * 16 + ?g) (length (hex_digits ?m) + 1))"
      using "1.prems" len by (intro size_digit_step) (simp_all add: size_state_def)
    finally show ?thesis unfolding h by simp
  qed
qed

lemma chunk_feed_meta:
  assumes "metadata_phase (ck_phase d)" "metadataByte (ck_phase d) d b = Some (True, e)"
  shows "chunk_feed (b # r) d = chunk_feed r e"
proof -
  have "chunk_byte d b = ([], e)" using assms by (auto simp: chunk_byte_def metadata_phase_def)
  then show ?thesis using assms(1) by (auto simp: metadata_phase_def chunk_final_def split: prod.splits)
qed

lemma size_line_feed:
  assumes "k + 2 \<le> 1024"
  shows "chunk_feed (13 # 10 # r) (size_state n k) =
    chunk_feed r (http_chunk_zero\<lparr>ck_remaining := n, ck_phase := (if n = 0 then HttpChunkTrailers else HttpChunkBody),
      ck_size_digits := True\<rparr>)"
proof -
  have "chunk_feed (13 # 10 # r) (size_state n k) = chunk_feed (10 # r) ((size_state n (k + 1))\<lparr>ck_saw_cr := True\<rparr>)"
    using assms by (intro chunk_feed_meta)
      (simp_all add: metadataByte_def httpChunkSizeByte_def Let_def chunk_consts size_state_def http_chunk_zero_def metadata_phase_def)
  also have "\<dots> = chunk_feed r (http_chunk_zero\<lparr>ck_remaining := n, ck_phase := (if n = 0 then HttpChunkTrailers else HttpChunkBody),
      ck_size_digits := True\<rparr>)"
    using assms by (intro chunk_feed_meta)
      (simp_all add: metadataByte_def httpChunkSizeByte_def Let_def chunk_consts size_state_def http_chunk_zero_def metadata_phase_def)
  finally show ?thesis .
qed

lemma enc_chunk_feed:
  assumes "d \<noteq> []" "length d \<le> INT64_MAX"
  shows "chunk_feed (enc_chunk d @ r) http_chunk_zero = chunk_more d (chunk_feed r http_chunk_zero)"
proof -
  let ?B = "http_chunk_zero\<lparr>ck_remaining := length d, ck_phase := HttpChunkBody, ck_size_digits := True\<rparr>"
  let ?T = "http_chunk_zero\<lparr>ck_size_digits := True, ck_remaining := 0, ck_phase := HttpChunkTail\<rparr>"
  have "length d < 16 ^ 16" using assms(2) by simp
  then have "length (hex_digits (length d)) \<le> 16" by (rule length_hex_digits) simp
  then have "chunk_feed (enc_chunk d @ r) http_chunk_zero = chunk_feed (d @ 13 # 10 # r) ?B"
    using hex_digits_feed [OF assms(2), of "13 # 10 # d @ 13 # 10 # r"] size_line_feed [of "length (hex_digits (length d))"]
      assms(1) by (simp add: enc_chunk_def)
  also have "\<dots> = chunk_more d (chunk_feed (13 # 10 # r) ?T)"
    using chunk_feed_body [of ?B "length d" "d @ 13 # 10 # r"] assms(1) by (simp del: chunk_feed.simps)
  also have "chunk_feed (13 # 10 # r) ?T = chunk_feed (10 # r) (?T\<lparr>ck_saw_cr := True\<rparr>)"
    by (intro chunk_feed_meta) (simp_all add: metadataByte_def httpChunkTailByte_def metadata_phase_def http_chunk_zero_def)
  also have "\<dots> = chunk_feed r http_chunk_zero"
    by (intro chunk_feed_meta) (simp_all add: metadataByte_def httpChunkTailByte_def metadata_phase_def)
  finally show ?thesis .
qed

lemma last_chunk_feed:
  "\<exists>e. ck_phase e = HttpChunkComplete \<and> chunk_feed ([48, 13, 10, 13, 10] @ r) http_chunk_zero = ([], e, r)"
proof -
  let ?R = "http_chunk_zero\<lparr>ck_remaining := 0, ck_phase := HttpChunkTrailers, ck_size_digits := True\<rparr>"
  have z: "hex_digits 0 = [48]" by (subst hex_digits.simps) (simp add: hex_char_def)
  have "chunk_feed ([48, 13, 10, 13, 10] @ r) http_chunk_zero = chunk_feed (13 # 10 # r) ?R"
    using hex_digits_feed [of 0 "13 # 10 # 13 # 10 # r"] size_line_feed [of 1 "13 # 10 # r" 0] by (simp add: z)
  also have "\<dots> = chunk_feed (10 # r) (?R\<lparr>ck_metadata_bytes := 1, ck_line_bytes := 1, ck_saw_cr := True\<rparr>)"
    by (intro chunk_feed_meta)
      (simp_all add: metadataByte_def httpChunkTrailerByte_def metadata_phase_def http_chunk_zero_def Let_def chunk_consts)
  also have "\<dots> = chunk_feed r (?R\<lparr>ck_phase := HttpChunkComplete, ck_metadata_bytes := 2, ck_line_bytes := 2, ck_saw_cr := True\<rparr>)"
    by (intro chunk_feed_meta)
      (simp_all add: metadataByte_def httpChunkTrailerByte_def metadata_phase_def http_chunk_zero_def Let_def chunk_consts numeral_2_eq_2)
  finally show ?thesis by (simp add: chunk_feed_final chunk_final_def)
qed

lemma enc_chunked_feed:
  assumes "\<forall>d\<in>set ds. d \<noteq> [] \<and> length d \<le> INT64_MAX"
  shows "\<exists>e. ck_phase e = HttpChunkComplete \<and> chunk_feed (enc_chunked ds @ r) http_chunk_zero = (concat ds, e, r)"
  using assms
proof (induction ds)
  case Nil
  then show ?case using last_chunk_feed by (simp add: enc_chunked_def)
next
  case (Cons d ds)
  then obtain e where e: "ck_phase e = HttpChunkComplete" "chunk_feed (enc_chunked ds @ r) http_chunk_zero = (concat ds, e, r)" by auto
  have "chunk_feed (enc_chunked (d # ds) @ r) http_chunk_zero = chunk_more d (chunk_feed (enc_chunked ds @ r) http_chunk_zero)"
    using enc_chunk_feed [of d "enc_chunked ds @ r"] Cons.prems by (simp add: enc_chunked_def)
  then show ?case using e by (auto simp: chunk_more_def)
qed

section \<open>Properties\<close>

text \<open>C9. One call of the decoder refines the byte-at-a-time decoder: it returns for every stream, keeps
  all invariants, and its output followed by what the byte-at-a-time decoder makes of the new state
  is what that makes of the old state. Data is nonempty and at most 16 KiB, need-more means all
  input was consumed, done and error are the final states.\<close>

theorem chunk_step_refines:
  assumes "sbuf_deque D" "stream_ok D s" "pool_ok p" "chunk_ok d" "bs_size s \<le> STREAM_SAFE_MAX"
  shows "\<exists>res out e s' p'. httpChunkDecoderStep D d s p = Some (res, out, e, s', p') \<and> stream_ok D s' \<and> pool_ok p' \<and>
    chunk_ok e \<and> chunk_answer d (stream_bytes D s) res out e (stream_bytes D s')"
  using sbuf_deque.chunk_step_ok [OF assms] by blast

theorem chunk_step_refines_witness:
  "\<exists>res out e s' p'. httpChunkDecoderStep list_deque http_chunk_zero sample_stream sample_pool = Some (res, out, e, s', p') \<and>
    chunk_answer http_chunk_zero [71, 69, 84, 13, 10] res out e (stream_bytes list_deque s')"
  using chunk_step_refines [OF list_stream.sbuf_deque_axioms sample_stream_ok(1) sample_pool_ok chunk_zero_ok]
  by (auto simp: sample_stream_ok(2)) (auto simp: sample_stream_def)

text \<open>C17. Round trip over any delivery: a chunked message and arbitrary bytes behind it, cut into buffers
  at any positions, is decoded to exactly its body, the decoder ends in the complete state, and the
  bytes behind the message stay in the stream.\<close>

theorem chunk_delivery_roundtrip:
  assumes "sbuf_deque D" "pool_ok p" "\<forall>b\<in>set bs. sbuf_ok b" "u \<le> 65504"
    "concat (map payload bs) = enc_chunked ds @ rest" "\<forall>d\<in>set ds. d \<noteq> []"
    "length (enc_chunked ds @ rest) \<le> STREAM_SAFE_MAX"
  shows "\<exists>outs e s' p'. chunk_deliver D http_chunk_zero (bufferstreamInitEmpty D u) p bs = Some (outs, e, s', p') \<and>
    concat (map payload outs) = concat ds \<and> ck_phase e = HttpChunkComplete \<and> stream_bytes D s' = rest"
proof -
  have small: "length d \<le> length (enc_chunked ds)" if "d \<in> set ds" for d
    using that by (induction ds) (auto simp: enc_chunked_def enc_chunk_def)
  have "\<forall>d\<in>set ds. d \<noteq> [] \<and> length d \<le> INT64_MAX" using small assms(6,7) by fastforce
  then obtain e where e: "ck_phase e = HttpChunkComplete" "chunk_feed (enc_chunked ds @ rest) http_chunk_zero = (concat ds, e, rest)"
    using enc_chunked_feed by blast
  let ?s = "bufferstreamInitEmpty D u"
  have ok: "stream_ok D ?s" and empty: "stream_bytes D ?s = []" "bs_size ?s = 0"
    using sbuf_deque.init_empty_ok [OF assms(1,4)] by auto
  obtain outs f s' p' where f: "chunk_deliver D http_chunk_zero ?s p bs = Some (outs, f, s', p')"
    "chunk_feed (stream_bytes D ?s @ concat (map payload bs)) http_chunk_zero = (concat (map payload outs), f, stream_bytes D s')"
    using sbuf_deque.chunk_deliver_ok [OF assms(1) ok assms(2) chunk_zero_ok assms(3)] assms(5,7) empty by auto
  then show ?thesis using e assms(5) empty by auto
qed

theorem chunk_delivery_roundtrip_witness:
  "\<exists>outs e s' p'. chunk_deliver list_deque http_chunk_zero (bufferstreamInitEmpty list_deque 0) sample_pool
      [sbuf_append sbuf_sample [50, 13], sbuf_append sbuf_sample [10, 72, 105, 13, 10, 48, 13, 10, 13, 10, 99]] =
      Some (outs, e, s', p') \<and> concat (map payload outs) = concat [[72, 105]] \<and> ck_phase e = HttpChunkComplete \<and>
    stream_bytes list_deque s' = [99]"
proof -
  have "hex_digits 2 = [50]" by (subst hex_digits.simps) (simp add: hex_char_def)
  then show ?thesis
    by (intro chunk_delivery_roundtrip [OF list_stream.sbuf_deque_axioms sample_pool_ok])
      (auto simp: sample_append_ok enc_chunked_def enc_chunk_def numeral_2_eq_2)
qed

end
