(* ===== verification/Mux_Wire.thy ===== *)
theory Mux_Wire
  imports Buffer_Pool
begin

text \<open>
  The wire format of the multiplexer (\<open>src/tunnels/Internals/MuxCommon/src/mux_wire.c\<close>): frame
  headers, framing in the padding of a buffer, and the encoding of one child payload as a
  sequence of frames. The functions that read from or encode to splice pipes are not modelled.
\<close>

section \<open>Headers\<close>

record mux_frame =
  mf_length :: nat
  mf_cid :: nat
  mf_flags :: byte

definition kMuxFlagOpen :: byte where "kMuxFlagOpen = 0"
definition kMuxFlagClose :: byte where "kMuxFlagClose = 1"
definition kMuxFlagData :: byte where "kMuxFlagData = 4"
definition kMuxFrameLength :: nat where "kMuxFrameLength = 8"
definition kMuxMaxDataFrameLength :: nat where "kMuxMaxDataFrameLength = 1048576"

lemmas mux_consts = kMuxFlagOpen_def kMuxFlagClose_def kMuxFlagData_def kMuxFrameLength_def kMuxMaxDataFrameLength_def

datatype mux_encode_result = MuxEncodeSuccess | MuxEncodeLengthOverflow

definition muxSetMuxFrameHeader :: "nat \<Rightarrow> nat \<Rightarrow> byte \<Rightarrow> byte list option" where
  "muxSetMuxFrameHeader len cid flag = do {
     ensure (len \<le> kMuxMaxDataFrameLength);
     Some [word_of_nat (len div 65536), word_of_nat (len div 256), word_of_nat len, flag,
           word_of_nat (cid div 16777216), word_of_nat (cid div 65536), word_of_nat (cid div 256), word_of_nat cid]
   }"

definition muxDecodeFrameHeader :: "byte list \<Rightarrow> mux_frame option" where
  "muxDecodeFrameHeader bytes = do {
     len \<leftarrow> rd_be24 bytes 0;
     flags \<leftarrow> rd8 bytes 3;
     high \<leftarrow> rd_be16 bytes 4;
     low \<leftarrow> rd_be16 bytes 6;
     Some \<lparr>mf_length = len, mf_cid = high * 65536 + low, mf_flags = flags\<rparr>
   }"

text \<open>The header that the splice stream offers, or NULL, is an argument.\<close>

datatype mux_peek_result = MuxPeekNeedMore | MuxPeekReady | MuxPeekInvalidLength

definition muxPeekFrameHeader :: "byte list option \<Rightarrow> (mux_peek_result \<times> mux_frame option) option" where
  "muxPeekFrameHeader header =
     (case header of
        None \<Rightarrow> Some (MuxPeekNeedMore, None)
      | Some bytes \<Rightarrow> do {
          frame \<leftarrow> muxDecodeFrameHeader bytes;
          if mf_length frame > kMuxMaxDataFrameLength then Some (MuxPeekInvalidLength, Some frame)
          else Some (MuxPeekReady, Some frame)
        })"

section \<open>Framing in place\<close>

definition muxMakeMuxFrame :: "sbuf \<Rightarrow> nat \<Rightarrow> byte \<Rightarrow> sbuf option" where
  "muxMakeMuxFrame buf cid flag = do {
     ensure (sbufGetLength buf \<le> kMuxMaxDataFrameLength);
     frame \<leftarrow> muxSetMuxFrameHeader (sbufGetLength buf) cid flag;
     buf \<leftarrow> sbufShiftLeft buf kMuxFrameLength;
     sbufWrite buf frame
   }"

definition muxMakeMuxOpenDataFrames :: "sbuf \<Rightarrow> nat \<Rightarrow> sbuf option" where
  "muxMakeMuxOpenDataFrames buf cid = do {
     let payload_length = sbufGetLength buf;
     ensure (payload_length \<le> kMuxMaxDataFrameLength);
     open_frame \<leftarrow> muxSetMuxFrameHeader 0 cid kMuxFlagOpen;
     data_frame \<leftarrow> muxSetMuxFrameHeader payload_length cid kMuxFlagData;
     buf \<leftarrow> sbufShiftLeft buf (kMuxFrameLength * 2);
     buf \<leftarrow> sbufWrite buf open_frame;
     sbufWriteAt buf kMuxFrameLength data_frame
   }"

definition muxMakeMuxOpenCloseFrames :: "sbuf \<Rightarrow> nat \<Rightarrow> sbuf option" where
  "muxMakeMuxOpenCloseFrames buf cid = do {
     open_frame \<leftarrow> muxSetMuxFrameHeader 0 cid kMuxFlagOpen;
     close_frame \<leftarrow> muxSetMuxFrameHeader 0 cid kMuxFlagClose;
     buf \<leftarrow> sbufShiftLeft buf (kMuxFrameLength * 2);
     buf \<leftarrow> sbufWrite buf open_frame;
     sbufWriteAt buf kMuxFrameLength close_frame
   }"

section \<open>Encoding a payload\<close>

text \<open>The inner result \<^const>\<open>None\<close> is the returned \<open>false\<close>.\<close>

definition muxTryComputeEncodedLength :: "nat \<Rightarrow> bool \<Rightarrow> nat option" where
  "muxTryComputeEncodedLength payload_length prepend_open =
     (let data_frames = sub64 (u64 (payload_length + kMuxMaxDataFrameLength)) 1 div kMuxMaxDataFrameLength;
          data_frames = (if data_frames = 0 then 1 else data_frames);
          header_count = u64 (data_frames + (if prepend_open then 1 else 0));
          total_length = u64 (payload_length + u64 (header_count * kMuxFrameLength))
      in if total_length > UINT32_MAX then None else Some total_length)"

text \<open>A header copied behind the payload, and the length set to include it.\<close>

definition appendFrameHeader :: "sbuf \<Rightarrow> byte list \<Rightarrow> sbuf option" where
  "appendFrameHeader encoded frame = do {
     let offset = sbufGetLength encoded;
     encoded \<leftarrow> sbufWriteAt encoded offset frame;
     sbufSetLength encoded (u32 (offset + kMuxFrameLength))
   }"

function encodeLoop :: "nat \<Rightarrow> sbuf \<Rightarrow> sbuf \<Rightarrow> nat \<Rightarrow> (sbuf \<times> sbuf) option" where
  "encodeLoop cid encoded input remaining =
     (if remaining \<noteq> 0 then do {
        let chunk = min remaining kMuxMaxDataFrameLength;
        data_frame \<leftarrow> muxSetMuxFrameHeader chunk cid kMuxFlagData;
        encoded \<leftarrow> appendFrameHeader encoded data_frame;
        (encoded, input) \<leftarrow> sbufMoveTo encoded input chunk;
        encodeLoop cid encoded input (remaining - chunk)
      }
      else Some (encoded, input))"
  by pat_completeness auto
termination by (relation "measure (\<lambda>(_, _, _, r). r)") (auto simp: mux_consts)

declare encodeLoop.simps [simp del]

definition muxEncodeChildPayload ::
  "buffer_pool \<Rightarrow> sbuf \<Rightarrow> nat \<Rightarrow> bool \<Rightarrow> (mux_encode_result \<times> sbuf option \<times> buffer_pool) option" where
  "muxEncodeChildPayload pool input cid prepend_open = do {
     let payload_length = sbufGetLength input;
     if payload_length \<le> kMuxMaxDataFrameLength then do {
       encoded \<leftarrow> (if prepend_open then muxMakeMuxOpenDataFrames input cid else muxMakeMuxFrame input cid kMuxFlagData);
       Some (MuxEncodeSuccess, Some encoded, pool)
     }
     else do {
       ensure (\<not> sbufIsSplice input);
       case muxTryComputeEncodedLength payload_length prepend_open of
         None \<Rightarrow> do {
           pool \<leftarrow> bufferpoolReuseBuffer pool input;
           Some (MuxEncodeLengthOverflow, None, pool)
         }
       | Some encoded_length \<Rightarrow> do {
           (encoded, pool) \<leftarrow> bufferpoolGetLargeBuffer pool;
           case sbufTryComputeCapacity encoded_length (sbufGetLeftPadding encoded) of
             None \<Rightarrow> do {
               pool \<leftarrow> bufferpoolReuseBuffer pool encoded;
               pool \<leftarrow> bufferpoolReuseBuffer pool input;
               Some (MuxEncodeLengthOverflow, None, pool)
             }
           | Some _ \<Rightarrow> do {
               encoded \<leftarrow> sbufReserveSpace encoded encoded_length;
               encoded \<leftarrow> sbufSetLength encoded 0;
               encoded \<leftarrow> (if prepend_open
                           then do { open_frame \<leftarrow> muxSetMuxFrameHeader 0 cid kMuxFlagOpen; appendFrameHeader encoded open_frame }
                           else Some encoded);
               (encoded, input) \<leftarrow> encodeLoop cid encoded input payload_length;
               ensure (sbufGetLength input = 0);
               pool \<leftarrow> bufferpoolReuseBuffer pool input;
               ensure (sbufGetLength encoded = encoded_length);
               Some (MuxEncodeSuccess, Some encoded, pool)
             }
         }
     }
   }"

section \<open>Reading frames back\<close>

text \<open>The specification of a received byte sequence: the frames it consists of, each with its body.\<close>

function mux_parse :: "byte list \<Rightarrow> (mux_frame \<times> byte list) list option" where
  "mux_parse bytes =
     (if bytes = [] then Some []
      else do {
        frame \<leftarrow> muxDecodeFrameHeader bytes;
        if mf_length frame > kMuxMaxDataFrameLength \<or> length bytes < 8 + mf_length frame then None
        else do {
          rest \<leftarrow> mux_parse (drop (8 + mf_length frame) bytes);
          Some ((frame, take (mf_length frame) (drop 8 bytes)) # rest)
        }
      })"
  by pat_completeness auto
termination by (relation "measure length") auto

declare mux_parse.simps [simp del]

end
