(* ===== verification/Mux_Laws.thy ===== *)
theory Mux_Laws
  imports Mux_Wire
begin

text \<open>
  The encoder of the multiplexer is correct: what it writes reads back as the announced frames,
  whose bodies are the payload, and it refuses a payload exactly when no buffer can hold the
  result.
\<close>

section \<open>Frames and their bytes\<close>

definition mux_hdr :: "mux_frame \<Rightarrow> byte list" where
  "mux_hdr f = [word_of_nat (mf_length f div 65536), word_of_nat (mf_length f div 256), word_of_nat (mf_length f), mf_flags f,
     word_of_nat (mf_cid f div 16777216), word_of_nat (mf_cid f div 65536), word_of_nat (mf_cid f div 256), word_of_nat (mf_cid f)]"

definition mux_bytes :: "(mux_frame \<times> byte list) list \<Rightarrow> byte list" where
  "mux_bytes fs = concat (map (\<lambda>x. mux_hdr (fst x) @ snd x) fs)"

definition frame_ok :: "mux_frame \<times> byte list \<Rightarrow> bool" where
  "frame_ok x \<longleftrightarrow> mf_length (fst x) = length (snd x) \<and> length (snd x) \<le> kMuxMaxDataFrameLength \<and> mf_cid (fst x) \<le> UINT32_MAX"

lemma length_mux_hdr [simp]: "length (mux_hdr f) = 8"
  by (simp add: mux_hdr_def)

lemma mux_bytes_simps [simp]:
  "mux_bytes [] = []" "mux_bytes (x # fs) = mux_hdr (fst x) @ snd x @ mux_bytes fs" "mux_bytes (fs @ gs) = mux_bytes fs @ mux_bytes gs"
  by (simp_all add: mux_bytes_def)

lemma set_header:
  "len \<le> kMuxMaxDataFrameLength \<Longrightarrow>
   muxSetMuxFrameHeader len cid flag = Some (mux_hdr \<lparr>mf_length = len, mf_cid = cid, mf_flags = flag\<rparr>)"
  by (simp add: muxSetMuxFrameHeader_def mux_hdr_def)

lemma split16: "(v :: nat) div 256 mod 256 * 256 + v mod 256 = v mod 65536"
  using mod_mult2_eq [of v 256 256] by simp

lemma be32_split:
  assumes "(c :: nat) \<le> UINT32_MAX"
  shows "(c div 16777216 mod 256 * 256 + c div 65536 mod 256) * 65536 + (c div 256 mod 256 * 256 + c mod 256) = c"
proof -
  have "c div 16777216 = c div 65536 div 256" by (simp add: div_mult2_eq [symmetric])
  then have "c div 16777216 mod 256 * 256 + c div 65536 mod 256 = c div 65536 mod 65536" using split16 by simp
  also have "\<dots> = c div 65536" using assms by simp
  finally show ?thesis unfolding split16 by (simp only: div_mult_mod_eq)
qed

lemma be24_split:
  assumes "(c :: nat) < 16777216"
  shows "c div 65536 mod 256 * 65536 + c div 256 mod 256 * 256 + c mod 256 = c"
proof -
  have "c div 65536 mod 256 = c div 65536" using assms by simp
  then show ?thesis using split16 [of c] div_mult_mod_eq [of c 65536] by linarith
qed

lemma decode_header:
  assumes "mf_length f < 16777216" "mf_cid f \<le> UINT32_MAX"
  shows "muxDecodeFrameHeader (mux_hdr f @ r) = Some f"
  using be32_split [OF assms(2)] be24_split [OF assms(1)]
  by (simp add: muxDecodeFrameHeader_def mux_hdr_def rd_be24_def rd8_def rd_be16_def be16_def unat_word8_of_nat)

lemma mux_parse_bytes: "\<forall>x\<in>set fs. frame_ok x \<Longrightarrow> mux_parse (mux_bytes fs) = Some fs"
proof (induction fs)
  case Nil
  show ?case by (subst mux_parse.simps) simp
next
  case (Cons x fs)
  obtain f b where x: "x = (f, b)" by (cases x)
  have ok: "mf_length f = length b" "length b \<le> kMuxMaxDataFrameLength" "mf_cid f \<le> UINT32_MAX"
    using Cons.prems by (simp_all add: x frame_ok_def)
  have d: "muxDecodeFrameHeader (mux_hdr f @ b @ mux_bytes fs) = Some f"
    using ok by (intro decode_header) (simp_all add: mux_consts)
  have ne: "mux_hdr f @ b @ mux_bytes fs \<noteq> []" by (simp add: mux_hdr_def)
  have g: "\<not> (mf_length f > kMuxMaxDataFrameLength \<or> length (mux_hdr f @ b @ mux_bytes fs) < 8 + mf_length f)"
    using ok by simp
  have r: "drop (8 + mf_length f) (mux_hdr f @ b @ mux_bytes fs) = mux_bytes fs"
    "take (mf_length f) (drop 8 (mux_hdr f @ b @ mux_bytes fs)) = b" using ok(1) by simp_all
  show ?case
    unfolding x mux_bytes_simps fst_conv snd_conv
    by (subst mux_parse.simps) (use Cons ne g d r in simp)
qed

section \<open>The frames of a payload\<close>

function mux_data_frames :: "nat \<Rightarrow> byte list \<Rightarrow> (mux_frame \<times> byte list) list" where
  "mux_data_frames cid xs =
     (if xs = [] then []
      else (\<lparr>mf_length = min (length xs) kMuxMaxDataFrameLength, mf_cid = cid, mf_flags = kMuxFlagData\<rparr>, take kMuxMaxDataFrameLength xs)
        # mux_data_frames cid (drop kMuxMaxDataFrameLength xs))"
  by pat_completeness auto
termination by (relation "measure (\<lambda>(_, xs). length xs)") (auto simp: mux_consts)

declare mux_data_frames.simps [simp del]

lemma data_frames_ok:
  assumes "cid \<le> UINT32_MAX"
  shows "(\<forall>x\<in>set (mux_data_frames cid xs). frame_ok x \<and> mf_flags (fst x) = kMuxFlagData \<and> mf_cid (fst x) = cid) \<and>
    concat (map snd (mux_data_frames cid xs)) = xs"
  using assms
proof (induction cid xs rule: mux_data_frames.induct)
  case (1 cid' xs)
  show ?case
  proof (cases "xs = []")
    case True
    then show ?thesis by (subst (1 2) mux_data_frames.simps) simp
  next
    case False
    let ?t = "mux_data_frames cid' (drop kMuxMaxDataFrameLength xs)"
    have unf: "mux_data_frames cid' xs = (\<lparr>mf_length = min (length xs) kMuxMaxDataFrameLength, mf_cid = cid',
        mf_flags = kMuxFlagData\<rparr>, take kMuxMaxDataFrameLength xs) # ?t"
      using False by (subst mux_data_frames.simps) simp
    show ?thesis unfolding unf using "1.IH" [OF False "1.prems"] "1.prems" by (simp add: frame_ok_def)
  qed
qed

definition frame_count :: "nat \<Rightarrow> nat" where
  "frame_count n = (n + kMuxMaxDataFrameLength - 1) div kMuxMaxDataFrameLength"

lemma frame_count_step:
  assumes "0 < n"
  shows "frame_count n = Suc (frame_count (n - kMuxMaxDataFrameLength))"
proof (cases "n \<le> kMuxMaxDataFrameLength")
  case True
  let ?m = "n - 1"
  have "?m < 1048576" "n + 1048576 - 1 = ?m + 1048576" using True assms by (simp_all add: mux_consts)
  then have "(n + 1048576 - 1) div 1048576 = 1" by simp
  then show ?thesis using True by (simp add: frame_count_def mux_consts)
next
  case False
  then have "n + 1048576 - 1 = (n - 1048576 + 1048576 - 1) + 1048576" by (simp add: mux_consts)
  then show ?thesis unfolding frame_count_def kMuxMaxDataFrameLength_def by simp
qed

lemma length_data_frames: "length (mux_bytes (mux_data_frames cid xs)) = length xs + 8 * frame_count (length xs)"
proof (induction cid xs rule: mux_data_frames.induct)
  case (1 cid xs)
  show ?case
  proof (cases "xs = []")
    case True
    then show ?thesis by (subst mux_data_frames.simps) (simp add: frame_count_def mux_consts)
  next
    case False
    let ?t = "mux_data_frames cid (drop kMuxMaxDataFrameLength xs)"
    have unf: "length (mux_bytes (mux_data_frames cid xs)) = 8 + min (length xs) kMuxMaxDataFrameLength + length (mux_bytes ?t)"
      using False by (subst mux_data_frames.simps) (simp add: min.commute)
    have c: "frame_count (length xs) = Suc (frame_count (length xs - kMuxMaxDataFrameLength))"
      using frame_count_step [of "length xs"] False by simp
    have "min (length xs) kMuxMaxDataFrameLength + (length xs - kMuxMaxDataFrameLength) = length xs" by simp
    then show ?thesis unfolding unf c using "1.IH" [OF False] by simp
  qed
qed

lemma encoded_length_eq:
  assumes "kMuxMaxDataFrameLength < n" "n \<le> UINT32_MAX"
  shows "muxTryComputeEncodedLength n open =
    (let total = n + 8 * (frame_count n + (if open then 1 else 0)) in if total \<le> UINT32_MAX then Some total else None)"
proof -
  let ?c = "frame_count n" and ?o = "if open then 1 else 0 :: nat"
  have "u64 (n + kMuxMaxDataFrameLength) = n + kMuxMaxDataFrameLength" using assms(2) by (simp add: mux_consts)
  then have f: "sub64 (u64 (n + kMuxMaxDataFrameLength)) 1 div kMuxMaxDataFrameLength = ?c"
    using assms by (simp add: frame_count_def mux_consts)
  have c: "?c \<noteq> 0" using frame_count_step [of n] assms(1) by simp
  have "?c \<le> n" unfolding frame_count_def kMuxMaxDataFrameLength_def using assms(1) by (simp add: div_le_mono mux_consts)
  then have b: "?c + ?o \<le> 4294967296" using assms(2) by simp
  have u: "u64 (?c + ?o) = ?c + ?o" "u64 ((?c + ?o) * 8) = (?c + ?o) * 8" "u64 (n + (?c + ?o) * 8) = n + (?c + ?o) * 8"
    using b assms(2) by (simp_all add: u64_id)
  show ?thesis
    unfolding muxTryComputeEncodedLength_def Let_def f if_not_P [OF c] kMuxFrameLength_def u
    by (auto simp: not_le mult.commute)
qed

section \<open>Writing frames\<close>

lemma appendFrameHeader_ok:
  assumes "sbuf_ok e" "curpos e + sb_len e + 8 \<le> sb_capacity e" "length h = 8"
  shows "appendFrameHeader e h = Some (sbuf_append e h)"
proof -
  have w: "sbufWriteAt e (sb_len e) h = Some (e\<lparr>sb_buf := take (curpos e + sb_len e) (sb_buf e) @ h @
      drop (curpos e + sb_len e + 8) (sb_buf e)\<rparr>)"
    using assms sbufWriteAt_eq [of e "sb_len e" h] sbuf_okD [OF assms(1)] by simp
  have u: "u32 (sb_len e + 8) = sb_len e + 8" using assms sbuf_okD [OF assms(1)] by simp
  show ?thesis
    using assms sbuf_okD [OF assms(1)]
    by (simp add: appendFrameHeader_def sbufGetLength_def w kMuxFrameLength_def u sbufSetLength_eq sbuf_append_def Let_def)
qed

lemma encodeLoop_ok:
  assumes "sbuf_ok e" "sbuf_ok i" "n = sb_len i"
    "curpos e + sb_len e + length (mux_bytes (mux_data_frames cid (payload i))) \<le> sb_capacity e"
  shows "\<exists>e' i'. encodeLoop cid e i n = Some (e', i') \<and> sbuf_ok e' \<and> sbuf_ok i' \<and> sb_len i' = 0 \<and>
    payload e' = payload e @ mux_bytes (mux_data_frames cid (payload i))"
  using assms
proof (induction n arbitrary: e i rule: less_induct)
  case (less n)
  have lp: "length (payload i) = n" using length_payload [OF less.prems(2)] less.prems(3) by simp
  show ?case
  proof (cases "n = 0")
    case True
    then have "mux_data_frames cid (payload i) = []" using lp by (subst mux_data_frames.simps) simp
    then show ?thesis using True less.prems by (subst encodeLoop.simps) auto
  next
    case False
    let ?c = "min n kMuxMaxDataFrameLength"
    let ?f = "\<lparr>mf_length = ?c, mf_cid = cid, mf_flags = kMuxFlagData\<rparr>"
    let ?b = "take kMuxMaxDataFrameLength (payload i)" and ?r = "drop kMuxMaxDataFrameLength (payload i)"
    have tc: "take ?c (payload i) = ?b" "drop ?c (payload i) = ?r" using lp by (simp_all add: min_def)
    have c: "0 < ?c" "?c \<le> n" "?c \<le> kMuxMaxDataFrameLength" using False by (auto simp: mux_consts)
    have unf: "mux_bytes (mux_data_frames cid (payload i)) = mux_hdr ?f @ ?b @ mux_bytes (mux_data_frames cid ?r)"
      using False lp by (subst mux_data_frames.simps) (auto simp: less.prems(3) [symmetric])
    have lb: "length ?b = ?c" using lp by (simp add: min.commute)
    have room: "curpos e + sb_len e + 8 + ?c + length (mux_bytes (mux_data_frames cid ?r)) \<le> sb_capacity e"
      using less.prems(4) unf lb by simp
    let ?e1 = "sbuf_append e (mux_hdr ?f)" and ?i = "sbuf_skip i ?c"
    let ?e2 = "sbuf_append ?e1 ?b"
    have h: "muxSetMuxFrameHeader ?c cid kMuxFlagData = Some (mux_hdr ?f)" using c(3) by (rule set_header)
    have a: "appendFrameHeader e (mux_hdr ?f) = Some ?e1" using room less.prems(1) by (intro appendFrameHeader_ok) auto
    have o1: "sbuf_ok ?e1" "payload ?e1 = payload e @ mux_hdr ?f" "sb_len ?e1 = sb_len e + 8" "curpos ?e1 = curpos e"
      "sb_capacity ?e1 = sb_capacity e"
      using sbuf_append_obs [OF less.prems(1), of "mux_hdr ?f"] room by auto
    have ci: "?c \<le> sb_len i" using c(2) less.prems(3) by simp
    have m: "sbufMoveTo ?e1 i ?c = Some (?e2, ?i)"
      using sbufMoveTo_eq [OF o1(1) less.prems(2) ci] o1 room tc by auto
    have o2: "sbuf_ok ?e2" "payload ?e2 = payload ?e1 @ ?b" "sb_len ?e2 = sb_len ?e1 + ?c" "curpos ?e2 = curpos ?e1"
      "sb_capacity ?e2 = sb_capacity ?e1"
      using sbuf_append_obs [OF o1(1), of ?b] room o1 lb by auto
    have i2: "sbuf_ok ?i" "payload ?i = ?r" "sb_len ?i = n - ?c"
      using sbuf_skip_obs [OF less.prems(2) ci] tc less.prems(3) by auto
    have "\<exists>e' i'. encodeLoop cid ?e2 ?i (n - ?c) = Some (e', i') \<and> sbuf_ok e' \<and> sbuf_ok i' \<and> sb_len i' = 0 \<and>
        payload e' = payload ?e2 @ mux_bytes (mux_data_frames cid (payload ?i))"
    proof (rule less.IH)
      show "n - ?c < n" using c(1) False by linarith
      show "curpos ?e2 + sb_len ?e2 + length (mux_bytes (mux_data_frames cid (payload ?i))) \<le> sb_capacity ?e2"
        unfolding i2(2) o2(3-5) o1(3-5) using room by linarith
    qed (simp_all only: o2(1) i2(1,3))
    then obtain e' i' where r: "encodeLoop cid ?e2 ?i (n - ?c) = Some (e', i')" "sbuf_ok e'" "sbuf_ok i'" "sb_len i' = 0"
        "payload e' = payload ?e2 @ mux_bytes (mux_data_frames cid (payload ?i))" by blast
    have "encodeLoop cid e i n = Some (e', i')"
      by (subst encodeLoop.simps) (simp only: False Let_def h a m r(1) Option.bind.bind_lunit prod.case if_True not_False_eq_True)
    moreover have "payload e' = payload e @ mux_bytes (mux_data_frames cid (payload i))"
      unfolding r(5) o2(2) o1(2) i2(2) unf by simp
    ultimately show ?thesis using r(2-4) by blast
  qed
qed

text \<open>The frames of one encoded payload. An empty payload is one empty data frame.\<close>

definition mux_frames :: "nat \<Rightarrow> bool \<Rightarrow> byte list \<Rightarrow> (mux_frame \<times> byte list) list" where
  "mux_frames cid open xs =
     (if open then [(\<lparr>mf_length = 0, mf_cid = cid, mf_flags = kMuxFlagOpen\<rparr>, [])] else []) @
     (if xs = [] then [(\<lparr>mf_length = 0, mf_cid = cid, mf_flags = kMuxFlagData\<rparr>, [])] else mux_data_frames cid xs)"

lemma mux_frames_ok:
  assumes "cid \<le> UINT32_MAX"
  shows "\<forall>x\<in>set (mux_frames cid open xs). frame_ok x" "concat (map snd (mux_frames cid open xs)) = xs"
  using data_frames_ok [OF assms, of xs] assms by (auto simp: mux_frames_def frame_ok_def)

lemma mux_frames_small:
  assumes "length xs \<le> kMuxMaxDataFrameLength"
  shows "mux_bytes (mux_frames cid open xs) =
    (if open then mux_hdr \<lparr>mf_length = 0, mf_cid = cid, mf_flags = kMuxFlagOpen\<rparr> else []) @
    mux_hdr \<lparr>mf_length = length xs, mf_cid = cid, mf_flags = kMuxFlagData\<rparr> @ xs"
proof (cases "xs = []")
  case False
  have "mux_data_frames cid [] = []" by (subst mux_data_frames.simps) simp
  then have "mux_data_frames cid xs = [(\<lparr>mf_length = length xs, mf_cid = cid, mf_flags = kMuxFlagData\<rparr>, xs)]"
    using False assms by (subst mux_data_frames.simps) simp
  then show ?thesis using False by (simp add: mux_frames_def)
qed (simp add: mux_frames_def)

lemma write_two:
  assumes "curpos b + length xs + length ys \<le> length (sb_buf b)"
  shows "do { c \<leftarrow> sbufWrite b xs; sbufWriteAt c (length xs) ys } = sbufWrite b (xs @ ys)"
  using assms by (simp add: sbufWrite_def sbufWriteAt_eq ac_simps)

lemma muxMakeMuxFrame_ok:
  assumes "sbuf_ok b" "sb_len b \<le> kMuxMaxDataFrameLength" "8 \<le> curpos b"
  shows "\<exists>d. muxMakeMuxFrame b cid flag = Some d \<and> sbuf_ok d \<and>
    payload d = mux_hdr \<lparr>mf_length = sb_len b, mf_cid = cid, mf_flags = flag\<rparr> @ payload b"
  using sbuf_prepend [OF assms(1), of "mux_hdr \<lparr>mf_length = sb_len b, mf_cid = cid, mf_flags = flag\<rparr>"] assms(2,3)
  by (auto simp: muxMakeMuxFrame_def sbufGetLength_def set_header kMuxFrameLength_def)

lemma muxMakeMuxOpenDataFrames_ok:
  assumes "sbuf_ok b" "sb_len b \<le> kMuxMaxDataFrameLength" "16 \<le> curpos b"
  shows "\<exists>d. muxMakeMuxOpenDataFrames b cid = Some d \<and> sbuf_ok d \<and>
    payload d = mux_hdr \<lparr>mf_length = 0, mf_cid = cid, mf_flags = kMuxFlagOpen\<rparr> @
      mux_hdr \<lparr>mf_length = sb_len b, mf_cid = cid, mf_flags = kMuxFlagData\<rparr> @ payload b"
proof -
  let ?o = "mux_hdr \<lparr>mf_length = 0, mf_cid = cid, mf_flags = kMuxFlagOpen\<rparr>"
    and ?d = "mux_hdr \<lparr>mf_length = sb_len b, mf_cid = cid, mf_flags = kMuxFlagData\<rparr>"
  have h: "muxSetMuxFrameHeader 0 cid kMuxFlagOpen = Some ?o" "muxSetMuxFrameHeader (sb_len b) cid kMuxFlagData = Some ?d"
    using assms(2) by (simp_all add: set_header)
  have l: "length (?o @ ?d) = 16" by simp
  obtain c d where c: "sbufShiftLeft b 16 = Some c" "sbufWrite c (?o @ ?d) = Some d" "sbuf_ok d" "payload d = (?o @ ?d) @ payload b"
    using sbuf_prepend [OF assms(1), of "?o @ ?d"] assms(3) unfolding l by blast
  have "c = b\<lparr>curpos := curpos b - 16, sb_len := sb_len b + 16\<rparr>" using c(1) sbufShiftLeft_eq [OF assms(1,3)] by simp
  then have "curpos c + length ?o + length ?d \<le> length (sb_buf c)" using assms(3) sbuf_okD [OF assms(1)] by simp
  from write_two [OF this] have w: "do { x \<leftarrow> sbufWrite c ?o; sbufWriteAt x 8 ?d } = Some d" using c(2) by simp
  have "muxMakeMuxOpenDataFrames b cid = do { x \<leftarrow> sbufWrite c ?o; sbufWriteAt x 8 ?d }"
    using assms(2) h c(1) by (simp add: muxMakeMuxOpenDataFrames_def sbufGetLength_def kMuxFrameLength_def Let_def)
  then show ?thesis using w c(3,4) by simp
qed

lemma encode_small:
  assumes "sbuf_ok b" "sb_len b \<le> kMuxMaxDataFrameLength" "16 \<le> curpos b"
  shows "\<exists>e. muxEncodeChildPayload p b cid open = Some (MuxEncodeSuccess, Some e, p) \<and> sbuf_ok e \<and>
    payload e = mux_bytes (mux_frames cid open (payload b))"
proof -
  have l: "length (payload b) = sb_len b" by (rule length_payload [OF assms(1)])
  have eight: "8 \<le> curpos b" using assms(3) by simp
  show ?thesis
    using muxMakeMuxFrame_ok [OF assms(1,2) eight, of cid kMuxFlagData] muxMakeMuxOpenDataFrames_ok [OF assms, of cid]
      mux_frames_small [of "payload b" cid "open"] assms(2) l
    by (cases "open") (auto simp: muxEncodeChildPayload_def sbufGetLength_def)
qed

lemma encode_large:
  fixes "open" :: bool
  defines "o' \<equiv> (if open then 1 else 0 :: nat)"
  assumes b: "sbuf_ok b" "kMuxMaxDataFrameLength < sb_len b" and p: "pool_ok p"
    and tot: "total_len = sb_len b + 8 * (frame_count (sb_len b) + o')"
  shows "if total_len \<le> UINT32_MAX \<and> sbuf_fits total_len (tier_padding (bp_large p))
    then \<exists>e q. muxEncodeChildPayload p b cid open = Some (MuxEncodeSuccess, Some e, q) \<and> sbuf_ok e \<and> pool_ok q \<and>
      payload e = mux_bytes (mux_frames cid open (payload b))
    else \<exists>q. muxEncodeChildPayload p b cid open = Some (MuxEncodeLengthOverflow, None, q) \<and> pool_ok q"
proof -
  let ?n = "sb_len b"
  have n: "?n \<le> UINT32_MAX" "\<not> ?n \<le> kMuxMaxDataFrameLength" "\<not> sbufIsSplice b" using sbuf_okD [OF b(1)] b by auto
  have enc: "muxTryComputeEncodedLength ?n open = (if total_len \<le> UINT32_MAX then Some total_len else None)"
    using encoded_length_eq [OF b(2) n(1), of "open"] by (simp add: tot o'_def Let_def)
  obtain e q where e: "bufferpoolGetLargeBuffer p = Some (e, q)" "tier_buf (bp_large p) e" "pool_ok q"
    using get_gives(1) [OF p] by (auto simp: gives_def)
  have idle: "sbuf_ok e" "l_pad e = tier_padding (bp_large p)" "sb_len e = 0" "payload e = []" "l_pad e \<le> UINT16_MAX"
    using e(2) sbuf_okD [of e] by (auto simp: tier_buf_def idle_buf_def payload_def)
  obtain p1 where p1: "bufferpoolReuseBuffer p b = Some p1" "pool_ok p1" using reuse_ok [OF p b(1)] by blast
  obtain q1 q2 where q: "bufferpoolReuseBuffer q e = Some q1" "pool_ok q1" "bufferpoolReuseBuffer q1 b = Some q2" "pool_ok q2"
    using reuse_ok [OF e(3) idle(1)] reuse_ok [OF _ b(1)] by metis
  have cap: "sbufTryComputeCapacity total_len (l_pad e) =
      (if sbuf_fits total_len (tier_padding (bp_large p)) then Some (round_up 64 total_len + round_up 32 (l_pad e)) else None)"
    using sbufTryComputeCapacity_eq [OF idle(5), of total_len] idle(2) by simp
  show ?thesis
  proof (cases "total_len \<le> UINT32_MAX \<and> sbuf_fits total_len (tier_padding (bp_large p))")
    case False
    then show ?thesis
      using n enc p1 q e(1) cap
      by (auto simp: muxEncodeChildPayload_def sbufGetLength_def sbufGetLeftPadding_def Let_def)
  next
    case True
    obtain d where d: "sbufReserveSpace e total_len = Some d" "sbuf_ok d" "payload d = []" "sb_len d = 0"
      "total_len \<le> sb_capacity d - curpos d"
      using sbufReserveSpace_cases [OF idle(1), of total_len] True idle(2-4) by auto
    have set0: "sbufSetLength d 0 = Some d" using sbufSetLength_eq [of d 0] sbuf_okD [OF d(2)] d(4) by simp
    let ?f = "\<lparr>mf_length = 0, mf_cid = cid, mf_flags = kMuxFlagOpen\<rparr>"
    define d' where "d' = (if open then sbuf_append d (mux_hdr ?f) else d)"
    have room: "curpos d + total_len \<le> sb_capacity d" using d(5) sbuf_okD [OF d(2)] by simp
    have t8: "open \<Longrightarrow> 8 \<le> total_len" by (simp add: tot o'_def)
    have d1: "(if open then do { open_frame \<leftarrow> muxSetMuxFrameHeader 0 cid kMuxFlagOpen; appendFrameHeader d open_frame } else Some d) = Some d'"
      using appendFrameHeader_ok [OF d(2), of "mux_hdr ?f"] room t8 d(4) by (auto simp: d'_def set_header)
    have d2: "sbuf_ok d'" "payload d' = (if open then mux_hdr ?f else [])" "sb_len d' = 8 * o'" "curpos d' = curpos d" "sb_capacity d' = sb_capacity d"
      using sbuf_append_obs [OF d(2), of "mux_hdr ?f"] room t8 d(2-4) by (auto simp: d'_def o'_def)
    have lp: "length (payload b) = ?n" by (rule length_payload [OF b(1)])
    have fit: "curpos d' + sb_len d' + length (mux_bytes (mux_data_frames cid (payload b))) \<le> sb_capacity d'"
      unfolding d2 length_data_frames lp using room by (simp add: tot)
    obtain e' i' where l: "encodeLoop cid d' b ?n = Some (e', i')" "sbuf_ok e'" "sbuf_ok i'" "sb_len i' = 0"
      "payload e' = payload d' @ mux_bytes (mux_data_frames cid (payload b))"
      using encodeLoop_ok [OF d2(1) b(1) refl fit] by blast
    have ne: "payload b \<noteq> []" using lp b(2) by auto
    have pe: "payload e' = mux_bytes (mux_frames cid open (payload b))"
      using l(5) d2(2) ne by (simp add: mux_frames_def)
    have "length (payload e') = total_len" unfolding l(5) d2(2) by (simp add: length_data_frames lp tot o'_def)
    then have le: "sb_len e' = total_len" using length_payload [OF l(2)] by simp
    obtain q3 where q3: "bufferpoolReuseBuffer q i' = Some q3" "pool_ok q3" using reuse_ok [OF e(3) l(3)] by blast
    have "muxEncodeChildPayload p b cid open = Some (MuxEncodeSuccess, Some e', q3)"
      unfolding muxEncodeChildPayload_def sbufGetLength_def sbufGetLeftPadding_def Let_def if_not_P [OF n(2)]
      using n(3) enc True e(1) cap d(1) set0 d1 l(1,4) q3(1) le by simp
    then show ?thesis using True l(2) q3(2) pe by auto
  qed
qed

section \<open>Properties\<close>

text \<open>C16. The encoder is correct for every payload: it never aborts given sixteen bytes of padding, and
  what it writes parses back as the frames of the channel, an open frame first when asked, then data
  frames of at most one MiB whose bodies concatenate to the payload. It reports overflow exactly for a
  payload above one frame whose encoding no buffer of the pool's padding can hold.\<close>

theorem mux_encode_roundtrip:
  assumes "sbuf_ok input" "pool_ok pool" "cid \<le> UINT32_MAX" "16 \<le> curpos input"
    "total_len = sb_len input + 8 * (frame_count (sb_len input) + (if prepend_open then 1 else 0))"
  shows "\<exists>res enc pool'. muxEncodeChildPayload pool input cid prepend_open = Some (res, enc, pool') \<and> pool_ok pool' \<and>
    (if sb_len input \<le> kMuxMaxDataFrameLength \<or> total_len \<le> UINT32_MAX \<and> sbuf_fits total_len (tier_padding (bp_large pool))
     then res = MuxEncodeSuccess \<and> (\<exists>e. enc = Some e \<and> sbuf_ok e \<and>
       mux_parse (payload e) = Some (mux_frames cid prepend_open (payload input)) \<and>
       concat (map snd (mux_frames cid prepend_open (payload input))) = payload input)
     else res = MuxEncodeLengthOverflow \<and> enc = None)"
proof (cases "sb_len input \<le> kMuxMaxDataFrameLength")
  case True
  note parse = mux_parse_bytes [OF mux_frames_ok(1) [OF assms(3)], of prepend_open "payload input"]
  show ?thesis
    using encode_small [OF assms(1) True assms(4), of pool cid prepend_open] parse True assms(2)
      mux_frames_ok(2) [OF assms(3)] by auto
next
  case False
  note parse = mux_parse_bytes [OF mux_frames_ok(1) [OF assms(3)], of prepend_open "payload input"]
  have big: "kMuxMaxDataFrameLength < sb_len input" using False by simp
  show ?thesis
    using encode_large [OF assms(1) big assms(2,5), of cid] parse False mux_frames_ok(2) [OF assms(3)]
    by (auto split: if_splits)
qed

theorem mux_encode_roundtrip_witness:
  "\<exists>e pool'. muxEncodeChildPayload sample_pool (sbuf_append sbuf_sample [104, 105]) 7 True =
      Some (MuxEncodeSuccess, Some e, pool') \<and> mux_parse (payload e) = Some (mux_frames 7 True [104, 105])"
proof -
  let ?b = "sbuf_append sbuf_sample [104, 105]"
  have o: "sbuf_ok ?b" "payload ?b = [104, 105]" "sb_len ?b = 2" "curpos ?b = 32"
    using sbuf_append_obs [OF sbuf_sample_ok, of "[104, 105]"] payload_sample by (simp_all add: sbuf_sample_def)
  have "(7 :: nat) \<le> UINT32_MAX" "16 \<le> curpos ?b" using o(4) by simp_all
  from mux_encode_roundtrip [OF o(1) sample_pool_ok this refl, of True] show ?thesis
    by (auto simp: o kMuxMaxDataFrameLength_def)
qed

end
