(* ===== verification/Websocket_Laws.thy ===== *)
theory Websocket_Laws
  imports Websocket
begin

text \<open>
  What the client and the server write, the shared decoder reads back: for any sequence of
  frames the decoder reports exactly their control payloads and, cut into slices, their data.
\<close>

section \<open>Header bytes\<close>

lemma head0_facts:
  assumes "httpWebSocketOpcodeIsSupported op"
  shows "(128 OR (op AND 15)) AND 128 \<noteq> (0 :: byte)" "(128 OR (op AND 15)) AND 15 = op"
    "(op AND 8 \<noteq> 0) = (op = 8 \<or> op = 9 \<or> op = 10)"
  using assms by (auto simp: httpWebSocketOpcodeIsSupported_def)

lemma low7: "n < 128 \<Longrightarrow> unat ((word_of_nat n :: byte) AND 127) = n"
proof -
  assume n: "n < 128"
  have "n AND 127 = n" using take_bit_nat_eq_self [of n 7] n by (simp add: take_bit_eq_mask mask_eq_exp_minus_1)
  then show ?thesis using n by (simp add: unsigned_and_eq unat_of_nat take_bit_eq_mod)
qed

lemma high_bit_clear: "n < 128 \<Longrightarrow> (word_of_nat n :: byte) AND 128 = 0"
proof -
  assume n: "n < 128"
  have "n AND 128 = 0" using and_exp_eq_0_iff_not_bit [of n 7] n by (simp add: bit_iff_odd)
  then show ?thesis using n
    by (intro word_unat_eq_iff [THEN iffD2]) (simp add: unsigned_and_eq unat_of_nat take_bit_eq_mod)
qed

lemma head1_facts:
  assumes "n < 128"
  shows "((if masked then 128 else 0) OR word_of_nat n :: byte) AND 128 \<noteq> 0 \<longleftrightarrow> masked"
    "unat (((if masked then 128 else 0) OR word_of_nat n :: byte) AND 127) = n"
proof -
  have "((128 :: byte) OR word_of_nat n) AND 128 = 128" by (rule bit_word_eqI) (auto simp: bit_simps)
  then show "((if masked then 128 else 0) OR word_of_nat n :: byte) AND 128 \<noteq> 0 \<longleftrightarrow> masked"
    using high_bit_clear [OF assms] by simp
  have "((128 :: byte) OR word_of_nat n) AND 127 = word_of_nat n AND 127"
    by (simp add: bit.conj_disj_distrib2)
  then show "unat (((if masked then 128 else 0) OR word_of_nat n :: byte) AND 127) = n"
    using low7 [OF assms] by simp
qed

lemma be64_step: "m \<le> UINT64_MAX \<Longrightarrow> u64 (m div 256 * 256) + unat (word_of_nat m :: byte) = m"
proof -
  assume m: "m \<le> UINT64_MAX"
  have "m div 256 * 256 \<le> m" by simp
  then have "u64 (m div 256 * 256) = m div 256 * 256" using m by (intro u64_id) linarith
  then show ?thesis by (simp add: unat_word8_of_nat)
qed

lemma be64_value:
  assumes "n \<le> UINT64_MAX"
  shows "foldl (\<lambda>l b. u64 (l * 256) + unat b) 0 (ws_be64 n) = n"
proof -
  define a where "a k = n div 2 ^ k" for k :: nat
  have s: "u64 (a (k + 8) * 256) + unat (word_of_nat (a k) :: byte) = a k" for k
  proof -
    have "a (k + 8) = a k div 256" by (simp add: a_def div_mult2_eq [symmetric] power_add)
    moreover have "a k \<le> UINT64_MAX" unfolding a_def using div_le_dividend [of n "2 ^ k"] assms by (rule order.trans)
    ultimately show ?thesis using be64_step by simp
  qed
  have z: "a 64 = 0" "a 0 = n" using assms by (simp_all add: a_def)
  have "ws_be64 n = map (\<lambda>k. word_of_nat (a k)) [56, 48, 40, 32, 24, 16, 8, 0]" by (simp add: ws_be64_def a_def)
  moreover have "0 = a (56 + 8)" using z(1) by simp
  ultimately show ?thesis
    using s [of 56] s [of 48] s [of 40] s [of 32] s [of 24] s [of 16] s [of 8] s [of 0] z by simp
qed

text \<open>One description of both headers.\<close>

definition ws_header :: "bool \<Rightarrow> byte \<Rightarrow> nat \<Rightarrow> byte list \<Rightarrow> byte list" where
  "ws_header masked op n key =
     [128 OR (op AND 15)] @
     (let m = (if masked then 128 else 0) in
      if n \<le> 125 then [m OR word_of_nat n]
      else if n \<le> 65535 then [m OR word_of_nat 126, word_of_nat (n div 256), word_of_nat n]
      else (m OR word_of_nat 127) # ws_be64 n) @
     (if masked then take 4 key else [])"

lemma ws_header_eq:
  "httpclientBuildWebSocketHeader op n key = ws_header True op n key"
  "httpserverBuildWebSocketHeader op n = ws_header False op n key"
  by (simp_all add: ws_header_def httpclientBuildWebSocketHeader_def httpserverBuildWebSocketHeader_def Let_def)

lemma length_be64 [simp]: "length (ws_be64 n) = 8"
  by (simp add: ws_be64_def)

section \<open>Masking\<close>

lemma length_mask_loop [simp]: "length (mask_loop key i xs) = length xs"
  by (induction xs arbitrary: i) simp_all

lemma mask_loop_twice: "mask_loop key i (mask_loop key i xs) = xs"
  by (induction xs arbitrary: i) (simp_all add: xor.assoc)

lemma mask_loop_mod: "mask_loop key (i mod 4) xs = mask_loop key i xs"
proof (induction xs arbitrary: i)
  case (Cons x xs)
  have "mask_loop key (i mod 4 + 1) xs = mask_loop key ((i mod 4 + 1) mod 4) xs" using Cons.IH by simp
  also have "(i mod 4 + 1) mod 4 = (i + 1) mod 4" by (rule mod_add_left_eq)
  finally show ?case using Cons.IH by simp
qed simp

lemma mask_loop_append: "mask_loop key i (xs @ ys) = mask_loop key i xs @ mask_loop key (i + length xs) ys"
  by (induction xs arbitrary: i) simp_all

lemma take_mask_loop: "take n (mask_loop key i xs) = mask_loop key i (take n xs)"
  by (induction xs arbitrary: i n) (auto simp: take_Cons')

definition ws_wire :: "bool \<Rightarrow> byte list \<Rightarrow> nat \<Rightarrow> byte list \<Rightarrow> byte list" where
  "ws_wire masked key i xs = (if masked then mask_loop key i xs else xs)"

lemma length_ws_wire [simp]: "length (ws_wire masked key i xs) = length xs"
  by (simp add: ws_wire_def)

lemma ws_wire_split:
  assumes "n \<le> length xs"
  shows "ws_wire masked key i xs = ws_wire masked key i (take n xs) @ ws_wire masked key ((i + n) mod 4) (drop n xs)"
  using mask_loop_append [of key i "take n xs" "drop n xs"] assms
  by (simp add: ws_wire_def mask_loop_mod min_def)

context sbuf_deque
begin

lemma view_at:
  assumes "stream_ok D s" "stream_bytes D s = xs @ ys @ zs" "at = length xs" "n = length ys" "0 < n"
  shows "bufferstreamViewBytesAt D s at n = Some ys"
proof -
  have "at + n \<le> bs_size s" using assms by (simp add: stream_ok_def)
  from viewBytesAt_ok [OF assms(1,5) this] show ?thesis using assms by simp
qed

lemma readHeader_ok:
  assumes s: "stream_ok D s" "pool_ok p" "bs_size s \<le> STREAM_SAFE_MAX"
    and bytes: "stream_bytes D s = ws_header masked op n key @ rest"
    and op: "httpWebSocketOpcodeIsSupported op" and key: "length key = 4"
    and n: "n \<le> UINT32_MAX" "op AND 8 \<noteq> 0 \<Longrightarrow> n \<le> 125"
  shows "\<exists>s' p'. wsReadHeader D masked s p = Some (Inr (\<lparr>ws_remaining = n,
      ws_mask_key = (if masked then key else [0, 0, 0, 0]), ws_mask_offset = 0, ws_opcode = op, ws_active = True,
      ws_masked = masked\<rparr>, s', p', length rest)) \<and>
    stream_ok D s' \<and> pool_ok p' \<and> stream_bytes D s' = rest"
proof -
  let ?m = "if masked then 128 else 0 :: byte" and ?b0 = "128 OR (op AND 15)"
  let ?k = "if masked then key else []"
  define e :: "nat \<times> byte list" where "e = (if n \<le> 125 then (n, []) else if n \<le> 65535 then (126, [word_of_nat (n div 256), word_of_nat n])
    else (127, ws_be64 n))"
  have hdr: "stream_bytes D s = [?b0, ?m OR word_of_nat (fst e)] @ snd e @ ?k @ rest"
    using bytes key by (auto simp: ws_header_def e_def Let_def)
  have e7: "fst e < 128" by (simp add: e_def)
  have size: "bs_size s = 2 + length (snd e) + length ?k + length rest" using s(1) hdr by (simp add: stream_ok_def)
  have v2: "bufferstreamViewBytesAt D s 0 2 = Some [?b0, ?m OR word_of_nat (fst e)]"
    using view_at [OF s(1), of "[]" "[?b0, ?m OR word_of_nat (fst e)]" "snd e @ ?k @ rest" 0 2] hdr by simp
  have ext: "wsExtendedLength D s (bs_size s) (fst e) = Some (Some (n, 2 + length (snd e)))"
  proof -
    have v: "bufferstreamViewBytesAt D s 2 (length (snd e)) = Some (snd e)" if "snd e \<noteq> []"
      using view_at [OF s(1) hdr, of 2 "length (snd e)"] that by simp
    consider "n \<le> 125" | "125 < n" "n \<le> 65535" | "65535 < n" by linarith
    then show ?thesis
    proof cases
      case 1
      then show ?thesis by (simp add: wsExtendedLength_def e_def)
    next
      case 2
      then have e: "e = (126, [word_of_nat (n div 256), word_of_nat n])" by (simp add: e_def)
      have "bufferstreamViewBytesAt D s 2 2 = Some [word_of_nat (n div 256), word_of_nat n]"
        using v by (simp add: e numeral_2_eq_2)
      moreover have "unat (word_of_nat (n div 256) :: byte) * 256 + unat (word_of_nat n :: byte) = n"
        using be16_bytes [of n] 2 by (simp add: be16_def)
      ultimately show ?thesis using size by (simp add: wsExtendedLength_def e)
    next
      case 3
      then have e: "e = (127, ws_be64 n)" by (simp add: e_def)
      have "ws_be64 n \<noteq> []" by (simp add: ws_be64_def)
      then have "bufferstreamViewBytesAt D s 2 8 = Some (ws_be64 n)" using v by (simp add: e)
      moreover have "foldl (\<lambda>l b. u64 (l * 256) + unat b) 0 (ws_be64 n) = n" using n(1) by (intro be64_value) simp
      ultimately show ?thesis using size by (simp add: wsExtendedLength_def e)
    qed
  qed
  have key4: "bufferstreamViewBytesAt D s (2 + length (snd e)) 4 = Some key" if masked
    using view_at [OF s(1), of "[?b0, ?m OR word_of_nat (fst e)] @ snd e" key rest "2 + length (snd e)" 4] hdr key that by simp
  let ?h = "2 + length (snd e) + (if masked then 4 else 0)"
  have hk: "?h = 2 + length (snd e) + length ?k" using key by simp
  obtain r s' p' q where r: "bufferstreamReadExact D s p ?h = Some (r, s', p')" "bufferpoolReuseBuffer p' r = Some q"
    "stream_ok D s'" "pool_ok q" "stream_bytes D s' = drop ?h (stream_bytes D s)"
    using discard_ok [OF s(1,2) _ _ s(3), of ?h] size hk by auto
  have rest: "stream_bytes D s' = rest" unfolding r(5) hdr hk by simp
  have len: "\<not> n > UINT32_MAX" "\<not> (op AND 8 \<noteq> 0 \<and> n > 125)" using n by auto
  have "wsReadHeader D masked s p = Some (Inr (\<lparr>ws_remaining = n,
      ws_mask_key = (if masked then key else [0, 0, 0, 0]), ws_mask_offset = 0, ws_opcode = op, ws_active = True,
      ws_masked = masked\<rparr>, s', q, length rest))"
    using size hk v2 head0_facts [OF op] head1_facts [OF e7, of masked] op ext len key4 r(1,2)
    by (cases masked) (auto simp: wsReadHeader_def bufferstreamGetBufLen_def Let_def)
  then show ?thesis using r(3,4) rest by blast
qed

end

section \<open>Bodies\<close>

lemma wsUnmask_ok:
  assumes "sbuf_ok b" "length (payload b) = n"
  shows "\<exists>d. wsUnmask st b n = Some d \<and> sbuf_ok d \<and> payload d = mask_loop (ws_mask_key st) (ws_mask_offset st) (payload b)"
proof -
  have n: "sb_len b = n" using length_payload [OF assms(1)] assms(2) by simp
  have r: "sbufRead b n = Some (payload b)" using sbufRead_eq [OF assms(1), of n] n assms(2) by simp
  show ?thesis
    using sbuf_write_whole [OF assms(1), of "mask_loop (ws_mask_key st) (ws_mask_offset st) (payload b)"] n assms(2)
    by (auto simp: wsUnmask_def r)
qed

definition ws_state :: "bool \<Rightarrow> byte \<Rightarrow> byte list \<Rightarrow> nat \<Rightarrow> nat \<Rightarrow> http_websocket_decoder" where
  "ws_state masked op key i n = \<lparr>ws_remaining = n, ws_mask_key = (if masked then key else [0, 0, 0, 0]), ws_mask_offset = i,
     ws_opcode = op, ws_active = True, ws_masked = masked\<rparr>"

definition ws_result :: "byte \<Rightarrow> http_websocket_result" where
  "ws_result op = (if op = 8 then HttpWebSocketClose else if op = 9 then HttpWebSocketPing
     else if op = 10 then HttpWebSocketPong else HttpWebSocketData)"

context sbuf_deque
begin

text \<open>Taking a nonempty part of the body of an active frame.\<close>

lemma readBody_part:
  assumes s: "stream_ok D s" "pool_ok p" "bs_size s \<le> STREAM_SAFE_MAX"
    and bytes: "stream_bytes D s = ws_wire masked key i body @ rest" "body \<noteq> []" "length body \<le> UINT32_MAX"
    and op: "httpWebSocketOpcodeIsSupported op" and i: "i < 4"
    and n: "n = (if op AND 8 \<noteq> 0 then length body else min (length body) 16384)"
  shows "\<exists>b s' p'. wsReadBody D (ws_state masked op key i (length body)) s p (bs_size s) =
      Some (Some (ws_result op, Some b),
        if n = length body then http_websocket_zero
        else ws_state masked op key (if masked then (i + n) mod 4 else i) (length body - n), s', p') \<and>
    sbuf_ok b \<and> payload b = take n body \<and> stream_ok D s' \<and> pool_ok p' \<and>
    stream_bytes D s' = ws_wire masked key (if masked then (i + n) mod 4 else i) (drop n body) @ rest"
proof -
  let ?st = "ws_state masked op key i (length body)" and ?i = "if masked then (i + n) mod 4 else i"
  have n1: "0 < n" "n \<le> length body" using bytes(2) n by (auto split: if_splits)
  have size: "bs_size s = length body + length rest" using s(1) bytes(1) by (simp add: stream_ok_def)
  have ns: "n \<le> bs_size s" using n1 size by simp
  obtain r s' p' where r: "bufferstreamReadExact D s p n = Some (r, s', p')" "sbuf_ok r" "stream_ok D s'"
    "payload r = take n (stream_bytes D s)" "stream_bytes D s' = drop n (stream_bytes D s)" "pool_ok p'"
    using readExact_ok [OF s(1,2) n1(1) ns s(3)] by blast
  have split: "ws_wire masked key i body = ws_wire masked key i (take n body) @ ws_wire masked key ?i (drop n body)"
    using ws_wire_split [OF n1(2), of masked key i] by (auto simp: ws_wire_def)
  have lt: "length (take n body) = n" using n1(2) by simp
  have pr: "payload r = ws_wire masked key i (take n body)" "stream_bytes D s' = ws_wire masked key ?i (drop n body) @ rest"
    unfolding r(4,5) bytes(1) split using lt by simp_all
  obtain b where b: "(if masked then wsUnmask ?st r n else Some r) = Some b" "sbuf_ok b" "payload b = take n body"
  proof (cases masked)
    case True
    have "length (payload r) = n" using pr(1) lt by simp
    from wsUnmask_ok [OF r(2) this, of ?st] obtain d where
      "wsUnmask ?st r n = Some d" "sbuf_ok d" "payload d = mask_loop key i (payload r)"
      using True by (auto simp: ws_state_def)
    then show ?thesis using that True pr(1) by (simp add: ws_wire_def mask_loop_twice)
  next
    case False
    then show ?thesis using that r(2) pr(1) by (simp add: ws_wire_def)
  qed
  have nn: "(if op AND 8 \<noteq> 0 then length body else u32 (min (min (length body) kHttpWebSocketBodySliceBytes) (bs_size s))) = n"
    using n size bytes(3) by (simp add: kHttpWebSocketBodySliceBytes_def)
  have guard: "\<not> (op AND 8 \<noteq> 0 \<and> bs_size s < length body \<or> \<not> op AND 8 \<noteq> 0 \<and> length body \<noteq> 0 \<and> bs_size s = 0)"
    using size bytes(2) by simp
  have left: "sub32 (length body) n = length body - n" using n1(2) bytes(3) by simp
  have st: "ws_opcode ?st = op" "ws_remaining ?st = length body" "ws_masked ?st = masked" by (simp_all add: ws_state_def)
  have st2: "ws_opcode (ws_state masked op key ?i (length body - n)) = op"
    "ws_remaining (ws_state masked op key ?i (length body - n)) = length body - n" by (simp_all add: ws_state_def)
  have z: "(length body - n = 0) = (n = length body)" using n1(2) by auto
  have upd: "(if masked then ?st\<lparr>ws_mask_offset := (ws_mask_offset ?st + n) mod 4\<rparr> else ?st)
      \<lparr>ws_remaining := sub32 (ws_remaining (if masked then ?st\<lparr>ws_mask_offset := (ws_mask_offset ?st + n) mod 4\<rparr> else ?st)) n\<rparr> =
       ws_state masked op key ?i (length body - n)"
    using left by (simp add: ws_state_def)
  have nz: "(0 < n) = True" using n1(1) by simp
  have "wsReadBody D ?st s p (bs_size s) = Some (Some (ws_result op, Some b),
      if n = length body then http_websocket_zero else ws_state masked op key ?i (length body - n), s', p')"
    unfolding wsReadBody_def Let_def st if_not_P [OF guard] nn nz if_True r(1) Option.bind.bind_lunit prod.case b(1) upd st2 z
    by (simp add: ws_result_def)
  then show ?thesis using b(2,3) r(3,6) pr(2) by blast
qed

lemma readBody_empty:
  assumes "httpWebSocketOpcodeIsSupported op"
  shows "wsReadBody D (ws_state masked op key i 0) s p available =
    Some (if op AND 8 \<noteq> 0 then Some (ws_result op, None) else None, http_websocket_zero, s, p)"
  using head0_facts(3) [OF assms]
  by (auto simp: wsReadBody_def ws_state_def ws_result_def Let_def)

lemma step_active:
  assumes "wsReadBody D (ws_state masked op key i n) s p (bs_size s) = Some (Some r, st, s', p')"
  shows "httpWebSocketDecoderStep D em (ws_state masked op key i n) s p = Some (r, st, s', p')"
  using assms by (subst httpWebSocketDecoderStep.simps) (simp add: wsIteration_def ws_state_def bufferstreamGetBufLen_def)

lemma step_skip:
  assumes "wsReadBody D (ws_state masked op key i n) s p (bs_size s) = Some (None, st, s', p')"
  shows "httpWebSocketDecoderStep D em (ws_state masked op key i n) s p = httpWebSocketDecoderStep D em st s' p'"
  using assms by (subst httpWebSocketDecoderStep.simps) (simp add: wsIteration_def ws_state_def bufferstreamGetBufLen_def)

lemma step_header:
  assumes s: "stream_ok D s" "pool_ok p" "bs_size s \<le> STREAM_SAFE_MAX"
    and bytes: "stream_bytes D s = ws_header masked op n key @ rest"
    and op: "httpWebSocketOpcodeIsSupported op" and key: "length key = 4"
    and n: "n \<le> UINT32_MAX" "op AND 8 \<noteq> 0 \<Longrightarrow> n \<le> 125"
  shows "\<exists>s' p'. httpWebSocketDecoderStep D masked http_websocket_zero s p =
      httpWebSocketDecoderStep D masked (ws_state masked op key 0 n) s' p' \<and>
    stream_ok D s' \<and> pool_ok p' \<and> stream_bytes D s' = rest \<and> bs_size s' \<le> bs_size s"
proof -
  obtain s' p' where h: "wsReadHeader D masked s p = Some (Inr (ws_state masked op key 0 n, s', p', length rest))"
    "stream_ok D s'" "pool_ok p'" "stream_bytes D s' = rest"
    using readHeader_ok [OF s bytes op key n] by (auto simp: ws_state_def)
  have size: "bs_size s' = length rest" "bs_size s = length (stream_bytes D s)" using h(2,4) s(1) by (simp_all add: stream_ok_def)
  have "wsIteration D masked http_websocket_zero s p = wsIteration D masked (ws_state masked op key 0 n) s' p'"
    using h(1) size by (simp add: wsIteration_def http_websocket_zero_def ws_state_def bufferstreamGetBufLen_def)
  then have "httpWebSocketDecoderStep D masked http_websocket_zero s p =
      httpWebSocketDecoderStep D masked (ws_state masked op key 0 n) s' p'"
    by (subst (1 2) httpWebSocketDecoderStep.simps) simp
  moreover have "bs_size s' \<le> bs_size s" using size bytes by simp
  ultimately show ?thesis using h(2-4) by blast
qed

end

section \<open>Sequences of frames\<close>

function ws_slices :: "byte list \<Rightarrow> byte list list" where
  "ws_slices xs = (if xs = [] then [] else take 16384 xs # ws_slices (drop 16384 xs))"
  by pat_completeness auto
termination by (relation "measure length") auto

declare ws_slices.simps [simp del]

record ws_frame =
  wf_opcode :: byte
  wf_key :: "byte list"
  wf_body :: "byte list"

definition ws_frame_ok :: "ws_frame \<Rightarrow> bool" where
  "ws_frame_ok f \<longleftrightarrow> httpWebSocketOpcodeIsSupported (wf_opcode f) \<and> length (wf_key f) = 4 \<and> length (wf_body f) \<le> UINT32_MAX \<and>
     (wf_opcode f AND 8 \<noteq> 0 \<longrightarrow> length (wf_body f) \<le> 125)"

definition ws_frame_bytes :: "bool \<Rightarrow> ws_frame \<Rightarrow> byte list" where
  "ws_frame_bytes masked f =
     (if masked then httpclientBuildWebSocketHeader (wf_opcode f) (length (wf_body f)) (wf_key f) @ mask_loop (wf_key f) 0 (wf_body f)
      else httpserverBuildWebSocketHeader (wf_opcode f) (length (wf_body f)) @ wf_body f)"

lemma ws_frame_bytes_eq:
  "ws_frame_bytes masked f =
     ws_header masked (wf_opcode f) (length (wf_body f)) (wf_key f) @ ws_wire masked (wf_key f) 0 (wf_body f)"
  by (simp add: ws_frame_bytes_def ws_header_eq ws_wire_def)

definition ws_events :: "ws_frame \<Rightarrow> (http_websocket_result \<times> byte list) list" where
  "ws_events f = (if wf_opcode f AND 8 \<noteq> 0 then [(ws_result (wf_opcode f), wf_body f)]
     else map (Pair HttpWebSocketData) (ws_slices (wf_body f)))"

text \<open>A caller that makes a number of calls and records each result with the bytes it came with.\<close>

primrec ws_run ::
  "nat \<Rightarrow> ('q, sbuf) deque_ops \<Rightarrow> bool \<Rightarrow> http_websocket_decoder \<Rightarrow> 'q buffer_stream \<Rightarrow> buffer_pool \<Rightarrow>
   ((http_websocket_result \<times> byte list) list \<times> http_websocket_decoder \<times> 'q buffer_stream \<times> buffer_pool) option" where
  "ws_run 0 D em st s p = Some ([], st, s, p)"
| "ws_run (Suc n) D em st s p = do {
     (r, st, s, p) \<leftarrow> httpWebSocketDecoderStep D em st s p;
     (es, e) \<leftarrow> ws_run n D em st s p;
     Some ((fst r, case snd r of None \<Rightarrow> [] | Some b \<Rightarrow> payload b) # es, e)
   }"

definition ws_more :: "(http_websocket_result \<times> byte list) list \<Rightarrow> ((http_websocket_result \<times> byte list) list \<times> 'r) option \<Rightarrow>
    ((http_websocket_result \<times> byte list) list \<times> 'r) option" where
  "ws_more es r = map_option (\<lambda>x. (es @ fst x, snd x)) r"

lemma ws_more_simps [simp]: "ws_more [] r = r" "ws_more es (ws_more fs r) = ws_more (es @ fs) r"
  by (cases r; simp add: ws_more_def)+

lemma ws_run_step:
  assumes "httpWebSocketDecoderStep D em st s p = Some ((res, out), st', s', p')"
  shows "ws_run (Suc n) D em st s p =
    ws_more [(res, case out of None \<Rightarrow> [] | Some b \<Rightarrow> payload b)] (ws_run n D em st' s' p')"
  using assms by (cases "ws_run n D em st' s' p'") (auto simp: ws_more_def)

lemma data_opcode: "httpWebSocketOpcodeIsSupported op \<Longrightarrow> \<not> op AND 8 \<noteq> 0 \<Longrightarrow> ws_result op = HttpWebSocketData"
  using head0_facts(3) [of op] by (auto simp: ws_result_def)

context sbuf_deque
begin

lemma run_body:
  assumes "stream_ok D s" "pool_ok p" "bs_size s \<le> STREAM_SAFE_MAX"
    "stream_bytes D s = ws_wire masked key i body @ rest" "body \<noteq> []" "length body \<le> UINT32_MAX"
    "httpWebSocketOpcodeIsSupported op" "\<not> op AND 8 \<noteq> 0" "i < 4"
  shows "\<exists>s' p'. stream_ok D s' \<and> pool_ok p' \<and> stream_bytes D s' = rest \<and>
    (\<forall>m. ws_run (length (ws_slices body) + m) D masked (ws_state masked op key i (length body)) s p =
      ws_more (map (Pair HttpWebSocketData) (ws_slices body)) (ws_run m D masked http_websocket_zero s' p'))"
  using assms
proof (induction body arbitrary: s p i rule: ws_slices.induct)
  case (1 body)
  let ?n = "min (length body) 16384" and ?op = op
  let ?i = "if masked then (i + ?n) mod 4 else i"
  have n: "?n = (if op AND 8 \<noteq> 0 then length body else min (length body) 16384)" using "1.prems"(8) by simp
  obtain b s1 p1 where b: "wsReadBody D (ws_state masked op key i (length body)) s p (bs_size s) =
      Some (Some (ws_result op, Some b), if ?n = length body then http_websocket_zero
        else ws_state masked op key ?i (length body - ?n), s1, p1)"
    "sbuf_ok b" "payload b = take ?n body" "stream_ok D s1" "pool_ok p1"
    "stream_bytes D s1 = ws_wire masked key ?i (drop ?n body) @ rest"
    using readBody_part [OF "1.prems"(1-7,9) n] by blast
  have tk: "take ?n body = take 16384 body" "drop ?n body = drop 16384 body" by (simp_all add: min_def)
  have step: "ws_run (Suc m) D masked (ws_state masked op key i (length body)) s p =
      ws_more [(HttpWebSocketData, take 16384 body)] (ws_run m D masked (if ?n = length body then http_websocket_zero
        else ws_state masked op key ?i (length body - ?n)) s1 p1)" for m
    using ws_run_step [OF step_active [OF b(1)], of m masked] data_opcode [OF "1.prems"(7,8)] b(3) tk by simp
  have unf: "ws_slices body = take 16384 body # ws_slices (drop 16384 body)"
    using "1.prems"(5) by (subst ws_slices.simps) simp
  show ?case
  proof (cases "length body \<le> 16384")
    case True
    then have "drop 16384 body = []" "?n = length body" by simp_all
    moreover have "ws_slices [] = []" by (subst ws_slices.simps) simp
    ultimately show ?thesis using step b(4-6) unf tk by (intro exI [of _ s1] exI [of _ p1]) (simp add: ws_wire_def)
  next
    case False
    have "bs_size s1 \<le> bs_size s"
      using b(4,6) "1.prems"(1,4) by (simp add: stream_ok_def)
    then have "\<exists>s' p'. stream_ok D s' \<and> pool_ok p' \<and> stream_bytes D s' = rest \<and>
      (\<forall>m. ws_run (length (ws_slices (drop 16384 body)) + m) D masked (ws_state masked op key ?i (length (drop 16384 body))) s1 p1 =
        ws_more (map (Pair HttpWebSocketData) (ws_slices (drop 16384 body))) (ws_run m D masked http_websocket_zero s' p'))"
      using False "1.prems"(3,5-9) b(4-6) tk by (intro "1.IH") auto
    then obtain s' p' where r: "stream_ok D s'" "pool_ok p'" "stream_bytes D s' = rest"
      "\<And>m. ws_run (length (ws_slices (drop 16384 body)) + m) D masked (ws_state masked op key ?i (length (drop 16384 body))) s1 p1 =
        ws_more (map (Pair HttpWebSocketData) (ws_slices (drop 16384 body))) (ws_run m D masked http_websocket_zero s' p')" by blast
    have st: "(if ?n = length body then http_websocket_zero else ws_state masked op key ?i (length body - ?n)) =
        ws_state masked op key ?i (length (drop 16384 body))" using False by simp
    have "ws_run (length (ws_slices body) + m) D masked (ws_state masked op key i (length body)) s p =
        ws_more (map (Pair HttpWebSocketData) (ws_slices body)) (ws_run m D masked http_websocket_zero s' p')" for m
      using step [of "length (ws_slices (drop 16384 body)) + m", unfolded st r(4)] by (simp add: unf)
    then show ?thesis using r(1-3) by blast
  qed
qed

lemma run_frame:
  assumes "stream_ok D s" "pool_ok p" "bs_size s \<le> STREAM_SAFE_MAX" "ws_frame_ok f"
    "stream_bytes D s = ws_frame_bytes masked f @ rest"
  shows "\<exists>s' p'. stream_ok D s' \<and> pool_ok p' \<and> stream_bytes D s' = rest \<and>
    (\<forall>m. ws_run (length (ws_events f) + Suc m) D masked http_websocket_zero s p =
      ws_more (ws_events f) (ws_run (Suc m) D masked http_websocket_zero s' p'))"
proof -
  let ?op = "wf_opcode f" and ?key = "wf_key f" and ?b = "wf_body f"
  have f: "httpWebSocketOpcodeIsSupported ?op" "length ?key = 4" "length ?b \<le> UINT32_MAX" "?op AND 8 \<noteq> 0 \<Longrightarrow> length ?b \<le> 125"
    using assms(4) by (auto simp: ws_frame_ok_def)
  have bytes: "stream_bytes D s = ws_header masked ?op (length ?b) ?key @ (ws_wire masked ?key 0 ?b @ rest)"
    using assms(5) by (simp add: ws_frame_bytes_eq)
  obtain s1 p1 where h: "httpWebSocketDecoderStep D masked http_websocket_zero s p =
      httpWebSocketDecoderStep D masked (ws_state masked ?op ?key 0 (length ?b)) s1 p1"
    "stream_ok D s1" "pool_ok p1" "stream_bytes D s1 = ws_wire masked ?key 0 ?b @ rest" "bs_size s1 \<le> STREAM_SAFE_MAX"
    using step_header [OF assms(1-3) bytes f(1-4)] assms(3) by fastforce
  have first: "ws_run (Suc m) D masked http_websocket_zero s p = ws_run (Suc m) D masked (ws_state masked ?op ?key 0 (length ?b)) s1 p1" for m
    using h(1) by simp
  consider (empty) "?b = []" | (control) "?b \<noteq> []" "?op AND 8 \<noteq> 0" | (data) "?b \<noteq> []" "\<not> ?op AND 8 \<noteq> 0" by blast
  then show ?thesis
  proof cases
    case empty
    have w: "wsReadBody D (ws_state masked ?op ?key 0 (length ?b)) s1 p1 (bs_size s1) =
        Some (if ?op AND 8 \<noteq> 0 then Some (ws_result ?op, None) else None, http_websocket_zero, s1, p1)"
      using readBody_empty [OF f(1)] empty by simp
    have rest: "stream_bytes D s1 = rest" using h(4) empty by (simp add: ws_wire_def)
    have "ws_run (length (ws_events f) + Suc m) D masked http_websocket_zero s p =
        ws_more (ws_events f) (ws_run (Suc m) D masked http_websocket_zero s1 p1)" for m
    proof (cases "?op AND 8 \<noteq> 0")
      case True
      have "httpWebSocketDecoderStep D masked (ws_state masked ?op ?key 0 (length ?b)) s1 p1 =
          Some ((ws_result ?op, None), http_websocket_zero, s1, p1)"
        using step_active [of masked ?op ?key 0 "length ?b" s1 p1] w True by simp
      from ws_run_step [OF this, of "Suc m"] first [of "Suc m"] show ?thesis
        using True empty by (simp add: ws_events_def del: ws_run.simps)
    next
      case False
      have "httpWebSocketDecoderStep D masked (ws_state masked ?op ?key 0 (length ?b)) s1 p1 =
          httpWebSocketDecoderStep D masked http_websocket_zero s1 p1"
        using step_skip [of masked ?op ?key 0 "length ?b" s1 p1] w False by simp
      moreover have "ws_events f = []" using False empty by (simp add: ws_events_def ws_slices.simps)
      ultimately show ?thesis using h(1) by simp
    qed
    then show ?thesis using h(2,3) rest by blast
  next
    case control
    obtain b s2 p2 where b: "wsReadBody D (ws_state masked ?op ?key 0 (length ?b)) s1 p1 (bs_size s1) =
        Some (Some (ws_result ?op, Some b), http_websocket_zero, s2, p2)"
      "payload b = ?b" "stream_ok D s2" "pool_ok p2" "stream_bytes D s2 = rest"
      using readBody_part [OF h(2,3,5,4) control(1) f(3,1), of "length ?b"] control(2) by (auto simp: ws_wire_def)
    have "ws_run (length (ws_events f) + Suc m) D masked http_websocket_zero s p =
        ws_more (ws_events f) (ws_run (Suc m) D masked http_websocket_zero s2 p2)" for m
      using ws_run_step [OF step_active [OF b(1)], of "Suc m" masked] first [of "Suc m"] control(2) b(2)
      by (simp add: ws_events_def del: ws_run.simps)
    then show ?thesis using b(3-5) by blast
  next
    case data
    obtain s2 p2 where r: "stream_ok D s2" "pool_ok p2" "stream_bytes D s2 = rest"
      "\<And>m. ws_run (length (ws_slices ?b) + m) D masked (ws_state masked ?op ?key 0 (length ?b)) s1 p1 =
        ws_more (map (Pair HttpWebSocketData) (ws_slices ?b)) (ws_run m D masked http_websocket_zero s2 p2)"
      using run_body [OF h(2,3,5,4) data(1) f(3,1) data(2)] by auto
    have "ws_run (length (ws_events f) + Suc m) D masked http_websocket_zero s p =
        ws_more (ws_events f) (ws_run (Suc m) D masked http_websocket_zero s2 p2)" for m
      using first [of "length (ws_slices ?b) + m"] r(4) [of "Suc m"] data(2) by (simp add: ws_events_def del: ws_run.simps)
    then show ?thesis using r(1-3) by blast
  qed
qed

lemma run_frames:
  assumes "stream_ok D s" "pool_ok p" "bs_size s \<le> STREAM_SAFE_MAX" "\<forall>f\<in>set fs. ws_frame_ok f"
    "stream_bytes D s = concat (map (ws_frame_bytes masked) fs)"
  shows "\<exists>s' p'. stream_ok D s' \<and> pool_ok p' \<and> stream_bytes D s' = [] \<and>
    ws_run (length (concat (map ws_events fs)) + 1) D masked http_websocket_zero s p =
      Some (concat (map ws_events fs) @ [(HttpWebSocketNeedMore, [])], http_websocket_zero, s', p')"
  using assms
proof (induction fs arbitrary: s p)
  case Nil
  then have "bs_size s = 0" by (simp add: stream_ok_def)
  then have "wsIteration D masked http_websocket_zero s p = Some (Some (HttpWebSocketNeedMore, None), http_websocket_zero, s, p)"
    by (simp add: wsIteration_def http_websocket_zero_def wsReadHeader_def bufferstreamGetBufLen_def)
  then have "httpWebSocketDecoderStep D masked http_websocket_zero s p = Some ((HttpWebSocketNeedMore, None), http_websocket_zero, s, p)"
    by (subst httpWebSocketDecoderStep.simps) simp
  then show ?case using Nil by simp
next
  case (Cons f fs)
  have b: "stream_bytes D s = ws_frame_bytes masked f @ concat (map (ws_frame_bytes masked) fs)" "ws_frame_ok f"
    using Cons.prems(4,5) by simp_all
  obtain s1 p1 where r: "stream_ok D s1" "pool_ok p1" "stream_bytes D s1 = concat (map (ws_frame_bytes masked) fs)"
    "\<And>m. ws_run (length (ws_events f) + Suc m) D masked http_websocket_zero s p =
      ws_more (ws_events f) (ws_run (Suc m) D masked http_websocket_zero s1 p1)"
    using run_frame [OF Cons.prems(1-3) b(2,1)] by blast
  have "bs_size s1 \<le> STREAM_SAFE_MAX" using r(1,3) Cons.prems(1,3) b(1) by (simp add: stream_ok_def)
  then obtain s' p' where i: "stream_ok D s'" "pool_ok p'" "stream_bytes D s' = []"
    "ws_run (length (concat (map ws_events fs)) + 1) D masked http_websocket_zero s1 p1 =
      Some (concat (map ws_events fs) @ [(HttpWebSocketNeedMore, [])], http_websocket_zero, s', p')"
    using Cons.IH [OF r(1,2) _ _ r(3)] Cons.prems(4) by auto
  have "ws_run (length (concat (map ws_events (f # fs))) + 1) D masked http_websocket_zero s p =
      ws_more (ws_events f) (ws_run (length (concat (map ws_events fs)) + 1) D masked http_websocket_zero s1 p1)"
    using r(4) [of "length (concat (map ws_events fs))"] by (simp del: ws_run.simps)
  then show ?case using i by (auto simp: ws_more_def)
qed

end

section \<open>Properties\<close>

text \<open>C12. What the client writes with its masked headers, or the server with its unmasked ones, the decoder
  reads back: for every sequence of frames in the stream the calls report, in order, each control
  frame with its whole payload and each data frame in slices of at most 16 KiB that concatenate to
  its payload, skip empty data frames, and then ask for more with the stream empty.\<close>

theorem websocket_roundtrip:
  assumes "sbuf_deque D" "stream_ok D s" "pool_ok p" "bs_size s \<le> STREAM_SAFE_MAX" "\<forall>f\<in>set fs. ws_frame_ok f"
    "stream_bytes D s = concat (map (ws_frame_bytes masked) fs)"
  shows "\<exists>s' p'. ws_run (length (concat (map ws_events fs)) + 1) D masked http_websocket_zero s p =
      Some (concat (map ws_events fs) @ [(HttpWebSocketNeedMore, [])], http_websocket_zero, s', p') \<and>
    stream_ok D s' \<and> pool_ok p' \<and> stream_bytes D s' = []"
  using sbuf_deque.run_frames [OF assms] by blast

definition ws_sample :: "sbuf list buffer_stream" where
  "ws_sample = \<lparr>bs_q = [sbuf_append sbuf_sample [129], sbuf_append sbuf_sample [2, 72, 105, 137, 0]],
     bs_size = 6, bs_use_left_padding = 0\<rparr>"

theorem websocket_roundtrip_witness:
  "\<exists>s' p'. ws_run 3 list_deque False http_websocket_zero ws_sample sample_pool =
    Some ([(HttpWebSocketData, [72, 105]), (HttpWebSocketPing, []), (HttpWebSocketNeedMore, [])], http_websocket_zero, s', p')"
proof -
  let ?fs = "[\<lparr>wf_opcode = 1, wf_key = [0, 0, 0, 0], wf_body = [72, 105]\<rparr>, \<lparr>wf_opcode = 9, wf_key = [0, 0, 0, 0], wf_body = []\<rparr>]"
  have ok: "stream_ok list_deque ws_sample" "stream_bytes list_deque ws_sample = [129, 2, 72, 105, 137, 0]"
    by (simp_all add: stream_ok_def stream_bytes_def ws_sample_def list_deque_def sample_append_ok)
  have b: "stream_bytes list_deque ws_sample = concat (map (ws_frame_bytes False) ?fs)"
    by (simp add: ok(2) ws_frame_bytes_def httpserverBuildWebSocketHeader_def)
  have "ws_slices [72, 105] = [[72, 105]]" by (subst ws_slices.simps) (simp add: ws_slices.simps [of "[]"])
  then have e: "concat (map ws_events ?fs) = [(HttpWebSocketData, [72, 105]), (HttpWebSocketPing, [])]"
    by (simp add: ws_events_def ws_result_def)
  have f: "\<forall>f\<in>set ?fs. ws_frame_ok f" by (simp add: ws_frame_ok_def httpWebSocketOpcodeIsSupported_def)
  have "bs_size ws_sample \<le> STREAM_SAFE_MAX" by (simp add: ws_sample_def)
  from websocket_roundtrip [OF list_stream.sbuf_deque_axioms ok(1) sample_pool_ok this f b]
  show ?thesis unfolding e by (simp add: numeral_eq_Suc del: ws_run.simps) blast
qed

end
