(* ===== verification/Checksum.thy ===== *)
theory Checksum
  imports WW_Prelude
begin

text \<open>
  The portable Internet checksum (\<open>src/ww/net/wchecksum_default.c\<close>): the unrolled sum of
  64-bit words with a separate carry count, its reduction, and the one's complement of the result.
  The byte order conversion \<open>lwip_htons\<close> belongs to lwIP and is an argument.
\<close>

section \<open>The implementation\<close>

definition readBigEndian64 :: "byte list \<Rightarrow> nat \<Rightarrow> nat option" where
  "readBigEndian64 data at = do {
     b0 \<leftarrow> rd8 data at; b1 \<leftarrow> rd8 data (at + 1); b2 \<leftarrow> rd8 data (at + 2); b3 \<leftarrow> rd8 data (at + 3);
     b4 \<leftarrow> rd8 data (at + 4); b5 \<leftarrow> rd8 data (at + 5); b6 \<leftarrow> rd8 data (at + 6); b7 \<leftarrow> rd8 data (at + 7);
     Some (unat b0 * 2 ^ 56 + unat b1 * 2 ^ 48 + unat b2 * 2 ^ 40 + unat b3 * 2 ^ 32 +
       unat b4 * 2 ^ 24 + unat b5 * 2 ^ 16 + unat b6 * 2 ^ 8 + unat b7)
   }"

definition readBigEndian32 :: "byte list \<Rightarrow> nat \<Rightarrow> nat option" where
  "readBigEndian32 data at = do {
     b0 \<leftarrow> rd8 data at; b1 \<leftarrow> rd8 data (at + 1); b2 \<leftarrow> rd8 data (at + 2); b3 \<leftarrow> rd8 data (at + 3);
     Some (unat b0 * 2 ^ 24 + unat b1 * 2 ^ 16 + unat b2 * 2 ^ 8 + unat b3)
   }"

definition readBigEndian16 :: "byte list \<Rightarrow> nat \<Rightarrow> nat option" where
  "readBigEndian16 data at = do {
     b0 \<leftarrow> rd8 data at; b1 \<leftarrow> rd8 data (at + 1);
     Some (unat b0 * 2 ^ 8 + unat b1)
   }"

definition addWithCarry :: "nat \<times> nat \<Rightarrow> nat \<Rightarrow> nat \<times> nat" where
  "addWithCarry acc val =
     (let old_sum = fst acc; sum = u64 (fst acc + val)
      in (sum, if sum < old_sum then u64 (snd acc + 1) else snd acc))"

text \<open>The body of an unrolled loop: \<open>k\<close> consecutive 64-bit words.\<close>

primrec addWords :: "nat \<Rightarrow> byte list \<Rightarrow> nat \<Rightarrow> nat \<times> nat \<Rightarrow> (nat \<times> nat) option" where
  "addWords 0 data at acc = Some acc"
| "addWords (Suc k) data at acc = do { v \<leftarrow> readBigEndian64 data at; addWords k data (at + 8) (addWithCarry acc v) }"

text \<open>The loops that take 64, 32, 16 and 8 bytes at a time are this one with \<open>k\<close> 8, 4, 2 and 1.\<close>

function blocksLoop :: "nat \<Rightarrow> byte list \<Rightarrow> nat \<Rightarrow> nat \<times> nat \<Rightarrow> (byte list \<times> nat \<times> nat \<times> nat) option" where
  "blocksLoop k data len acc =
     (if len \<ge> 8 * k \<and> k > 0 then do {
        acc \<leftarrow> addWords k data 0 acc;
        blocksLoop k (drop (8 * k) data) (len - 8 * k) acc
      }
      else Some (data, len, acc))"
  by pat_completeness auto
termination by (relation "measure (\<lambda>(_, _, len, _). len)") auto

function quadLoop :: "byte list \<Rightarrow> nat \<Rightarrow> nat \<times> nat \<Rightarrow> (byte list \<times> nat \<times> nat \<times> nat) option" where
  "quadLoop data len acc =
     (if len \<ge> 4 then do { v \<leftarrow> readBigEndian32 data 0; quadLoop (drop 4 data) (len - 4) (addWithCarry acc v) }
      else Some (data, len, acc))"
  by pat_completeness auto
termination by (relation "measure (\<lambda>(_, len, _). len)") auto

function pairLoop :: "byte list \<Rightarrow> nat \<Rightarrow> nat \<times> nat \<Rightarrow> (byte list \<times> nat \<times> nat \<times> nat) option" where
  "pairLoop data len acc =
     (if len \<ge> 2 then do { v \<leftarrow> readBigEndian16 data 0; pairLoop (drop 2 data) (len - 2) (addWithCarry acc v) }
      else Some (data, len, acc))"
  by pat_completeness auto
termination by (relation "measure (\<lambda>(_, len, _). len)") auto

text \<open>The reduction loops \<open>while (sum >> w)\<close>.\<close>

lemma fold_less: "0 < w \<Longrightarrow> 2 ^ w \<le> s \<Longrightarrow> s mod 2 ^ w + s div 2 ^ w < (s :: nat)"
proof -
  assume w: "0 < w" "2 ^ w \<le> s"
  define d where "d = (2 :: nat) ^ w"
  have "1 < d" unfolding d_def using w(1) one_less_power [of "2 :: nat" w] by simp
  moreover have "0 < s div d" using w(2) calculation unfolding d_def [symmetric] by (simp add: div_greater_zero_iff)
  ultimately have "s div d * 1 < s div d * d" by (rule mult_less_mono2)
  then show ?thesis using div_mult_mod_eq [of s d] unfolding d_def [symmetric] by linarith
qed

function foldLoop :: "nat \<Rightarrow> nat \<Rightarrow> nat" where
  "foldLoop w s = (if 0 < w \<and> s div 2 ^ w \<noteq> 0 then foldLoop w (s mod 2 ^ w + s div 2 ^ w) else s)"
  by pat_completeness auto
termination
proof (relation "measure snd")
  fix w s :: nat
  assume "0 < w \<and> s div 2 ^ w \<noteq> 0"
  then have "0 < w" "2 ^ w \<le> s" by (simp_all add: div_eq_0_iff not_less)
  from fold_less [OF this] show "((w, s mod 2 ^ w + s div 2 ^ w), w, s) \<in> measure snd" by simp
qed simp

declare blocksLoop.simps [simp del] quadLoop.simps [simp del] pairLoop.simps [simp del] foldLoop.simps [simp del]

definition checksumBuffer :: "byte list \<Rightarrow> nat \<Rightarrow> nat option" where
  "checksumBuffer data len = do {
     (data, len, acc) \<leftarrow> blocksLoop 8 data len (0, 0);
     (data, len, acc) \<leftarrow> blocksLoop 4 data len acc;
     (data, len, acc) \<leftarrow> blocksLoop 2 data len acc;
     (data, len, acc) \<leftarrow> blocksLoop 1 data len acc;
     (data, len, acc) \<leftarrow> quadLoop data len acc;
     (data, len, acc) \<leftarrow> pairLoop data len acc;
     acc \<leftarrow> (if len \<noteq> 0 then do { b \<leftarrow> rd8 data 0; Some (addWithCarry acc (unat b * 256)) } else Some acc);
     let sum = u64 (u64 (fst acc mod 2 ^ 32 + fst acc div 2 ^ 32) + snd acc);
     Some (u32 (foldLoop 32 sum))
   }"

definition finalizeChecksum :: "nat \<Rightarrow> nat" where
  "finalizeChecksum s = (2 ^ 64 - 1 - foldLoop 16 s) mod 2 ^ 16"

definition cChecksum :: "(nat \<Rightarrow> nat) \<Rightarrow> byte list \<Rightarrow> nat \<Rightarrow> nat \<Rightarrow> nat option" where
  "cChecksum lwip_htons data len initial = do {
     s \<leftarrow> checksumBuffer data len;
     Some (lwip_htons (finalizeChecksum (u64 (initial + s))))
   }"

definition checksumDefault :: "(nat \<Rightarrow> nat) \<Rightarrow> byte list \<Rightarrow> nat \<Rightarrow> nat \<Rightarrow> nat option" where
  "checksumDefault lwip_htons data len initial = cChecksum lwip_htons data len initial"

section \<open>The reference\<close>

text \<open>RFC 1071: the 16-bit words of the data, an odd last byte padded with zero, added with end-around carry.\<close>

fun be_words :: "byte list \<Rightarrow> nat list" where
  "be_words [] = []"
| "be_words [a] = [be16 a 0]"
| "be_words (a # b # r) = be16 a b # be_words r"

definition ones_add :: "nat \<Rightarrow> nat \<Rightarrow> nat" where
  "ones_add a b = (if a + b < 65536 then a + b else a + b - 65535)"

definition rfc1071 :: "nat \<Rightarrow> byte list \<Rightarrow> nat" where
  "rfc1071 initial data = 65535 - foldl ones_add (ones_add (initial div 65536) (initial mod 65536)) (be_words data)"

section \<open>Congruence\<close>

text \<open>Two sums are the same for the one's complement when they agree modulo 65535 and are both zero or
  both not.\<close>

definition same_sum :: "nat \<Rightarrow> nat \<Rightarrow> bool" where
  "same_sum t w \<longleftrightarrow> t mod 65535 = w mod 65535 \<and> (t = 0 \<longleftrightarrow> w = 0)"

lemma same_sum_refl [simp]: "same_sum t t"
  by (simp add: same_sum_def)

lemma same_sum_trans: "same_sum a b \<Longrightarrow> same_sum b c \<Longrightarrow> same_sum a c"
  by (simp add: same_sum_def)

lemma same_sum_sym: "same_sum a b \<Longrightarrow> same_sum b a"
  by (auto simp: same_sum_def)

lemma same_sum_add: "same_sum a b \<Longrightarrow> same_sum c d \<Longrightarrow> same_sum (a + c) (b + d)"
  unfolding same_sum_def by (metis add_is_0 mod_add_cong)

lemma same_sum_multiple: "t = w + 65535 * k \<Longrightarrow> (t = 0 \<longleftrightarrow> w = 0) \<Longrightarrow> same_sum t w"
  by (simp add: same_sum_def)

definition canon :: "nat \<Rightarrow> nat" where
  "canon x = (if x = 0 then 0 else if x mod 65535 = 0 then 65535 else x mod 65535)"

lemma canon_unique: "r \<le> 65535 \<Longrightarrow> same_sum r x \<Longrightarrow> r = canon x"
  by (cases "r = 65535") (auto simp: canon_def same_sum_def)

lemma canon_le: "canon x \<le> 65535"
  using mod_less_divisor [of 65535 x] by (simp add: canon_def)

lemma canon_same: "same_sum (canon x) x"
  by (simp add: canon_def same_sum_def)

lemma ones_add_canon: "w \<le> 65535 \<Longrightarrow> ones_add (canon x) w = canon (x + w)"
proof (rule canon_unique)
  assume w: "w \<le> 65535"
  have c: "same_sum (canon x + w) (x + w)" by (rule same_sum_add [OF canon_same same_sum_refl])
  show "ones_add (canon x) w \<le> 65535" using canon_le [of x] w by (auto simp: ones_add_def)
  have "same_sum (s - 65535) s" if "65536 \<le> s" for s
    using that by (intro same_sum_sym [OF same_sum_multiple [where k = 1]]) auto
  then show "same_sum (ones_add (canon x) w) (x + w)"
    using c by (auto simp: ones_add_def not_less intro: same_sum_trans)
qed

lemma foldl_ones_add: "\<forall>w\<in>set ws. w \<le> 65535 \<Longrightarrow> foldl ones_add (canon x) ws = canon (x + sum_list ws)"
  by (induction ws arbitrary: x) (simp_all add: ones_add_canon add.assoc)

lemma be_words_le: "\<forall>w\<in>set (be_words data). w \<le> 65535"
  by (induction data rule: be_words.induct) (use be16_le in auto)

definition word_sum :: "byte list \<Rightarrow> nat" where
  "word_sum data = sum_list (be_words data)"

lemma rfc1071_canon:
  assumes "initial \<le> UINT32_MAX"
  shows "rfc1071 initial data = 65535 - canon (initial + word_sum data)"
proof -
  have h: "initial div 65536 \<le> 65535" "initial mod 65536 \<le> 65535"
    using div_le_mono [OF assms, of 65536] mod_less_divisor [of 65536 initial] by simp_all
  have "canon (initial div 65536) = initial div 65536" using canon_unique [OF h(1) same_sum_refl] by simp
  then have "ones_add (initial div 65536) (initial mod 65536) = canon (initial div 65536 + initial mod 65536)"
    using ones_add_canon [OF h(2), of "initial div 65536"] by simp
  also have "\<dots> = canon initial"
  proof -
    have "initial = initial div 65536 + initial mod 65536 + 65535 * (initial div 65536)"
      using div_mult_mod_eq [of initial 65536] by linarith
    then have "same_sum initial (initial div 65536 + initial mod 65536)" by (rule same_sum_multiple) auto
    from canon_unique [OF canon_le same_sum_trans [OF canon_same same_sum_sym [OF this]]] show ?thesis .
  qed
  finally show ?thesis using foldl_ones_add [OF be_words_le, of initial data] by (simp add: rfc1071_def word_sum_def)
qed

section \<open>The loops\<close>

lemma word_sum_simps [simp]:
  "word_sum [] = 0" "word_sum [a] = unat a * 256" "word_sum (a # b # r) = unat a * 256 + unat b + word_sum r"
  by (simp_all add: word_sum_def be16_def)

lemma word_sum_append: "even (length a) \<Longrightarrow> word_sum (a @ b) = word_sum a + word_sum b"
  by (induction a rule: be_words.induct) simp_all

lemma take_two: "length xs = 2 \<Longrightarrow> \<exists>a b. xs = [a, b]"
  by (auto simp: numeral_eq_Suc length_Suc_conv)

lemma read16_ok:
  assumes "at + 2 \<le> length data"
  shows "\<exists>v. readBigEndian16 data at = Some v \<and> v \<le> UINT16_MAX \<and> same_sum v (word_sum (take 2 (drop at data)))"
proof -
  obtain a b where x: "take 2 (drop at data) = [a, b]" using take_two [of "take 2 (drop at data)"] assms by auto
  have "data ! at = a" "data ! (at + 1) = b"
    using nth_take [of 0 2 "drop at data"] nth_take [of 1 2 "drop at data"] assms by (simp_all add: x)
  then have "readBigEndian16 data at = Some (unat a * 2 ^ 8 + unat b)" using assms by (simp add: readBigEndian16_def)
  then show ?thesis using unat_byte_less [of a] unat_byte_less [of b] by (simp add: x)
qed

lemma read32_eq:
  "readBigEndian32 data at = do { h \<leftarrow> readBigEndian16 data at; l \<leftarrow> readBigEndian16 data (at + 2); Some (h * 2 ^ 16 + l) }"
  by (simp add: readBigEndian32_def readBigEndian16_def rd8_def add.assoc algebra_simps numeral_3_eq_3)

lemma read64_eq:
  "readBigEndian64 data at = do { h \<leftarrow> readBigEndian32 data at; l \<leftarrow> readBigEndian32 data (at + 4); Some (h * 2 ^ 32 + l) }"
  by (simp add: readBigEndian64_def readBigEndian32_def rd8_def add.assoc algebra_simps)

lemma same_sum_shift: "same_sum h a \<Longrightarrow> same_sum l b \<Longrightarrow> k mod 65535 = 1 \<Longrightarrow> same_sum (h * k + l) (a + b)"
  by (rule same_sum_add) (auto simp: same_sum_def mod_mult_right_eq [symmetric, of _ k])

lemma take_halves: "take (n + n) xs = take n xs @ take n (drop n xs)"
  by (simp add: take_add)

lemma read32_ok:
  assumes "at + 4 \<le> length data"
  shows "\<exists>v. readBigEndian32 data at = Some v \<and> v \<le> UINT32_MAX \<and> same_sum v (word_sum (take 4 (drop at data)))"
proof -
  obtain h l where h: "readBigEndian16 data at = Some h" "h \<le> UINT16_MAX" "same_sum h (word_sum (take 2 (drop at data)))"
    and l: "readBigEndian16 data (at + 2) = Some l" "l \<le> UINT16_MAX" "same_sum l (word_sum (take 2 (drop (at + 2) data)))"
    using read16_ok [of at data] read16_ok [of "at + 2" data] assms by auto
  have "word_sum (take 4 (drop at data)) = word_sum (take 2 (drop at data)) + word_sum (take 2 (drop (at + 2) data))"
    using take_halves [of 2 "drop at data"] assms by (simp add: word_sum_append add.commute)
  then have "same_sum (h * 2 ^ 16 + l) (word_sum (take 4 (drop at data)))"
    using same_sum_shift [OF h(3) l(3), of "2 ^ 16"] by simp
  then show ?thesis using h(1,2) l(1,2) by (simp add: read32_eq)
qed

lemma read64_ok:
  assumes "at + 8 \<le> length data"
  shows "\<exists>v. readBigEndian64 data at = Some v \<and> v \<le> UINT64_MAX \<and> same_sum v (word_sum (take 8 (drop at data)))"
proof -
  obtain h l where h: "readBigEndian32 data at = Some h" "h \<le> UINT32_MAX" "same_sum h (word_sum (take 4 (drop at data)))"
    and l: "readBigEndian32 data (at + 4) = Some l" "l \<le> UINT32_MAX" "same_sum l (word_sum (take 4 (drop (at + 4) data)))"
    using read32_ok [of at data] read32_ok [of "at + 4" data] assms by auto
  have "word_sum (take 8 (drop at data)) = word_sum (take 4 (drop at data)) + word_sum (take 4 (drop (at + 4) data))"
    using take_halves [of 4 "drop at data"] assms by (simp add: word_sum_append add.commute)
  then have "same_sum (h * 2 ^ 32 + l) (word_sum (take 8 (drop at data)))"
    using same_sum_shift [OF h(3) l(3), of "2 ^ 32"] by simp
  then show ?thesis using h(1,2) l(1,2) by (simp add: read64_eq)
qed

text \<open>The accumulator holds the sum of \<open>n\<close> bytes: the carry count is below the byte count, and the
  65-bit total it stands for agrees with the words added.\<close>

definition acc_ok :: "nat \<times> nat \<Rightarrow> nat \<Rightarrow> nat \<Rightarrow> bool" where
  "acc_ok acc w n \<longleftrightarrow> fst acc \<le> UINT64_MAX \<and> snd acc \<le> n \<and> same_sum (fst acc + snd acc * 2 ^ 64) w"

lemma addWithCarry_total:
  assumes "fst acc \<le> UINT64_MAX" "v \<le> UINT64_MAX" "snd acc < UINT64_MAX"
  shows "fst (addWithCarry acc v) + snd (addWithCarry acc v) * 2 ^ 64 = fst acc + snd acc * 2 ^ 64 + v"
    "fst (addWithCarry acc v) \<le> UINT64_MAX" "snd (addWithCarry acc v) \<le> snd acc + 1"
proof -
  have "u64 (fst acc + v) = (if fst acc + v \<le> UINT64_MAX then fst acc + v else fst acc + v - 2 ^ 64)"
    using assms(1,2) by (simp add: u64_def mod_if)
  then show "fst (addWithCarry acc v) + snd (addWithCarry acc v) * 2 ^ 64 = fst acc + snd acc * 2 ^ 64 + v"
    using assms by (auto simp: addWithCarry_def Let_def)
  show "fst (addWithCarry acc v) \<le> UINT64_MAX" "snd (addWithCarry acc v) \<le> snd acc + 1"
    using assms(3) by (auto simp: addWithCarry_def Let_def)
qed

lemma acc_step:
  assumes "acc_ok acc w n" "v \<le> UINT64_MAX" "same_sum v x" "n < UINT64_MAX" "n < m"
  shows "acc_ok (addWithCarry acc v) (w + x) m"
proof -
  have a: "fst acc \<le> UINT64_MAX" "snd acc < UINT64_MAX" using assms(1,4) by (auto simp: acc_ok_def)
  note t = addWithCarry_total [OF a(1) assms(2) a(2)]
  have "same_sum (fst acc + snd acc * 2 ^ 64 + v) (w + x)"
    using same_sum_add assms(1,3) by (auto simp: acc_ok_def)
  then show ?thesis using t assms(1,5) unfolding acc_ok_def by auto
qed

lemma addWords_ok:
  assumes "acc_ok acc w n" "at + 8 * k \<le> length data" "n + k \<le> UINT64_MAX"
  shows "\<exists>acc'. addWords k data at acc = Some acc' \<and> acc_ok acc' (w + word_sum (take (8 * k) (drop at data))) (n + k)"
  using assms
proof (induction k arbitrary: at acc w n)
  case (Suc k)
  obtain v where v: "readBigEndian64 data at = Some v" "v \<le> UINT64_MAX" "same_sum v (word_sum (take 8 (drop at data)))"
    using read64_ok [of at data] Suc.prems(2) by auto
  have a: "acc_ok (addWithCarry acc v) (w + word_sum (take 8 (drop at data))) (n + 1)"
    by (rule acc_step [OF Suc.prems(1) v(2,3)]) (use Suc.prems(3) in auto)
  obtain acc' where r: "addWords k data (at + 8) (addWithCarry acc v) = Some acc'"
    "acc_ok acc' (w + word_sum (take 8 (drop at data)) + word_sum (take (8 * k) (drop (at + 8) data))) (n + 1 + k)"
    using Suc.IH [OF a, of "at + 8"] Suc.prems(2,3) by auto
  have "take (8 * Suc k) (drop at data) = take 8 (drop at data) @ take (8 * k) (drop (at + 8) data)"
    using take_add [of 8 "8 * k" "drop at data"] by (simp add: add.commute)
  then have "word_sum (take (8 * Suc k) (drop at data)) =
      word_sum (take 8 (drop at data)) + word_sum (take (8 * k) (drop (at + 8) data))"
    using Suc.prems(2) by (simp only:) (rule word_sum_append, simp)
  then show ?case using v(1) r by (simp add: add.assoc)
qed simp

text \<open>What every loop keeps: an even prefix of the first \<open>len\<close> bytes is consumed and accumulated.\<close>

definition sum_state :: "byte list \<Rightarrow> nat \<Rightarrow> byte list \<times> nat \<times> nat \<times> nat \<Rightarrow> bool" where
  "sum_state data len r \<longleftrightarrow> (\<exists>m \<le> len. even m \<and> fst r = drop m data \<and> fst (snd r) = len - m \<and>
     acc_ok (snd (snd r)) (word_sum (take m data)) m)"

lemma sum_stateI:
  assumes "m + c \<le> len" "even m" "even c" "m + c \<le> length data"
    "acc_ok acc (word_sum (take m data) + word_sum (take c (drop m data))) (m + c)"
  shows "sum_state data len (drop c (drop m data), len - m - c, acc)"
  unfolding sum_state_def
proof (intro exI [of _ "m + c"] conjI)
  have "word_sum (take (m + c) data) = word_sum (take m data) + word_sum (take c (drop m data))"
    unfolding take_add using assms by (intro word_sum_append) simp
  then show "acc_ok (snd (snd (drop c (drop m data), len - m - c, acc))) (word_sum (take (m + c) data)) (m + c)"
    using assms(5) by simp
qed (use assms in \<open>simp_all add: add.commute\<close>)

lemma sum_stateE:
  assumes "sum_state data len (d, l, acc)" "len \<le> length data"
  obtains m where "m + l = len" "even m" "d = drop m data" "l \<le> length d" "acc_ok acc (word_sum (take m data)) m"
proof -
  obtain m where "m \<le> len" "even m" "d = drop m data" "l = len - m" "acc_ok acc (word_sum (take m data)) m"
    using assms(1) by (auto simp: sum_state_def)
  then show ?thesis using assms(2) by (intro that [of m]) simp_all
qed

lemma blocksLoop_ok:
  assumes "sum_state data len (d, l, acc)" "len \<le> length data" "len < UINT64_MAX" "0 < k"
  shows "\<exists>r. blocksLoop k d l acc = Some r \<and> sum_state data len r"
  using assms(1)
proof (induction k d l acc rule: blocksLoop.induct)
  case (1 k d l acc)
  show ?case
  proof (cases "8 * k \<le> l \<and> 0 < k")
    case True
    obtain m where m: "m + l = len" "even m" "d = drop m data" "l \<le> length d" "acc_ok acc (word_sum (take m data)) m"
      using sum_stateE [OF 1(2) assms(2)] by blast
    obtain acc' where a: "addWords k d 0 acc = Some acc'" "acc_ok acc' (word_sum (take m data) + word_sum (take (8 * k) d)) (m + k)"
      using addWords_ok [OF m(5), of 0 k d] m(1,4) True assms(3) by auto
    have "acc_ok acc' (word_sum (take m data) + word_sum (take (8 * k) d)) (m + 8 * k)" using a(2) by (auto simp: acc_ok_def)
    then have s: "sum_state data len (drop (8 * k) d, l - 8 * k, acc')"
      using sum_stateI [of m "8 * k" len data acc'] m True assms(2) by auto
    from 1(1) [OF True a(1) s] show ?thesis using True a(1) by (subst blocksLoop.simps) simp
  next
    case False
    then show ?thesis using 1(2) by (subst blocksLoop.simps) (auto simp del: split_paired_Ex)
  qed
qed

lemma quadLoop_ok:
  assumes "sum_state data len (d, l, acc)" "len \<le> length data" "len < UINT64_MAX"
  shows "\<exists>r. quadLoop d l acc = Some r \<and> sum_state data len r"
  using assms(1)
proof (induction d l acc rule: quadLoop.induct)
  case (1 d l acc)
  show ?case
  proof (cases "4 \<le> l")
    case True
    obtain m where m: "m + l = len" "even m" "d = drop m data" "l \<le> length d" "acc_ok acc (word_sum (take m data)) m"
      using sum_stateE [OF 1(2) assms(2)] by blast
    obtain v where v: "readBigEndian32 d 0 = Some v" "v \<le> UINT32_MAX" "same_sum v (word_sum (take 4 d))"
      using read32_ok [of 0 d] m(4) True by auto
    have "acc_ok (addWithCarry acc v) (word_sum (take m data) + word_sum (take 4 d)) (m + 4)"
      by (rule acc_step [OF m(5) _ v(3)]) (use v(2) m(1) assms(3) in auto)
    then have s: "sum_state data len (drop 4 d, l - 4, addWithCarry acc v)"
      using sum_stateI [of m 4 len data "addWithCarry acc v"] m True assms(2) by auto
    from 1(1) [OF True v(1) s] show ?thesis using True v(1) by (subst quadLoop.simps) simp
  next
    case False
    then show ?thesis using 1(2) by (subst quadLoop.simps) (auto simp del: split_paired_Ex)
  qed
qed

lemma pairLoop_ok:
  assumes "sum_state data len (d, l, acc)" "len \<le> length data" "len < UINT64_MAX"
  shows "\<exists>r. pairLoop d l acc = Some r \<and> sum_state data len r \<and> fst (snd r) < 2"
  using assms(1)
proof (induction d l acc rule: pairLoop.induct)
  case (1 d l acc)
  show ?case
  proof (cases "2 \<le> l")
    case True
    obtain m where m: "m + l = len" "even m" "d = drop m data" "l \<le> length d" "acc_ok acc (word_sum (take m data)) m"
      using sum_stateE [OF 1(2) assms(2)] by blast
    obtain v where v: "readBigEndian16 d 0 = Some v" "v \<le> UINT16_MAX" "same_sum v (word_sum (take 2 d))"
      using read16_ok [of 0 d] m(4) True by auto
    have "acc_ok (addWithCarry acc v) (word_sum (take m data) + word_sum (take 2 d)) (m + 2)"
      by (rule acc_step [OF m(5) _ v(3)]) (use v(2) m(1) assms(3) in auto)
    then have s: "sum_state data len (drop 2 d, l - 2, addWithCarry acc v)"
      using sum_stateI [of m 2 len data "addWithCarry acc v"] m True assms(2) by auto
    from 1(1) [OF True v(1) s] show ?thesis using True v(1) by (subst pairLoop.simps) simp
  next
    case False
    then show ?thesis using 1(2) by (subst pairLoop.simps) (auto simp del: split_paired_Ex)
  qed
qed

lemma fold_same:
  assumes "d mod 65535 = 1"
  shows "same_sum (s mod d + s div d) s"
proof -
  have "s = s div d * d + s mod d" by simp
  moreover have "same_sum (s div d * d + s mod d) (s div d + s mod d)"
    by (rule same_sum_shift) (use assms in simp_all)
  ultimately show ?thesis by (metis same_sum_sym add.commute)
qed

lemma foldLoop_ok:
  assumes "0 < w" "2 ^ w mod 65535 = (1 :: nat)"
  shows "foldLoop w s < 2 ^ w \<and> same_sum (foldLoop w s) s"
  using assms
proof (induction w s rule: foldLoop.induct)
  case (1 w s)
  show ?case
  proof (cases "s div 2 ^ w = 0")
    case True
    then have "foldLoop w s = s" by (subst foldLoop.simps) (simp only: simp_thms if_False)
    moreover have "s < 2 ^ w" using True by (simp only: div_eq_0_iff) simp
    ultimately show ?thesis by simp
  next
    case False
    let ?t = "s mod 2 ^ w + s div 2 ^ w"
    have "foldLoop w s = foldLoop w ?t" using False 1(2) by (subst foldLoop.simps) (simp only: simp_thms if_True)
    moreover have "foldLoop w ?t < 2 ^ w \<and> same_sum (foldLoop w ?t) ?t" using 1(1) [OF conjI [OF 1(2) False] 1(2,3)] .
    ultimately show ?thesis using same_sum_trans [OF _ fold_same [OF 1(3)]] by metis
  qed
qed

lemma sum_state_start: "sum_state data len (data, len, (0, 0))"
  by (auto simp: sum_state_def acc_ok_def intro: exI [of _ 0])

lemma last_byte_ok:
  assumes "sum_state data len (d, l, acc)" "l < 2" "len \<le> length data" "len < UINT64_MAX"
  shows "\<exists>acc'. (if l \<noteq> 0 then do { b \<leftarrow> rd8 d 0; Some (addWithCarry acc (unat b * 256)) } else Some acc) = Some acc' \<and>
    acc_ok acc' (word_sum (take len data)) (len + 1)"
proof -
  obtain m where m: "m + l = len" "even m" "d = drop m data" "l \<le> length d" "acc_ok acc (word_sum (take m data)) m"
    using sum_stateE [OF assms(1,3)] by blast
  show ?thesis
  proof (cases "l = 0")
    case True
    then show ?thesis using m by (auto simp: acc_ok_def)
  next
    case False
    then have l: "len = Suc m" "m < length data" using assms(2,3) m(1) by auto
    have "word_sum (take len data) = word_sum (take m data) + unat (data ! m) * 256"
      using l m(2) word_sum_append [of "take m data" "[data ! m]"] by (simp add: take_Suc_conv_app_nth)
    moreover have "acc_ok (addWithCarry acc (unat (data ! m) * 256)) (word_sum (take m data) + unat (data ! m) * 256) (len + 1)"
      by (rule acc_step [OF m(5)]) (use l assms(4) unat_byte_less [of "data ! m"] in auto)
    ultimately show ?thesis using False l m(3) by simp
  qed
qed

lemma checksumBuffer_ok:
  assumes "len \<le> length data" "len \<le> UINT16_MAX"
  shows "\<exists>s. checksumBuffer data len = Some s \<and> s \<le> UINT32_MAX \<and> same_sum s (word_sum (take len data))"
proof -
  have big: "len < UINT64_MAX" using assms(2) by simp
  note step = blocksLoop_ok [OF _ assms(1) big]
  obtain d1 l1 a1 where 1: "blocksLoop 8 data len (0, 0) = Some (d1, l1, a1)" "sum_state data len (d1, l1, a1)"
    using step [OF sum_state_start, of 8] by (metis prod_cases3 zero_less_numeral)
  obtain d2 l2 a2 where 2: "blocksLoop 4 d1 l1 a1 = Some (d2, l2, a2)" "sum_state data len (d2, l2, a2)"
    using step [OF 1(2), of 4] by (metis prod_cases3 zero_less_numeral)
  obtain d3 l3 a3 where 3: "blocksLoop 2 d2 l2 a2 = Some (d3, l3, a3)" "sum_state data len (d3, l3, a3)"
    using step [OF 2(2), of 2] by (metis prod_cases3 zero_less_numeral)
  obtain d4 l4 a4 where 4: "blocksLoop 1 d3 l3 a3 = Some (d4, l4, a4)" "sum_state data len (d4, l4, a4)"
    using step [OF 3(2), of 1] by (metis prod_cases3 zero_less_one)
  obtain d5 l5 a5 where 5: "quadLoop d4 l4 a4 = Some (d5, l5, a5)" "sum_state data len (d5, l5, a5)"
    using quadLoop_ok [OF 4(2) assms(1) big] by (metis prod_cases3)
  obtain d6 l6 a6 where 6: "pairLoop d5 l5 a5 = Some (d6, l6, a6)" "sum_state data len (d6, l6, a6)" "l6 < 2"
    using pairLoop_ok [OF 5(2) assms(1) big] by (metis prod_cases3 fst_conv snd_conv)
  obtain acc where 7: "(if l6 \<noteq> 0 then do { b \<leftarrow> rd8 d6 0; Some (addWithCarry a6 (unat b * 256)) } else Some a6) = Some acc"
    "acc_ok acc (word_sum (take len data)) (len + 1)"
    using last_byte_ok [OF 6(2,3) assms(1) big] by blast
  let ?h = "fst acc mod 2 ^ 32 + fst acc div 2 ^ 32"
  have acc: "fst acc \<le> UINT64_MAX" "snd acc \<le> 65536" "same_sum (fst acc + snd acc * 2 ^ 64) (word_sum (take len data))"
    using 7(2) assms(2) by (auto simp: acc_ok_def)
  have "fst acc div 2 ^ 32 \<le> UINT32_MAX" using div_le_mono [OF acc(1), of "2 ^ 32"] by simp
  moreover have "fst acc mod 2 ^ 32 < 2 ^ 32" by simp
  ultimately have small: "?h \<le> UINT64_MAX" "?h + snd acc \<le> UINT64_MAX" using acc(2) by simp_all
  have "same_sum (?h + snd acc) (fst acc + snd acc * 2 ^ 64)"
    by (rule same_sum_add [OF fold_same])
      (simp_all add: same_sum_def mod_mult_right_eq [symmetric, of _ "18446744073709551616"])
  then have same: "same_sum (?h + snd acc) (word_sum (take len data))" using acc(3) by (rule same_sum_trans)
  have f: "foldLoop 32 (?h + snd acc) < 2 ^ 32" "same_sum (foldLoop 32 (?h + snd acc)) (?h + snd acc)"
    using foldLoop_ok [of 32 "?h + snd acc"] by simp_all
  have "checksumBuffer data len = Some (u32 (foldLoop 32 (u64 (u64 ?h + snd acc))))"
    unfolding checksumBuffer_def by (simp only: 1(1) 2(1) 3(1) 4(1) 5(1) 6(1) 7(1) Option.bind.bind_lunit prod.case Let_def)
  also have "\<dots> = Some (foldLoop 32 (?h + snd acc))" using small f(1) by simp
  finally show ?thesis using f same_sum_trans [OF f(2) same] by auto
qed

lemma finalize_canon: "finalizeChecksum s = 65535 - canon s"
proof -
  have f: "foldLoop 16 s \<le> 65535" "same_sum (foldLoop 16 s) s" using foldLoop_ok [of 16 s] by simp_all
  have "2 ^ 64 - 1 - foldLoop 16 s = 65535 - foldLoop 16 s + (2 ^ 48 - 1) * 2 ^ 16" using f(1) by simp
  then have "finalizeChecksum s = (65535 - foldLoop 16 s) mod 2 ^ 16" unfolding finalizeChecksum_def by (simp only: mod_mult_self1)
  then show ?thesis using canon_unique [OF f] by simp
qed

lemma canon_cong: "same_sum a b \<Longrightarrow> canon a = canon b"
  by (auto simp: canon_def same_sum_def)

section \<open>Properties\<close>

text \<open>C18. The portable checksum is the Internet checksum: for every length a 16-bit argument can have and
  every 32-bit seed, the unrolled 64-bit sum with its deferred carries and late reductions is the one's
  complement sum of RFC 1071 over the first \<open>len\<close> bytes, odd lengths padded, and no byte behind them is
  read.\<close>

theorem checksum_is_rfc1071:
  assumes "len \<le> length data" "len \<le> UINT16_MAX" "initial \<le> UINT32_MAX"
  shows "checksumDefault lwip_htons data len initial = Some (lwip_htons (rfc1071 initial (take len data)))"
proof -
  obtain s where s: "checksumBuffer data len = Some s" "s \<le> UINT32_MAX" "same_sum s (word_sum (take len data))"
    using checksumBuffer_ok [OF assms(1,2)] by blast
  have "canon (initial + s) = canon (initial + word_sum (take len data))"
    by (rule canon_cong [OF same_sum_add [OF same_sum_refl s(3)]])
  then show ?thesis
    using s(1,2) assms(3) by (simp add: checksumDefault_def cChecksum_def finalize_canon rfc1071_canon)
qed

theorem checksum_is_rfc1071_witness:
  "checksumDefault (\<lambda>v. v mod 256 * 256 + v div 256) [69, 0, 1] 3 4294967295 = Some 65465"
  using checksum_is_rfc1071 [of 3 "[69, 0, 1]" 4294967295 "\<lambda>v. v mod 256 * 256 + v div 256"]
  by (simp add: rfc1071_def be16_def ones_add_def)

end
