(* ===== verification/Splice_Stream.thy ===== *)
theory Splice_Stream
  imports Buffer_Queue
begin

text \<open>
  The framing queue of \<open>ww/bufio/splice_stream.c\<close>, the range helpers it uses from
  \<open>ww/bufio/splice_buffer.h\<close> and \<open>splice_buffer.c\<close>, and the frame reader of
  \<open>ww/bufio/splice_frame_reader.h\<close> and \<open>splice_frame_reader.c\<close>: a first-in first-out sequence of
  buffers whose next fixed-size header is gathered into a cache as soon as its bytes arrive.

  This is the build without kernel splice (\<open>WW_HAVE_SPLICE\<close> is 0), where the pool of splice buffers
  is always empty and every access to the pipe of a splice buffer aborts; the branches on the splice
  flag are kept. The stream holds a pointer to the worker's pool, which other code uses between
  calls, so the pool is an argument and a result. The queue of pending buffers is never bound to a
  budget.
\<close>

section \<open>Ranges of a buffer\<close>

definition sbufGetResidentPrefixLength :: "sbuf \<Rightarrow> nat option" where
  "sbufGetResidentPrefixLength b =
     (if \<not> sbufIsSplice b then Some (sbufGetLength b)
      else do {
        ensure (curpos b \<le> l_pad b \<and> sub32 (l_pad b) (curpos b) \<le> sbufGetLength b);
        Some (sub32 (l_pad b) (curpos b))
      })"

definition sbufReadRangeToMemory :: "sbuf \<Rightarrow> nat \<Rightarrow> (byte list \<times> sbuf) option" where
  "sbufReadRangeToMemory source bytes = do {
     ensure (bytes \<le> sbufGetLength source);
     resident \<leftarrow> sbufGetResidentPrefixLength source;
     let prefix = min bytes resident;
     xs \<leftarrow> sbufRead source prefix;
     source \<leftarrow> sbufShiftRight source prefix;
     if bytes \<noteq> prefix then None else Some (xs, source)
   }"

definition sbufMoveRangeTo ::
  "buffer_pool \<Rightarrow> sbuf \<Rightarrow> sbuf option \<Rightarrow> nat \<Rightarrow> nat \<Rightarrow> nat \<Rightarrow> (sbuf \<times> sbuf \<times> buffer_pool) option" where
  "sbufMoveRangeTo pool source dest bytes final_size padding = do {
     ensure (bytes \<le> sbufGetLength source \<and> bytes \<le> final_size);
     ensure (dest = None \<or> sbufGetLength (the dest) \<le> sub32 final_size bytes);
     ensure (dest = None \<or> \<not> sbufIsSplice (the dest) \<or> curpos (the dest) = l_pad (the dest));
     if dest \<noteq> None \<and> sbufIsSplice (the dest) \<and> bytes = 0 then Some (the dest, source, pool)
     else do {
       (dest, pool) \<leftarrow> (case dest of
           None \<Rightarrow> bufferpoolGetBestFit pool final_size padding
         | Some d \<Rightarrow>
             if \<not> sbufIsSplice d then Some (d, pool)
             else do {
               (ordinary, pool) \<leftarrow> bufferpoolGetBestFit pool final_size padding;
               ensure (sbufGetLength d = 0);
               pool \<leftarrow> bufferpoolReuseBuffer pool d;
               Some (ordinary, pool)
             });
       if sbufIsSplice source then None
       else do {
         (dest, source) \<leftarrow> sbufMoveTo dest source bytes;
         Some (dest, source, pool)
       }
     }
   }"

section \<open>The stream\<close>

record 'q splice_stream =
  ss_pending :: "'q buffer_queue"
  ss_head :: "sbuf option"
  ss_head_charge :: nat
  ss_total :: nat
  ss_charge :: nat
  ss_header_size :: nat
  ss_header_filled :: nat
  ss_header :: "byte list"

text \<open>The store of budgets of an unbound queue.\<close>

definition no_budgets :: budgets where
  "no_budgets = (\<lambda>_. bufferbudgetInit zero_cost)"

definition splicestreamCreate :: "('q, sbuf) deque_ops \<Rightarrow> nat \<Rightarrow> nat \<Rightarrow> 'q splice_stream option" where
  "splicestreamCreate D sizeof_stream header_size =
     (if u64 (header_size + sizeof_stream) > SIZE_MAX then None
      else Some \<lparr>ss_pending = bufferqueueInitEmpty D, ss_head = None, ss_head_charge = 0, ss_total = 0,
        ss_charge = 0, ss_header_size = header_size, ss_header_filled = 0, ss_header = replicate header_size 0\<rparr>)"

definition streamHead ::
  "('q, sbuf) deque_ops \<Rightarrow> 'q splice_stream \<Rightarrow> (sbuf option \<times> 'q splice_stream) option" where
  "streamHead D s =
     (case ss_head s of
        Some h \<Rightarrow> Some (Some h, s)
      | None \<Rightarrow> do {
          (head, _, pending, _) \<leftarrow> bufferqueuePopFront D no_budgets (ss_pending s);
          let s = s\<lparr>ss_pending := pending, ss_head := head\<rparr>;
          case head of
            None \<Rightarrow> Some (None, s)
          | Some h \<Rightarrow> do {
              charge \<leftarrow> sbufGetQueueCharge h;
              Some (Some h, s\<lparr>ss_head_charge := charge\<rparr>)
            }
        })"

definition streamDetachHead :: "'q splice_stream \<Rightarrow> sbuf option \<times> 'q splice_stream" where
  "streamDetachHead s =
     (ss_head s, s\<lparr>ss_charge := sub64 (ss_charge s) (ss_head_charge s), ss_head := None, ss_head_charge := 0\<rparr>)"

definition streamRecycleEmptyHead ::
  "'q splice_stream \<Rightarrow> buffer_pool \<Rightarrow> ('q splice_stream \<times> buffer_pool) option" where
  "streamRecycleEmptyHead s pool =
     (case ss_head s of
        None \<Rightarrow> None
      | Some head \<Rightarrow> do {
          charge \<leftarrow> sbufGetQueueCharge head;
          ensure (charge \<le> ss_head_charge s);
          let s = s\<lparr>ss_charge := sub64 (ss_charge s) (sub64 (ss_head_charge s) charge), ss_head_charge := charge\<rparr>;
          if sbufGetLength head = 0 then do {
            pool \<leftarrow> bufferpoolReuseBuffer pool head;
            Some (snd (streamDetachHead s), pool)
          }
          else Some (s, pool)
        })"

text \<open>One turn of the loop of \<open>streamFillHeader\<close>; the flag says whether the loop goes on.\<close>

definition streamFillTurn ::
  "('q, sbuf) deque_ops \<Rightarrow> 'q splice_stream \<Rightarrow> buffer_pool \<Rightarrow> (bool \<times> 'q splice_stream \<times> buffer_pool) option" where
  "streamFillTurn D s pool =
     (if ss_header_filled s < ss_header_size s then do {
        (head, s) \<leftarrow> streamHead D s;
        case head of
          None \<Rightarrow> Some (False, s, pool)
        | Some head \<Rightarrow> do {
            let count = min (sub32 (ss_header_size s) (ss_header_filled s)) (sbufGetLength head);
            (xs, head) \<leftarrow> sbufReadRangeToMemory head count;
            header \<leftarrow> mem_write (ss_header s) (ss_header_filled s) xs;
            let s = s\<lparr>ss_head := Some head, ss_header := header, ss_header_filled := u32 (ss_header_filled s + count)\<rparr>;
            (s, pool) \<leftarrow> streamRecycleEmptyHead s pool;
            Some (True, s, pool)
          }
      }
      else Some (False, s, pool))"

partial_function (option) streamFillHeader ::
  "('q, sbuf) deque_ops \<Rightarrow> 'q splice_stream \<Rightarrow> buffer_pool \<Rightarrow> ('q splice_stream \<times> buffer_pool) option" where
  "streamFillHeader D s pool = Option.bind (streamFillTurn D s pool)
     (\<lambda>r. if fst r then streamFillHeader D (fst (snd r)) (snd (snd r)) else Some (snd r))"

declare streamFillHeader.simps [code]

section \<open>Input\<close>

text \<open>Appending to the last buffer when its free space suffices, otherwise queueing the input.\<close>

definition streamTail :: "('q, sbuf) deque_ops \<Rightarrow> 'q splice_stream \<Rightarrow> sbuf option" where
  "streamTail D s = (if bufferqueueGetBufCount D (ss_pending s) \<noteq> 0 then Some (dq_back D (bq_q (ss_pending s))) else ss_head s)"

definition streamCanMerge :: "sbuf option \<Rightarrow> sbuf \<Rightarrow> bool option" where
  "streamCanMerge tail input =
     (case tail of
        None \<Rightarrow> Some False
      | Some t \<Rightarrow>
          if sbufIsSplice t \<or> sbufIsSplice input then Some False
          else do { room \<leftarrow> sbufGetTailCapacity t; Some (sbufGetLength input \<le> room) })"

definition streamMerge ::
  "('q, sbuf) deque_ops \<Rightarrow> 'q splice_stream \<Rightarrow> sbuf \<Rightarrow> sbuf \<Rightarrow> buffer_pool \<Rightarrow> ('q splice_stream \<times> buffer_pool) option" where
  "streamMerge D s t input pool = do {
     let len = sbufGetLength input;
     (t, input) \<leftarrow> sbufMoveTo t input len;
     let pending = ss_pending s;
     let s = (if bufferqueueGetBufCount D pending \<noteq> 0
              then s\<lparr>ss_pending := pending\<lparr>bq_q := dq_put_back D (bq_q pending) t, total_len := u64 (total_len pending + len)\<rparr>\<rparr>
              else s\<lparr>ss_head := Some t\<rparr>);
     pool \<leftarrow> bufferpoolReuseBuffer pool input;
     Some (s, pool)
   }"

definition streamEnqueue ::
  "('q, sbuf) deque_ops \<Rightarrow> 'q splice_stream \<Rightarrow> sbuf \<Rightarrow> nat \<Rightarrow> 'q splice_stream option" where
  "streamEnqueue D s input cost = do {
     (s, input) \<leftarrow> (if ss_head s = None \<and> bufferqueueGetBufCount D (ss_pending s) = 0
                     then Some (s\<lparr>ss_head := Some input, ss_head_charge := cost\<rparr>, input)
                     else do {
                       (input, _, pending) \<leftarrow> bufferqueuePushBack D no_budgets (ss_pending s) input;
                       Some (s\<lparr>ss_pending := pending\<rparr>, input)
                     });
     charge \<leftarrow> sbufGetQueueCharge input;
     ensure (charge = cost);
     Some (s\<lparr>ss_charge := u64 (ss_charge s + cost)\<rparr>)
   }"

definition streamReserve ::
  "('q, sbuf) deque_ops \<Rightarrow> 'q splice_stream \<Rightarrow> sbuf \<Rightarrow> nat option \<times> 'q splice_stream" where
  "streamReserve D s input =
     (case sbufTryGetQueueCharge input of
        None \<Rightarrow> (None, s)
      | Some cost \<Rightarrow>
          if ss_charge s > sub64 SIZE_MAX cost \<or> ss_total s > sub64 SIZE_MAX (sbufGetLength input) then (None, s)
          else (case bufferqueueReserveExtra D (ss_pending s) 1 of
            (reserved, pending) \<Rightarrow> (if reserved then Some cost else None, s\<lparr>ss_pending := pending\<rparr>)))"

definition splicestreamPush ::
  "('q, sbuf) deque_ops \<Rightarrow> 'q splice_stream \<Rightarrow> sbuf \<Rightarrow> buffer_pool \<Rightarrow>
   (bool \<times> 'q splice_stream \<times> buffer_pool) option" where
  "splicestreamPush D s input pool =
     (let len = sbufGetLength input in
      if len = 0 then do { pool \<leftarrow> bufferpoolReuseBuffer pool input; Some (True, s, pool) }
      else (case streamReserve D s input of
          (None, s) \<Rightarrow> do { pool \<leftarrow> bufferpoolReuseBuffer pool input; Some (False, s, pool) }
        | (Some cost, s) \<Rightarrow> do {
            merge \<leftarrow> streamCanMerge (streamTail D s) input;
            (s, pool) \<leftarrow> (if merge then streamMerge D s (the (streamTail D s)) input pool
                           else do { s \<leftarrow> streamEnqueue D s input cost; Some (s, pool) });
            (s, pool) \<leftarrow> streamFillHeader D (s\<lparr>ss_total := u64 (ss_total s + len)\<rparr>) pool;
            Some (True, s, pool)
          }))"

definition splicestreamCanAdmit :: "'q splice_stream \<Rightarrow> sbuf \<Rightarrow> nat \<Rightarrow> nat \<Rightarrow> bool" where
  "splicestreamCanAdmit s input max_bytes max_charge =
     (let len = sbufGetLength input in
      if ss_total s > max_bytes \<or> len > sub64 max_bytes (ss_total s) \<or> ss_charge s > max_charge then False
      else if len = 0 then True
      else (case sbufTryGetQueueCharge input of
          None \<Rightarrow> False
        | Some charge \<Rightarrow> charge \<le> sub64 max_charge (ss_charge s)))"

definition splicestreamPeekHeader :: "'q splice_stream \<Rightarrow> byte list option" where
  "splicestreamPeekHeader s = (if ss_header_filled s = ss_header_size s then Some (ss_header s) else None)"

definition splicestreamLength :: "'q splice_stream \<Rightarrow> nat" where
  "splicestreamLength s = ss_total s"

definition splicestreamBodyBytes :: "'q splice_stream \<Rightarrow> nat" where
  "splicestreamBodyBytes s =
     (if ss_header_filled s = ss_header_size s then sub64 (ss_total s) (ss_header_size s) else 0)"

definition splicestreamCharge :: "'q splice_stream \<Rightarrow> nat" where
  "splicestreamCharge s = ss_charge s"

section \<open>Compaction\<close>

text \<open>One turn of the loop that moves every source into the combined buffer.\<close>

definition streamGatherTurn ::
  "('q, sbuf) deque_ops \<Rightarrow> 'q splice_stream \<Rightarrow> sbuf \<Rightarrow> buffer_pool \<Rightarrow>
   (bool \<times> 'q splice_stream \<times> sbuf \<times> buffer_pool) option" where
  "streamGatherTurn D s combined pool = do {
     (head, s) \<leftarrow> streamHead D s;
     case head of
       None \<Rightarrow> Some (False, s, combined, pool)
     | Some source \<Rightarrow> do {
         let s = snd (streamDetachHead s);
         ensure (\<not> sbufIsSplice source);
         (combined, source) \<leftarrow> sbufMoveTo combined source (sbufGetLength source);
         pool \<leftarrow> bufferpoolReuseBuffer pool source;
         Some (True, s, combined, pool)
       }
   }"

partial_function (option) streamGather ::
  "('q, sbuf) deque_ops \<Rightarrow> 'q splice_stream \<Rightarrow> sbuf \<Rightarrow> buffer_pool \<Rightarrow>
   ('q splice_stream \<times> sbuf \<times> buffer_pool) option" where
  "streamGather D s combined pool = Option.bind (streamGatherTurn D s combined pool)
     (\<lambda>r. if fst r then streamGather D (fst (snd r)) (fst (snd (snd r))) (snd (snd (snd r))) else Some (snd r))"

declare streamGather.simps [code]

definition splicestreamCompact ::
  "('q, sbuf) deque_ops \<Rightarrow> 'q splice_stream \<Rightarrow> buffer_pool \<Rightarrow> (bool \<times> 'q splice_stream \<times> buffer_pool) option" where
  "splicestreamCompact D s pool =
     (let bytes = sub64 (ss_total s) (ss_header_filled s) in
      if bytes = 0 then Some (False, s, pool)
      else do {
        query \<leftarrow> bufferpoolQueryBestFit pool bytes (bufferpoolGetLargeBufferPadding pool);
        case query of
          None \<Rightarrow> Some (False, s, pool)
        | Some fit \<Rightarrow>
            if fit_allocation_charge fit \<ge> ss_charge s then Some (False, s, pool)
            else do {
              (combined, pool) \<leftarrow> bufferpoolGetBestFit pool (u32 bytes) (fit_left_padding fit);
              (s, combined, pool) \<leftarrow> streamGather D s combined pool;
              ensure (ss_charge s = 0 \<and> sbufGetLength combined = bytes);
              charge \<leftarrow> sbufGetQueueCharge combined;
              ensure (charge = fit_allocation_charge fit);
              Some (True, s\<lparr>ss_head := Some combined, ss_head_charge := charge, ss_charge := charge\<rparr>, pool)
            }
      })"

definition splicestreamSettleCharge ::
  "('q, sbuf) deque_ops \<Rightarrow> 'q splice_stream \<Rightarrow> nat \<Rightarrow> buffer_pool \<Rightarrow>
   (bool \<times> 'q splice_stream \<times> buffer_pool) option" where
  "splicestreamSettleCharge D s max_charge pool = do {
     (s, pool) \<leftarrow> (if ss_charge s > max_charge
                    then do { (_, s, pool) \<leftarrow> splicestreamCompact D s pool; Some (s, pool) }
                    else Some (s, pool));
     Some (ss_charge s \<le> max_charge, s, pool)
   }"

section \<open>Taking and discarding frames\<close>

definition streamAssertFrame :: "'q splice_stream \<Rightarrow> sbuf option \<Rightarrow> nat \<Rightarrow> unit option" where
  "streamAssertFrame s dest bytes = do {
     ensure (ss_header_filled s = ss_header_size s);
     ensure (bytes \<le> splicestreamBodyBytes s);
     ensure (dest = None \<or> sbufGetLength (the dest) = 0)
   }"

definition streamConsumeChunk ::
  "('q, sbuf) deque_ops \<Rightarrow> 'q splice_stream \<Rightarrow> nat \<Rightarrow> bool \<Rightarrow> buffer_pool \<Rightarrow> ('q splice_stream \<times> buffer_pool) option" where
  "streamConsumeChunk D s bytes finish_frame pool =
     (let s = s\<lparr>ss_total := sub64 (ss_total s) bytes\<rparr> in
      if finish_frame
      then streamFillHeader D (s\<lparr>ss_total := sub64 (ss_total s) (ss_header_size s), ss_header_filled := 0\<rparr>) pool
      else Some (s, pool))"

definition streamMoveTurn ::
  "('q, sbuf) deque_ops \<Rightarrow> 'q splice_stream \<Rightarrow> sbuf \<Rightarrow> nat \<Rightarrow> nat \<Rightarrow> nat \<Rightarrow> buffer_pool \<Rightarrow>
   (sbuf \<times> nat \<times> 'q splice_stream \<times> buffer_pool) option" where
  "streamMoveTurn D s dest remaining bytes padding pool = do {
     (head, s) \<leftarrow> streamHead D s;
     case head of
       None \<Rightarrow> None
     | Some source \<Rightarrow> do {
         let count = min remaining (sbufGetLength source);
         (dest, source, pool) \<leftarrow> sbufMoveRangeTo pool source (Some dest) count bytes padding;
         (s, pool) \<leftarrow> streamRecycleEmptyHead (s\<lparr>ss_head := Some source\<rparr>) pool;
         Some (dest, sub32 remaining count, s, pool)
       }
   }"

partial_function (option) streamMoveLoop ::
  "('q, sbuf) deque_ops \<Rightarrow> 'q splice_stream \<Rightarrow> sbuf \<Rightarrow> nat \<Rightarrow> nat \<Rightarrow> nat \<Rightarrow> buffer_pool \<Rightarrow>
   (sbuf \<times> 'q splice_stream \<times> buffer_pool) option" where
  "streamMoveLoop D s dest remaining bytes padding pool =
     (if remaining = 0 then Some (dest, s, pool)
      else Option.bind (streamMoveTurn D s dest remaining bytes padding pool)
        (\<lambda>r. streamMoveLoop D (fst (snd (snd r))) (fst r) (fst (snd r)) bytes padding (snd (snd (snd r)))))"

declare streamMoveLoop.simps [code]

definition streamMoveBody ::
  "('q, sbuf) deque_ops \<Rightarrow> 'q splice_stream \<Rightarrow> sbuf \<Rightarrow> nat \<Rightarrow> bool \<Rightarrow> buffer_pool \<Rightarrow>
   (sbuf \<times> 'q splice_stream \<times> buffer_pool) option" where
  "streamMoveBody D s dest bytes finish_frame pool = do {
     (dest, s, pool) \<leftarrow> streamMoveLoop D s dest bytes bytes (bufferpoolGetLargeBufferPadding pool) pool;
     (s, pool) \<leftarrow> streamConsumeChunk D s bytes finish_frame pool;
     Some (dest, s, pool)
   }"

text \<open>Whether the next \<open>remaining\<close> bytes of the pending buffers reach into a pipe.\<close>

fun pendingHasPipe :: "sbuf list \<Rightarrow> nat \<Rightarrow> bool \<Rightarrow> bool option" where
  "pendingHasPipe [] remaining has_pipe = Some has_pipe"
| "pendingHasPipe (b # bs) remaining has_pipe =
     (if remaining = 0 \<or> has_pipe then Some has_pipe
      else do {
        let count = min remaining (sbufGetLength b);
        resident \<leftarrow> sbufGetResidentPrefixLength b;
        pendingHasPipe bs (sub32 remaining count) (count > resident)
      })"

definition headHasPipe :: "sbuf option \<Rightarrow> nat \<Rightarrow> bool option" where
  "headHasPipe head head_bytes =
     (case head of
        None \<Rightarrow> Some False
      | Some h \<Rightarrow> do { resident \<leftarrow> sbufGetResidentPrefixLength h; Some (head_bytes > resident) })"

text \<open>A whole buffer that is the requested body is handed out as it is.\<close>

definition wholeHead :: "sbuf option \<Rightarrow> nat \<Rightarrow> nat \<Rightarrow> bool \<Rightarrow> sbuf option \<Rightarrow> bool" where
  "wholeHead head bytes padding has_pipe dest \<longleftrightarrow>
     bytes \<noteq> 0 \<and> head \<noteq> None \<and> sbufGetLength (the head) = bytes \<and> sbufGetLeftCapacity (the head) \<ge> padding \<and>
     (\<not> sbufIsSplice (the head) \<or> has_pipe \<and> dest \<noteq> None \<and> sbufIsSplice (the dest))"

text \<open>A splice destination is given up unless pipe bytes are wanted, which abort in this build.\<close>

definition settleDestination ::
  "buffer_pool \<Rightarrow> sbuf option \<Rightarrow> bool \<Rightarrow> nat \<Rightarrow> nat \<Rightarrow> (sbuf \<times> buffer_pool) option" where
  "settleDestination pool dest has_pipe bytes padding = do {
     (dest, pool) \<leftarrow> (if dest \<noteq> None \<and> sbufIsSplice (the dest) then do {
         ensure (\<not> has_pipe \<or> bytes = 0 \<or> sbufGetLeftCapacity (the dest) < padding);
         pool \<leftarrow> bufferpoolReuseBuffer pool (the dest);
         Some (None, pool)
       }
       else Some (dest, pool));
     case dest of
       None \<Rightarrow> bufferpoolGetBestFit pool bytes padding
     | Some d \<Rightarrow> Some (d, pool)
   }"

definition splicestreamMoveFrameChunk ::
  "('q, sbuf) deque_ops \<Rightarrow> 'q splice_stream \<Rightarrow> sbuf option \<Rightarrow> nat \<Rightarrow> bool \<Rightarrow> buffer_pool \<Rightarrow>
   (sbuf \<times> 'q splice_stream \<times> buffer_pool) option" where
  "splicestreamMoveFrameChunk D s dest bytes finish_frame pool = do {
     streamAssertFrame s dest bytes;
     let padding = bufferpoolGetLargeBufferPadding pool;
     (head, s) \<leftarrow> streamHead D s;
     let head_bytes = (case head of None \<Rightarrow> 0 | Some h \<Rightarrow> min bytes (sbufGetLength h));
     has_pipe \<leftarrow> headHasPipe head head_bytes;
     if wholeHead head bytes padding has_pipe dest then do {
       pool \<leftarrow> (case dest of None \<Rightarrow> Some pool | Some d \<Rightarrow> bufferpoolReuseBuffer pool d);
       (s, pool) \<leftarrow> streamConsumeChunk D (snd (streamDetachHead s)) bytes finish_frame pool;
       Some (the head, s, pool)
     }
     else do {
       has_pipe \<leftarrow> pendingHasPipe (dq_elems D (bq_q (ss_pending s))) (sub32 bytes head_bytes) has_pipe;
       (dest, pool) \<leftarrow> settleDestination pool dest has_pipe bytes padding;
       streamMoveBody D s dest bytes finish_frame pool
     }
   }"

definition splicestreamMoveFrame ::
  "('q, sbuf) deque_ops \<Rightarrow> 'q splice_stream \<Rightarrow> sbuf option \<Rightarrow> nat \<Rightarrow> buffer_pool \<Rightarrow>
   (sbuf \<times> 'q splice_stream \<times> buffer_pool) option" where
  "splicestreamMoveFrame D s dest bytes pool = splicestreamMoveFrameChunk D s dest bytes True pool"

definition splicestreamMoveFrameToOrdinary ::
  "('q, sbuf) deque_ops \<Rightarrow> 'q splice_stream \<Rightarrow> sbuf \<Rightarrow> nat \<Rightarrow> buffer_pool \<Rightarrow>
   (sbuf \<times> 'q splice_stream \<times> buffer_pool) option" where
  "splicestreamMoveFrameToOrdinary D s dest bytes pool = do {
     streamAssertFrame s (Some dest) bytes;
     ensure (\<not> (sbufIsSplice dest \<or> bytes > sbufGetMaximumWriteableSize dest));
     streamMoveBody D s dest bytes True pool
   }"

definition streamDiscardTurn ::
  "('q, sbuf) deque_ops \<Rightarrow> 'q splice_stream \<Rightarrow> nat \<Rightarrow> buffer_pool \<Rightarrow> (nat \<times> 'q splice_stream \<times> buffer_pool) option" where
  "streamDiscardTurn D s remaining pool = do {
     (head, s) \<leftarrow> streamHead D s;
     case head of
       None \<Rightarrow> None
     | Some source \<Rightarrow> do {
         let count = min remaining (sbufGetLength source);
         resident \<leftarrow> sbufGetResidentPrefixLength source;
         let prefix = min count resident;
         source \<leftarrow> sbufShiftRight source prefix;
         ensure (count = prefix);
         (s, pool) \<leftarrow> streamRecycleEmptyHead (s\<lparr>ss_head := Some source\<rparr>) pool;
         Some (sub32 remaining count, s, pool)
       }
   }"

partial_function (option) streamDiscardLoop ::
  "('q, sbuf) deque_ops \<Rightarrow> 'q splice_stream \<Rightarrow> nat \<Rightarrow> buffer_pool \<Rightarrow> ('q splice_stream \<times> buffer_pool) option" where
  "streamDiscardLoop D s remaining pool =
     (if remaining = 0 then Some (s, pool)
      else Option.bind (streamDiscardTurn D s remaining pool)
        (\<lambda>r. streamDiscardLoop D (fst (snd r)) (fst r) (snd (snd r))))"

declare streamDiscardLoop.simps [code]

definition splicestreamDiscardFrameChunk ::
  "('q, sbuf) deque_ops \<Rightarrow> 'q splice_stream \<Rightarrow> nat \<Rightarrow> bool \<Rightarrow> buffer_pool \<Rightarrow> ('q splice_stream \<times> buffer_pool) option" where
  "splicestreamDiscardFrameChunk D s bytes finish_frame pool = do {
     streamAssertFrame s None bytes;
     (s, pool) \<leftarrow> streamDiscardLoop D s bytes pool;
     streamConsumeChunk D s bytes finish_frame pool
   }"

definition splicestreamDiscardFrame ::
  "('q, sbuf) deque_ops \<Rightarrow> 'q splice_stream \<Rightarrow> nat \<Rightarrow> buffer_pool \<Rightarrow> ('q splice_stream \<times> buffer_pool) option" where
  "splicestreamDiscardFrame D s bytes pool = splicestreamDiscardFrameChunk D s bytes True pool"

partial_function (option) streamReleaseAll ::
  "('q, sbuf) deque_ops \<Rightarrow> 'q splice_stream \<Rightarrow> buffer_pool \<Rightarrow> ('q splice_stream \<times> buffer_pool) option" where
  "streamReleaseAll D s pool = Option.bind (streamHead D s)
     (\<lambda>r. case fst r of
        None \<Rightarrow> Some (snd r, pool)
      | Some h \<Rightarrow> Option.bind (bufferpoolReuseBuffer pool h)
          (\<lambda>pool. streamReleaseAll D (snd (streamDetachHead (snd r))) pool))"

declare streamReleaseAll.simps [code]

definition splicestreamDestroy ::
  "('q, sbuf) deque_ops \<Rightarrow> 'q splice_stream option \<Rightarrow> buffer_pool \<Rightarrow> buffer_pool option" where
  "splicestreamDestroy D stream pool =
     (case stream of
        None \<Rightarrow> Some pool
      | Some s \<Rightarrow> do {
          (s, pool) \<leftarrow> streamReleaseAll D s pool;
          (_, pool, _) \<leftarrow> bufferqueueDestroy D no_budgets pool (ss_pending s);
          ensure (ss_charge s = 0);
          Some pool
        })"

section \<open>The frame reader\<close>

record 'q splice_frame_reader =
  fr_stream :: "'q splice_stream option"
  fr_nested_bytes :: nat
  fr_retained_charge :: nat
  fr_frame_remaining :: nat
  fr_splice_output :: bool
  fr_draining :: bool
  fr_frame_active :: bool

datatype splice_frame_admit =
    SpliceFrameDrain
  | SpliceFrameQueued
  | SpliceFrameEmpty
  | SpliceFrameByteLimit
  | SpliceFrameChargeLimit
  | SpliceFramePushFailed

definition zero_reader :: "'q splice_frame_reader" where
  "zero_reader = \<lparr>fr_stream = None, fr_nested_bytes = 0, fr_retained_charge = 0, fr_frame_remaining = 0,
     fr_splice_output = False, fr_draining = False, fr_frame_active = False\<rparr>"

definition spliceframereaderInit ::
  "('q, sbuf) deque_ops \<Rightarrow> nat \<Rightarrow> nat \<Rightarrow> nat \<Rightarrow> nat \<Rightarrow> bool \<Rightarrow> 'q splice_frame_reader option" where
  "spliceframereaderInit D sizeof_stream header_size nested_bytes retained_charge splice_output = do {
     ensure (header_size \<noteq> 0 \<and> u64 (header_size + sizeof_stream) \<le> SIZE_MAX);
     Some (zero_reader\<lparr>fr_stream := splicestreamCreate D sizeof_stream header_size,
       fr_nested_bytes := nested_bytes, fr_retained_charge := retained_charge, fr_splice_output := splice_output\<rparr>)
   }"

definition spliceframereaderDestroy ::
  "('q, sbuf) deque_ops \<Rightarrow> 'q splice_frame_reader \<Rightarrow> buffer_pool \<Rightarrow> ('q splice_frame_reader \<times> buffer_pool) option" where
  "spliceframereaderDestroy D r pool = do {
     pool \<leftarrow> splicestreamDestroy D (fr_stream r) pool;
     Some (zero_reader, pool)
   }"

definition spliceframereaderIsAttached :: "'q splice_frame_reader \<Rightarrow> bool" where
  "spliceframereaderIsAttached r \<longleftrightarrow> fr_stream r \<noteq> None"

text \<open>A use of the stream of a detached reader follows a null pointer.\<close>

definition spliceframereaderPeekHeader :: "'q splice_frame_reader \<Rightarrow> byte list option option" where
  "spliceframereaderPeekHeader r = do { s \<leftarrow> fr_stream r; Some (splicestreamPeekHeader s) }"

definition spliceframereaderLength :: "'q splice_frame_reader \<Rightarrow> nat option" where
  "spliceframereaderLength r = do { s \<leftarrow> fr_stream r; Some (splicestreamLength s) }"

definition spliceframereaderCharge :: "'q splice_frame_reader \<Rightarrow> nat option" where
  "spliceframereaderCharge r = do { s \<leftarrow> fr_stream r; Some (splicestreamCharge s) }"

definition spliceframereaderBodyReady :: "'q splice_frame_reader \<Rightarrow> nat \<Rightarrow> bool option" where
  "spliceframereaderBodyReady r body_bytes = do {
     ensure (\<not> fr_frame_active r);
     s \<leftarrow> fr_stream r;
     Some (splicestreamPeekHeader s \<noteq> None \<and> splicestreamBodyBytes s \<ge> body_bytes)
   }"

definition spliceframereaderFrameAvailable :: "'q splice_frame_reader \<Rightarrow> nat option" where
  "spliceframereaderFrameAvailable r =
     (if fr_frame_active r then do { s \<leftarrow> fr_stream r; Some (u32 (min (fr_frame_remaining r) (splicestreamBodyBytes s))) }
      else Some 0)"

definition spliceframereaderAdmit ::
  "('q, sbuf) deque_ops \<Rightarrow> 'q splice_frame_reader \<Rightarrow> sbuf \<Rightarrow> buffer_pool \<Rightarrow>
   (splice_frame_admit \<times> 'q splice_frame_reader \<times> buffer_pool) option" where
  "spliceframereaderAdmit D r input pool = do {
     s \<leftarrow> fr_stream r;
     let len = sbufGetLength input;
     if len = 0 then do {
       pool \<leftarrow> bufferpoolReuseBuffer pool input;
       Some (SpliceFrameEmpty, r, pool)
     }
     else if fr_draining r \<and> (splicestreamLength s > fr_nested_bytes r \<or> len > sub64 (fr_nested_bytes r) (splicestreamLength s)) then do {
       pool \<leftarrow> bufferpoolReuseBuffer pool input;
       Some (SpliceFrameByteLimit, r, pool)
     }
     else do {
       (pushed, s, pool) \<leftarrow> splicestreamPush D s input pool;
       if \<not> pushed then Some (SpliceFramePushFailed, r\<lparr>fr_stream := Some s\<rparr>, pool)
       else if fr_draining r then do {
         (settled, s, pool) \<leftarrow> splicestreamSettleCharge D s (fr_retained_charge r) pool;
         Some (if settled then SpliceFrameQueued else SpliceFrameChargeLimit, r\<lparr>fr_stream := Some s\<rparr>, pool)
       }
       else Some (SpliceFrameDrain, r\<lparr>fr_stream := Some s, fr_draining := True\<rparr>, pool)
     }
   }"

definition spliceframereaderEndDrain ::
  "('q, sbuf) deque_ops \<Rightarrow> 'q splice_frame_reader \<Rightarrow> buffer_pool \<Rightarrow>
   (bool \<times> 'q splice_frame_reader \<times> buffer_pool) option" where
  "spliceframereaderEndDrain D r pool = do {
     ensure (fr_draining r);
     s \<leftarrow> fr_stream r;
     (settled, s, pool) \<leftarrow> splicestreamSettleCharge D s (fr_retained_charge r) pool;
     if \<not> settled then Some (False, r\<lparr>fr_stream := Some s\<rparr>, pool)
     else Some (True, r\<lparr>fr_stream := Some s, fr_draining := False\<rparr>, pool)
   }"

text \<open>The pool of splice buffers is empty in this build, so no destination is requested.\<close>

definition bufferpoolGetSpliceBuffer :: "buffer_pool \<Rightarrow> sbuf option" where
  "bufferpoolGetSpliceBuffer pool = None"

definition spliceframereaderTakeFrame ::
  "('q, sbuf) deque_ops \<Rightarrow> 'q splice_frame_reader \<Rightarrow> nat \<Rightarrow> buffer_pool \<Rightarrow>
   (sbuf \<times> 'q splice_frame_reader \<times> buffer_pool) option" where
  "spliceframereaderTakeFrame D r body_bytes pool = do {
     ensure (fr_draining r \<and> \<not> fr_frame_active r);
     s \<leftarrow> fr_stream r;
     let destination = (if fr_splice_output r \<and> body_bytes \<noteq> 0 then bufferpoolGetSpliceBuffer pool else None);
     (body, s, pool) \<leftarrow> splicestreamMoveFrame D s destination body_bytes pool;
     Some (body, r\<lparr>fr_stream := Some s\<rparr>, pool)
   }"

definition spliceframereaderDiscardFrame ::
  "('q, sbuf) deque_ops \<Rightarrow> 'q splice_frame_reader \<Rightarrow> nat \<Rightarrow> buffer_pool \<Rightarrow> ('q splice_frame_reader \<times> buffer_pool) option" where
  "spliceframereaderDiscardFrame D r body_bytes pool = do {
     ensure (fr_draining r \<and> \<not> fr_frame_active r);
     s \<leftarrow> fr_stream r;
     (s, pool) \<leftarrow> splicestreamDiscardFrame D s body_bytes pool;
     Some (r\<lparr>fr_stream := Some s\<rparr>, pool)
   }"

definition spliceframereaderBeginFrame :: "'q splice_frame_reader \<Rightarrow> nat \<Rightarrow> 'q splice_frame_reader option" where
  "spliceframereaderBeginFrame r body_bytes = do {
     ensure (fr_draining r \<and> \<not> fr_frame_active r);
     header \<leftarrow> spliceframereaderPeekHeader r;
     ensure (header \<noteq> None);
     Some (r\<lparr>fr_frame_remaining := body_bytes, fr_frame_active := True\<rparr>)
   }"

definition frameReaderConsumeChunk :: "'q splice_frame_reader \<Rightarrow> nat \<Rightarrow> (bool \<times> 'q splice_frame_reader) option" where
  "frameReaderConsumeChunk r bytes = do {
     available \<leftarrow> spliceframereaderFrameAvailable r;
     ensure (fr_draining r \<and> fr_frame_active r \<and> bytes \<le> available);
     let remaining = sub32 (fr_frame_remaining r) bytes;
     Some (remaining = 0, r\<lparr>fr_frame_remaining := remaining, fr_frame_active := (remaining \<noteq> 0)\<rparr>)
   }"

definition spliceframereaderTakeChunk ::
  "('q, sbuf) deque_ops \<Rightarrow> 'q splice_frame_reader \<Rightarrow> nat \<Rightarrow> buffer_pool \<Rightarrow>
   (sbuf \<times> 'q splice_frame_reader \<times> buffer_pool) option" where
  "spliceframereaderTakeChunk D r bytes pool = do {
     (finish_frame, r) \<leftarrow> frameReaderConsumeChunk r bytes;
     s \<leftarrow> fr_stream r;
     let destination = (if fr_splice_output r \<and> bytes \<noteq> 0 then bufferpoolGetSpliceBuffer pool else None);
     (body, s, pool) \<leftarrow> splicestreamMoveFrameChunk D s destination bytes finish_frame pool;
     Some (body, r\<lparr>fr_stream := Some s\<rparr>, pool)
   }"

definition spliceframereaderDiscardChunk ::
  "('q, sbuf) deque_ops \<Rightarrow> 'q splice_frame_reader \<Rightarrow> nat \<Rightarrow> buffer_pool \<Rightarrow> ('q splice_frame_reader \<times> buffer_pool) option" where
  "spliceframereaderDiscardChunk D r bytes pool = do {
     (finish_frame, r) \<leftarrow> frameReaderConsumeChunk r bytes;
     s \<leftarrow> fr_stream r;
     (s, pool) \<leftarrow> splicestreamDiscardFrameChunk D s bytes finish_frame pool;
     Some (r\<lparr>fr_stream := Some s\<rparr>, pool)
   }"

end
