(* ===== verification/Splice_Laws.thy ===== *)
theory Splice_Laws
  imports Splice_Stream Queue_Laws
begin

text \<open>
  Correctness of the framing queue and the frame reader: the header cache followed by the held
  buffers is one byte sequence, which input extends and frames are cut off, the cached totals and
  charges are exact, and compaction bounds the charge.
\<close>

section \<open>Abstraction and invariant\<close>

definition storage :: "sbuf \<Rightarrow> nat" where
  "storage b = cost_charge (entry_cost b)"

definition sources :: "('q, sbuf) deque_ops \<Rightarrow> 'q splice_stream \<Rightarrow> sbuf list" where
  "sources D s = (case ss_head s of None \<Rightarrow> [] | Some h \<Rightarrow> [h]) @ dq_elems D (bq_q (ss_pending s))"

definition source_bytes :: "('q, sbuf) deque_ops \<Rightarrow> 'q splice_stream \<Rightarrow> byte list" where
  "source_bytes D s = concat (map payload (sources D s))"

definition frame_bytes :: "('q, sbuf) deque_ops \<Rightarrow> 'q splice_stream \<Rightarrow> byte list" where
  "frame_bytes D s = take (ss_header_filled s) (ss_header s) @ source_bytes D s"

definition live_buf :: "sbuf \<Rightarrow> bool" where
  "live_buf b \<longleftrightarrow> sbuf_ok b \<and> 0 < sb_len b"

definition ss_inv :: "('q, sbuf) deque_ops \<Rightarrow> 'q splice_stream \<Rightarrow> bool" where
  "ss_inv D s \<longleftrightarrow> (\<forall>b\<in>set (sources D s). live_buf b) \<and>
     queue_ok D (ss_pending s) \<and> bq_budget (ss_pending s) = None \<and>
     ss_head_charge s = (case ss_head s of None \<Rightarrow> 0 | Some h \<Rightarrow> storage h) \<and>
     ss_charge s = sum_list (map storage (sources D s)) \<and> ss_charge s \<le> SIZE_MAX \<and>
     ss_header_filled s \<le> ss_header_size s \<and> ss_header_size s \<le> UINT32_MAX \<and>
     length (ss_header s) = ss_header_size s"

text \<open>Between operations the total is exact and no source waits behind an incomplete header.\<close>

definition ss_ok :: "('q, sbuf) deque_ops \<Rightarrow> 'q splice_stream \<Rightarrow> bool" where
  "ss_ok D s \<longleftrightarrow> ss_inv D s \<and> ss_total s = length (frame_bytes D s) \<and> ss_total s \<le> SIZE_MAX \<and>
     (ss_header_filled s < ss_header_size s \<longrightarrow> sources D s = [])"

definition same_header :: "'q splice_stream \<Rightarrow> 'q splice_stream \<Rightarrow> bool" where
  "same_header s t \<longleftrightarrow> ss_total t = ss_total s \<and> ss_header_size t = ss_header_size s \<and>
     ss_header_filled t = ss_header_filled s \<and> ss_header t = ss_header s"

lemma same_header_refl [simp]: "same_header s s"
  by (simp add: same_header_def)

lemma same_header_trans: "same_header s t \<Longrightarrow> same_header t u \<Longrightarrow> same_header s u"
  by (simp add: same_header_def)

lemma storage_eq: "storage b = sb_capacity b + 64"
  by (simp add: storage_def entry_cost_def sbuf_consts)

lemma storage_charge: "sbuf_ok b \<Longrightarrow> sbufGetQueueCharge b = Some (storage b)"
  "sbuf_ok b \<Longrightarrow> sbufTryGetQueueCharge b = Some (storage b)"
  by (simp_all add: queueCharge_eq storage_def)

lemma storage_bound: "sbuf_ok b \<Longrightarrow> storage b \<le> UINT32_MAX + 64"
  using sbuf_okD(2) [of b] by (simp add: storage_eq)

lemma no_budgets_ok [simp]: "budget_ok (no_budgets r)"
  by (simp add: no_budgets_def budget_ok_def bufferbudgetInit_def zero_cost_def)

lemma unbound_covered: "bq_budget q = None \<Longrightarrow> covered no_budgets [bq_account q]"
  by (simp add: covered_def bq_account_def)

lemma ss_invD:
  assumes "ss_inv D s"
  shows "\<forall>b\<in>set (sources D s). live_buf b" "queue_ok D (ss_pending s)" "bq_budget (ss_pending s) = None"
    "ss_charge s = sum_list (map storage (sources D s))" "ss_charge s \<le> SIZE_MAX"
    "ss_header_filled s \<le> ss_header_size s" "ss_header_size s \<le> UINT32_MAX"
    "length (ss_header s) = ss_header_size s"
  using assms by (simp_all add: ss_inv_def)

lemma ss_inv_header:
  assumes "ss_inv D s" "f \<le> ss_header_size s" "length hh = ss_header_size s"
  shows "ss_inv D (s\<lparr>ss_header := hh, ss_header_filled := f, ss_total := n\<rparr>)"
  using assms by (simp add: ss_inv_def sources_def)

lemma ss_inv_total [simp]: "ss_inv D (s\<lparr>ss_total := n\<rparr>) = ss_inv D s"
  "sources D (s\<lparr>ss_total := n\<rparr>) = sources D s" "source_bytes D (s\<lparr>ss_total := n\<rparr>) = source_bytes D s"
  by (simp_all add: ss_inv_def sources_def source_bytes_def)

lemma source_bytes_header [simp]:
  "sources D (s\<lparr>ss_header := hh\<rparr>) = sources D s" "sources D (s\<lparr>ss_header_filled := f\<rparr>) = sources D s"
  "source_bytes D (s\<lparr>ss_header := hh\<rparr>) = source_bytes D s"
  "source_bytes D (s\<lparr>ss_header_filled := f\<rparr>) = source_bytes D s"
  by (simp_all add: sources_def source_bytes_def)

lemma source_bytes_Cons: "sources D s = h # rest \<Longrightarrow> source_bytes D s = payload h @ concat (map payload rest)"
  by (simp add: source_bytes_def)

lemma source_bytes_Nil:
  assumes "ss_inv D s"
  shows "source_bytes D s = [] \<longleftrightarrow> sources D s = []"
proof
  assume e: "source_bytes D s = []"
  show "sources D s = []"
  proof (cases "sources D s")
    case (Cons h rest)
    then have "live_buf h" using ss_invD(1) [OF assms] by simp
    then have "payload h \<noteq> []" using length_payload [of h] by (auto simp: live_buf_def)
    then show ?thesis using e source_bytes_Cons [OF Cons] by simp
  qed
qed (simp add: source_bytes_def)

section \<open>Best fit for the padding a query reports\<close>

lemma round_up_mono: "n \<le> m \<Longrightarrow> round_up k n \<le> round_up k m"
  unfolding round_up_def by (intro mult_right_mono div_le_mono) simp_all

lemma sbuf_fits_mono: "sbuf_fits m pad' \<Longrightarrow> n \<le> m \<Longrightarrow> pad \<le> pad' \<Longrightarrow> sbuf_fits n pad"
  using round_up_mono [of n m 64] round_up_mono [of pad pad' 32] by (simp add: sbuf_fits_def)

lemma select_unfit:
  assumes "pool_ok p" "\<not> sbuf_fits n pad"
  shows "bufferpoolSelectBestFit p n pad = kBufferPoolTierDedicated"
proof -
  have "\<not> tier_fits t n pad" if "tier_ok (bp_cap p) t" for t
    using sbuf_fits_mono [OF tier_okD(3) [OF that]] assms(2) by (auto simp: tier_fits_def)
  then show ?thesis using assms(1) by (simp add: pool_ok_def bufferpoolSelectBestFit_def)
qed

lemma query_unfit:
  assumes "pool_ok p" "\<not> sbuf_fits n pad" "pad \<le> UINT16_MAX"
  shows "bufferpoolQueryBestFit p n pad = Some None"
  using assms by (simp add: bufferpoolQueryBestFit_def select_unfit sbufTryComputeCapacity_eq)

lemma select_again:
  assumes "tier_fits t n pad'" "pad \<le> pad'"
  shows "bufferpoolSelectBestFit p n pad = kBufferPoolTierSmall \<Longrightarrow> t = bp_small p \<Longrightarrow>
      bufferpoolSelectBestFit p n pad' = kBufferPoolTierSmall"
    "bufferpoolSelectBestFit p n pad = kBufferPoolTierMedium \<Longrightarrow> t = bp_medium p \<Longrightarrow>
      bufferpoolSelectBestFit p n pad' = kBufferPoolTierMedium"
    "bufferpoolSelectBestFit p n pad = kBufferPoolTierLarge \<Longrightarrow> t = bp_large p \<Longrightarrow>
      bufferpoolSelectBestFit p n pad' = kBufferPoolTierLarge"
  using assms unfolding bufferpoolSelectBestFit_def tier_fits_def Let_def by (auto split: if_splits)

text \<open>Asking again with the padding of the selected geometry selects the same geometry.\<close>

lemma fit_again:
  assumes p: "pool_ok p" and fits: "sbuf_fits n pad" and g: "fit_geometry p n pad = (c, pad')"
  shows "fit_geometry p n pad' = (c, pad')" "sbuf_fits n pad'" "pad' \<le> UINT16_MAX" "n \<le> c" "pad \<le> pad'"
proof -
  have tier: "n \<le> tier_size t \<and> pad \<le> tier_padding t \<and> sbuf_fits n (tier_padding t) \<and>
      tier_padding t \<le> UINT16_MAX \<and> tier_fits t n (tier_padding t)"
    if "tier_fits t n pad" "tier_ok (bp_cap p) t" for t
    using that sbuf_fits_mono [OF tier_okD(3) [OF that(2)], of n "tier_padding t"] tier_okD(7) [OF that(2)]
    by (simp add: tier_fits_def)
  have oks: "tier_ok (bp_cap p) (bp_small p)" "tier_ok (bp_cap p) (bp_medium p)" "tier_ok (bp_cap p) (bp_large p)"
    using p by (simp_all add: pool_ok_def)
  have "fit_geometry p n pad' = (c, pad') \<and> sbuf_fits n pad' \<and> pad' \<le> UINT16_MAX \<and> n \<le> c \<and> pad \<le> pad'"
  proof (cases "bufferpoolSelectBestFit p n pad")
    case kBufferPoolTierSmall
    note t = tier [OF select_fits(1) [OF this] oks(1)]
    have "c = tier_size (bp_small p)" "pad' = tier_padding (bp_small p)"
      using g kBufferPoolTierSmall by (simp_all add: fit_geometry_def tier_geometry_def)
    then show ?thesis
      using t select_again(1) [OF _ _ kBufferPoolTierSmall refl, of pad'] by (simp add: fit_geometry_def tier_geometry_def)
  next
    case kBufferPoolTierMedium
    note t = tier [OF select_fits(2) [OF this] oks(2)]
    have "c = tier_size (bp_medium p)" "pad' = tier_padding (bp_medium p)"
      using g kBufferPoolTierMedium by (simp_all add: fit_geometry_def tier_geometry_def)
    then show ?thesis
      using t select_again(2) [OF _ _ kBufferPoolTierMedium refl, of pad'] by (simp add: fit_geometry_def tier_geometry_def)
  next
    case kBufferPoolTierLarge
    note t = tier [OF select_fits(3) [OF this] oks(3)]
    have "c = tier_size (bp_large p)" "pad' = tier_padding (bp_large p)"
      using g kBufferPoolTierLarge by (simp_all add: fit_geometry_def tier_geometry_def)
    then show ?thesis
      using t select_again(3) [OF _ _ kBufferPoolTierLarge refl, of pad'] by (simp add: fit_geometry_def tier_geometry_def)
  next
    case kBufferPoolTierDedicated
    then have c: "c = round_up 64 n" "pad' = round_up 32 pad" using g by (simp_all add: fit_geometry_def)
    have le: "pad \<le> pad'" using c(2) round_up_ge [of 32 pad] by simp
    have "bufferpoolSelectBestFit p n pad' = kBufferPoolTierDedicated"
      using kBufferPoolTierDedicated le by (auto simp: bufferpoolSelectBestFit_def tier_fits_def Let_def split: if_splits)
    then show ?thesis using c fits le round_up_ge [of 64 n] by (simp add: fit_geometry_def sbuf_fits_def)
  qed
  then show "fit_geometry p n pad' = (c, pad')" "sbuf_fits n pad'" "pad' \<le> UINT16_MAX" "n \<le> c" "pad \<le> pad'" by simp_all
qed

text \<open>The storage a best-fit buffer for the held bytes would take.\<close>

definition fit_storage :: "buffer_pool \<Rightarrow> nat \<Rightarrow> nat" where
  "fit_storage p n = (case fit_geometry p n (tier_padding (bp_large p)) of (c, pad) \<Rightarrow> c + pad + 64)"

section \<open>The head of the queue\<close>

context sbuf_deque
begin

lemma streamHead_none: "ss_inv D s \<Longrightarrow> sources D s = [] \<Longrightarrow> streamHead D s = Some (None, s)"
  using pop_empty [of "ss_pending s" no_budgets None]
  by (simp add: streamHead_def sources_def bufferqueuePopFront_def Let_def split: option.splits)

lemma streamHead_some:
  assumes "ss_inv D s" "sources D s = h # rest"
  shows "\<exists>t. streamHead D s = Some (Some h, t) \<and> ss_head t = Some h \<and> sources D t = h # rest \<and>
    dq_elems D (bq_q (ss_pending t)) = rest \<and> ss_inv D t \<and> same_header s t \<and> ss_charge t = ss_charge s"
proof (cases "ss_head s")
  case None
  then have e: "dq_elems D (bq_q (ss_pending s)) = h # rest" using assms(2) by (simp add: sources_def)
  note i = ss_invD [OF assms(1)]
  obtain B q v where q: "bufferqueuePop D no_budgets (ss_pending s) None = Some (Some h, B, q, v)"
    "queue_ok D q" "bq_budget q = None" "dq_elems D (bq_q q) = rest"
    using pop_first [OF i(2) unbound_covered [OF i(3)] e, of None] i(3) by auto
  have h: "sbuf_ok h" using i(1) assms(2) by (simp add: live_buf_def)
  let ?t = "s\<lparr>ss_pending := q, ss_head := Some h, ss_head_charge := storage h\<rparr>"
  have "streamHead D s = Some (Some h, ?t)"
    using None q(1) storage_charge(1) [OF h] by (simp add: streamHead_def bufferqueuePopFront_def Let_def)
  moreover have "sources D ?t = h # rest" using q(4) by (simp add: sources_def)
  moreover have "ss_inv D ?t" using assms q(2,3) \<open>sources D ?t = h # rest\<close> by (simp add: ss_inv_def)
  ultimately show ?thesis using q(4) by (simp add: same_header_def)
next
  case (Some g)
  then have "g = h" "dq_elems D (bq_q (ss_pending s)) = rest" using assms(2) by (simp_all add: sources_def)
  then show ?thesis using Some assms by (simp add: streamHead_def)
qed

text \<open>Consuming the first \<open>n\<close> bytes of the head and recycling it once empty.\<close>

lemma recycle_ok:
  assumes s: "ss_inv D s" "ss_head s = Some h" and g: "sbuf_ok g" "payload g = drop n (payload h)"
    "sb_capacity g = sb_capacity h" and n: "n \<le> sb_len h" and p: "pool_ok p"
  shows "\<exists>t q. streamRecycleEmptyHead (s\<lparr>ss_head := Some g\<rparr>) p = Some (t, q) \<and> ss_inv D t \<and> same_header s t \<and>
    pool_ok q \<and> pool_geometry q = pool_geometry p \<and> source_bytes D t = drop n (source_bytes D s) \<and>
    ss_charge t \<le> ss_charge s \<and>
    length (sources D t) = (if n = sb_len h then length (sources D s) - 1 else length (sources D s))"
proof -
  note i = ss_invD [OF s(1)]
  let ?rest = "dq_elems D (bq_q (ss_pending s))"
  have src: "sources D s = h # ?rest" using s(2) by (simp add: sources_def)
  have h: "sbuf_ok h" using i(1) src by (simp add: live_buf_def)
  have len: "sb_len g = sb_len h - n" using length_payload [OF g(1)] length_payload [OF h] g(2) by simp
  have st: "storage g = storage h" using g(3) by (simp add: storage_eq)
  have hc: "ss_head_charge s = storage h" using s by (simp add: ss_inv_def)
  have c: "ss_charge s = storage h + sum_list (map storage ?rest)" using i(4) src by simp
  have bytes: "drop n (source_bytes D s) = payload g @ concat (map payload ?rest)"
    using n g(2) by (simp add: source_bytes_Cons [OF src] length_payload [OF h])
  show ?thesis
  proof (cases "sb_len g = 0")
    case True
    obtain q where q: "bufferpoolReuseBuffer p g = Some q" "pool_ok q" "pool_geometry q = pool_geometry p"
      using reuse_ok [OF p g(1)] by blast
    let ?t = "s\<lparr>ss_head := None, ss_head_charge := 0, ss_charge := ss_charge s - storage h\<rparr>"
    have "streamRecycleEmptyHead (s\<lparr>ss_head := Some g\<rparr>) p = Some (?t, q)"
      using True q(1) storage_charge(1) [OF g(1)] hc st c i(5)
      by (simp add: streamRecycleEmptyHead_def streamDetachHead_def Let_def sbufGetLength_def)
    moreover have "sources D ?t = ?rest" by (simp add: sources_def)
    moreover have "ss_inv D ?t" using s(1) c i(5) src \<open>sources D ?t = ?rest\<close> by (auto simp: ss_inv_def)
    moreover have "payload g = []" using True length_payload [OF g(1)] by simp
    moreover have "n = sb_len h" using True len n by simp
    ultimately show ?thesis using q(2,3) bytes src by (simp add: same_header_def source_bytes_def)
  next
    case False
    let ?t = "s\<lparr>ss_head := Some g\<rparr>"
    have "?t\<lparr>ss_charge := ss_charge s, ss_head_charge := storage h\<rparr> = ?t" using hc by simp
    then have "streamRecycleEmptyHead ?t p = Some (?t, p)"
      using False storage_charge(1) [OF g(1)] hc st i(5) c
      by (simp add: streamRecycleEmptyHead_def Let_def sbufGetLength_def)
    moreover have "sources D ?t = g # ?rest" by (simp add: sources_def)
    moreover have "ss_inv D ?t"
      using s(1) src g(1) False st c hc \<open>sources D ?t = g # ?rest\<close> by (auto simp: ss_inv_def live_buf_def)
    moreover have "n \<noteq> sb_len h" using False len by simp
    ultimately show ?thesis using p bytes src by (simp add: same_header_def source_bytes_def)
  qed
qed

section \<open>Gathering the header\<close>

lemma readRange_ok:
  assumes "sbuf_ok b" "n \<le> sb_len b"
  shows "sbufReadRangeToMemory b n = Some (take n (payload b), sbuf_skip b n)"
  using assms sbuf_okD(8) [OF assms(1)]
  by (simp add: sbufReadRangeToMemory_def sbufGetResidentPrefixLength_def sbufGetLength_def sbufRead_eq
      sbufShiftRight_eq Let_def min_def)

lemma fill_turn:
  assumes s: "ss_inv D s" "ss_header_filled s < ss_header_size s" "sources D s = h # rest" and p: "pool_ok p"
    and c: "c = min (ss_header_size s - ss_header_filled s) (sb_len h)"
  shows "\<exists>t q. streamFillTurn D s p = Some (True, t, q) \<and> ss_inv D t \<and> pool_ok q \<and> pool_geometry q = pool_geometry p \<and>
    ss_total t = ss_total s \<and> ss_header_size t = ss_header_size s \<and> ss_header_filled t = ss_header_filled s + c \<and>
    ss_charge t \<le> ss_charge s \<and> frame_bytes D t = frame_bytes D s \<and>
    length (sources D t) = (if c = sb_len h then length (sources D s) - 1 else length (sources D s))"
proof -
  note i = ss_invD [OF s(1)]
  have h: "sbuf_ok h" using i(1) s(3) by (simp add: live_buf_def)
  obtain t where t: "streamHead D s = Some (Some h, t)" "ss_head t = Some h" "sources D t = h # rest" "ss_inv D t"
    "same_header s t" "ss_charge t = ss_charge s" using streamHead_some [OF s(1,3)] by blast
  let ?f = "ss_header_filled s" and ?xs = "take c (payload h)"
  let ?hdr = "take ?f (ss_header s) @ ?xs @ drop (?f + c) (ss_header s)"
  have cl: "c \<le> sb_len h" "?f + c \<le> ss_header_size s" using c s(2) by auto
  have xs: "length ?xs = c" using cl(1) by (simp add: length_payload [OF h])
  define u where "u = t\<lparr>ss_header := ?hdr, ss_header_filled := ?f + c\<rparr>"
  have lh: "length ?hdr = ss_header_size s" using cl(2) i(6,8) xs by simp
  have u: "ss_inv D u" "ss_head u = Some h" "sources D u = h # rest"
    using ss_inv_header [OF t(4), of "?f + c" ?hdr "ss_total t"] t(2,3,5) cl(2) lh
    by (simp_all add: u_def same_header_def)
  note k = sbuf_skip_obs [OF h cl(1)]
  obtain v q where v: "streamRecycleEmptyHead (u\<lparr>ss_head := Some (sbuf_skip h c)\<rparr>) p = Some (v, q)" "ss_inv D v"
    "same_header u v" "pool_ok q" "pool_geometry q = pool_geometry p" "source_bytes D v = drop c (source_bytes D u)"
    "ss_charge v \<le> ss_charge u"
    "length (sources D v) = (if c = sb_len h then length (sources D u) - 1 else length (sources D u))"
    using recycle_ok [OF u(1,2) k(1,2,5) cl(1) p] by blast
  have "mem_write (ss_header s) ?f ?xs = Some ?hdr" using cl(2) i(8) xs by (simp add: mem_write_def)
  moreover have "min (sub32 (ss_header_size s) ?f) (sb_len h) = c" using c i(6,7) by simp
  moreover have "u32 (?f + c) = ?f + c" using cl(2) i(7) by simp
  moreover have "u\<lparr>ss_head := Some (sbuf_skip h c)\<rparr> =
      t\<lparr>ss_head := Some (sbuf_skip h c), ss_header := ?hdr, ss_header_filled := ?f + c\<rparr>"
    by (simp add: u_def splice_stream.equality)
  ultimately have "streamFillTurn D s p = Some (True, v, q)"
    using s(2) t(1,5) v(1) readRange_ok [OF h cl(1)]
    by (simp add: streamFillTurn_def same_header_def sbufGetLength_def Let_def)
  moreover have "frame_bytes D v = frame_bytes D s"
  proof -
    have "frame_bytes D v = take (?f + c) ?hdr @ drop c (source_bytes D s)"
      using v(3,6) u(3) s(3) by (simp add: frame_bytes_def same_header_def u_def source_bytes_def)
    also have "take (?f + c) ?hdr = take ?f (ss_header s) @ ?xs" using xs cl(2) i(8) by simp
    also have "\<dots> @ drop c (source_bytes D s) = frame_bytes D s"
      using cl(1) by (simp add: frame_bytes_def source_bytes_Cons [OF s(3)] length_payload [OF h])
    finally show ?thesis .
  qed
  ultimately show ?thesis using v t(5,6) u(3) s(3) by (simp add: same_header_def u_def)
qed

lemma fill_ok:
  assumes "ss_inv D s" "pool_ok p"
  shows "\<exists>t q. streamFillHeader D s p = Some (t, q) \<and> ss_inv D t \<and> pool_ok q \<and> pool_geometry q = pool_geometry p \<and>
    ss_total t = ss_total s \<and> ss_header_size t = ss_header_size s \<and> ss_charge t \<le> ss_charge s \<and>
    frame_bytes D t = frame_bytes D s \<and> (ss_header_filled t < ss_header_size t \<longrightarrow> sources D t = [])"
  using assms
proof (induction "length (sources D s) + (if ss_header_filled s < ss_header_size s then 1 else 0)"
    arbitrary: s p rule: less_induct)
  case less
  consider "ss_header_filled s < ss_header_size s" "sources D s = []" | "\<not> ss_header_filled s < ss_header_size s"
    | h rest where "ss_header_filled s < ss_header_size s" "sources D s = h # rest"
    by (cases "sources D s") auto
  then show ?case
  proof cases
    case 1
    then have "streamFillTurn D s p = Some (False, s, p)"
      using streamHead_none [OF less.prems(1) 1(2)] by (simp add: streamFillTurn_def)
    then show ?thesis using 1 less.prems by (subst streamFillHeader.simps) simp
  next
    case 2
    then have "streamFillTurn D s p = Some (False, s, p)" by (simp add: streamFillTurn_def)
    then show ?thesis using 2 less.prems by (subst streamFillHeader.simps) simp
  next
    case 3
    have h: "0 < sb_len h" using ss_invD(1) [OF less.prems(1)] 3(2) by (simp add: live_buf_def)
    let ?c = "min (ss_header_size s - ss_header_filled s) (sb_len h)"
    obtain t q where t: "streamFillTurn D s p = Some (True, t, q)" "ss_inv D t" "pool_ok q"
      "pool_geometry q = pool_geometry p" "ss_total t = ss_total s" "ss_header_size t = ss_header_size s"
      "ss_header_filled t = ss_header_filled s + ?c" "ss_charge t \<le> ss_charge s" "frame_bytes D t = frame_bytes D s"
      "length (sources D t) = (if ?c = sb_len h then length (sources D s) - 1 else length (sources D s))"
      using fill_turn [OF less.prems(1) 3 less.prems(2) refl] by blast
    have "length (sources D t) + (if ss_header_filled t < ss_header_size t then 1 else 0) <
        length (sources D s) + (if ss_header_filled s < ss_header_size s then 1 else 0)"
      using t(6,7,10) 3 by auto
    from less.hyps [OF this t(2,3)] show ?thesis
      using t by (subst streamFillHeader.simps) auto
  qed
qed

section \<open>Input\<close>

lemma sources_few:
  assumes "ss_inv D s"
  shows "length (dq_elems D (bq_q (ss_pending s))) < 576460752303423487"
proof -
  have "64 * length bs \<le> sum_list (map storage bs)" for bs
    by (induction bs) (simp_all add: storage_eq)
  from this [of "sources D s"] have "64 * length (sources D s) \<le> SIZE_MAX" using ss_invD(4,5) [OF assms] by linarith
  then show ?thesis by (simp add: sources_def)
qed

lemma reserve_ok:
  assumes s: "ss_inv D s" and b: "sbuf_ok b"
    and room: "ss_total s + sb_len b \<le> SIZE_MAX" "ss_charge s + storage b \<le> SIZE_MAX"
  shows "\<exists>q. streamReserve D s b = (Some (storage b), s\<lparr>ss_pending := q\<rparr>) \<and> ss_inv D (s\<lparr>ss_pending := q\<rparr>) \<and>
    sources D (s\<lparr>ss_pending := q\<rparr>) = sources D s \<and> dq_elems D (bq_q q) = dq_elems D (bq_q (ss_pending s))"
proof -
  let ?es = "dq_elems D (bq_q (ss_pending s))"
  let ?q = "ss_pending s\<lparr>bq_q := snd (dq_reserve D (bq_q (ss_pending s)) (length ?es + 1))\<rparr>"
  have "\<not> ss_charge s > sub64 SIZE_MAX (storage b)" "\<not> ss_total s > sub64 SIZE_MAX (sb_len b)"
    using room storage_bound [OF b] sbuf_okD(2,3) [OF b] by simp_all
  then have "streamReserve D s b = (Some (storage b), s\<lparr>ss_pending := ?q\<rparr>)"
    using reserveExtra_one [of "ss_pending s"] sources_few [OF s] storage_charge(2) [OF b]
    by (simp add: streamReserve_def sbufGetLength_def)
  moreover have "queue_ok D ?q" using ss_invD(2) [OF s] by (simp add: queue_ok_def)
  moreover have "sources D (s\<lparr>ss_pending := ?q\<rparr>) = sources D s" by (simp add: sources_def)
  ultimately show ?thesis using s by (auto simp: ss_inv_def)
qed

lemma streamTail_eq: "streamTail D s = (if sources D s = [] then None else Some (last (sources D s)))"
  by (cases "ss_head s") (auto simp: streamTail_def bufferqueueGetBufCount_def sources_def)

lemma pending_len: "ss_inv D s \<Longrightarrow> total_len (ss_pending s) \<le> length (source_bytes D s)"
proof -
  assume s: "ss_inv D s"
  have "total_len (ss_pending s) = length (concat (map payload (dq_elems D (bq_q (ss_pending s)))))"
    using ss_invD(1,2) [OF s] length_concat_payload [of "dq_elems D (bq_q (ss_pending s))"]
    by (simp add: queue_ok_def)
  then show ?thesis by (simp add: source_bytes_def sources_def)
qed

lemma merge_ok:
  assumes s: "ss_inv D s" "sources D s = bs @ [t]" and b: "sbuf_ok b" and p: "pool_ok p"
    and room: "curpos t + sb_len t + sb_len b \<le> sb_capacity t" "length (source_bytes D s) + sb_len b \<le> SIZE_MAX"
  shows "\<exists>u q. streamMerge D s t b p = Some (u, q) \<and> ss_inv D u \<and> same_header s u \<and> ss_charge u = ss_charge s \<and>
    source_bytes D u = source_bytes D s @ payload b \<and> pool_ok q \<and> pool_geometry q = pool_geometry p"
proof -
  note i = ss_invD [OF s(1)]
  have t: "sbuf_ok t" "0 < sb_len t" using i(1) s(2) by (simp_all add: live_buf_def)
  let ?t = "sbuf_append t (payload b)" and ?es = "dq_elems D (bq_q (ss_pending s))"
  have lb: "length (payload b) = sb_len b" by (rule length_payload [OF b])
  note a = sbuf_append_obs [OF t(1), of "payload b", unfolded lb, OF room(1)]
  have mv: "sbufMoveTo t b (sb_len b) = Some (?t, sbuf_skip b (sb_len b))"
    using sbufMoveTo_eq [OF t(1) b order_refl room(1)] lb by simp
  obtain q where q: "bufferpoolReuseBuffer p (sbuf_skip b (sb_len b)) = Some q" "pool_ok q" "pool_geometry q = pool_geometry p"
    using reuse_ok [OF p sbuf_skip_obs(1) [OF b order_refl]] by blast
  have st: "storage ?t = storage t" using a(5) by (simp add: storage_eq)
  have live: "live_buf ?t" using a(1,3) t(2) by (simp add: live_buf_def)
  let ?pend = "ss_pending s\<lparr>bq_q := dq_put_back D (bq_q (ss_pending s)) ?t, total_len := u64 (total_len (ss_pending s) + sb_len b)\<rparr>"
  define u where "u = (if ?es \<noteq> [] then s\<lparr>ss_pending := ?pend\<rparr> else s\<lparr>ss_head := Some ?t\<rparr>)"
  have m: "streamMerge D s t b p = Some (u, q)"
    using mv q(1) by (auto simp: streamMerge_def sbufGetLength_def bufferqueueGetBufCount_def Let_def u_def)
  have "sources D u = bs @ [?t] \<and> queue_ok D (ss_pending u) \<and> bq_budget (ss_pending u) = None \<and>
      ss_head_charge u = (case ss_head u of None \<Rightarrow> 0 | Some h \<Rightarrow> storage h)"
  proof (cases "?es = []")
    case True
    then have "bs = []" "ss_head s = Some t" using s(2) by (cases "ss_head s"; simp add: sources_def)+
    then show ?thesis using True s(1) st by (simp add: u_def sources_def ss_inv_def)
  next
    case False
    then obtain es where es: "?es = es @ [t]" using s(2) by (cases ?es rule: rev_cases) (auto simp: sources_def)
    then have "bs = (case ss_head s of None \<Rightarrow> [] | Some h \<Rightarrow> [h]) @ es" using s(2) by (simp add: sources_def)
    moreover have "total_len (ss_pending s) + sb_len b \<le> SIZE_MAX" using pending_len [OF s(1)] room(2) by linarith
    ultimately show ?thesis using False es s(1) i(2) a(1,3) st lb
      by (auto simp: u_def sources_def ss_inv_def queue_ok_def storage_def)
  qed
  then have "ss_inv D u" "sources D u = bs @ [?t]"
    using s i(1,4) st live by (auto simp: ss_inv_def u_def)
  moreover have "same_header s u" "ss_charge u = ss_charge s" by (simp_all add: u_def same_header_def)
  ultimately show ?thesis using m q(2,3) a(2) s(2) by (simp add: source_bytes_def)
qed

lemma splice_enqueue_ok:
  assumes s: "ss_inv D s" and b: "live_buf b"
    and room: "length (source_bytes D s) + sb_len b \<le> SIZE_MAX" "ss_charge s + storage b \<le> SIZE_MAX"
  shows "\<exists>u. streamEnqueue D s b (storage b) = Some u \<and> ss_inv D u \<and> same_header s u \<and>
    ss_charge u = ss_charge s + storage b \<and> source_bytes D u = source_bytes D s @ payload b"
proof -
  note i = ss_invD [OF s]
  have bo: "sbuf_ok b" using b by (simp add: live_buf_def)
  show ?thesis
  proof (cases "sources D s = []")
    case True
    then have e: "ss_head s = None" "dq_elems D (bq_q (ss_pending s)) = []" by (cases "ss_head s"; simp add: sources_def)+
    let ?u = "s\<lparr>ss_head := Some b, ss_head_charge := storage b, ss_charge := storage b\<rparr>"
    have z: "ss_charge s = 0" using i(4) True by simp
    have "streamEnqueue D s b (storage b) = Some ?u"
      using e z storage_charge(1) [OF bo] storage_bound [OF bo] by (simp add: streamEnqueue_def bufferqueueGetBufCount_def)
    moreover have "sources D ?u = [b]" using e by (simp add: sources_def)
    moreover have "ss_inv D ?u" using s b storage_bound [OF bo] \<open>sources D ?u = [b]\<close> by (simp add: ss_inv_def)
    ultimately show ?thesis using z True by (simp add: same_header_def source_bytes_def)
  next
    case False
    let ?q = "ss_pending s"
    have "total_charge ?q \<le> ss_charge s" using i(2,4) by (simp add: queue_ok_def sources_def storage_def [abs_def])
    then have "admissible D no_budgets ?q b None"
      using room pending_len [OF s] sources_few [OF s] i(3) by (simp add: admissible_def storage_def entry_cost_def)
    from insert_accepted [OF _ bo _ this i(2), of False] obtain B q d where
      q: "bufferqueueTryInsert D no_budgets ?q b False None = Some (True, B, q, d, None)"
      "sbuf_ok d" "payload d = payload b" "entry_cost d = entry_cost b" "queue_ok D q" "bq_budget q = bq_budget ?q"
      "dq_elems D (bq_q q) = dq_elems D (bq_q ?q) @ [d]" by auto
    have d: "live_buf d" "storage d = storage b"
      using q(2-4) b length_payload [OF q(2)] length_payload [OF bo] by (simp_all add: live_buf_def storage_def)
    let ?u = "s\<lparr>ss_pending := q, ss_charge := ss_charge s + storage b\<rparr>"
    have ne: "\<not> (ss_head s = None \<and> dq_elems D (bq_q ?q) = [])" using False by (auto simp: sources_def)
    have "streamEnqueue D s b (storage b) = Some ?u"
      using ne q(1) d(2) storage_charge(1) [OF q(2)] room(2)
      by (auto simp: streamEnqueue_def bufferqueueGetBufCount_def bufferqueuePushBack_def bufferqueueTryPushBack_def)
    moreover have src: "sources D ?u = sources D s @ [d]" using q(7) by (simp add: sources_def)
    moreover have "ss_inv D ?u" using s q(5,6) d room(2) src by (auto simp: ss_inv_def)
    ultimately show ?thesis using q(3) by (simp add: same_header_def source_bytes_def)
  qed
qed

lemma admit_refill:
  assumes u: "ss_inv D u" "source_bytes D u = source_bytes D s @ payload b" "same_header s u"
    and s: "ss_ok D s" and b: "sbuf_ok b" and p: "pool_ok p" and room: "ss_total s + sb_len b \<le> SIZE_MAX"
  shows "\<exists>t q. streamFillHeader D (u\<lparr>ss_total := u64 (ss_total u + sb_len b)\<rparr>) p = Some (t, q) \<and> ss_ok D t \<and>
    pool_ok q \<and> pool_geometry q = pool_geometry p \<and> ss_header_size t = ss_header_size s \<and>
    ss_charge t \<le> ss_charge u \<and> frame_bytes D t = frame_bytes D s @ payload b"
proof -
  let ?v = "u\<lparr>ss_total := u64 (ss_total u + sb_len b)\<rparr>"
  obtain t q where t: "streamFillHeader D ?v p = Some (t, q)" "ss_inv D t" "pool_ok q" "pool_geometry q = pool_geometry p"
    "ss_total t = ss_total ?v" "ss_header_size t = ss_header_size ?v" "ss_charge t \<le> ss_charge ?v"
    "frame_bytes D t = frame_bytes D ?v" "ss_header_filled t < ss_header_size t \<longrightarrow> sources D t = []"
    using fill_ok [of ?v p] u(1) p by auto
  have f: "frame_bytes D ?v = frame_bytes D s @ payload b" using u(2,3) by (simp add: frame_bytes_def same_header_def)
  have "ss_total ?v = length (frame_bytes D s @ payload b)"
    using s u(3) room by (simp add: ss_ok_def same_header_def length_payload [OF b])
  then have "ss_ok D t" using t f room s by (simp add: ss_ok_def length_payload [OF b])
  then show ?thesis using t f u(3) by (simp add: same_header_def)
qed

lemma splice_push_ok:
  assumes s: "ss_ok D s" and b: "sbuf_ok b" and p: "pool_ok p"
    and room: "ss_total s + sb_len b \<le> SIZE_MAX" "ss_charge s + storage b \<le> SIZE_MAX"
  shows "\<exists>t q. splicestreamPush D s b p = Some (True, t, q) \<and> ss_ok D t \<and> pool_ok q \<and>
    pool_geometry q = pool_geometry p \<and> ss_header_size t = ss_header_size s \<and>
    ss_charge t \<le> ss_charge s + storage b \<and> frame_bytes D t = frame_bytes D s @ payload b"
proof (cases "sb_len b = 0")
  case True
  then have "payload b = []" using length_payload [OF b] by simp
  then show ?thesis using True s reuse_ok [OF p b] by (auto simp: splicestreamPush_def sbufGetLength_def)
next
  case False
  have si: "ss_inv D s" using s by (simp add: ss_ok_def)
  obtain q where r: "streamReserve D s b = (Some (storage b), s\<lparr>ss_pending := q\<rparr>)" "ss_inv D (s\<lparr>ss_pending := q\<rparr>)"
    "sources D (s\<lparr>ss_pending := q\<rparr>) = sources D s" using reserve_ok [OF si b room] by blast
  define s1 where "s1 = s\<lparr>ss_pending := q\<rparr>"
  have s1: "ss_inv D s1" "source_bytes D s1 = source_bytes D s" "same_header s s1" "ss_charge s1 = ss_charge s"
    "sources D s1 = sources D s"
    using r(2,3) by (simp_all add: s1_def source_bytes_def same_header_def)
  have bytes: "length (source_bytes D s1) + sb_len b \<le> SIZE_MAX" using s room(1) s1(2) by (simp add: ss_ok_def frame_bytes_def)
  have "\<exists>m u q. streamCanMerge (streamTail D s1) b = Some m \<and>
      (if m then streamMerge D s1 (the (streamTail D s1)) b p
       else do { u \<leftarrow> streamEnqueue D s1 b (storage b); Some (u, p) }) = Some (u, q) \<and> ss_inv D u \<and>
      source_bytes D u = source_bytes D s @ payload b \<and> same_header s u \<and> ss_charge u \<le> ss_charge s + storage b \<and>
      pool_ok q \<and> pool_geometry q = pool_geometry p"
  proof (cases "sources D s1 \<noteq> [] \<and> sb_len b \<le> sb_capacity (last (sources D s1)) - curpos (last (sources D s1)) - sb_len (last (sources D s1))")
    case True
    then obtain bs t where t: "sources D s1 = bs @ [t]" by (cases "sources D s1" rule: rev_cases) auto
    then have ok: "sbuf_ok t" using ss_invD(1) [OF s1(1)] by (simp add: live_buf_def)
    have "curpos t + sb_len t + sb_len b \<le> sb_capacity t" using True t sbuf_okD(3) [OF ok] by simp
    from merge_ok [OF s1(1) t b p this bytes] show ?thesis
      using True t ok b s1(2-4) same_header_trans [OF s1(3)] sbuf_okD(8) [OF ok] sbuf_okD(8) [OF b]
      by (auto simp: streamTail_eq streamCanMerge_def sbufTailCapacity_eq sbufGetLength_def)
  next
    case no: False
    have "live_buf b" using b False by (simp add: live_buf_def)
    from splice_enqueue_ok [OF s1(1) this bytes] obtain u where u: "streamEnqueue D s1 b (storage b) = Some u" "ss_inv D u"
      "same_header s1 u" "ss_charge u = ss_charge s + storage b" "source_bytes D u = source_bytes D s @ payload b"
      using room(2) s1(2,4) by auto
    have "streamCanMerge (streamTail D s1) b = Some False"
    proof (cases "sources D s1 = []")
      case False
      then have ok: "sbuf_ok (last (sources D s1))" using ss_invD(1) [OF s1(1)] by (simp add: live_buf_def)
      then show ?thesis using False no sbuf_okD(8) [OF ok] sbuf_okD(8) [OF b]
        by (simp add: streamTail_eq streamCanMerge_def sbufTailCapacity_eq sbufGetLength_def)
    qed (simp add: streamTail_eq streamCanMerge_def)
    then show ?thesis using u p same_header_trans [OF s1(3) u(3)] by auto
  qed
  then obtain m u q where u: "streamCanMerge (streamTail D s1) b = Some m"
    "(if m then streamMerge D s1 (the (streamTail D s1)) b p
      else do { u \<leftarrow> streamEnqueue D s1 b (storage b); Some (u, p) }) = Some (u, q)"
    "ss_inv D u" "source_bytes D u = source_bytes D s @ payload b" "same_header s u"
    "ss_charge u \<le> ss_charge s + storage b" "pool_ok q" "pool_geometry q = pool_geometry p" by blast
  obtain t q' where t: "streamFillHeader D (u\<lparr>ss_total := u64 (ss_total u + sb_len b)\<rparr>) q = Some (t, q')" "ss_ok D t"
    "pool_ok q'" "pool_geometry q' = pool_geometry q" "ss_header_size t = ss_header_size s"
    "ss_charge t \<le> ss_charge u" "frame_bytes D t = frame_bytes D s @ payload b"
    using admit_refill [OF u(3-5) s b u(7) room(1)] by blast
  have "splicestreamPush D s b p = Some (True, t, q')"
    unfolding splicestreamPush_def Let_def sbufGetLength_def if_not_P [OF False] r(1) s1_def [symmetric]
    by (simp only: prod.case option.case u(1) Option.bind.bind_lunit u(2) t(1))
  then show ?thesis using t u by auto
qed

lemma push_refused:
  assumes s: "ss_inv D s" and b: "sbuf_ok b" "sb_len b \<noteq> 0" and p: "pool_ok p"
    and full: "SIZE_MAX < ss_total s + sb_len b \<or> SIZE_MAX < ss_charge s + storage b"
  shows "\<exists>q. splicestreamPush D s b p = Some (False, s, q) \<and> pool_ok q"
proof -
  have "ss_charge s > sub64 SIZE_MAX (storage b) \<or> ss_total s > sub64 SIZE_MAX (sb_len b)"
    using full storage_bound [OF b(1)] sbuf_okD(2,3) [OF b(1)] by auto
  then have "streamReserve D s b = (None, s)"
    using storage_charge(2) [OF b(1)] by (simp add: streamReserve_def sbufGetLength_def)
  then show ?thesis using b(2) reuse_ok [OF p b(1)] by (auto simp: splicestreamPush_def sbufGetLength_def)
qed

section \<open>Compaction\<close>

lemma detach_inv:
  assumes "ss_inv D s" "ss_head s = Some h"
  shows "ss_inv D (snd (streamDetachHead s))" "sources D (snd (streamDetachHead s)) = tl (sources D s)"
    "same_header s (snd (streamDetachHead s))" "ss_charge (snd (streamDetachHead s)) = ss_charge s - storage h"
proof -
  have c: "ss_head_charge s = storage h" "sources D s = h # dq_elems D (bq_q (ss_pending s))"
    using assms by (simp_all add: ss_inv_def sources_def)
  note i = ss_invD(4,5) [OF assms(1)]
  have le: "storage h \<le> ss_charge s" using c(2) i(1) by simp
  show src: "sources D (snd (streamDetachHead s)) = tl (sources D s)"
    using c(2) by (simp add: streamDetachHead_def sources_def)
  show ch: "ss_charge (snd (streamDetachHead s)) = ss_charge s - storage h"
    using c(1) le i(2) by (simp add: streamDetachHead_def)
  show "same_header s (snd (streamDetachHead s))" by (simp add: streamDetachHead_def same_header_def)
  show "ss_inv D (snd (streamDetachHead s))"
    using assms(1) src ch c(2) le i by (auto simp: ss_inv_def streamDetachHead_def)
qed

lemma gather_ok:
  assumes "ss_inv D s" "sbuf_ok c" "curpos c + sb_len c + length (source_bytes D s) \<le> sb_capacity c" "pool_ok p"
  shows "\<exists>t d q. streamGather D s c p = Some (t, d, q) \<and> ss_inv D t \<and> sources D t = [] \<and> ss_head t = None \<and> same_header s t \<and>
    sbuf_ok d \<and> payload d = payload c @ source_bytes D s \<and> sb_capacity d = sb_capacity c \<and> curpos d = curpos c \<and>
    l_pad d = l_pad c \<and> pool_ok q \<and> pool_geometry q = pool_geometry p"
  using assms
proof (induction "length (sources D s)" arbitrary: s c p)
  case 0
  then have e: "sources D s = []" "ss_head s = None" by (cases "ss_head s"; simp add: sources_def)+
  then have "streamGatherTurn D s c p = Some (False, s, c, p)"
    using streamHead_none [OF 0(2)] by (simp add: streamGatherTurn_def)
  then show ?case using 0 e by (subst streamGather.simps) (simp add: source_bytes_def)
next
  case (Suc n)
  then obtain h rest where src: "sources D s = h # rest" "length rest = n" by (cases "sources D s") auto
  have h: "sbuf_ok h" using ss_invD(1) [OF Suc.prems(1)] src by (simp add: live_buf_def)
  obtain t where t: "streamHead D s = Some (Some h, t)" "ss_head t = Some h" "sources D t = h # rest" "ss_inv D t"
    "same_header s t" using streamHead_some [OF Suc.prems(1) src(1)] by blast
  let ?u = "snd (streamDetachHead t)"
  note u = detach_inv [OF t(4,2)]
  have sb: "source_bytes D s = payload h @ source_bytes D ?u"
    using src(1) t(3) u(2) by (simp add: source_bytes_def)
  have lh: "length (payload h) = sb_len h" by (rule length_payload [OF h])
  have room: "curpos c + sb_len c + sb_len h \<le> sb_capacity c" using Suc.prems(3) sb lh by simp
  let ?c = "sbuf_append c (payload h)"
  note a = sbuf_append_obs [OF Suc.prems(2), of "payload h", unfolded lh, OF room]
  have mv: "sbufMoveTo c h (sb_len h) = Some (?c, sbuf_skip h (sb_len h))"
    using sbufMoveTo_eq [OF Suc.prems(2) h order_refl room] lh by simp
  obtain q where q: "bufferpoolReuseBuffer p (sbuf_skip h (sb_len h)) = Some q" "pool_ok q" "pool_geometry q = pool_geometry p"
    using reuse_ok [OF Suc.prems(4) sbuf_skip_obs(1) [OF h order_refl]] by blast
  have turn: "streamGatherTurn D s c p = Some (True, ?u, ?c, q)"
    using t(1) mv q(1) sbuf_okD(8) [OF h] by (simp add: streamGatherTurn_def sbufGetLength_def Let_def)
  have "n = length (sources D ?u)" using u(2) t(3) src(2) by simp
  moreover have "curpos ?c + sb_len ?c + length (source_bytes D ?u) \<le> sb_capacity ?c"
    using Suc.prems(3) sb lh a by simp
  ultimately obtain v d q' where v: "streamGather D ?u ?c q = Some (v, d, q')" "ss_inv D v" "sources D v = []" "ss_head v = None"
    "same_header ?u v" "sbuf_ok d" "payload d = payload ?c @ source_bytes D ?u" "sb_capacity d = sb_capacity ?c"
    "curpos d = curpos ?c" "l_pad d = l_pad ?c" "pool_ok q'" "pool_geometry q' = pool_geometry q"
    using Suc.hyps(1) [OF _ u(1) a(1) _ q(2)] by blast
  have "same_header s v" using same_header_trans [OF t(5) same_header_trans [OF u(3) v(5)]] .
  moreover have "streamGather D s c p = Some (v, d, q')" using turn v(1) by (subst streamGather.simps) simp
  ultimately show ?case using v a q(3) sb by simp
qed

lemma compact_ok:
  assumes s: "ss_ok D s" and p: "pool_ok p"
  shows "\<exists>f t q. splicestreamCompact D s p = Some (f, t, q) \<and> ss_ok D t \<and> pool_ok q \<and> pool_geometry q = pool_geometry p \<and>
    ss_header_size t = ss_header_size s \<and> frame_bytes D t = frame_bytes D s \<and> ss_charge t \<le> ss_charge s \<and>
    (sbuf_fits (length (source_bytes D s)) (tier_padding (bp_large p)) \<longrightarrow>
      ss_charge t \<le> fit_storage p (length (source_bytes D s)))"
proof -
  let ?n = "length (source_bytes D s)" and ?pad = "tier_padding (bp_large p)"
  have i: "ss_inv D s" using s by (simp add: ss_ok_def)
  have n: "sub64 (ss_total s) (ss_header_filled s) = ?n"
    using s ss_invD(6,8) [OF i] by (simp add: ss_ok_def frame_bytes_def)
  have pad: "?pad \<le> UINT16_MAX" using tier_okD(7) p by (auto simp: pool_ok_def)
  consider "?n = 0" | "?n \<noteq> 0" "\<not> sbuf_fits ?n ?pad" | "?n \<noteq> 0" "sbuf_fits ?n ?pad" by blast
  then show ?thesis
  proof cases
    case 1
    then have "ss_charge s = 0" using source_bytes_Nil [OF i] ss_invD(4) [OF i] by simp
    then show ?thesis using 1 n s p by (auto simp: splicestreamCompact_def)
  next
    case 2
    then show ?thesis using n s p query_unfit [OF p 2(2) pad]
      by (auto simp: splicestreamCompact_def bufferpoolGetLargeBufferPadding_def)
  next
    case 3
    obtain c pad' where g: "fit_geometry p ?n ?pad = (c, pad')" by fastforce
    obtain f where f: "bufferpoolQueryBestFit p ?n ?pad = Some (Some f)" "fit_payload_capacity f = c" "fit_left_padding f = pad'"
      "fit_allocation_charge f = c + pad' + 64" using queryBestFit_eq [OF p 3(2) pad] g by auto
    have fs: "fit_storage p ?n = c + pad' + 64" using g by (simp add: fit_storage_def)
    show ?thesis
    proof (cases "c + pad' + 64 \<ge> ss_charge s")
      case True
      then show ?thesis using 3 n s p f fs by (auto simp: splicestreamCompact_def bufferpoolGetLargeBufferPadding_def)
    next
      case False
      note a = fit_again [OF p 3(2) g]
      obtain b q where b: "bufferpoolGetBestFit p ?n pad' = Some (b, q)" "fresh_buf ?n pad' b" "pool_ok q"
        "pool_geometry q = pool_geometry p" "sb_capacity b - l_pad b = c" "l_pad b = pad'"
        using getBestFit_ok [OF p a(2,3)] a(1) by auto
      note F = fresh_bufD [OF b(2)]
      have u: "u32 ?n = ?n" using F(6) sbuf_okD(2) [OF F(1)] by simp
      obtain t d q' where t: "streamGather D s b q = Some (t, d, q')" "ss_inv D t" "sources D t = []" "ss_head t = None"
        "same_header s t" "sbuf_ok d" "payload d = payload b @ source_bytes D s" "sb_capacity d = sb_capacity b"
        "pool_ok q'" "pool_geometry q' = pool_geometry q"
        using gather_ok [OF i F(1,6) b(3)] by blast
      have len: "sb_len d = ?n" "payload d = source_bytes D s" using length_payload [OF t(6)] t(7) F(2) by simp_all
      have cap: "storage d = c + pad' + 64" using t(8) b(5,6) sbuf_okD(4) [OF F(1)] by (simp add: storage_eq)
      let ?t = "t\<lparr>ss_head := Some d, ss_head_charge := storage d, ss_charge := storage d\<rparr>"
      have z: "ss_charge t = 0" using ss_invD(4) [OF t(2)] t(3) by simp
      have run: "splicestreamCompact D s p = Some (True, ?t, q')"
        using 3(1) n f False b(1) u t(1) z len(1) storage_charge(1) [OF t(6)] cap
        by (simp add: splicestreamCompact_def bufferpoolGetLargeBufferPadding_def sbufGetLength_def Let_def)
      have src: "sources D ?t = [d]" using t(3,4) by (simp add: sources_def)
      have inv: "ss_inv D ?t"
        using t(2,4,6) src len(1) 3(1) storage_bound [OF t(6)] by (auto simp: ss_inv_def live_buf_def)
      have bytes: "frame_bytes D ?t = frame_bytes D s"
        using src len(2) t(5) by (simp add: frame_bytes_def source_bytes_def same_header_def)
      have "\<not> ss_header_filled s < ss_header_size s" using s 3(1) by (auto simp: ss_ok_def source_bytes_def)
      then have "ss_ok D ?t" using inv bytes s t(5) by (simp add: ss_ok_def same_header_def)
      then show ?thesis using run t(5,9,10) b(4) bytes cap False fs by (auto simp: same_header_def)
    qed
  qed
qed

text \<open>Settling keeps the bytes and succeeds whenever a best-fit buffer for them is within the limit.\<close>

lemma settle_charge_ok:
  assumes s: "ss_ok D s" and p: "pool_ok p"
  shows "\<exists>f t q. splicestreamSettleCharge D s m p = Some (f, t, q) \<and> ss_ok D t \<and> pool_ok q \<and>
    pool_geometry q = pool_geometry p \<and> ss_header_size t = ss_header_size s \<and> frame_bytes D t = frame_bytes D s \<and>
    (f \<longleftrightarrow> ss_charge t \<le> m) \<and> ss_charge t \<le> ss_charge s \<and>
    (sbuf_fits (length (source_bytes D s)) (tier_padding (bp_large p)) \<and> fit_storage p (length (source_bytes D s)) \<le> m \<longrightarrow> f)"
  using compact_ok [OF s p] s p by (cases "m < ss_charge s") (auto simp: splicestreamSettleCharge_def)

section \<open>Frames\<close>

lemma move_turn:
  assumes s: "ss_inv D s" "sources D s = h # rest" and d: "sbuf_ok d" and p: "pool_ok p"
    and n: "0 < remaining" "remaining \<le> UINT32_MAX" "sb_len d + remaining \<le> bytes" "bytes \<le> UINT32_MAX"
    and room: "curpos d + sb_len d + remaining \<le> sb_capacity d" and c: "c = min remaining (sb_len h)"
  shows "\<exists>t q. streamMoveTurn D s d remaining bytes padding p =
      Some (sbuf_append d (take c (payload h)), remaining - c, t, q) \<and>
    ss_inv D t \<and> same_header s t \<and> pool_ok q \<and> pool_geometry q = pool_geometry p \<and>
    source_bytes D t = drop c (source_bytes D s) \<and> ss_charge t \<le> ss_charge s \<and>
    length (sources D t) = (if c = sb_len h then length (sources D s) - 1 else length (sources D s))"
proof -
  have h: "sbuf_ok h" using ss_invD(1) [OF s(1)] s(2) by (simp add: live_buf_def)
  obtain t where t: "streamHead D s = Some (Some h, t)" "ss_head t = Some h" "sources D t = h # rest" "ss_inv D t"
    "same_header s t" "ss_charge t = ss_charge s" using streamHead_some [OF s] by blast
  have cl: "c \<le> sb_len h" "c \<le> remaining" using c by simp_all
  have "curpos d + sb_len d + c \<le> sb_capacity d" using room cl(2) by simp
  from sbufMoveTo_eq [OF d h cl(1) this]
  have mv: "sbufMoveTo d h c = Some (sbuf_append d (take c (payload h)), sbuf_skip h c)" .
  note k = sbuf_skip_obs [OF h cl(1)]
  obtain v q where v: "streamRecycleEmptyHead (t\<lparr>ss_head := Some (sbuf_skip h c)\<rparr>) p = Some (v, q)" "ss_inv D v"
    "same_header t v" "pool_ok q" "pool_geometry q = pool_geometry p" "source_bytes D v = drop c (source_bytes D t)"
    "ss_charge v \<le> ss_charge t"
    "length (sources D v) = (if c = sb_len h then length (sources D t) - 1 else length (sources D t))"
    using recycle_ok [OF t(4,2) k(1,2,5) cl(1) p] by blast
  have "sb_len d \<le> sub32 bytes c" "c \<le> bytes" using n cl(2) by simp_all
  then have mr: "sbufMoveRangeTo p h (Some d) c bytes padding =
      Some (sbuf_append d (take c (payload h)), sbuf_skip h c, p)"
    using mv cl(1) sbuf_okD(8) [OF h] sbuf_okD(8) [OF d] by (simp add: sbufMoveRangeTo_def sbufGetLength_def)
  have "sub32 remaining c = remaining - c" using cl(2) n(2) by simp
  then have "streamMoveTurn D s d remaining bytes padding p =
      Some (sbuf_append d (take c (payload h)), remaining - c, v, q)"
    using t(1) mr v(1) c by (simp add: streamMoveTurn_def sbufGetLength_def Let_def)
  then show ?thesis
    using v same_header_trans [OF t(5) v(3)] t(3,6) s(2) by (simp add: source_bytes_def)
qed

lemma move_loop:
  assumes "ss_inv D s" "sbuf_ok d" "pool_ok p" "remaining \<le> length (source_bytes D s)"
    "sb_len d + remaining \<le> bytes" "bytes \<le> UINT32_MAX" "curpos d + sb_len d + remaining \<le> sb_capacity d"
  shows "\<exists>e t q. streamMoveLoop D s d remaining bytes padding p = Some (e, t, q) \<and> ss_inv D t \<and> same_header s t \<and>
    pool_ok q \<and> pool_geometry q = pool_geometry p \<and> sbuf_ok e \<and>
    payload e = payload d @ take remaining (source_bytes D s) \<and> curpos e = curpos d \<and> l_pad e = l_pad d \<and>
    source_bytes D t = drop remaining (source_bytes D s) \<and> ss_charge t \<le> ss_charge s"
  using assms
proof (induction "length (sources D s)" arbitrary: s d p remaining rule: less_induct)
  case less
  show ?case
  proof (cases "remaining = 0")
    case True
    then show ?thesis using less.prems by (subst streamMoveLoop.simps) simp
  next
    case False
    then have "source_bytes D s \<noteq> []" using less.prems(4) by auto
    then obtain h rest where src: "sources D s = h # rest" by (cases "sources D s") (auto simp: source_bytes_def)
    have h: "sbuf_ok h" using ss_invD(1) [OF less.prems(1)] src by (simp add: live_buf_def)
    let ?c = "min remaining (sb_len h)" and ?d = "sbuf_append d (take (min remaining (sb_len h)) (payload h))"
    have rm: "remaining \<le> UINT32_MAX" using less.prems(5,6) by simp
    obtain t q where t: "streamMoveTurn D s d remaining bytes padding p = Some (?d, remaining - ?c, t, q)" "ss_inv D t"
      "same_header s t" "pool_ok q" "pool_geometry q = pool_geometry p" "source_bytes D t = drop ?c (source_bytes D s)"
      "ss_charge t \<le> ss_charge s"
      "length (sources D t) = (if ?c = sb_len h then length (sources D s) - 1 else length (sources D s))"
      using move_turn [OF less.prems(1) src less.prems(2,3) _ rm less.prems(5,6,7) refl] False by blast
    have lt: "length (take ?c (payload h)) = ?c" by (simp add: length_payload [OF h])
    have "curpos d + sb_len d + ?c \<le> sb_capacity d" using less.prems(7) by simp
    note a = sbuf_append_obs [OF less.prems(2), of "take ?c (payload h)", unfolded lt, OF this]
    have tk: "take ?c (payload h) = take ?c (source_bytes D s)"
      by (simp add: source_bytes_Cons [OF src] length_payload [OF h])
    show ?thesis
    proof (cases "?c = sb_len h")
      case True
      have "length (sources D t) < length (sources D s)" using t(8) True src by simp
      moreover have "remaining - ?c \<le> length (source_bytes D t)" using t(6) diff_le_mono [OF less.prems(4), of ?c] by simp
      moreover have "sb_len ?d + (remaining - ?c) \<le> bytes" "curpos ?d + sb_len ?d + (remaining - ?c) \<le> sb_capacity ?d"
        using a(3-5) less.prems(5,7) by simp_all
      ultimately obtain e u q' where
        e: "streamMoveLoop D t ?d (remaining - ?c) bytes padding q = Some (e, u, q')" "ss_inv D u" "same_header t u"
        "pool_ok q'" "pool_geometry q' = pool_geometry q" "sbuf_ok e"
        "payload e = payload ?d @ take (remaining - ?c) (source_bytes D t)" "curpos e = curpos ?d" "l_pad e = l_pad ?d"
        "source_bytes D u = drop (remaining - ?c) (source_bytes D t)" "ss_charge u \<le> ss_charge t"
        using less.hyps [OF _ t(2) a(1) t(4) _ _ less.prems(6)] by blast
      have "take ?c (source_bytes D s) @ take (remaining - ?c) (drop ?c (source_bytes D s)) = take remaining (source_bytes D s)"
        using take_add [of ?c "remaining - ?c" "source_bytes D s"] by simp
      then show ?thesis
        using False t e a tk same_header_trans [OF t(3) e(3)] by (subst streamMoveLoop.simps) simp
    next
      case no: False
      then have c: "?c = remaining" by simp
      have "streamMoveLoop D t ?d 0 bytes padding q = Some (?d, t, q)" by (subst streamMoveLoop.simps) simp
      then show ?thesis
        using False t a tk c by (subst streamMoveLoop.simps) simp
    qed
  qed
qed

lemma consume_chunk_ok:
  assumes t: "ss_inv D t" "same_header s t" "source_bytes D t = drop n (source_bytes D s)" "ss_charge t \<le> ss_charge s"
    and s: "ss_ok D s" "ss_header_filled s = ss_header_size s" "n \<le> length (source_bytes D s)" and p: "pool_ok p"
  shows "\<exists>u q. streamConsumeChunk D t n finish p = Some (u, q) \<and> ss_ok D u \<and> pool_ok q \<and>
    pool_geometry q = pool_geometry p \<and> ss_header_size u = ss_header_size s \<and> ss_charge u \<le> ss_charge s \<and>
    frame_bytes D u = (if finish then drop (ss_header_size s + n) (frame_bytes D s)
      else take (ss_header_size s) (frame_bytes D s) @ drop (ss_header_size s + n) (frame_bytes D s)) \<and>
    (\<not> finish \<longrightarrow> ss_header_filled u = ss_header_size u)"
proof -
  note i = ss_invD [OF t(1)]
  have lh: "length (ss_header s) = ss_header_size s" using s(1) by (simp add: ss_ok_def ss_inv_def)
  have f: "frame_bytes D s = ss_header s @ source_bytes D s" using s(2) lh by (simp add: frame_bytes_def)
  have tot: "ss_total s = ss_header_size s + length (source_bytes D s)" "ss_total s \<le> SIZE_MAX"
    using s(1) f lh by (simp_all add: ss_ok_def)
  have c: "sub64 (ss_total t) n = ss_header_size s + length (source_bytes D t)"
    using t(2,3) tot s(3) by (simp add: same_header_def)
  show ?thesis
  proof (cases finish)
    case True
    let ?v = "t\<lparr>ss_total := length (source_bytes D t), ss_header_filled := 0\<rparr>"
    have inv: "ss_inv D ?v" using t(1) by (simp add: ss_inv_def sources_def)
    obtain u q where u: "streamFillHeader D ?v p = Some (u, q)" "ss_inv D u" "pool_ok q" "pool_geometry q = pool_geometry p"
      "ss_total u = ss_total ?v" "ss_header_size u = ss_header_size ?v" "ss_charge u \<le> ss_charge ?v"
      "frame_bytes D u = frame_bytes D ?v" "ss_header_filled u < ss_header_size u \<longrightarrow> sources D u = []"
      using fill_ok [OF inv p] by blast
    have fv: "frame_bytes D ?v = source_bytes D t" by (simp add: frame_bytes_def)
    have "sub64 (ss_header_size s + length (source_bytes D t)) (ss_header_size s) = length (source_bytes D t)"
      using tot t(3) by simp
    then have "streamConsumeChunk D t n finish p = Some (u, q)"
      using True c u(1) t(2) by (simp add: streamConsumeChunk_def Let_def same_header_def)
    moreover have "ss_ok D u" using u fv tot t(3) by (simp add: ss_ok_def)
    ultimately show ?thesis using True u fv f lh t by (simp add: same_header_def)
  next
    case False
    let ?u = "t\<lparr>ss_total := ss_header_size s + length (source_bytes D t)\<rparr>"
    have "frame_bytes D ?u = ss_header s @ source_bytes D t"
      using t(2) s(2) lh by (simp add: frame_bytes_def same_header_def)
    moreover from this have "ss_ok D ?u" using t tot s(2) lh by (simp add: ss_ok_def same_header_def)
    ultimately show ?thesis
      using False c p t(2-4) s(2) f lh by (simp add: streamConsumeChunk_def Let_def same_header_def)
  qed
qed

lemma no_pipe:
  "\<forall>b\<in>set bs. sbuf_ok b \<Longrightarrow> pendingHasPipe bs n False = Some False"
  "\<forall>b. h = Some b \<longrightarrow> sbuf_ok b \<Longrightarrow> headHasPipe h (case h of None \<Rightarrow> 0 | Some b \<Rightarrow> min n (sbufGetLength b)) = Some False"
proof -
  show "\<forall>b\<in>set bs. sbuf_ok b \<Longrightarrow> pendingHasPipe bs n False = Some False"
    by (induction bs arbitrary: n) (auto simp: sbufGetResidentPrefixLength_def sbuf_okD(8) not_less min_def)
  show "\<forall>b. h = Some b \<longrightarrow> sbuf_ok b \<Longrightarrow> headHasPipe h (case h of None \<Rightarrow> 0 | Some b \<Rightarrow> min n (sbufGetLength b)) = Some False"
    by (cases h) (auto simp: headHasPipe_def sbufGetResidentPrefixLength_def sbuf_okD(8))
qed

lemma any_head:
  assumes "ss_inv D s"
  shows "\<exists>h t. streamHead D s = Some (h, t) \<and> ss_inv D t \<and> same_header s t \<and> sources D t = sources D s \<and>
    ss_charge t = ss_charge s \<and> ss_head t = h \<and> (h = None \<longleftrightarrow> sources D s = [])"
proof (cases "sources D s")
  case Nil
  then have "ss_head s = None" by (cases "ss_head s") (simp_all add: sources_def)
  then show ?thesis using Nil assms streamHead_none [OF assms Nil] by simp
next
  case (Cons h rest)
  then show ?thesis using streamHead_some [OF assms Cons] by auto
qed

text \<open>The body of a frame is the \<open>n\<close> bytes behind the header, whichever buffers hold them.\<close>

lemma move_chunk_ok:
  assumes s: "ss_ok D s" "ss_header_filled s = ss_header_size s" "n \<le> length (source_bytes D s)" and p: "pool_ok p"
    and fits: "sbuf_fits n (tier_padding (bp_large p))"
  shows "\<exists>b u q. splicestreamMoveFrameChunk D s None n finish p = Some (b, u, q) \<and> sbuf_ok b \<and>
    payload b = take n (source_bytes D s) \<and> tier_padding (bp_large p) \<le> curpos b \<and> ss_ok D u \<and> pool_ok q \<and>
    pool_geometry q = pool_geometry p \<and> ss_header_size u = ss_header_size s \<and> ss_charge u \<le> ss_charge s \<and>
    frame_bytes D u = (if finish then drop (ss_header_size s + n) (frame_bytes D s)
      else take (ss_header_size s) (frame_bytes D s) @ drop (ss_header_size s + n) (frame_bytes D s)) \<and>
    (\<not> finish \<longrightarrow> ss_header_filled u = ss_header_size u)"
proof -
  let ?pad = "tier_padding (bp_large p)"
  have i: "ss_inv D s" using s(1) by (simp add: ss_ok_def)
  have pad: "?pad \<le> UINT16_MAX" using tier_okD(7) p by (auto simp: pool_ok_def)
  have n32: "n \<le> UINT32_MAX" using fits round_up_ge [of 64 n] by (simp add: sbuf_fits_def)
  have "splicestreamBodyBytes s = length (source_bytes D s)"
    using s(1,2) ss_invD(8) [OF i] by (simp add: splicestreamBodyBytes_def ss_ok_def frame_bytes_def)
  then have asrt: "streamAssertFrame s None n = Some ()" using s(2,3) by (simp add: streamAssertFrame_def)
  obtain h t where t: "streamHead D s = Some (h, t)" "ss_inv D t" "same_header s t" "sources D t = sources D s"
    "ss_charge t = ss_charge s" "ss_head t = h" "h = None \<longleftrightarrow> sources D s = []" using any_head [OF i] by (elim exE conjE) (rule that)
  have hok: "\<forall>b. h = Some b \<longrightarrow> sbuf_ok b" using ss_invD(1) [OF t(2)] t(6) by (auto simp: sources_def live_buf_def)
  note hp = no_pipe(2) [OF hok, of n]
  show ?thesis
  proof (cases "wholeHead h n ?pad False None")
    case True
    then obtain b where b: "h = Some b" "sb_len b = n" "?pad \<le> curpos b"
      by (auto simp: wholeHead_def sbufGetLength_def sbufGetLeftCapacity_def)
    note d = detach_inv [OF t(2) t(6) [unfolded b(1)]]
    have bo: "sbuf_ok b" using hok b(1) by simp
    have src: "sources D s = b # tl (sources D s)" using t(6) b(1) unfolding t(4) [symmetric] by (simp add: sources_def)
    have pb: "payload b = take n (source_bytes D s)" "source_bytes D (snd (streamDetachHead t)) = drop n (source_bytes D s)"
      using b(2) length_payload [OF bo] d(2) t(4)
      by (simp_all add: source_bytes_Cons [OF src]) (simp add: source_bytes_def)
    have "ss_charge (snd (streamDetachHead t)) \<le> ss_charge s" using d(4) t(5) by simp
    from consume_chunk_ok [OF d(1) same_header_trans [OF t(3) d(3)] pb(2) this s p, of finish]
    show ?thesis using True b bo pb(1) t(1) hp asrt
      by (auto simp: splicestreamMoveFrameChunk_def bufferpoolGetLargeBufferPadding_def Let_def)
  next
    case False
    obtain b q where b: "bufferpoolGetBestFit p n ?pad = Some (b, q)" "fresh_buf n ?pad b" "pool_ok q"
      "pool_geometry q = pool_geometry p" using getBestFit_ok [OF p fits pad] by blast
    note F = fresh_bufD [OF b(2)]
    have pend: "\<forall>b\<in>set (dq_elems D (bq_q (ss_pending t))). sbuf_ok b" using ss_invD(2) [OF t(2)] by (simp add: queue_ok_def)
    have sb: "source_bytes D t = source_bytes D s" using t(4) by (simp add: source_bytes_def)
    obtain e u q' where e: "streamMoveLoop D t b n n (bufferpoolGetLargeBufferPadding q) q = Some (e, u, q')" "ss_inv D u"
      "same_header t u" "pool_ok q'" "pool_geometry q' = pool_geometry q" "sbuf_ok e"
      "payload e = payload b @ take n (source_bytes D t)" "curpos e = curpos b"
      "source_bytes D u = drop n (source_bytes D t)" "ss_charge u \<le> ss_charge t"
      using move_loop [OF t(2) F(1) b(3), of n n "bufferpoolGetLargeBufferPadding q"] s(3) sb F(3,6) n32 by auto
    have "ss_charge u \<le> ss_charge s" using e(10) t(5) by simp
    from consume_chunk_ok [OF e(2) same_header_trans [OF t(3) e(3)] e(9) [unfolded sb] this s e(4), of finish]
    show ?thesis using False b(1,4) t(1) hp asrt no_pipe(1) [OF pend] e F(2,5) sb
      by (auto simp: splicestreamMoveFrameChunk_def bufferpoolGetLargeBufferPadding_def settleDestination_def
          streamMoveBody_def Let_def)
  qed
qed

lemma discard_turn:
  assumes s: "ss_inv D s" "sources D s = h # rest" and p: "pool_ok p" and n: "remaining \<le> UINT32_MAX"
    and c: "c = min remaining (sb_len h)"
  shows "\<exists>t q. streamDiscardTurn D s remaining p = Some (remaining - c, t, q) \<and>
    ss_inv D t \<and> same_header s t \<and> pool_ok q \<and> pool_geometry q = pool_geometry p \<and>
    source_bytes D t = drop c (source_bytes D s) \<and> ss_charge t \<le> ss_charge s \<and>
    length (sources D t) = (if c = sb_len h then length (sources D s) - 1 else length (sources D s))"
proof -
  have h: "sbuf_ok h" using ss_invD(1) [OF s(1)] s(2) by (simp add: live_buf_def)
  obtain t where t: "streamHead D s = Some (Some h, t)" "ss_head t = Some h" "sources D t = h # rest" "ss_inv D t"
    "same_header s t" "ss_charge t = ss_charge s" using streamHead_some [OF s] by blast
  have cl: "c \<le> sb_len h" "c \<le> remaining" using c by simp_all
  note k = sbuf_skip_obs [OF h cl(1)]
  obtain v q where v: "streamRecycleEmptyHead (t\<lparr>ss_head := Some (sbuf_skip h c)\<rparr>) p = Some (v, q)" "ss_inv D v"
    "same_header t v" "pool_ok q" "pool_geometry q = pool_geometry p" "source_bytes D v = drop c (source_bytes D t)"
    "ss_charge v \<le> ss_charge t"
    "length (sources D v) = (if c = sb_len h then length (sources D t) - 1 else length (sources D t))"
    using recycle_ok [OF t(4,2) k(1,2,5) cl(1) p] by blast
  have "sub32 remaining c = remaining - c" "min c (sb_len h) = c" using cl n by simp_all
  then have "streamDiscardTurn D s remaining p = Some (remaining - c, v, q)"
    using t(1) v(1) c sbufShiftRight_eq [OF h cl(1)] sbuf_okD(8) [OF h]
    by (simp add: streamDiscardTurn_def sbufGetLength_def sbufGetResidentPrefixLength_def Let_def)
  then show ?thesis using v same_header_trans [OF t(5) v(3)] t(3,6) s(2) by (simp add: source_bytes_def)
qed

lemma discard_loop:
  assumes "ss_inv D s" "pool_ok p" "remaining \<le> length (source_bytes D s)" "remaining \<le> UINT32_MAX"
  shows "\<exists>t q. streamDiscardLoop D s remaining p = Some (t, q) \<and> ss_inv D t \<and> same_header s t \<and>
    pool_ok q \<and> pool_geometry q = pool_geometry p \<and> source_bytes D t = drop remaining (source_bytes D s) \<and>
    ss_charge t \<le> ss_charge s"
  using assms
proof (induction "length (sources D s)" arbitrary: s p remaining rule: less_induct)
  case less
  show ?case
  proof (cases "remaining = 0")
    case True
    then show ?thesis using less.prems by (subst streamDiscardLoop.simps) simp
  next
    case False
    then have "source_bytes D s \<noteq> []" using less.prems(3) by auto
    then obtain h rest where src: "sources D s = h # rest" by (cases "sources D s") (auto simp: source_bytes_def)
    let ?c = "min remaining (sb_len h)"
    obtain t q where t: "streamDiscardTurn D s remaining p = Some (remaining - ?c, t, q)" "ss_inv D t"
      "same_header s t" "pool_ok q" "pool_geometry q = pool_geometry p" "source_bytes D t = drop ?c (source_bytes D s)"
      "ss_charge t \<le> ss_charge s"
      "length (sources D t) = (if ?c = sb_len h then length (sources D s) - 1 else length (sources D s))"
      using discard_turn [OF less.prems(1) src less.prems(2,4) refl] by blast
    show ?thesis
    proof (cases "?c = sb_len h")
      case True
      have "length (sources D t) < length (sources D s)" using t(8) True src by simp
      moreover have "remaining - ?c \<le> length (source_bytes D t)" using t(6) diff_le_mono [OF less.prems(3), of ?c] by simp
      moreover have "remaining - ?c \<le> UINT32_MAX" using less.prems(4) by simp
      ultimately obtain u q' where u: "streamDiscardLoop D t (remaining - ?c) q = Some (u, q')" "ss_inv D u" "same_header t u"
        "pool_ok q'" "pool_geometry q' = pool_geometry q" "source_bytes D u = drop (remaining - ?c) (source_bytes D t)"
        "ss_charge u \<le> ss_charge t" using less.hyps [OF _ t(2,4)] by blast
      then show ?thesis
        using False t same_header_trans [OF t(3) u(3)] by (subst streamDiscardLoop.simps) simp
    next
      case no: False
      then have c: "?c = remaining" by simp
      have "streamDiscardLoop D t 0 q = Some (t, q)" by (subst streamDiscardLoop.simps) simp
      then show ?thesis using False t c by (subst streamDiscardLoop.simps) simp
    qed
  qed
qed

lemma discard_chunk_ok:
  assumes s: "ss_ok D s" "ss_header_filled s = ss_header_size s" "n \<le> length (source_bytes D s)" and p: "pool_ok p"
    and n: "n \<le> UINT32_MAX"
  shows "\<exists>u q. splicestreamDiscardFrameChunk D s n finish p = Some (u, q) \<and> ss_ok D u \<and> pool_ok q \<and>
    pool_geometry q = pool_geometry p \<and> ss_header_size u = ss_header_size s \<and> ss_charge u \<le> ss_charge s \<and>
    frame_bytes D u = (if finish then drop (ss_header_size s + n) (frame_bytes D s)
      else take (ss_header_size s) (frame_bytes D s) @ drop (ss_header_size s + n) (frame_bytes D s)) \<and>
    (\<not> finish \<longrightarrow> ss_header_filled u = ss_header_size u)"
proof -
  have i: "ss_inv D s" using s(1) by (simp add: ss_ok_def)
  have "splicestreamBodyBytes s = length (source_bytes D s)"
    using s(1,2) ss_invD(8) [OF i] by (simp add: splicestreamBodyBytes_def ss_ok_def frame_bytes_def)
  then have asrt: "streamAssertFrame s None n = Some ()" using s(2,3) by (simp add: streamAssertFrame_def)
  obtain t q where t: "streamDiscardLoop D s n p = Some (t, q)" "ss_inv D t" "same_header s t" "pool_ok q"
    "pool_geometry q = pool_geometry p" "source_bytes D t = drop n (source_bytes D s)" "ss_charge t \<le> ss_charge s"
    using discard_loop [OF i p s(3) n] by blast
  from consume_chunk_ok [OF t(2,3,6,7) s t(4), of finish] show ?thesis
    using asrt t(1,5) by (auto simp: splicestreamDiscardFrameChunk_def)
qed

section \<open>Destruction\<close>

lemma release_all_ok:
  assumes "ss_inv D s" "pool_ok p"
  shows "\<exists>t q. streamReleaseAll D s p = Some (t, q) \<and> ss_inv D t \<and> sources D t = [] \<and> pool_ok q \<and>
    pool_geometry q = pool_geometry p"
  using assms
proof (induction "length (sources D s)" arbitrary: s p)
  case 0
  then show ?case using streamHead_none [OF 0(2)] by (subst streamReleaseAll.simps) simp
next
  case (Suc n)
  then obtain h rest where src: "sources D s = h # rest" "length rest = n" by (cases "sources D s") auto
  have h: "sbuf_ok h" using ss_invD(1) [OF Suc.prems(1)] src by (simp add: live_buf_def)
  obtain t where t: "streamHead D s = Some (Some h, t)" "ss_head t = Some h" "sources D t = h # rest" "ss_inv D t"
    using streamHead_some [OF Suc.prems(1) src(1)] by blast
  note u = detach_inv [OF t(4,2)]
  obtain q where q: "bufferpoolReuseBuffer p h = Some q" "pool_ok q" "pool_geometry q = pool_geometry p"
    using reuse_ok [OF Suc.prems(2) h] by blast
  have "n = length (sources D (snd (streamDetachHead t)))" using u(2) t(3) src(2) by simp
  from Suc.hyps(1) [OF this u(1) q(2)] show ?case using t(1) q by (subst streamReleaseAll.simps) auto
qed

lemma destroy_stream_ok:
  assumes "ss_inv D s" "pool_ok p"
  shows "\<exists>q. splicestreamDestroy D (Some s) p = Some q \<and> pool_ok q \<and> pool_geometry q = pool_geometry p"
proof -
  obtain t q where t: "streamReleaseAll D s p = Some (t, q)" "ss_inv D t" "sources D t = []" "pool_ok q"
    "pool_geometry q = pool_geometry p" using release_all_ok [OF assms] by blast
  have e: "dq_elems D (bq_q (ss_pending t)) = []" "bq_budget (ss_pending t) = None" "ss_charge t = 0"
    using t(2,3) by (auto simp: sources_def ss_inv_def)
  then show ?thesis using t by (simp add: splicestreamDestroy_def bufferqueueDestroy_def)
qed

end

section \<open>Properties\<close>

text \<open>The operations of a client and what they mean on the byte sequence: the output of an operation
  and the bytes it leaves.\<close>

datatype frame_op = PushOp sbuf | TakeOp nat bool | DiscardOp nat bool | SettleOp nat

fun frame_exec ::
  "('q, sbuf) deque_ops \<Rightarrow> 'q splice_stream \<Rightarrow> buffer_pool \<Rightarrow> frame_op \<Rightarrow> (byte list \<times> 'q splice_stream \<times> buffer_pool) option" where
  "frame_exec D s p (PushOp b) = do { (taken, s, p) \<leftarrow> splicestreamPush D s b p; ensure taken; Some ([], s, p) }"
| "frame_exec D s p (TakeOp n fin) = do { (b, s, p) \<leftarrow> splicestreamMoveFrameChunk D s None n fin p; Some (payload b, s, p) }"
| "frame_exec D s p (DiscardOp n fin) = do { (s, p) \<leftarrow> splicestreamDiscardFrameChunk D s n fin p; Some ([], s, p) }"
| "frame_exec D s p (SettleOp m) = do { (_, s, p) \<leftarrow> splicestreamSettleCharge D s m p; Some ([], s, p) }"

fun frame_spec :: "nat \<Rightarrow> byte list \<Rightarrow> frame_op \<Rightarrow> byte list \<times> byte list" where
  "frame_spec hs bytes (PushOp b) = ([], bytes @ payload b)"
| "frame_spec hs bytes (TakeOp n fin) =
     (take n (drop hs bytes), (if fin then [] else take hs bytes) @ drop (hs + n) bytes)"
| "frame_spec hs bytes (DiscardOp n fin) = ([], (if fin then [] else take hs bytes) @ drop (hs + n) bytes)"
| "frame_spec hs bytes (SettleOp m) = ([], bytes)"

fun frame_allowed :: "('q, sbuf) deque_ops \<Rightarrow> 'q splice_stream \<Rightarrow> buffer_pool \<Rightarrow> frame_op \<Rightarrow> bool" where
  "frame_allowed D s p (PushOp b) \<longleftrightarrow>
     sbuf_ok b \<and> ss_total s + sb_len b \<le> SIZE_MAX \<and> ss_charge s + storage b \<le> SIZE_MAX"
| "frame_allowed D s p (TakeOp n fin) \<longleftrightarrow>
     ss_header_size s + n \<le> length (frame_bytes D s) \<and> sbuf_fits n (tier_padding (bp_large p))"
| "frame_allowed D s p (DiscardOp n fin) \<longleftrightarrow> ss_header_size s + n \<le> length (frame_bytes D s) \<and> n \<le> UINT32_MAX"
| "frame_allowed D s p (SettleOp m) \<longleftrightarrow> True"

lemma complete_header:
  assumes "ss_ok D s" "ss_header_size s \<le> length (frame_bytes D s)"
  shows "ss_header_filled s = ss_header_size s" "source_bytes D s = drop (ss_header_size s) (frame_bytes D s)"
proof -
  have i: "length (ss_header s) = ss_header_size s" "ss_header_filled s \<le> ss_header_size s"
    "ss_header_filled s < ss_header_size s \<longrightarrow> source_bytes D s = []"
    using assms(1) by (auto simp: ss_ok_def ss_inv_def source_bytes_def)
  then show f: "ss_header_filled s = ss_header_size s" using assms(2) by (auto simp: frame_bytes_def)
  then show "source_bytes D s = drop (ss_header_size s) (frame_bytes D s)" using i(1) by (simp add: frame_bytes_def)
qed

text \<open>C10. The framing queue refines one byte sequence: whatever buffers the bytes arrived in and whatever
  was merged, compacted or partly consumed before, input appends its payload, taking or discarding
  part of a frame removes exactly those bytes behind the header, the last part of a frame removes
  the header too, and settling changes no byte. No operation aborts, and the invariant with its exact
  totals and charges is kept.\<close>

theorem splice_stream_refines:
  assumes "sbuf_deque D" "ss_ok D s" "pool_ok p" "frame_allowed D s p op"
  shows "\<exists>out t q. frame_exec D s p op = Some (out, t, q) \<and> ss_ok D t \<and> pool_ok q \<and>
    ss_header_size t = ss_header_size s \<and> (out, frame_bytes D t) = frame_spec (ss_header_size s) (frame_bytes D s) op"
proof (cases op)
  case (PushOp b)
  then show ?thesis using sbuf_deque.splice_push_ok [OF assms(1,2) _ assms(3), of b] assms(4) by auto
next
  case (TakeOp n fin)
  then have h: "ss_header_size s \<le> length (frame_bytes D s)" using assms(4) by simp
  note c = complete_header [OF assms(2) h]
  have "n \<le> length (source_bytes D s)" using assms(4) TakeOp c(2) by auto
  from sbuf_deque.move_chunk_ok [OF assms(1,2) c(1) this assms(3), of fin] show ?thesis
    using assms(4) TakeOp c(2) by (cases fin) auto
next
  case (DiscardOp n fin)
  then have h: "ss_header_size s \<le> length (frame_bytes D s)" using assms(4) by simp
  note c = complete_header [OF assms(2) h]
  have "n \<le> length (source_bytes D s)" using assms(4) DiscardOp c(2) by auto
  from sbuf_deque.discard_chunk_ok [OF assms(1,2) c(1) this assms(3), of fin] show ?thesis
    using assms(4) DiscardOp c(2) by (cases fin) auto
next
  case (SettleOp m)
  then show ?thesis using sbuf_deque.settle_charge_ok [OF assms(1-3), of m] by auto
qed

definition splice_sample :: "sbuf list splice_stream" where
  "splice_sample = \<lparr>ss_pending = bufferqueueInitEmpty list_deque, ss_head = Some (sbuf_append sbuf_sample [104, 105]),
     ss_head_charge = 160, ss_total = 4, ss_charge = 160, ss_header_size = 2, ss_header_filled = 2, ss_header = [0, 2]\<rparr>"

lemma splice_sample_ok:
  "ss_ok list_deque splice_sample" "frame_bytes list_deque splice_sample = [0, 2, 104, 105]"
proof -
  have src: "sources list_deque splice_sample = [sbuf_append sbuf_sample [104, 105]]"
    by (simp add: sources_def splice_sample_def bufferqueueInitEmpty_def list_deque_def)
  have a: "sbuf_ok (sbuf_append sbuf_sample [104, 105])" "payload (sbuf_append sbuf_sample [104, 105]) = [104, 105]"
    "storage (sbuf_append sbuf_sample [104, 105]) = 160" "sb_len (sbuf_append sbuf_sample [104, 105]) = 2"
    using sample_append_ok [of "[104, 105]"] sbuf_append_obs [OF sbuf_sample_ok, of "[104, 105]"]
    by (simp_all add: storage_eq) (simp_all add: sbuf_sample_def)
  show f: "frame_bytes list_deque splice_sample = [0, 2, 104, 105]"
    using src a(2) by (simp add: frame_bytes_def source_bytes_def splice_sample_def)
  have "queue_ok list_deque (bufferqueueInitEmpty list_deque :: sbuf list buffer_queue)"
    by (simp add: queue_ok_def bufferqueueInitEmpty_def list_deque_def)
  then show "ss_ok list_deque splice_sample"
    using src a f by (simp add: ss_ok_def ss_inv_def live_buf_def splice_sample_def bufferqueueInitEmpty_def)
qed

theorem splice_stream_refines_witness:
  "\<exists>t q. frame_exec list_deque splice_sample sample_pool (TakeOp 2 True) = Some ([104, 105], t, q) \<and>
    frame_bytes list_deque t = []"
proof -
  have "frame_allowed list_deque splice_sample sample_pool (TakeOp 2 True)"
    by (simp add: splice_sample_ok(2) sample_pool_def Let_def new_tier_def sbuf_fits_def round_up_def) (simp add: splice_sample_def)
  from splice_stream_refines [OF list_stream.sbuf_deque_axioms splice_sample_ok(1) sample_pool_ok this]
  show ?thesis by (auto simp: splice_sample_ok(2)) (auto simp: splice_sample_def)
qed

end
