(* ===== verification/Udp_Over_Tcp.thy ===== *)
theory Udp_Over_Tcp
  imports Splice_Laws
begin

text \<open>
  The tunnels \<open>tunnels/UdpOverTcpClient\<close> and \<open>tunnels/UdpOverTcpServer\<close>: datagrams framed with a
  two-byte length on a byte stream. One direction of each tunnel writes frames, the other one feeds
  what arrives to a frame reader and passes on every complete body.

  A handler calls the neighbouring tunnel for each body, and the neighbour may act before it
  returns: use the worker's pool, send more payload to this handler, or finish the line. A neighbour
  is described by what it does during the \<open>k\<close>-th delivery. A line that was finished receives no
  further payload. The handlers return the calls they make as a list of events.
\<close>

section \<open>The tunnels\<close>

definition kHeaderSize :: nat where
  "kHeaderSize = 2"

definition kMaxAllowedUDPPacketLength :: nat where
  "kMaxAllowedUDPPacketLength = 65535 - 20 - 8 - kHeaderSize"

definition kReadChargeLimit :: nat where
  "kReadChargeLimit = 4 * 1024 * 1024"

definition kMaxReentryBytes :: nat where
  "kMaxReentryBytes = 2 * 1024 * 1024"

datatype tunnel_event =
    DestinationIsUdp
  | NextUpStreamInit
  | NextUpStreamPayload sbuf
  | NextUpStreamFinish
  | PrevDownStreamPayload sbuf
  | PrevDownStreamFinish

text \<open>\<open>htons\<close> and \<open>ntohs\<close> exchange the two bytes on a little-endian host.\<close>

definition swap16 :: "nat \<Rightarrow> nat" where
  "swap16 v = v mod 256 * 256 + v div 256 mod 256"

record neighbour =
  nb_pool :: "nat \<Rightarrow> buffer_pool \<Rightarrow> buffer_pool"
  nb_nested :: "sbuf list list"
  nb_finishes :: "nat \<Rightarrow> bool"
  nb_alive_after_finish :: bool

definition nested_at :: "neighbour \<Rightarrow> nat \<Rightarrow> sbuf list" where
  "nested_at nb k = (if k < length (nb_nested nb) then nb_nested nb ! k else [])"

text \<open>Line state.\<close>

definition udpovertcpLinestateInitialize ::
  "('q, sbuf) deque_ops \<Rightarrow> nat \<Rightarrow> bool \<Rightarrow> 'q splice_frame_reader option" where
  "udpovertcpLinestateInitialize D sizeof_stream splice_output =
     spliceframereaderInit D sizeof_stream kHeaderSize kMaxReentryBytes kReadChargeLimit splice_output"

definition udpovertcpLinestateDestroy ::
  "('q, sbuf) deque_ops \<Rightarrow> 'q splice_frame_reader \<Rightarrow> buffer_pool \<Rightarrow> ('q splice_frame_reader \<times> buffer_pool) option" where
  "udpovertcpLinestateDestroy D r pool = spliceframereaderDestroy D r pool"

definition udpovertcpclientTunnelUpStreamInit ::
  "('q, sbuf) deque_ops \<Rightarrow> nat \<Rightarrow> bool \<Rightarrow> (tunnel_event list \<times> 'q splice_frame_reader) option" where
  "udpovertcpclientTunnelUpStreamInit D sizeof_stream supports_splice = do {
     r \<leftarrow> udpovertcpLinestateInitialize D sizeof_stream supports_splice;
     Some ([NextUpStreamInit], r)
   }"

definition udpovertcpserverTunnelUpStreamInit ::
  "('q, sbuf) deque_ops \<Rightarrow> nat \<Rightarrow> bool \<Rightarrow> (tunnel_event list \<times> 'q splice_frame_reader) option" where
  "udpovertcpserverTunnelUpStreamInit D sizeof_stream supports_splice = do {
     r \<leftarrow> udpovertcpLinestateInitialize D sizeof_stream supports_splice;
     Some ([DestinationIsUdp, NextUpStreamInit], r)
   }"

definition udpovertcpTunnelUpStreamFinish ::
  "('q, sbuf) deque_ops \<Rightarrow> 'q splice_frame_reader \<Rightarrow> buffer_pool \<Rightarrow>
   (tunnel_event list \<times> 'q splice_frame_reader \<times> buffer_pool) option" where
  "udpovertcpTunnelUpStreamFinish D r pool = do {
     (r, pool) \<leftarrow> udpovertcpLinestateDestroy D r pool;
     Some ([NextUpStreamFinish], r, pool)
   }"

definition udpovertcpTunnelDownStreamFinish ::
  "('q, sbuf) deque_ops \<Rightarrow> 'q splice_frame_reader \<Rightarrow> buffer_pool \<Rightarrow>
   (tunnel_event list \<times> 'q splice_frame_reader \<times> buffer_pool) option" where
  "udpovertcpTunnelDownStreamFinish D r pool = do {
     (r, pool) \<leftarrow> udpovertcpLinestateDestroy D r pool;
     Some ([PrevDownStreamFinish], r, pool)
   }"

definition udpovertcpCloseLine ::
  "('q, sbuf) deque_ops \<Rightarrow> neighbour \<Rightarrow> 'q splice_frame_reader \<Rightarrow> buffer_pool \<Rightarrow>
   (tunnel_event list \<times> 'q splice_frame_reader \<times> buffer_pool) option" where
  "udpovertcpCloseLine D nb r pool = do {
     (r, pool) \<leftarrow> udpovertcpLinestateDestroy D r pool;
     Some (NextUpStreamFinish # (if nb_alive_after_finish nb then [PrevDownStreamFinish] else []), r, pool)
   }"

text \<open>The writing direction. The empty payload aborts in a debug build.\<close>

definition udpFrame ::
  "'q splice_frame_reader \<Rightarrow> sbuf \<Rightarrow> buffer_pool \<Rightarrow> (sbuf option \<times> buffer_pool) option" where
  "udpFrame r buf pool = do {
     ensure (sbufGetLength buf \<noteq> 0);
     ensure (spliceframereaderIsAttached r);
     let len = sbufGetLength buf;
     if len = 0 \<or> len > kMaxAllowedUDPPacketLength then do {
       pool \<leftarrow> bufferpoolReuseBuffer pool buf;
       Some (None, pool)
     }
     else do {
       ensure (sbufGetLeftCapacity buf \<ge> kHeaderSize);
       buf \<leftarrow> sbufShiftLeft buf kHeaderSize;
       buf \<leftarrow> sbufWriteUI16 buf (swap16 (u16 len));
       Some (Some buf, pool)
     }
   }"

definition udpovertcpclientTunnelUpStreamPayload ::
  "'q splice_frame_reader \<Rightarrow> sbuf \<Rightarrow> buffer_pool \<Rightarrow> (tunnel_event list \<times> buffer_pool) option" where
  "udpovertcpclientTunnelUpStreamPayload r buf pool = do {
     (framed, pool) \<leftarrow> udpFrame r buf pool;
     Some (case framed of None \<Rightarrow> [] | Some b \<Rightarrow> [NextUpStreamPayload b], pool)
   }"

definition udpovertcpserverTunnelDownStreamPayload ::
  "'q splice_frame_reader \<Rightarrow> sbuf \<Rightarrow> buffer_pool \<Rightarrow> (tunnel_event list \<times> buffer_pool) option" where
  "udpovertcpserverTunnelDownStreamPayload r buf pool = do {
     (framed, pool) \<leftarrow> udpFrame r buf pool;
     Some (case framed of None \<Rightarrow> [] | Some b \<Rightarrow> [PrevDownStreamPayload b], pool)
   }"

text \<open>The reading direction: admission, with the switch on its result. The flag says whether this call
  drains the reader.\<close>

definition udpAdmit ::
  "('q, sbuf) deque_ops \<Rightarrow> neighbour \<Rightarrow> 'q splice_frame_reader \<Rightarrow> sbuf \<Rightarrow> buffer_pool \<Rightarrow>
   (bool \<times> tunnel_event list \<times> 'q splice_frame_reader \<times> buffer_pool) option" where
  "udpAdmit D nb r buf pool = do {
     (admitted, r, pool) \<leftarrow> spliceframereaderAdmit D r buf pool;
     case admitted of
       SpliceFrameDrain \<Rightarrow> Some (True, [], r, pool)
     | SpliceFrameQueued \<Rightarrow> Some (False, [], r, pool)
     | SpliceFrameEmpty \<Rightarrow> Some (False, [], r, pool)
     | _ \<Rightarrow> do {
         (evs, r, pool) \<leftarrow> udpovertcpCloseLine D nb r pool;
         Some (False, evs, r, pool)
       }
   }"

text \<open>Payload the neighbour sends back during a delivery: the same handler, which only admits while
  the outer call drains.\<close>

primrec nestedPayloads ::
  "('q, sbuf) deque_ops \<Rightarrow> neighbour \<Rightarrow> sbuf list \<Rightarrow> 'q splice_frame_reader \<Rightarrow> buffer_pool \<Rightarrow>
   (tunnel_event list \<times> 'q splice_frame_reader \<times> buffer_pool) option" where
  "nestedPayloads D nb [] r pool = Some ([], r, pool)"
| "nestedPayloads D nb (b # bs) r pool =
     (if \<not> spliceframereaderIsAttached r then Some ([], r, pool)
      else do {
        (drains, evs, r, pool) \<leftarrow> udpAdmit D nb r b pool;
        ensure (\<not> drains);
        (evs', r, pool) \<leftarrow> nestedPayloads D nb bs r pool;
        Some (evs @ evs', r, pool)
      })"

text \<open>Where a tunnel delivers and which call of the neighbour finishes the line.\<close>

record direction =
  dir_deliver :: "sbuf \<Rightarrow> tunnel_event"
  dir_finish_up :: bool

definition callNeighbour ::
  "('q, sbuf) deque_ops \<Rightarrow> direction \<Rightarrow> neighbour \<Rightarrow> nat \<Rightarrow> 'q splice_frame_reader \<Rightarrow> sbuf \<Rightarrow> buffer_pool \<Rightarrow>
   (tunnel_event list \<times> 'q splice_frame_reader \<times> buffer_pool) option" where
  "callNeighbour D dir nb k r body pool = do {
     (evs, r, pool) \<leftarrow> nestedPayloads D nb (nested_at nb k) r (nb_pool nb k pool);
     (fin, r, pool) \<leftarrow> (if nb_finishes nb k \<and> spliceframereaderIsAttached r
       then (if dir_finish_up dir then udpovertcpTunnelUpStreamFinish D r pool
             else udpovertcpTunnelDownStreamFinish D r pool)
       else Some ([], r, pool));
     Some (dir_deliver dir body # evs @ fin, r, pool)
   }"

datatype turn = Again | Break | Return

definition drainTurn ::
  "('q, sbuf) deque_ops \<Rightarrow> direction \<Rightarrow> neighbour \<Rightarrow> nat \<Rightarrow> 'q splice_frame_reader \<Rightarrow> buffer_pool \<Rightarrow>
   (turn \<times> nat \<times> tunnel_event list \<times> 'q splice_frame_reader \<times> buffer_pool) option" where
  "drainTurn D dir nb k r pool = do {
     header \<leftarrow> spliceframereaderPeekHeader r;
     case header of
       None \<Rightarrow> Some (Break, k, [], r, pool)
     | Some h \<Rightarrow> do {
         network_length \<leftarrow> mem_read h 0 kHeaderSize;
         let len = swap16 (le_value network_length);
         if len = 0 then do {
           (evs, r, pool) \<leftarrow> udpovertcpCloseLine D nb r pool;
           Some (Return, k, evs, r, pool)
         }
         else do {
           ready \<leftarrow> spliceframereaderBodyReady r len;
           if \<not> ready then Some (Break, k, [], r, pool)
           else do {
             (body, r, pool) \<leftarrow> spliceframereaderTakeFrame D r len pool;
             (evs, r, pool) \<leftarrow> callNeighbour D dir nb k r body pool;
             Some (if spliceframereaderIsAttached r then Again else Return, k + 1, evs, r, pool)
           }
         }
       }
   }"

definition endDrain ::
  "('q, sbuf) deque_ops \<Rightarrow> neighbour \<Rightarrow> 'q splice_frame_reader \<Rightarrow> buffer_pool \<Rightarrow>
   (tunnel_event list \<times> 'q splice_frame_reader \<times> buffer_pool) option" where
  "endDrain D nb r pool = do {
     held \<leftarrow> spliceframereaderLength r;
     ensure (held < kHeaderSize + UINT16_MAX);
     (ended, r, pool) \<leftarrow> spliceframereaderEndDrain D r pool;
     if \<not> ended then udpovertcpCloseLine D nb r pool else Some ([], r, pool)
   }"

partial_function (option) drainLoop ::
  "('q, sbuf) deque_ops \<Rightarrow> direction \<Rightarrow> neighbour \<Rightarrow> nat \<Rightarrow> tunnel_event list \<Rightarrow> 'q splice_frame_reader \<Rightarrow> buffer_pool \<Rightarrow>
   (nat \<times> tunnel_event list \<times> 'q splice_frame_reader \<times> buffer_pool) option" where
  "drainLoop D dir nb k evs r pool = Option.bind (drainTurn D dir nb k r pool) (\<lambda>x.
     if fst x = Again
     then drainLoop D dir nb (fst (snd x)) (evs @ fst (snd (snd x))) (fst (snd (snd (snd x)))) (snd (snd (snd (snd x))))
     else if fst x = Return then Some (fst (snd x), evs @ fst (snd (snd x)), snd (snd (snd x)))
     else Option.bind (endDrain D nb (fst (snd (snd (snd x)))) (snd (snd (snd (snd x)))))
       (\<lambda>y. Some (fst (snd x), evs @ fst y, snd y)))"

declare drainLoop.simps [code]

definition udpDecode ::
  "('q, sbuf) deque_ops \<Rightarrow> direction \<Rightarrow> neighbour \<Rightarrow> nat \<Rightarrow> 'q splice_frame_reader \<Rightarrow> sbuf \<Rightarrow> buffer_pool \<Rightarrow>
   (nat \<times> tunnel_event list \<times> 'q splice_frame_reader \<times> buffer_pool) option" where
  "udpDecode D dir nb k r buf pool = do {
     (drains, evs, r, pool) \<leftarrow> udpAdmit D nb r buf pool;
     if drains then drainLoop D dir nb k evs r pool else Some (k, evs, r, pool)
   }"

definition udpovertcpserverTunnelUpStreamPayload ::
  "('q, sbuf) deque_ops \<Rightarrow> neighbour \<Rightarrow> nat \<Rightarrow> 'q splice_frame_reader \<Rightarrow> sbuf \<Rightarrow> buffer_pool \<Rightarrow>
   (nat \<times> tunnel_event list \<times> 'q splice_frame_reader \<times> buffer_pool) option" where
  "udpovertcpserverTunnelUpStreamPayload D nb k r buf pool =
     udpDecode D \<lparr>dir_deliver = NextUpStreamPayload, dir_finish_up = False\<rparr> nb k r buf pool"

definition udpovertcpclientTunnelDownStreamPayload ::
  "('q, sbuf) deque_ops \<Rightarrow> neighbour \<Rightarrow> nat \<Rightarrow> 'q splice_frame_reader \<Rightarrow> sbuf \<Rightarrow> buffer_pool \<Rightarrow>
   (nat \<times> tunnel_event list \<times> 'q splice_frame_reader \<times> buffer_pool) option" where
  "udpovertcpclientTunnelDownStreamPayload D nb k r buf pool =
     udpDecode D \<lparr>dir_deliver = PrevDownStreamPayload, dir_finish_up = True\<rparr> nb k r buf pool"

end
