(* ===== verification/Udp_Laws.thy ===== *)
theory Udp_Laws
  imports Udp_Over_Tcp
begin

text \<open>
  Correctness of the UdpOverTcp tunnels: what one side frames the other side delivers, datagram by
  datagram, however the byte stream was cut, also when the neighbouring tunnel sends more payload
  while a body is being delivered to it.
\<close>

section \<open>Frames\<close>

definition udp_frame :: "byte list \<Rightarrow> byte list" where
  "udp_frame d = be_bytes16 (length d) @ d"

definition udp_take :: "byte list \<Rightarrow> (byte list \<times> byte list) option" where
  "udp_take bs =
     (if length bs < 2 then None
      else let n = be16 (bs ! 0) (bs ! 1)
           in if n = 0 \<or> length bs < 2 + n then None else Some (take n (drop 2 bs), drop (2 + n) bs))"

text \<open>A frame that announces no bytes.\<close>

definition udp_bad :: "byte list \<Rightarrow> bool" where
  "udp_bad bs \<longleftrightarrow> 2 \<le> length bs \<and> be16 (bs ! 0) (bs ! 1) = 0"

text \<open>Delivering frames while the bytes \<open>nest k\<close> arrive during the \<open>k\<close>-th delivery.\<close>

inductive drains :: "(nat \<Rightarrow> byte list) \<Rightarrow> nat \<Rightarrow> byte list \<Rightarrow> byte list list \<Rightarrow> nat \<Rightarrow> byte list \<Rightarrow> bool"
  for nest where
  stop: "udp_take h = None \<Longrightarrow> drains nest k h [] k h"
| deliver: "udp_take h = Some (f, rest) \<Longrightarrow> drains nest (Suc k) (rest @ nest k) fs k' h' \<Longrightarrow>
    drains nest k h (f # fs) k' h'"

inductive_cases drains_NilE: "drains nest k h [] k' h'"
inductive_cases drains_ConsE: "drains nest k h (f # fs) k' h'"

lemma be16_be_bytes: "n \<le> UINT16_MAX \<Longrightarrow> be16 (be_bytes16 n ! 0) (be_bytes16 n ! 1) = n"
  using be16_bytes [of n] by (simp add: be_bytes16_def)

lemma udp_take_frame:
  assumes "d \<noteq> []" "length d \<le> UINT16_MAX"
  shows "udp_take (udp_frame d @ rest) = Some (d, rest)"
  using assms be16_be_bytes [OF assms(2)] by (auto simp: udp_take_def udp_frame_def be_bytes16_def Let_def)

lemma udp_take_SomeD:
  assumes "udp_take h = Some (f, rest)"
  shows "h = udp_frame f @ rest" "f \<noteq> []" "length f \<le> UINT16_MAX"
    "length f = be16 (h ! 0) (h ! 1)" "f = take (length f) (drop 2 h)" "rest = drop (2 + length f) h" "2 \<le> length h"
proof -
  let ?n = "be16 (h ! 0) (h ! 1)"
  have u: "2 \<le> length h" "?n \<noteq> 0" "2 + ?n \<le> length h" "f = take ?n (drop 2 h)" "rest = drop (2 + ?n) h"
    using assms by (auto simp: udp_take_def Let_def not_less split: if_splits)
  then have l: "length f = ?n" by simp
  show "length f = ?n" "f \<noteq> []" "length f \<le> UINT16_MAX" "2 \<le> length h"
    "f = take (length f) (drop 2 h)" "rest = drop (2 + length f) h"
    using l u be16_le [of "h ! 0" "h ! 1"] by auto
  obtain a b t where h: "h = a # b # t" using u(1) by (cases h; cases "tl h") auto
  have "be_bytes16 (length f) = [a, b]" using l h be_bytes_be16 by simp
  then show "h = udp_frame f @ rest" using u(4,5) h by (simp add: udp_frame_def l)
qed

lemma udp_take_append: "udp_take h = Some (f, rest) \<Longrightarrow> udp_take (h @ t) = Some (f, rest @ t)"
  using udp_take_SomeD [of h f rest] udp_take_frame [of f "rest @ t"] by simp

lemma udp_take_less: "udp_take h = Some (f, rest) \<Longrightarrow> length rest + length f + 2 = length h"
  using arg_cong [OF udp_take_SomeD(1) [of h f rest], of length] by (simp add: udp_frame_def be_bytes16_def)

text \<open>The deliveries are the frames of the bytes that arrived, in order; what is left is no frame.\<close>

lemma drains_bytes:
  "drains nest k h fs k' h' \<Longrightarrow>
   h @ concat (map nest [k..<k']) = concat (map udp_frame fs) @ h' \<and> udp_take h' = None \<and> k' = k + length fs"
proof (induction rule: drains.induct)
  case (deliver h f rest k fs k' h')
  then have "k < k'" by simp
  then have "concat (map nest [k..<k']) = nest k @ concat (map nest [Suc k..<k'])" by (simp add: upt_conv_Cons)
  then have "h @ concat (map nest [k..<k']) = udp_frame f @ (rest @ nest k) @ concat (map nest [Suc k..<k'])"
    by (simp only: udp_take_SomeD(1) [OF deliver(1)] append_assoc)
  also have "\<dots> = concat (map udp_frame (f # fs)) @ h'" using conjunct1 [OF deliver.IH] by (simp only: list.map concat.simps append_assoc)
  finally show ?case using deliver.IH by simp
qed simp

lemma left_over_small:
  assumes "udp_take h = None" "\<not> udp_bad h"
  shows "length h \<le> 65536"
  using assms be16_le [of "h ! 0" "h ! 1"] by (auto simp: udp_take_def udp_bad_def Let_def split: if_splits)

section \<open>The reader\<close>

definition modest_pool :: "buffer_pool \<Rightarrow> bool" where
  "modest_pool p \<longleftrightarrow> pool_ok p \<and> tier_size (bp_large p) + tier_padding (bp_large p) + 64 \<le> kReadChargeLimit \<and>
     tier_size (bp_medium p) + tier_padding (bp_medium p) + 64 \<le> kReadChargeLimit \<and>
     tier_size (bp_small p) + tier_padding (bp_small p) + 64 \<le> kReadChargeLimit"

lemma modest_same: "modest_pool p \<Longrightarrow> pool_ok q \<Longrightarrow> pool_geometry q = pool_geometry p \<Longrightarrow> modest_pool q"
  by (simp add: modest_pool_def pool_geometry_def tier_geometry_def)

lemma modest_padding:
  assumes "modest_pool p"
  shows "tier_padding (bp_large p) \<le> 65504" "32 dvd tier_padding (bp_large p)"
  using assms pad_bound [of "tier_padding (bp_large p)"] tier_okD(5,7) [of "bp_cap p" "bp_large p"]
  by (auto simp: modest_pool_def pool_ok_def)

lemma modest_fits:
  assumes "modest_pool p" "n \<le> kMaxReentryBytes"
  shows "sbuf_fits n (tier_padding (bp_large p))" "fit_storage p n \<le> kReadChargeLimit"
proof -
  note pad = modest_padding [OF assms(1)]
  have r: "round_up 64 n < n + 64" "round_up 32 (tier_padding (bp_large p)) = tier_padding (bp_large p)"
    using round_up_less [of 64 n] round_up_of_dvd [OF _ pad(2)] by simp_all
  show "sbuf_fits n (tier_padding (bp_large p))" using r pad(1) assms(2) by (simp add: sbuf_fits_def kMaxReentryBytes_def)
  show "fit_storage p n \<le> kReadChargeLimit"
    using assms r pad(1)
    by (cases "bufferpoolSelectBestFit p n (tier_padding (bp_large p))")
       (simp_all add: fit_storage_def fit_geometry_def tier_geometry_def modest_pool_def kReadChargeLimit_def kMaxReentryBytes_def)
qed

definition held_bytes :: "('q, sbuf) deque_ops \<Rightarrow> 'q splice_frame_reader \<Rightarrow> byte list" where
  "held_bytes D r = (case fr_stream r of None \<Rightarrow> [] | Some s \<Rightarrow> frame_bytes D s)"

definition reader_ok :: "('q, sbuf) deque_ops \<Rightarrow> 'q splice_frame_reader \<Rightarrow> bool \<Rightarrow> bool" where
  "reader_ok D r draining \<longleftrightarrow> (\<exists>s. fr_stream r = Some s \<and> ss_ok D s \<and> ss_header_size s = 2 \<and>
     \<not> fr_frame_active r \<and> fr_draining r = draining \<and> fr_nested_bytes r = kMaxReentryBytes \<and>
     fr_retained_charge r = kReadChargeLimit \<and>
     (if draining then ss_charge s \<le> 2 * UINT32_MAX \<and> ss_total s \<le> 2 * UINT32_MAX
      else ss_charge s \<le> kReadChargeLimit \<and> ss_total s \<le> 65536))"

lemma reader_okE:
  assumes "reader_ok D r draining"
  obtains s where "fr_stream r = Some s" "ss_ok D s" "ss_header_size s = 2" "\<not> fr_frame_active r"
    "fr_draining r = draining" "fr_nested_bytes r = kMaxReentryBytes" "fr_retained_charge r = kReadChargeLimit"
    "held_bytes D r = frame_bytes D s" "ss_total s = length (held_bytes D r)"
    "if draining then ss_charge s \<le> 2 * UINT32_MAX \<and> ss_total s \<le> 2 * UINT32_MAX
     else ss_charge s \<le> kReadChargeLimit \<and> ss_total s \<le> 65536"
  using assms by (auto simp: reader_ok_def held_bytes_def ss_ok_def)

lemma held_stream [simp]: "held_bytes D (r\<lparr>fr_stream := Some s\<rparr>) = frame_bytes D s"
  "held_bytes D (r\<lparr>fr_stream := Some s, fr_draining := b\<rparr>) = frame_bytes D s"
  by (simp_all add: held_bytes_def)

text \<open>A complete header is the first two held bytes, and the rest is in the sources.\<close>

lemma stream_header:
  assumes "ss_ok D s" "ss_header_size s = 2"
  shows "ss_header_filled s = 2 \<longleftrightarrow> 2 \<le> length (frame_bytes D s)"
    "ss_header_filled s = 2 \<Longrightarrow> ss_header s = take 2 (frame_bytes D s) \<and> source_bytes D s = drop 2 (frame_bytes D s)"
    "ss_header_filled s \<le> 2"
proof -
  have i: "length (ss_header s) = 2" "ss_header_filled s \<le> 2" "ss_header_filled s < 2 \<longrightarrow> source_bytes D s = []"
    using assms by (auto simp: ss_ok_def ss_inv_def source_bytes_def)
  then show "ss_header_filled s = 2 \<longleftrightarrow> 2 \<le> length (frame_bytes D s)" "ss_header_filled s \<le> 2"
    by (auto simp: frame_bytes_def)
  show "ss_header_filled s = 2 \<Longrightarrow> ss_header s = take 2 (frame_bytes D s) \<and> source_bytes D s = drop 2 (frame_bytes D s)"
    using i(1) by (simp add: frame_bytes_def)
qed

lemma header_length: "swap16 (le_value [a, b]) = be16 a b"
proof -
  have "unat b < 256" "unat a < 256" using unat_byte_less [of b] unat_byte_less [of a] by simp_all
  then show ?thesis by (simp add: swap16_def be16_def)
qed

section \<open>The neighbour\<close>

definition nb_ok :: "neighbour \<Rightarrow> bool" where
  "nb_ok nb \<longleftrightarrow> (\<forall>k p. modest_pool p \<longrightarrow> modest_pool (nb_pool nb k p)) \<and>
     (\<forall>bs\<in>set (nb_nested nb). \<forall>b\<in>set bs. sbuf_ok b)"

definition nest :: "neighbour \<Rightarrow> nat \<Rightarrow> byte list" where
  "nest nb k = concat (map payload (nested_at nb k))"

text \<open>The bytes that arrive from the \<open>k\<close>-th delivery on.\<close>

definition future :: "neighbour \<Rightarrow> nat \<Rightarrow> nat" where
  "future nb k = sum_list (map (\<lambda>bs. length (concat (map payload bs))) (drop k (nb_nested nb)))"

lemma future_step: "future nb k = length (nest nb k) + future nb (Suc k)"
proof (cases "k < length (nb_nested nb)")
  case True
  then show ?thesis using Cons_nth_drop_Suc [OF True, symmetric] by (simp add: future_def nest_def nested_at_def)
qed (simp add: future_def nest_def nested_at_def)

lemma nested_at_ok: "nb_ok nb \<Longrightarrow> \<forall>b\<in>set (nested_at nb k). sbuf_ok b"
  by (auto simp: nb_ok_def nested_at_def)

definition closing :: "neighbour \<Rightarrow> tunnel_event list" where
  "closing nb = NextUpStreamFinish # (if nb_alive_after_finish nb then [PrevDownStreamFinish] else [])"

section \<open>The handlers\<close>

context sbuf_deque
begin

lemma peek_ok:
  assumes "reader_ok D r draining"
  shows "spliceframereaderPeekHeader r = Some (if 2 \<le> length (held_bytes D r) then Some (take 2 (held_bytes D r)) else None)"
proof -
  obtain s where s: "fr_stream r = Some s" "ss_ok D s" "ss_header_size s = 2" "held_bytes D r = frame_bytes D s"
    using reader_okE [OF assms] by metis
  show ?thesis using s stream_header [OF s(2,3)]
    by (auto simp: spliceframereaderPeekHeader_def splicestreamPeekHeader_def)
qed

lemma ready_ok:
  assumes "reader_ok D r draining" "2 \<le> length (held_bytes D r)"
  shows "spliceframereaderBodyReady r n = Some (2 + n \<le> length (held_bytes D r))"
proof -
  obtain s where s: "fr_stream r = Some s" "ss_ok D s" "ss_header_size s = 2" "held_bytes D r = frame_bytes D s" "\<not> fr_frame_active r"
    "ss_total s = length (held_bytes D r)"
    using reader_okE [OF assms(1)] by metis
  have "ss_header_filled s = 2" using stream_header(1) [OF s(2,3)] assms(2) s(4) by simp
  moreover have "ss_total s \<le> SIZE_MAX" using s(2) by (simp add: ss_ok_def)
  ultimately show ?thesis
    using s(1,3,5,6) assms(2)
    by (auto simp: spliceframereaderBodyReady_def splicestreamPeekHeader_def splicestreamBodyBytes_def)
qed

lemma take_frame_ok:
  assumes r: "reader_ok D r True" and p: "modest_pool p" and f: "udp_take (held_bytes D r) = Some (f, rest)"
  shows "\<exists>body r' q. spliceframereaderTakeFrame D r (length f) p = Some (body, r', q) \<and> sbuf_ok body \<and>
    payload body = f \<and> tier_padding (bp_large p) \<le> curpos body \<and> reader_ok D r' True \<and> held_bytes D r' = rest \<and> modest_pool q"
proof -
  obtain s where s: "fr_stream r = Some s" "ss_ok D s" "ss_header_size s = 2" "\<not> fr_frame_active r" "fr_draining r"
    "fr_nested_bytes r = kMaxReentryBytes" "fr_retained_charge r = kReadChargeLimit" "held_bytes D r = frame_bytes D s"
    "ss_total s = length (held_bytes D r)" "ss_charge s \<le> 2 * UINT32_MAX" "ss_total s \<le> 2 * UINT32_MAX"
    using reader_okE [OF r] by (metis (full_types))
  note F = udp_take_SomeD [OF f] and L = udp_take_less [OF f]
  have fill: "ss_header_filled s = 2" using stream_header(1) [OF s(2,3)] F(7) s(8) by simp
  have src: "source_bytes D s = drop 2 (held_bytes D r)" using stream_header(2) [OF s(2,3) fill] s(8) by simp
  have n: "length f \<le> length (source_bytes D s)" using src L by simp
  have "length f \<le> kMaxReentryBytes" using F(3) by (simp add: kMaxReentryBytes_def)
  note fits = modest_fits(1) [OF p this]
  have po: "pool_ok p" using p by (simp add: modest_pool_def)
  obtain b u q where b: "splicestreamMoveFrameChunk D s None (length f) True p = Some (b, u, q)" "sbuf_ok b"
    "payload b = take (length f) (source_bytes D s)" "tier_padding (bp_large p) \<le> curpos b" "ss_ok D u" "pool_ok q"
    "pool_geometry q = pool_geometry p" "ss_header_size u = ss_header_size s" "ss_charge u \<le> ss_charge s"
    "frame_bytes D u = drop (ss_header_size s + length f) (frame_bytes D s)"
    using move_chunk_ok [OF s(2) _ n po fits, of True] fill s(3) by auto
  have "spliceframereaderTakeFrame D r (length f) p = Some (b, r\<lparr>fr_stream := Some u\<rparr>, q)"
    using s(1,4,5) b(1)
    by (simp add: spliceframereaderTakeFrame_def splicestreamMoveFrame_def bufferpoolGetSpliceBuffer_def Let_def)
  moreover have fu: "frame_bytes D u = rest" using b(10) s(3,8) F(6) by simp
  moreover have "ss_total u = length rest" using b(5) fu by (simp add: ss_ok_def)
  moreover from this have "reader_ok D (r\<lparr>fr_stream := Some u\<rparr>) True"
    using s b(5,8,9) L by (simp add: reader_ok_def)
  moreover have "payload b = f" using b(3) src F(5) by simp
  ultimately show ?thesis using b(2,4) modest_same [OF p b(6,7)] by simp
qed

lemma admit_empty:
  assumes "reader_ok D r draining" "sbuf_ok b" "sb_len b = 0" "modest_pool p"
  shows "\<exists>q. udpAdmit D nb r b p = Some (False, [], r, q) \<and> modest_pool q"
proof -
  obtain s where s: "fr_stream r = Some s" using reader_okE [OF assms(1)] by metis
  obtain q where q: "bufferpoolReuseBuffer p b = Some q" "pool_ok q" "pool_geometry q = pool_geometry p"
    using reuse_ok [OF _ assms(2)] assms(4) by (auto simp: modest_pool_def)
  then show ?thesis using s assms(3) modest_same [OF assms(4) q(2,3)]
    by (simp add: udpAdmit_def spliceframereaderAdmit_def sbufGetLength_def)
qed

lemma admit_top:
  assumes r: "reader_ok D r False" and b: "sbuf_ok b" "sb_len b \<noteq> 0" and p: "modest_pool p"
  shows "\<exists>r' q. udpAdmit D nb r b p = Some (True, [], r', q) \<and> reader_ok D r' True \<and>
    held_bytes D r' = held_bytes D r @ payload b \<and> modest_pool q"
proof -
  obtain s where s: "fr_stream r = Some s" "ss_ok D s" "ss_header_size s = 2" "\<not> fr_frame_active r" "\<not> fr_draining r"
    "fr_nested_bytes r = kMaxReentryBytes" "fr_retained_charge r = kReadChargeLimit" "held_bytes D r = frame_bytes D s"
    "ss_charge s \<le> kReadChargeLimit" "ss_total s \<le> 65536"
    using reader_okE [OF r] by (metis (full_types))
  have po: "pool_ok p" using p by (simp add: modest_pool_def)
  have len: "sb_len b \<le> UINT32_MAX" using sbuf_okD(2,3) [OF b(1)] by simp
  note st = storage_bound [OF b(1)]
  have room: "ss_total s + sb_len b \<le> SIZE_MAX" "ss_charge s + storage b \<le> SIZE_MAX"
    using s(9,10) len st by (simp_all add: kReadChargeLimit_def)
  obtain t q where t: "splicestreamPush D s b p = Some (True, t, q)" "ss_ok D t" "pool_ok q"
    "pool_geometry q = pool_geometry p" "ss_header_size t = ss_header_size s" "ss_charge t \<le> ss_charge s + storage b"
    "frame_bytes D t = frame_bytes D s @ payload b" using splice_push_ok [OF s(2) b(1) po room] by blast
  have "ss_total t = ss_total s + sb_len b" using t(2,7) s(2) by (simp add: ss_ok_def length_payload [OF b(1)])
  then have "reader_ok D (r\<lparr>fr_stream := Some t, fr_draining := True\<rparr>) True"
    using s t(2,5,6) len st by (simp add: reader_ok_def kReadChargeLimit_def)
  moreover have "udpAdmit D nb r b p = Some (True, [], r\<lparr>fr_stream := Some t, fr_draining := True\<rparr>, q)"
    using s(1,5) b(2) t(1) by (simp add: udpAdmit_def spliceframereaderAdmit_def sbufGetLength_def Let_def)
  ultimately show ?thesis using t(7) s(8) modest_same [OF p t(3,4)] by simp
qed

lemma admit_nested:
  assumes r: "reader_ok D r True" and b: "sbuf_ok b" and p: "modest_pool p"
    and few: "length (held_bytes D r) + sb_len b \<le> kMaxReentryBytes"
  shows "\<exists>r' q. udpAdmit D nb r b p = Some (False, [], r', q) \<and> reader_ok D r' True \<and>
    held_bytes D r' = held_bytes D r @ payload b \<and> modest_pool q"
proof (cases "sb_len b = 0")
  case True
  then have "payload b = []" using length_payload [OF b] by simp
  then show ?thesis using admit_empty [OF r b True p, of nb] r by auto
next
  case False
  obtain s where s: "fr_stream r = Some s" "ss_ok D s" "ss_header_size s = 2" "\<not> fr_frame_active r" "fr_draining r"
    "fr_nested_bytes r = kMaxReentryBytes" "fr_retained_charge r = kReadChargeLimit" "held_bytes D r = frame_bytes D s"
    "ss_total s = length (held_bytes D r)" "ss_charge s \<le> 2 * UINT32_MAX"
    using reader_okE [OF r] by (metis (full_types))
  have po: "pool_ok p" using p by (simp add: modest_pool_def)
  note st = storage_bound [OF b]
  have room: "ss_total s + sb_len b \<le> SIZE_MAX" "ss_charge s + storage b \<le> SIZE_MAX"
    using s(9,10) few st by (simp_all add: kMaxReentryBytes_def)
  obtain t q where t: "splicestreamPush D s b p = Some (True, t, q)" "ss_ok D t" "pool_ok q"
    "pool_geometry q = pool_geometry p" "ss_header_size t = ss_header_size s"
    "frame_bytes D t = frame_bytes D s @ payload b" using splice_push_ok [OF s(2) b po room] by blast
  have q: "modest_pool q" by (rule modest_same [OF p t(3,4)])
  have src: "length (source_bytes D t) \<le> kMaxReentryBytes"
    using arg_cong [OF t(6), of length] few s(8) by (simp add: frame_bytes_def [of D t] length_payload [OF b])
  obtain f u q' where u: "splicestreamSettleCharge D t kReadChargeLimit q = Some (f, u, q')" "ss_ok D u" "pool_ok q'"
    "pool_geometry q' = pool_geometry q" "ss_header_size u = ss_header_size t" "frame_bytes D u = frame_bytes D t"
    "f \<longleftrightarrow> ss_charge u \<le> kReadChargeLimit" "f"
    using settle_charge_ok [OF t(2,3), of kReadChargeLimit] modest_fits [OF q src] by auto
  have lim: "\<not> splicestreamLength s > kMaxReentryBytes" "\<not> sb_len b > sub64 kMaxReentryBytes (splicestreamLength s)"
    using few s(9) by (simp_all add: splicestreamLength_def kMaxReentryBytes_def)
  have run: "udpAdmit D nb r b p = Some (False, [], r\<lparr>fr_stream := Some u\<rparr>, q')"
    using s(1,5-7) False t(1) u(1,8) lim by (simp add: udpAdmit_def spliceframereaderAdmit_def sbufGetLength_def Let_def)
  have "ss_total u = length (held_bytes D r) + sb_len b" using u(2,6) t(6) s(8) by (simp add: ss_ok_def length_payload [OF b])
  then have "reader_ok D (r\<lparr>fr_stream := Some u\<rparr>) True"
    using s u t(5) few by (simp add: reader_ok_def kReadChargeLimit_def kMaxReentryBytes_def)
  then show ?thesis using run u(6) t(6) s(8) modest_same [OF q u(3,4)] by simp
qed

lemma attached: "reader_ok D r draining \<Longrightarrow> spliceframereaderIsAttached r"
  by (auto simp: reader_ok_def spliceframereaderIsAttached_def)

lemma nested_ok:
  assumes "reader_ok D r True" "\<forall>b\<in>set bs. sbuf_ok b" "modest_pool p"
    "bs = [] \<or> length (held_bytes D r) + length (concat (map payload bs)) \<le> kMaxReentryBytes"
  shows "\<exists>r' q. nestedPayloads D nb bs r p = Some ([], r', q) \<and> reader_ok D r' True \<and>
    held_bytes D r' = held_bytes D r @ concat (map payload bs) \<and> modest_pool q"
  using assms
proof (induction bs arbitrary: r p)
  case (Cons b bs)
  have b: "sbuf_ok b" using Cons.prems(2) by simp
  have few: "length (held_bytes D r) + sb_len b \<le> kMaxReentryBytes" using Cons.prems(4) length_payload [OF b] by simp
  obtain r1 q where a: "udpAdmit D nb r b p = Some (False, [], r1, q)" "reader_ok D r1 True"
    "held_bytes D r1 = held_bytes D r @ payload b" "modest_pool q" using admit_nested [OF Cons.prems(1) b Cons.prems(3) few] by blast
  have "bs = [] \<or> length (held_bytes D r1) + length (concat (map payload bs)) \<le> kMaxReentryBytes"
    using Cons.prems(4) a(3) by simp
  from Cons.IH [OF a(2) _ a(4) this] Cons.prems(2) show ?case using a(1,3) attached [OF Cons.prems(1)] by auto
qed simp

lemma neighbour_ok:
  assumes r: "reader_ok D r True" and p: "modest_pool p" and nb: "nb_ok nb" "\<not> nb_finishes nb k"
    and few: "nested_at nb k = [] \<or> length (held_bytes D r) + length (nest nb k) \<le> kMaxReentryBytes"
  shows "\<exists>r' q. callNeighbour D dir nb k r body p = Some ([dir_deliver dir body], r', q) \<and> reader_ok D r' True \<and>
    held_bytes D r' = held_bytes D r @ nest nb k \<and> modest_pool q"
proof -
  have "modest_pool (nb_pool nb k p)" using nb(1) p by (simp add: nb_ok_def)
  from nested_ok [OF r nested_at_ok [OF nb(1)] this few [unfolded nest_def], of nb] nb(2) show ?thesis
    by (auto simp: callNeighbour_def nest_def)
qed

lemma close_ok:
  assumes r: "reader_ok D r draining" and p: "modest_pool p"
  shows "\<exists>q. udpovertcpCloseLine D nb r p = Some (closing nb, zero_reader, q) \<and> modest_pool q"
proof -
  obtain s where s: "fr_stream r = Some s" "ss_ok D s" using reader_okE [OF r] by metis
  have "ss_inv D s" "pool_ok p" using s(2) p by (simp_all add: ss_ok_def modest_pool_def)
  from destroy_stream_ok [OF this] obtain q where
    "splicestreamDestroy D (Some s) p = Some q" "pool_ok q" "pool_geometry q = pool_geometry p" by blast
  then show ?thesis using s(1) modest_same [OF p]
    by (simp add: udpovertcpCloseLine_def udpovertcpLinestateDestroy_def spliceframereaderDestroy_def closing_def)
qed

lemma end_drain_ok:
  assumes r: "reader_ok D r True" and p: "modest_pool p" and small: "length (held_bytes D r) \<le> 65536"
  shows "\<exists>r' q. endDrain D nb r p = Some ([], r', q) \<and> reader_ok D r' False \<and> held_bytes D r' = held_bytes D r \<and> modest_pool q"
proof -
  obtain s where s: "fr_stream r = Some s" "ss_ok D s" "ss_header_size s = 2" "\<not> fr_frame_active r" "fr_draining r"
    "fr_nested_bytes r = kMaxReentryBytes" "fr_retained_charge r = kReadChargeLimit" "held_bytes D r = frame_bytes D s"
    "ss_total s = length (held_bytes D r)"
    using reader_okE [OF r] by (metis (full_types))
  have po: "pool_ok p" using p by (simp add: modest_pool_def)
  have "length (source_bytes D s) \<le> kMaxReentryBytes"
    using small s(8) by (simp add: frame_bytes_def kMaxReentryBytes_def)
  note fits = modest_fits [OF p this]
  obtain f u q where u: "splicestreamSettleCharge D s kReadChargeLimit p = Some (f, u, q)" "ss_ok D u" "pool_ok q"
    "pool_geometry q = pool_geometry p" "ss_header_size u = ss_header_size s" "frame_bytes D u = frame_bytes D s"
    "f \<longleftrightarrow> ss_charge u \<le> kReadChargeLimit" "f"
    using settle_charge_ok [OF s(2) po, of kReadChargeLimit] fits by auto
  have "endDrain D nb r p = Some ([], r\<lparr>fr_stream := Some u, fr_draining := False\<rparr>, q)"
    using s(1,5,7,9) u(1,8) small
    by (simp add: endDrain_def spliceframereaderLength_def splicestreamLength_def spliceframereaderEndDrain_def kHeaderSize_def)
  moreover have "ss_total u \<le> 65536" using u(2,6) small s(8) by (simp add: ss_ok_def)
  ultimately show ?thesis using s u modest_same [OF p u(3,4)] by (simp add: reader_ok_def)
qed

lemma drain_ok:
  assumes "reader_ok D r True" "modest_pool p" "nb_ok nb" "\<forall>k. \<not> nb_finishes nb k"
    "nb_nested nb = [] \<or> length (held_bytes D r) + future nb k \<le> kMaxReentryBytes"
  shows "\<exists>bodies k' h' r' q. drainLoop D dir nb k evs r p =
      Some (k', evs @ map (dir_deliver dir) bodies @ (if udp_bad h' then closing nb else []), r', q) \<and>
    drains (nest nb) k (held_bytes D r) (map payload bodies) k' h' \<and> modest_pool q \<and> (\<forall>b\<in>set bodies. sbuf_ok b) \<and>
    (if udp_bad h' then r' = zero_reader else reader_ok D r' False \<and> held_bytes D r' = h')"
  using assms
proof (induction "length (held_bytes D r) + future nb k" arbitrary: r p k evs rule: less_induct)
  case less
  let ?h = "held_bytes D r"
  have hdr: "swap16 (le_value (take 2 ?h)) = be16 (?h ! 0) (?h ! 1) \<and> mem_read (take 2 ?h) 0 kHeaderSize = Some (take 2 ?h)"
    if two: "2 \<le> length ?h"
  proof -
    obtain a b t where "?h = a # b # t" using two by (cases ?h; cases "tl ?h") auto
    then show ?thesis using header_length [of a b] by (simp add: mem_read_def kHeaderSize_def numeral_2_eq_2)
  qed
  show ?case
  proof (cases "udp_take ?h")
    case None
    then have d: "drains (nest nb) k ?h [] k ?h" by (rule drains.stop)
    show ?thesis
    proof (cases "udp_bad ?h")
      case True
      obtain q where q: "udpovertcpCloseLine D nb r p = Some (closing nb, zero_reader, q)" "modest_pool q"
        using close_ok [OF less.prems(1,2)] by blast
      have "drainTurn D dir nb k r p = Some (Return, k, closing nb, zero_reader, q)"
        using True peek_ok [OF less.prems(1)] hdr q(1) by (simp add: drainTurn_def udp_bad_def)
      then have "drainLoop D dir nb k evs r p = Some (k, evs @ map (dir_deliver dir) [] @ closing nb, zero_reader, q)"
        by (subst drainLoop.simps) simp
      then show ?thesis using True d q(2) by (intro exI [of _ "[]"]) auto
    next
      case False
      have "drainTurn D dir nb k r p = Some (Break, k, [], r, p)"
      proof (cases "2 \<le> length ?h")
        case True
        then have "\<not> 2 + be16 (?h ! 0) (?h ! 1) \<le> length ?h" "be16 (?h ! 0) (?h ! 1) \<noteq> 0"
          using None False by (auto simp: udp_take_def udp_bad_def Let_def split: if_splits)
        then show ?thesis using True hdr [OF True] peek_ok [OF less.prems(1)] ready_ok [OF less.prems(1) True]
          by (simp add: drainTurn_def)
      qed (use peek_ok [OF less.prems(1)] in \<open>simp add: drainTurn_def\<close>)
      moreover obtain r' q where e: "endDrain D nb r p = Some ([], r', q)" "reader_ok D r' False"
        "held_bytes D r' = ?h" "modest_pool q"
        using end_drain_ok [OF less.prems(1,2) left_over_small [OF None False]] by blast
      ultimately have "drainLoop D dir nb k evs r p = Some (k, evs @ map (dir_deliver dir) [] @ [], r', q)"
        by (subst drainLoop.simps) simp
      then show ?thesis using False d e by (intro exI [of _ "[]"]) auto
    qed
  next
    case (Some x)
    then obtain f rest where f: "udp_take ?h = Some (f, rest)" by (cases x) simp
    note F = udp_take_SomeD [OF f] and L = udp_take_less [OF f]
    obtain b r1 q1 where b: "spliceframereaderTakeFrame D r (length f) p = Some (b, r1, q1)" "sbuf_ok b" "payload b = f"
      "reader_ok D r1 True" "held_bytes D r1 = rest" "modest_pool q1"
      using take_frame_ok [OF less.prems(1,2) f] by blast
    have few: "nested_at nb k = [] \<or> length (held_bytes D r1) + length (nest nb k) \<le> kMaxReentryBytes"
      using less.prems(5) L b(5) future_step [of nb k] by (auto simp: nested_at_def)
    have nf: "\<not> nb_finishes nb k" using less.prems(4) by simp
    obtain r2 q2 where n: "callNeighbour D dir nb k r1 b q1 = Some ([dir_deliver dir b], r2, q2)" "reader_ok D r2 True"
      "held_bytes D r2 = rest @ nest nb k" "modest_pool q2"
      using neighbour_ok [OF b(4,6) less.prems(3) nf few, of dir b] b(5) by auto
    have "0 < length f" using F(2) by simp
    moreover have "be16 (?h ! 0) (?h ! 1) = length f" "2 + length f \<le> length ?h" using F(4) L by simp_all
    ultimately have turn: "drainTurn D dir nb k r p = Some (Again, k + 1, [dir_deliver dir b], r2, q2)"
      using hdr [OF F(7)] F(7) peek_ok [OF less.prems(1)] ready_ok [OF less.prems(1) F(7)] b(1) n(1) attached [OF n(2)]
      by (simp add: drainTurn_def)
    have step: "length (held_bytes D r2) + future nb (k + 1) < length ?h + future nb k"
      using n(3) L future_step [of nb k] by simp
    have lim: "nb_nested nb = [] \<or> length (held_bytes D r2) + future nb (k + 1) \<le> kMaxReentryBytes"
      using less.prems(5) step by auto
    obtain bodies k' h' r' q where IH: "drainLoop D dir nb (k + 1) (evs @ [dir_deliver dir b]) r2 q2 =
        Some (k', (evs @ [dir_deliver dir b]) @ map (dir_deliver dir) bodies @ (if udp_bad h' then closing nb else []), r', q)"
      "drains (nest nb) (k + 1) (held_bytes D r2) (map payload bodies) k' h'" "modest_pool q" "\<forall>b\<in>set bodies. sbuf_ok b"
      "if udp_bad h' then r' = zero_reader else reader_ok D r' False \<and> held_bytes D r' = h'"
      using less.hyps [OF step n(2,4) less.prems(3,4) lim] by blast
    have "drains (nest nb) k ?h (map payload (b # bodies)) k' h'"
      using drains.deliver [OF f] IH(2) n(3) b(3) by simp
    moreover have "drainLoop D dir nb k evs r p =
        Some (k', evs @ map (dir_deliver dir) (b # bodies) @ (if udp_bad h' then closing nb else []), r', q)"
      using turn IH(1) by (subst drainLoop.simps) simp
    ultimately show ?thesis using IH(3-5) b(2) by (intro exI [of _ "b # bodies"]) auto
  qed
qed

lemma decode_ok:
  assumes r: "reader_ok D r False" and b: "sbuf_ok b" and p: "modest_pool p" and nb: "nb_ok nb" "\<forall>k. \<not> nb_finishes nb k"
    and few: "nb_nested nb = [] \<or> length (held_bytes D r) + sb_len b + future nb k \<le> kMaxReentryBytes"
    and rest: "udp_take (held_bytes D r) = None" "\<not> udp_bad (held_bytes D r)"
  shows "\<exists>bodies k' h' r' q. udpDecode D dir nb k r b p =
      Some (k', map (dir_deliver dir) bodies @ (if udp_bad h' then closing nb else []), r', q) \<and>
    drains (nest nb) k (held_bytes D r @ payload b) (map payload bodies) k' h' \<and> modest_pool q \<and> (\<forall>b\<in>set bodies. sbuf_ok b) \<and>
    (if udp_bad h' then r' = zero_reader else reader_ok D r' False \<and> held_bytes D r' = h')"
proof (cases "sb_len b = 0")
  case True
  then have e: "payload b = []" using length_payload [OF b] by simp
  obtain q where q: "udpAdmit D nb r b p = Some (False, [], r, q)" "modest_pool q"
    using admit_empty [OF r b True p] by blast
  have "udpDecode D dir nb k r b p = Some (k, map (dir_deliver dir) [] @ [], r, q)" using q(1) by (simp add: udpDecode_def)
  moreover have "drains (nest nb) k (held_bytes D r @ payload b) (map payload []) k (held_bytes D r)"
    using drains.stop [OF rest(1)] e by simp
  ultimately show ?thesis using q(2) r rest(2) by (intro exI [of _ "[]"]) auto
next
  case False
  obtain r1 q where a: "udpAdmit D nb r b p = Some (True, [], r1, q)" "reader_ok D r1 True"
    "held_bytes D r1 = held_bytes D r @ payload b" "modest_pool q" using admit_top [OF r b False p] by blast
  have "nb_nested nb = [] \<or> length (held_bytes D r1) + future nb k \<le> kMaxReentryBytes"
    using few a(3) length_payload [OF b] by auto
  from drain_ok [OF a(2,4) nb this, of dir "[]"] show ?thesis using a(1,3) by (simp add: udpDecode_def)
qed

end

section \<open>Round trip\<close>

definition datagram :: "byte list \<Rightarrow> bool" where
  "datagram d \<longleftrightarrow> d \<noteq> [] \<and> length d \<le> UINT16_MAX"

lemma drains_datagrams: "drains g k h fs k' h' \<Longrightarrow> \<forall>f\<in>set fs. datagram f"
proof (induction rule: drains.induct)
  case (deliver h f rest k fs k' h')
  then show ?case using udp_take_SomeD(2,3) [OF deliver(1)] by (simp add: datagram_def)
qed simp

text \<open>A byte sequence has one reading as frames.\<close>

lemma frames_unique:
  assumes "concat (map udp_frame fs) @ t = concat (map udp_frame ds)" "\<forall>f\<in>set fs. datagram f" "\<forall>d\<in>set ds. datagram d"
  shows "\<exists>es. ds = fs @ es \<and> t = concat (map udp_frame es)"
  using assms
proof (induction fs arbitrary: ds)
  case (Cons f fs)
  obtain d ds' where ds: "ds = d # ds'"
    using Cons.prems(1) by (cases ds) (simp_all add: udp_frame_def be_bytes16_def)
  have "datagram f" "datagram d" using Cons.prems(2,3) ds by simp_all
  then have "udp_take (udp_frame f @ concat (map udp_frame fs) @ t) = Some (f, concat (map udp_frame fs) @ t)"
    "udp_take (udp_frame d @ concat (map udp_frame ds')) = Some (d, concat (map udp_frame ds'))"
    by (simp_all add: datagram_def udp_take_frame)
  moreover have "udp_frame f @ concat (map udp_frame fs) @ t = udp_frame d @ concat (map udp_frame ds')"
    using Cons.prems(1) ds by simp
  ultimately have "f = d" "concat (map udp_frame fs) @ t = concat (map udp_frame ds')"
    by (metis option.inject prod.inject)+
  with Cons.IH [of ds'] Cons.prems(2,3) ds obtain es where "ds' = fs @ es" "t = concat (map udp_frame es)" by auto
  then show ?case using ds \<open>f = d\<close> by simp
qed simp

lemma prefix_not_bad:
  assumes "h @ t = concat (map udp_frame ds)" "\<forall>d\<in>set ds. datagram d"
  shows "\<not> udp_bad h"
proof
  assume bad: "udp_bad h"
  then have two: "2 \<le> length h" by (simp add: udp_bad_def)
  then obtain d ds' where ds: "ds = d # ds'" using assms(1) by (cases ds) auto
  have "take 2 (h @ t) = be_bytes16 (length d)" using assms(1) ds by (simp add: udp_frame_def be_bytes16_def)
  then have "take 2 h = be_bytes16 (length d)" using two by simp
  moreover have "h ! 0 = take 2 h ! 0" "h ! 1 = take 2 h ! 1" using two by simp_all
  ultimately have "be16 (h ! 0) (h ! 1) = length d" using be16_be_bytes [of "length d"] assms(2) ds by (simp add: datagram_def)
  then show False using bad assms(2) ds by (auto simp: udp_bad_def datagram_def)
qed

text \<open>What the client sends for a sequence of datagrams, and what the server delivers for a sequence of
  arriving buffers.\<close>

primrec udp_send :: "'q splice_frame_reader \<Rightarrow> sbuf list \<Rightarrow> buffer_pool \<Rightarrow> (tunnel_event list \<times> buffer_pool) option" where
  "udp_send r [] p = Some ([], p)"
| "udp_send r (b # bs) p = do {
     (evs, p) \<leftarrow> udpovertcpclientTunnelUpStreamPayload r b p;
     (evs', p) \<leftarrow> udp_send r bs p;
     Some (evs @ evs', p)
   }"

primrec udp_receive ::
  "('q, sbuf) deque_ops \<Rightarrow> neighbour \<Rightarrow> nat \<Rightarrow> 'q splice_frame_reader \<Rightarrow> sbuf list \<Rightarrow> buffer_pool \<Rightarrow>
   (nat \<times> tunnel_event list \<times> 'q splice_frame_reader \<times> buffer_pool) option" where
  "udp_receive D nb k r [] p = Some (k, [], r, p)"
| "udp_receive D nb k r (b # bs) p =
     (if \<not> spliceframereaderIsAttached r then Some (k, [], r, p)
      else do {
        (k, evs, r, p) \<leftarrow> udpovertcpserverTunnelUpStreamPayload D nb k r b p;
        (k, evs', r, p) \<leftarrow> udp_receive D nb k r bs p;
        Some (k, evs @ evs', r, p)
      })"

fun event_bytes :: "tunnel_event \<Rightarrow> byte list" where
  "event_bytes (NextUpStreamPayload b) = payload b"
| "event_bytes (PrevDownStreamPayload b) = payload b"
| "event_bytes _ = []"

lemma le_bytes_swap:
  assumes "n \<le> UINT16_MAX"
  shows "le_bytes 2 (swap16 n) = be_bytes16 n"
proof -
  have "n div 256 < 256" using div_le_mono [OF assms, of 256] by simp
  then have "swap16 n mod 256 = n div 256" "swap16 n div 256 = n mod 256" by (simp_all add: swap16_def)
  then have "(word_of_nat (swap16 n) :: byte) = word_of_nat (n div 256)"
    "(word_of_nat (swap16 n div 256) :: byte) = word_of_nat n"
    by (simp_all only: word_unat_eq_iff unat_word8_of_nat mod_mod_trivial) (simp add: \<open>n div 256 < 256\<close>)
  then show ?thesis by (simp only: numeral_2_eq_2 le_bytes.simps be_bytes16_def)
qed

lemma udp_frame_ok:
  assumes b: "sbuf_ok b" "0 < sb_len b" "sb_len b \<le> kMaxAllowedUDPPacketLength" "2 \<le> curpos b"
    and r: "spliceframereaderIsAttached r"
  shows "\<exists>d. udpFrame r b p = Some (Some d, p) \<and> payload d = udp_frame (payload b)"
proof -
  let ?xs = "be_bytes16 (sb_len b)"
  have len: "length ?xs = 2" by (simp add: be_bytes16_def)
  have small: "sb_len b \<le> UINT16_MAX" using b(3) by (simp add: kMaxAllowedUDPPacketLength_def kHeaderSize_def)
  obtain c d where c: "sbufShiftLeft b 2 = Some c" "sbufWrite c ?xs = Some d" "payload d = ?xs @ payload b"
    using sbuf_prepend [OF b(1), of ?xs] b(4) len by auto
  have "le_bytes 2 (swap16 (sb_len b)) = ?xs" by (rule le_bytes_swap [OF small])
  then have "sbufWriteUI16 c (swap16 (u16 (sb_len b))) = Some d"
    using c(2) small by (simp add: sbufWriteUI16_def sbufWrite_def)
  then show ?thesis
    using c(1,3) b r by (simp add: udpFrame_def sbufGetLength_def sbufGetLeftCapacity_def kHeaderSize_def udp_frame_def
        length_payload [OF b(1)])
qed

lemma send_ok:
  assumes "\<forall>b\<in>set bs. sbuf_ok b \<and> 0 < sb_len b \<and> 2 \<le> curpos b" "spliceframereaderIsAttached r" "pool_ok p"
  shows "\<exists>evs q. udp_send r bs p = Some (evs, q) \<and> concat (map event_bytes evs) =
    concat (map udp_frame (map payload (filter (\<lambda>b. sb_len b \<le> kMaxAllowedUDPPacketLength) bs)))"
  using assms
proof (induction bs arbitrary: p)
  case (Cons b bs)
  have b: "sbuf_ok b" "0 < sb_len b" "2 \<le> curpos b" using Cons.prems(1) by simp_all
  show ?case
  proof (cases "sb_len b \<le> kMaxAllowedUDPPacketLength")
    case True
    then obtain d where "udpFrame r b p = Some (Some d, p)" "payload d = udp_frame (payload b)"
      using udp_frame_ok [OF b(1,2) True b(3) Cons.prems(2)] by blast
    then show ?thesis using Cons.IH [OF _ Cons.prems(2,3)] Cons.prems(1) True
      by (auto simp: udpovertcpclientTunnelUpStreamPayload_def)
  next
    case False
    obtain q where "bufferpoolReuseBuffer p b = Some q" "pool_ok q" using reuse_ok [OF Cons.prems(3) b(1)] by blast
    then show ?thesis using Cons.IH [OF _ Cons.prems(2), of q] Cons.prems(1,2) False b(2)
      by (auto simp: udpovertcpclientTunnelUpStreamPayload_def udpFrame_def sbufGetLength_def)
  qed
qed simp

context sbuf_deque
begin

lemma receive_ok:
  assumes "reader_ok D r False" "modest_pool p" "\<forall>b\<in>set cs. sbuf_ok b" "nb_ok nb" "\<forall>k. \<not> nb_finishes nb k" "nb_nested nb = []"
    "udp_take (held_bytes D r) = None" "held_bytes D r @ concat (map payload cs) = concat (map udp_frame ds)"
    "\<forall>d\<in>set ds. datagram d"
  shows "\<exists>k' bodies r' q. udp_receive D nb k r cs p = Some (k', map NextUpStreamPayload bodies, r', q) \<and>
    map payload bodies = ds \<and> reader_ok D r' False \<and> held_bytes D r' = []"
  using assms
proof (induction cs arbitrary: r p k ds)
  case Nil
  have "ds = []"
  proof (cases ds)
    case (Cons d ds')
    then have "udp_take (held_bytes D r) = Some (d, concat (map udp_frame ds'))"
      using udp_take_frame Nil.prems(8,9) by (simp add: datagram_def)
    then show ?thesis using Nil.prems(7) by simp
  qed simp
  then show ?case using Nil.prems by (intro exI [of _ k] exI [of _ "[]"]) auto
next
  case (Cons c cs)
  let ?h = "held_bytes D r"
  have c: "sbuf_ok c" using Cons.prems(3) by simp
  have no_nest: "concat (map (nest nb) xs) = []" for xs
    using Cons.prems(6) by (induction xs) (simp_all add: nest_def nested_at_def)
  have nbad: "\<not> udp_bad ?h" using prefix_not_bad [OF Cons.prems(8,9)] .
  obtain bodies k1 h1 r1 q1 where d: "udpDecode D \<lparr>dir_deliver = NextUpStreamPayload, dir_finish_up = False\<rparr> nb k r c p =
      Some (k1, map NextUpStreamPayload bodies @ (if udp_bad h1 then closing nb else []), r1, q1)"
    "drains (nest nb) k (?h @ payload c) (map payload bodies) k1 h1" "modest_pool q1"
    "if udp_bad h1 then r1 = zero_reader else reader_ok D r1 False \<and> held_bytes D r1 = h1"
    using decode_ok [OF Cons.prems(1) c Cons.prems(2,4,5) _ Cons.prems(7) nbad,
        of k "\<lparr>dir_deliver = NextUpStreamPayload, dir_finish_up = False\<rparr>"] Cons.prems(6) by auto
  have bytes: "?h @ payload c = concat (map udp_frame (map payload bodies)) @ h1" "udp_take h1 = None"
    using drains_bytes [OF d(2)] no_nest by (simp_all only: append_Nil2)
  have all: "concat (map udp_frame (map payload bodies)) @ h1 @ concat (map payload cs) = concat (map udp_frame ds)"
    using Cons.prems(8) by (simp only: list.map concat.simps append_assoc [symmetric] bytes(1))
  obtain es where es: "ds = map payload bodies @ es" "h1 @ concat (map payload cs) = concat (map udp_frame es)"
    using frames_unique [OF all drains_datagrams [OF d(2)] Cons.prems(9)] by blast
  have good: "\<not> udp_bad h1" using prefix_not_bad [OF es(2)] Cons.prems(9) es(1) by simp
  then have r1: "reader_ok D r1 False" "held_bytes D r1 = h1" using d(4) by simp_all
  obtain k2 bodies2 r2 q2 where i: "udp_receive D nb k1 r1 cs q1 = Some (k2, map NextUpStreamPayload bodies2, r2, q2)"
    "map payload bodies2 = es" "reader_ok D r2 False" "held_bytes D r2 = []"
    using Cons.IH [OF r1(1) d(3) _ Cons.prems(4-6), of es k1] r1(2) bytes(2) es Cons.prems(3,9) by auto
  have "udp_receive D nb k r (c # cs) p = Some (k2, map NextUpStreamPayload (bodies @ bodies2), r2, q2)"
    using d(1) i(1) good attached [OF Cons.prems(1)] by (simp add: udpovertcpserverTunnelUpStreamPayload_def)
  then show ?case using es(1) i by (intro exI [of _ k2] exI [of _ "bodies @ bodies2"]) auto
qed

lemma init_reader_ok:
  assumes "udpovertcpserverTunnelUpStreamInit D n supports = Some (evs, r)"
  shows "reader_ok D r False" "held_bytes D r = []"
  using assms not_less [THEN iffD2, OF u64_le [of "Suc (Suc n)"]]
  by (auto simp: udpovertcpserverTunnelUpStreamInit_def udpovertcpLinestateInitialize_def spliceframereaderInit_def
      splicestreamCreate_def zero_reader_def reader_ok_def held_bytes_def frame_bytes_def source_bytes_def sources_def
      ss_ok_def ss_inv_def kHeaderSize_def bufferqueueInitEmpty_def queue_ok_def bind_eq_Some_conv split: if_splits)

end

section \<open>Properties\<close>

text \<open>C1. Datagrams survive the byte stream. The client accepts every datagram and sends the ones of at
  most 65,505 bytes; the server, given the sent bytes cut into buffers in any way, delivers exactly
  those datagrams, each as one buffer, in order, and holds nothing back.\<close>

theorem udp_over_tcp_roundtrip:
  assumes "sbuf_deque D" "\<forall>b\<in>set bs. sbuf_ok b \<and> 0 < sb_len b \<and> 2 \<le> curpos b" "spliceframereaderIsAttached rc"
    "pool_ok p" "udpovertcpserverTunnelUpStreamInit D n supports = Some (evs, rs)" "modest_pool q" "nb_ok nb"
    "\<forall>k. \<not> nb_finishes nb k" "nb_nested nb = []"
  shows "\<exists>sent p'. udp_send rc bs p = Some (sent, p') \<and>
    (\<forall>cs. (\<forall>c\<in>set cs. sbuf_ok c) \<and> concat (map payload cs) = concat (map event_bytes sent) \<longrightarrow>
      (\<exists>k bodies r' q'. udp_receive D nb 0 rs cs q = Some (k, map NextUpStreamPayload bodies, r', q') \<and>
        map payload bodies = map payload (filter (\<lambda>b. sb_len b \<le> kMaxAllowedUDPPacketLength) bs) \<and>
        held_bytes D r' = []))"
proof -
  let ?ds = "map payload (filter (\<lambda>b. sb_len b \<le> kMaxAllowedUDPPacketLength) bs)"
  note r = sbuf_deque.init_reader_ok [OF assms(1,5)]
  obtain sent p' where sent: "udp_send rc bs p = Some (sent, p')"
    "concat (map event_bytes sent) = concat (map udp_frame ?ds)" using send_ok [OF assms(2-4)] by blast
  have ds: "\<forall>d\<in>set ?ds. datagram d"
  proof
    fix d assume "d \<in> set ?ds"
    then obtain b where b: "b \<in> set bs" "sb_len b \<le> kMaxAllowedUDPPacketLength" "d = payload b" by auto
    then have "length d = sb_len b" "0 < sb_len b" using assms(2) length_payload by auto
    then show "datagram d" using b(2) by (auto simp: datagram_def kMaxAllowedUDPPacketLength_def)
  qed
  have "\<exists>k bodies r' q'. udp_receive D nb 0 rs cs q = Some (k, map NextUpStreamPayload bodies, r', q') \<and>
      map payload bodies = ?ds \<and> held_bytes D r' = []"
    if "(\<forall>c\<in>set cs. sbuf_ok c) \<and> concat (map payload cs) = concat (map event_bytes sent)" for cs
    using sbuf_deque.receive_ok [OF assms(1) r(1) assms(6) _ assms(7-9) _ _ ds, of cs 0] that sent(2) r(2)
    by (simp add: udp_take_def) blast
  then show ?thesis using sent(1) by blast
qed

definition quiet_neighbour :: neighbour where
  "quiet_neighbour = \<lparr>nb_pool = \<lambda>_ p. p, nb_nested = [], nb_finishes = \<lambda>_. False, nb_alive_after_finish = True\<rparr>"

definition reader_sample :: "sbuf list splice_frame_reader" where
  "reader_sample = zero_reader\<lparr>fr_stream := splicestreamCreate list_deque 200 2, fr_nested_bytes := kMaxReentryBytes,
     fr_retained_charge := kReadChargeLimit\<rparr>"

lemma reader_sample_init:
  "udpovertcpserverTunnelUpStreamInit list_deque 200 False = Some ([DestinationIsUdp, NextUpStreamInit], reader_sample)"
  by (simp add: udpovertcpserverTunnelUpStreamInit_def udpovertcpLinestateInitialize_def spliceframereaderInit_def
      kHeaderSize_def reader_sample_def zero_reader_def)

lemma reader_sample_attached: "spliceframereaderIsAttached reader_sample"
  by (simp add: spliceframereaderIsAttached_def reader_sample_def splicestreamCreate_def)

lemma sample_pool_modest: "modest_pool sample_pool"
  using sample_pool_ok by (simp add: modest_pool_def) (simp add: sample_pool_def Let_def new_tier_def kReadChargeLimit_def)

theorem udp_over_tcp_roundtrip_witness:
  "\<exists>k body r q. udp_receive list_deque quiet_neighbour 0 reader_sample
      [sbuf_append sbuf_sample [0], sbuf_append sbuf_sample [2, 104, 105]] sample_pool =
      Some (k, [NextUpStreamPayload body], r, q) \<and> payload body = [104, 105] \<and> held_bytes list_deque r = []"
proof -
  let ?b = "sbuf_append sbuf_sample [104, 105]"
  have b: "sbuf_ok ?b" "payload ?b = [104, 105]" "sb_len ?b = 2" "curpos ?b = 32"
    using sample_append_ok [of "[104, 105]"] by (simp_all add: sbuf_append_def sbuf_sample_def)
  have nb: "nb_ok quiet_neighbour" "\<forall>k. \<not> nb_finishes quiet_neighbour k" "nb_nested quiet_neighbour = []"
    by (simp_all add: nb_ok_def quiet_neighbour_def)
  have bs: "\<forall>b\<in>set [?b]. sbuf_ok b \<and> 0 < sb_len b \<and> 2 \<le> curpos b" using b by simp
  obtain sent p' where sent: "udp_send reader_sample [?b] sample_pool = Some (sent, p')"
    and all: "\<And>cs. (\<forall>c\<in>set cs. sbuf_ok c) \<and> concat (map payload cs) = concat (map event_bytes sent) \<Longrightarrow>
      \<exists>k bodies r' q'. udp_receive list_deque quiet_neighbour 0 reader_sample cs sample_pool =
          Some (k, map NextUpStreamPayload bodies, r', q') \<and>
        map payload bodies = map payload (filter (\<lambda>b. sb_len b \<le> kMaxAllowedUDPPacketLength) [?b]) \<and>
        held_bytes list_deque r' = []"
    using udp_over_tcp_roundtrip [OF list_stream.sbuf_deque_axioms bs reader_sample_attached sample_pool_ok
        reader_sample_init sample_pool_modest nb] by blast
  have "concat (map event_bytes sent) = [0, 2, 104, 105]"
    using send_ok [OF bs reader_sample_attached sample_pool_ok] sent b
    by (simp add: kMaxAllowedUDPPacketLength_def kHeaderSize_def udp_frame_def be_bytes16_def)
  then show ?thesis
    using all [of "[sbuf_append sbuf_sample [0], sbuf_append sbuf_sample [2, 104, 105]]"] b(2,3) sample_append_ok
    by (auto simp: kMaxAllowedUDPPacketLength_def kHeaderSize_def Cons_eq_map_conv simp del: udp_receive.simps)
qed

text \<open>C11. The decoder is correct under re-entry and on empty frames. While a delivered datagram is being handled the
  next tunnel may push more bytes into the same handler, but does not finish the line; the bytes held before, received and
  pushed together stay within the 2 MiB the reader admits during re-entry (beyond them the code closes the line), and the pool's
  buffers are within the limit of retained storage. The one call then delivers every complete frame of all these bytes, in
  order. What remains holds no complete frame; it is kept for the next call, unless it announces an empty frame, which
  closes the line in both directions and frees the reader.\<close>

theorem udp_decode_reentrant:
  assumes "sbuf_deque D" "reader_ok D r False" "sbuf_ok b" "modest_pool p" "nb_ok nb" "\<forall>k. \<not> nb_finishes nb k"
    "length (held_bytes D r) + sb_len b + future nb k \<le> kMaxReentryBytes"
    "udp_take (held_bytes D r) = None" "\<not> udp_bad (held_bytes D r)"
  shows "\<exists>bodies k' h' r' q. udpovertcpserverTunnelUpStreamPayload D nb k r b p =
      Some (k', map NextUpStreamPayload bodies @ (if udp_bad h' then closing nb else []), r', q) \<and>
    held_bytes D r @ payload b @ concat (map (nest nb) [k..<k']) = concat (map udp_frame (map payload bodies)) @ h' \<and>
    (\<forall>x\<in>set bodies. datagram (payload x)) \<and> udp_take h' = None \<and> k' = k + length bodies \<and> modest_pool q \<and>
    (if udp_bad h' then r' = zero_reader else reader_ok D r' False \<and> held_bytes D r' = h')"
proof -
  let ?d = "\<lparr>dir_deliver = NextUpStreamPayload, dir_finish_up = False\<rparr>"
  obtain bodies k' h' r' q where
    d: "udpDecode D ?d nb k r b p = Some (k', map (dir_deliver ?d) bodies @ (if udp_bad h' then closing nb else []), r', q)"
    "drains (nest nb) k (held_bytes D r @ payload b) (map payload bodies) k' h'" "modest_pool q"
    "if udp_bad h' then r' = zero_reader else reader_ok D r' False \<and> held_bytes D r' = h'"
    using sbuf_deque.decode_ok [OF assms(1-6) disjI2 [OF assms(7)] assms(8,9), of ?d] by blast
  have e: "map (dir_deliver ?d) bodies = map NextUpStreamPayload bodies" by simp
  have "\<forall>x\<in>set bodies. datagram (payload x)" using drains_datagrams [OF d(2)] by simp
  moreover have "k' = k + length bodies"
    "held_bytes D r @ payload b @ concat (map (nest nb) [k..<k']) = concat (map udp_frame (map payload bodies)) @ h'"
    "udp_take h' = None" using drains_bytes [OF d(2)] by auto
  ultimately show ?thesis
    using d(1,3,4) unfolding udpovertcpserverTunnelUpStreamPayload_def e by blast
qed

definition eager_neighbour :: neighbour where
  "eager_neighbour = \<lparr>nb_pool = \<lambda>_ p. p, nb_nested = [[sbuf_append sbuf_sample [0, 0]]], nb_finishes = \<lambda>_. False,
     nb_alive_after_finish = True\<rparr>"

theorem udp_decode_reentrant_witness:
  "\<exists>body q. udpovertcpserverTunnelUpStreamPayload list_deque eager_neighbour 0 reader_sample
      (sbuf_append sbuf_sample [0, 1, 7]) sample_pool =
      Some (1, [NextUpStreamPayload body, NextUpStreamFinish, PrevDownStreamFinish], zero_reader, q) \<and> payload body = [7]"
proof -
  let ?b = "sbuf_append sbuf_sample [0, 1, 7]"
  note r = sbuf_deque.init_reader_ok [OF list_stream.sbuf_deque_axioms reader_sample_init]
  have b: "sbuf_ok ?b" "payload ?b = [0, 1, 7]" "sb_len ?b = 3" using sample_append_ok [of "[0, 1, 7]"] by simp_all
  have nb: "nb_ok eager_neighbour" "\<forall>k. \<not> nb_finishes eager_neighbour k" "closing eager_neighbour = [NextUpStreamFinish, PrevDownStreamFinish]"
    "nest eager_neighbour k = (if k = 0 then [0, 0] else [])" "future eager_neighbour 0 = 2" for k
    using sample_append_ok [of "[0, 0]"]
    by (simp_all add: nb_ok_def eager_neighbour_def closing_def nest_def nested_at_def future_def)
  obtain bodies k' h' r' q where w: "udpovertcpserverTunnelUpStreamPayload list_deque eager_neighbour 0 reader_sample ?b sample_pool =
      Some (k', map NextUpStreamPayload bodies @ (if udp_bad h' then closing eager_neighbour else []), r', q)"
    "held_bytes list_deque reader_sample @ payload ?b @ concat (map (nest eager_neighbour) [0..<k']) =
      concat (map udp_frame (map payload bodies)) @ h'"
    "\<forall>x\<in>set bodies. datagram (payload x)" "udp_take h' = None" "k' = 0 + length bodies"
    "if udp_bad h' then r' = zero_reader else reader_ok list_deque r' False \<and> held_bytes list_deque r' = h'"
    using udp_decode_reentrant [OF list_stream.sbuf_deque_axioms r(1) b(1) sample_pool_modest nb(1,2), of 0] r(2) b(3) nb(5)
    by (simp add: kMaxReentryBytes_def udp_take_def udp_bad_def) blast
  have frame: "udp_take ([0, 1, 7] @ t) = Some ([7], t)" for t by (simp add: udp_take_def be16_def)
  have all: "[0, 1, 7] @ concat (map (nest eager_neighbour) [0..<k']) = concat (map udp_frame (map payload bodies)) @ h'"
    using w(2) r(2) b(2) by simp
  show ?thesis
  proof (cases bodies)
    case Nil
    then show ?thesis using all w(4,5) frame [of "[]"] by simp
  next
    case (Cons body rest)
    have k: "concat (map (nest eager_neighbour) [0..<k']) = [0, 0]"
      using w(5) Cons nb(4) by (simp add: upt_conv_Cons del: upt_Suc)
    have "udp_take ([0, 1, 7, 0, 0]) = Some (payload body, concat (map udp_frame (map payload rest)) @ h')"
      using all k udp_take_frame w(3) Cons by (simp add: datagram_def)
    then have body: "payload body = [7]" "[0, 0] = concat (map udp_frame (map payload rest)) @ h'"
      using frame [of "[0, 0]"] by simp_all
    have "rest = []"
    proof (cases rest)
      case (Cons x xs)
      then have "udp_take [0, 0] = Some (payload x, concat (map udp_frame (map payload xs)) @ h')"
        using body(2) udp_take_frame w(3) \<open>bodies = body # rest\<close> by (simp add: datagram_def)
      then show ?thesis by (simp add: udp_take_def be16_def)
    qed simp
    then show ?thesis using w(1,5,6) body Cons nb(3) by (auto simp: udp_bad_def be16_def)
  qed
qed

end
