(* ===== verification/Wireguard.thy ===== *)
theory Wireguard
  imports Buffer_Pool
begin

text \<open>
  Sessions of the WireGuard device (\<open>src/tunnels/WireGuardDevice\<close>): the three key slots of a peer and how
  a new session moves through them, the replay window, the selection of a peer by its allowed
  addresses, and the receipt of transport data. The ciphers (\<open>kdf2\<close>, \<open>aead_open\<close>), the comparison of
  addresses under a mask (\<open>netcmp\<close>, from lwIP) and the clock are arguments. Of the structures the
  fields these functions use are modelled.
\<close>

section \<open>State\<close>

definition REKEY_TIMEOUT :: nat where "REKEY_TIMEOUT = 1"
definition REJECT_AFTER_TIME :: nat where "REJECT_AFTER_TIME = 180"
definition REJECT_AFTER_MESSAGES :: nat where "REJECT_AFTER_MESSAGES = 18446744073709551615 - 8192"
definition WIREGUARD_AUTHTAG_LEN :: nat where "WIREGUARD_AUTHTAG_LEN = 16"
definition MESSAGE_HANDSHAKE_RESPONSE :: nat where "MESSAGE_HANDSHAKE_RESPONSE = 2"

datatype ip_addr = IpV4 "32 word" | IpV6 "32 word list"

record wireguard_keypair =
  kp_valid :: bool
  kp_initiator :: bool
  keypair_millis :: nat
  sending_key :: "byte list"
  sending_valid :: bool
  sending_counter :: nat
  receiving_key :: "byte list"
  receiving_valid :: bool
  kp_last_tx :: nat
  kp_last_rx :: nat
  replay_bitmap :: "32 word"
  replay_counter :: nat
  local_index :: nat
  remote_index :: nat

record wireguard_handshake =
  hs_valid :: bool
  hs_initiator :: bool
  hs_local_index :: nat
  hs_remote_index :: nat
  chaining_key :: "byte list"

record wireguard_pending_handshake =
  ph_valid :: bool
  ph_message_type :: nat
  ph_sender :: nat

record wireguard_allowed_ip =
  ai_valid :: bool
  ai_ip :: ip_addr
  ai_mask :: ip_addr

record wireguard_peer =
  peer_valid :: bool
  peer_ip :: ip_addr
  peer_port :: nat
  keepalive_interval :: nat
  allowed_source_ips :: "wireguard_allowed_ip list"
  curr_keypair :: wireguard_keypair
  prev_keypair :: wireguard_keypair
  next_keypair :: wireguard_keypair
  handshake :: wireguard_handshake
  pending_handshake :: wireguard_pending_handshake
  peer_last_rx :: nat
  send_handshake :: bool

text \<open>The states after \<open>wCryptoZero\<close>.\<close>

definition zero_keypair :: wireguard_keypair where
  "zero_keypair = \<lparr>kp_valid = False, kp_initiator = False, keypair_millis = 0, sending_key = replicate 32 0,
     sending_valid = False, sending_counter = 0, receiving_key = replicate 32 0, receiving_valid = False,
     kp_last_tx = 0, kp_last_rx = 0, replay_bitmap = 0, replay_counter = 0, local_index = 0, remote_index = 0\<rparr>"

definition zero_handshake :: wireguard_handshake where
  "zero_handshake = \<lparr>hs_valid = False, hs_initiator = False, hs_local_index = 0, hs_remote_index = 0,
     chaining_key = replicate 32 0\<rparr>"

definition zero_pending :: wireguard_pending_handshake where
  "zero_pending = \<lparr>ph_valid = False, ph_message_type = 0, ph_sender = 0\<rparr>"

text \<open>A pointer to one of the three key slots of a peer.\<close>

datatype keypair_slot = CurrKeypair | NextKeypair | PrevKeypair

fun slot_get :: "wireguard_peer \<Rightarrow> keypair_slot \<Rightarrow> wireguard_keypair" where
  "slot_get p CurrKeypair = curr_keypair p"
| "slot_get p NextKeypair = next_keypair p"
| "slot_get p PrevKeypair = prev_keypair p"

fun slot_put :: "wireguard_peer \<Rightarrow> keypair_slot \<Rightarrow> wireguard_keypair \<Rightarrow> wireguard_peer" where
  "slot_put p CurrKeypair k = p\<lparr>curr_keypair := k\<rparr>"
| "slot_put p NextKeypair k = p\<lparr>next_keypair := k\<rparr>"
| "slot_put p PrevKeypair k = p\<lparr>prev_keypair := k\<rparr>"

section \<open>Sessions\<close>

definition wireguardExpired :: "nat \<Rightarrow> nat \<Rightarrow> nat \<Rightarrow> bool" where
  "wireguardExpired now created_millis valid_seconds \<longleftrightarrow> sub32 now created_millis \<ge> u32 (valid_seconds * 1000)"

definition wireguardCheckReplay :: "wireguard_keypair \<Rightarrow> nat \<Rightarrow> bool \<times> wireguard_keypair" where
  "wireguardCheckReplay keypair seq =
     (let seq = u64 (seq + 1) in
      if seq \<noteq> 0 then
        if seq > replay_counter keypair then
          let diff = u32 (sub64 seq (replay_counter keypair));
              bitmap = (if diff < 32 then push_bit diff (replay_bitmap keypair) OR 1 else 1)
          in (True, keypair\<lparr>replay_bitmap := bitmap, replay_counter := seq\<rparr>)
        else
          let diff = u32 (sub64 (replay_counter keypair) seq) in
          if diff < 32 then
            if replay_bitmap keypair AND push_bit diff 1 \<noteq> 0 then (False, keypair)
            else (True, keypair\<lparr>replay_bitmap := replay_bitmap keypair OR push_bit diff 1\<rparr>)
          else (False, keypair)
      else (False, keypair))"

definition getPeerKeypairForIdx :: "wireguard_peer \<Rightarrow> nat \<Rightarrow> keypair_slot option" where
  "getPeerKeypairForIdx p idx =
     (if kp_valid (curr_keypair p) \<and> local_index (curr_keypair p) = idx then Some CurrKeypair
      else if kp_valid (next_keypair p) \<and> local_index (next_keypair p) = idx then Some NextKeypair
      else if kp_valid (prev_keypair p) \<and> local_index (prev_keypair p) = idx then Some PrevKeypair
      else None)"

definition keypairDestroy :: "wireguard_peer \<Rightarrow> keypair_slot \<Rightarrow> wireguard_peer" where
  "keypairDestroy p slot = slot_put p slot (zero_keypair\<lparr>kp_valid := False\<rparr>)"

definition keypairUpdate :: "wireguard_peer \<Rightarrow> keypair_slot \<Rightarrow> wireguard_peer" where
  "keypairUpdate p received =
     (if received = NextKeypair
      then keypairDestroy (p\<lparr>prev_keypair := curr_keypair p, curr_keypair := next_keypair p\<rparr>) NextKeypair
      else p)"

definition addNewKeypair :: "wireguard_peer \<Rightarrow> wireguard_keypair \<Rightarrow> wireguard_peer" where
  "addNewKeypair p new =
     (if kp_initiator new then
        (if kp_valid (next_keypair p) then keypairDestroy (p\<lparr>prev_keypair := next_keypair p\<rparr>) NextKeypair
         else p\<lparr>prev_keypair := curr_keypair p\<rparr>)\<lparr>curr_keypair := new\<rparr>
      else keypairDestroy (p\<lparr>next_keypair := new\<rparr>) PrevKeypair)"

definition wireguardClearPendingHandshake :: "wireguard_peer \<Rightarrow> wireguard_peer" where
  "wireguardClearPendingHandshake p = p\<lparr>pending_handshake := zero_pending\<rparr>"

definition wireguardClearHandshakeState :: "wireguard_peer \<Rightarrow> wireguard_peer" where
  "wireguardClearHandshakeState p = wireguardClearPendingHandshake (p\<lparr>handshake := zero_handshake\<rparr>)"

definition wireguardStartSession ::
  "(byte list \<Rightarrow> (byte list \<times> byte list) option) \<Rightarrow> nat \<Rightarrow> wireguard_peer \<Rightarrow> bool \<Rightarrow> bool \<times> wireguard_peer" where
  "wireguardStartSession kdf2 now p initiator =
     (let new = zero_keypair\<lparr>kp_initiator := initiator, local_index := hs_local_index (handshake p),
                remote_index := hs_remote_index (handshake p), keypair_millis := now,
                sending_valid := True, receiving_valid := True\<rparr> in
      case kdf2 (chaining_key (handshake p)) of
        None \<Rightarrow> (False, wireguardClearHandshakeState p)
      | Some (a, b) \<Rightarrow>
          let new = (if initiator then new\<lparr>sending_key := a, receiving_key := b\<rparr>
                     else new\<lparr>receiving_key := a, sending_key := b\<rparr>);
              new = new\<lparr>replay_bitmap := 0, replay_counter := 0, kp_last_tx := 0, kp_last_rx := 0, kp_valid := True\<rparr>
          in (True, addNewKeypair (p\<lparr>handshake := zero_handshake\<rparr>) new))"

section \<open>Allowed addresses\<close>

text \<open>Every turn of the loop clears the lowest set bit.\<close>

function wireguarddeviceCountMaskBits32 :: "32 word \<Rightarrow> nat" where
  "wireguarddeviceCountMaskBits32 v =
     (if v \<noteq> 0 then u8 (1 + wireguarddeviceCountMaskBits32 (v AND (v - 1))) else 0)"
  by pat_completeness auto
termination
proof (relation "measure unat")
  fix v :: "32 word"
  assume "v \<noteq> 0"
  have "unat (v AND (v - 1)) \<le> unat (v - 1)" by (simp add: word_and_le1 flip: word_le_nat_alt)
  moreover have "unat (v - 1) < unat v" using \<open>v \<noteq> 0\<close> by (simp add: unat_minus_one unat_gt_0)
  ultimately show "(v AND (v - 1), v) \<in> measure unat" by simp
qed simp

declare wireguarddeviceCountMaskBits32.simps [simp del]

definition wireguarddeviceAllowedIpMatches ::
  "(ip_addr \<Rightarrow> ip_addr \<Rightarrow> ip_addr \<Rightarrow> bool) \<Rightarrow> wireguard_allowed_ip \<Rightarrow> ip_addr \<Rightarrow> bool" where
  "wireguarddeviceAllowedIpMatches netcmp allowed addr =
     (if \<not> ai_valid allowed then False
      else case (addr, ai_ip allowed) of
          (IpV4 _, IpV4 _) \<Rightarrow> netcmp addr (ai_ip allowed) (ai_mask allowed)
        | (IpV6 _, IpV6 _) \<Rightarrow> netcmp addr (ai_ip allowed) (ai_mask allowed)
        | _ \<Rightarrow> False)"

definition wireguarddeviceAllowedIpPrefixBits :: "wireguard_allowed_ip \<Rightarrow> nat" where
  "wireguarddeviceAllowedIpPrefixBits allowed =
     (if \<not> ai_valid allowed then 0
      else case ai_mask allowed of
          IpV4 m \<Rightarrow> wireguarddeviceCountMaskBits32 m
        | IpV6 ms \<Rightarrow> fold (\<lambda>m bits. u8 (bits + wireguarddeviceCountMaskBits32 m)) ms 0)"

definition wireguarddeviceCheckPeerAllowedIp ::
  "(ip_addr \<Rightarrow> ip_addr \<Rightarrow> ip_addr \<Rightarrow> bool) \<Rightarrow> wireguard_peer \<Rightarrow> ip_addr \<Rightarrow> bool" where
  "wireguarddeviceCheckPeerAllowedIp netcmp p addr \<longleftrightarrow>
     list_ex (\<lambda>allowed. wireguarddeviceAllowedIpMatches netcmp allowed addr) (allowed_source_ips p)"

text \<open>The two nested loops of the lookup; the result is the index of a peer with its prefix length.\<close>

fun lookupEntries ::
  "(ip_addr \<Rightarrow> ip_addr \<Rightarrow> ip_addr \<Rightarrow> bool) \<Rightarrow> ip_addr \<Rightarrow> nat \<Rightarrow> wireguard_allowed_ip list \<Rightarrow> nat option \<times> nat \<Rightarrow> nat option \<times> nat" where
  "lookupEntries netcmp addr x [] best = best"
| "lookupEntries netcmp addr x (allowed # rest) (result, best_prefix) =
     (if \<not> wireguarddeviceAllowedIpMatches netcmp allowed addr then lookupEntries netcmp addr x rest (result, best_prefix)
      else let prefix_bits = wireguarddeviceAllowedIpPrefixBits allowed in
        if result = None \<or> prefix_bits > best_prefix
        then lookupEntries netcmp addr x rest (Some x, prefix_bits)
        else lookupEntries netcmp addr x rest (result, best_prefix))"

fun lookupPeers ::
  "(ip_addr \<Rightarrow> ip_addr \<Rightarrow> ip_addr \<Rightarrow> bool) \<Rightarrow> ip_addr \<Rightarrow> nat \<Rightarrow> wireguard_peer list \<Rightarrow> nat option \<times> nat \<Rightarrow> nat option \<times> nat" where
  "lookupPeers netcmp addr x [] best = best"
| "lookupPeers netcmp addr x (p # ps) best =
     lookupPeers netcmp addr (x + 1) ps
       (if \<not> peer_valid p then best else lookupEntries netcmp addr x (allowed_source_ips p) best)"

definition wireguarddevicePeerLookupByAllowedIp ::
  "(ip_addr \<Rightarrow> ip_addr \<Rightarrow> ip_addr \<Rightarrow> bool) \<Rightarrow> wireguard_peer list \<Rightarrow> ip_addr \<Rightarrow> nat option" where
  "wireguarddevicePeerLookupByAllowedIp netcmp peers addr = fst (lookupPeers netcmp addr 0 peers (None, 0))"

section \<open>Transport data\<close>

definition updatePeerAddr :: "wireguard_peer \<Rightarrow> ip_addr \<Rightarrow> nat \<Rightarrow> wireguard_peer" where
  "updatePeerAddr p addr port = p\<lparr>peer_ip := addr, peer_port := port\<rparr>"

definition word_at :: "byte list \<Rightarrow> nat \<Rightarrow> 32 word" where
  "word_at bytes i = word_of_nat (le_value (take 4 (drop i bytes)))"

definition wireguarddeviceGetPlaintextPacketMetadata :: "sbuf \<Rightarrow> (ip_addr \<times> nat) option option" where
  "wireguarddeviceGetPlaintextPacketMetadata buf = do {
     let len = sbufGetLength buf;
     if len < 20 then Some None
     else do {
       data \<leftarrow> sbufRead buf (min len 40);
       let version = unat (drop_bit 4 (data ! 0));
       if version = 4 then do {
         let total_len = be16 (data ! 2) (data ! 3);
         let minimum_header = unat (data ! 0 AND 15) * 4;
         if minimum_header < 20 \<or> total_len < minimum_header \<or> total_len > len then Some None
         else Some (Some (IpV4 (word_at data 12), total_len))
       }
       else if version = 6 then
         if len < 40 then Some None
         else do {
           let total_len = u16 (40 + be16 (data ! 4) (data ! 5));
           if total_len < 40 \<or> total_len > len then Some None
           else Some (Some (IpV6 [word_at data 8, word_at data 12, word_at data 16, word_at data 20], total_len))
         }
       else Some None
     }
   }"

definition wireguarddeviceDecryptTransportPayload ::
  "(byte list \<Rightarrow> nat \<Rightarrow> byte list \<Rightarrow> byte list option) \<Rightarrow> buffer_pool \<Rightarrow> byte list \<Rightarrow> nat \<Rightarrow> wireguard_keypair \<Rightarrow>
   (sbuf option \<times> buffer_pool) option" where
  "wireguarddeviceDecryptTransportPayload aead_open pool ciphertext nonce keypair =
     (if length ciphertext < WIREGUARD_AUTHTAG_LEN then Some (None, pool)
      else do {
        let plaintext_len = length ciphertext - WIREGUARD_AUTHTAG_LEN;
        (buf, pool) \<leftarrow> bufferpoolGetBestFit pool plaintext_len (bufferpoolGetLargeBufferPadding pool);
        ensure (\<not> sbufGetMaximumWriteableSize buf < plaintext_len);
        case aead_open (receiving_key keypair) nonce ciphertext of
          None \<Rightarrow> do { pool \<leftarrow> bufferpoolReuseBuffer pool buf; Some (None, pool) }
        | Some plaintext \<Rightarrow> do {
            buf \<leftarrow> sbufWrite buf plaintext;
            buf \<leftarrow> sbufSetLength buf plaintext_len;
            Some (Some buf, pool)
          }
      })"

text \<open>What happens to a packet that passed the replay check: the receipt is recorded and the keys move,
  then the inner packet is checked and handed out for forwarding.\<close>

definition noteReceipt :: "nat \<Rightarrow> ip_addr \<Rightarrow> nat \<Rightarrow> nat \<Rightarrow> wireguard_peer \<Rightarrow> keypair_slot \<Rightarrow> wireguard_peer" where
  "noteReceipt now addr port idx p slot =
     (let p = updatePeerAddr p addr port;
          p = slot_put p slot (slot_get p slot\<lparr>kp_last_rx := now\<rparr>)\<lparr>peer_last_rx := now\<rparr>;
          p = (if ph_valid (pending_handshake p) \<and> ph_message_type (pending_handshake p) = MESSAGE_HANDSHAKE_RESPONSE \<and>
                  ph_sender (pending_handshake p) = idx
               then wireguardClearPendingHandshake p else p)
      in keypairUpdate p slot)"

definition forwardInner ::
  "(ip_addr \<Rightarrow> ip_addr \<Rightarrow> ip_addr \<Rightarrow> bool) \<Rightarrow> wireguard_peer \<Rightarrow> sbuf \<Rightarrow> buffer_pool \<Rightarrow> (sbuf option \<times> buffer_pool) option" where
  "forwardInner netcmp p buf pool =
     (if sbufGetLength buf > 0 then do {
        metadata \<leftarrow> wireguarddeviceGetPlaintextPacketMetadata buf;
        case metadata of
          Some (source, packet_len) \<Rightarrow>
            if wireguarddeviceCheckPeerAllowedIp netcmp p source then do {
              buf \<leftarrow> sbufSetLength buf packet_len;
              Some (Some buf, pool)
            }
            else do { pool \<leftarrow> bufferpoolReuseBuffer pool buf; Some (None, pool) }
        | None \<Rightarrow> do { pool \<leftarrow> bufferpoolReuseBuffer pool buf; Some (None, pool) }
      }
      else do { pool \<leftarrow> bufferpoolReuseBuffer pool buf; Some (None, pool) })"

definition acceptData ::
  "(ip_addr \<Rightarrow> ip_addr \<Rightarrow> ip_addr \<Rightarrow> bool) \<Rightarrow> nat \<Rightarrow> nat \<Rightarrow> ip_addr \<Rightarrow> nat \<Rightarrow> nat \<Rightarrow> wireguard_peer \<Rightarrow> keypair_slot \<Rightarrow> sbuf \<Rightarrow> buffer_pool \<Rightarrow>
   (sbuf option \<times> wireguard_peer \<times> buffer_pool) option" where
  "acceptData netcmp now now_rekey addr port idx p slot buf pool = do {
     let p = noteReceipt now addr port idx p slot;
     slot \<leftarrow> getPeerKeypairForIdx p idx;
     let keypair = slot_get p slot;
     let p = (if kp_initiator keypair \<and>
                 wireguardExpired now_rekey (keypair_millis keypair) (sub32 (sub32 REJECT_AFTER_TIME (keepalive_interval p)) REKEY_TIMEOUT)
              then p\<lparr>send_handshake := True\<rparr> else p);
     (out, pool) \<leftarrow> forwardInner netcmp p buf pool;
     Some (out, p, pool)
   }"

definition wireguardifProcessDataMessage ::
  "(byte list \<Rightarrow> nat \<Rightarrow> byte list \<Rightarrow> byte list option) \<Rightarrow> (ip_addr \<Rightarrow> ip_addr \<Rightarrow> ip_addr \<Rightarrow> bool) \<Rightarrow> nat \<times> nat \<times> nat \<Rightarrow>
   bool \<Rightarrow> wireguard_peer \<Rightarrow> nat \<Rightarrow> nat \<Rightarrow> byte list \<Rightarrow> ip_addr \<Rightarrow> nat \<Rightarrow> buffer_pool \<Rightarrow>
   (sbuf option \<times> bool \<times> wireguard_peer \<times> buffer_pool) option" where
  "wireguardifProcessDataMessage aead_open netcmp ticks connected p idx nonce ciphertext addr port pool = do {
     slot \<leftarrow> getPeerKeypairForIdx p idx;
     let keypair = slot_get p slot;
     if \<not> receiving_valid keypair \<or> wireguardExpired (fst ticks) (keypair_millis keypair) REJECT_AFTER_TIME
     then Some (None, connected, keypairDestroy p slot, pool)
     else if nonce \<ge> REJECT_AFTER_MESSAGES then Some (None, connected, p, pool)
     else do {
       (buf, pool) \<leftarrow> wireguarddeviceDecryptTransportPayload aead_open pool ciphertext nonce keypair;
       case buf of
         None \<Rightarrow> Some (None, connected, p, pool)
       | Some buf \<Rightarrow>
           (case wireguardCheckReplay keypair nonce of (fresh, keypair) \<Rightarrow>
              let p = slot_put p slot keypair in
              if \<not> fresh then do { pool \<leftarrow> bufferpoolReuseBuffer pool buf; Some (None, connected, p, pool) }
              else do {
                (out, p, pool) \<leftarrow> acceptData netcmp (fst (snd ticks)) (snd (snd ticks)) addr port idx p slot buf pool;
                Some (out, True, p, pool)
              })
     }
   }"

end
