(* ===== verification/Wireguard_Laws.thy ===== *)
theory Wireguard_Laws
  imports Wireguard
begin

text \<open>
  The replay window accepts every counter once, also while keys move through the slots of a peer,
  and peers are selected by the longest matching prefix.
\<close>

section \<open>The replay window\<close>

text \<open>The window stands for the set of accepted counters: the greatest one and the 31 below it are exact.\<close>

definition window_ok :: "wireguard_keypair \<Rightarrow> nat set \<Rightarrow> bool" where
  "window_ok k S \<longleftrightarrow> replay_counter k \<le> UINT32_MAX \<and> (\<forall>n\<in>S. n < replay_counter k) \<and>
     (\<forall>d<32. bit (replay_bitmap k) d \<longleftrightarrow> d < replay_counter k \<and> replay_counter k - 1 - d \<in> S)"

lemma window_zero: "replay_bitmap k = 0 \<Longrightarrow> replay_counter k = 0 \<Longrightarrow> window_ok k {}"
  by (simp add: window_ok_def)

lemma check_replay_larger:
  assumes "window_ok k S" "n < UINT32_MAX" "replay_counter k \<le> n"
  shows "wireguardCheckReplay k n = (True, k\<lparr>replay_counter := n + 1, replay_bitmap :=
      (if n + 1 - replay_counter k < 32 then push_bit (n + 1 - replay_counter k) (replay_bitmap k) OR 1 else 1)\<rparr>)"
  using assms by (simp add: wireguardCheckReplay_def Let_def)

lemma window_larger:
  assumes w: "window_ok k S" and n: "n < UINT32_MAX" "replay_counter k \<le> n"
  shows "window_ok (snd (wireguardCheckReplay k n)) (insert n S)"
proof -
  let ?c = "replay_counter k" and ?e = "n + 1 - replay_counter k"
  have S: "m < ?c" if "m \<in> S" for m using w that by (simp add: window_ok_def)
  have b: "bit (replay_bitmap k) d \<longleftrightarrow> d < ?c \<and> ?c - 1 - d \<in> S" if "d < 32" for d using w that by (simp add: window_ok_def)
  have "bit (if ?e < 32 then push_bit ?e (replay_bitmap k) OR 1 else 1) d \<longleftrightarrow> d < n + 1 \<and> n - d \<in> insert n S" if d: "d < 32" for d
  proof (cases "d < ?e")
    case True
    then have "n - d \<notin> S" using S [of "n - d"] n(2) by auto
    moreover have "n - d = n \<longleftrightarrow> d = 0 \<or> n = 0" by auto
    ultimately show ?thesis using True d n(2) by (auto simp: bit_simps bit_1_iff)
  next
    case False
    then have "?c - 1 - (d - ?e) = n - d" "d - ?e < ?c \<longleftrightarrow> d < n + 1" "d - ?e < 32" "d \<noteq> 0" "n - d \<noteq> n \<or> n < d"
      using d n(2) by auto
    then show ?thesis using b [of "d - ?e"] False d n(2) by (auto simp: bit_simps bit_1_iff)
  qed
  then show ?thesis using w n check_replay_larger [OF w n] by (auto simp: window_ok_def)
qed

lemma window_inside:
  assumes w: "window_ok k S" and n: "n < replay_counter k" "replay_counter k \<le> n + 32"
  defines "d \<equiv> replay_counter k - 1 - n"
  shows "wireguardCheckReplay k n = (if n \<in> S then (False, k) else (True, k\<lparr>replay_bitmap := replay_bitmap k OR push_bit d 1\<rparr>))"
    "window_ok (k\<lparr>replay_bitmap := replay_bitmap k OR push_bit d 1\<rparr>) (insert n S)"
proof -
  have c: "replay_counter k \<le> UINT32_MAX" using w by (simp add: window_ok_def)
  have d: "d < 32" "replay_counter k - 1 - d = n" "d < replay_counter k" using n by (auto simp: d_def)
  have "bit (replay_bitmap k) d \<longleftrightarrow> n \<in> S" using w d by (simp add: window_ok_def)
  then have "replay_bitmap k AND push_bit d 1 \<noteq> 0 \<longleftrightarrow> n \<in> S" by (simp only: bit_iff_and_push_bit_not_eq_0)
  then show "wireguardCheckReplay k n = (if n \<in> S then (False, k) else (True, k\<lparr>replay_bitmap := replay_bitmap k OR push_bit d 1\<rparr>))"
    using n c d(1) by (auto simp: wireguardCheckReplay_def Let_def d_def)
  have "bit (replay_bitmap k OR push_bit d 1) e \<longleftrightarrow> e < replay_counter k \<and> replay_counter k - 1 - e \<in> insert n S" if "e < 32" for e
  proof (cases "e = d")
    case True
    then show ?thesis using d by (simp add: bit_simps)
  next
    case False
    then have "e < replay_counter k \<Longrightarrow> replay_counter k - 1 - e \<noteq> n" using n by (auto simp: d_def)
    then show ?thesis using w that False by (auto simp: window_ok_def bit_simps)
  qed
  then show "window_ok (k\<lparr>replay_bitmap := replay_bitmap k OR push_bit d 1\<rparr>) (insert n S)"
    using w n(1) by (auto simp: window_ok_def)
qed

lemma window_old:
  assumes "window_ok k S" "n + 32 < replay_counter k"
  shows "wireguardCheckReplay k n = (False, k)"
  using assms by (auto simp: wireguardCheckReplay_def Let_def window_ok_def)

text \<open>One packet: it is accepted exactly when it is new and not older than the window, and only the two
  fields of the window change.\<close>

lemma check_replay_ok:
  assumes "window_ok k S" "n < UINT32_MAX"
  shows "\<exists>k'. wireguardCheckReplay k n = (n \<notin> S \<and> replay_counter k \<le> n + 32, k') \<and>
    window_ok k' (if n \<notin> S \<and> replay_counter k \<le> n + 32 then insert n S else S) \<and>
    k' = k\<lparr>replay_bitmap := replay_bitmap k', replay_counter := replay_counter k'\<rparr>"
proof -
  consider "replay_counter k \<le> n" | "n < replay_counter k" "replay_counter k \<le> n + 32" | "n + 32 < replay_counter k" by linarith
  then show ?thesis
  proof cases
    case 1
    then have "n \<notin> S" using assms(1) by (auto simp: window_ok_def)
    then show ?thesis using check_replay_larger [OF assms 1] window_larger [OF assms 1] 1 by simp
  next
    case 2
    then show ?thesis using window_inside [OF assms(1) 2] assms(1) by (cases "n \<in> S") simp_all
  next
    case 3
    then show ?thesis using window_old [OF assms(1) 3] assms(1) by simp
  qed
qed

text \<open>A sequence of packets under one key: which of them are accepted.\<close>

primrec replay_run :: "wireguard_keypair \<Rightarrow> nat list \<Rightarrow> bool list" where
  "replay_run k [] = []"
| "replay_run k (n # ns) = (case wireguardCheckReplay k n of (ok, k) \<Rightarrow> ok # replay_run k ns)"

text \<open>The specification: new, and at most 31 below the greatest accepted counter.\<close>

primrec replay_spec :: "nat set \<Rightarrow> nat list \<Rightarrow> bool list" where
  "replay_spec S [] = []"
| "replay_spec S (n # ns) =
     (let ok = (n \<notin> S \<and> (\<forall>m\<in>S. m < n + 32)) in ok # replay_spec (if ok then insert n S else S) ns)"

text \<open>The counter is the successor of the greatest accepted one.\<close>

definition window_top :: "wireguard_keypair \<Rightarrow> nat set \<Rightarrow> bool" where
  "window_top k S \<longleftrightarrow> replay_counter k = 0 \<or> replay_counter k - 1 \<in> S"

lemma top_bound:
  assumes "window_ok k S" "window_top k S"
  shows "replay_counter k \<le> n + 32 \<longleftrightarrow> (\<forall>m\<in>S. m < n + 32)"
  using assms by (force simp: window_ok_def window_top_def)

lemma top_step:
  assumes "window_ok k S" "window_top k S" "n < UINT32_MAX" "wireguardCheckReplay k n = (ok, k')"
  shows "window_top k' (if ok then insert n S else S)"
proof (cases "replay_counter k \<le> n")
  case True
  then show ?thesis using check_replay_larger [OF assms(1,3) True] assms(4) by (auto simp: window_top_def)
next
  case False
  then show ?thesis
    using window_inside(1) [OF assms(1), of n] window_old [OF assms(1), of n] assms(2,4)
    by (cases "replay_counter k \<le> n + 32") (auto simp: window_top_def split: if_splits)
qed

lemma replay_run_eq:
  assumes "window_ok k S" "window_top k S" "\<forall>n\<in>set ns. n < UINT32_MAX"
  shows "replay_run k ns = replay_spec S ns"
  using assms
proof (induction ns arbitrary: k S)
  case (Cons n ns)
  have n: "n < UINT32_MAX" using Cons.prems(3) by simp
  let ?ok = "n \<notin> S \<and> replay_counter k \<le> n + 32"
  obtain k' where k': "wireguardCheckReplay k n = (?ok, k')" "window_ok k' (if ?ok then insert n S else S)"
    using check_replay_ok [OF Cons.prems(1) n] by blast
  have "replay_run k' ns = replay_spec (if ?ok then insert n S else S) ns"
    using Cons.IH [OF k'(2) top_step [OF Cons.prems(1,2) n k'(1)]] Cons.prems(3) by simp
  then show ?case using k'(1) top_bound [OF Cons.prems(1,2), of n] by (simp add: Let_def)
qed simp

lemma replay_spec_nth:
  assumes "i < length ns"
  shows "replay_spec S ns ! i \<longleftrightarrow> ns ! i \<notin> S \<union> {ns ! j | j. j < i \<and> replay_spec S ns ! j} \<and>
    (\<forall>m\<in>S \<union> {ns ! j | j. j < i \<and> replay_spec S ns ! j}. m < ns ! i + 32)"
  using assms
proof (induction ns arbitrary: S i)
  case (Cons n ns)
  let ?ok = "n \<notin> S \<and> (\<forall>m\<in>S. m < n + 32)"
  let ?T = "if ?ok then insert n S else S"
  have r: "replay_spec S (n # ns) = ?ok # replay_spec ?T ns" by (simp add: Let_def)
  show ?case
  proof (cases i)
    case 0
    then show ?thesis by (simp add: Let_def)
  next
    case (Suc i')
    have "S \<union> {(n # ns) ! j | j. j < i \<and> replay_spec S (n # ns) ! j} =
        ?T \<union> {ns ! j | j. j < i' \<and> replay_spec ?T ns ! j}" (is "?A = ?B")
    proof (rule set_eqI)
      fix m
      have "(\<exists>j<i. m = (n # ns) ! j \<and> replay_spec S (n # ns) ! j) \<longleftrightarrow>
          m = n \<and> ?ok \<or> (\<exists>j<i'. m = ns ! j \<and> replay_spec ?T ns ! j)"
        unfolding r Suc Ex_less_Suc2 by simp
      moreover have "m \<in> ?T \<longleftrightarrow> m \<in> S \<or> m = n \<and> ?ok" by auto
      moreover have "m \<in> ?A \<longleftrightarrow> m \<in> S \<or> (\<exists>j<i. m = (n # ns) ! j \<and> replay_spec S (n # ns) ! j)" by blast
      moreover have "m \<in> ?B \<longleftrightarrow> m \<in> ?T \<or> (\<exists>j<i'. m = ns ! j \<and> replay_spec ?T ns ! j)" by blast
      ultimately show "m \<in> ?A \<longleftrightarrow> m \<in> ?B" by argo
    qed
    moreover have "replay_spec S (n # ns) ! i = replay_spec ?T ns ! i'" unfolding r Suc by simp
    ultimately show ?thesis using Cons.IH [of i' ?T] Cons.prems Suc by (simp only: nth_Cons_Suc length_Cons Suc_less_eq)
  qed
qed simp

lemma replay_accepts_twice:
  "replay_run zero_keypair [0, 40, 4294967299, 0] = [True, True, True, True]"
  by (simp add: wireguardCheckReplay_def zero_keypair_def u64_def u32_def sub64_def Let_def)

section \<open>Sessions of a peer\<close>

text \<open>What a peer goes through: sessions that start with an index for this end, and transport data.\<close>

datatype wg_event =
    StartEvent nat nat bool nat "byte list"
  | DataEvent nat nat "byte list" "nat \<times> nat \<times> nat" ip_addr nat

text \<open>The events in order; the result lists index and counter of every packet that was passed on.\<close>

primrec wg_run ::
  "(byte list \<Rightarrow> (byte list \<times> byte list) option) \<Rightarrow> (byte list \<Rightarrow> nat \<Rightarrow> byte list \<Rightarrow> byte list option) \<Rightarrow>
   (ip_addr \<Rightarrow> ip_addr \<Rightarrow> ip_addr \<Rightarrow> bool) \<Rightarrow> bool \<Rightarrow> wireguard_peer \<Rightarrow> buffer_pool \<Rightarrow> wg_event list \<Rightarrow> (nat \<times> nat) list option" where
  "wg_run kdf2 aead netcmp conn p pool [] = Some []"
| "wg_run kdf2 aead netcmp conn p pool (e # es) =
     (case e of
        StartEvent li ri initiator now ck \<Rightarrow>
          wg_run kdf2 aead netcmp conn
            (snd (wireguardStartSession kdf2 now
              (p\<lparr>handshake := \<lparr>hs_valid = True, hs_initiator = initiator, hs_local_index = li, hs_remote_index = ri,
                chaining_key = ck\<rparr>\<rparr>) initiator)) pool es
      | DataEvent idx nonce c ticks addr port \<Rightarrow>
          if getPeerKeypairForIdx p idx = None then wg_run kdf2 aead netcmp conn p pool es
          else do {
            (out, conn, p, pool) \<leftarrow> wireguardifProcessDataMessage aead netcmp ticks conn p idx nonce c addr port pool;
            rest \<leftarrow> wg_run kdf2 aead netcmp conn p pool es;
            Some ((if out = None then [] else [(idx, nonce)]) @ rest)
          })"

text \<open>Every valid slot holds a session of its own, whose window is the set of its accepted counters.\<close>

definition sessions_ok :: "nat set \<Rightarrow> (nat \<times> nat) set \<Rightarrow> wireguard_peer \<Rightarrow> bool" where
  "sessions_ok U A p \<longleftrightarrow>
     (\<forall>s. kp_valid (slot_get p s) \<longrightarrow> local_index (slot_get p s) \<in> U \<and>
        window_ok (slot_get p s) {n. (local_index (slot_get p s), n) \<in> A}) \<and>
     (\<forall>s t. s \<noteq> t \<longrightarrow> kp_valid (slot_get p s) \<longrightarrow> kp_valid (slot_get p t) \<longrightarrow>
        local_index (slot_get p s) \<noteq> local_index (slot_get p t)) \<and> fst ` A \<subseteq> U"

lemma slot_get_put: "slot_get (slot_put p s k) t = (if t = s then k else slot_get p t)"
  by (cases s; cases t) simp_all

lemma slot_get_fields [simp]:
  "slot_get (p\<lparr>peer_last_rx := x\<rparr>) t = slot_get p t" "slot_get (p\<lparr>send_handshake := b\<rparr>) t = slot_get p t"
  "slot_get (p\<lparr>handshake := h\<rparr>) t = slot_get p t" "slot_get (updatePeerAddr p a i) t = slot_get p t"
  "slot_get (wireguardClearPendingHandshake p) t = slot_get p t"
  by (cases t; simp add: updatePeerAddr_def wireguardClearPendingHandshake_def)+

lemma lookup_slot:
  "getPeerKeypairForIdx p idx = Some s \<Longrightarrow> kp_valid (slot_get p s) \<and> local_index (slot_get p s) = idx"
  by (auto simp: getPeerKeypairForIdx_def split: if_splits)

lemma lookup_found:
  "kp_valid (slot_get p s) \<Longrightarrow> local_index (slot_get p s) = idx \<Longrightarrow> getPeerKeypairForIdx p idx \<noteq> None"
  by (cases s) (auto simp: getPeerKeypairForIdx_def)

lemma sessions_okD:
  assumes "sessions_ok U A p" "kp_valid (slot_get p s)"
  shows "local_index (slot_get p s) \<in> U" "window_ok (slot_get p s) {n. (local_index (slot_get p s), n) \<in> A}"
    "s \<noteq> t \<Longrightarrow> kp_valid (slot_get p t) \<Longrightarrow> local_index (slot_get p s) \<noteq> local_index (slot_get p t)"
  using assms by (simp_all add: sessions_ok_def)

lemma sessions_okI:
  assumes "\<And>s. kp_valid (slot_get p s) \<Longrightarrow> local_index (slot_get p s) \<in> U \<and>
      window_ok (slot_get p s) {n. (local_index (slot_get p s), n) \<in> A}"
    "\<And>s t. s \<noteq> t \<Longrightarrow> kp_valid (slot_get p s) \<Longrightarrow> kp_valid (slot_get p t) \<Longrightarrow>
      local_index (slot_get p s) \<noteq> local_index (slot_get p t)" "fst ` A \<subseteq> U"
  shows "sessions_ok U A p"
  using assms by (simp add: sessions_ok_def)

text \<open>Slots may be emptied and exchanged: each slot of the new peer is a slot of the old one or empty.\<close>

lemma sessions_move:
  assumes p: "sessions_ok U A p" and f: "inj_on f {s. kp_valid (slot_get q s)}"
    and q: "\<And>s. kp_valid (slot_get q s) \<Longrightarrow> slot_get q s = slot_get p (f s)"
  shows "sessions_ok U A q"
proof (rule sessions_okI)
  fix s assume s: "kp_valid (slot_get q s)"
  have v: "kp_valid (slot_get p (f s))" using s q [OF s] by simp
  show "local_index (slot_get q s) \<in> U \<and> window_ok (slot_get q s) {n. (local_index (slot_get q s), n) \<in> A}"
    using sessions_okD(1,2) [OF p v] unfolding q [OF s] by simp
  fix t assume t: "s \<noteq> t" "kp_valid (slot_get q t)"
  have "f s \<noteq> f t" "kp_valid (slot_get p (f t))" using f s t q [OF t(2)] by (auto dest: inj_onD)
  then show "local_index (slot_get q s) \<noteq> local_index (slot_get q t)"
    using sessions_okD(3) [OF p v] unfolding q [OF s] q [OF t(2)] by blast
next
  show "fst ` A \<subseteq> U" using p by (simp add: sessions_ok_def)
qed

lemma sessions_same_slots:
  "(\<And>s. slot_get q s = slot_get p s) \<Longrightarrow> sessions_ok U A q = sessions_ok U A p"
  by (simp add: sessions_ok_def)

lemma sessions_destroy: "sessions_ok U A p \<Longrightarrow> sessions_ok U A (keypairDestroy p s)"
  by (erule sessions_move [where f = id])
     (auto simp: keypairDestroy_def slot_get_put zero_keypair_def split: if_splits)

lemma sessions_update:
  assumes "sessions_ok U A p"
  shows "sessions_ok U A (keypairUpdate p s)"
proof (cases "s = NextKeypair")
  case True
  have v: "slot_get (keypairUpdate p s) t = (case t of CurrKeypair \<Rightarrow> next_keypair p | PrevKeypair \<Rightarrow> curr_keypair p
      | NextKeypair \<Rightarrow> zero_keypair\<lparr>kp_valid := False\<rparr>)" for t
    using True by (cases t) (simp_all add: keypairUpdate_def keypairDestroy_def)
  show ?thesis
    by (rule sessions_move [OF assms, where f = "\<lambda>t. case t of CurrKeypair \<Rightarrow> NextKeypair | PrevKeypair \<Rightarrow> CurrKeypair | NextKeypair \<Rightarrow> PrevKeypair"])
       (auto simp: v inj_on_def split: keypair_slot.splits)
qed (simp add: keypairUpdate_def assms)

text \<open>A fresh session in one slot; the other slots come from the old peer.\<close>

lemma sessions_new:
  assumes p: "sessions_ok U A p" and new: "local_index k \<notin> U" "window_ok k {}"
    and q: "slot_get q s = k" "inj_on f {t. t \<noteq> s \<and> kp_valid (slot_get q t)}"
    "\<And>t. t \<noteq> s \<Longrightarrow> kp_valid (slot_get q t) \<Longrightarrow> slot_get q t = slot_get p (f t)"
  shows "sessions_ok (insert (local_index k) U) A q"
proof -
  have a: "{n. (local_index k, n) \<in> A} = {}" using p new(1) by (force simp: sessions_ok_def)
  have old: "local_index (slot_get q t) \<in> U" "window_ok (slot_get q t) {n. (local_index (slot_get q t), n) \<in> A}"
      "kp_valid (slot_get p (f t))"
    if "t \<noteq> s" "kp_valid (slot_get q t)" for t
    using sessions_okD(1,2) [OF p, of "f t"] that(2) unfolding q(3) [OF that] by simp_all
  show ?thesis
  proof (rule sessions_okI)
    fix t assume t: "kp_valid (slot_get q t)"
    show "local_index (slot_get q t) \<in> insert (local_index k) U \<and> window_ok (slot_get q t) {n. (local_index (slot_get q t), n) \<in> A}"
      using old(1,2) [OF _ t] a q(1) new(2) by (cases "t = s") auto
    fix u assume u: "t \<noteq> u" "kp_valid (slot_get q u)"
    show "local_index (slot_get q t) \<noteq> local_index (slot_get q u)"
    proof (cases "t = s \<or> u = s")
      case True
      then show ?thesis using old(1) new(1) q(1) t u by metis
    next
      case False
      then have ts: "t \<noteq> s" "u \<noteq> s" by simp_all
      then have "f t \<noteq> f u" using q(2) t u by (auto dest: inj_onD)
      then show ?thesis using sessions_okD(3) [OF p old(3) [OF ts(1) t] _ old(3) [OF ts(2) u(2)]]
        unfolding q(3) [OF ts(1) t] q(3) [OF ts(2) u(2)] by blast
    qed
  next
    show "fst ` A \<subseteq> insert (local_index k) U" using p by (auto simp: sessions_ok_def)
  qed
qed

lemma sessions_add:
  assumes "sessions_ok U A p" "local_index k \<notin> U" "window_ok k {}"
  shows "sessions_ok (insert (local_index k) U) A (addNewKeypair p k)"
proof -
  let ?z = "zero_keypair\<lparr>kp_valid := False\<rparr>" and ?q = "addNewKeypair p k"
  consider "kp_initiator k" "kp_valid (next_keypair p)" | "kp_initiator k" "\<not> kp_valid (next_keypair p)" | "\<not> kp_initiator k" by blast
  then show ?thesis
  proof cases
    case 1
    then have v: "slot_get ?q t = (case t of CurrKeypair \<Rightarrow> k | NextKeypair \<Rightarrow> ?z | PrevKeypair \<Rightarrow> slot_get p NextKeypair)" for t
      by (cases t) (simp_all add: addNewKeypair_def keypairDestroy_def)
    show ?thesis
      by (rule sessions_new [OF assms, where s = CurrKeypair and f = "\<lambda>_. NextKeypair"])
         (auto simp: v inj_on_def simp del: slot_get.simps split: keypair_slot.splits)
  next
    case 2
    then have v: "slot_get ?q t = (case t of CurrKeypair \<Rightarrow> k | NextKeypair \<Rightarrow> slot_get p NextKeypair | PrevKeypair \<Rightarrow> slot_get p CurrKeypair)" for t
      by (cases t) (simp_all add: addNewKeypair_def keypairDestroy_def)
    show ?thesis
      by (rule sessions_new [OF assms, where s = CurrKeypair and f = "\<lambda>t. case t of PrevKeypair \<Rightarrow> CurrKeypair | _ \<Rightarrow> NextKeypair"])
         (auto simp: v inj_on_def simp del: slot_get.simps split: keypair_slot.splits)
  next
    case 3
    then have v: "slot_get ?q t = (case t of CurrKeypair \<Rightarrow> slot_get p CurrKeypair | NextKeypair \<Rightarrow> k | PrevKeypair \<Rightarrow> ?z)" for t
      by (cases t) (simp_all add: addNewKeypair_def keypairDestroy_def)
    show ?thesis
      by (rule sessions_new [OF assms, where s = NextKeypair and f = id])
         (auto simp: v simp del: slot_get.simps split: keypair_slot.splits)
  qed
qed

lemma sessions_start:
  assumes "sessions_ok U A p" "li \<notin> U"
  shows "sessions_ok (insert li U) A (snd (wireguardStartSession kdf2 now
    (p\<lparr>handshake := \<lparr>hs_valid = True, hs_initiator = i, hs_local_index = li, hs_remote_index = ri, chaining_key = ck\<rparr>\<rparr>) i))"
    (is "sessions_ok _ _ (snd (wireguardStartSession kdf2 now ?p i))")
proof (cases "kdf2 ck")
  case None
  have "slot_get (wireguardClearHandshakeState ?p) s = slot_get p s" for s
    by (simp add: wireguardClearHandshakeState_def)
  then have "sessions_ok U A (wireguardClearHandshakeState ?p)" using sessions_same_slots assms(1) by metis
  then show ?thesis using None by (auto simp: wireguardStartSession_def Let_def sessions_ok_def)
next
  case (Some ab)
  obtain k where k: "snd (wireguardStartSession kdf2 now ?p i) = addNewKeypair (p\<lparr>handshake := zero_handshake\<rparr>) k"
    "local_index k = li" "replay_bitmap k = 0" "replay_counter k = 0"
    using Some by (cases ab) (auto simp: wireguardStartSession_def Let_def)
  have "slot_get (p\<lparr>handshake := zero_handshake\<rparr>) s = slot_get p s" for s by simp
  then have "sessions_ok U A (p\<lparr>handshake := zero_handshake\<rparr>)" using sessions_same_slots assms(1) by metis
  from sessions_add [OF this, of k] show ?thesis using k window_zero [OF k(3,4)] assms(2) by simp
qed

section \<open>Transport data\<close>

lemma sessions_accept:
  assumes p: "sessions_ok U A p" and s: "kp_valid (slot_get p s)" "local_index (slot_get p s) = idx"
    and k: "local_index k = idx" "window_ok k {n. (idx, n) \<in> B}"
    and B: "B = A \<or> B = insert (idx, m) A"
  shows "sessions_ok U B (slot_put p s k)"
proof (rule sessions_okI)
  have idx: "idx \<in> U" using sessions_okD(1) [OF p s(1)] s(2) by simp
  fix t assume t: "kp_valid (slot_get (slot_put p s k) t)"
  have other: "kp_valid (slot_get p u) \<and> slot_get (slot_put p s k) u = slot_get p u \<and> local_index (slot_get p u) \<noteq> idx"
    if "u \<noteq> s" "kp_valid (slot_get (slot_put p s k) u)" for u
    using that sessions_okD(3) [OF p s(1), of u] s(2) by (auto simp: slot_get_put)
  show "local_index (slot_get (slot_put p s k) t) \<in> U \<and>
      window_ok (slot_get (slot_put p s k) t) {n. (local_index (slot_get (slot_put p s k) t), n) \<in> B}"
  proof (cases "t = s")
    case True
    then show ?thesis using k idx by (simp add: slot_get_put)
  next
    case False
    have "{n. (local_index (slot_get p t), n) \<in> B} = {n. (local_index (slot_get p t), n) \<in> A}"
      using B other [OF False t] by auto
    then show ?thesis using other [OF False t] sessions_okD(1,2) [OF p, of t] by simp
  qed
  fix u assume u: "t \<noteq> u" "kp_valid (slot_get (slot_put p s k) u)"
  show "local_index (slot_get (slot_put p s k) t) \<noteq> local_index (slot_get (slot_put p s k) u)"
  proof (cases "t = s \<or> u = s")
    case True
    then show ?thesis using other [of t] other [of u] t u k(1) by (auto simp: slot_get_put)
  next
    case False
    then show ?thesis using sessions_okD(3) [OF p, of t u] other [of t] other [of u] t u by simp
  qed
next
  show "fst ` B \<subseteq> U" using p B sessions_okD(1) [OF p s(1)] s(2) by (auto simp: sessions_ok_def)
qed

lemma metadata_ok:
  assumes "sbuf_ok b"
  shows "\<exists>m. wireguarddeviceGetPlaintextPacketMetadata b = Some m \<and> (\<forall>src n. m = Some (src, n) \<longrightarrow> n \<le> sb_len b)"
  using assms by (auto simp: wireguarddeviceGetPlaintextPacketMetadata_def sbufGetLength_def sbufRead_eq Let_def)

lemma large_padding_le: "pool_ok p \<Longrightarrow> bufferpoolGetLargeBufferPadding p \<le> UINT16_MAX"
  using tier_okD [OF pool_okD(4)] by (simp add: bufferpoolGetLargeBufferPadding_def)

text \<open>Authenticated decryption returns the plaintext without the 16 bytes of the tag.\<close>

definition aead_sized :: "(byte list \<Rightarrow> nat \<Rightarrow> byte list \<Rightarrow> byte list option) \<Rightarrow> bool" where
  "aead_sized aead \<longleftrightarrow> (\<forall>key n c plain. aead key n c = Some plain \<longrightarrow> length plain = length c - 16)"

lemma decrypt_payload:
  assumes p: "pool_ok p" and fits: "sbuf_fits (length c - 16) (bufferpoolGetLargeBufferPadding p)"
    and c: "16 \<le> length c" "aead (receiving_key k) n c = Some plain" "length plain = length c - 16"
  shows "\<exists>b q. wireguarddeviceDecryptTransportPayload aead p c n k = Some (Some b, q) \<and> pool_ok q \<and>
    pool_geometry q = pool_geometry p \<and> sbuf_ok b \<and> payload b = plain"
proof -
  let ?n = "length c - 16"
  obtain b q where b: "bufferpoolGetBestFit p ?n (bufferpoolGetLargeBufferPadding p) = Some (b, q)"
    "fresh_buf ?n (bufferpoolGetLargeBufferPadding p) b" "pool_ok q" "pool_geometry q = pool_geometry p"
    using getBestFit_ok [OF p fits large_padding_le [OF p]] by blast
  note F = fresh_bufD [OF b(2)]
  have max: "\<not> sbufGetMaximumWriteableSize b < ?n" using F(4) by (simp add: sbufGetMaximumWriteableSize_eq [OF F(1)])
  obtain d where d: "sbufWriteAt b 0 plain = Some d" "sbuf_ok d" "curpos d = curpos b" "sb_capacity d = sb_capacity b"
    "take ?n (drop (curpos d) (sb_buf d)) = plain"
    using F(4,6) c(3) sbuf_okD [OF F(1)] by (simp add: sbufWriteAt_eq sbuf_ok_def payload_def)
  have "sbufSetLength d ?n = Some (d\<lparr>sb_len := ?n\<rparr>)" "sbuf_ok (d\<lparr>sb_len := ?n\<rparr>)"
    using d F(3,6) sbuf_okD [OF d(2)] by (auto simp: sbufSetLength_eq intro!: sbuf_ok_set_len)
  then show ?thesis using b max c d(1,5)
    by (simp add: wireguarddeviceDecryptTransportPayload_def WIREGUARD_AUTHTAG_LEN_def Let_def sbufWrite_def payload_def)
qed

lemma decrypt_ok:
  assumes p: "pool_ok p" and fits: "sbuf_fits (length c - 16) (bufferpoolGetLargeBufferPadding p)"
    and aead: "aead_sized aead"
  shows "\<exists>b q. wireguarddeviceDecryptTransportPayload aead p c n k = Some (b, q) \<and> pool_ok q \<and>
    pool_geometry q = pool_geometry p \<and> (\<forall>x. b = Some x \<longrightarrow> sbuf_ok x)"
proof (cases "length c < 16")
  case True
  then show ?thesis using p by (simp add: wireguarddeviceDecryptTransportPayload_def WIREGUARD_AUTHTAG_LEN_def)
next
  case False
  let ?n = "length c - 16"
  show ?thesis
  proof (cases "aead (receiving_key k) n c")
    case None
    obtain b q where b: "bufferpoolGetBestFit p ?n (bufferpoolGetLargeBufferPadding p) = Some (b, q)"
      "fresh_buf ?n (bufferpoolGetLargeBufferPadding p) b" "pool_ok q" "pool_geometry q = pool_geometry p"
      using getBestFit_ok [OF p fits large_padding_le [OF p]] by blast
    note F = fresh_bufD [OF b(2)]
    have "\<not> sbufGetMaximumWriteableSize b < ?n" using F(4) by (simp add: sbufGetMaximumWriteableSize_eq [OF F(1)])
    then show ?thesis using None b reuse_ok [OF b(3) F(1)] False
      by (auto simp: wireguarddeviceDecryptTransportPayload_def WIREGUARD_AUTHTAG_LEN_def Let_def)
  next
    case (Some plain)
    then have "length plain = ?n" using aead by (auto simp: aead_sized_def)
    from decrypt_payload [of p c aead k n plain, OF p fits _ Some this] False show ?thesis by auto
  qed
qed

text \<open>The outcome of handling a packet: the pool stays valid and the sessions stand for \<open>B\<close>.\<close>

definition handled :: "nat set \<Rightarrow> (nat \<times> nat) set \<Rightarrow> buffer_pool \<Rightarrow> wireguard_peer \<Rightarrow> buffer_pool \<Rightarrow> bool" where
  "handled U B pool p q \<longleftrightarrow> sessions_ok U B p \<and> pool_ok q \<and> pool_geometry q = pool_geometry pool"

lemma receipt_ok:
  assumes p: "sessions_ok U B p" and s: "kp_valid (slot_get p s)" "local_index (slot_get p s) = idx"
  shows "sessions_ok U B (noteReceipt now addr port idx p s)" "getPeerKeypairForIdx (noteReceipt now addr port idx p s) idx \<noteq> None"
proof -
  let ?k = "slot_get p s\<lparr>kp_last_rx := now\<rparr>"
  obtain p2 where p2: "noteReceipt now addr port idx p s = keypairUpdate p2 s" "\<And>t. slot_get p2 t = slot_get (slot_put p s ?k) t"
    by (rule that [of "let p = slot_put (updatePeerAddr p addr port) s ?k\<lparr>peer_last_rx := now\<rparr> in
          if ph_valid (pending_handshake p) \<and> ph_message_type (pending_handshake p) = MESSAGE_HANDSHAKE_RESPONSE \<and>
            ph_sender (pending_handshake p) = idx then wireguardClearPendingHandshake p else p"])
       (simp_all add: noteReceipt_def Let_def slot_get_put)
  have "sessions_ok U B (slot_put p s ?k)"
    using sessions_accept [OF p s, of ?k B] s sessions_okD(2) [OF p s(1)] by (simp add: window_ok_def)
  then have "sessions_ok U B p2" using sessions_same_slots [OF p2(2)] by simp
  then show "sessions_ok U B (noteReceipt now addr port idx p s)" unfolding p2(1) by (rule sessions_update)
  have k: "kp_valid (slot_get p2 s)" "local_index (slot_get p2 s) = idx" using p2(2) [of s] s by (simp_all add: slot_get_put)
  show "getPeerKeypairForIdx (noteReceipt now addr port idx p s) idx \<noteq> None"
  proof (cases "s = NextKeypair")
    case True
    then show ?thesis unfolding p2(1) using k
      by (intro lookup_found [of _ CurrKeypair]) (simp_all add: keypairUpdate_def keypairDestroy_def)
  next
    case False
    then show ?thesis unfolding p2(1) using k by (intro lookup_found [of _ s]) (simp_all add: keypairUpdate_def)
  qed
qed

lemma forward_ok:
  assumes b: "sbuf_ok b" and pool: "pool_ok pool"
  shows "\<exists>out q. forwardInner netcmp p b pool = Some (out, q) \<and> pool_ok q \<and> pool_geometry q = pool_geometry pool"
proof -
  obtain m where m: "wireguarddeviceGetPlaintextPacketMetadata b = Some m" "\<And>src n. m = Some (src, n) \<Longrightarrow> n \<le> sb_len b"
    using metadata_ok [OF b] by blast
  have "sbufSetLength b n = Some (b\<lparr>sb_len := n\<rparr>)" if "n \<le> sb_len b" for n
    using that sbuf_okD [OF b] by (simp add: sbufSetLength_eq)
  then show ?thesis using reuse_ok [OF pool b] pool m by (auto simp: forwardInner_def split: option.splits)
qed

lemma accept_ok:
  assumes p: "sessions_ok U B p" "kp_valid (slot_get p s)" "local_index (slot_get p s) = idx"
    and b: "sbuf_ok b" and pool: "pool_ok pool"
  shows "\<exists>out p' q. acceptData netcmp now now' addr port idx p s b pool = Some (out, p', q) \<and> handled U B pool p' q"
proof -
  define p1 where "p1 = noteReceipt now addr port idx p s"
  obtain t where t: "getPeerKeypairForIdx p1 idx = Some t" using receipt_ok(2) [OF p] unfolding p1_def by blast
  define p2 where "p2 = (if kp_initiator (slot_get p1 t) \<and> wireguardExpired now' (keypair_millis (slot_get p1 t))
      (sub32 (sub32 REJECT_AFTER_TIME (keepalive_interval p1)) REKEY_TIMEOUT) then p1\<lparr>send_handshake := True\<rparr> else p1)"
  have "sessions_ok U B p1" unfolding p1_def by (rule receipt_ok(1) [OF p])
  moreover have "slot_get p2 u = slot_get p1 u" for u by (simp add: p2_def)
  ultimately have p2: "sessions_ok U B p2" using sessions_same_slots by metis
  obtain out q where q: "forwardInner netcmp p2 b pool = Some (out, q)" "pool_ok q" "pool_geometry q = pool_geometry pool"
    using forward_ok [OF b pool] by blast
  have "acceptData netcmp now now' addr port idx p s b pool = Some (out, p2, q)"
    using t q(1) by (simp add: acceptData_def Let_def flip: p1_def p2_def)
  then show ?thesis using p2 q by (auto simp: handled_def)
qed

lemma process_ok:
  assumes p: "sessions_ok U A p" and s: "getPeerKeypairForIdx p idx \<noteq> None" and n: "n < UINT32_MAX" and pool: "pool_ok pool"
    and fits: "sbuf_fits (length c - 16) (bufferpoolGetLargeBufferPadding pool)"
    and aead: "aead_sized aead"
  shows "\<exists>out conn' p' q B. wireguardifProcessDataMessage aead netcmp ticks conn p idx n c addr port pool = Some (out, conn', p', q) \<and>
    handled U B pool p' q \<and> A \<subseteq> B \<and> (out \<noteq> None \<longrightarrow> (idx, n) \<notin> A \<and> (idx, n) \<in> B)"
proof -
  obtain s where s: "getPeerKeypairForIdx p idx = Some s" "kp_valid (slot_get p s)" "local_index (slot_get p s) = idx"
    using s lookup_slot by blast
  let ?k = "slot_get p s"
  let ?expired = "\<not> receiving_valid ?k \<or> wireguardExpired (fst ticks) (keypair_millis ?k) REJECT_AFTER_TIME"
  have h: "handled U A pool p pool" "handled U A pool (keypairDestroy p s) pool"
    using p pool sessions_destroy by (simp_all add: handled_def)
  show ?thesis
  proof (cases "?expired \<or> n \<ge> REJECT_AFTER_MESSAGES")
    case True
    then show ?thesis using s(1) h by (cases ?expired) (auto simp: wireguardifProcessDataMessage_def Let_def)
  next
    case False
    obtain b q where b: "wireguarddeviceDecryptTransportPayload aead pool c n ?k = Some (b, q)" "pool_ok q"
      "pool_geometry q = pool_geometry pool" "\<And>x. b = Some x \<Longrightarrow> sbuf_ok x"
      using decrypt_ok [OF pool fits aead] by blast
    have e: "wireguardifProcessDataMessage aead netcmp ticks conn p idx n c addr port pool =
        (case b of None \<Rightarrow> Some (None, conn, p, q) | Some buf \<Rightarrow>
          (case wireguardCheckReplay ?k n of (fresh, keypair) \<Rightarrow> let p = slot_put p s keypair in
            if \<not> fresh then do { pool \<leftarrow> bufferpoolReuseBuffer q buf; Some (None, conn, p, pool) }
            else do {
              (out, p, pool) \<leftarrow> acceptData netcmp (fst (snd ticks)) (snd (snd ticks)) addr port idx p s buf q;
              Some (out, True, p, pool) }))"
      using s(1) False b(1) by (simp add: wireguardifProcessDataMessage_def Let_def)
    show ?thesis
    proof (cases b)
      case None
      then show ?thesis unfolding e using p b(2,3) by (auto simp: handled_def)
    next
      case (Some buf)
      let ?S = "{m. (idx, m) \<in> A}"
      let ?ok = "n \<notin> ?S \<and> replay_counter ?k \<le> n + 32"
      have "window_ok ?k ?S" using sessions_okD(2) [OF p s(2)] s(3) by simp
      then obtain k' where k': "wireguardCheckReplay ?k n = (?ok, k')" "window_ok k' (if ?ok then insert n ?S else ?S)"
        "k' = ?k\<lparr>replay_bitmap := replay_bitmap k', replay_counter := replay_counter k'\<rparr>"
        using check_replay_ok [OF _ n] by blast
      have kk: "kp_valid k'" "local_index k' = idx" using s(2,3) by (subst k'(3), simp)+
      define B where "B = (if ?ok then insert (idx, n) A else A)"
      have "{m. (idx, m) \<in> B} = (if ?ok then insert n ?S else ?S)" by (auto simp: B_def)
      then have p': "sessions_ok U B (slot_put p s k')"
        using sessions_accept [OF p s(2,3) kk(2), of B n] k'(2) by (simp add: B_def)
      have put: "kp_valid (slot_get (slot_put p s k') s)" "local_index (slot_get (slot_put p s k') s) = idx"
        using kk by (simp_all add: slot_get_put)
      note buf = b(4) [OF Some]
      show ?thesis
      proof (cases ?ok)
        case False
        obtain q' where q': "bufferpoolReuseBuffer q buf = Some q'" "handled U B q (slot_put p s k') q'"
          using reuse_ok [OF b(2) buf] p' by (auto simp: handled_def)
        have "B = A" using False by (simp only: B_def if_False)
        then show ?thesis unfolding e Some k'(1) using False q' b(3) by (auto simp: handled_def Let_def)
      next
        case True
        obtain out p'' q' where a: "acceptData netcmp (fst (snd ticks)) (snd (snd ticks)) addr port idx (slot_put p s k') s buf q =
            Some (out, p'', q')" "handled U B q p'' q'"
          using accept_ok [OF p' put buf b(2)] by blast
        have "A \<subseteq> B" "(idx, n) \<notin> A" "(idx, n) \<in> B" using True by (auto simp: B_def)
        then show ?thesis unfolding e Some k'(1) using True a b(3)
          by (intro exI [of _ out] exI [of _ True] exI [of _ p''] exI [of _ q'] exI [of _ B]) (simp add: handled_def Let_def)
      qed
    qed
  qed
qed

lemma run_ok:
  assumes "sessions_ok U A p" "pool_ok pool" "aead_sized aead" "distinct starts" "set starts \<inter> U = {}"
    "starts = concat (map (\<lambda>e. case e of StartEvent li _ _ _ _ \<Rightarrow> [li] | _ \<Rightarrow> []) es)"
    "\<forall>e\<in>set es. case e of DataEvent _ n c _ _ _ \<Rightarrow> n < UINT32_MAX \<and> sbuf_fits (length c - 16) (bufferpoolGetLargeBufferPadding pool) | _ \<Rightarrow> True"
  shows "\<exists>acc. wg_run kdf2 aead netcmp conn p pool es = Some acc \<and> distinct acc \<and> set acc \<inter> A = {}"
  using assms
proof (induction es arbitrary: U A p pool conn starts)
  case (Cons e es)
  let ?tail = "concat (map (\<lambda>e. case e of StartEvent li _ _ _ _ \<Rightarrow> [li] | _ \<Rightarrow> []) es)"
  have tail: "\<forall>e\<in>set es. case e of DataEvent _ n c _ _ _ \<Rightarrow> n < UINT32_MAX \<and> sbuf_fits (length c - 16) (bufferpoolGetLargeBufferPadding pool) | _ \<Rightarrow> True"
    using Cons.prems(7) by simp
  show ?case
  proof (cases e)
    case (StartEvent li ri i now ck)
    then have st: "li \<notin> U" "distinct ?tail" "set ?tail \<inter> insert li U = {}" using Cons.prems(4-6) by auto
    show ?thesis
      using Cons.IH [OF sessions_start [OF Cons.prems(1) st(1)] Cons.prems(2,3) st(2,3) refl tail] StartEvent by simp
  next
    case (DataEvent idx n c ticks addr port)
    have st: "distinct ?tail" "set ?tail \<inter> U = {}" using Cons.prems(4-6) DataEvent by auto
    show ?thesis
    proof (cases "getPeerKeypairForIdx p idx")
      case None
      then show ?thesis using Cons.IH [OF Cons.prems(1-3) st refl tail] DataEvent by simp
    next
      case (Some s)
      have d: "n < UINT32_MAX" "sbuf_fits (length c - 16) (bufferpoolGetLargeBufferPadding pool)"
        using Cons.prems(7) DataEvent by auto
      obtain out conn' p' q B where r: "wireguardifProcessDataMessage aead netcmp ticks conn p idx n c addr port pool =
          Some (out, conn', p', q)" "handled U B pool p' q" "A \<subseteq> B" "out \<noteq> None \<longrightarrow> (idx, n) \<notin> A \<and> (idx, n) \<in> B"
        using process_ok [OF Cons.prems(1) _ d(1) Cons.prems(2) d(2) Cons.prems(3)] Some by blast
      have h: "sessions_ok U B p'" "pool_ok q" "bufferpoolGetLargeBufferPadding q = bufferpoolGetLargeBufferPadding pool"
        using r(2) by (auto simp: handled_def pool_geometry_def tier_geometry_def bufferpoolGetLargeBufferPadding_def)
      obtain acc where acc: "wg_run kdf2 aead netcmp conn' p' q es = Some acc" "distinct acc" "set acc \<inter> B = {}"
        using Cons.IH [OF h(1,2) Cons.prems(3) st refl] tail unfolding h(3) by blast
      have "wg_run kdf2 aead netcmp conn p pool (e # es) = Some ((if out = None then [] else [(idx, n)]) @ acc)"
        using DataEvent Some r(1) acc(1) by simp
      moreover have "distinct ((if out = None then [] else [(idx, n)]) @ acc)" using acc(2,3) r(4) by auto
      moreover have "set ((if out = None then [] else [(idx, n)]) @ acc) \<inter> A = {}" using acc(3) r(3,4) by auto
      ultimately show ?thesis by blast
    qed
  qed
qed simp

section \<open>Longest prefix\<close>

text \<open>Subtracting one and masking clears exactly the lowest set bit.\<close>

lemma clear_low_bit:
  fixes v :: "32 word"
  assumes n: "bit v n" and low: "\<forall>i<n. \<not> bit v i"
  shows "bit (v AND (v - 1)) i \<longleftrightarrow> bit v i \<and> i \<noteq> n"
proof -
  let ?u = "unat v"
  have u: "bit v j \<longleftrightarrow> odd (?u div 2 ^ j)" for j by (simp add: bit_unsigned_iff flip: bit_iff_odd)
  have "v \<noteq> 0" using n by auto
  then have u1: "bit (v - 1) j \<longleftrightarrow> odd ((?u - 1) div 2 ^ j)" for j
    using bit_unsigned_iff [of "v - 1" j, where ?'a = nat] bit_imp_le_length [of "v - 1" j]
    by (auto simp: unat_minus_one simp flip: bit_iff_odd)
  have "bit ?u j \<longleftrightarrow> bit v j" for j by (simp add: bit_unsigned_iff)
  then have "take_bit n ?u = 0" using low by (intro bit_eqI) (simp add: bit_take_bit_iff)
  then have "?u = 2 ^ n * (?u div 2 ^ n)" by (simp add: take_bit_eq_mod) (metis add.right_neutral mult_div_mod_eq)
  moreover obtain m where "?u div 2 ^ n = 2 * m + 1" using n u oddE by metis
  ultimately have um: "?u = 2 ^ Suc n * m + 2 ^ n" by (simp add: algebra_simps)
  have um1: "?u - 1 = 2 ^ Suc n * m + (2 ^ n - 1)" using um by simp
  show ?thesis
  proof (cases "i \<le> n")
    case True
    have "2 ^ Suc n * m + (2 ^ n - 1) = 2 ^ n * (2 * m) + (2 ^ n - 1)" by simp
    then have "(?u - 1) div 2 ^ n = 2 * m + (2 ^ n - 1) div 2 ^ n" unfolding um1 by (simp only: div_mult_self4 power_not_zero zero_neq_numeral not_False_eq_True)
    then have "(?u - 1) div 2 ^ n = 2 * m" by simp
    then have "\<not> bit (v - 1) n" by (simp add: u1)
    then show ?thesis using True low by (cases "i = n") (auto simp: bit_and_iff)
  next
    case False
    then have "i = Suc n + (i - Suc n)" by simp
    then have p: "(2 :: nat) ^ i = 2 ^ Suc n * 2 ^ (i - Suc n)" using power_add [of 2 "Suc n" "i - Suc n"] by metis
    have "?u div 2 ^ Suc n = m" unfolding um by simp
    moreover have "(?u - 1) div 2 ^ Suc n = m + (2 ^ n - 1) div 2 ^ Suc n"
      unfolding um1 by (simp only: div_mult_self4 power_not_zero zero_neq_numeral not_False_eq_True)
    moreover have "(2 ^ n - 1 :: nat) div 2 ^ Suc n = 0" by (rule div_less) (simp add: less_imp_diff_less)
    ultimately have "?u div 2 ^ i = (?u - 1) div 2 ^ i" unfolding p div_mult2_eq by simp
    then show ?thesis using False by (simp add: u u1 bit_and_iff)
  qed
qed

definition popcount :: "32 word \<Rightarrow> nat" where
  "popcount v = card {i. bit v i}"

lemma popcount_le: "popcount v \<le> 32" and finite_bits: "finite {i. bit (v :: 32 word) i}"
proof -
  have s: "{i. bit v i} \<subseteq> {..<32}" using bit_imp_le_length [of v] by auto
  then show "finite {i. bit v i}" by (rule finite_subset) simp
  show "popcount v \<le> 32" using card_mono [OF _ s] by (simp add: popcount_def)
qed

lemma count_bits: "wireguarddeviceCountMaskBits32 v = popcount v"
proof (induction v rule: wireguarddeviceCountMaskBits32.induct)
  case (1 v)
  show ?case
  proof (cases "v = 0")
    case True
    then show ?thesis by (simp add: wireguarddeviceCountMaskBits32.simps popcount_def)
  next
    case False
    then obtain j where "bit v j" using bit_eqI [of v 0] by auto
    define n where "n = (LEAST i. bit v i)"
    have n: "bit v n" "\<forall>i<n. \<not> bit v i" unfolding n_def using \<open>bit v j\<close> not_less_Least by (auto intro: LeastI)
    have "{i. bit v i} = insert n {i. bit (v AND (v - 1)) i}" using clear_low_bit [OF n] n(1) by auto
    moreover have "n \<notin> {i. bit (v AND (v - 1)) i}" using clear_low_bit [OF n] by simp
    ultimately have "popcount v = Suc (popcount (v AND (v - 1)))"
      using finite_bits [of "v AND (v - 1)"] by (simp add: popcount_def)
    then show ?thesis using 1 [OF False] False popcount_le [of v]
      by (subst wireguarddeviceCountMaskBits32.simps) simp
  qed
qed

fun mask_bits :: "ip_addr \<Rightarrow> nat" where
  "mask_bits (IpV4 m) = popcount m"
| "mask_bits (IpV6 ms) = sum_list (map popcount ms)"

definition mask_ok :: "wireguard_allowed_ip \<Rightarrow> bool" where
  "mask_ok a \<longleftrightarrow> (case ai_mask a of IpV6 ms \<Rightarrow> length ms = 4 | _ \<Rightarrow> True)"

lemma prefix_bits:
  assumes "wireguarddeviceAllowedIpMatches netcmp a addr" "mask_ok a"
  shows "wireguarddeviceAllowedIpPrefixBits a = mask_bits (ai_mask a)"
proof (cases "ai_mask a")
  case (IpV4 m)
  then show ?thesis using assms(1) by (simp add: wireguarddeviceAllowedIpPrefixBits_def wireguarddeviceAllowedIpMatches_def count_bits split: if_splits)
next
  case (IpV6 ms)
  then have "length ms = 4" using assms(2) by (simp add: mask_ok_def)
  then obtain a1 b1 c1 d1 where ms: "ms = [a1, b1, c1, d1]" by (auto simp: length_Suc_conv eval_nat_numeral)
  then show ?thesis
    using assms(1) IpV6 popcount_le [of a1] popcount_le [of b1] popcount_le [of c1] popcount_le [of d1]
    by (simp add: wireguarddeviceAllowedIpPrefixBits_def wireguarddeviceAllowedIpMatches_def count_bits split: if_splits)
qed

text \<open>The best of the entries seen so far, each an index with its prefix length.\<close>

definition best_of :: "(nat \<times> nat) set \<Rightarrow> nat option \<times> nat \<Rightarrow> bool" where
  "best_of M best \<longleftrightarrow> (case best of (None, _) \<Rightarrow> M = {} | (Some x, b) \<Rightarrow> (x, b) \<in> M \<and> (\<forall>(y, c)\<in>M. c \<le> b))"

lemma entries_best:
  assumes "best_of M best" "\<forall>a\<in>set as. mask_ok a"
  shows "best_of (M \<union> {(x, mask_bits (ai_mask a)) | a. a \<in> set as \<and> wireguarddeviceAllowedIpMatches netcmp a addr})
    (lookupEntries netcmp addr x as best)"
  using assms
proof (induction as arbitrary: M best)
  case (Cons a as)
  obtain r b where best: "best = (r, b)" by (cases best)
  let ?rest = "{(x, mask_bits (ai_mask a)) | a. a \<in> set as \<and> wireguarddeviceAllowedIpMatches netcmp a addr}"
  let ?hit = "wireguarddeviceAllowedIpMatches netcmp a addr" and ?n = "mask_bits (ai_mask a)"
  have all: "{(x, mask_bits (ai_mask c)) | c. c \<in> set (a # as) \<and> wireguarddeviceAllowedIpMatches netcmp c addr} =
      (if ?hit then insert (x, ?n) ?rest else ?rest)" by auto
  have rest: "\<forall>a\<in>set as. mask_ok a" using Cons.prems(2) by simp
  show ?case
  proof (cases ?hit)
    case False
    then show ?thesis unfolding all best using Cons.IH [OF Cons.prems(1) rest] best by simp
  next
    case True
    let ?new = "if r = None \<or> ?n > b then (Some x, ?n) else (r, b)"
    have "best_of (insert (x, ?n) M) ?new" using Cons.prems(1) unfolding best best_of_def by (auto split: option.splits)
    from Cons.IH [OF this rest] show ?thesis
      unfolding all best using True prefix_bits [OF True] Cons.prems(2) by (auto simp: Let_def split: if_splits)
  qed
qed simp

lemma peers_best:
  assumes "best_of M best" "\<forall>p\<in>set ps. \<forall>a\<in>set (allowed_source_ips p). mask_ok a"
  shows "best_of (M \<union> {(x + i, mask_bits (ai_mask a)) | i a. i < length ps \<and> peer_valid (ps ! i) \<and>
      a \<in> set (allowed_source_ips (ps ! i)) \<and> wireguarddeviceAllowedIpMatches netcmp a addr})
    (lookupPeers netcmp addr x ps best)"
  using assms
proof (induction ps arbitrary: M best x)
  case (Cons p ps)
  let ?E = "{(x, mask_bits (ai_mask a)) | a. a \<in> set (allowed_source_ips p) \<and> wireguarddeviceAllowedIpMatches netcmp a addr}"
  let ?R = "{(x + 1 + i, mask_bits (ai_mask a)) | i a. i < length ps \<and> peer_valid (ps ! i) \<and>
      a \<in> set (allowed_source_ips (ps ! i)) \<and> wireguarddeviceAllowedIpMatches netcmp a addr}"
  let ?first = "if peer_valid p then M \<union> ?E else M"
  have all: "M \<union> {(x + i, mask_bits (ai_mask a)) | i a. i < length (p # ps) \<and> peer_valid ((p # ps) ! i) \<and>
      a \<in> set (allowed_source_ips ((p # ps) ! i)) \<and> wireguarddeviceAllowedIpMatches netcmp a addr} = ?first \<union> ?R"
    (is "M \<union> ?A = _")
  proof -
    have "z \<in> ?A \<longleftrightarrow> peer_valid p \<and> z \<in> ?E \<or> z \<in> ?R" for z
      using Ex_less_Suc2 [of "length ps" "\<lambda>i. peer_valid ((p # ps) ! i) \<and> (\<exists>a. z = (x + i, mask_bits (ai_mask a)) \<and>
        a \<in> set (allowed_source_ips ((p # ps) ! i)) \<and> wireguarddeviceAllowedIpMatches netcmp a addr)"] by auto
    then have "z \<in> ?A \<longleftrightarrow> z \<in> (if peer_valid p then ?E \<union> ?R else ?R)" for z by (cases "peer_valid p") (simp_all only: Un_iff simp_thms if_True if_False)
    then have "?A = (if peer_valid p then ?E \<union> ?R else ?R)" by (rule set_eqI)
    then show ?thesis by (cases "peer_valid p") (simp_all only: if_True if_False Un_assoc)
  qed
  have "best_of ?first (if \<not> peer_valid p then best else lookupEntries netcmp addr x (allowed_source_ips p) best)"
    using entries_best [OF Cons.prems(1), of "allowed_source_ips p" x netcmp addr] Cons.prems by simp
  from Cons.IH [OF this, of "x + 1"] show ?case unfolding all using Cons.prems(2) by simp
qed simp

section \<open>Properties\<close>

text \<open>C34. The replay window is exact: under one key, a packet is accepted exactly when its counter was not
  accepted before and is less than 32 below every accepted counter, in whatever order the packets
  arrive. In particular no counter is accepted twice. The counters range over the first
  4,294,967,295 of a key, which are those below \<open>2 ^ 32 - 1\<close>.\<close>

theorem wireguard_replay_exact:
  assumes "\<forall>n\<in>set ns. n < UINT32_MAX" "i < length ns"
  shows "replay_run zero_keypair ns ! i \<longleftrightarrow>
    (\<forall>j<i. replay_run zero_keypair ns ! j \<longrightarrow> ns ! i \<noteq> ns ! j \<and> ns ! j < ns ! i + 32)"
proof -
  have k: "window_ok zero_keypair {}" "window_top zero_keypair {}"
    by (simp_all add: window_zero window_top_def zero_keypair_def)
  show ?thesis
    unfolding replay_run_eq [OF k assms(1)] replay_spec_nth [OF assms(2), of "{}"] by auto
qed

theorem wireguard_replay_exact_witness:
  "replay_run zero_keypair [5, 3, 5, 40, 3] = [True, True, False, True, False]"
proof -
  have "replay_run zero_keypair [5, 3, 5, 40, 3] ! 4 \<longleftrightarrow>
      (\<forall>j<4. replay_run zero_keypair [5, 3, 5, 40, 3] ! j \<longrightarrow> [5, 3, 5, 40, 3] ! 4 \<noteq> ([5, 3, 5, 40, 3] :: nat list) ! j \<and>
        ([5, 3, 5, 40, 3] :: nat list) ! j < [5, 3, 5, 40, 3] ! 4 + 32)"
    by (rule wireguard_replay_exact) auto
  then show ?thesis
    by (simp add: wireguardCheckReplay_def zero_keypair_def u64_def u32_def sub64_def Let_def)
qed

text \<open>C2. No inner packet is passed on twice while a session stays below its 4,294,967,296th packet. A peer starts without
  keys and goes through any sessions, started with pairwise different indices, and any transport data with counters below
  4,294,967,295. Decryption returns a plaintext shorter by the tag, and the pool can supply a buffer for it. Then, however the
  keys move between the current, next and previous slot, handling never aborts, and no pair of session index and counter is
  forwarded more than once. Without the bound on the counters this is false: the window computes the distance of a counter
  in 32 bits, and once a counter \<open>2 ^ 32\<close> further on was seen an old one is accepted again (\<open>replay_accepts_twice\<close>).\<close>

theorem wireguard_no_replay:
  assumes "pool_ok pool" "aead_sized aead"
    "distinct (concat (map (\<lambda>e. case e of StartEvent li _ _ _ _ \<Rightarrow> [li] | _ \<Rightarrow> []) es))"
    "\<forall>e\<in>set es. case e of DataEvent _ n c _ _ _ \<Rightarrow> n < UINT32_MAX \<and> sbuf_fits (length c - 16) (bufferpoolGetLargeBufferPadding pool) | _ \<Rightarrow> True"
    "curr_keypair p = zero_keypair" "next_keypair p = zero_keypair" "prev_keypair p = zero_keypair"
  shows "\<exists>forwarded. wg_run kdf2 aead netcmp conn p pool es = Some forwarded \<and> distinct forwarded"
proof -
  have "slot_get p s = zero_keypair" for s using assms(5-7) by (cases s) simp_all
  then have "sessions_ok {} {} p" by (simp add: sessions_ok_def zero_keypair_def)
  from run_ok [OF this assms(1,2,3) _ refl assms(4)] show ?thesis by auto
qed

definition sample_peer :: wireguard_peer where
  "sample_peer = \<lparr>peer_valid = True, peer_ip = IpV4 0, peer_port = 0, keepalive_interval = 0,
     allowed_source_ips = [\<lparr>ai_valid = True, ai_ip = IpV4 10, ai_mask = IpV4 255\<rparr>], curr_keypair = zero_keypair,
     prev_keypair = zero_keypair, next_keypair = zero_keypair, handshake = zero_handshake, pending_handshake = zero_pending,
     peer_last_rx = 0, send_handshake = False\<rparr>"

definition sample_netcmp :: "ip_addr \<Rightarrow> ip_addr \<Rightarrow> ip_addr \<Rightarrow> bool" where
  "sample_netcmp a b m = (case (a, b, m) of (IpV4 x, IpV4 y, IpV4 z) \<Rightarrow> x AND z = y AND z | _ \<Rightarrow> False)"

definition sample_aead :: "byte list \<Rightarrow> nat \<Rightarrow> byte list \<Rightarrow> byte list option" where
  "sample_aead key n c = Some (drop 16 c)"

definition sample_inner :: "byte list" where
  "sample_inner = [69, 0, 0, 20, 0, 0, 0, 0, 64, 17, 0, 0, 10, 0, 0, 1, 10, 0, 0, 2]"

definition sample_data :: wg_event where
  "sample_data = DataEvent 7 0 (replicate 16 0 @ sample_inner) (1, 1, 1) (IpV4 1) 53"

text \<open>The first copy of the sample packet is forwarded, the second one is not.\<close>

lemma sample_inner_forwarded:
  assumes "sbuf_ok b" "payload b = sample_inner" "allowed_source_ips p = allowed_source_ips sample_peer"
  shows "\<exists>out. forwardInner sample_netcmp p b pool = Some (Some out, pool)"
proof -
  have len: "sb_len b = 20" using assms(1,2) length_payload [OF assms(1)] by (simp add: sample_inner_def)
  have "wireguarddeviceGetPlaintextPacketMetadata b = Some (Some (IpV4 (word_at sample_inner 12), 20))"
    using assms(1,2) len
    by (simp add: wireguarddeviceGetPlaintextPacketMetadata_def sbufGetLength_def sbufRead_eq Let_def sample_inner_def
        be16_def)
  moreover have "word_at sample_inner 12 = 16777226" by (simp add: word_at_def sample_inner_def)
  ultimately show ?thesis using len assms(1,3) sbuf_okD [OF assms(1)]
    by (simp add: forwardInner_def sbufGetLength_def wireguarddeviceCheckPeerAllowedIp_def sample_peer_def
        wireguarddeviceAllowedIpMatches_def sample_netcmp_def sbufSetLength_eq)
qed

lemma sample_decrypt:
  assumes "pool_ok pool" "pool_geometry pool = pool_geometry sample_pool"
  shows "\<exists>b q. wireguarddeviceDecryptTransportPayload sample_aead pool (replicate 16 0 @ sample_inner) 0 k = Some (Some b, q) \<and>
    pool_ok q \<and> pool_geometry q = pool_geometry sample_pool \<and> sbuf_ok b \<and> payload b = sample_inner"
proof -
  have "sbuf_fits 20 (bufferpoolGetLargeBufferPadding sample_pool)"
    by (simp add: bufferpoolGetLargeBufferPadding_def sample_pool_def Let_def new_tier_def sbuf_fits_def round_up_def)
  moreover have "bufferpoolGetLargeBufferPadding pool = bufferpoolGetLargeBufferPadding sample_pool"
    using assms(2) by (simp add: pool_geometry_def tier_geometry_def bufferpoolGetLargeBufferPadding_def)
  ultimately show ?thesis
    using decrypt_payload [OF assms(1), of "replicate 16 0 @ sample_inner" sample_aead k 0 sample_inner] assms(2)
    by (simp add: sample_aead_def sample_inner_def)
qed

text \<open>The sample peer after the session has started, and after the first packet.\<close>

definition started_keypair :: wireguard_keypair where
  "started_keypair = zero_keypair\<lparr>kp_initiator := True, local_index := 7, remote_index := 9, sending_valid := True,
     receiving_valid := True, sending_key := [1], receiving_key := [1], kp_valid := True\<rparr>"

definition started_peer :: wireguard_peer where
  "started_peer = sample_peer\<lparr>curr_keypair := started_keypair\<rparr>"

definition used_peer :: wireguard_peer where
  "used_peer = sample_peer\<lparr>curr_keypair := started_keypair\<lparr>replay_bitmap := 1, replay_counter := 1, kp_last_rx := 1\<rparr>,
     peer_ip := IpV4 1, peer_port := 53, peer_last_rx := 1\<rparr>"

lemma sample_slots:
  "getPeerKeypairForIdx started_peer 7 = Some CurrKeypair" "getPeerKeypairForIdx used_peer 7 = Some CurrKeypair"
  "\<not> wireguardExpired 1 (keypair_millis started_keypair) REJECT_AFTER_TIME" "receiving_valid started_keypair"
  by (simp_all add: getPeerKeypairForIdx_def started_peer_def used_peer_def started_keypair_def wireguardExpired_def
      zero_keypair_def sub32_def u32_def REJECT_AFTER_TIME_def)

lemma sample_first:
  "\<exists>out q. wireguardifProcessDataMessage sample_aead sample_netcmp (1, 1, 1) False started_peer 7 0
      (replicate 16 0 @ sample_inner) (IpV4 1) 53 sample_pool = Some (Some out, True, used_peer, q) \<and>
    pool_ok q \<and> pool_geometry q = pool_geometry sample_pool"
proof -
  let ?k = "started_keypair\<lparr>replay_bitmap := 1, replay_counter := 1\<rparr>"
  obtain b q where b: "wireguarddeviceDecryptTransportPayload sample_aead sample_pool (replicate 16 0 @ sample_inner) 0
      started_keypair = Some (Some b, q)" "pool_ok q" "pool_geometry q = pool_geometry sample_pool" "sbuf_ok b"
    "payload b = sample_inner"
    using sample_decrypt [OF sample_pool_ok refl] by blast
  have "allowed_source_ips used_peer = allowed_source_ips sample_peer" by (simp add: used_peer_def)
  from sample_inner_forwarded [OF b(4,5) this, of q] obtain out
    where "forwardInner sample_netcmp used_peer b q = Some (Some out, q)" by blast
  moreover have "noteReceipt 1 (IpV4 1) 53 7 (started_peer\<lparr>curr_keypair := ?k\<rparr>) CurrKeypair = used_peer"
    by (simp add: noteReceipt_def Let_def updatePeerAddr_def keypairUpdate_def started_peer_def used_peer_def sample_peer_def
        zero_pending_def)
  moreover have "\<not> wireguardExpired 1 (keypair_millis (curr_keypair used_peer))
      (sub32 (sub32 REJECT_AFTER_TIME (keepalive_interval used_peer)) REKEY_TIMEOUT)"
    by (simp add: wireguardExpired_def sub32_def u32_def REJECT_AFTER_TIME_def REKEY_TIMEOUT_def used_peer_def
        started_keypair_def zero_keypair_def sample_peer_def)
  ultimately have "acceptData sample_netcmp 1 1 (IpV4 1) 53 7 (started_peer\<lparr>curr_keypair := ?k\<rparr>) CurrKeypair b q =
      Some (Some out, used_peer, q)"
    using sample_slots(2) by (simp add: acceptData_def Let_def)
  moreover have "wireguardCheckReplay started_keypair 0 = (True, ?k)"
    by (simp add: wireguardCheckReplay_def started_keypair_def zero_keypair_def u64_def u32_def sub64_def Let_def)
  moreover have "curr_keypair started_peer = started_keypair" by (simp add: started_peer_def)
  ultimately show ?thesis using b sample_slots
    by (simp add: wireguardifProcessDataMessage_def Let_def REJECT_AFTER_MESSAGES_def)
qed

lemma sample_second:
  assumes "pool_ok q" "pool_geometry q = pool_geometry sample_pool"
  shows "\<exists>p' q'. wireguardifProcessDataMessage sample_aead sample_netcmp (1, 1, 1) True used_peer 7 0
      (replicate 16 0 @ sample_inner) (IpV4 1) 53 q = Some (None, True, p', q')"
proof -
  obtain b q' where b: "wireguarddeviceDecryptTransportPayload sample_aead q (replicate 16 0 @ sample_inner) 0
      (curr_keypair used_peer) = Some (Some b, q')" "pool_ok q'" "sbuf_ok b"
    using sample_decrypt [OF assms] by blast
  obtain q'' where "bufferpoolReuseBuffer q' b = Some q''" using reuse_ok [OF b(2,3)] by blast
  moreover have "wireguardCheckReplay (curr_keypair used_peer) 0 = (False, curr_keypair used_peer)"
    by (simp add: wireguardCheckReplay_def used_peer_def u64_def u32_def sub64_def Let_def)
  moreover have "\<not> wireguardExpired 1 (keypair_millis (curr_keypair used_peer)) REJECT_AFTER_TIME"
    "receiving_valid (curr_keypair used_peer)"
    using sample_slots(3,4) by (simp_all add: used_peer_def)
  ultimately show ?thesis using b(1) sample_slots(2)
    by (simp add: wireguardifProcessDataMessage_def Let_def REJECT_AFTER_MESSAGES_def)
qed

lemma sample_run:
  "wg_run (\<lambda>ck. Some (ck, ck)) sample_aead sample_netcmp False sample_peer sample_pool
    [StartEvent 7 9 True 0 [1], sample_data, sample_data] = Some [(7, 0)]"
proof -
  have start: "snd (wireguardStartSession (\<lambda>ck. Some (ck, ck)) 0 (sample_peer\<lparr>handshake := \<lparr>hs_valid = True,
      hs_initiator = True, hs_local_index = 7, hs_remote_index = 9, chaining_key = [1]\<rparr>\<rparr>) True) = started_peer"
    by (simp add: wireguardStartSession_def Let_def addNewKeypair_def sample_peer_def zero_keypair_def started_peer_def
        started_keypair_def)
  obtain out q where one: "wireguardifProcessDataMessage sample_aead sample_netcmp (1, 1, 1) False started_peer 7 0
      (replicate 16 0 @ sample_inner) (IpV4 1) 53 sample_pool = Some (Some out, True, used_peer, q)"
      "pool_ok q" "pool_geometry q = pool_geometry sample_pool" using sample_first by blast
  from sample_second [OF one(2,3)] show ?thesis using start one(1) sample_slots(1,2) by (auto simp: sample_data_def)
qed

theorem wireguard_no_replay_witness:
  "wg_run (\<lambda>ck. Some (ck, ck)) sample_aead sample_netcmp False sample_peer sample_pool
    [StartEvent 7 9 True 0 [1], sample_data, sample_data] = Some [(7, 0)] \<and> distinct [(7 :: nat, 0 :: nat)]"
proof -
  have "aead_sized sample_aead" by (simp add: aead_sized_def sample_aead_def)
  moreover have "sbuf_fits 20 (bufferpoolGetLargeBufferPadding sample_pool)"
    by (simp add: bufferpoolGetLargeBufferPadding_def sample_pool_def Let_def new_tier_def sbuf_fits_def round_up_def)
  ultimately have "\<exists>forwarded. wg_run (\<lambda>ck. Some (ck, ck)) sample_aead sample_netcmp False sample_peer sample_pool
      [StartEvent 7 9 True 0 [1], sample_data, sample_data] = Some forwarded \<and> distinct forwarded"
    by (intro wireguard_no_replay sample_pool_ok) (simp_all add: sample_peer_def sample_data_def sample_inner_def)
  then show ?thesis unfolding sample_run by simp
qed

text \<open>C35. The peer for an address is the one with the longest matching prefix among the allowed addresses
  of all valid peers, counted in set bits of the mask; no peer is found exactly when none matches.\<close>

theorem wireguard_longest_prefix:
  assumes "\<forall>p\<in>set peers. \<forall>a\<in>set (allowed_source_ips p). mask_ok a"
  shows "case wireguarddevicePeerLookupByAllowedIp netcmp peers addr of
      None \<Rightarrow> \<forall>p\<in>set peers. peer_valid p \<longrightarrow> \<not> wireguarddeviceCheckPeerAllowedIp netcmp p addr
    | Some x \<Rightarrow> x < length peers \<and> peer_valid (peers ! x) \<and>
        (\<exists>a\<in>set (allowed_source_ips (peers ! x)). wireguarddeviceAllowedIpMatches netcmp a addr \<and>
          (\<forall>p\<in>set peers. peer_valid p \<longrightarrow> (\<forall>b\<in>set (allowed_source_ips p).
            wireguarddeviceAllowedIpMatches netcmp b addr \<longrightarrow> mask_bits (ai_mask b) \<le> mask_bits (ai_mask a))))"
proof -
  let ?M = "{(0 + i, mask_bits (ai_mask a)) | i a. i < length peers \<and> peer_valid (peers ! i) \<and>
      a \<in> set (allowed_source_ips (peers ! i)) \<and> wireguarddeviceAllowedIpMatches netcmp a addr}"
  have start: "best_of {} (None, 0)" by (simp add: best_of_def)
  have best: "best_of ?M (lookupPeers netcmp addr 0 peers (None, 0))" using peers_best [OF start assms, of 0] by simp
  have all: "(i, mask_bits (ai_mask b)) \<in> ?M"
    if "i < length peers" "peer_valid (peers ! i)" "b \<in> set (allowed_source_ips (peers ! i))" "wireguarddeviceAllowedIpMatches netcmp b addr" for i b
    using that by auto
  obtain r n where r: "lookupPeers netcmp addr 0 peers (None, 0) = (r, n)" by (cases "lookupPeers netcmp addr 0 peers (None, 0)")
  show ?thesis
  proof (cases r)
    case None
    then have "?M = {}" using best r by (simp add: best_of_def)
    then show ?thesis using None r
      by (auto simp: wireguarddevicePeerLookupByAllowedIp_def wireguarddeviceCheckPeerAllowedIp_def list_ex_iff in_set_conv_nth) blast
  next
    case (Some x)
    then have x: "(x, n) \<in> ?M" "\<And>y c. (y, c) \<in> ?M \<Longrightarrow> c \<le> n" using best r by (auto simp: best_of_def)
    from x(1) obtain a where a: "x < length peers" "peer_valid (peers ! x)" "a \<in> set (allowed_source_ips (peers ! x))"
      "wireguarddeviceAllowedIpMatches netcmp a addr" "n = mask_bits (ai_mask a)" by auto
    have "mask_bits (ai_mask b) \<le> mask_bits (ai_mask a)"
      if "p \<in> set peers" "peer_valid p" "b \<in> set (allowed_source_ips p)" "wireguarddeviceAllowedIpMatches netcmp b addr" for p b
      using x(2) [OF all] that a(5) by (auto simp: in_set_conv_nth)
    then show ?thesis using a Some r by (auto simp: wireguarddevicePeerLookupByAllowedIp_def)
  qed
qed

theorem wireguard_longest_prefix_witness:
  "\<exists>a\<in>set (allowed_source_ips sample_peer). wireguarddevicePeerLookupByAllowedIp sample_netcmp [sample_peer] (IpV4 266) = Some 0 \<and>
    wireguarddeviceAllowedIpMatches sample_netcmp a (IpV4 266)"
proof -
  have "\<forall>p\<in>set [sample_peer]. \<forall>a\<in>set (allowed_source_ips p). mask_ok a" by (simp add: sample_peer_def mask_ok_def)
  from wireguard_longest_prefix [OF this, of sample_netcmp "IpV4 266"] show ?thesis
    by (simp add: wireguarddevicePeerLookupByAllowedIp_def sample_peer_def wireguarddeviceAllowedIpMatches_def sample_netcmp_def
        wireguarddeviceAllowedIpPrefixBits_def)
qed

end
