(* ===== verification/Socks_Address.thy ===== *)
theory Socks_Address
  imports WW_Prelude
begin

text \<open>
  The address codec shared by the SOCKS and Trojan tunnels
  (\<open>src/tunnels/Internals/SocksAddress/src/address_codec.c\<close>): an address type, four or sixteen address
  bytes or a counted name, and a port in network order. Decoding is incremental, so an incomplete
  address is a verdict of its own. The wire is a byte memory and reads or writes outside it are cut off.
\<close>

section \<open>The codec\<close>

definition kSocksAddressIpv4 :: byte where "kSocksAddressIpv4 = 1"
definition kSocksAddressDomain :: byte where "kSocksAddressDomain = 3"
definition kSocksAddressIpv6 :: byte where "kSocksAddressIpv6 = 4"
definition kSocksAddressMaxEncoded :: nat where "kSocksAddressMaxEncoded = 259"

lemmas socks_consts = kSocksAddressIpv4_def kSocksAddressDomain_def kSocksAddressIpv6_def

datatype socks_address_result = SocksAddressInvalid | SocksAddressNeedMore | SocksAddressComplete

record socks_address =
  sa_port :: nat
  sa_length :: nat
  sa_consumed :: nat
  sa_kind :: byte
  sa_bytes :: "byte list"

definition socksAddressEncodedLength :: "socks_address \<Rightarrow> nat" where
  "socksAddressEncodedLength address =
     (if sa_kind address = kSocksAddressIpv4 then if sa_length address = 4 then 7 else 0
      else if sa_kind address = kSocksAddressIpv6 then if sa_length address = 16 then 19 else 0
      else if sa_kind address = kSocksAddressDomain then
        if sa_length address > 0 \<and> sa_length address \<le> UINT8_MAX then sa_length address + 4 else 0
      else 0)"

text \<open>The switch on the type: the address length and where the address starts, or an early verdict.\<close>

definition addressGeometry :: "byte list \<Rightarrow> nat \<Rightarrow> byte \<Rightarrow> (socks_address_result + nat \<times> nat) option" where
  "addressGeometry wire len kind =
     (if kind = kSocksAddressIpv4 then Some (Inr (4, 1))
      else if kind = kSocksAddressIpv6 then Some (Inr (16, 1))
      else if kind = kSocksAddressDomain then
        if len < 2 then Some (Inl SocksAddressNeedMore)
        else do {
          n \<leftarrow> rd8 wire 1;
          if n = 0 then Some (Inl SocksAddressInvalid) else Some (Inr (unat n, 2))
        }
      else Some (Inl SocksAddressInvalid))"

definition socksAddressDecode :: "byte list \<Rightarrow> nat \<Rightarrow> (socks_address_result \<times> socks_address option) option" where
  "socksAddressDecode wire len =
     (if len = 0 then Some (SocksAddressNeedMore, None)
      else do {
        kind \<leftarrow> rd8 wire 0;
        geometry \<leftarrow> addressGeometry wire len kind;
        case geometry of
          Inl verdict \<Rightarrow> Some (verdict, None)
        | Inr (n, offset) \<Rightarrow> do {
            let required = offset + n + 2;
            if len < required then Some (SocksAddressNeedMore, None)
            else do {
              xs \<leftarrow> mem_read wire offset n;
              bytes \<leftarrow> mem_write (replicate 255 0) 0 xs;
              port \<leftarrow> rd_be16 wire (required - 2);
              Some (SocksAddressComplete, Some \<lparr>sa_port = port, sa_length = n, sa_consumed = u16 required,
                sa_kind = kind, sa_bytes = bytes\<rparr>)
            }
          }
      })"

text \<open>The bytes before the address, and where the address starts.\<close>

definition encodePrefix :: "socks_address \<Rightarrow> byte list \<Rightarrow> (byte list \<times> nat) option" where
  "encodePrefix address wire = do {
     wire \<leftarrow> mem_write wire 0 [sa_kind address];
     if sa_kind address = kSocksAddressDomain
     then do { wire \<leftarrow> mem_write wire 1 [word_of_nat (sa_length address)]; Some (wire, 2) }
     else Some (wire, 1)
   }"

definition socksAddressEncode :: "socks_address \<Rightarrow> byte list \<Rightarrow> nat \<Rightarrow> (bool \<times> byte list \<times> nat option) option" where
  "socksAddressEncode address wire capacity = do {
     let len = socksAddressEncodedLength address;
     if len = 0 \<or> capacity < len then Some (False, wire, None)
     else do {
       (wire, offset) \<leftarrow> encodePrefix address wire;
       xs \<leftarrow> mem_read (sa_bytes address) 0 (sa_length address);
       wire \<leftarrow> mem_write wire offset xs;
       wire \<leftarrow> mem_write wire (len - 2) [word_of_nat (sa_port address div 256)];
       wire \<leftarrow> mem_write wire (len - 1) [word_of_nat (sa_port address)];
       Some (True, wire, Some len)
     }
   }"

section \<open>The wire format\<close>

definition socks_valid :: "socks_address \<Rightarrow> bool" where
  "socks_valid a \<longleftrightarrow> socksAddressEncodedLength a \<noteq> 0 \<and> sa_port a \<le> UINT16_MAX \<and> length (sa_bytes a) = 255"

definition socks_wire :: "socks_address \<Rightarrow> byte list" where
  "socks_wire a = sa_kind a # (if sa_kind a = kSocksAddressDomain then [word_of_nat (sa_length a)] else []) @
     take (sa_length a) (sa_bytes a) @ be_bytes16 (sa_port a)"

text \<open>The value a decoder returns: the unused bytes are zero.\<close>

definition socks_value :: "socks_address \<Rightarrow> socks_address" where
  "socks_value a = a\<lparr>sa_consumed := socksAddressEncodedLength a,
     sa_bytes := take (sa_length a) (sa_bytes a) @ replicate (255 - sa_length a) 0\<rparr>"

lemma socks_valid_cases:
  assumes "socks_valid a"
  obtains "sa_kind a = 1" "sa_length a = 4" | "sa_kind a = 4" "sa_length a = 16"
    | "sa_kind a = 3" "0 < sa_length a" "sa_length a \<le> 255"
  using assms by (auto simp: socks_valid_def socksAddressEncodedLength_def socks_consts split: if_splits)

lemma socks_wire_length:
  assumes "socks_valid a"
  shows "length (socks_wire a) = socksAddressEncodedLength a" "sa_length a \<le> 255" "length (sa_bytes a) = 255"
  using assms by (auto simp: socks_wire_def socks_valid_def socksAddressEncodedLength_def socks_consts split: if_splits)

lemma write_head: "length xs \<le> length m \<Longrightarrow> mem_write m 0 xs = Some (xs @ drop (length xs) m)"
  by (simp add: mem_write_def)

lemma write_next:
  "n = length ys \<Longrightarrow> length ys + length xs \<le> length ys + length m \<Longrightarrow> mem_write (ys @ m) n xs = Some (ys @ xs @ drop (length xs) m)"
  by (simp add: mem_write_def)

lemma encode_wire:
  assumes v: "socks_valid a" and room: "socksAddressEncodedLength a \<le> length wire"
  shows "socksAddressEncode a wire (length wire) =
    Some (True, socks_wire a @ drop (socksAddressEncodedLength a) wire, Some (socksAddressEncodedLength a))"
proof -
  let ?n = "sa_length a" and ?k = "socksAddressEncodedLength a"
  let ?xs = "take ?n (sa_bytes a)"
  define pre where "pre = sa_kind a # (if sa_kind a = 3 then [word_of_nat ?n] else [])"
  have n: "?n \<le> 255" "length ?xs = ?n" using socks_wire_length [OF v] by simp_all
  have k: "?k = length pre + ?n + 2" using v by (cases rule: socks_valid_cases)
    (simp_all add: socksAddressEncodedLength_def socks_consts pre_def)
  have w: "mem_write wire 0 [sa_kind a] = Some ([sa_kind a] @ drop 1 wire)"
    using room k by (subst write_head) (auto simp: pre_def)
  have w2: "mem_write (x # drop 1 wire) 1 [word_of_nat ?n] = Some ([x, word_of_nat ?n] @ drop 2 wire)" if "2 \<le> length wire" for x
    using write_next [of 1 "[x]" "[word_of_nat ?n]" "drop 1 wire"] that by (simp add: numeral_2_eq_2)
  have "encodePrefix a wire = Some (pre @ drop (length pre) wire, length pre)"
    using w w2 room k by (cases "sa_kind a = 3") (simp_all add: encodePrefix_def pre_def socks_consts numeral_2_eq_2)
  moreover have "mem_write (pre @ drop (length pre) wire) (length pre) ?xs = Some (pre @ ?xs @ drop (length pre + ?n) wire)"
    using write_next [of "length pre" pre ?xs "drop (length pre) wire"] room k n by (simp add: add.commute)
  moreover have "mem_write (pre @ ?xs @ drop (length pre + ?n) wire) (?k - 2) [b] = Some ((pre @ ?xs @ [b]) @ drop (length pre + ?n + 1) wire)" for b
    using write_next [of "?k - 2" "pre @ ?xs" "[b]" "drop (length pre + ?n) wire"] room k n by simp
  moreover have "mem_write ((pre @ ?xs @ [b]) @ drop (length pre + ?n + 1) wire) (?k - 1) [c] = Some ((pre @ ?xs @ [b, c]) @ drop ?k wire)" for b c
    using write_next [of "?k - 1" "pre @ ?xs @ [b]" "[c]" "drop (length pre + ?n + 1) wire"] room k n by simp
  moreover have "mem_read (sa_bytes a) 0 ?n = Some ?xs" using n socks_wire_length(3) [OF v] by (simp add: mem_read_def)
  ultimately show ?thesis
    using k room by (simp add: socksAddressEncode_def) (simp add: socks_wire_def pre_def be_bytes16_def socks_consts)
qed

section \<open>Decoding\<close>

lemma geometry_ok:
  assumes "0 < len" "len \<le> length wire"
  shows "\<exists>g. addressGeometry wire len kind = Some g \<and>
    (\<forall>n off. g = Inr (n, off) \<longrightarrow> kind = 1 \<and> n = 4 \<and> off = 1 \<or> kind = 4 \<and> n = 16 \<and> off = 1 \<or>
      kind = 3 \<and> 0 < n \<and> n \<le> 255 \<and> off = 2 \<and> wire ! 1 = word_of_nat n)"
proof (cases "kind = 3 \<and> 2 \<le> len")
  case True
  have "unat (wire ! 1) \<le> 255" using unat_byte_less [of "wire ! 1"] by simp
  then show ?thesis using True assms by (auto simp: addressGeometry_def socks_consts unat_gt_0)
qed (auto simp: addressGeometry_def socks_consts)

lemma decode_total:
  assumes "len \<le> length wire"
  shows "\<exists>r. socksAddressDecode wire len = Some r"
proof (cases "len = 0")
  case False
  obtain g where g: "addressGeometry wire len (wire ! 0) = Some g"
    "\<And>n off. g = Inr (n, off) \<Longrightarrow> n \<le> 255"
    using geometry_ok [of len wire "wire ! 0"] assms False by fastforce
  show ?thesis
  proof (cases g)
    case (Inl v)
    then show ?thesis using g(1) assms False by (auto simp: socksAddressDecode_def rd8_def)
  next
    case (Inr x)
    obtain n off where x: "x = (n, off)" by (cases x)
    then have "n \<le> 255" using g(2) Inr by simp
    then show ?thesis using g(1) assms False Inr x
      by (cases "len < off + n + 2") (auto simp: socksAddressDecode_def mem_read_def mem_write_def rd8_def rd_be16_def)
  qed
qed (simp add: socksAddressDecode_def)

text \<open>Decoding at the start of a valid encoding: too short a prefix asks for more, anything longer yields the value.\<close>

lemma decode_wire:
  assumes v: "socks_valid a" and len: "len \<le> length (socks_wire a @ rest)"
  shows "socksAddressDecode (socks_wire a @ rest) len =
    Some (if len < socksAddressEncodedLength a then (SocksAddressNeedMore, None) else (SocksAddressComplete, Some (socks_value a)))"
proof (cases "len = 0")
  case True
  then show ?thesis using v by (simp add: socksAddressDecode_def socks_valid_def)
next
  case False
  let ?w = "socks_wire a @ rest" and ?n = "sa_length a" and ?k = "socksAddressEncodedLength a"
  define pre where "pre = sa_kind a # (if sa_kind a = 3 then [word_of_nat ?n] else [])"
  note w = socks_wire_length [OF v]
  have ww: "?w = pre @ take ?n (sa_bytes a) @ be_bytes16 (sa_port a) @ rest"
    by (simp add: socks_wire_def pre_def socks_consts)
  have k: "?k = length pre + ?n + 2" using v by (cases rule: socks_valid_cases)
    (simp_all add: socksAddressEncodedLength_def socks_consts pre_def)
  have kind: "rd8 ?w 0 = Some (sa_kind a)" unfolding ww by (simp add: pre_def)
  have g: "addressGeometry ?w len (sa_kind a) =
      Some (if sa_kind a = 3 \<and> len < 2 then Inl SocksAddressNeedMore else Inr (?n, length pre))"
  proof (cases "sa_kind a = 3")
    case True
    then have n: "0 < ?n" "?n \<le> 255" using v by (auto elim: socks_valid_cases)
    have "(word_of_nat ?n :: byte) \<noteq> 0" "unat (word_of_nat ?n :: byte) = ?n"
      using n unat_word8_of_nat [of ?n] by (auto simp: unat_eq_zero [symmetric] simp del: unat_eq_zero)
    moreover have "rd8 ?w 1 = Some (word_of_nat ?n)" unfolding ww using True by (simp add: pre_def)
    ultimately show ?thesis using True by (simp add: addressGeometry_def socks_consts pre_def)
  next
    case False
    with v show ?thesis by (elim socks_valid_cases) (simp_all add: addressGeometry_def socks_consts pre_def)
  qed
  show ?thesis
  proof (cases "len < ?k")
    case True
    then show ?thesis using False kind g k by (simp add: socksAddressDecode_def)
  next
    case ge: False
    then have len2: "2 \<le> len" using k by simp
    have r: "mem_read ?w (length pre) ?n = Some (take ?n (sa_bytes a))" unfolding ww using w by (simp add: mem_read_def)
    have b: "mem_write (replicate 255 0) 0 (take ?n (sa_bytes a)) = Some (take ?n (sa_bytes a) @ replicate (255 - ?n) 0)"
      using w by (simp add: mem_write_def)
    have port: "rd_be16 ?w (length pre + ?n) = Some (sa_port a)"
      using rd_be16_append [of "length pre + ?n" "pre @ take ?n (sa_bytes a)" "sa_port a" rest] w v unfolding ww by (simp add: socks_valid_def)
    have "?k \<le> 259" using k w(2) by (simp add: pre_def)
    then have "u16 (length pre + ?n + 2) = ?k" using k by simp
    then show ?thesis using False ge kind g k len2 r b port by (simp add: socksAddressDecode_def socks_value_def)
  qed
qed

lemma geometry_verdict: "addressGeometry wire len kind = Some (Inl r) \<Longrightarrow> r \<noteq> SocksAddressComplete"
  by (auto simp: addressGeometry_def bind_eq_Some_conv split: if_splits)

lemma decode_verdict:
  assumes "socksAddressDecode wire len = Some (r, v)"
  shows "r = SocksAddressComplete \<longleftrightarrow> v \<noteq> None"
proof (cases "len = 0")
  case True
  then show ?thesis using assms by (auto simp: socksAddressDecode_def)
next
  case False
  then obtain kind g where "rd8 wire 0 = Some kind" "addressGeometry wire len kind = Some g"
    using assms by (auto simp: socksAddressDecode_def bind_eq_Some_conv)
  then show ?thesis using assms False geometry_verdict [of wire len kind]
    by (cases g) (auto simp: socksAddressDecode_def Let_def bind_eq_Some_conv split: if_splits)
qed

text \<open>The converse: a decoded value is valid and its encoding is the consumed part of the wire.\<close>

lemma decode_canonical:
  assumes d: "socksAddressDecode wire len = Some (SocksAddressComplete, Some a)" and len: "len \<le> length wire"
  shows "socks_valid a" "sa_consumed a \<le> len" "take (sa_consumed a) wire = socks_wire a" "sa_consumed a = socksAddressEncodedLength a"
proof -
  have ne: "len \<noteq> 0"
  proof
    assume "len = 0"
    then show False using d by (simp add: socksAddressDecode_def)
  qed
  let ?k = "wire ! 0"
  have kind: "rd8 wire 0 = Some ?k" using ne len by (cases wire) simp_all
  obtain g where g: "addressGeometry wire len ?k = Some g"
    "\<And>n off. g = Inr (n, off) \<Longrightarrow> ?k = 1 \<and> n = 4 \<and> off = 1 \<or> ?k = 4 \<and> n = 16 \<and> off = 1 \<or>
      ?k = 3 \<and> 0 < n \<and> n \<le> 255 \<and> off = 2 \<and> wire ! 1 = word_of_nat n"
    using geometry_ok [of len wire ?k] len ne by blast
  obtain n off where x: "g = Inr (n, off)"
    using d g(1) ne kind by (cases g) (auto simp: socksAddressDecode_def)
  note G = g(2) [OF x]
  have n: "n \<le> 255" "0 < n" using G by auto
  have fit: "off + n + 2 \<le> len" using d g(1) x ne kind by (auto simp: socksAddressDecode_def split: if_splits)
  have a: "a = \<lparr>sa_port = be16 (wire ! (off + n)) (wire ! (off + n + 1)), sa_length = n, sa_consumed = off + n + 2,
      sa_kind = ?k, sa_bytes = take n (drop off wire) @ replicate (255 - n) 0\<rparr>"
    using d g(1) x ne kind len fit n G by (auto simp: socksAddressDecode_def mem_read_def mem_write_def rd_be16_def)
  show v: "socks_valid a" unfolding a using G n fit len be16_le
    by (auto simp: socks_valid_def socksAddressEncodedLength_def socks_consts)
  show "sa_consumed a \<le> len" unfolding a using fit by simp
  show "sa_consumed a = socksAddressEncodedLength a" unfolding a using G by (auto simp: socksAddressEncodedLength_def socks_consts)
  define pre where "pre = ?k # (if ?k = 3 then [word_of_nat n] else [])"
  have one: "take (Suc 0) wire = [?k]" using ne len by (cases wire) simp_all
  have pre: "length pre = off" "take off wire = pre"
    using G fit len one take_Suc_conv_app_nth [of 1 wire] by (auto simp: pre_def numeral_2_eq_2)
  have two: "take 2 (drop (off + n) wire) = [wire ! (off + n), wire ! (off + n + 1)]"
    using fit len by (simp add: numeral_2_eq_2 take_Suc_conv_app_nth)
  have "take (off + n + 2) wire = take off wire @ take n (drop off wire) @ take 2 (drop (off + n) wire)"
    by (simp only: take_add append_assoc)
  then show "take (sa_consumed a) wire = socks_wire a"
    unfolding a using pre two fit len by (simp add: socks_wire_def be_bytes_be16 pre_def socks_consts)
qed

section \<open>Properties\<close>

text \<open>C36. Every representable address survives the wire. Encoding into enough room writes exactly the
  address and reports its length, and decoding what was written, whatever follows it, asks for
  more on every shorter prefix and returns the same kind, length, address bytes and port from then on.\<close>

theorem socks_address_roundtrip:
  assumes "socks_valid a" "socksAddressEncodedLength a \<le> length wire"
  shows "\<exists>w. socksAddressEncode a wire (length wire) =
      Some (True, w @ drop (socksAddressEncodedLength a) wire, Some (socksAddressEncodedLength a)) \<and>
    (\<forall>rest len. len \<le> length (w @ rest) \<longrightarrow> socksAddressDecode (w @ rest) len =
      Some (if len < socksAddressEncodedLength a then (SocksAddressNeedMore, None)
            else (SocksAddressComplete, Some (socks_value a))))"
  using encode_wire [OF assms] decode_wire [OF assms(1)] by blast

theorem socks_address_roundtrip_witness:
  "\<exists>w. socksAddressEncode \<lparr>sa_port = 443, sa_length = 4, sa_consumed = 0, sa_kind = 1, sa_bytes = replicate 255 9\<rparr> (replicate 7 0) 7 =
      Some (True, w, Some 7) \<and>
    socksAddressDecode w 6 = Some (SocksAddressNeedMore, None) \<and>
    socksAddressDecode w 7 = Some (SocksAddressComplete, Some \<lparr>sa_port = 443, sa_length = 4, sa_consumed = 7, sa_kind = 1,
      sa_bytes = replicate 4 9 @ replicate 251 0\<rparr>)"
proof -
  let ?a = "\<lparr>sa_port = 443, sa_length = 4, sa_consumed = 0, sa_kind = 1, sa_bytes = replicate 255 9\<rparr>"
  have l: "socksAddressEncodedLength ?a = 7" by (simp add: socksAddressEncodedLength_def socks_consts)
  have v: "socks_valid ?a" unfolding socks_valid_def l by simp
  obtain w where w: "socksAddressEncode ?a (replicate 7 0) 7 = Some (True, w, Some 7)"
    and d: "\<And>rest len. len \<le> length (w @ rest) \<Longrightarrow> socksAddressDecode (w @ rest) len =
      Some (if len < 7 then (SocksAddressNeedMore, None) else (SocksAddressComplete, Some (socks_value ?a)))"
    using socks_address_roundtrip [OF v, of "replicate 7 0"] unfolding l by auto
  have "length w = 7" using w encode_wire [OF v, of "replicate 7 0"] socks_wire_length(1) [OF v] unfolding l by simp
  then show ?thesis using w d [of 6 "[]"] d [of 7 "[]"] by (simp add: socks_value_def l take_replicate)
qed

text \<open>C37. The decoder is total and canonical: it never reads outside the given bytes, and a complete
  result is a valid address whose encoding is exactly the bytes it reports as consumed.\<close>

theorem socks_decode_canonical:
  assumes "len \<le> length wire"
  shows "\<exists>r v. socksAddressDecode wire len = Some (r, v) \<and>
    (r = SocksAddressComplete \<longrightarrow> (\<exists>a. v = Some a \<and> socks_valid a \<and> sa_consumed a \<le> len \<and>
      socksAddressEncode a (replicate (sa_consumed a) 0) (sa_consumed a) = Some (True, take (sa_consumed a) wire, Some (sa_consumed a))))"
proof -
  obtain r v where d: "socksAddressDecode wire len = Some (r, v)" using decode_total [OF assms] by force
  show ?thesis
  proof (cases v)
    case None
    then have "r \<noteq> SocksAddressComplete" using decode_verdict [OF d] by simp
    then show ?thesis using d None by simp
  next
    case (Some a)
    have "r = SocksAddressComplete" using decode_verdict [OF d] Some by simp
    then have c: "socks_valid a" "sa_consumed a \<le> len" "take (sa_consumed a) wire = socks_wire a" "sa_consumed a = socksAddressEncodedLength a"
      using decode_canonical [of wire len a] d Some assms by simp_all
    have "socksAddressEncode a (replicate (sa_consumed a) 0) (sa_consumed a) = Some (True, take (sa_consumed a) wire, Some (sa_consumed a))"
      using encode_wire [OF c(1), of "replicate (sa_consumed a) 0"] c(3,4) by simp
    then show ?thesis using d Some c by blast
  qed
qed

theorem socks_decode_canonical_witness:
  "\<exists>a. socksAddressDecode [3, 1, 97, 0, 80, 7] 6 = Some (SocksAddressComplete, Some a) \<and> sa_consumed a = 5 \<and>
    socksAddressEncode a (replicate 5 0) 5 = Some (True, [3, 1, 97, 0, 80], Some 5)"
proof -
  have d: "socksAddressDecode [3, 1, 97, 0, 80, 7] 6 = Some (SocksAddressComplete, Some \<lparr>sa_port = 80, sa_length = 1, sa_consumed = 5,
      sa_kind = 3, sa_bytes = 97 # replicate 254 0\<rparr>)"
    by (simp add: socksAddressDecode_def addressGeometry_def socks_consts mem_read_def mem_write_def be16_def)
  show ?thesis using socks_decode_canonical [of 6 "[3, 1, 97, 0, 80, 7]"] d by (simp add: numeral_eq_Suc)
qed

end
