(* ===== verification/Packet_View.thy ===== *)
theory Packet_View
  imports WW_Prelude
begin

text \<open>
  Views of IPv4 packets: \<open>ww/net/ipv4_packet_view.c\<close>. The header structs of lwIP are packed records with
  the layout of the protocols, so a field is a load at its offset; sixteen- and thirty-two-bit loads
  are little-endian and \<open>lwip_ntohs\<close>, \<open>lwip_ntohl\<close> turn them into host order. lwIP is not part of the
  repository: its conversions are a parameter.
\<close>

section \<open>lwIP\<close>

text \<open>\<open>lwip_ntohs\<close> and \<open>lwip_ntohl\<close> are macros for the two conversions. \<open>inet_chksum\<close> is built with the hook
  \<open>LWIP_CHKSUM\<close>, which is its first argument here.\<close>

record lwip =
  lwip_htons :: "nat \<Rightarrow> nat"
  lwip_htonl :: "nat \<Rightarrow> nat"
  inet_chksum :: "(byte list \<Rightarrow> nat \<Rightarrow> nat option) \<Rightarrow> byte list \<Rightarrow> nat \<Rightarrow> nat option"

definition byte_swap16 :: "nat \<Rightarrow> nat" where
  "byte_swap16 v = v mod 256 * 256 + v div 256"

definition byte_swap32 :: "nat \<Rightarrow> nat" where
  "byte_swap32 v = byte_swap16 (v mod 65536) * 65536 + byte_swap16 (v div 65536)"

text \<open>What the program relies on: the conversions reverse the bytes, and the checksum is the complement
  of the sum the hook computes.\<close>

locale lwip_laws =
  fixes L :: lwip
  assumes htons: "v \<le> UINT16_MAX \<Longrightarrow> lwip_htons L v = byte_swap16 v"
    and htonl: "v \<le> UINT32_MAX \<Longrightarrow> lwip_htonl L v = byte_swap32 v"
    and chksum: "inet_chksum L hook data len = map_option (\<lambda>s. UINT16_MAX - s) (hook data len)"

definition lwip_model :: lwip where
  "lwip_model = \<lparr>lwip_htons = byte_swap16, lwip_htonl = byte_swap32,
     inet_chksum = (\<lambda>hook data len. map_option (\<lambda>s. UINT16_MAX - s) (hook data len))\<rparr>"

interpretation lwip_model: lwip_laws lwip_model
  by unfold_locales (simp_all add: lwip_model_def)

section \<open>Fields\<close>

definition ld16 :: "byte list \<Rightarrow> nat \<Rightarrow> nat option" where
  "ld16 m at = map_option le_value (mem_read m at 2)"

definition ld32 :: "byte list \<Rightarrow> nat \<Rightarrow> nat option" where
  "ld32 m at = map_option le_value (mem_read m at 4)"

definition st16 :: "byte list \<Rightarrow> nat \<Rightarrow> nat \<Rightarrow> byte list option" where
  "st16 m at v = mem_write m at (le_bytes 2 v)"

definition st32 :: "byte list \<Rightarrow> nat \<Rightarrow> nat \<Rightarrow> byte list option" where
  "st32 m at v = mem_write m at (le_bytes 4 v)"

abbreviation (input) IP_HLEN :: nat where "IP_HLEN \<equiv> 20"
abbreviation (input) IP_HLEN_MAX :: nat where "IP_HLEN_MAX \<equiv> 60"
abbreviation (input) TCP_HLEN :: nat where "TCP_HLEN \<equiv> 20"
abbreviation (input) UDP_HLEN :: nat where "UDP_HLEN \<equiv> 8"
abbreviation (input) ICMP_HLEN :: nat where "ICMP_HLEN \<equiv> 8"
abbreviation (input) IP_PROTO_ICMP :: nat where "IP_PROTO_ICMP \<equiv> 1"
abbreviation (input) IP_PROTO_TCP :: nat where "IP_PROTO_TCP \<equiv> 6"
abbreviation (input) IP_PROTO_UDP :: nat where "IP_PROTO_UDP \<equiv> 17"
abbreviation (input) IP_DF :: nat where "IP_DF \<equiv> 16384"
abbreviation (input) IP_MF :: nat where "IP_MF \<equiv> 8192"
abbreviation (input) IP_OFFMASK :: nat where "IP_OFFMASK \<equiv> 8191"
abbreviation (input) TCP_FIN :: nat where "TCP_FIN \<equiv> 1"
abbreviation (input) TCP_SYN :: nat where "TCP_SYN \<equiv> 2"
abbreviation (input) TCP_ECE :: nat where "TCP_ECE \<equiv> 64"
abbreviation (input) TCP_CWR :: nat where "TCP_CWR \<equiv> 128"

section \<open>The view\<close>

record ipv4_packet_view =
  source_address :: nat
  destination_address :: nat
  tcp_sequence :: nat
  tcp_acknowledgment :: nat
  tcp_sequence_span :: nat
  ip_total_length :: nat
  ip_header_length :: nat
  transport_offset :: nat
  transport_length :: nat
  transport_header_length :: nat
  payload_offset :: nat
  payload_length :: nat
  fragment_state :: nat
  fragment_offset :: nat
  source_port :: nat
  destination_port :: nat
  ip_identification :: nat
  udp_datagram_length :: nat
  protocol :: nat
  view_ttl :: nat
  tcp_flags :: nat
  more_fragments :: bool
  fragmented :: bool

text \<open>The parser: \<open>Some None\<close> is the result \<open>false\<close>.\<close>

definition ipv4packetviewParse :: "lwip \<Rightarrow> byte list \<Rightarrow> nat \<Rightarrow> ipv4_packet_view option option" where
  "ipv4packetviewParse L packet available_length =
     (if available_length < IP_HLEN then Some None else do {
        vhl \<leftarrow> rd8 packet 0;
        if unat vhl div 16 \<noteq> 4 then Some None else do {
        len \<leftarrow> ld16 packet 2;
        let hl = u8 (unat vhl mod 16 * 4); total = lwip_htons L len in
        if hl < IP_HLEN \<or> hl > IP_HLEN_MAX \<or> hl > available_length \<or> total < hl \<or> total > available_length
        then Some None else do {
          off \<leftarrow> ld16 packet 6;
          src \<leftarrow> ld32 packet 12;
          dst \<leftarrow> ld32 packet 16;
          ident \<leftarrow> ld16 packet 4;
          proto \<leftarrow> rd8 packet 9;
          ttl \<leftarrow> rd8 packet 8;
          let fs = lwip_htons L off in
          Some (Some \<lparr>source_address = src, destination_address = dst, tcp_sequence = 0,
            tcp_acknowledgment = 0, tcp_sequence_span = 0, ip_total_length = total, ip_header_length = hl,
            transport_offset = hl, transport_length = u16 (total - hl), transport_header_length = 0,
            payload_offset = hl, payload_length = u16 (total - hl), fragment_state = fs,
            fragment_offset = fs AND IP_OFFMASK, source_port = 0, destination_port = 0,
            ip_identification = lwip_htons L ident, udp_datagram_length = 0, protocol = unat proto,
            view_ttl = unat ttl, tcp_flags = 0, more_fragments = (fs AND IP_MF \<noteq> 0),
            fragmented = (fs AND (IP_MF OR IP_OFFMASK) \<noteq> 0)\<rparr>)
        }}})"

definition ipv4packetviewParseTcp :: "lwip \<Rightarrow> byte list \<Rightarrow> nat \<Rightarrow> ipv4_packet_view option option" where
  "ipv4packetviewParseTcp L packet available_length = do {
     r \<leftarrow> ipv4packetviewParse L packet available_length;
     case r of
       None \<Rightarrow> Some None
     | Some parsed \<Rightarrow>
         if protocol parsed \<noteq> IP_PROTO_TCP \<or> fragment_offset parsed \<noteq> 0 \<or> transport_length parsed < TCP_HLEN
         then Some None else do {
           let at = transport_offset parsed;
           hf \<leftarrow> ld16 packet (at + 12);
           let hl = u8 (lwip_htons L hf div 4096 * 4);
           if hl < TCP_HLEN \<or> hl > transport_length parsed then Some None else do {
             src \<leftarrow> ld16 packet at;
             dst \<leftarrow> ld16 packet (at + 2);
             seqno \<leftarrow> ld32 packet (at + 4);
             ackno \<leftarrow> ld32 packet (at + 8);
             let len = u16 (transport_length parsed - hl); flags = u8 (lwip_htons L hf AND 255) in
             Some (Some (parsed\<lparr>transport_header_length := hl, payload_offset := u16 (at + hl),
               payload_length := len, source_port := lwip_htons L src, destination_port := lwip_htons L dst,
               tcp_sequence := lwip_htonl L seqno, tcp_acknowledgment := lwip_htonl L ackno, tcp_flags := flags,
               tcp_sequence_span := u32 (len + (if flags AND TCP_SYN \<noteq> 0 then 1 else 0) +
                 (if flags AND TCP_FIN \<noteq> 0 then 1 else 0))\<rparr>))
           }}}"

definition ipv4packetviewParseUdp :: "lwip \<Rightarrow> byte list \<Rightarrow> nat \<Rightarrow> ipv4_packet_view option option" where
  "ipv4packetviewParseUdp L packet available_length = do {
     r \<leftarrow> ipv4packetviewParse L packet available_length;
     case r of
       None \<Rightarrow> Some None
     | Some parsed \<Rightarrow>
         if protocol parsed \<noteq> IP_PROTO_UDP \<or> fragment_offset parsed \<noteq> 0 \<or> transport_length parsed < UDP_HLEN
         then Some None else do {
           let at = transport_offset parsed;
           len \<leftarrow> ld16 packet (at + 4);
           let udp_length = lwip_htons L len;
           if udp_length < UDP_HLEN \<or> \<not> fragmented parsed \<and> udp_length > transport_length parsed then Some None
           else do {
             src \<leftarrow> ld16 packet at;
             dst \<leftarrow> ld16 packet (at + 2);
             Some (Some (parsed\<lparr>transport_header_length := UDP_HLEN, payload_offset := u16 (at + UDP_HLEN),
               payload_length := u16 ((if fragmented parsed then transport_length parsed else udp_length) - UDP_HLEN),
               source_port := lwip_htons L src, destination_port := lwip_htons L dst,
               udp_datagram_length := udp_length\<rparr>))
           }}}"

definition ipv4packetviewTcpFlagsAreOpeningSyn :: "nat \<Rightarrow> nat \<Rightarrow> bool" where
  "ipv4packetviewTcpFlagsAreOpeningSyn flags tcp_payload_length \<longleftrightarrow>
     \<not> (tcp_payload_length \<noteq> 0 \<or> flags AND TCP_SYN = 0) \<and> flags AND (TCP_SYN OR TCP_ECE OR TCP_CWR) = flags"

definition ipv4packetviewIsOpeningTcpSyn :: "ipv4_packet_view \<Rightarrow> bool" where
  "ipv4packetviewIsOpeningTcpSyn view \<longleftrightarrow> \<not> fragmented view \<and> protocol view = IP_PROTO_TCP \<and>
     transport_header_length view \<ge> TCP_HLEN \<and>
     ipv4packetviewTcpFlagsAreOpeningSyn (tcp_flags view) (payload_length view)"

definition ipv4packetviewTcpHasAnyFlags :: "ipv4_packet_view \<Rightarrow> nat \<Rightarrow> bool" where
  "ipv4packetviewTcpHasAnyFlags view flags \<longleftrightarrow> tcp_flags view AND flags \<noteq> 0"

definition ipv4packetviewTcpHasAllFlags :: "ipv4_packet_view \<Rightarrow> nat \<Rightarrow> bool" where
  "ipv4packetviewTcpHasAllFlags view flags \<longleftrightarrow> tcp_flags view AND flags = flags"

section \<open>Fields in host order\<close>

definition be_at :: "byte list \<Rightarrow> nat \<Rightarrow> nat" where
  "be_at m i = be16 (m ! i) (m ! (i + 1))"

definition put_be :: "byte list \<Rightarrow> nat \<Rightarrow> nat \<Rightarrow> byte list" where
  "put_be m i v = take i m @ be_bytes16 v @ drop (i + 2) m"

lemma be_at_le [simp]: "be_at m i \<le> UINT16_MAX"
  by (simp only: be_at_def be16_le)

lemma swap16_le [simp]: "v \<le> UINT16_MAX \<Longrightarrow> byte_swap16 v \<le> UINT16_MAX"
proof -
  assume "v \<le> UINT16_MAX"
  then have "v div 256 \<le> 255" using div_le_mono [of v UINT16_MAX 256] by simp
  moreover have "v mod 256 \<le> 255" using mod_less_divisor [of 256 v] by simp
  ultimately show ?thesis by (simp add: byte_swap16_def)
qed

lemma swap16_swap16 [simp]: "v \<le> UINT16_MAX \<Longrightarrow> byte_swap16 (byte_swap16 v) = v"
proof -
  assume "v \<le> UINT16_MAX"
  then have "v div 256 < 256" using div_le_mono [of v UINT16_MAX 256] by simp
  then have "byte_swap16 v mod 256 = v div 256" "byte_swap16 v div 256 = v mod 256"
    by (simp_all add: byte_swap16_def)
  then show ?thesis by (simp add: byte_swap16_def [of "byte_swap16 v"])
qed

lemma swap16_inj: "v \<le> UINT16_MAX \<Longrightarrow> w \<le> UINT16_MAX \<Longrightarrow> byte_swap16 v = byte_swap16 w \<longleftrightarrow> v = w"
  by (metis swap16_swap16)

lemma swap16_simps [simp]: "byte_swap16 0 = 0" "byte_swap16 65535 = 65535" "byte_swap16 v = 0 \<longleftrightarrow> v = 0"
  by (auto simp: byte_swap16_def)

lemma le_value_pair: "le_value [a, b] = byte_swap16 (be16 a b)"
  using unat_byte_less [of a] unat_byte_less [of b] by (simp add: byte_swap16_def be16_def)

lemma take_two_nth: "i + 2 \<le> length m \<Longrightarrow> take 2 (drop i m) = [m ! i, m ! (i + 1)]"
  by (simp add: take_Suc_conv_app_nth numeral_2_eq_2)

lemma ld16_eq: "i + 2 \<le> length m \<Longrightarrow> ld16 m i = Some (byte_swap16 (be_at m i))"
  using le_value_pair [of "m ! i" "m ! (i + 1)"] by (simp add: ld16_def mem_read_def take_two_nth be_at_def)

lemma st16_eq:
  assumes "i + 2 \<le> length m" "v \<le> UINT16_MAX"
  shows "st16 m i (byte_swap16 v) = Some (put_be m i v)"
proof -
  have "v div 256 < 256" using div_le_mono [OF assms(2), of 256] by simp
  then have "byte_swap16 v mod 256 = v div 256" "byte_swap16 v div 256 = v mod 256"
    by (simp_all add: byte_swap16_def)
  then have "(word_of_nat (byte_swap16 v) :: byte) = word_of_nat (v div 256)"
    "(word_of_nat (byte_swap16 v div 256) :: byte) = word_of_nat v"
    by (simp_all add: word_unat_eq_iff unat_word8_of_nat)
  then have "le_bytes 2 (byte_swap16 v) = be_bytes16 v" by (simp add: numeral_2_eq_2 be_bytes16_def)
  then show ?thesis using assms(1) by (simp add: st16_def mem_write_def put_be_def)
qed

lemma st16_zero: "i + 2 \<le> length m \<Longrightarrow> st16 m i 0 = Some (put_be m i 0)"
  using st16_eq [of i m 0] by simp

lemma length_put_be [simp]: "i + 2 \<le> length m \<Longrightarrow> length (put_be m i v) = length m"
  by (simp add: put_be_def)

lemma nth_put_be:
  assumes "i + 2 \<le> length m"
  shows "put_be m i v ! j = (if j = i then word_of_nat (v div 256) else if j = i + 1 then word_of_nat v else m ! j)"
proof (cases "j < i")
  case True
  then show ?thesis using assms by (simp add: put_be_def nth_append)
next
  case False
  show ?thesis
  proof (cases "j \<ge> i + 2")
    case True
    then obtain k where k: "j = i + 2 + k" using le_Suc_ex by blast
    show ?thesis using assms by (cases "i + 2 + k < length m") (simp_all add: put_be_def nth_append be_bytes16_def k)
  next
    case f: False
    then have "j = i \<or> j = i + 1" using False by auto
    then show ?thesis using assms by (auto simp: put_be_def nth_append be_bytes16_def)
  qed
qed

lemma be_at_put_same: "i + 2 \<le> length m \<Longrightarrow> v \<le> UINT16_MAX \<Longrightarrow> be_at (put_be m i v) i = v"
  by (simp add: be_at_def nth_put_be be16_bytes)

lemma be_at_put_other: "i + 2 \<le> length m \<Longrightarrow> j + 2 \<le> i \<or> i + 2 \<le> j \<Longrightarrow> be_at (put_be m i v) j = be_at m j"
  by (auto simp: be_at_def nth_put_be)

lemma nth_put_other: "i + 2 \<le> length m \<Longrightarrow> j < i \<or> i + 2 \<le> j \<Longrightarrow> put_be m i v ! j = m ! j"
  by (auto simp: nth_put_be)

lemma put_be_put_be: "i + 2 \<le> length m \<Longrightarrow> put_be (put_be m i v) i w = put_be m i w"
  by (simp add: put_be_def)

lemma put_be_same: "i + 2 \<le> length m \<Longrightarrow> put_be m i (be_at m i) = m"
  using take_two_nth [of i m] append_take_drop_id [of 2 "drop i m"]
  by (simp add: put_be_def be_at_def be_bytes_be16 add.commute)

lemma put_be_swap:
  assumes "i + 2 \<le> j" "j + 2 \<le> length m"
  shows "put_be (put_be m i v) j w = put_be (put_be m j w) i v"
  by (rule nth_equalityI) (use assms in \<open>auto simp: nth_put_be\<close>)

lemma take_put_be: "i + 2 \<le> n \<Longrightarrow> n \<le> length m \<Longrightarrow> take n (put_be m i v) = put_be (take n m) i v"
  by (rule nth_equalityI) (auto simp: nth_put_be)

lemma take_put_be_after: "n \<le> i \<Longrightarrow> i + 2 \<le> length m \<Longrightarrow> take n (put_be m i v) = take n m"
  by (simp add: put_be_def)

lemma drop_put_be_before: "i + 2 \<le> n \<Longrightarrow> n \<le> length m \<Longrightarrow> drop n (put_be m i v) = drop n m"
  by (rule nth_equalityI) (auto simp: nth_put_be)

lemma drop_put_be: "n \<le> i \<Longrightarrow> i + 2 \<le> length m \<Longrightarrow> drop n (put_be m i v) = put_be (drop n m) (i - n) v"
  by (simp add: put_be_def drop_take)

text \<open>Thirty-two bits are two such fields.\<close>

lemma ld32_eq:
  assumes "i + 4 \<le> length m"
  shows "ld32 m i = Some (byte_swap32 (be_at m i * 65536 + be_at m (i + 2)))"
proof -
  have "take 4 (drop i m) = take 2 (drop i m) @ take 2 (drop (i + 2) m)"
    using take_add [of 2 2 "drop i m"] by (simp add: add.commute)
  also have "\<dots> = [m ! i, m ! (i + 1), m ! (i + 2), m ! (i + 3)]"
    using assms take_two_nth [of i m] take_two_nth [of "i + 2" m] by (simp add: numeral_3_eq_3)
  finally have "ld32 m i = Some (le_value [m ! i, m ! (i + 1)] + 65536 * le_value [m ! (i + 2), m ! (i + 3)])"
    using assms by (simp add: ld32_def mem_read_def)
  moreover have "m ! (i + 3) = m ! (i + 2 + 1)" by (simp add: numeral_3_eq_3)
  moreover have "(be_at m i * 65536 + be_at m (i + 2)) mod 65536 = be_at m (i + 2)"
    "(be_at m i * 65536 + be_at m (i + 2)) div 65536 = be_at m i"
    using less_Suc_eq_le [THEN iffD2, OF be_at_le [of m "i + 2"]] by simp_all
  ultimately show ?thesis
    unfolding byte_swap32_def le_value_pair be_at_def by simp
qed

lemma swap32_swap32 [simp]:
  assumes "v \<le> UINT32_MAX"
  shows "byte_swap32 (byte_swap32 v) = v"
proof -
  have d: "v div 65536 \<le> UINT16_MAX" "v mod 65536 \<le> UINT16_MAX"
    using div_le_mono [OF assms, of 65536] mod_less_divisor [of 65536 v] by simp_all
  have "byte_swap16 (v div 65536) < 65536" using swap16_le [OF d(1)] by linarith
  then have "byte_swap32 v mod 65536 = byte_swap16 (v div 65536)" "byte_swap32 v div 65536 = byte_swap16 (v mod 65536)"
    by (simp_all add: byte_swap32_def)
  then show ?thesis unfolding byte_swap32_def [of "byte_swap32 v"] using d by simp
qed

lemma swap32_le [simp]: "v \<le> UINT32_MAX \<Longrightarrow> byte_swap32 v \<le> UINT32_MAX"
proof -
  assume v: "v \<le> UINT32_MAX"
  have "byte_swap16 (v div 65536) \<le> UINT16_MAX" "byte_swap16 (v mod 65536) \<le> UINT16_MAX"
    using div_le_mono [OF v, of 65536] mod_less_divisor [of 65536 v] by simp_all
  then show ?thesis unfolding byte_swap32_def by linarith
qed

section \<open>What the parsers compute\<close>

definition ip_hl :: "byte list \<Rightarrow> nat" where
  "ip_hl m = unat (m ! 0) mod 16 * 4"

definition ip_ok :: "byte list \<Rightarrow> nat \<Rightarrow> bool" where
  "ip_ok m a \<longleftrightarrow> 20 \<le> a \<and> unat (m ! 0) div 16 = 4 \<and> 20 \<le> ip_hl m \<and> ip_hl m \<le> be_at m 2 \<and> be_at m 2 \<le> a"

definition ip_view :: "byte list \<Rightarrow> ipv4_packet_view" where
  "ip_view m = \<lparr>source_address = byte_swap32 (be_at m 12 * 65536 + be_at m 14),
     destination_address = byte_swap32 (be_at m 16 * 65536 + be_at m 18), tcp_sequence = 0, tcp_acknowledgment = 0,
     tcp_sequence_span = 0, ip_total_length = be_at m 2, ip_header_length = ip_hl m, transport_offset = ip_hl m,
     transport_length = be_at m 2 - ip_hl m, transport_header_length = 0, payload_offset = ip_hl m,
     payload_length = be_at m 2 - ip_hl m, fragment_state = be_at m 6, fragment_offset = be_at m 6 AND IP_OFFMASK,
     source_port = 0, destination_port = 0, ip_identification = be_at m 4, udp_datagram_length = 0,
     protocol = unat (m ! 9), view_ttl = unat (m ! 8), tcp_flags = 0, more_fragments = (be_at m 6 AND IP_MF \<noteq> 0),
     fragmented = (be_at m 6 AND (IP_MF OR IP_OFFMASK) \<noteq> 0)\<rparr>"

lemma ip_view_simps [simp]:
  "source_address (ip_view m) = byte_swap32 (be_at m 12 * 65536 + be_at m 14)"
  "destination_address (ip_view m) = byte_swap32 (be_at m 16 * 65536 + be_at m 18)"
  "ip_total_length (ip_view m) = be_at m 2" "ip_header_length (ip_view m) = ip_hl m"
  "transport_offset (ip_view m) = ip_hl m" "transport_length (ip_view m) = be_at m 2 - ip_hl m"
  "payload_offset (ip_view m) = ip_hl m" "payload_length (ip_view m) = be_at m 2 - ip_hl m"
  "fragment_state (ip_view m) = be_at m 6" "fragment_offset (ip_view m) = be_at m 6 AND IP_OFFMASK"
  "protocol (ip_view m) = unat (m ! 9)" "more_fragments (ip_view m) = (be_at m 6 AND IP_MF \<noteq> 0)"
  "fragmented (ip_view m) = (be_at m 6 AND (IP_MF OR IP_OFFMASK) \<noteq> 0)"
  by (simp_all add: ip_view_def)

lemma ip_hl_le: "ip_hl m \<le> 60"
  using mod_less_divisor [of 16 "unat (m ! 0)"] by (simp add: ip_hl_def)

lemma ip_hl_even [simp]: "even (ip_hl m)"
  by (simp add: ip_hl_def)

lemma ip_okD:
  assumes "ip_ok m a"
  shows "20 \<le> a" "20 \<le> ip_hl m" "ip_hl m \<le> be_at m 2" "be_at m 2 \<le> a" "ip_hl m \<le> a"
  using assms by (auto simp: ip_ok_def)

definition tcp_hl :: "byte list \<Rightarrow> nat" where
  "tcp_hl m = be_at m (ip_hl m + 12) div 4096 * 4"

definition tcp_ok :: "byte list \<Rightarrow> bool" where
  "tcp_ok m \<longleftrightarrow> unat (m ! 9) = IP_PROTO_TCP \<and> be_at m 6 AND IP_OFFMASK = 0 \<and>
     20 \<le> tcp_hl m \<and> ip_hl m + tcp_hl m \<le> be_at m 2"

definition tcp_view :: "byte list \<Rightarrow> ipv4_packet_view" where
  "tcp_view m = (let at = ip_hl m; len = be_at m 2 - ip_hl m - tcp_hl m; flags = be_at m (at + 12) AND 255 in
     (ip_view m)\<lparr>transport_header_length := tcp_hl m, payload_offset := at + tcp_hl m, payload_length := len,
       source_port := be_at m at, destination_port := be_at m (at + 2),
       tcp_sequence := be_at m (at + 4) * 65536 + be_at m (at + 6),
       tcp_acknowledgment := be_at m (at + 8) * 65536 + be_at m (at + 10), tcp_flags := flags,
       tcp_sequence_span := len + (if flags AND TCP_SYN \<noteq> 0 then 1 else 0) + (if flags AND TCP_FIN \<noteq> 0 then 1 else 0)\<rparr>)"

definition udp_ok :: "byte list \<Rightarrow> bool" where
  "udp_ok m \<longleftrightarrow> unat (m ! 9) = IP_PROTO_UDP \<and> be_at m 6 AND IP_OFFMASK = 0 \<and> ip_hl m + 8 \<le> be_at m 2 \<and>
     8 \<le> be_at m (ip_hl m + 4) \<and>
     (be_at m 6 AND (IP_MF OR IP_OFFMASK) \<noteq> 0 \<or> ip_hl m + be_at m (ip_hl m + 4) \<le> be_at m 2)"

definition udp_view :: "byte list \<Rightarrow> ipv4_packet_view" where
  "udp_view m = (let at = ip_hl m; ul = be_at m (at + 4) in
     (ip_view m)\<lparr>transport_header_length := 8, payload_offset := at + 8,
       payload_length := (if fragmented (ip_view m) then be_at m 2 - at else ul) - 8,
       source_port := be_at m at, destination_port := be_at m (at + 2), udp_datagram_length := ul\<rparr>)"

lemma tcp_hl_le: "tcp_hl m \<le> 60"
  using div_le_mono [OF be_at_le [of m "ip_hl m + 12"], of 4096] by (simp add: tcp_hl_def)

lemma view_offsets [simp]: "transport_offset (tcp_view m) = ip_hl m" "transport_offset (udp_view m) = ip_hl m"
  by (simp_all add: tcp_view_def udp_view_def Let_def)

context lwip_laws
begin

lemma htons_swap [simp]: "v \<le> UINT16_MAX \<Longrightarrow> lwip_htons L (byte_swap16 v) = v"
  by (simp add: htons)

lemma htonl_swap [simp]: "v \<le> UINT32_MAX \<Longrightarrow> lwip_htonl L (byte_swap32 v) = v"
  by (simp add: htonl)

lemma ld_host32: "be_at m i * 65536 + be_at m j \<le> UINT32_MAX"
  using be_at_le [of m i] be_at_le [of m j] by linarith

lemma parse_eq:
  assumes "a \<le> length m"
  shows "ipv4packetviewParse L m a = Some (if ip_ok m a then Some (ip_view m) else None)"
proof (cases "a < 20 \<or> unat (m ! 0) div 16 \<noteq> 4")
  case True
  have "rd8 m 0 = Some (m ! 0)" if "\<not> a < 20" using that assms by (intro rd8_Some) linarith
  with True show ?thesis by (cases "a < 20") (simp_all add: ipv4packetviewParse_def ip_ok_def)
next
  case False
  have hl: "u8 (unat (m ! 0) mod 16 * 4) = ip_hl m" using ip_hl_le [of m] by (simp add: ip_hl_def)
  have tl: "u16 (be_at m 2 - ip_hl m) = be_at m 2 - ip_hl m"
    by (rule u16_id) (use be_at_le [of m 2] in linarith)
  have bad: "(ip_hl m < IP_HLEN \<or> IP_HLEN_MAX < ip_hl m \<or> a < ip_hl m \<or> be_at m 2 < ip_hl m \<or> a < be_at m 2) \<longleftrightarrow> \<not> ip_ok m a"
    using False ip_hl_le [of m] by (auto simp: ip_ok_def)
  have len: "20 \<le> length m" using False assms by simp
  have "rd8 m 0 = Some (m ! 0)" by (rule rd8_Some) (use len in linarith)
  with len show ?thesis
    using False by (simp add: ipv4packetviewParse_def ld16_eq ld32_eq Let_def hl tl bad ip_view_def)
qed

lemma parse_tcp_eq:
  assumes "a \<le> length m"
  shows "ipv4packetviewParseTcp L m a = Some (if ip_ok m a \<and> tcp_ok m then Some (tcp_view m) else None)"
proof (cases "ip_ok m a \<and> unat (m ! 9) = IP_PROTO_TCP \<and> be_at m 6 AND IP_OFFMASK = 0 \<and> \<not> be_at m 2 - ip_hl m < 20")
  case False
  then show ?thesis using assms tcp_hl_le
    by (auto simp: ipv4packetviewParseTcp_def parse_eq tcp_ok_def)
next
  case True
  note ok = ip_okD [OF conjunct1 [OF True]]
  have len: "ip_hl m + 20 \<le> length m" using True ok assms by linarith
  have hl: "u8 (be_at m (ip_hl m + 12) div 4096 * 4) = tcp_hl m" using tcp_hl_le [of m] by (simp add: tcp_hl_def)
  have fl: "be_at m (ip_hl m + 12) AND 255 \<le> 255"
    using take_bit_nat_less_exp [of 8 "be_at m (ip_hl m + 12)"] by (simp add: take_bit_eq_mask mask_numeral)
  have b: "be_at m 2 \<le> UINT16_MAX" by simp
  have bad: "(tcp_hl m < 20 \<or> be_at m 2 - ip_hl m < tcp_hl m) \<longleftrightarrow> \<not> tcp_ok m"
    using True ok by (auto simp: tcp_ok_def)
  have small: "ip_hl m + tcp_hl m \<le> UINT16_MAX" using ip_hl_le [of m] tcp_hl_le [of m] by simp
  have diff: "be_at m 2 - ip_hl m - tcp_hl m + 2 \<le> UINT32_MAX" "be_at m 2 - ip_hl m - tcp_hl m \<le> UINT16_MAX"
    using b by linarith+
  show ?thesis
    using True len assms small diff fl
    by (simp add: ipv4packetviewParseTcp_def parse_eq ld16_eq ld32_eq Let_def hl bad tcp_view_def ld_host32 add.commute [of 6 "ip_hl m"] add.commute [of 10 "ip_hl m"])
qed

lemma parse_udp_eq:
  assumes "a \<le> length m"
  shows "ipv4packetviewParseUdp L m a = Some (if ip_ok m a \<and> udp_ok m then Some (udp_view m) else None)"
proof (cases "ip_ok m a \<and> unat (m ! 9) = IP_PROTO_UDP \<and> be_at m 6 AND IP_OFFMASK = 0 \<and> \<not> be_at m 2 - ip_hl m < 8")
  case False
  then show ?thesis using assms
    by (auto simp: ipv4packetviewParseUdp_def parse_eq udp_ok_def)
next
  case True
  note ok = ip_okD [OF conjunct1 [OF True]]
  have len: "ip_hl m + 8 \<le> length m" using True ok assms by linarith
  have b: "be_at m 2 \<le> UINT16_MAX" "be_at m (ip_hl m + 4) \<le> UINT16_MAX" by simp_all
  have bad: "(be_at m (ip_hl m + 4) < 8 \<or> \<not> fragmented (ip_view m) \<and> be_at m 2 - ip_hl m < be_at m (ip_hl m + 4)) \<longleftrightarrow> \<not> udp_ok m"
    using True ok by (auto simp: udp_ok_def)
  have small: "ip_hl m + 8 \<le> UINT16_MAX" using ip_hl_le [of m] by simp
  have diff: "u16 (be_at m 2 - (ip_hl m + 8)) = be_at m 2 - (ip_hl m + 8)"
    "u16 (be_at m (ip_hl m + 4) - 8) = be_at m (ip_hl m + 4) - 8"
    by (rule u16_id, use b in linarith)+
  show ?thesis
    using True len assms small
    by (simp add: ipv4packetviewParseUdp_def parse_eq ld16_eq Let_def bad udp_view_def diff del: ip_view_simps(13))
qed

end

section \<open>Views are well formed\<close>

definition view_ok :: "nat \<Rightarrow> ipv4_packet_view \<Rightarrow> bool" where
  "view_ok available v \<longleftrightarrow> ip_total_length v \<le> available \<and> ip_total_length v \<le> UINT16_MAX \<and>
     20 \<le> ip_header_length v \<and> ip_header_length v \<le> 60 \<and> ip_header_length v mod 4 = 0 \<and>
     transport_offset v = ip_header_length v \<and> transport_offset v + transport_length v = ip_total_length v \<and>
     payload_offset v = transport_offset v + transport_header_length v \<and>
     payload_offset v + payload_length v \<le> ip_total_length v \<and>
     fragment_offset v \<le> 8191 \<and> (fragmented v \<longleftrightarrow> more_fragments v \<or> fragment_offset v \<noteq> 0) \<and>
     source_port v \<le> UINT16_MAX \<and> destination_port v \<le> UINT16_MAX \<and> protocol v \<le> UINT8_MAX \<and>
     source_address v \<le> UINT32_MAX \<and> destination_address v \<le> UINT32_MAX"

lemma ld_host32_swap: "byte_swap32 (be_at m i * 65536 + be_at m j) \<le> UINT32_MAX"
  by (rule swap32_le) (use be_at_le [of m i] be_at_le [of m j] in linarith)

lemma and_offmask: "(n :: nat) AND 8191 \<le> 8191"
  using take_bit_nat_less_exp [of 13 n] by (simp add: take_bit_eq_mask mask_numeral)

lemma and_or_nat: "(n :: nat) AND (a OR b) = (n AND a) OR (n AND b)"
  by (rule bit_eqI) (auto simp: bit_and_iff bit_or_iff)

lemma and_fragment: "(n :: nat) AND 16383 \<noteq> 0 \<longleftrightarrow> n AND 8192 \<noteq> 0 \<or> n AND 8191 \<noteq> 0"
proof -
  have "n AND 16383 = (n AND 8192) OR (n AND 8191)" using and_or_nat [of n 8192 8191] by simp
  moreover have "a OR b = 0 \<longleftrightarrow> a = 0 \<and> b = 0" for a b :: nat by (auto simp: bit_eq_iff bit_or_iff)
  ultimately show ?thesis by metis
qed

lemma ip_view_ok: "ip_ok m a \<Longrightarrow> view_ok a (ip_view m)"
  using ip_okD [of m a] ip_hl_le [of m] be_at_le [of m 2] unat_byte_less [of "m ! 9"] and_offmask [of "be_at m 6"]
    ld_host32_swap [of m 12 14] ld_host32_swap [of m 16 18] and_fragment [of "be_at m 6"]
  by (simp add: view_ok_def ip_view_def ip_hl_def)

lemma tcp_view_ok:
  assumes "ip_ok m a" "tcp_ok m"
  shows "view_ok a (tcp_view m)"
proof -
  have "ip_hl m + tcp_hl m \<le> be_at m 2" using assms(2) by (simp add: tcp_ok_def)
  moreover have "view_ok a (ip_view m)" by (rule ip_view_ok [OF assms(1)])
  ultimately show ?thesis by (simp add: view_ok_def tcp_view_def Let_def)
qed

lemma udp_view_ok:
  assumes "ip_ok m a" "udp_ok m"
  shows "view_ok a (udp_view m)"
proof -
  have "ip_hl m + 8 \<le> be_at m 2" "8 \<le> be_at m (ip_hl m + 4)"
    "fragmented (ip_view m) \<or> ip_hl m + be_at m (ip_hl m + 4) \<le> be_at m 2"
    using assms(2) by (auto simp: udp_ok_def)
  moreover have "view_ok a (ip_view m)" by (rule ip_view_ok [OF assms(1)])
  ultimately show ?thesis by (auto simp: view_ok_def udp_view_def Let_def)
qed

text \<open>C38. Parsed views are well typed. On any bytes each parser returns without leaving the available
  bytes, and a view it produces is consistent: header, transport and payload lie inside the packet in
  this order with matching lengths, the fragment flags agree with the offset, and every field
  is in the range of its type.\<close>

theorem packet_view_typed:
  assumes "lwip_laws L" "available \<le> length packet"
  shows "(\<exists>r. ipv4packetviewParse L packet available = Some r \<and> (\<forall>v. r = Some v \<longrightarrow> view_ok available v)) \<and>
    (\<exists>r. ipv4packetviewParseTcp L packet available = Some r \<and> (\<forall>v. r = Some v \<longrightarrow> view_ok available v \<and>
      protocol v = IP_PROTO_TCP \<and> fragment_offset v = 0 \<and> TCP_HLEN \<le> transport_header_length v \<and>
      payload_offset v + payload_length v = ip_total_length v)) \<and>
    (\<exists>r. ipv4packetviewParseUdp L packet available = Some r \<and> (\<forall>v. r = Some v \<longrightarrow> view_ok available v \<and>
      protocol v = IP_PROTO_UDP \<and> fragment_offset v = 0 \<and> transport_header_length v = UDP_HLEN \<and>
      (\<not> fragmented v \<longrightarrow> payload_length v + UDP_HLEN = udp_datagram_length v)))"
proof (intro conjI)
  show "\<exists>r. ipv4packetviewParse L packet available = Some r \<and> (\<forall>v. r = Some v \<longrightarrow> view_ok available v)"
    using lwip_laws.parse_eq [OF assms] ip_view_ok [of packet available] by simp
  show "\<exists>r. ipv4packetviewParseTcp L packet available = Some r \<and> (\<forall>v. r = Some v \<longrightarrow> view_ok available v \<and>
      protocol v = IP_PROTO_TCP \<and> fragment_offset v = 0 \<and> TCP_HLEN \<le> transport_header_length v \<and>
      payload_offset v + payload_length v = ip_total_length v)"
    using lwip_laws.parse_tcp_eq [OF assms] tcp_view_ok [of packet available]
    by (auto simp: tcp_ok_def tcp_view_def Let_def)
  show "\<exists>r. ipv4packetviewParseUdp L packet available = Some r \<and> (\<forall>v. r = Some v \<longrightarrow> view_ok available v \<and>
      protocol v = IP_PROTO_UDP \<and> fragment_offset v = 0 \<and> transport_header_length v = UDP_HLEN \<and>
      (\<not> fragmented v \<longrightarrow> payload_length v + UDP_HLEN = udp_datagram_length v))"
    using lwip_laws.parse_udp_eq [OF assms] udp_view_ok [of packet available]
    by (auto simp: udp_ok_def udp_view_def Let_def)
qed

definition sample_datagram :: "byte list" where
  "sample_datagram = [69, 0, 0, 30, 0, 1, 0, 0, 64, 17, 0, 0, 10, 0, 0, 1, 10, 0, 0, 2, 0, 53, 0, 80, 0, 10, 0, 0, 7, 8]"

theorem packet_view_typed_witness:
  "\<exists>v. ipv4packetviewParseUdp lwip_model sample_datagram 30 = Some (Some v) \<and> view_ok 30 v \<and>
    source_port v = 53 \<and> payload_length v = 2"
proof -
  have l: "lwip_laws lwip_model" "30 \<le> length sample_datagram" by unfold_locales (simp add: sample_datagram_def)
  have u: "ipv4packetviewParseUdp lwip_model sample_datagram 30 = Some (Some (udp_view sample_datagram))"
    using lwip_model.parse_udp_eq [of 30 sample_datagram]
    by (simp add: sample_datagram_def ip_ok_def udp_ok_def ip_hl_def be_at_def be16_def)
  have "view_ok 30 (udp_view sample_datagram)" using packet_view_typed [OF l] u by simp
  moreover have "source_port (udp_view sample_datagram) = 53" "payload_length (udp_view sample_datagram) = 2"
    by (simp_all add: sample_datagram_def udp_view_def ip_hl_def be_at_def be16_def)
  ultimately show ?thesis using u by blast
qed

end
