(* ===== verification/Packet_Checksum.thy ===== *)
theory Packet_Checksum
  imports Packet_View Checksum
begin

text \<open>
  Packet checksums: \<open>ww/net/wchecksum.c\<close>. A packet is byte memory; an operation returns its boolean result
  and the memory. The backend is the function chosen by \<open>checkSumInit\<close>.
\<close>

section \<open>Operations\<close>

type_synonym cksum_fn = "byte list \<Rightarrow> nat \<Rightarrow> nat \<Rightarrow> nat option"

text \<open>Which backend runs. The vector backends use processor intrinsics and are arguments.\<close>

definition checkSumInit :: "bool \<Rightarrow> bool \<Rightarrow> cksum_fn \<Rightarrow> cksum_fn \<Rightarrow> cksum_fn \<Rightarrow> cksum_fn" where
  "checkSumInit has_avx2 has_sse3 checksumAVX2 checksumSSE3 portable =
     (if has_avx2 then checksumAVX2 else if has_sse3 then checksumSSE3 else portable)"

definition calcGenericChecksum :: "cksum_fn \<Rightarrow> byte list \<Rightarrow> nat \<Rightarrow> nat \<Rightarrow> nat option" where
  "calcGenericChecksum checksum data len initial = checksum data len initial"

text \<open>The loop of \<open>wwLwipChecksum\<close> over spans of 65,534 bytes.\<close>

function lwipSpans :: "cksum_fn \<Rightarrow> byte list \<Rightarrow> nat \<Rightarrow> nat \<Rightarrow> nat option" where
  "lwipSpans checksum bytes len acc =
     (if len > UINT16_MAX then do {
        c \<leftarrow> calcGenericChecksum checksum bytes (UINT16_MAX - 1) 0;
        let s = u32 (acc + (UINT16_MAX - c));
        lwipSpans checksum (drop (UINT16_MAX - 1) bytes) (len - (UINT16_MAX - 1)) (s mod 65536 + s div 65536)
      } else do {
        c \<leftarrow> calcGenericChecksum checksum bytes (u16 len) 0;
        let s = u32 (acc + (UINT16_MAX - c));
        Some (u16 (s mod 65536 + s div 65536))
      })"
  by pat_completeness auto
termination
  by (relation "measure (\<lambda>(_, _, len, _). len)") simp_all

declare lwipSpans.simps [simp del]

definition wwLwipChecksum :: "cksum_fn \<Rightarrow> byte list \<Rightarrow> nat \<Rightarrow> nat option" where
  "wwLwipChecksum checksum data len =
     (if len = 0 then Some 0
      else if len \<le> UINT16_MAX then map_option (\<lambda>c. UINT16_MAX - c) (calcGenericChecksum checksum data (u16 len) 0)
      else lwipSpans checksum data len 0)"

definition checksumPseudoHeader :: "lwip \<Rightarrow> nat \<Rightarrow> nat \<Rightarrow> nat \<Rightarrow> nat \<Rightarrow> nat" where
  "checksumPseudoHeader L src dst proto len =
     (let src_h = lwip_htonl L src; dst_h = lwip_htonl L dst in
      u32 (src_h div 65536 mod 65536 + src_h mod 65536 + dst_h div 65536 mod 65536 + dst_h mod 65536 + proto + len))"

text \<open>\<open>IPH_CHKSUM_SET(ipheader, 0); IPH_CHKSUM_SET(ipheader, inet_chksum(...))\<close>.\<close>

definition setHeaderChecksum :: "lwip \<Rightarrow> cksum_fn \<Rightarrow> byte list \<Rightarrow> nat \<Rightarrow> byte list option" where
  "setHeaderChecksum L checksum buf hl = do {
     buf \<leftarrow> st16 buf 10 0;
     c \<leftarrow> inet_chksum L (wwLwipChecksum checksum) buf hl;
     st16 buf 10 c
   }"

text \<open>The validation before anything is written.\<close>

definition transportAccepted :: "lwip \<Rightarrow> byte list \<Rightarrow> nat \<Rightarrow> ipv4_packet_view \<Rightarrow> bool option" where
  "transportAccepted L buf available_len packet =
     (if fragmented packet then Some True
      else if protocol packet = IP_PROTO_TCP then map_option (\<lambda>r. r \<noteq> None) (ipv4packetviewParseTcp L buf available_len)
      else if protocol packet = IP_PROTO_UDP then map_option (\<lambda>r. r \<noteq> None) (ipv4packetviewParseUdp L buf available_len)
      else if protocol packet = IP_PROTO_ICMP then Some (\<not> transport_length packet < ICMP_HLEN)
      else Some True)"

definition setTransportChecksum :: "lwip \<Rightarrow> cksum_fn \<Rightarrow> byte list \<Rightarrow> ipv4_packet_view \<Rightarrow> byte list option" where
  "setTransportChecksum L checksum buf packet =
     (let at = transport_offset packet in
      if protocol packet = IP_PROTO_TCP then do {
        buf \<leftarrow> st16 buf (at + 16) 0;
        src \<leftarrow> ld32 buf 12;
        dst \<leftarrow> ld32 buf 16;
        c \<leftarrow> checksum (drop at buf) (transport_length packet)
               (checksumPseudoHeader L src dst IP_PROTO_TCP (transport_length packet));
        st16 buf (at + 16) c
      }
      else if protocol packet = IP_PROTO_UDP then do {
        len \<leftarrow> ld16 buf (at + 4);
        let udp_len = lwip_htons L len;
        buf \<leftarrow> st16 buf (at + 6) 0;
        src \<leftarrow> ld32 buf 12;
        dst \<leftarrow> ld32 buf 16;
        c \<leftarrow> checksum (drop at buf) udp_len (checksumPseudoHeader L src dst IP_PROTO_UDP udp_len);
        st16 buf (at + 6) (if c = 0 then 65535 else c)
      }
      else if protocol packet = IP_PROTO_ICMP then do {
        buf \<leftarrow> st16 buf (at + 2) 0;
        c \<leftarrow> checksum (drop at buf) (transport_length packet) 0;
        st16 buf (at + 2) c
      }
      else Some buf)"

definition calcFullPacketChecksum :: "lwip \<Rightarrow> cksum_fn \<Rightarrow> byte list \<Rightarrow> nat \<Rightarrow> (bool \<times> byte list) option" where
  "calcFullPacketChecksum L checksum buf available_len = do {
     r \<leftarrow> ipv4packetviewParse L buf available_len;
     case r of
       None \<Rightarrow> Some (False, buf)
     | Some packet \<Rightarrow> do {
         ok \<leftarrow> transportAccepted L buf available_len packet;
         if \<not> ok then Some (False, buf) else do {
           b \<leftarrow> setHeaderChecksum L checksum buf (ip_header_length packet);
           if fragmented packet then Some (True, b) else do {
             b \<leftarrow> setTransportChecksum L checksum b packet;
             Some (True, b)
           }}}}"

definition calcIpv4HeaderChecksum :: "lwip \<Rightarrow> cksum_fn \<Rightarrow> byte list \<Rightarrow> nat \<Rightarrow> (bool \<times> byte list) option" where
  "calcIpv4HeaderChecksum L checksum buf available_len = do {
     r \<leftarrow> ipv4packetviewParse L buf available_len;
     case r of
       None \<Rightarrow> Some (False, buf)
     | Some packet \<Rightarrow> do {
         b \<leftarrow> setHeaderChecksum L checksum buf (ip_header_length packet);
         Some (True, b)
       }}"

section \<open>Incremental updates\<close>

definition checksumUpdateWord16 :: "lwip \<Rightarrow> nat \<Rightarrow> nat \<Rightarrow> nat \<Rightarrow> nat" where
  "checksumUpdateWord16 L checksum_network old_word_network new_word_network =
     (if old_word_network = new_word_network then checksum_network
      else
        let hc = lwip_htons L checksum_network; m = lwip_htons L old_word_network; m' = lwip_htons L new_word_network;
            sum = foldLoop 16 (u32 ((UINT32_MAX - hc) mod 65536 + (UINT32_MAX - m) mod 65536 + m'))
        in lwip_htons L (u16 (UINT32_MAX - sum)))"

definition checksumUpdateWord32 :: "lwip \<Rightarrow> nat \<Rightarrow> nat \<Rightarrow> nat \<Rightarrow> nat" where
  "checksumUpdateWord32 L checksum_network old_value_network new_value_network =
     (if old_value_network = new_value_network then checksum_network
      else
        let old_h = lwip_htonl L old_value_network; new_h = lwip_htonl L new_value_network;
            step1 = checksumUpdateWord16 L checksum_network (lwip_htons L (old_h div 65536)) (lwip_htons L (new_h div 65536))
        in checksumUpdateWord16 L step1 (lwip_htons L (old_h mod 65536)) (lwip_htons L (new_h mod 65536)))"

datatype ipv4_checksum_address_field = kIpv4ChecksumAddressSource | kIpv4ChecksumAddressDestination

definition address_at :: "ipv4_checksum_address_field \<Rightarrow> nat" where
  "address_at field = (case field of kIpv4ChecksumAddressSource \<Rightarrow> 12 | kIpv4ChecksumAddressDestination \<Rightarrow> 16)"

text \<open>Where the transport checksum to update lies: \<open>Some None\<close> is the early result \<open>false\<close>,
  and inside it \<open>None\<close> that nothing needs to be updated.\<close>

definition transportField :: "lwip \<Rightarrow> byte list \<Rightarrow> nat \<Rightarrow> ipv4_packet_view \<Rightarrow> nat option option option" where
  "transportField L buf available_len packet =
     (if fragment_offset packet \<noteq> 0 then Some (Some None)
      else if protocol packet = IP_PROTO_TCP then do {
        r \<leftarrow> ipv4packetviewParseTcp L buf available_len;
        case r of None \<Rightarrow> Some None | Some transport \<Rightarrow> Some (Some (Some (transport_offset transport + 16)))
      }
      else if protocol packet = IP_PROTO_UDP then do {
        r \<leftarrow> ipv4packetviewParseUdp L buf available_len;
        case r of None \<Rightarrow> Some None
        | Some transport \<Rightarrow> do {
            c \<leftarrow> ld16 buf (transport_offset transport + 6);
            Some (Some (if c \<noteq> 0 then Some (transport_offset transport + 6) else None))
          }
      }
      else Some (Some None))"

definition setIpv4AddressWithChecksumUpdate ::
  "lwip \<Rightarrow> byte list \<Rightarrow> nat \<Rightarrow> ipv4_checksum_address_field \<Rightarrow> nat \<Rightarrow> (bool \<times> byte list) option" where
  "setIpv4AddressWithChecksumUpdate L buf available_len field new_address_network = do {
     r \<leftarrow> ipv4packetviewParse L buf available_len;
     case r of
       None \<Rightarrow> Some (False, buf)
     | Some packet \<Rightarrow> do {
         old_address_network \<leftarrow> ld32 buf (address_at field);
         if old_address_network = new_address_network then Some (True, buf) else do {
           f \<leftarrow> transportField L buf available_len packet;
           case f of
             None \<Rightarrow> Some (False, buf)
           | Some update \<Rightarrow> do {
               old_ip_chksum \<leftarrow> ld16 buf 10;
               new_trans_chksum \<leftarrow> (case update of
                   None \<Rightarrow> Some 0
                 | Some at \<Rightarrow> do {
                     old \<leftarrow> ld16 buf at;
                     let new = checksumUpdateWord32 L old old_address_network new_address_network;
                     Some (if protocol packet = IP_PROTO_UDP \<and> new = 0 then 65535 else new)
                   });
               b \<leftarrow> st32 buf (address_at field) new_address_network;
               b \<leftarrow> st16 b 10 (checksumUpdateWord32 L old_ip_chksum old_address_network new_address_network);
               case update of
                 None \<Rightarrow> Some (True, b)
               | Some at \<Rightarrow> do { b \<leftarrow> st16 b at new_trans_chksum; Some (True, b) }
             }}}}"

definition updateIpv4TransportChecksum16 :: "lwip \<Rightarrow> byte list \<Rightarrow> nat \<Rightarrow> nat \<Rightarrow> nat \<Rightarrow> (bool \<times> byte list) option" where
  "updateIpv4TransportChecksum16 L buf available_len old_word_network new_word_network = do {
     r \<leftarrow> ipv4packetviewParse L buf available_len;
     case r of
       None \<Rightarrow> Some (False, buf)
     | Some packet \<Rightarrow>
         if protocol packet \<noteq> IP_PROTO_TCP \<and> protocol packet \<noteq> IP_PROTO_UDP \<or> fragment_offset packet > 0
         then Some (False, buf)
         else if protocol packet = IP_PROTO_TCP then do {
           t \<leftarrow> ipv4packetviewParseTcp L buf available_len;
           case t of
             None \<Rightarrow> Some (False, buf)
           | Some transport \<Rightarrow>
               if old_word_network = new_word_network then Some (True, buf) else do {
                 let at = transport_offset transport + 16;
                 c \<leftarrow> ld16 buf at;
                 b \<leftarrow> st16 buf at (checksumUpdateWord16 L c old_word_network new_word_network);
                 Some (True, b)
               }
         } else do {
           t \<leftarrow> ipv4packetviewParseUdp L buf available_len;
           case t of
             None \<Rightarrow> Some (False, buf)
           | Some transport \<Rightarrow>
               if old_word_network = new_word_network then Some (True, buf) else do {
                 let at = transport_offset transport + 6;
                 c \<leftarrow> ld16 buf at;
                 if c = 0 then Some (True, buf) else do {
                   let new = checksumUpdateWord16 L c old_word_network new_word_network;
                   b \<leftarrow> st16 buf at (if new = 0 then 65535 else new);
                   Some (True, b)
                 }}
         }}"

text \<open>The structural checks of \<open>updateIpv4TransportChecksumAddresses\<close> on the fields a fragment carries.\<close>

definition fragmentShapeOk :: "ipv4_packet_view \<Rightarrow> nat \<Rightarrow> bool" where
  "fragmentShapeOk packet fin \<longleftrightarrow> \<not> (fragmented packet \<and>
     (transport_length packet = 0 \<or> more_fragments packet \<and> transport_length packet mod 8 \<noteq> 0 \<or>
      fin > UINT16_MAX - IP_HLEN \<or> fragment_state packet AND IP_DF \<noteq> 0))"

definition transportShapeOk :: "byte list \<Rightarrow> ipv4_packet_view \<Rightarrow> nat \<Rightarrow> nat \<Rightarrow> nat \<Rightarrow> bool option" where
  "transportShapeOk buf packet effective_protocol start fin =
     (let at = transport_offset packet in
      if effective_protocol = IP_PROTO_TCP then
        if \<not> more_fragments packet \<and> fin < TCP_HLEN then Some False
        else if start \<le> 12 \<and> fin > 12 then do {
          b \<leftarrow> rd8 buf (at + (12 - start));
          let header_length = unat b div 16 * 4;
          Some (\<not> (header_length < TCP_HLEN \<or> \<not> more_fragments packet \<and> header_length > fin))
        } else Some True
      else
        if \<not> more_fragments packet \<and> fin < UDP_HLEN then Some False
        else if start = 0 \<and> fin \<ge> 6 then do {
          udp_length \<leftarrow> rd_be16 buf (at + 4);
          Some (\<not> (udp_length < UDP_HLEN \<or> \<not> fragmented packet \<and> udp_length > fin))
        } else Some True)"

definition updateIpv4TransportChecksumAddresses ::
  "lwip \<Rightarrow> byte list \<Rightarrow> nat \<Rightarrow> nat \<Rightarrow> nat \<Rightarrow> nat \<Rightarrow> nat \<Rightarrow> nat \<Rightarrow> (bool \<times> byte list) option" where
  "updateIpv4TransportChecksumAddresses L buf available_len effective_protocol
       old_source_network old_destination_network new_source_network new_destination_network =
     (if effective_protocol \<noteq> IP_PROTO_TCP \<and> effective_protocol \<noteq> IP_PROTO_UDP then Some (False, buf) else do {
        r \<leftarrow> ipv4packetviewParse L buf available_len;
        case r of
          None \<Rightarrow> Some (False, buf)
        | Some packet \<Rightarrow> do {
            let start = u32 (fragment_offset packet * 8);
            let fin = u32 (start + transport_length packet);
            let checksum_offset = (if effective_protocol = IP_PROTO_TCP then 16 else 6);
            if \<not> fragmentShapeOk packet fin then Some (False, buf) else do {
              ok \<leftarrow> transportShapeOk buf packet effective_protocol start fin;
              if \<not> ok then Some (False, buf)
              else if fin \<le> checksum_offset \<or> start \<ge> checksum_offset + 2 then Some (fragmented packet, buf)
              else if start > checksum_offset \<or> fin < checksum_offset + 2 then Some (False, buf)
              else do {
                let field = transport_offset packet + checksum_offset - start;
                v \<leftarrow> ld16 buf field;
                if effective_protocol = IP_PROTO_UDP \<and> v = 0 then Some (True, buf) else do {
                  let v = checksumUpdateWord32 L v old_source_network new_source_network;
                  let v = checksumUpdateWord32 L v old_destination_network new_destination_network;
                  b \<leftarrow> st16 buf field (if effective_protocol = IP_PROTO_UDP \<and> v = 0 then 65535 else v);
                  Some (True, b)
                }}}}})"

end
