(* ===== verification/Packet_Checksum_Laws.thy ===== *)
theory Packet_Checksum_Laws
  imports Packet_Checksum
begin

text \<open>
  Packets leave the full computation with checksums that verify, and an incremental update gives byte
  for byte what the full computation would give.
\<close>

section \<open>Backends\<close>

text \<open>What the program relies on: a backend computes the Internet checksum of RFC 1071 in network order and
  reads only the bytes it is given.\<close>

locale checksum_backend = lwip_laws +
  fixes checksum :: cksum_fn
  assumes backend: "len \<le> length data \<Longrightarrow> len \<le> UINT16_MAX \<Longrightarrow> initial \<le> UINT32_MAX \<Longrightarrow>
    checksum data len initial = Some (byte_swap16 (rfc1071 initial (take len data)))"

lemma rfc1071_le: "initial \<le> UINT32_MAX \<Longrightarrow> rfc1071 initial data \<le> UINT16_MAX"
  by (simp add: rfc1071_canon)

lemma portable_backend:
  assumes "len \<le> length data" "len \<le> UINT16_MAX" "initial \<le> UINT32_MAX"
  shows "checksumDefault byte_swap16 data len initial = Some (byte_swap16 (rfc1071 initial (take len data)))"
  using checksumBuffer_ok [OF assms(1,2)] canon_cong [OF same_sum_add [OF same_sum_refl]] assms(3)
  by (auto simp: checksumDefault_def cChecksum_def finalize_canon rfc1071_canon)

interpretation portable: checksum_backend lwip_model "checksumDefault byte_swap16"
  by unfold_locales (rule portable_backend)

section \<open>Sums\<close>

lemma canon_zero [simp]: "canon x = 0 \<longleftrightarrow> x = 0"
  by (simp add: canon_def)

lemma canon_0 [simp]: "canon 0 = 0"
  by simp

lemma canon_mod: "canon x mod 65535 = x mod 65535"
  using canon_same [of x] by (simp add: same_sum_def)

lemma canon_id: "x \<le> 65535 \<Longrightarrow> canon x = x"
  using canon_unique [OF _ same_sum_refl] by metis

lemma mod_cancel:
  assumes "(a + c) mod 65535 = (b + c) mod (65535 :: nat)"
  shows "a mod 65535 = b mod 65535"
proof -
  have "(a + c + 65534 * c) mod 65535 = (b + c + 65534 * c) mod 65535" by (rule mod_add_cong [OF assms refl])
  moreover have "x + c + 65534 * c = x + 65535 * c" for x by simp
  ultimately show ?thesis by simp
qed

text \<open>A sum verifies when it is a positive multiple of 65,535, that is when its checksum is zero.\<close>

lemma rfc1071_zero: "initial \<le> UINT32_MAX \<Longrightarrow>
    rfc1071 initial data = 0 \<longleftrightarrow> 0 < initial + word_sum data \<and> (initial + word_sum data) mod 65535 = 0"
  using canon_le [of "initial + word_sum data"] canon_mod [of "initial + word_sum data"]
  by (auto simp: rfc1071_canon canon_def)

lemma complement_verifies: "(S + (65535 - canon S)) mod 65535 = 0" "0 < S + (65535 - canon S)"
proof -
  have "(S + (65535 - canon S)) mod 65535 = (canon S mod 65535 + (65535 - canon S)) mod 65535"
    by (simp add: canon_mod mod_add_left_eq)
  also have "\<dots> = (canon S + (65535 - canon S)) mod 65535" by (rule mod_add_left_eq)
  also have "\<dots> = 0" using canon_le [of S] by simp
  finally show "(S + (65535 - canon S)) mod 65535 = 0" .
  show "0 < S + (65535 - canon S)" by (cases "S = 0") (auto simp: canon_def)
qed

lemma word_sum_put:
  assumes "even i" "i + 2 \<le> length m" "v \<le> UINT16_MAX"
  shows "word_sum (put_be m i v) + be_at m i = word_sum m + v"
proof -
  have v: "unat (word_of_nat (v div 256) :: byte) * 256 + unat (word_of_nat v :: byte) = v"
    using be16_bytes [OF assms(3)] by (simp add: be16_def)
  have "word_sum (put_be m i v) = word_sum (take i m) + v + word_sum (drop (i + 2) m)"
    using assms v by (simp add: put_be_def word_sum_append be_bytes16_def)
  moreover have "m = take i m @ [m ! i, m ! (i + 1)] @ drop (i + 2) m"
    using take_two_nth [OF assms(2)] append_take_drop_id [of i m] append_take_drop_id [of 2 "drop i m"]
    by (simp add: add.commute)
  then have "word_sum m = word_sum (take i m) + be_at m i + word_sum (drop (i + 2) m)"
    using assms(1,2) word_sum_append [of "take i m" "[m ! i, m ! (i + 1)] @ drop (i + 2) m"]
    by (simp add: be_at_def be16_def)
  ultimately show ?thesis by simp
qed

text \<open>A checksum field filled with the complement of the sum over the zeroed region verifies.\<close>

lemma filled_field:
  assumes "even i" "i + 2 \<le> length m" "init \<le> UINT32_MAX"
  shows "rfc1071 init (put_be m i (rfc1071 init (put_be m i 0))) = 0"
proof -
  let ?z = "put_be m i 0" let ?c = "rfc1071 init ?z"
  have z: "i + 2 \<le> length ?z" using assms(2) by simp
  have "word_sum (put_be ?z i ?c) + be_at ?z i = word_sum ?z + ?c"
    by (rule word_sum_put [OF assms(1) z rfc1071_le [OF assms(3)]])
  then have "word_sum (put_be m i ?c) = word_sum ?z + ?c"
    using assms(2) by (simp add: put_be_put_be be_at_put_same)
  then have sum: "init + word_sum (put_be m i ?c) = (init + word_sum ?z) + (65535 - canon (init + word_sum ?z))"
    by (simp add: rfc1071_canon [OF assms(3)])
  show ?thesis unfolding rfc1071_zero [OF assms(3)] sum using complement_verifies [of "init + word_sum ?z"] by blast
qed

text \<open>Sums in network order: reversing the bytes multiplies by 256 modulo 65,535.\<close>

lemma swap16_mod: "byte_swap16 x mod 65535 = 256 * x mod 65535"
proof -
  have "x = x div 256 * 256 + x mod 256" by simp
  then have "256 * x = byte_swap16 x + 65535 * (x div 256)" unfolding byte_swap16_def by linarith
  then show ?thesis by simp
qed

lemma swap16_complement: "x \<le> UINT16_MAX \<Longrightarrow> byte_swap16 (UINT16_MAX - x) = UINT16_MAX - byte_swap16 x"
proof -
  assume "x \<le> UINT16_MAX"
  then have "x div 256 \<le> 255" using div_le_mono [of x UINT16_MAX 256] by simp
  then obtain p where p: "x div 256 + p = 255" using le_Suc_ex by metis
  have "x mod 256 \<le> 255" using mod_less_divisor [of 256 x] by simp
  then obtain q where q: "x mod 256 + q = 255" using le_Suc_ex by metis
  have "x = x div 256 * 256 + x mod 256" by simp
  then have "UINT16_MAX - x = p * 256 + q" using p q by linarith
  moreover have "(p * 256 + q) div 256 = p" "(p * 256 + q) mod 256 = q" using q by simp_all
  ultimately show ?thesis using p q by (simp add: byte_swap16_def)
qed

lemma swap16_canon_add: "canon (byte_swap16 (canon a) + byte_swap16 (canon b)) = byte_swap16 (canon (a + b))"
proof (rule sym, rule canon_unique)
  show "byte_swap16 (canon (a + b)) \<le> UINT16_MAX" by (rule swap16_le [OF canon_le])
  have "(byte_swap16 (canon a) + byte_swap16 (canon b)) mod 65535 = (256 * a + 256 * b) mod 65535"
    by (rule mod_add_cong) (simp_all add: swap16_mod mod_mult_right_eq [symmetric, of 256 "canon _"] canon_mod mod_mult_right_eq)
  moreover have "byte_swap16 (canon (a + b)) mod 65535 = 256 * (a + b) mod 65535"
    by (simp add: swap16_mod mod_mult_right_eq [symmetric, of 256 "canon _"] canon_mod mod_mult_right_eq)
  ultimately show "same_sum (byte_swap16 (canon (a + b))) (byte_swap16 (canon a) + byte_swap16 (canon b))"
    by (simp add: same_sum_def distrib_left)
qed

lemma fold_once:
  assumes "s \<le> 131070"
  shows "s mod 65536 + s div 65536 = canon s"
proof (cases "s < 65536")
  case True
  then show ?thesis by (simp add: canon_id)
next
  case False
  then obtain t where t: "s = 65536 + t" using le_Suc_ex not_less by metis
  have "same_sum (t + 1) s" by (rule same_sum_sym, rule same_sum_multiple [where k = 1]) (simp_all add: t)
  then have "t + 1 = canon s" using assms by (intro canon_unique) (simp_all add: t)
  then show ?thesis using assms by (simp add: t)
qed

context checksum_backend
begin

lemma span_sum:
  assumes "n \<le> length data" "n \<le> UINT16_MAX"
  shows "calcGenericChecksum checksum data n 0 = Some (UINT16_MAX - byte_swap16 (canon (word_sum (take n data))))"
  using backend [OF assms, of 0] swap16_complement [OF canon_le] by (simp add: calcGenericChecksum_def rfc1071_canon)

lemma spans_sum:
  assumes "len \<le> length bytes"
  shows "lwipSpans checksum bytes len (byte_swap16 (canon w)) = Some (byte_swap16 (canon (w + word_sum (take len bytes))))"
  using assms
proof (induction len arbitrary: bytes w rule: less_induct)
  case (less len)
  have step: "let s = u32 (byte_swap16 (canon w) + (UINT16_MAX - (UINT16_MAX - byte_swap16 (canon x)))) in
      s mod 65536 + s div 65536 = byte_swap16 (canon (w + x))" for x
  proof -
    have le: "byte_swap16 (canon w) \<le> UINT16_MAX" "byte_swap16 (canon x) \<le> UINT16_MAX" by (rule swap16_le [OF canon_le])+
    then have "u32 (byte_swap16 (canon w) + (UINT16_MAX - (UINT16_MAX - byte_swap16 (canon x)))) = byte_swap16 (canon w) + byte_swap16 (canon x)"
      by simp
    then show ?thesis using fold_once [of "byte_swap16 (canon w) + byte_swap16 (canon x)"] le by (simp add: Let_def swap16_canon_add)
  qed
  show ?case
  proof (cases "len > UINT16_MAX")
    case True
    have "take len bytes = take 65534 bytes @ take (len - 65534) (drop 65534 bytes)"
      using take_add [of 65534 "len - 65534" bytes] True by simp
    then have "word_sum (take len bytes) = word_sum (take 65534 bytes) + word_sum (take (len - 65534) (drop 65534 bytes))"
      using True less.prems by (simp add: word_sum_append)
    moreover have "lwipSpans checksum (drop 65534 bytes) (len - 65534) (byte_swap16 (canon (w + word_sum (take 65534 bytes)))) =
        Some (byte_swap16 (canon (w + word_sum (take 65534 bytes) + word_sum (take (len - 65534) (drop 65534 bytes)))))"
      using True less.prems by (intro less.IH) simp_all
    ultimately show ?thesis
      using True less.prems span_sum [of 65534 bytes] step [of "word_sum (take 65534 bytes)"]
      by (subst lwipSpans.simps) (simp add: Let_def add.assoc)
  next
    case False
    then show ?thesis
      using less.prems span_sum [of len bytes] step [of "word_sum (take len bytes)"] swap16_le [OF canon_le]
      by (subst lwipSpans.simps) (simp add: Let_def)
  qed
qed

lemma lwip_sum:
  assumes "len \<le> length data"
  shows "wwLwipChecksum checksum data len = Some (byte_swap16 (canon (word_sum (take len data))))"
proof (cases "len \<le> UINT16_MAX")
  case True
  then show ?thesis using span_sum [OF assms True] swap16_le [OF canon_le, of "word_sum (take len data)"]
    by (simp add: wwLwipChecksum_def canon_def)
next
  case False
  then show ?thesis using spans_sum [OF assms, of 0] by (simp add: wwLwipChecksum_def)
qed

lemma inet_chksum_eq:
  assumes "len \<le> length data"
  shows "inet_chksum L (wwLwipChecksum checksum) data len = Some (byte_swap16 (rfc1071 0 (take len data)))"
  using lwip_sum [OF assms] swap16_complement [OF canon_le] by (simp add: chksum rfc1071_canon)

end

section \<open>Updating a checksum\<close>

definition upd16 :: "nat \<Rightarrow> nat \<Rightarrow> nat \<Rightarrow> nat" where
  "upd16 hc m m' = (if m = m' then hc else 65535 - canon (65535 - hc + (65535 - m) + m'))"

definition upd32 :: "nat \<Rightarrow> nat \<times> nat \<Rightarrow> nat \<times> nat \<Rightarrow> nat" where
  "upd32 hc old new = upd16 (upd16 hc (fst old) (fst new)) (snd old) (snd new)"

lemma upd16_le: "hc \<le> UINT16_MAX \<Longrightarrow> upd16 hc m m' \<le> UINT16_MAX"
  by (simp add: upd16_def)

lemma upd32_le: "hc \<le> UINT16_MAX \<Longrightarrow> upd32 hc old new \<le> UINT16_MAX"
  by (simp add: upd32_def upd16_le)

text \<open>In complements: the new sum has the residue of the old one with the word exchanged, and stays positive.\<close>

lemma upd16_complement:
  assumes "y \<le> UINT16_MAX" "m \<le> UINT16_MAX" "m' \<le> UINT16_MAX"
  shows "\<exists>z \<le> UINT16_MAX. upd16 (UINT16_MAX - y) m m' = UINT16_MAX - z \<and>
    (z + m) mod 65535 = (y + m') mod 65535 \<and> (0 < y \<longrightarrow> 0 < z)"
proof (cases "m = m'")
  case True
  then show ?thesis using assms by (intro exI [of _ y]) (simp add: upd16_def)
next
  case False
  let ?z = "canon (y + (65535 - m) + m')"
  have "(?z + m) mod 65535 = (y + (65535 - m) + m' + m) mod 65535"
    by (rule mod_add_cong) (simp_all add: canon_mod)
  also have "y + (65535 - m) + m' + m = y + m' + 65535" using assms by simp
  also have "(y + m' + 65535) mod 65535 = (y + m') mod 65535" by (rule mod_add_self2)
  finally have "(?z + m) mod 65535 = (y + m') mod 65535" .
  moreover have "0 < ?z" if "0 < y" using that canon_zero [of "y + (65535 - m) + m'"] by linarith
  moreover have "upd16 (UINT16_MAX - y) m m' = UINT16_MAX - ?z" using False assms by (simp add: upd16_def)
  ultimately show ?thesis using canon_le by blast
qed

lemma upd32_complement:
  assumes "y \<le> UINT16_MAX" "h \<le> UINT16_MAX" "l \<le> UINT16_MAX" "h' \<le> UINT16_MAX" "l' \<le> UINT16_MAX"
  shows "\<exists>z \<le> UINT16_MAX. upd32 (UINT16_MAX - y) (h, l) (h', l') = UINT16_MAX - z \<and>
    (z + (h + l)) mod 65535 = (y + (h' + l')) mod 65535 \<and> (0 < y \<longrightarrow> 0 < z)"
proof -
  obtain x where x: "x \<le> UINT16_MAX" "upd16 (UINT16_MAX - y) h h' = UINT16_MAX - x"
    "(x + h) mod 65535 = (y + h') mod 65535" "0 < y \<longrightarrow> 0 < x"
    using upd16_complement [OF assms(1,2,4)] by blast
  obtain z where z: "z \<le> UINT16_MAX" "upd16 (UINT16_MAX - x) l l' = UINT16_MAX - z"
    "(z + l) mod 65535 = (x + l') mod 65535" "0 < x \<longrightarrow> 0 < z"
    using upd16_complement [OF x(1) assms(3,5)] by blast
  have "(z + (h + l)) mod 65535 = (z + l + h) mod 65535" by (simp add: ac_simps)
  also have "\<dots> = (x + l' + h) mod 65535" by (rule mod_add_cong [OF z(3) refl])
  also have "\<dots> = (x + h + l') mod 65535" by (simp add: ac_simps)
  also have "\<dots> = (y + h' + l') mod 65535" by (rule mod_add_cong [OF x(3) refl])
  finally show ?thesis using x z by (auto simp: upd32_def add.assoc)
qed

text \<open>The residue of checksum field plus exchanged words is kept.\<close>

lemma upd32_residue:
  assumes "hc \<le> UINT16_MAX" "h \<le> UINT16_MAX" "l \<le> UINT16_MAX" "h' \<le> UINT16_MAX" "l' \<le> UINT16_MAX"
  shows "(upd32 hc (h, l) (h', l') + (h' + l')) mod 65535 = (hc + (h + l)) mod 65535"
proof -
  obtain z where z: "z \<le> UINT16_MAX" "upd32 hc (h, l) (h', l') = UINT16_MAX - z"
    "(z + (h + l)) mod 65535 = (UINT16_MAX - hc + (h' + l')) mod 65535"
    using upd32_complement [of "UINT16_MAX - hc", OF _ assms(2-5)] assms(1) by auto
  have "(UINT16_MAX - z + (h' + l') + 65535) mod 65535 = ((UINT16_MAX - hc + (h' + l')) + hc + (UINT16_MAX - z)) mod 65535"
    using assms(1) by (simp add: ac_simps)
  also have "\<dots> = ((z + (h + l)) + hc + (UINT16_MAX - z)) mod 65535"
    by (intro mod_add_cong z(3) [symmetric] refl)
  also have "z + (h + l) + hc + (UINT16_MAX - z) = hc + (h + l) + 65535" using z(1) by simp
  finally show ?thesis by (simp only: z(2) mod_add_self2)
qed

text \<open>Applied to the checksum of a positive sum, the update gives the checksum of the changed sum.\<close>

lemma upd32_canon:
  assumes "0 < S" "0 < S'" "S' + (h + l) = S + (h' + l')" "h \<le> UINT16_MAX" "l \<le> UINT16_MAX" "h' \<le> UINT16_MAX" "l' \<le> UINT16_MAX"
  shows "upd32 (UINT16_MAX - canon S) (h, l) (h', l') = UINT16_MAX - canon S'"
proof -
  obtain z where z: "z \<le> UINT16_MAX" "upd32 (UINT16_MAX - canon S) (h, l) (h', l') = UINT16_MAX - z"
    "(z + (h + l)) mod 65535 = (canon S + (h' + l')) mod 65535" "0 < canon S \<longrightarrow> 0 < z"
    using upd32_complement [OF canon_le assms(4-7)] by blast
  have "(z + (h + l)) mod 65535 = (S' + (h + l)) mod 65535"
    unfolding z(3) assms(3) by (rule mod_add_cong) (simp_all add: canon_mod)
  then have "z mod 65535 = S' mod 65535" by (rule mod_cancel)
  moreover have "0 < z" using z(4) assms(1) by (metis canon_zero neq0_conv)
  ultimately have "same_sum z S'" using assms(2) by (simp add: same_sum_def)
  then show ?thesis using z(2) canon_unique [OF z(1)] by simp
qed

text \<open>A UDP field never holds zero; in complements it is the residue of the sum.\<close>

definition nz :: "nat \<Rightarrow> nat" where
  "nz c = (if c = 0 then 65535 else c)"

lemma nz_le: "c \<le> UINT16_MAX \<Longrightarrow> nz c \<le> UINT16_MAX"
  by (simp add: nz_def)

lemma nz_mod: "nz c mod 65535 = c mod 65535"
  by (simp add: nz_def)

lemma nz_complement: "z \<le> UINT16_MAX \<Longrightarrow> nz (UINT16_MAX - z) = UINT16_MAX - z mod 65535"
  by (cases "z = UINT16_MAX") (auto simp: nz_def)

lemma nz_upd32_canon:
  assumes "S' + (h + l) = S + (h' + l')" "h \<le> UINT16_MAX" "l \<le> UINT16_MAX" "h' \<le> UINT16_MAX" "l' \<le> UINT16_MAX"
  shows "nz (upd32 (nz (UINT16_MAX - canon S)) (h, l) (h', l')) = nz (UINT16_MAX - canon S')"
proof -
  have r: "S mod 65535 \<le> UINT16_MAX" using mod_less_divisor [of 65535 S] by linarith
  obtain z where z: "z \<le> UINT16_MAX" "upd32 (UINT16_MAX - S mod 65535) (h, l) (h', l') = UINT16_MAX - z"
    "(z + (h + l)) mod 65535 = (S mod 65535 + (h' + l')) mod 65535"
    using upd32_complement [OF r assms(2-5)] by blast
  have "(z + (h + l)) mod 65535 = (S' + (h + l)) mod 65535" unfolding z(3) assms(1) by (rule mod_add_left_eq)
  then have "z mod 65535 = S' mod 65535" by (rule mod_cancel)
  then show ?thesis by (simp add: nz_complement canon_le canon_mod z)
qed

section \<open>The operations in host order\<close>

definition put_addr :: "byte list \<Rightarrow> nat \<Rightarrow> nat \<times> nat \<Rightarrow> byte list" where
  "put_addr m at w = put_be (put_be m at (fst w)) (at + 2) (snd w)"

definition addr :: "byte list \<Rightarrow> nat \<Rightarrow> nat \<times> nat" where
  "addr m at = (be_at m at, be_at m (at + 2))"

definition net32 :: "nat \<times> nat \<Rightarrow> nat" where
  "net32 w = byte_swap32 (fst w * 65536 + snd w)"

definition pseudo :: "byte list \<Rightarrow> nat \<Rightarrow> nat \<Rightarrow> nat" where
  "pseudo m proto len = be_at m 12 + be_at m 14 + (be_at m 16 + be_at m 18) + proto + len"

abbreviation half_ok :: "nat \<times> nat \<Rightarrow> bool" where
  "half_ok w \<equiv> fst w \<le> UINT16_MAX \<and> snd w \<le> UINT16_MAX"

lemma net32_parts: "half_ok w \<Longrightarrow> byte_swap32 (net32 w) div 65536 = fst w \<and> byte_swap32 (net32 w) mod 65536 = snd w"
proof -
  assume w: "half_ok w"
  then have "fst w * 65536 + snd w \<le> UINT32_MAX" by simp
  then have "byte_swap32 (net32 w) = fst w * 65536 + snd w" by (simp add: net32_def)
  then show ?thesis using w by simp
qed

lemma net32_inj: "half_ok v \<Longrightarrow> half_ok w \<Longrightarrow> net32 v = net32 w \<longleftrightarrow> v = w"
  using net32_parts [of v] net32_parts [of w] by (metis prod.collapse)

lemma net32_le: "half_ok w \<Longrightarrow> net32 w \<le> UINT32_MAX"
  unfolding net32_def by (rule swap32_le) simp

lemma net32_surj:
  assumes "v \<le> UINT32_MAX"
  shows "\<exists>w. half_ok w \<and> v = net32 w"
proof (intro exI conjI)
  let ?s = "byte_swap32 v"
  have s: "?s \<le> UINT32_MAX" using assms by simp
  show "fst (?s div 65536, ?s mod 65536) \<le> UINT16_MAX" using div_le_mono [OF s, of 65536] by simp
  show "snd (?s div 65536, ?s mod 65536) \<le> UINT16_MAX" using mod_less_divisor [of 65536 ?s] by simp
  show "v = net32 (?s div 65536, ?s mod 65536)" using assms by (simp add: net32_def)
qed

lemma addr_ok [simp]: "half_ok (addr m i)"
  by (simp add: addr_def)

lemma ld32_addr: "i + 4 \<le> length m \<Longrightarrow> ld32 m i = Some (net32 (addr m i))"
  by (simp add: ld32_eq net32_def addr_def)

lemma le_bytes_add: "le_bytes (a + b) v = le_bytes a v @ le_bytes b (v div 256 ^ a)"
  by (induction a arbitrary: v) (simp_all add: div_mult2_eq)

lemma st32_addr:
  assumes "i + 4 \<le> length m" "half_ok w"
  shows "st32 m i (net32 w) = Some (put_addr m i w)"
proof -
  let ?v = "net32 w"
  have le4: "le_bytes 4 v = le_bytes 2 v @ le_bytes 2 (v div 65536)" for v
    using le_bytes_add [of 2 2 v] by simp
  have low: "le_bytes 2 v = le_bytes 2 (v mod 65536)" for v
  proof -
    have "v mod 65536 = 256 * (v div 256 mod 256) + v mod 256" using mod_mult2_eq [of v 256 256] by simp
    then have "v mod 65536 mod 256 = v mod 256" "v mod 65536 div 256 = v div 256 mod 256" by simp_all
    then show ?thesis by (simp add: numeral_2_eq_2 word_unat_eq_iff unat_word8_of_nat)
  qed
  have b: "byte_swap16 (fst w) \<le> UINT16_MAX" "byte_swap16 (snd w) \<le> UINT16_MAX" using assms(2) by simp_all
  have v: "?v = byte_swap16 (snd w) * 65536 + byte_swap16 (fst w)"
    using assms(2) by (simp add: net32_def byte_swap32_def)
  have "?v mod 65536 = byte_swap16 (fst w)" "?v div 65536 = byte_swap16 (snd w)" using b by (simp_all add: v)
  then have "le_bytes 4 ?v = le_bytes 2 (byte_swap16 (fst w)) @ le_bytes 2 (byte_swap16 (snd w))"
    using le4 [of ?v] low [of ?v] by simp
  moreover have swap: "le_bytes 2 (byte_swap16 x) = be_bytes16 x" if "x \<le> UINT16_MAX" for x
    using st16_eq [of 0 "[0, 0]" x] that by (simp add: st16_def mem_write_def put_be_def)
  ultimately have "le_bytes 4 ?v = be_bytes16 (fst w) @ be_bytes16 (snd w)" using assms(2) by simp
  then have "st32 m i ?v = Some (take i m @ be_bytes16 (fst w) @ be_bytes16 (snd w) @ drop (i + 4) m)"
    using assms(1) by (simp add: st32_def mem_write_def)
  moreover have "put_addr m i w = take i m @ be_bytes16 (fst w) @ be_bytes16 (snd w) @ drop (i + 4) m"
    using assms(1) by (simp add: put_addr_def put_be_def numeral_eq_Suc)
  ultimately show ?thesis by simp
qed

lemma length_put_addr [simp]: "i + 4 \<le> length m \<Longrightarrow> length (put_addr m i w) = length m"
  by (simp add: put_addr_def)

lemma nth_put_addr: "i + 4 \<le> length m \<Longrightarrow> j < i \<or> i + 4 \<le> j \<Longrightarrow> put_addr m i w ! j = m ! j"
  by (auto simp: put_addr_def nth_put_be)

lemma be_at_put_addr: "i + 4 \<le> length m \<Longrightarrow> j + 2 \<le> i \<or> i + 4 \<le> j \<Longrightarrow> be_at (put_addr m i w) j = be_at m j"
  by (auto simp: be_at_def nth_put_addr)

lemma addr_put_addr: "i + 4 \<le> length m \<Longrightarrow> half_ok w \<Longrightarrow> addr (put_addr m i w) i = w"
  by (simp add: addr_def put_addr_def be_at_put_same be_at_put_other)

lemma put_addr_same: "i + 4 \<le> length m \<Longrightarrow> put_addr m i (addr m i) = m"
proof -
  assume i: "i + 4 \<le> length m"
  have "put_be m i (be_at m i) = m" using i by (intro put_be_same) simp
  moreover have "put_be m (i + 2) (be_at m (i + 2)) = m" using i by (intro put_be_same) simp
  ultimately show ?thesis by (simp add: put_addr_def addr_def)
qed

text \<open>Header and transport fields as the full computation fills them.\<close>

definition header_field :: "byte list \<Rightarrow> nat" where
  "header_field m = rfc1071 0 (put_be (take (ip_hl m) m) 10 0)"

definition region_field :: "byte list \<Rightarrow> nat \<Rightarrow> nat \<Rightarrow> nat \<Rightarrow> nat" where
  "region_field m off n init = rfc1071 init (put_be (take n (drop (ip_hl m) m)) off 0)"

definition transport_len :: "byte list \<Rightarrow> nat" where
  "transport_len m = be_at m 2 - ip_hl m"

definition udp_len :: "byte list \<Rightarrow> nat" where
  "udp_len m = be_at m (ip_hl m + 4)"

definition frag :: "byte list \<Rightarrow> bool" where
  "frag m \<longleftrightarrow> be_at m 6 AND (IP_MF OR IP_OFFMASK) \<noteq> 0"

definition proto :: "byte list \<Rightarrow> nat" where
  "proto m = unat (m ! 9)"

definition accepted :: "byte list \<Rightarrow> bool" where
  "accepted m \<longleftrightarrow> frag m \<or> (proto m = 6 \<longrightarrow> tcp_ok m) \<and> (proto m = 17 \<longrightarrow> udp_ok m) \<and> (proto m = 1 \<longrightarrow> 8 \<le> transport_len m)"

definition fill_header :: "byte list \<Rightarrow> byte list" where
  "fill_header m = put_be m 10 (header_field m)"

definition fill_transport :: "byte list \<Rightarrow> byte list" where
  "fill_transport m = (let hl = ip_hl m in
     if proto m = 6 then put_be m (hl + 16) (region_field m 16 (transport_len m) (pseudo m 6 (transport_len m)))
     else if proto m = 17 then put_be m (hl + 6) (nz (region_field m 6 (udp_len m) (pseudo m 17 (udp_len m))))
     else if proto m = 1 then put_be m (hl + 2) (region_field m 2 (transport_len m) 0)
     else m)"

definition fill_packet :: "byte list \<Rightarrow> byte list" where
  "fill_packet m = (if frag m then fill_header m else fill_transport (fill_header m))"

lemma pseudo_le: "p \<le> UINT8_MAX \<Longrightarrow> n \<le> UINT16_MAX \<Longrightarrow> pseudo m p n \<le> UINT32_MAX"
  using be_at_le [of m 12] be_at_le [of m 14] be_at_le [of m 16] be_at_le [of m 18] unfolding pseudo_def by linarith

lemma transport_len_le: "transport_len m \<le> UINT16_MAX"
  using be_at_le [of m 2] unfolding transport_len_def by linarith

lemma fields_le: "header_field m \<le> UINT16_MAX" "init \<le> UINT32_MAX \<Longrightarrow> region_field m off n init \<le> UINT16_MAX"
  by (simp_all add: header_field_def region_field_def rfc1071_le)

text \<open>Writing a field outside the bytes the parsers look at keeps what they see.\<close>

lemma shape_put:
  assumes "i + 2 \<le> length m" "10 \<le> i"
  shows "ip_hl (put_be m i v) = ip_hl m" "proto (put_be m i v) = proto m" "frag (put_be m i v) = frag m"
    "transport_len (put_be m i v) = transport_len m" "ip_ok (put_be m i v) a = ip_ok m a"
    "be_at (put_be m i v) 2 = be_at m 2" "be_at (put_be m i v) 6 = be_at m 6"
proof -
  have b: "be_at (put_be m i v) j = be_at m j" if "j \<le> 8" for j
    using assms that by (intro be_at_put_other) auto
  have n: "put_be m i v ! 0 = m ! 0" "put_be m i v ! 9 = m ! 9" using assms by (simp_all add: nth_put_other)
  then show h: "ip_hl (put_be m i v) = ip_hl m" "proto (put_be m i v) = proto m" "frag (put_be m i v) = frag m"
    by (simp_all add: ip_hl_def proto_def frag_def b)
  then show "transport_len (put_be m i v) = transport_len m" "ip_ok (put_be m i v) a = ip_ok m a"
    "be_at (put_be m i v) 2 = be_at m 2" "be_at (put_be m i v) 6 = be_at m 6"
    using n by (simp_all add: transport_len_def ip_ok_def b)
qed

lemma accepted_lengths:
  assumes "accepted m" "\<not> frag m"
  shows "proto m = 6 \<longrightarrow> 20 \<le> transport_len m"
    "proto m = 17 \<longrightarrow> 8 \<le> transport_len m \<and> 8 \<le> udp_len m \<and> udp_len m \<le> transport_len m"
    "proto m = 1 \<longrightarrow> 8 \<le> transport_len m"
proof -
  show "proto m = 6 \<longrightarrow> 20 \<le> transport_len m"
  proof
    assume "proto m = 6"
    then have "20 \<le> tcp_hl m" "ip_hl m + tcp_hl m \<le> be_at m 2" using assms by (simp_all add: accepted_def tcp_ok_def)
    then show "20 \<le> transport_len m" unfolding transport_len_def by linarith
  qed
  show "proto m = 17 \<longrightarrow> 8 \<le> transport_len m \<and> 8 \<le> udp_len m \<and> udp_len m \<le> transport_len m"
  proof
    assume "proto m = 17"
    then have "ip_hl m + 8 \<le> be_at m 2" "8 \<le> udp_len m" "ip_hl m + udp_len m \<le> be_at m 2"
      using assms by (simp_all add: accepted_def udp_ok_def udp_len_def frag_def)
    then show "8 \<le> transport_len m \<and> 8 \<le> udp_len m \<and> udp_len m \<le> transport_len m"
      unfolding transport_len_def by linarith
  qed
  show "proto m = 1 \<longrightarrow> 8 \<le> transport_len m" using assms by (simp add: accepted_def)
qed

lemma udp_len_put: "i + 2 \<le> length m \<Longrightarrow> 10 \<le> i \<Longrightarrow> i + 2 \<le> ip_hl m + 4 \<or> ip_hl m + 6 \<le> i \<Longrightarrow> udp_len (put_be m i v) = udp_len m"
  using be_at_put_other [of i m "ip_hl m + 4" v] by (auto simp: udp_len_def shape_put)

lemma header_put:
  assumes "ip_ok m (length m)"
  shows "ip_view (put_be m 10 v) = ip_view m" "accepted (put_be m 10 v) = accepted m"
    "ip_ok (put_be m 10 v) (length m)" "length (put_be m 10 v) = length m"
proof -
  note ok = ip_okD [OF assms]
  have l: "10 + 2 \<le> length m" using ok by simp
  have b: "be_at (put_be m 10 v) j = be_at m j" if "j \<le> 8 \<or> 12 \<le> j" for j using l that by (intro be_at_put_other) auto
  have n: "put_be m 10 v ! j = m ! j" if "j < 10" for j using l that by (simp add: nth_put_other)
  show "ip_view (put_be m 10 v) = ip_view m" using shape_put [OF l] by (simp add: ip_view_def b n)
  have "tcp_ok (put_be m 10 v) = tcp_ok m" "udp_ok (put_be m 10 v) = udp_ok m"
    using shape_put [OF l] ok by (simp_all add: tcp_ok_def udp_ok_def tcp_hl_def b n)
  then show "accepted (put_be m 10 v) = accepted m" using shape_put [OF l] by (simp add: accepted_def)
  show "ip_ok (put_be m 10 v) (length m)" using shape_put [OF l] assms by simp
  show "length (put_be m 10 v) = length m" using l by simp
qed

lemma ip_ok_length: "ip_ok m a \<Longrightarrow> a \<le> length m \<Longrightarrow> ip_ok m (length m)"
  by (auto simp: ip_ok_def)

context checksum_backend
begin

lemma pseudo_eq:
  assumes "20 \<le> length m" "p \<le> UINT8_MAX" "n \<le> UINT16_MAX"
  shows "checksumPseudoHeader L (net32 (addr m 12)) (net32 (addr m 16)) p n = pseudo m p n"
proof -
  have h: "lwip_htonl L (net32 (addr m i)) = be_at m i * 65536 + be_at m (i + 2)" for i
    using htonl_swap [OF ld_host32] by (simp add: net32_def addr_def)
  have d: "(be_at m i * 65536 + be_at m j) div 65536 mod 65536 = be_at m i" "(be_at m i * 65536 + be_at m j) mod 65536 = be_at m j" for i j
    using less_Suc_eq_le [THEN iffD2, OF be_at_le [of m j]] less_Suc_eq_le [THEN iffD2, OF be_at_le [of m i]] by simp_all
  have "u32 (pseudo m p n) = pseudo m p n" using pseudo_le [OF assms(2,3)] by simp
  then show ?thesis unfolding checksumPseudoHeader_def Let_def h d by (simp add: pseudo_def add.assoc)
qed

lemma setHeader_eq:
  assumes "20 \<le> ip_hl m" "ip_hl m \<le> length m"
  shows "setHeaderChecksum L checksum m (ip_hl m) = Some (fill_header m)"
proof -
  have z: "st16 m 10 0 = Some (put_be m 10 0)" using assms by (intro st16_zero) simp
  have "inet_chksum L (wwLwipChecksum checksum) (put_be m 10 0) (ip_hl m) = Some (byte_swap16 (header_field m))"
    using assms by (subst inet_chksum_eq) (simp_all add: header_field_def take_put_be)
  moreover have "st16 (put_be m 10 0) 10 (byte_swap16 (header_field m)) = Some (fill_header m)"
    using assms by (subst st16_eq) (simp_all add: fields_le fill_header_def put_be_put_be)
  ultimately show ?thesis by (simp add: setHeaderChecksum_def z)
qed

lemma region_backend:
  assumes "ip_hl m + n \<le> length m" "off + 2 \<le> n" "n \<le> UINT16_MAX" "init \<le> UINT32_MAX"
  shows "checksum (drop (ip_hl m) (put_be m (ip_hl m + off) 0)) n init = Some (byte_swap16 (region_field m off n init))"
proof -
  have "drop (ip_hl m) (put_be m (ip_hl m + off) 0) = put_be (drop (ip_hl m) m) off 0"
    using assms drop_put_be [of "ip_hl m" "ip_hl m + off" m 0] by simp
  then show ?thesis
    using assms by (simp add: backend region_field_def take_put_be)
qed

lemma setTransport_eq:
  assumes "ip_ok m (length m)" "accepted m" "\<not> frag m"
  shows "setTransportChecksum L checksum m (ip_view m) = Some (fill_transport m)"
proof -
  let ?hl = "ip_hl m" and ?tl = "transport_len m" and ?ul = "udp_len m"
  note ok = ip_okD [OF assms(1)]
  have len: "?hl + ?tl \<le> length m" "20 \<le> length m" using ok by (simp_all add: transport_len_def)
  have ad: "ld32 (put_be m (?hl + off) 0) 12 = Some (net32 (addr m 12))" "ld32 (put_be m (?hl + off) 0) 16 = Some (net32 (addr m 16))"
    if "?hl + off + 2 \<le> length m" for off
    using that ok len by (simp_all add: ld32_addr addr_def be_at_put_other)
  have st: "st16 (put_be m (?hl + off) 0) (?hl + off) (byte_swap16 v) = Some (put_be m (?hl + off) v)"
    if "?hl + off + 2 \<le> length m" "v \<le> UINT16_MAX" for off v
    using that by (simp add: st16_eq put_be_put_be)
  consider "proto m = 6" "20 \<le> ?tl" | "proto m = 17" "8 \<le> ?tl" "8 \<le> ?ul" "?ul \<le> ?tl" | "proto m = 1" "8 \<le> ?tl"
    | "proto m \<noteq> 6" "proto m \<noteq> 17" "proto m \<noteq> 1"
    using accepted_lengths [OF assms(2,3)] by blast
  then show ?thesis
  proof cases
    case 1
    have o: "?hl + 16 + 2 \<le> length m" using 1 len by simp
    have r: "checksum (drop ?hl (put_be m (?hl + 16) 0)) ?tl (pseudo m 6 ?tl) =
        Some (byte_swap16 (region_field m 16 ?tl (pseudo m 6 ?tl)))"
      by (rule region_backend) (use 1 len transport_len_le pseudo_le in auto)
    show ?thesis
      using 1 o r st [OF o fields_le(2) [OF pseudo_le]] ad [OF o] pseudo_eq [OF len(2), of 6 ?tl] transport_len_le [of m]
      by (simp add: setTransportChecksum_def fill_transport_def Let_def proto_def st16_zero flip: transport_len_def)
  next
    case 2
    have o: "?hl + 6 + 2 \<le> length m" using 2 len by simp
    have u: "?ul \<le> UINT16_MAX" by (simp add: udp_len_def)
    have r: "checksum (drop ?hl (put_be m (?hl + 6) 0)) ?ul (pseudo m 17 ?ul) =
        Some (byte_swap16 (region_field m 6 ?ul (pseudo m 17 ?ul)))"
      by (rule region_backend) (use 2 len u pseudo_le in auto)
    have l: "ld16 m (?hl + 4) = Some (byte_swap16 ?ul)" using o by (simp add: ld16_eq udp_len_def)
    define c where "c = region_field m 6 ?ul (pseudo m 17 ?ul)"
    have c: "c \<le> UINT16_MAX" unfolding c_def by (rule fields_le(2) [OF pseudo_le]) (use u in simp_all)
    have "st16 (put_be m (?hl + 6) 0) (?hl + 6) (if c = 0 then 65535 else byte_swap16 c) = Some (put_be m (?hl + 6) (nz c))"
      using st [OF o, of 65535] st [OF o c] by (simp add: nz_def)
    then show ?thesis
      using 2 o r l u ad [OF o] pseudo_eq [OF len(2) _ u, of 17]
      by (simp add: setTransportChecksum_def fill_transport_def Let_def proto_def st16_zero flip: c_def split del: if_split)
  next
    case 3
    have o: "?hl + 2 + 2 \<le> length m" using 3 len by simp
    have r: "checksum (drop ?hl (put_be m (?hl + 2) 0)) ?tl 0 = Some (byte_swap16 (region_field m 2 ?tl 0))"
      by (rule region_backend) (use 3 len transport_len_le in auto)
    show ?thesis
      using 3 o r st [OF o fields_le(2)]
      by (simp add: setTransportChecksum_def fill_transport_def Let_def proto_def st16_zero flip: transport_len_def)
  next
    case 4
    then show ?thesis by (simp add: setTransportChecksum_def fill_transport_def Let_def proto_def)
  qed
qed

lemma full_eq:
  assumes "a \<le> length m"
  shows "calcFullPacketChecksum L checksum m a = Some (if ip_ok m a \<and> accepted m then (True, fill_packet m) else (False, m))"
proof (cases "ip_ok m a")
  case False
  then show ?thesis by (simp add: calcFullPacketChecksum_def parse_eq [OF assms])
next
  case True
  have ok: "ip_ok m (length m)" by (rule ip_ok_length [OF True assms])
  have acc: "transportAccepted L m a (ip_view m) = Some (accepted m)"
    using True by (auto simp: transportAccepted_def accepted_def parse_tcp_eq [OF assms] parse_udp_eq [OF assms]
        frag_def proto_def transport_len_def)
  show ?thesis
  proof (cases "accepted m")
    case f: False
    then show ?thesis using True by (simp add: calcFullPacketChecksum_def parse_eq [OF assms] acc)
  next
    case t: True
    have h: "setHeaderChecksum L checksum m (ip_hl m) = Some (fill_header m)"
      using ip_okD [OF ok] by (intro setHeader_eq) simp_all
    have "setTransportChecksum L checksum (fill_header m) (ip_view m) = Some (fill_transport (fill_header m))" if "\<not> frag m"
      using setTransport_eq [of "fill_header m"] header_put [OF ok, of "header_field m"] t that
        shape_put(3) [of 10 m "header_field m"] ip_okD [OF ok]
      by (simp add: fill_header_def)
    then show ?thesis
      using True t h by (simp add: calcFullPacketChecksum_def parse_eq [OF assms] acc fill_packet_def frag_def)
  qed
qed

end

section \<open>Packets that verify\<close>

definition sums_verify :: "byte list \<Rightarrow> bool" where
  "sums_verify m \<longleftrightarrow> rfc1071 0 (take (ip_hl m) m) = 0 \<and>
     (\<not> frag m \<longrightarrow>
       (proto m = 6 \<longrightarrow> rfc1071 (pseudo m 6 (transport_len m)) (take (transport_len m) (drop (ip_hl m) m)) = 0) \<and>
       (proto m = 17 \<longrightarrow> be_at m (ip_hl m + 6) \<noteq> 0 \<and>
          rfc1071 (pseudo m 17 (udp_len m)) (take (udp_len m) (drop (ip_hl m) m)) = 0) \<and>
       (proto m = 1 \<longrightarrow> rfc1071 0 (take (transport_len m) (drop (ip_hl m) m)) = 0))"

text \<open>The bytes of the two checksum fields.\<close>

definition checksum_bytes :: "byte list \<Rightarrow> nat set" where
  "checksum_bytes m = {10, 11} \<union>
     (if frag m then {}
      else if proto m = 6 then {ip_hl m + 16, ip_hl m + 17}
      else if proto m = 17 then {ip_hl m + 6, ip_hl m + 7}
      else if proto m = 1 then {ip_hl m + 2, ip_hl m + 3} else {})"

lemma header_verifies:
  assumes "ip_ok m (length m)"
  shows "rfc1071 0 (take (ip_hl m) (fill_header m)) = 0"
proof -
  note ok = ip_okD [OF assms]
  have "rfc1071 0 (put_be (take (ip_hl m) m) 10 (rfc1071 0 (put_be (take (ip_hl m) m) 10 0))) = 0"
    using ok by (intro filled_field) simp_all
  then show ?thesis using ok by (simp add: fill_header_def header_field_def take_put_be)
qed

lemma region_verifies:
  assumes "ip_hl m + n \<le> length m" "off + 2 \<le> n" "even off" "init \<le> UINT32_MAX"
  shows "rfc1071 init (take n (drop (ip_hl m) (put_be m (ip_hl m + off) (region_field m off n init)))) = 0"
proof -
  have "drop (ip_hl m) (put_be m (ip_hl m + off) v) = put_be (drop (ip_hl m) m) off v" for v
    using assms drop_put_be [of "ip_hl m" "ip_hl m + off" m v] by simp
  then show ?thesis
    using assms filled_field [of off "take n (drop (ip_hl m) m)" init] by (simp add: region_field_def take_put_be)
qed

lemma region_verifies_nz:
  assumes "ip_hl m + n \<le> length m" "off + 2 \<le> n" "even off" "init \<le> UINT32_MAX" "0 < init"
  shows "rfc1071 init (take n (drop (ip_hl m) (put_be m (ip_hl m + off) (nz (region_field m off n init))))) = 0"
proof -
  let ?r = "take n (drop (ip_hl m) m)" let ?c = "region_field m off n init"
  have p: "take n (drop (ip_hl m) (put_be m (ip_hl m + off) v)) = put_be ?r off v" for v
    using assms drop_put_be [of "ip_hl m" "ip_hl m + off" m v] by (simp add: take_put_be)
  have w: "word_sum (put_be ?r off v) + be_at ?r off = word_sum ?r + v" if "v \<le> UINT16_MAX" for v
    using assms that by (intro word_sum_put) simp_all
  have c: "?c \<le> UINT16_MAX" by (rule fields_le(2) [OF assms(4)])
  have "(word_sum (put_be ?r off (nz ?c)) + be_at ?r off) mod 65535 = (word_sum (put_be ?r off ?c) + be_at ?r off) mod 65535"
    unfolding w [OF c] w [OF nz_le [OF c]] by (rule mod_add_cong [OF refl nz_mod])
  then have "word_sum (put_be ?r off (nz ?c)) mod 65535 = word_sum (put_be ?r off ?c) mod 65535" by (rule mod_cancel)
  then have "(init + word_sum (put_be ?r off (nz ?c))) mod 65535 = (init + word_sum (put_be ?r off ?c)) mod 65535"
    by (rule mod_add_cong [OF refl])
  then show ?thesis
    using region_verifies [OF assms(1-4)] assms(5) by (simp add: p rfc1071_zero [OF assms(4)])
qed

lemma transport_put:
  assumes "ip_ok m (length m)" "ip_hl m \<le> i" "i + 2 \<le> length m"
  shows "pseudo (put_be m i v) p n = pseudo m p n" "take (ip_hl m) (put_be m i v) = take (ip_hl m) m"
    "ip_hl (put_be m i v) = ip_hl m" "proto (put_be m i v) = proto m" "frag (put_be m i v) = frag m"
    "transport_len (put_be m i v) = transport_len m"
    "ip_hl m + 6 \<le> i \<Longrightarrow> udp_len (put_be m i v) = udp_len m"
  using ip_okD [OF assms(1)] assms(2,3) shape_put [of i m v] udp_len_put [of i m v]
  by (simp_all add: pseudo_def be_at_put_other take_put_be_after)

lemma transport_verifies:
  assumes ok: "ip_ok m (length m)" and acc: "accepted m" "\<not> frag m" and h: "rfc1071 0 (take (ip_hl m) m) = 0"
  shows "sums_verify (fill_transport m)"
proof -
  let ?hl = "ip_hl m" and ?tl = "transport_len m" and ?ul = "udp_len m"
  note len = accepted_lengths [OF acc]
  have room: "?hl + ?tl \<le> length m" using ip_okD [OF ok] by (simp add: transport_len_def)
  have u: "?ul \<le> UINT16_MAX" by (simp add: udp_len_def)
  consider "proto m = 6" | "proto m = 17" | "proto m = 1" | "proto m \<noteq> 6" "proto m \<noteq> 17" "proto m \<noteq> 1" by blast
  then show ?thesis
  proof cases
    case 1
    note t = transport_put [OF ok, of "?hl + 16"]
    have "rfc1071 (pseudo m 6 ?tl) (take ?tl (drop ?hl (put_be m (?hl + 16) (region_field m 16 ?tl (pseudo m 6 ?tl))))) = 0"
      using 1 len room pseudo_le transport_len_le by (intro region_verifies) auto
    then show ?thesis using 1 len(1) room h t by (simp add: fill_transport_def Let_def sums_verify_def)
  next
    case 2
    note t = transport_put [OF ok, of "?hl + 6"]
    have i: "pseudo m 17 ?ul \<le> UINT32_MAX" "0 < pseudo m 17 ?ul" using pseudo_le [of 17 ?ul m] u by (simp_all add: pseudo_def)
    have r: "rfc1071 (pseudo m 17 ?ul) (take ?ul (drop ?hl (put_be m (?hl + 6) (nz (region_field m 6 ?ul (pseudo m 17 ?ul)))))) = 0"
      using 2 len room i by (intro region_verifies_nz) auto
    have "be_at (put_be m (?hl + 6) (nz (region_field m 6 ?ul (pseudo m 17 ?ul)))) (?hl + 6) \<noteq> 0"
      using 2 len(2) room nz_le [OF fields_le(2) [OF i(1)]] by (subst be_at_put_same) (simp_all add: nz_def)
    then show ?thesis using 2 len(2) room h t r by (simp add: fill_transport_def Let_def sums_verify_def)
  next
    case 3
    note t = transport_put [OF ok, of "?hl + 2"]
    have "rfc1071 0 (take ?tl (drop ?hl (put_be m (?hl + 2) (region_field m 2 ?tl 0)))) = 0"
      using 3 len room by (intro region_verifies) auto
    then show ?thesis using 3 len(3) room h t by (simp add: fill_transport_def Let_def sums_verify_def)
  next
    case 4
    then show ?thesis using h by (simp add: fill_transport_def Let_def sums_verify_def)
  qed
qed

lemma fill_verifies:
  assumes "ip_ok m (length m)" "accepted m"
  shows "sums_verify (fill_packet m)"
proof -
  have l: "10 + 2 \<le> length m" using ip_okD [OF assms(1)] by simp
  note s = shape_put [OF l, of "header_field m", simplified, folded fill_header_def]
  note p = header_put [OF assms(1), of "header_field m", folded fill_header_def]
  have h: "rfc1071 0 (take (ip_hl (fill_header m)) (fill_header m)) = 0"
    using header_verifies [OF assms(1)] s by simp
  show ?thesis
  proof (cases "frag m")
    case True
    then show ?thesis using h s by (simp add: fill_packet_def sums_verify_def)
  next
    case False
    then show ?thesis using transport_verifies [of "fill_header m"] h p s assms(2) by (simp add: fill_packet_def)
  qed
qed

lemma fill_frame:
  assumes "ip_ok m (length m)" "accepted m"
  shows "length (fill_packet m) = length m" "j \<notin> checksum_bytes m \<Longrightarrow> fill_packet m ! j = m ! j"
proof -
  have l: "10 + 2 \<le> length m" using ip_okD [OF assms(1)] by simp
  note s = shape_put [OF l, of "header_field m", simplified, folded fill_header_def]
  have room: "ip_hl m + transport_len m \<le> length m" using ip_okD [OF assms(1)] by (simp add: transport_len_def)
  have h: "length (fill_header m) = length m" "j \<notin> checksum_bytes m \<Longrightarrow> fill_header m ! j = m ! j"
    using l by (auto simp: fill_header_def nth_put_be checksum_bytes_def)
  show "length (fill_packet m) = length m"
    using h(1) s accepted_lengths [OF assms(2)] room by (auto simp: fill_packet_def fill_transport_def Let_def)
  show "j \<notin> checksum_bytes m \<Longrightarrow> fill_packet m ! j = m ! j"
    using h s accepted_lengths [OF assms(2)] room
    by (auto simp: fill_packet_def fill_transport_def Let_def nth_put_be checksum_bytes_def)
qed

section \<open>Property\<close>

text \<open>C13. The full computation is right or refuses. On any bytes it returns without leaving them. It refuses
  exactly when the IPv4 header, or the transport header of an unfragmented TCP, UDP or ICMP packet, does not fit,
  and then changes nothing. Otherwise the header checksum and the transport checksum of an
  unfragmented packet verify under RFC 1071, a UDP checksum is not zero, and no other byte changes.\<close>

theorem packet_checksum_full:
  assumes "checksum_backend L checksum" "available_len \<le> length buf"
  shows "\<exists>ok buf'. calcFullPacketChecksum L checksum buf available_len = Some (ok, buf') \<and>
    (ok \<longleftrightarrow> ip_ok buf available_len \<and> accepted buf) \<and>
    (if ok then sums_verify buf' \<and> length buf' = length buf \<and> (\<forall>j. j \<notin> checksum_bytes buf \<longrightarrow> buf' ! j = buf ! j)
     else buf' = buf)"
  using checksum_backend.full_eq [OF assms] ip_ok_length [OF _ assms(2)] fill_verifies [of buf] fill_frame [of buf] by auto

theorem packet_checksum_full_witness:
  "\<exists>buf'. calcFullPacketChecksum lwip_model (checksumDefault byte_swap16) sample_datagram 30 = Some (True, buf') \<and>
    sums_verify buf' \<and> length buf' = 30"
proof -
  have l: "30 \<le> length sample_datagram" "length sample_datagram = 30" by (simp_all add: sample_datagram_def)
  have "ip_ok sample_datagram 30 \<and> accepted sample_datagram"
    by (simp add: sample_datagram_def ip_ok_def accepted_def udp_ok_def ip_hl_def be_at_def be16_def frag_def proto_def)
  then show ?thesis
    using packet_checksum_full [OF portable.checksum_backend_axioms l(1)] l(2) by auto
qed

end
