(* ===== verification/Packet_Update_Laws.thy ===== *)
theory Packet_Update_Laws
  imports Packet_Checksum_Laws
begin

text \<open>
  The incremental updates of \<open>wchecksum.c\<close>: replacing an address gives byte for byte the packet a full
  computation would give, and the residue of every packet, damaged or fragmented, is kept.
\<close>

section \<open>The incremental operations in host order\<close>

definition tfield :: "byte list \<Rightarrow> nat option option" where
  "tfield m =
     (if be_at m 6 AND IP_OFFMASK \<noteq> 0 then Some None
      else if proto m = 6 then (if tcp_ok m then Some (Some (ip_hl m + 16)) else None)
      else if proto m = 17 then (if udp_ok m then Some (if be_at m (ip_hl m + 6) \<noteq> 0 then Some (ip_hl m + 6) else None) else None)
      else Some None)"

definition new_field :: "byte list \<Rightarrow> nat \<Rightarrow> nat \<times> nat \<Rightarrow> nat \<times> nat \<Rightarrow> nat" where
  "new_field m i old new = (let c = upd32 (be_at m i) old new in if proto m = 17 then nz c else c)"

definition moved :: "byte list \<Rightarrow> nat \<Rightarrow> nat \<times> nat \<Rightarrow> nat option \<Rightarrow> byte list" where
  "moved m at new u =
     (let b = put_be (put_addr m at new) 10 (upd32 (be_at m 10) (addr m at) new) in
      case u of None \<Rightarrow> b | Some i \<Rightarrow> put_be b i (new_field m i (addr m at) new))"

lemma fold_loop_canon: "foldLoop 16 s = canon s"
  using canon_unique [of "foldLoop 16 s" s] foldLoop_ok [of 16 s] by simp

context lwip_laws
begin

lemma update16_eq:
  assumes "hc \<le> UINT16_MAX" "m \<le> UINT16_MAX" "m' \<le> UINT16_MAX"
  shows "checksumUpdateWord16 L (byte_swap16 hc) (byte_swap16 m) (byte_swap16 m') = byte_swap16 (upd16 hc m m')"
proof -
  have c: "(UINT32_MAX - x) mod 65536 = 65535 - x" if "x \<le> UINT16_MAX" for x
  proof -
    have "UINT32_MAX - x = (65535 - x) + 65535 * 65536" using that by simp
    then have "(UINT32_MAX - x) mod 65536 = (65535 - x) mod 65536" by (simp only: mod_mult_self1)
    then show ?thesis by simp
  qed
  have u: "u16 (UINT32_MAX - canon x) = 65535 - canon x" for x
    using c [OF canon_le] by (simp add: u16_def)
  show ?thesis
    using assms by (simp add: checksumUpdateWord16_def Let_def swap16_inj c u fold_loop_canon upd16_def htons)
qed

lemma update32_eq:
  assumes "hc \<le> UINT16_MAX" "half_ok old" "half_ok new"
  shows "checksumUpdateWord32 L (byte_swap16 hc) (net32 old) (net32 new) = byte_swap16 (upd32 hc old new)"
proof (cases "old = new")
  case True
  then show ?thesis by (simp add: checksumUpdateWord32_def upd32_def upd16_def)
next
  case False
  have h: "lwip_htonl L (net32 w) div 65536 = fst w" "lwip_htonl L (net32 w) mod 65536 = snd w" if "half_ok w" for w
    using net32_parts [OF that] net32_le [OF that] by (simp_all add: htonl)
  show ?thesis
    using False assms net32_inj [OF assms(2,3)]
    by (simp add: checksumUpdateWord32_def Let_def h htons update16_eq upd16_le upd32_def)
qed

lemma tfield_eq:
  assumes "a \<le> length m" "ip_ok m a"
  shows "transportField L m a (ip_view m) = Some (tfield m)"
proof -
  have "ld16 m (ip_hl m + 6) = Some (byte_swap16 (be_at m (ip_hl m + 6)))" if "udp_ok m"
    using that ip_okD [OF assms(2)] assms(1) by (intro ld16_eq) (auto simp: udp_ok_def)
  then show ?thesis
    using assms by (auto simp: transportField_def tfield_def parse_tcp_eq parse_udp_eq proto_def)
qed

lemma tfield_range:
  assumes "ip_ok m a" "tfield m = Some (Some i)"
  shows "ip_hl m + 6 \<le> i" "i + 2 \<le> be_at m 2"
  using assms ip_okD [OF assms(1)]
  by (auto simp: tfield_def tcp_ok_def udp_ok_def split: if_splits)

lemma set_address_eq:
  assumes a: "a \<le> length m" and w: "half_ok w"
  shows "setIpv4AddressWithChecksumUpdate L m a field (net32 w) = Some
    (if \<not> ip_ok m a then (False, m)
     else if addr m (address_at field) = w then (True, m)
     else case tfield m of None \<Rightarrow> (False, m) | Some u \<Rightarrow> (True, moved m (address_at field) w u))"
proof (cases "ip_ok m a")
  case False
  then show ?thesis by (simp add: setIpv4AddressWithChecksumUpdate_def parse_eq [OF a])
next
  case True
  let ?at = "address_at field"
  note ok = ip_okD [OF True]
  have at: "12 \<le> ?at" "?at + 4 \<le> 20" by (cases field; simp add: address_at_def)+
  have l: "?at + 4 \<le> length m" "10 + 2 \<le> length m" using at ok a by simp_all
  have ld: "ld32 m ?at = Some (net32 (addr m ?at))" by (rule ld32_addr [OF l(1)])
  have ne: "net32 (addr m ?at) = net32 w \<longleftrightarrow> addr m ?at = w" by (rule net32_inj [OF addr_ok w])
  let ?h = "upd32 (be_at m 10) (addr m ?at) w"
  have hdr: "st32 m ?at (net32 w) = Some (put_addr m ?at w)" "ld16 m 10 = Some (byte_swap16 (be_at m 10))"
    "checksumUpdateWord32 L (byte_swap16 (be_at m 10)) (net32 (addr m ?at)) (net32 w) = byte_swap16 ?h"
    "st16 (put_addr m ?at w) 10 (byte_swap16 ?h) = Some (put_be (put_addr m ?at w) 10 ?h)"
    using l w by (simp_all add: st32_addr ld16_eq update32_eq st16_eq upd32_le)
  show ?thesis
  proof (cases "tfield m")
    case None
    then show ?thesis using True ld ne by (simp add: setIpv4AddressWithChecksumUpdate_def parse_eq [OF a] tfield_eq [OF a True])
  next
    case (Some u)
    show ?thesis
    proof (cases u)
      case None
      then show ?thesis using True ld ne hdr Some
        by (simp add: setIpv4AddressWithChecksumUpdate_def parse_eq [OF a] tfield_eq [OF a True] moved_def)
    next
      case (Some i)
      have i: "i + 2 \<le> length m" using tfield_range [OF True] \<open>tfield m = Some u\<close> Some ok a by fastforce
      let ?c = "upd32 (be_at m i) (addr m ?at) w"
      have "(if proto m = 17 \<and> byte_swap16 ?c = 0 then 65535 else byte_swap16 ?c) = byte_swap16 (new_field m i (addr m ?at) w)"
        by (simp add: new_field_def nz_def Let_def)
      moreover have "new_field m i (addr m ?at) w \<le> UINT16_MAX" by (simp add: new_field_def Let_def nz_le upd32_le)
      then have "st16 (put_be (put_addr m ?at w) 10 ?h) i (byte_swap16 (new_field m i (addr m ?at) w)) =
          Some (put_be (put_be (put_addr m ?at w) 10 ?h) i (new_field m i (addr m ?at) w))"
        using i l by (intro st16_eq) simp_all
      moreover have "ld16 m i = Some (byte_swap16 (be_at m i))" by (rule ld16_eq [OF i])
      moreover have "checksumUpdateWord32 L (byte_swap16 (be_at m i)) (net32 (addr m ?at)) (net32 w) = byte_swap16 ?c"
        using w by (simp add: update32_eq)
      ultimately show ?thesis using True ld ne hdr \<open>tfield m = Some u\<close> Some
        by (cases "addr m ?at = w") (simp_all add: setIpv4AddressWithChecksumUpdate_def parse_eq [OF a] tfield_eq [OF a True] moved_def Let_def
            flip: proto_def del: swap16_simps split del: if_split cong: if_cong)
    qed
  qed
qed

end

section \<open>Incremental and full agree\<close>

lemma word_sum_addr:
  assumes "even i" "i + 4 \<le> length r" "half_ok w"
  shows "word_sum (put_addr r i w) + (fst (addr r i) + snd (addr r i)) = word_sum r + (fst w + snd w)"
proof -
  have "word_sum (put_addr r i w) + be_at (put_be r i (fst w)) (i + 2) = word_sum (put_be r i (fst w)) + snd w"
    unfolding put_addr_def using assms by (intro word_sum_put) simp_all
  moreover have "be_at (put_be r i (fst w)) (i + 2) = be_at r (i + 2)" using assms(2) by (intro be_at_put_other) simp_all
  moreover have "word_sum (put_be r i (fst w)) + be_at r i = word_sum r + fst w" using assms by (intro word_sum_put) simp_all
  ultimately show ?thesis by (simp add: addr_def)
qed

lemma word_sum_pos: "r ! 0 \<noteq> 0 \<Longrightarrow> 2 \<le> length r \<Longrightarrow> 0 < word_sum r"
  by (cases r rule: be_words.cases) (auto simp: unat_eq_0)

lemma take_put_addr: "i + 4 \<le> n \<Longrightarrow> n \<le> length m \<Longrightarrow> take n (put_addr m i w) = put_addr (take n m) i w"
  by (simp add: put_addr_def take_put_be)

lemma drop_put_addr: "i + 4 \<le> n \<Longrightarrow> n \<le> length m \<Longrightarrow> drop n (put_addr m i w) = drop n m"
  by (simp add: put_addr_def drop_put_be_before)

lemma put_be_addr: "j + 2 \<le> i \<or> i + 4 \<le> j \<Longrightarrow> i + 4 \<le> length m \<Longrightarrow> j + 2 \<le> length m \<Longrightarrow>
    put_be (put_addr m i w) j v = put_addr (put_be m j v) i w"
  by (rule nth_equalityI) (auto simp: put_addr_def nth_put_be)

lemma addr_put_be: "i + 4 \<le> length m \<Longrightarrow> j + 2 \<le> length m \<Longrightarrow> j + 2 \<le> i \<or> i + 4 \<le> j \<Longrightarrow> addr (put_be m j v) i = addr m i"
  by (auto simp: addr_def be_at_put_other)

lemma shape_addr:
  assumes "ip_ok m (length m)" "12 \<le> i" "i + 4 \<le> 20"
  shows "ip_hl (put_addr m i w) = ip_hl m" "proto (put_addr m i w) = proto m" "frag (put_addr m i w) = frag m"
    "transport_len (put_addr m i w) = transport_len m" "ip_ok (put_addr m i w) a = ip_ok m a"
    "accepted (put_addr m i w) = accepted m" "udp_len (put_addr m i w) = udp_len m"
    "length (put_addr m i w) = length m"
proof -
  note ok = ip_okD [OF assms(1)]
  have l: "i + 2 \<le> length m" "10 \<le> i" "i + 2 + 2 \<le> length (put_be m i (fst w))" "10 \<le> i + 2" using ok assms(2,3) by simp_all
  note s = shape_put [OF l(1,2)] shape_put [OF l(3,4)]
  then show s': "ip_hl (put_addr m i w) = ip_hl m" "proto (put_addr m i w) = proto m" "frag (put_addr m i w) = frag m"
    "transport_len (put_addr m i w) = transport_len m" "ip_ok (put_addr m i w) a = ip_ok m a"
    by (simp_all add: put_addr_def)
  have b: "be_at (put_addr m i w) j = be_at m j" if "j \<le> 8 \<or> 20 \<le> j" for j
    using assms(2,3) ok that by (intro be_at_put_addr) auto
  have n: "put_addr m i w ! 9 = m ! 9" using assms(2,3) ok by (intro nth_put_addr) auto
  have "tcp_ok (put_addr m i w) = tcp_ok m" "udp_ok (put_addr m i w) = udp_ok m"
    using ok s' by (simp_all add: tcp_ok_def udp_ok_def tcp_hl_def b n)
  then show "accepted (put_addr m i w) = accepted m" using s' by (simp add: accepted_def)
  show "udp_len (put_addr m i w) = udp_len m" using ok s' by (simp add: udp_len_def b)
  show "length (put_addr m i w) = length m" using ok assms(3) by (intro length_put_addr) simp
qed

lemma header_field_addr:
  assumes "ip_ok m (length m)" "12 \<le> i" "i + 4 \<le> 20" "even i" "half_ok w"
  shows "upd32 (header_field m) (addr m i) w = header_field (put_addr m i w)"
proof -
  note ok = ip_okD [OF assms(1)]
  let ?r = "put_be (take (ip_hl m) m) 10 0"
  have l: "i + 4 \<le> ip_hl m" "10 + 2 \<le> i" "ip_hl m \<le> length m" using ok assms(2,3) by simp_all
  have r: "put_be (take (ip_hl m) (put_addr m i w)) 10 0 = put_addr ?r i w"
    using l by (simp add: take_put_addr put_be_addr)
  have ad: "addr ?r i = addr m i" using l by (simp add: addr_def be_at_put_other) (simp add: be_at_def)
  have z: "?r ! 0 = m ! 0" "put_addr ?r i w ! 0 = m ! 0" using l by (simp_all add: nth_put_addr nth_put_be)
  have "unat (m ! 0) div 16 = 4" using assms(1) by (simp add: ip_ok_def)
  then have "m ! 0 \<noteq> 0" by auto
  then have pos: "0 < word_sum ?r" "0 < word_sum (put_addr ?r i w)" using z l by (auto intro!: word_sum_pos)
  have "word_sum (put_addr ?r i w) + (fst (addr m i) + snd (addr m i)) = word_sum ?r + (fst w + snd w)"
    using word_sum_addr [of i ?r w] l assms(4,5) by (simp add: ad)
  then have "upd32 (65535 - canon (word_sum ?r)) (addr m i) w = 65535 - canon (word_sum (put_addr ?r i w))"
    using upd32_canon [OF pos, of "fst (addr m i)" "snd (addr m i)" "fst w" "snd w"] assms(5) addr_ok [of m i] by simp
  then show ?thesis using shape_addr(1) [OF assms(1-3)] by (simp add: header_field_def rfc1071_canon r)
qed

lemma pseudo_addr:
  assumes "20 \<le> length m" "i = 12 \<or> i = 16" "half_ok w"
  shows "pseudo (put_addr m i w) p n + (fst (addr m i) + snd (addr m i)) = pseudo m p n + (fst w + snd w)"
proof -
  have "addr (put_addr m i w) i = w" using assms by (intro addr_put_addr) auto
  then have "be_at (put_addr m i w) i = fst w" "be_at (put_addr m i w) (i + 2) = snd w"
    unfolding addr_def by (metis fst_conv, metis snd_conv)
  then show ?thesis using assms(1,2) by (auto simp: pseudo_def addr_def be_at_put_addr)
qed

text \<open>The transport field, where the addresses enter through the pseudo header only.\<close>

lemma region_addr:
  assumes "ip_ok m (length m)" "i = 12 \<or> i = 16" "half_ok w"
  shows "take n (drop (ip_hl m) (put_addr m i w)) = take n (drop (ip_hl m) m)"
  using ip_okD [OF assms(1)] assms(2) by (auto simp: drop_put_addr)

lemma field_addr:
  assumes ok: "ip_ok m (length m)" and i: "i = 12 \<or> i = 16" and w: "half_ok w"
    and p: "0 < p" "p \<le> UINT8_MAX" "n \<le> UINT16_MAX"
  shows "upd32 (region_field m off n (pseudo m p n)) (addr m i) w =
      region_field (put_addr m i w) off n (pseudo (put_addr m i w) p n)"
    "nz (upd32 (nz (region_field m off n (pseudo m p n))) (addr m i) w) =
      nz (region_field (put_addr m i w) off n (pseudo (put_addr m i w) p n))"
proof -
  let ?m = "put_addr m i w" let ?R = "word_sum (put_be (take n (drop (ip_hl m) m)) off 0)"
  have hl: "ip_hl ?m = ip_hl m" using shape_addr(1) [OF ok, of i w] i by auto
  have f: "region_field m off n (pseudo m p n) = 65535 - canon (pseudo m p n + ?R)"
    "region_field ?m off n (pseudo ?m p n) = 65535 - canon (pseudo ?m p n + ?R)"
    using region_addr [OF ok i w] pseudo_le [OF p(2,3)] by (simp_all add: region_field_def rfc1071_canon hl)
  have l: "20 \<le> length m" using ip_okD [OF ok] by simp
  have s: "pseudo ?m p n + ?R + (fst (addr m i) + snd (addr m i)) = pseudo m p n + ?R + (fst w + snd w)"
    using pseudo_addr [OF l i w, of p n] by simp
  have pos: "0 < pseudo m p n + ?R" "0 < pseudo ?m p n + ?R" using p(1) by (simp_all add: pseudo_def)
  note half = conjunct1 [OF addr_ok [of m i]] conjunct2 [OF addr_ok [of m i]] conjunct1 [OF w] conjunct2 [OF w]
  show "upd32 (region_field m off n (pseudo m p n)) (addr m i) w = region_field ?m off n (pseudo ?m p n)"
    using upd32_canon [OF pos s half] by (simp add: f)
  show "nz (upd32 (nz (region_field m off n (pseudo m p n))) (addr m i) w) = nz (region_field ?m off n (pseudo ?m p n))"
    using nz_upd32_canon [OF s half] by (simp add: f)
qed

text \<open>The fields of the transport part do not see the header checksum.\<close>

lemma region_header:
  assumes "ip_ok m (length m)"
  shows "region_field (fill_header m) off n init = region_field m off n init" "pseudo (fill_header m) p k = pseudo m p k"
    "udp_len (fill_header m) = udp_len m"
  using ip_okD [OF assms] shape_put [of 10 m "header_field m"] udp_len_put [of 10 m "header_field m"]
  by (simp_all add: fill_header_def region_field_def drop_put_be_before pseudo_def be_at_put_other)

definition tvalue :: "byte list \<Rightarrow> nat" where
  "tvalue m = (if proto m = 6 then region_field m 16 (transport_len m) (pseudo m 6 (transport_len m))
     else nz (region_field m 6 (udp_len m) (pseudo m 17 (udp_len m))))"

definition tpos :: "byte list \<Rightarrow> nat" where
  "tpos m = (if proto m = 6 then ip_hl m + 16 else ip_hl m + 6)"

lemma fill_packet_transport:
  assumes "ip_ok m (length m)" "\<not> frag m" "proto m = 6 \<or> proto m = 17"
  shows "fill_packet m = put_be (put_be m 10 (header_field m)) (tpos m) (tvalue m)"
  using assms shape_put [of 10 m "header_field m"] ip_okD [OF assms(1)] region_header [OF assms(1)]
  by (auto simp: fill_packet_def fill_transport_def Let_def tpos_def tvalue_def) (auto simp: fill_header_def)

lemma tpos_range:
  assumes "ip_ok m (length m)" "accepted m" "\<not> frag m" "proto m = 6 \<or> proto m = 17"
  shows "ip_hl m + 6 \<le> tpos m" "tpos m + 2 \<le> length m"
  using assms accepted_lengths [OF assms(2,3)] ip_okD [OF assms(1)]
  by (auto simp: tpos_def transport_len_def)

lemma tvalue_le: "tvalue m \<le> UINT16_MAX"
  by (simp add: tvalue_def fields_le nz_le pseudo_le transport_len_le udp_len_def)

lemma moved_transport:
  assumes ok: "ip_ok m (length m)" and acc: "accepted m" "\<not> frag m" "proto m = 6 \<or> proto m = 17"
    and i: "i = 12 \<or> i = 16" and w: "half_ok w"
  shows "moved (fill_packet m) i w (Some (tpos m)) = fill_packet (put_addr m i w)"
proof -
  let ?H = "header_field m" and ?T = "tvalue m" and ?f = "tpos m" and ?a = "addr m i"
  let ?F = "put_be (put_be m 10 ?H) ?f ?T"
  note okD = ip_okD [OF ok] and f = tpos_range [OF ok acc]
  have il: "12 \<le> i" "i + 4 \<le> 20" "even i" using i by auto
  note s = shape_addr [OF ok il(1,2), of w]
  have b: "be_at ?F 10 = ?H" "be_at ?F ?f = ?T" "addr ?F i = ?a" "proto ?F = proto m"
    using f okD il tvalue_le fields_le shape_put [of ?f "put_be m 10 ?H" ?T] shape_put [of 10 m ?H]
    by (simp_all add: be_at_put_same be_at_put_other addr_put_be)
  have h: "upd32 ?H ?a w = header_field (put_addr m i w)" by (rule header_field_addr [OF ok il w])
  have u: "udp_len m \<le> UINT16_MAX" by (simp add: udp_len_def)
  have t: "new_field ?F ?f ?a w = tvalue (put_addr m i w)"
  proof (cases "proto m = 6")
    case True
    then show ?thesis using field_addr(1) [OF ok i w _ _ transport_len_le [of m], of 6 16] s
      unfolding new_field_def Let_def b by (simp add: tvalue_def)
  next
    case False
    then have "proto m = 17" using acc(3) by simp
    then show ?thesis using field_addr(2) [OF ok i w _ _ u, of 17 6] s
      unfolding new_field_def Let_def b by (simp add: tvalue_def)
  qed
  have "moved ?F i w (Some ?f) = put_be (put_be (put_addr ?F i w) 10 (upd32 ?H ?a w)) ?f (new_field ?F ?f ?a w)"
    by (simp add: moved_def Let_def b)
  also have "put_addr ?F i w = put_be (put_be (put_addr m i w) 10 ?H) ?f ?T"
    using f okD il by (simp add: put_be_addr)
  also have "put_be (put_be (put_be (put_be (put_addr m i w) 10 ?H) ?f ?T) 10 x) ?f y = put_be (put_be (put_addr m i w) 10 x) ?f y" for x y
    using f okD il by (intro nth_equalityI) (simp_all add: nth_put_be)
  finally show ?thesis
    using fill_packet_transport [OF ok acc(2,3)] fill_packet_transport [of "put_addr m i w"] s ok acc h t
    by (simp add: tpos_def)
qed

lemma put_be_over:
  "i + 2 \<le> j \<Longrightarrow> j + 2 \<le> length m \<Longrightarrow> put_be (put_be (put_be m i a) j b) i c = put_be (put_be m i c) j b"
  by (rule nth_equalityI) (simp_all add: nth_put_be)

lemma moved_plain:
  assumes ok: "ip_ok m (length m)" and acc: "accepted m" "\<not> frag m" "proto m \<noteq> 6" "proto m \<noteq> 17"
    and i: "i = 12 \<or> i = 16" and w: "half_ok w"
  shows "moved (fill_packet m) i w None = fill_packet (put_addr m i w)"
proof -
  let ?H = "header_field m" and ?a = "addr m i"
  note okD = ip_okD [OF ok]
  have il: "12 \<le> i" "i + 4 \<le> 20" "even i" using i by auto
  note s = shape_addr [OF ok il(1,2), of w] shape_put [of 10 m ?H]
  have h: "upd32 ?H ?a w = header_field (put_addr m i w)" by (rule header_field_addr [OF ok il w])
  have ok': "ip_ok (put_addr m i w) (length (put_addr m i w))" using s ok by simp
  show ?thesis
  proof (cases "proto m = 1")
    case True
    let ?f = "ip_hl m + 2" and ?T = "region_field m 2 (transport_len m) 0"
    have f: "?f + 2 \<le> length m" using accepted_lengths(3) [OF acc(1,2)] True okD by (simp add: transport_len_def)
    have F: "fill_packet m = put_be (put_be m 10 ?H) ?f ?T"
      using True acc s(9-) okD region_header [OF ok] by (simp add: fill_packet_def fill_transport_def Let_def) (simp add: fill_header_def)
    have R: "region_field (put_addr m i w) 2 (transport_len m) 0 = ?T"
      using region_addr [OF ok i w] s by (simp add: region_field_def)
    have G: "fill_packet (put_addr m i w) = put_be (put_be (put_addr m i w) 10 (header_field (put_addr m i w))) ?f ?T"
      using True acc s shape_put [of 10 "put_addr m i w" "header_field (put_addr m i w)"] okD region_header [OF ok'] R
      by (simp add: fill_packet_def fill_transport_def Let_def) (simp add: fill_header_def)
    have b: "be_at (fill_packet m) 10 = ?H" "addr (fill_packet m) i = ?a"
      using f okD il fields_le by (simp_all add: F be_at_put_same be_at_put_other addr_put_be)
    have "moved (fill_packet m) i w None = put_be (put_addr (fill_packet m) i w) 10 (header_field (put_addr m i w))"
      unfolding moved_def b h by simp
    also have "put_addr (fill_packet m) i w = put_be (put_be (put_addr m i w) 10 ?H) ?f ?T"
      unfolding F using f okD il by (simp add: put_be_addr)
    also have "put_be (put_be (put_be (put_addr m i w) 10 ?H) ?f ?T) 10 x = put_be (put_be (put_addr m i w) 10 x) ?f ?T" for x
      using f okD il by (intro put_be_over) simp_all
    also have "put_be (put_be (put_addr m i w) 10 (header_field (put_addr m i w))) ?f ?T = fill_packet (put_addr m i w)"
      by (rule G [symmetric])
    finally show ?thesis .
  next
    case False
    have F: "fill_packet m = put_be m 10 ?H" "fill_packet (put_addr m i w) = put_be (put_addr m i w) 10 (header_field (put_addr m i w))"
      using False acc s okD shape_put [of 10 "put_addr m i w" "header_field (put_addr m i w)"]
      by (simp_all add: fill_packet_def fill_transport_def Let_def fill_header_def)
    have b: "be_at (fill_packet m) 10 = ?H" "addr (fill_packet m) i = ?a"
      using okD il fields_le by (simp_all add: F be_at_put_same addr_put_be)
    have "moved (fill_packet m) i w None = put_be (put_addr (fill_packet m) i w) 10 (header_field (put_addr m i w))"
      unfolding moved_def b h by simp
    also have "\<dots> = fill_packet (put_addr m i w)"
      unfolding F using okD il by (simp add: put_be_addr put_be_put_be flip: put_be_addr)
    finally show ?thesis .
  qed
qed

lemma tfield_filled:
  assumes ok: "ip_ok m (length m)" and acc: "accepted m" "\<not> frag m"
  shows "tfield (fill_packet m) = Some (if proto m = 6 \<or> proto m = 17 then Some (tpos m) else None)"
    "ip_ok (fill_packet m) a = ip_ok m a"
proof -
  note okD = ip_okD [OF ok]
  have off: "be_at m 6 AND 8191 = 0" using acc(2) and_fragment [of "be_at m 6"] by (simp add: frag_def)
  have keep: "j \<notin> checksum_bytes m \<Longrightarrow> fill_packet m ! j = m ! j" for j by (rule fill_frame(2) [OF ok acc(1)])
  have b: "be_at (fill_packet m) j = be_at m j" if "j \<notin> checksum_bytes m" "j + 1 \<notin> checksum_bytes m" for j
    using keep [OF that(1)] keep [OF that(2)] by (simp add: be_at_def)
  have low: "j \<notin> checksum_bytes m" if "j < 10" for j using that okD by (auto simp: checksum_bytes_def)
  have n: "fill_packet m ! 0 = m ! 0" "fill_packet m ! 9 = m ! 9" using keep low by simp_all
  have e: "be_at (fill_packet m) 2 = be_at m 2" "be_at (fill_packet m) 6 = be_at m 6" using b low by simp_all
  have h: "ip_hl (fill_packet m) = ip_hl m" "proto (fill_packet m) = proto m" using n by (simp_all add: ip_hl_def proto_def)
  show "ip_ok (fill_packet m) a = ip_ok m a" using n e h by (simp add: ip_ok_def)
  consider "proto m = 6" | "proto m = 17" | "proto m \<noteq> 6" "proto m \<noteq> 17" by blast
  then show "tfield (fill_packet m) = Some (if proto m = 6 \<or> proto m = 17 then Some (tpos m) else None)"
  proof cases
    case 1
    have "be_at (fill_packet m) (ip_hl m + 12) = be_at m (ip_hl m + 12)"
      using 1 acc(2) okD by (intro b) (auto simp: checksum_bytes_def)
    moreover have "tcp_ok m" using 1 acc by (simp add: accepted_def)
    ultimately have "tcp_ok (fill_packet m)" using n e h by (simp add: tcp_ok_def tcp_hl_def)
    then show ?thesis using 1 off e h by (simp add: tfield_def tpos_def)
  next
    case 2
    have "be_at (fill_packet m) (ip_hl m + 4) = be_at m (ip_hl m + 4)"
      using 2 acc(2) okD by (intro b) (auto simp: checksum_bytes_def)
    moreover have "udp_ok m" using 2 acc by (simp add: accepted_def)
    ultimately have u: "udp_ok (fill_packet m)" using n e h by (simp add: udp_ok_def)
    have "frag (fill_packet m) = frag m" using e by (simp add: frag_def)
    then have "be_at (fill_packet m) (ip_hl m + 6) \<noteq> 0"
      using fill_verifies [OF ok acc(1)] 2 acc(2) h by (simp add: sums_verify_def)
    then show ?thesis using 2 off e h u by (simp add: tfield_def tpos_def)
  next
    case 3
    then show ?thesis using off e h by (simp add: tfield_def)
  qed
qed

lemma addr_filled:
  assumes "ip_ok m (length m)" "accepted m" "i = 12 \<or> i = 16"
  shows "addr (fill_packet m) i = addr m i"
proof -
  have "j \<notin> checksum_bytes m" if "12 \<le> j" "j < 20" for j using that ip_okD [OF assms(1)] by (auto simp: checksum_bytes_def)
  then have "fill_packet m ! j = m ! j" if "12 \<le> j" "j < 20" for j using that fill_frame(2) [OF assms(1,2)] by blast
  then show ?thesis using assms(3) by (auto simp: addr_def be_at_def)
qed

section \<open>Residues\<close>

text \<open>The residue of a region, zero for a region that verifies. Whatever it is, updates keep it.\<close>

definition header_residue :: "byte list \<Rightarrow> nat" where
  "header_residue m = word_sum (take (ip_hl m) m) mod 65535"

definition transport_residue :: "byte list \<Rightarrow> nat \<Rightarrow> nat \<Rightarrow> nat" where
  "transport_residue m p n = (pseudo m p n + word_sum (take n (drop (ip_hl m) m))) mod 65535"

lemma new_field_le: "new_field m i old new \<le> UINT16_MAX"
  by (simp add: new_field_def Let_def nz_le upd32_le)

lemma new_field_mod: "new_field m i old new mod 65535 = upd32 (be_at m i) old new mod 65535"
  by (simp add: new_field_def Let_def nz_mod)

lemma put_residue:
  assumes "even i" "i + 2 \<le> length r" "v \<le> UINT16_MAX" "(v + d') mod 65535 = (be_at r i + d) mod 65535"
  shows "(word_sum (put_be r i v) + d') mod 65535 = (word_sum r + d) mod 65535"
proof -
  have w: "word_sum (put_be r i v) + be_at r i = word_sum r + v" by (rule word_sum_put [OF assms(1-3)])
  have "(word_sum (put_be r i v) + d' + be_at r i) mod 65535 = (word_sum r + (v + d')) mod 65535"
    using w by (simp add: ac_simps)
  also have "\<dots> = (word_sum r + (be_at r i + d)) mod 65535" by (rule mod_add_cong [OF refl assms(4)])
  finally have "(word_sum (put_be r i v) + d' + be_at r i) mod 65535 = (word_sum r + d + be_at r i) mod 65535"
    by (simp add: ac_simps)
  then show ?thesis by (rule mod_cancel)
qed

lemma moved_shape:
  assumes ok: "ip_ok m (length m)" and i: "i = 12 \<or> i = 16" and w: "half_ok w" and u: "\<And>f. u = Some f \<Longrightarrow> ip_hl m + 6 \<le> f \<and> f + 2 \<le> length m"
  shows "length (moved m i w u) = length m" "ip_hl (moved m i w u) = ip_hl m" "addr (moved m i w u) i = w"
    "j \<notin> {10, 11} \<union> {i..<i + 4} \<union> (case u of None \<Rightarrow> {} | Some f \<Rightarrow> {f, f + 1}) \<Longrightarrow> moved m i w u ! j = m ! j"
proof -
  note okD = ip_okD [OF ok]
  have il: "12 \<le> i" "i + 4 \<le> 20" using i by auto
  note s = shape_addr [OF ok il, of w]
  let ?b = "put_be (put_addr m i w) 10 (upd32 (be_at m 10) (addr m i) w)"
  have l: "10 + 2 \<le> length (put_addr m i w)" using okD s(8) by simp
  have b: "length ?b = length m" "ip_hl ?b = ip_hl m" "addr ?b i = w"
    using l s okD il shape_put [OF l] w by (simp_all add: addr_put_be addr_put_addr)
  have n: "?b ! j = m ! j" if "j \<notin> {10, 11} \<union> {i..<i + 4}" for j
    using that l okD il by (auto simp: nth_put_be nth_put_addr)
  show "length (moved m i w u) = length m" "ip_hl (moved m i w u) = ip_hl m" "addr (moved m i w u) i = w"
    using b u okD il shape_put [of _ ?b] by (auto simp: moved_def Let_def addr_put_be split: option.splits)
  show "j \<notin> {10, 11} \<union> {i..<i + 4} \<union> (case u of None \<Rightarrow> {} | Some f \<Rightarrow> {f, f + 1}) \<Longrightarrow> moved m i w u ! j = m ! j"
    using b n u okD by (auto simp: moved_def Let_def nth_put_be split: option.splits)
qed

lemma moved_header_residue:
  assumes ok: "ip_ok m (length m)" and i: "i = 12 \<or> i = 16" and w: "half_ok w" and u: "\<And>f. u = Some f \<Longrightarrow> ip_hl m + 6 \<le> f \<and> f + 2 \<le> length m"
  shows "header_residue (moved m i w u) = header_residue m"
proof -
  note okD = ip_okD [OF ok]
  have il: "12 \<le> i" "i + 4 \<le> 20" "even i" using i by auto
  let ?r = "take (ip_hl m) m" let ?v = "upd32 (be_at m 10) (addr m i) w"
  have t: "take (ip_hl m) (moved m i w u) = put_be (put_addr ?r i w) 10 ?v"
    using u okD il by (auto simp: moved_def Let_def take_put_be take_put_addr take_put_be_after split: option.splits)
  have b: "be_at (put_addr ?r i w) 10 = be_at m 10" "addr ?r i = addr m i"
    using okD il by (simp_all add: be_at_put_addr) (simp_all add: addr_def be_at_def)
  have "(?v + (fst w + snd w)) mod 65535 = (be_at m 10 + (fst (addr m i) + snd (addr m i))) mod 65535"
    using upd32_residue [of "be_at m 10" "fst (addr m i)" "snd (addr m i)" "fst w" "snd w"] w addr_ok [of m i] by simp
  then have "(word_sum (put_be (put_addr ?r i w) 10 ?v) + (fst w + snd w)) mod 65535 =
      (word_sum (put_addr ?r i w) + (fst (addr m i) + snd (addr m i))) mod 65535"
    using okD il by (intro put_residue) (simp_all add: upd32_le b)
  also have "\<dots> = (word_sum ?r + (fst w + snd w)) mod 65535"
    using word_sum_addr [OF il(3), of ?r w] okD il w b by simp
  finally have "word_sum (put_be (put_addr ?r i w) 10 ?v) mod 65535 = word_sum ?r mod 65535" by (rule mod_cancel)
  moreover have "ip_hl (moved m i w u) = ip_hl m" using moved_shape(2) [OF ok i w] u by blast
  ultimately show ?thesis by (simp add: header_residue_def t)
qed

lemma moved_transport_residue:
  assumes ok: "ip_ok m (length m)" and i: "i = 12 \<or> i = 16" and w: "half_ok w"
    and f: "ip_hl m + 6 \<le> f" "f + 2 \<le> ip_hl m + n" "ip_hl m + n \<le> length m" "even (f - ip_hl m)"
  shows "transport_residue (moved m i w (Some f)) p n = transport_residue m p n"
proof -
  note okD = ip_okD [OF ok]
  have il: "12 \<le> i" "i + 4 \<le> 20" using i by auto
  let ?hl = "ip_hl m" let ?r = "take n (drop ?hl m)" let ?v = "new_field m f (addr m i) w"
  let ?b = "put_be (put_addr m i w) 10 (upd32 (be_at m 10) (addr m i) w)"
  have lb: "length ?b = length m" using okD il by simp
  have d: "drop ?hl ?b = drop ?hl m" using okD il by (simp add: drop_put_be_before drop_put_addr)
  have t: "take n (drop ?hl (moved m i w (Some f))) = put_be ?r (f - ?hl) ?v"
    using f lb drop_put_be [of ?hl f ?b ?v] by (simp add: moved_def Let_def d take_put_be)
  have ps: "pseudo (moved m i w (Some f)) p n = pseudo (put_addr m i w) p n"
    using f okD il by (simp add: moved_def Let_def pseudo_def be_at_put_other)
  have "be_at ?r (f - ?hl) = be_at m f" using f by (simp add: be_at_def)
  moreover have "(?v + (fst w + snd w)) mod 65535 = (upd32 (be_at m f) (addr m i) w + (fst w + snd w)) mod 65535"
    by (rule mod_add_cong [OF new_field_mod refl])
  moreover have "\<dots> = (be_at m f + (fst (addr m i) + snd (addr m i))) mod 65535"
    using upd32_residue [of "be_at m f" "fst (addr m i)" "snd (addr m i)" "fst w" "snd w"] w addr_ok [of m i] by simp
  ultimately have "(word_sum (put_be ?r (f - ?hl) ?v) + (fst w + snd w)) mod 65535 =
      (word_sum ?r + (fst (addr m i) + snd (addr m i))) mod 65535"
    using f by (intro put_residue) (simp_all add: new_field_le)
  then have "(pseudo m p n + (word_sum (put_be ?r (f - ?hl) ?v) + (fst w + snd w))) mod 65535 =
      (pseudo m p n + (word_sum ?r + (fst (addr m i) + snd (addr m i)))) mod 65535"
    by (rule mod_add_cong [OF refl])
  also have "pseudo m p n + (word_sum ?r + (fst (addr m i) + snd (addr m i))) = pseudo m p n + word_sum ?r + (fst (addr m i) + snd (addr m i))"
    by simp
  also have "pseudo m p n + (word_sum (put_be ?r (f - ?hl) ?v) + (fst w + snd w)) =
      pseudo (put_addr m i w) p n + word_sum (put_be ?r (f - ?hl) ?v) + (fst (addr m i) + snd (addr m i))"
    using pseudo_addr [OF _ i w, of m p n] okD by simp
  finally have "(pseudo (put_addr m i w) p n + word_sum (put_be ?r (f - ?hl) ?v)) mod 65535 = (pseudo m p n + word_sum ?r) mod 65535"
    by (rule mod_cancel)
  moreover have "ip_hl (moved m i w (Some f)) = ?hl" using f moved_shape(2) [OF ok i w, of "Some f"] by simp
  ultimately show ?thesis unfolding transport_residue_def t ps by (simp add: t)
qed

section \<open>Updates of the transport checksum alone\<close>

text \<open>What a successful update of the field at \<open>f\<close> leaves: the field plus the new words has the residue of the old field
  plus the old words, and a UDP checksum does not become zero.\<close>

text \<open>Where the checksum field of a transport header lies relative to the bytes a fragment carries.\<close>

definition field_pos :: "byte list \<Rightarrow> nat \<Rightarrow> nat" where
  "field_pos m e = ip_hl m + (if e = IP_PROTO_TCP then 16 else 6) - 8 * (be_at m 6 AND IP_OFFMASK)"

definition field_in :: "byte list \<Rightarrow> nat \<Rightarrow> bool" where
  "field_in m e \<longleftrightarrow> 8 * (be_at m 6 AND IP_OFFMASK) \<le> (if e = IP_PROTO_TCP then 16 else 6) \<and>
     (if e = IP_PROTO_TCP then 16 else 6) + 2 \<le> 8 * (be_at m 6 AND IP_OFFMASK) + transport_len m"

definition field_out :: "byte list \<Rightarrow> nat \<Rightarrow> bool" where
  "field_out m e \<longleftrightarrow> 8 * (be_at m 6 AND IP_OFFMASK) + transport_len m \<le> (if e = IP_PROTO_TCP then 16 else 6) \<or>
     (if e = IP_PROTO_TCP then 16 else 6) + 2 \<le> 8 * (be_at m 6 AND IP_OFFMASK)"

definition shape_accepted :: "byte list \<Rightarrow> nat \<Rightarrow> bool" where
  "shape_accepted m e \<longleftrightarrow> fragmentShapeOk (ip_view m) (8 * (be_at m 6 AND IP_OFFMASK) + transport_len m) \<and>
     transportShapeOk m (ip_view m) e (8 * (be_at m 6 AND IP_OFFMASK)) (8 * (be_at m 6 AND IP_OFFMASK) + transport_len m) = Some True"

definition field_updated :: "byte list \<Rightarrow> byte list \<Rightarrow> nat \<Rightarrow> bool \<Rightarrow> nat \<Rightarrow> nat \<Rightarrow> bool" where
  "field_updated m b f udp old new \<longleftrightarrow> (\<exists>v \<le> UINT16_MAX. b = put_be m f v \<and>
     (v + new) mod 65535 = (be_at m f + old) mod 65535 \<and> (udp \<longrightarrow> v \<noteq> 0))"

lemma field_updated_self: "f + 2 \<le> length m \<Longrightarrow> (udp \<longrightarrow> be_at m f \<noteq> 0) \<Longrightarrow> field_updated m m f udp d d"
  unfolding field_updated_def by (intro exI [of _ "be_at m f"]) (simp add: put_be_same)

lemma residue_chain:
  assumes "(v1 + a') mod 65535 = (c + a) mod (65535 :: nat)" "(v + b') mod 65535 = (v1 + b) mod 65535"
  shows "(v + (a' + b')) mod 65535 = (c + (a + b)) mod 65535"
proof -
  have "(v + (a' + b')) mod 65535 = (v + b' + a') mod 65535" by (simp add: ac_simps)
  also have "\<dots> = (v1 + b + a') mod 65535" by (rule mod_add_cong [OF assms(2) refl])
  also have "\<dots> = (v1 + a' + b) mod 65535" by (simp add: ac_simps)
  also have "\<dots> = (c + a + b) mod 65535" by (rule mod_add_cong [OF assms(1) refl])
  finally show ?thesis by (simp add: ac_simps)
qed

lemma upd16_residue:
  assumes "hc \<le> UINT16_MAX" "m \<le> UINT16_MAX" "m' \<le> UINT16_MAX"
  shows "(upd16 hc m m' + m') mod 65535 = (hc + m) mod 65535"
  using upd32_residue [OF assms(1,2) _ assms(3), of 0 0] by (simp add: upd32_def upd16_def [of _ 0 0])

context lwip_laws
begin

lemma update16_ok:
  assumes a: "a \<le> length m" and w: "old \<le> UINT16_MAX" "new \<le> UINT16_MAX"
  shows "\<exists>ok b. updateIpv4TransportChecksum16 L m a (byte_swap16 old) (byte_swap16 new) = Some (ok, b) \<and>
    (ok \<longleftrightarrow> ip_ok m a \<and> (tcp_ok m \<or> udp_ok m)) \<and>
    (b = m \<and> (ok \<longrightarrow> old = new \<or> udp_ok m \<and> be_at m (ip_hl m + 6) = 0) \<or> ok \<and> field_updated m b (tpos m) (udp_ok m) old new)"
proof (cases "ip_ok m a \<and> (tcp_ok m \<or> udp_ok m)")
  case False
  then show ?thesis by (auto simp: updateIpv4TransportChecksum16_def parse_eq [OF a] parse_tcp_eq [OF a] parse_udp_eq [OF a])
next
  case True
  then have f: "tpos m + 2 \<le> length m"
    using ip_okD [of m a] a by (auto simp: tpos_def tcp_ok_def udp_ok_def proto_def)
  let ?v = "upd16 (be_at m (tpos m)) old new"
  have v: "?v \<le> UINT16_MAX" by (simp add: upd16_le)
  have r: "(?v + new) mod 65535 = (be_at m (tpos m) + old) mod 65535" using w by (intro upd16_residue) simp_all
  have n: "nz ?v \<le> UINT16_MAX" "(nz ?v + new) mod 65535 = (be_at m (tpos m) + old) mod 65535"
    using nz_le [OF v] mod_add_cong [OF nz_mod refl, of ?v new] r by simp_all
  have ld: "ld16 m (tpos m) = Some (byte_swap16 (be_at m (tpos m)))" by (rule ld16_eq [OF f])
  have up: "checksumUpdateWord16 L (byte_swap16 (be_at m (tpos m))) (byte_swap16 old) (byte_swap16 new) = byte_swap16 ?v"
    using w by (simp add: update16_eq)
  have ne: "byte_swap16 old = byte_swap16 new \<longleftrightarrow> old = new" by (rule swap16_inj [OF w])
  show ?thesis
  proof (cases "tcp_ok m")
    case t: True
    then have p: "protocol (ip_view m) = 6" "tpos m = ip_hl m + 16" "\<not> udp_ok m" "be_at m 6 AND 8191 = 0"
      by (simp_all add: tcp_ok_def udp_ok_def tpos_def proto_def)
    have "st16 m (tpos m) (byte_swap16 ?v) = Some (put_be m (tpos m) ?v)" by (rule st16_eq [OF f v])
    then have "updateIpv4TransportChecksum16 L m a (byte_swap16 old) (byte_swap16 new) =
        Some (True, if old = new then m else put_be m (tpos m) ?v)"
      using True t p ld up ne by (simp add: updateIpv4TransportChecksum16_def parse_eq [OF a] parse_tcp_eq [OF a] Let_def)
    moreover have "field_updated m (put_be m (tpos m) ?v) (tpos m) (udp_ok m) old new"
      using v r p(3) unfolding field_updated_def by blast
    ultimately show ?thesis using True by auto
  next
    case u: False
    then have uo: "udp_ok m" using True by simp
    then have p: "protocol (ip_view m) = 17" "tpos m = ip_hl m + 6" "be_at m 6 AND 8191 = 0"
      by (simp_all add: udp_ok_def tpos_def proto_def)
    have "(?v = 0 \<longrightarrow> st16 m (tpos m) 65535 = Some (put_be m (tpos m) (nz ?v))) \<and>
        (?v \<noteq> 0 \<longrightarrow> st16 m (tpos m) (byte_swap16 ?v) = Some (put_be m (tpos m) (nz ?v)))"
      using st16_eq [OF f n(1)] by (simp add: nz_def split: if_splits)
    then have "updateIpv4TransportChecksum16 L m a (byte_swap16 old) (byte_swap16 new) =
        Some (True, if old = new \<or> be_at m (tpos m) = 0 then m else put_be m (tpos m) (nz ?v))"
      using True u uo p ld up ne by (simp add: updateIpv4TransportChecksum16_def parse_eq [OF a] parse_udp_eq [OF a] Let_def)
    moreover have "nz ?v \<noteq> 0" by (simp add: nz_def)
    then have "field_updated m (put_be m (tpos m) (nz ?v)) (tpos m) (udp_ok m) old new"
      using n unfolding field_updated_def by blast
    ultimately show ?thesis using True uo p by auto
  qed
qed

lemma shape_ok:
  assumes "ip_ok m a" "a \<le> length m"
  shows "\<exists>ok. transportShapeOk m (ip_view m) e start (start + transport_len m) = Some ok"
proof -
  have l: "ip_hl m + transport_len m \<le> length m" using ip_okD [OF assms(1)] assms(2) by (simp add: transport_len_def)
  have "rd8 m (ip_hl m + (12 - start)) = Some (m ! (ip_hl m + (12 - start)))" if "start \<le> 12" "12 < start + transport_len m"
    by (rule rd8_Some) (use that l in linarith)
  moreover have "rd_be16 m (ip_hl m + 4) = Some (be16 (m ! (ip_hl m + 4)) (m ! (ip_hl m + 4 + 1)))" if "start = 0" "6 \<le> start + transport_len m"
    by (rule rd_be16_Some) (use that l in linarith)
  ultimately show ?thesis by (auto simp: transportShapeOk_def Let_def)
qed

lemma update_addresses_ok:
  assumes a: "a \<le> length m" and w: "half_ok os" "half_ok od" "half_ok ns" "half_ok nd"
  shows "\<exists>ok b. updateIpv4TransportChecksumAddresses L m a e (net32 os) (net32 od) (net32 ns) (net32 nd) = Some (ok, b) \<and>
    (ok \<longleftrightarrow> (e = 6 \<or> e = 17) \<and> ip_ok m a \<and> shape_accepted m e \<and> (field_in m e \<or> field_out m e \<and> fragmented (ip_view m))) \<and>
    (if ok \<and> field_in m e \<and> \<not> (e = 17 \<and> be_at m (field_pos m e) = 0)
     then field_updated m b (field_pos m e) (e = 17) (fst os + snd os + (fst od + snd od)) (fst ns + snd ns + (fst nd + snd nd))
     else b = m)"
proof (cases "(e = 6 \<or> e = 17) \<and> ip_ok m a")
  case False
  then show ?thesis by (auto simp: updateIpv4TransportChecksumAddresses_def parse_eq [OF a])
next
  case True
  define start where "start = 8 * (be_at m 6 AND IP_OFFMASK)"
  define fin where "fin = start + transport_len m"
  define co :: nat where "co = (if e = 6 then 16 else 6)"
  define f where "f = ip_hl m + co - start"
  note okD = ip_okD [OF conjunct2 [OF True]]
  have st: "u32 ((be_at m 6 AND 8191) * 8) = start" "u32 (start + (be_at m 2 - ip_hl m)) = fin"
    using and_offmask [of "be_at m 6"] transport_len_le [of m] by (simp_all add: start_def fin_def transport_len_def mult.commute)
  obtain ok where ok: "transportShapeOk m (ip_view m) e start fin = Some ok"
    using shape_ok [OF conjunct2 [OF True] a] by (auto simp: fin_def)
  have sh: "shape_accepted m e \<longleftrightarrow> fragmentShapeOk (ip_view m) fin \<and> ok"
    using ok by (simp add: shape_accepted_def start_def fin_def)
  have pl: "field_in m e \<longleftrightarrow> start \<le> co \<and> co + 2 \<le> fin" "field_out m e \<longleftrightarrow> fin \<le> co \<or> co + 2 \<le> start" "field_pos m e = f"
    by (simp_all add: field_in_def field_out_def field_pos_def start_def fin_def co_def f_def)
  have e: "(e \<noteq> 6 \<and> e \<noteq> 17) = False" using True by auto
  let ?M = "updateIpv4TransportChecksumAddresses L m a e (net32 os) (net32 od) (net32 ns) (net32 nd)"
  have M: "?M = (if \<not> fragmentShapeOk (ip_view m) fin \<or> \<not> ok then Some (False, m)
      else if fin \<le> co \<or> start \<ge> co + 2 then Some (fragmented (ip_view m), m)
      else if start > co \<or> fin < co + 2 then Some (False, m)
      else do {
        v \<leftarrow> ld16 m f;
        if e = 17 \<and> v = 0 then Some (True, m) else do {
          let v = checksumUpdateWord32 L v (net32 os) (net32 ns);
          let v = checksumUpdateWord32 L v (net32 od) (net32 nd);
          b \<leftarrow> st16 m f (if e = 17 \<and> v = 0 then 65535 else v);
          Some (True, b)
        }})"
    using e conjunct2 [OF True] st ok
    by (cases "e = 6") (simp_all add: updateIpv4TransportChecksumAddresses_def parse_eq [OF a] Let_def co_def f_def del: ip_view_simps(13) cong: if_cong)
  show ?thesis
  proof (cases "shape_accepted m e \<and> field_in m e")
    case False
    have "?M = Some (shape_accepted m e \<and> field_out m e \<and> fragmented (ip_view m), m)"
    proof (cases "shape_accepted m e \<and> field_out m e")
      case True
      then show ?thesis unfolding M sh pl by simp
    next
      case no: False
      then have "\<not> (fragmentShapeOk (ip_view m) fin \<and> ok) \<or> \<not> (fin \<le> co \<or> co + 2 \<le> start) \<and> (start > co \<or> fin < co + 2)"
        using False unfolding sh pl by linarith
      then show ?thesis using no unfolding M sh pl by (elim disjE) auto
    qed
    then show ?thesis using True False by (intro exI conjI) (assumption, simp_all, blast+)
  next
    case go: True
    have f: "f + 2 \<le> length m" using go okD a unfolding sh pl by (auto simp: f_def fin_def transport_len_def)
    define v1 where "v1 = upd32 (be_at m f) os ns"
    define v where "v = upd32 v1 od nd"
    have le: "v1 \<le> UINT16_MAX" "v \<le> UINT16_MAX" by (simp_all add: upd32_le v1_def v_def)
    have "(v1 + (fst ns + snd ns)) mod 65535 = (be_at m f + (fst os + snd os)) mod 65535"
      using upd32_residue [of "be_at m f" "fst os" "snd os" "fst ns" "snd ns"] w by (simp add: v1_def)
    moreover have "(v + (fst nd + snd nd)) mod 65535 = (v1 + (fst od + snd od)) mod 65535"
      using upd32_residue [OF le(1), of "fst od" "snd od" "fst nd" "snd nd"] w by (simp add: v_def)
    ultimately have r: "(v + (fst ns + snd ns + (fst nd + snd nd))) mod 65535 = (be_at m f + (fst os + snd os + (fst od + snd od))) mod 65535"
      by (rule residue_chain)
    have c: "checksumUpdateWord32 L (byte_swap16 (be_at m f)) (net32 os) (net32 ns) = byte_swap16 v1"
      "checksumUpdateWord32 L (byte_swap16 v1) (net32 od) (net32 nd) = byte_swap16 v"
      unfolding v_def v1_def using w by (simp_all add: update32_eq upd32_le)
    define x where "x = (if e = 17 then nz v else v)"
    have x: "x \<le> UINT16_MAX" "x mod 65535 = v mod 65535" "e = 17 \<longrightarrow> x \<noteq> 0"
      using nz_le [OF le(2)] nz_mod [of v] le by (simp_all add: x_def nz_def)
    have "(e = 17 \<and> v = 0 \<longrightarrow> st16 m f 65535 = Some (put_be m f x)) \<and>
        (\<not> (e = 17 \<and> v = 0) \<longrightarrow> st16 m f (byte_swap16 v) = Some (put_be m f x))"
      using st16_eq [OF f x(1)] by (simp add: x_def nz_def split: if_splits)
    then have res: "?M = Some (True, if e = 17 \<and> be_at m f = 0 then m else put_be m f x)"
      unfolding M using go unfolding sh pl by (simp add: ld16_eq [OF f] c Let_def)
    have "(x + (fst ns + snd ns + (fst nd + snd nd))) mod 65535 = (be_at m f + (fst os + snd os + (fst od + snd od))) mod 65535"
      using mod_add_cong [OF x(2) refl] r by (rule trans)
    then have upd: "field_updated m (put_be m f x) f (e = 17) (fst os + snd os + (fst od + snd od)) (fst ns + snd ns + (fst nd + snd nd))"
      unfolding field_updated_def using x by blast
    show ?thesis
      by (rule exI [of _ True], rule exI [of _ "if e = 17 \<and> be_at m f = 0 then m else put_be m f x"])
        (use res True go upd in \<open>simp add: pl(3)\<close>)
  qed
qed

end

section \<open>Properties\<close>

text \<open>C3. Replacing an address incrementally is the same as computing everything again, for packets whose checksums are fresh: take
  any packet without fragment bits that the full computation accepts, fill in its checksums with that computation, and replace the source or
  destination address with the incremental update. The result is byte for byte the packet obtained by writing the address
  first and computing the checksums of the whole packet afterwards; a UDP checksum that comes out as zero is all ones in both.
  Stale checksums, UDP packets without a checksum and fragments are outside this statement.\<close>

theorem address_update_equals_full:
  assumes "checksum_backend L checksum" "a \<le> length m" "new \<le> UINT32_MAX" "\<not> frag m"
    "calcFullPacketChecksum L checksum m a = Some (True, b)" "st32 m (address_at field) new = Some m'"
  shows "\<exists>c. setIpv4AddressWithChecksumUpdate L b a field new = Some (True, c) \<and>
    calcFullPacketChecksum L checksum m' a = Some (True, c)"
proof -
  let ?at = "address_at field"
  have at: "?at = 12 \<or> ?at = 16" by (cases field) (simp_all add: address_at_def)
  have L: "lwip_laws L" using assms(1) by (simp add: checksum_backend_def)
  have ip: "ip_ok m a" "accepted m" "b = fill_packet m"
    using checksum_backend.full_eq [OF assms(1,2)] assms(5) by (auto split: if_splits)
  have ok: "ip_ok m (length m)" by (rule ip_ok_length [OF ip(1) assms(2)])
  obtain w where w: "half_ok w" "new = net32 w" using net32_surj [OF assms(3)] by blast
  have l: "?at + 4 \<le> length m" using at ip_okD [OF ok] by auto
  have m': "m' = put_addr m ?at w" using st32_addr [OF l w(1)] assms(6) w(2) by simp
  have il: "12 \<le> ?at" "?at + 4 \<le> 20" using at by auto
  note s = shape_addr [OF ok il, of w]
  have full: "calcFullPacketChecksum L checksum m' a = Some (True, fill_packet m')"
    using checksum_backend.full_eq [OF assms(1), of a m'] assms(2) ip s m' by simp
  have len: "a \<le> length (fill_packet m)" using fill_frame(1) [OF ok ip(2)] assms(2) by simp
  note set = lwip_laws.set_address_eq [OF L len w(1), of field]
  show ?thesis
  proof (cases "addr m ?at = w")
    case True
    then have "m' = m" using m' put_addr_same [OF l] by simp
    then show ?thesis
      using full set True addr_filled [OF ok ip(2) at] tfield_filled(2) [OF ok ip(2) assms(4)] ip w(2) by simp
  next
    case False
    have "moved (fill_packet m) ?at w (if proto m = 6 \<or> proto m = 17 then Some (tpos m) else None) = fill_packet m'"
      using moved_transport [OF ok ip(2) assms(4) _ at w(1)] moved_plain [OF ok ip(2) assms(4) _ _ at w(1)] m' by simp
    then show ?thesis
      using full set False addr_filled [OF ok ip(2) at] tfield_filled [OF ok ip(2) assms(4)] ip w(2) by simp
  qed
qed

theorem address_update_equals_full_witness:
  "\<exists>b m' c. calcFullPacketChecksum lwip_model (checksumDefault byte_swap16) sample_datagram 30 = Some (True, b) \<and>
    st32 sample_datagram 12 16909060 = Some m' \<and>
    setIpv4AddressWithChecksumUpdate lwip_model b 30 kIpv4ChecksumAddressSource 16909060 = Some (True, c) \<and>
    calcFullPacketChecksum lwip_model (checksumDefault byte_swap16) m' 30 = Some (True, c)"
proof -
  have l: "30 \<le> length sample_datagram" "12 + 4 \<le> length sample_datagram" by (simp_all add: sample_datagram_def)
  have "ip_ok sample_datagram 30 \<and> accepted sample_datagram" and f: "\<not> frag sample_datagram"
    by (simp_all add: sample_datagram_def ip_ok_def accepted_def udp_ok_def ip_hl_def be_at_def be16_def frag_def proto_def)
  then obtain b where b: "calcFullPacketChecksum lwip_model (checksumDefault byte_swap16) sample_datagram 30 = Some (True, b)"
    using portable.full_eq [OF l(1)] by simp
  obtain m' where m': "st32 sample_datagram (address_at kIpv4ChecksumAddressSource) 16909060 = Some m'"
    using l(2) by (simp add: st32_def mem_write_def address_at_def)
  show ?thesis
    using address_update_equals_full [OF portable.checksum_backend_axioms l(1) _ f b m'] b m' by (auto simp: address_at_def)
qed

text \<open>C39. An update never repairs and never damages. On any bytes, with checksums right or wrong and fragmented or
  not, replacing an address returns without leaving the packet. A refusal changes nothing.
  Otherwise the address is the new one, the header keeps its residue modulo 65,535, so does every region that holds
  the updated transport checksum, and only the address and the checksums change.\<close>

theorem address_update_residue:
  assumes "lwip_laws L" "a \<le> length m" "new \<le> UINT32_MAX"
  shows "\<exists>ok b. setIpv4AddressWithChecksumUpdate L m a field new = Some (ok, b) \<and> length b = length m \<and>
    (if \<not> ok then b = m
     else ld32 b (address_at field) = Some new \<and> header_residue b = header_residue m \<and>
       (\<forall>f p n. tfield m = Some (Some f) \<and> f + 2 \<le> ip_hl m + n \<and> ip_hl m + n \<le> length m \<longrightarrow>
          transport_residue b p n = transport_residue m p n) \<and>
       (\<forall>j. j \<notin> {10, 11} \<union> {address_at field..<address_at field + 4} \<union> (case tfield m of Some (Some f) \<Rightarrow> {f, f + 1} | _ \<Rightarrow> {}) \<longrightarrow>
          b ! j = m ! j))"
proof -
  let ?at = "address_at field"
  obtain w where w: "half_ok w" "new = net32 w" using net32_surj [OF assms(3)] by blast
  note set = lwip_laws.set_address_eq [OF assms(1,2) w(1), of field, folded w(2)]
  have at: "?at = 12 \<or> ?at = 16" by (cases field) (simp_all add: address_at_def)
  show ?thesis
  proof (cases "ip_ok m a \<and> addr m ?at \<noteq> w \<and> tfield m \<noteq> None")
    case False
    have l: "?at + 4 \<le> length m" if "ip_ok m a" using ip_okD [OF that] assms(2) at by auto
    consider "\<not> ip_ok m a" | "ip_ok m a" "addr m ?at = w" | "ip_ok m a" "addr m ?at \<noteq> w" "tfield m = None" using False by blast
    then show ?thesis
    proof cases
      case 1
      then show ?thesis using set by (intro exI [of _ False] exI [of _ m]) simp
    next
      case 2
      then show ?thesis using set ld32_addr [OF l] w(2) by (intro exI [of _ True] exI [of _ m]) simp
    next
      case 3
      then show ?thesis using set by (intro exI [of _ False] exI [of _ m]) simp
    qed
  next
    case True
    then obtain u where u: "tfield m = Some u" by blast
    have ok: "ip_ok m (length m)" using True ip_ok_length [OF _ assms(2)] by blast
    have range: "ip_hl m + 6 \<le> f \<and> f + 2 \<le> length m" "even (f - ip_hl m)" if "u = Some f" for f
    proof -
      have t: "tfield m = Some (Some f)" using u that by simp
      show "ip_hl m + 6 \<le> f \<and> f + 2 \<le> length m"
        using lwip_laws.tfield_range [OF assms(1) ok t] ip_okD [OF ok] by simp
      show "even (f - ip_hl m)" using t by (auto simp: tfield_def split: if_splits)
    qed
    note s = moved_shape [OF ok at w(1) range(1)]
    have "setIpv4AddressWithChecksumUpdate L m a field new = Some (True, moved m ?at w u)" using set True u by simp
    moreover have "ld32 (moved m ?at w u) ?at = Some new"
    proof -
      have "?at + 4 \<le> length (moved m ?at w u)" using s(1) at ip_okD [OF ok] by auto
      from ld32_addr [OF this] show ?thesis using s(3) w(2) by simp
    qed
    moreover have "header_residue (moved m ?at w u) = header_residue m" by (rule moved_header_residue [OF ok at w(1) range(1)])
    moreover have "transport_residue (moved m ?at w u) p n = transport_residue m p n"
      if "u = Some f" "f + 2 \<le> ip_hl m + n" "ip_hl m + n \<le> length m" for f p n
      using moved_transport_residue [OF ok at w(1) _ that(2,3)] range [OF that(1)] that(1) by simp
    moreover have "\<forall>j. j \<notin> {10, 11} \<union> {?at..<?at + 4} \<union> (case u of Some f \<Rightarrow> {f, f + 1} | None \<Rightarrow> {}) \<longrightarrow> moved m ?at w u ! j = m ! j"
      using s(4) by (intro allI impI) simp
    ultimately show ?thesis using u s(1) by (intro exI [of _ True] exI [of _ "moved m ?at w u"]) simp
  qed
qed

theorem address_update_residue_witness:
  "\<exists>b. setIpv4AddressWithChecksumUpdate lwip_model (sample_datagram[26 := 18]) 30 kIpv4ChecksumAddressDestination 7 = Some (True, b) \<and>
    ld32 b 16 = Some 7 \<and> header_residue b = header_residue (sample_datagram[26 := 18]) \<and>
    transport_residue b 17 10 = transport_residue (sample_datagram[26 := 18]) 17 10"
proof -
  let ?m = "sample_datagram[26 := 18]"
  have l: "lwip_laws lwip_model" "30 \<le> length ?m" by unfold_locales (simp add: sample_datagram_def)
  have n: "(7 :: nat) \<le> UINT32_MAX" by simp
  have t: "tfield ?m = Some (Some 26)"
    by (simp add: sample_datagram_def tfield_def proto_def udp_ok_def ip_hl_def be_at_def be16_def)
  have hl: "ip_hl ?m = 20" by (simp add: sample_datagram_def ip_hl_def)
  have ip: "ip_ok ?m 30" by (simp add: sample_datagram_def ip_ok_def ip_hl_def be_at_def be16_def)
  obtain w where w: "half_ok w" "7 = net32 w" using net32_surj [of 7] by auto
  define b where "b = (if addr ?m 16 = w then ?m else moved ?m 16 w (Some 26))"
  have e: "setIpv4AddressWithChecksumUpdate lwip_model ?m 30 kIpv4ChecksumAddressDestination 7 = Some (True, b)"
    using lwip_laws.set_address_eq [OF l w(1), of kIpv4ChecksumAddressDestination] t ip w(2) by (simp add: b_def address_at_def)
  have r: "ld32 b 16 = Some 7" "header_residue b = header_residue ?m"
    "\<forall>f p n. tfield ?m = Some (Some f) \<and> f + 2 \<le> ip_hl ?m + n \<and> ip_hl ?m + n \<le> length ?m \<longrightarrow>
      transport_residue b p n = transport_residue ?m p n"
    using address_update_residue [OF l n, of kIpv4ChecksumAddressDestination] unfolding e
    by (elim exE conjE, simp add: address_at_def)+
  have "26 + 2 \<le> ip_hl ?m + 10 \<and> ip_hl ?m + 10 \<le> length ?m" using hl l(2) by simp
  with r(3) t have "transport_residue b 17 10 = transport_residue ?m 17 10" by blast
  with e r(1,2) show ?thesis by blast
qed

text \<open>C40. The transport checksum of fragments and mapped protocols: exchanging the pseudo-header addresses returns on any
  bytes. It succeeds exactly for TCP and UDP on a well-formed packet whose fields pass the structural checks and
  that carries the whole checksum field, or, as a fragment, none of it. When the field is there and is not a
  disabled UDP checksum, it is the only thing that changes: field plus new addresses keeps the residue of field plus old
  addresses, and a UDP checksum does not become zero. In every other case nothing changes.\<close>

theorem transport_addresses_update:
  assumes "lwip_laws L" "a \<le> length m" "half_ok os" "half_ok od" "half_ok ns" "half_ok nd"
  shows "\<exists>ok b. updateIpv4TransportChecksumAddresses L m a e (net32 os) (net32 od) (net32 ns) (net32 nd) = Some (ok, b) \<and>
    (ok \<longleftrightarrow> (e = IP_PROTO_TCP \<or> e = IP_PROTO_UDP) \<and> ip_ok m a \<and> shape_accepted m e \<and>
       (field_in m e \<or> field_out m e \<and> fragmented (ip_view m))) \<and>
    (if ok \<and> field_in m e \<and> \<not> (e = IP_PROTO_UDP \<and> be_at m (field_pos m e) = 0)
     then field_updated m b (field_pos m e) (e = IP_PROTO_UDP) (fst os + snd os + (fst od + snd od)) (fst ns + snd ns + (fst nd + snd nd))
     else b = m)"
  by (rule lwip_laws.update_addresses_ok [OF assms])

theorem transport_addresses_update_witness:
  "\<exists>b. updateIpv4TransportChecksumAddresses lwip_model (sample_datagram[26 := 18]) 30 17
      (net32 (2560, 1)) (net32 (2560, 2)) (net32 (1, 1)) (net32 (2, 2)) = Some (True, b) \<and>
    field_updated (sample_datagram[26 := 18]) b 26 True (2561 + 2562) (2 + 4)"
proof -
  let ?m = "sample_datagram[26 := 18]"
  have l: "lwip_laws lwip_model" "30 \<le> length ?m" by unfold_locales (simp add: sample_datagram_def)
  have h: "half_ok (2560, 1)" "half_ok (2560, 2)" "half_ok (1, 1)" "half_ok (2, 2)" by simp_all
  have hl: "ip_hl ?m = 20" "transport_len ?m = 10" "be_at ?m 6 AND IP_OFFMASK = 0"
    by (simp_all add: sample_datagram_def be_at_def be16_def ip_hl_def transport_len_def)
  have p: "field_pos ?m 17 = 26" "field_in ?m 17" using hl by (simp_all add: field_pos_def field_in_def)
  have "ip_ok ?m 30" "shape_accepted ?m 17" "be_at ?m 26 \<noteq> 0"
    using hl by (simp_all add: ip_ok_def shape_accepted_def fragmentShapeOk_def transportShapeOk_def sample_datagram_def be_at_def be16_def
      ip_view_def rd_be16_def rd8_def)
  then show ?thesis
    using transport_addresses_update [OF l h, of 17] p by (elim exE conjE) simp
qed

end
