(* ===== verification/Ipv4_Stream.thy ===== *)
theory Ipv4_Stream
  imports Packet_Checksum Buffer_Queue
begin

text \<open>
  The codec \<open>tunnels/Internals/Ipv4StreamCodec\<close>: IPv4 packets written one after the other on a byte
  stream, without any framing but their own total length. \<open>src/codec.c\<close> extracts packets, skipping bytes that
  cannot start one, and validates them; \<open>src/input.c\<close> admits deliveries that arrive while a packet is being
  handed on.

  A reason for rejecting a packet is the text of the source; \<open>None\<close> inside the option is acceptance. A
  validation writes checksum fields and restores them, so it returns the packet. The budget of an input is stored
  by value in the source; since the queue and the reservation point to it, it is an entry of the store of
  budgets here, and \<open>in_budget\<close> is its address.
\<close>

section \<open>Validation\<close>

definition kMaxAllowedPacketLength :: nat where
  "kMaxAllowedPacketLength = 1500"

definition kResyncScanWindow :: nat where
  "kResyncScanWindow = 256"

datatype ipv4stream_validation_level =
  kIpv4StreamValidationNone | kIpv4StreamValidationLoose | kIpv4StreamValidationHard

type_synonym verdict = "string option \<times> byte list"

definition ipv4streamChecksumPseudoHeader :: "lwip \<Rightarrow> byte list \<Rightarrow> nat \<Rightarrow> nat \<Rightarrow> nat option" where
  "ipv4streamChecksumPseudoHeader L iphdr proto len = do {
     src \<leftarrow> ld32 iphdr 12;
     dst \<leftarrow> ld32 iphdr 16;
     let src_h = lwip_htonl L src; dst_h = lwip_htonl L dst in
     Some (u32 (src_h div 65536 mod 65536 + src_h mod 65536 + dst_h div 65536 mod 65536 + dst_h mod 65536 + proto + len))
   }"

text \<open>The structure of the header: a reason, or the header length and the total length.\<close>

definition ipv4streamValidateIpv4PacketHeader :: "lwip \<Rightarrow> byte list \<Rightarrow> nat \<Rightarrow> (string + nat \<times> nat) option" where
  "ipv4streamValidateIpv4PacketHeader L iphdr packet_len =
     (if packet_len < IP_HLEN then Some (Inl ''packet is smaller than the IPv4 header'') else do {
        vhl \<leftarrow> rd8 iphdr 0;
        if unat vhl div 16 \<noteq> 4 then Some (Inl ''unsupported IP version'') else do {
        let header_len = u8 (unat vhl mod 16 * 4);
        if header_len < IP_HLEN then Some (Inl ''invalid IPv4 header length'')
        else if header_len > packet_len then Some (Inl ''buffer is shorter than the IPv4 header length'') else do {
          len \<leftarrow> ld16 iphdr 2;
          let total_length = lwip_htons L len;
          if total_length < header_len then Some (Inl ''IPv4 total length is smaller than the header'')
          else if total_length < packet_len then Some (Inl ''IPv4 total length is smaller than the packet buffer'')
          else if total_length > packet_len then Some (Inl ''buffer is shorter than the IPv4 total length'')
          else Some (Inr (header_len, total_length))
        }}})"

definition ipv4streamValidateIpv4HeaderChecksum :: "lwip \<Rightarrow> cksum_fn \<Rightarrow> byte list \<Rightarrow> nat \<Rightarrow> verdict option" where
  "ipv4streamValidateIpv4HeaderChecksum L checksum iphdr header_len = do {
     original_checksum \<leftarrow> ld16 iphdr 10;
     iphdr \<leftarrow> st16 iphdr 10 0;
     expected_checksum \<leftarrow> inet_chksum L (wwLwipChecksum checksum) iphdr header_len;
     iphdr \<leftarrow> st16 iphdr 10 original_checksum;
     Some (if original_checksum \<noteq> expected_checksum then Some ''invalid IPv4 header checksum'' else None, iphdr)
   }"

definition ipv4streamValidateTcpChecksum :: "lwip \<Rightarrow> cksum_fn \<Rightarrow> byte list \<Rightarrow> nat \<Rightarrow> nat \<Rightarrow> verdict option" where
  "ipv4streamValidateTcpChecksum L checksum iphdr header_len total_length =
     (let transport_len = u16 (total_length - header_len) in
      if transport_len < TCP_HLEN then Some (Some ''TCP packet is smaller than the minimum header'', iphdr) else do {
        hf \<leftarrow> ld16 iphdr (header_len + 12);
        let tcp_hlen = u8 (lwip_htons L hf div 4096 * 4);
        if tcp_hlen < TCP_HLEN \<or> tcp_hlen > transport_len then Some (Some ''invalid TCP header length'', iphdr) else do {
          original_checksum \<leftarrow> ld16 iphdr (header_len + 16);
          iphdr \<leftarrow> st16 iphdr (header_len + 16) 0;
          init \<leftarrow> ipv4streamChecksumPseudoHeader L iphdr IP_PROTO_TCP transport_len;
          expected_checksum \<leftarrow> calcGenericChecksum checksum (drop header_len iphdr) transport_len init;
          iphdr \<leftarrow> st16 iphdr (header_len + 16) original_checksum;
          Some (if original_checksum \<noteq> expected_checksum then Some ''invalid TCP checksum'' else None, iphdr)
        }})"

definition ipv4streamValidateUdpChecksum :: "lwip \<Rightarrow> cksum_fn \<Rightarrow> byte list \<Rightarrow> nat \<Rightarrow> nat \<Rightarrow> verdict option" where
  "ipv4streamValidateUdpChecksum L checksum iphdr header_len total_length =
     (let transport_len = u16 (total_length - header_len) in
      if transport_len < UDP_HLEN then Some (Some ''UDP packet is smaller than the minimum header'', iphdr) else do {
        len \<leftarrow> ld16 iphdr (header_len + 4);
        let udp_len = lwip_htons L len;
        if udp_len < UDP_HLEN \<or> udp_len > transport_len then Some (Some ''invalid UDP length'', iphdr) else do {
          original_checksum \<leftarrow> ld16 iphdr (header_len + 6);
          if original_checksum = 0 then Some (None, iphdr) else do {
            iphdr \<leftarrow> st16 iphdr (header_len + 6) 0;
            init \<leftarrow> ipv4streamChecksumPseudoHeader L iphdr IP_PROTO_UDP udp_len;
            expected_checksum \<leftarrow> calcGenericChecksum checksum (drop header_len iphdr) udp_len init;
            iphdr \<leftarrow> st16 iphdr (header_len + 6) original_checksum;
            let expected_checksum = (if expected_checksum = 0 then 65535 else expected_checksum);
            Some (if original_checksum \<noteq> expected_checksum then Some ''invalid UDP checksum'' else None, iphdr)
          }}})"

definition ipv4streamValidateIcmpChecksum :: "lwip \<Rightarrow> cksum_fn \<Rightarrow> byte list \<Rightarrow> nat \<Rightarrow> nat \<Rightarrow> verdict option" where
  "ipv4streamValidateIcmpChecksum L checksum iphdr header_len total_length =
     (let transport_len = u16 (total_length - header_len) in
      if transport_len < ICMP_HLEN then Some (Some ''ICMP packet is smaller than the minimum header'', iphdr) else do {
        original_checksum \<leftarrow> ld16 iphdr (header_len + 2);
        iphdr \<leftarrow> st16 iphdr (header_len + 2) 0;
        expected_checksum \<leftarrow> calcGenericChecksum checksum (drop header_len iphdr) transport_len 0;
        iphdr \<leftarrow> st16 iphdr (header_len + 2) original_checksum;
        Some (if original_checksum \<noteq> expected_checksum then Some ''invalid ICMP checksum'' else None, iphdr)
      })"

text \<open>The checksums of a packet whose structure is accepted.\<close>

definition validateChecksums :: "lwip \<Rightarrow> cksum_fn \<Rightarrow> byte list \<Rightarrow> nat \<Rightarrow> nat \<Rightarrow> verdict option" where
  "validateChecksums L checksum iphdr header_len total_length = do {
     (reason, iphdr) \<leftarrow> ipv4streamValidateIpv4HeaderChecksum L checksum iphdr header_len;
     if reason \<noteq> None then Some (reason, iphdr) else do {
       off \<leftarrow> ld16 iphdr 6;
       if lwip_htons L off AND (IP_MF OR IP_OFFMASK) \<noteq> 0 then Some (None, iphdr) else do {
         proto \<leftarrow> rd8 iphdr 9;
         if unat proto = IP_PROTO_TCP then ipv4streamValidateTcpChecksum L checksum iphdr header_len total_length
         else if unat proto = IP_PROTO_UDP then ipv4streamValidateUdpChecksum L checksum iphdr header_len total_length
         else if unat proto = IP_PROTO_ICMP then ipv4streamValidateIcmpChecksum L checksum iphdr header_len total_length
         else Some (None, iphdr)
       }}}"

definition ipv4streamValidatePacket ::
  "lwip \<Rightarrow> cksum_fn \<Rightarrow> ipv4stream_validation_level \<Rightarrow> sbuf \<Rightarrow> (string option \<times> sbuf) option" where
  "ipv4streamValidatePacket L checksum level packet = do {
     ensure (\<not> sbufIsSplice packet);
     if level = kIpv4StreamValidationNone then Some (None, packet) else do {
       iphdr \<leftarrow> sbufRead packet (sbufGetLength packet);
       r \<leftarrow> ipv4streamValidateIpv4PacketHeader L iphdr (sbufGetLength packet);
       case r of
         Inl reason \<Rightarrow> Some (Some reason, packet)
       | Inr (header_len, total_length) \<Rightarrow>
           if level = kIpv4StreamValidationLoose then Some (None, packet) else do {
             (reason, iphdr) \<leftarrow> validateChecksums L checksum iphdr header_len total_length;
             packet \<leftarrow> sbufWrite packet iphdr;
             Some (reason, packet)
           }
     }}"

section \<open>Extraction\<close>

definition ipv4streamIpv4HeaderLooksValid :: "byte list \<Rightarrow> (bool \<times> nat) option" where
  "ipv4streamIpv4HeaderLooksValid header = do {
     b \<leftarrow> rd8 header 0;
     total_length \<leftarrow> rd_be16 header 2;
     let version = unat b div 16;
     let header_len = u8 (unat b mod 16 * 4);
     Some (version = 4 \<and> header_len \<ge> IP_HLEN \<and> total_length \<ge> header_len \<and> total_length \<le> u16 kMaxAllowedPacketLength,
           total_length)
   }"

text \<open>The search of \<open>ipv4streamDropResyncBytes\<close> from position \<open>i\<close> on; 0 is its result when nothing is found.\<close>

function resyncScan :: "byte list \<Rightarrow> nat \<Rightarrow> nat \<Rightarrow> nat option" where
  "resyncScan scan window i =
     (if i + IP_HLEN \<le> window then
        (case ipv4streamIpv4HeaderLooksValid (drop i scan) of
           None \<Rightarrow> None
         | Some r \<Rightarrow> if fst r then Some i else resyncScan scan window (i + 1))
      else Some 0)"
  by pat_completeness auto

termination by (relation "measure (\<lambda>(scan, window, i). window - i)") auto

declare resyncScan.simps [simp del]

definition ipv4streamDropResyncBytes ::
  "('q, sbuf) deque_ops \<Rightarrow> 'q buffer_stream \<Rightarrow> buffer_pool \<Rightarrow> ('q buffer_stream \<times> buffer_pool) option" where
  "ipv4streamDropResyncBytes D stream pool = do {
     let buffered = bufferstreamGetBufLen stream;
     let window = (if buffered < kResyncScanWindow then buffered else kResyncScanWindow);
     scan \<leftarrow> bufferstreamViewBytesAt D stream 0 window;
     found \<leftarrow> resyncScan scan window 1;
     let drop_count = (if found > 0 then found else sub64 window (IP_HLEN - 1));
     (dropped, stream, pool) \<leftarrow> bufferstreamReadExact D stream pool drop_count;
     pool \<leftarrow> bufferpoolReuseBuffer pool dropped;
     Some (stream, pool)
   }"

definition ipv4streamIsForwardablePacket :: "sbuf \<Rightarrow> bool option" where
  "ipv4streamIsForwardablePacket packet = do {
     ensure (\<not> sbufIsSplice packet);
     let len = sbufGetLength packet;
     if len < IP_HLEN \<or> len > kMaxAllowedPacketLength then Some False else do {
       header \<leftarrow> sbufRead packet len;
       (valid, total_length) \<leftarrow> ipv4streamIpv4HeaderLooksValid header;
       Some (valid \<and> total_length = len)
     }}"

partial_function (option) ipv4streamTryReadPacket ::
  "('q, sbuf) deque_ops \<Rightarrow> 'q buffer_stream \<Rightarrow> buffer_pool \<Rightarrow> (sbuf option \<times> 'q buffer_stream \<times> buffer_pool) option" where
  "ipv4streamTryReadPacket D stream pool =
     (if bufferstreamGetBufLen stream < IP_HLEN then Some (None, stream, pool)
      else Option.bind (bufferstreamViewBytesAt D stream 0 IP_HLEN) (\<lambda>header.
        Option.bind (ipv4streamIpv4HeaderLooksValid header) (\<lambda>r.
          if fst r then
            (if bufferstreamGetBufLen stream < snd r then Some (None, stream, pool)
             else Option.bind (bufferstreamReadExact D stream pool (snd r)) (\<lambda>x. Some (Some (fst x), snd x)))
          else Option.bind (ipv4streamDropResyncBytes D stream pool) (\<lambda>x. ipv4streamTryReadPacket D (fst x) (snd x)))))"

declare ipv4streamTryReadPacket.simps [code]

section \<open>Admission\<close>

definition kIpv4StreamNestedBytes :: nat where
  "kIpv4StreamNestedBytes = 128 * 1024"

definition kIpv4StreamNestedCharge :: nat where
  "kIpv4StreamNestedCharge = 2 * 1024 * 1024"

definition kIpv4StreamIncompleteCharge :: nat where
  "kIpv4StreamIncompleteCharge = 128 * 1024"

record 'q ipv4stream_input =
  in_pending :: "'q buffer_queue"
  in_budget :: budget_ref
  in_active :: buffer_budget_reservation
  in_draining :: bool

datatype ipv4stream_input_result =
  kIpv4StreamInputDrain | kIpv4StreamInputQueued | kIpv4StreamInputEmpty | kIpv4StreamInputRejected

definition ipv4streamInputInit ::
  "('q, sbuf) deque_ops \<Rightarrow> budgets \<Rightarrow> budget_ref \<Rightarrow> (budgets \<times> 'q ipv4stream_input) option" where
  "ipv4streamInputInit D B r = do {
     let B = B(r := bufferbudgetInit \<lparr>cost_bytes = kIpv4StreamNestedBytes, cost_charge = kIpv4StreamNestedCharge\<rparr>);
     (attached, B, q) \<leftarrow> bufferqueueTryAttachBudget B (bufferqueueInitEmpty D) r;
     ensure attached;
     Some (B, \<lparr>in_pending = q, in_budget = r, in_active = empty_reservation, in_draining = False\<rparr>)
   }"

definition ipv4streamInputDestroy ::
  "('q, sbuf) deque_ops \<Rightarrow> budgets \<Rightarrow> buffer_pool \<Rightarrow> 'q ipv4stream_input \<Rightarrow>
   (budgets \<times> buffer_pool \<times> 'q ipv4stream_input) option" where
  "ipv4streamInputDestroy D B pool input = do {
     (B, pool, q) \<leftarrow> bufferqueueDestroy D B pool (in_pending input);
     (B, v) \<leftarrow> bufferbudgetReservationRelease B (in_active input);
     bufferbudgetAssertEmpty (B (in_budget input));
     Some (B, pool, input\<lparr>in_pending := q, in_active := v, in_draining := False\<rparr>)
   }"

definition ipv4streamInputReset ::
  "('q, sbuf) deque_ops \<Rightarrow> budgets \<Rightarrow> buffer_pool \<Rightarrow> 'q ipv4stream_input \<Rightarrow>
   (budgets \<times> buffer_pool \<times> 'q ipv4stream_input) option" where
  "ipv4streamInputReset D B pool input = do {
     (B, pool, input) \<leftarrow> ipv4streamInputDestroy D B pool input;
     (B, input) \<leftarrow> ipv4streamInputInit D B (in_budget input);
     Some (B, pool, input)
   }"

text \<open>On \<open>kIpv4StreamInputRejected\<close> the buffer stays with the caller.\<close>

definition ipv4streamInputAdmit ::
  "('q, sbuf) deque_ops \<Rightarrow> budgets \<Rightarrow> 'q ipv4stream_input \<Rightarrow> 'q buffer_stream \<Rightarrow> buffer_pool \<Rightarrow> sbuf \<Rightarrow>
   (ipv4stream_input_result \<times> budgets \<times> 'q ipv4stream_input \<times> 'q buffer_stream \<times> buffer_pool) option" where
  "ipv4streamInputAdmit D B input stream pool buf = do {
     ensure (\<not> sbufIsSplice buf);
     if sbufGetLength buf = 0 then do {
       pool \<leftarrow> bufferpoolReuseBuffer pool buf;
       Some (kIpv4StreamInputEmpty, B, input, stream, pool)
     }
     else if in_draining input then do {
       (taken, B, q, b, v) \<leftarrow> bufferqueueTryPushBack D B (in_pending input) buf;
       Some (if taken then kIpv4StreamInputQueued else kIpv4StreamInputRejected, B, input\<lparr>in_pending := q\<rparr>, stream, pool)
     }
     else do {
       ensure (bufferqueueGetBufCount D (in_pending input) = 0 \<and> rv_budget (in_active input) = None);
       if bufferstreamGetBufLen stream > sub32 UINT32_MAX (sbufGetLength buf)
       then Some (kIpv4StreamInputRejected, B, input, stream, pool)
       else do {
         (stream, pool) \<leftarrow> bufferstreamPush D stream pool buf;
         Some (kIpv4StreamInputDrain, B, input\<lparr>in_draining := True\<rparr>, stream, pool)
       }
     }}"

definition ipv4streamInputAdvance ::
  "('q, sbuf) deque_ops \<Rightarrow> budgets \<Rightarrow> 'q ipv4stream_input \<Rightarrow> 'q buffer_stream \<Rightarrow> buffer_pool \<Rightarrow>
   (bool \<times> budgets \<times> 'q ipv4stream_input \<times> 'q buffer_stream \<times> buffer_pool) option" where
  "ipv4streamInputAdvance D B input stream pool = do {
     ensure (in_draining input);
     ensure (bufferstreamGetBufLen stream < kMaxAllowedPacketLength);
     (settled, stream, pool) \<leftarrow> bufferstreamSettleRetained D stream pool kIpv4StreamIncompleteCharge;
     ensure settled;
     (B, v) \<leftarrow> bufferbudgetReservationRelease B (in_active input);
     (got, B, q, v) \<leftarrow> bufferqueuePopFrontReserved D B (in_pending input) v;
     let input = input\<lparr>in_pending := q, in_active := (case v of None \<Rightarrow> empty_reservation | Some v \<Rightarrow> v)\<rparr>;
     case got of
       Some next \<Rightarrow> do {
         (stream, pool) \<leftarrow> bufferstreamPush D stream pool next;
         Some (True, B, input, stream, pool)
       }
     | None \<Rightarrow> Some (False, B, input\<lparr>in_draining := False\<rparr>, stream, pool)
   }"

end
