(* ===== verification/Ipv4_Stream_Laws.thy ===== *)
theory Ipv4_Stream_Laws
  imports Ipv4_Stream Packet_Checksum_Laws Stream_Laws
begin

text \<open>
  What the codec of \<open>Ipv4_Stream\<close> computes. Extraction is refined by \<open>next_packet\<close>, which skips one byte at a
  time until a header is plausible and knows nothing of buffers, windows or resynchronisation. The packets of a
  stream do not depend on how its bytes arrive. Validation is related to the computation of checksums in
  \<open>Packet_Checksum\<close>.
\<close>

section \<open>The reference\<close>

definition plausible :: "byte list \<Rightarrow> bool" where
  "plausible bs \<longleftrightarrow> 20 \<le> length bs \<and> unat (bs ! 0) div 16 = 4 \<and> 20 \<le> ip_hl bs \<and> ip_hl bs \<le> be_at bs 2 \<and>
     be_at bs 2 \<le> kMaxAllowedPacketLength"

function next_packet :: "byte list \<Rightarrow> byte list option \<times> byte list" where
  "next_packet bs =
     (if length bs < 20 then (None, bs)
      else if plausible bs then
        (if length bs < be_at bs 2 then (None, bs) else (Some (take (be_at bs 2) bs), drop (be_at bs 2) bs))
      else next_packet (tl bs))"
  by pat_completeness auto

termination by (relation "measure length") auto

declare next_packet.simps [simp del]

lemma plausible_bounds: "plausible bs \<Longrightarrow> 20 \<le> be_at bs 2 \<and> be_at bs 2 \<le> 1500"
  by (auto simp: plausible_def kMaxAllowedPacketLength_def)

lemma plausible_take: "20 \<le> n \<Longrightarrow> n \<le> length bs \<Longrightarrow> plausible (take n bs) = plausible bs"
  by (simp add: plausible_def ip_hl_def be_at_def)

lemma plausible_append: "20 \<le> length bs \<Longrightarrow> plausible (bs @ cs) = plausible bs"
  using plausible_take [of "length bs" "bs @ cs"] by simp

lemma be_at_append: "i + 2 \<le> length bs \<Longrightarrow> be_at (bs @ cs) i = be_at bs i"
  by (simp add: be_at_def nth_append)

lemma next_packet_short: "length bs < 20 \<Longrightarrow> next_packet bs = (None, bs)"
  by (simp add: next_packet.simps)

lemma next_packet_skip: "20 \<le> length bs \<Longrightarrow> \<not> plausible bs \<Longrightarrow> next_packet bs = next_packet (drop 1 bs)"
  by (subst next_packet.simps) (simp add: drop_Suc)

lemma next_packet_skips:
  assumes "n + 19 \<le> length bs" "\<And>j. j < n \<Longrightarrow> \<not> plausible (drop j bs)"
  shows "next_packet (drop n bs) = next_packet bs"
  using assms
proof (induction n)
  case (Suc n)
  have "next_packet (drop n bs) = next_packet (drop 1 (drop n bs))"
    using Suc.prems by (intro next_packet_skip) simp_all
  then show ?case using Suc by simp
qed simp

lemma next_packet_cases:
  assumes "20 \<le> length bs" "plausible bs"
  shows "next_packet bs = (if length bs < be_at bs 2 then (None, bs) else (Some (take (be_at bs 2) bs), drop (be_at bs 2) bs))"
  using assms by (subst next_packet.simps) simp

text \<open>What is left without a packet is too short or an incomplete packet; more bytes change nothing before it.\<close>

lemma next_packet_rest: "next_packet bs = (None, r) \<Longrightarrow> length r < kMaxAllowedPacketLength"
proof (induction bs rule: next_packet.induct)
  case (1 bs)
  show ?case
  proof (cases "20 \<le> length bs \<and> \<not> plausible bs")
    case True
    then show ?thesis using 1 next_packet_skip [of bs] by (simp add: drop_Suc)
  next
    case False
    then show ?thesis using 1(2) plausible_bounds [of bs]
      by (cases "length bs < 20") (auto simp: next_packet_short next_packet_cases kMaxAllowedPacketLength_def split: if_splits)
  qed
qed

lemma next_packet_some:
  "next_packet bs = (Some p, r) \<Longrightarrow> plausible p \<and> be_at p 2 = length p \<and> (\<exists>g. bs = g @ p @ r) \<and> length p + length r \<le> length bs"
proof (induction bs rule: next_packet.induct)
  case (1 bs)
  show ?case
  proof (cases "20 \<le> length bs \<and> \<not> plausible bs")
    case True
    then have "next_packet (tl bs) = (Some p, r)" using 1(2) next_packet_skip [of bs] by (simp add: drop_Suc)
    moreover obtain b where "bs = b # tl bs" using True by (cases bs) auto
    ultimately show ?thesis using 1(1) True
      by (metis append_Cons length_Cons le_SucI not_le)
  next
    case False
    then have b: "plausible bs" "be_at bs 2 \<le> length bs" "p = take (be_at bs 2) bs" "r = drop (be_at bs 2) bs" "20 \<le> be_at bs 2"
      using 1(2) plausible_bounds [of bs]
      by (cases "length bs < 20"; auto simp: next_packet_short next_packet_cases split: if_splits)+
    then have "be_at p 2 = be_at bs 2" by (simp add: be_at_def)
    then show ?thesis using b by (simp add: plausible_take)
  qed
qed

lemma next_packet_append:
  "next_packet (bs @ cs) = (case next_packet bs of (Some p, r) \<Rightarrow> (Some p, r @ cs) | (None, r) \<Rightarrow> next_packet (r @ cs))"
proof (induction bs rule: next_packet.induct)
  case (1 bs)
  show ?case
  proof (cases "20 \<le> length bs")
    case False
    then show ?thesis by (simp add: next_packet_short)
  next
    case long: True
    show ?thesis
    proof (cases "plausible bs")
      case True
      have "be_at (bs @ cs) 2 = be_at bs 2" using long by (intro be_at_append) simp
      then show ?thesis using long True by (simp add: next_packet_cases plausible_append)
    next
      case False
      then have "next_packet bs = next_packet (tl bs)" "next_packet (bs @ cs) = next_packet (tl bs @ cs)"
        using long next_packet_skip [of bs] next_packet_skip [of "bs @ cs"] by (auto simp: plausible_append drop_Suc tl_append split: list.splits)
      then show ?thesis using 1 long False by simp
    qed
  qed
qed

text \<open>All packets of a byte sequence and the bytes that remain.\<close>

function packets_of :: "byte list \<Rightarrow> byte list list \<times> byte list" where
  "packets_of bs = (case next_packet bs of
     (None, r) \<Rightarrow> ([], r)
   | (Some p, r) \<Rightarrow> (p # fst (packets_of r), snd (packets_of r)))"
  by pat_completeness auto

termination by (relation "measure length") (auto simp: plausible_def dest!: next_packet_some [OF sym])

declare packets_of.simps [simp del]

lemma packets_of_append: "packets_of (bs @ cs) = (fst (packets_of bs) @ fst (packets_of (snd (packets_of bs) @ cs)),
    snd (packets_of (snd (packets_of bs) @ cs)))"
proof (induction bs rule: packets_of.induct)
  case (1 bs)
  obtain g r where n: "next_packet bs = (g, r)" by (cases "next_packet bs")
  show ?case
  proof (cases g)
    case None
    have "next_packet (bs @ cs) = next_packet (r @ cs)" using n None by (simp add: next_packet_append)
    then have "packets_of (bs @ cs) = packets_of (r @ cs)" by (simp add: packets_of.simps)
    then show ?thesis using n None by (simp add: packets_of.simps [of bs])
  next
    case (Some p)
    then have "packets_of (r @ cs) = (fst (packets_of r) @ fst (packets_of (snd (packets_of r) @ cs)), snd (packets_of (snd (packets_of r) @ cs)))"
      using 1 n by (metis prod.collapse)
    moreover have "next_packet (bs @ cs) = (Some p, r @ cs)" using n Some by (simp add: next_packet_append)
    ultimately show ?thesis using n Some by (simp add: packets_of.simps [of bs] packets_of.simps [of "bs @ cs"])
  qed
qed

lemma packets_of_nil [simp]: "packets_of [] = ([], [])"
  by (simp add: packets_of.simps next_packet_short)

text \<open>A packet that may be put on the stream, and bytes before it that start no packet.\<close>

definition forwardable :: "byte list \<Rightarrow> bool" where
  "forwardable p \<longleftrightarrow> plausible p \<and> be_at p 2 = length p"

definition garbage_before :: "byte list \<Rightarrow> byte list \<Rightarrow> bool" where
  "garbage_before g p \<longleftrightarrow> (\<forall>j<length g. \<not> plausible (drop j (g @ p)))"

lemma next_packet_forwardable:
  assumes "forwardable p" "garbage_before g p"
  shows "next_packet (g @ p @ r) = (Some p, r)"
proof -
  have p: "plausible p" "be_at p 2 = length p" "20 \<le> length p" using assms(1) by (simp_all add: forwardable_def plausible_def)
  have "next_packet (drop (length g) (g @ p @ r)) = next_packet (g @ p @ r)"
  proof (rule next_packet_skips)
    show "length g + 19 \<le> length (g @ p @ r)" using p(3) by simp
    fix j assume j: "j < length g"
    then have e: "drop j (g @ p @ r) = drop j (g @ p) @ r" and l: "20 \<le> length (drop j (g @ p))" using p(3) by simp_all
    have "\<not> plausible (drop j (g @ p))" using assms(2) j unfolding garbage_before_def by blast
    then show "\<not> plausible (drop j (g @ p @ r))" unfolding e plausible_append [OF l] .
  qed
  moreover have "be_at (p @ r) 2 = length p" using p by (simp add: be_at_append)
  ultimately show ?thesis using p next_packet_cases [of "p @ r"] by (simp add: plausible_append)
qed

lemma packets_of_stream:
  assumes "\<forall>(g, p)\<in>set gps. forwardable p \<and> garbage_before g p"
  shows "packets_of (concat (map (\<lambda>(g, p). g @ p) gps) @ r) = (map snd gps @ fst (packets_of r), snd (packets_of r))"
  using assms
proof (induction gps)
  case (Cons gp gps)
  then show ?case
    using next_packet_forwardable [of "snd gp" "fst gp" "concat (map (\<lambda>(g, p). g @ p) gps) @ r"]
    by (cases gp) (simp add: packets_of.simps [of "_ @ _"])
qed simp

section \<open>Extraction\<close>

lemma looks_eq:
  assumes "4 \<le> length h"
  shows "ipv4streamIpv4HeaderLooksValid h = Some (unat (h ! 0) div 16 = 4 \<and> 20 \<le> ip_hl h \<and> ip_hl h \<le> be_at h 2 \<and>
    be_at h 2 \<le> kMaxAllowedPacketLength, be_at h 2)"
proof -
  have "rd8 h 0 = Some (h ! 0)" by (rule rd8_Some) (use assms in linarith)
  moreover have "rd_be16 h 2 = Some (be_at h 2)" using assms by (simp add: rd_be16_Some be_at_def)
  moreover have "u8 (unat (h ! 0) mod 16 * 4) = ip_hl h" using ip_hl_le [of h] by (simp add: ip_hl_def)
  ultimately show ?thesis
    by (simp add: ipv4streamIpv4HeaderLooksValid_def kMaxAllowedPacketLength_def del: mult_le_cancel2 one_le_mult_iff) (auto simp: ip_hl_def)
qed

lemma looks_plausible: "20 \<le> length h \<Longrightarrow> ipv4streamIpv4HeaderLooksValid h = Some (plausible h, be_at h 2)"
  by (simp add: looks_eq plausible_def)

lemma resyncScan_eq:
  assumes "length scan = window"
  shows "\<exists>n. resyncScan scan window i = Some n \<and>
    (if n = 0 then i = 0 \<or> (\<forall>j. i \<le> j \<longrightarrow> j + 20 \<le> window \<longrightarrow> \<not> plausible (drop j scan))
     else i \<le> n \<and> n + 20 \<le> window \<and> (\<forall>j. i \<le> j \<longrightarrow> j < n \<longrightarrow> \<not> plausible (drop j scan)))"
  using assms
proof (induction scan window i rule: resyncScan.induct)
  case (1 scan window i)
  show ?case
  proof (cases "i + 20 \<le> window \<and> \<not> plausible (drop i scan)")
    case False
    then show ?thesis
      using 1(2) looks_plausible [of "drop i scan"] by (subst (1) resyncScan.simps) auto
  next
    case True
    have "20 \<le> length (drop i scan)" using True 1(2) unfolding length_drop by linarith
    then have l: "ipv4streamIpv4HeaderLooksValid (drop i scan) = Some (False, be_at (drop i scan) 2)"
      using True looks_plausible [of "drop i scan"] by simp
    then have e: "resyncScan scan window i = resyncScan scan window (i + 1)"
      using True by (subst (1) resyncScan.simps) simp
    have le: "j \<noteq> i \<Longrightarrow> i \<le> j \<Longrightarrow> i + 1 \<le> j" for j by simp
    obtain n where n: "resyncScan scan window (i + 1) = Some n"
      "if n = 0 then i + 1 = 0 \<or> (\<forall>j. i + 1 \<le> j \<longrightarrow> j + 20 \<le> window \<longrightarrow> \<not> plausible (drop j scan))
       else i + 1 \<le> n \<and> n + 20 \<le> window \<and> (\<forall>j. i + 1 \<le> j \<longrightarrow> j < n \<longrightarrow> \<not> plausible (drop j scan))"
      using 1(1) [of "(False, be_at (drop i scan) 2)"] True l 1(2) by auto
    show ?thesis
    proof (intro exI conjI)
      show "resyncScan scan window i = Some n" using e n(1) by simp
      show "if n = 0 then i = 0 \<or> (\<forall>j. i \<le> j \<longrightarrow> j + 20 \<le> window \<longrightarrow> \<not> plausible (drop j scan))
        else i \<le> n \<and> n + 20 \<le> window \<and> (\<forall>j. i \<le> j \<longrightarrow> j < n \<longrightarrow> \<not> plausible (drop j scan))"
      proof (cases "n = 0")
        case zero: True
        then have "\<not> plausible (drop j scan)" if "i \<le> j" "j + 20 \<le> window" for j
          using that n(2) le [of j] True by (cases "j = i") simp_all
        then show ?thesis using zero by simp
      next
        case some: False
        then have "\<not> plausible (drop j scan)" if "i \<le> j" "j < n" for j
          using that n(2) le [of j] True by (cases "j = i") simp_all
        then show ?thesis using some n(2) by simp
      qed
    qed
  qed
qed

context sbuf_deque
begin

text \<open>Resynchronisation drops at least one byte and no byte at which a packet could start.\<close>

lemma resync_ok:
  assumes s: "stream_ok D s" and p: "pool_ok p" and safe: "bs_size s \<le> STREAM_SAFE_MAX"
    and long: "20 \<le> bs_size s" and no: "\<not> plausible (stream_bytes D s)"
  shows "\<exists>s' p' n. ipv4streamDropResyncBytes D s p = Some (s', p') \<and> stream_ok D s' \<and> pool_ok p' \<and> 0 < n \<and> n \<le> bs_size s \<and>
    stream_bytes D s' = drop n (stream_bytes D s) \<and> next_packet (stream_bytes D s') = next_packet (stream_bytes D s)"
proof -
  let ?bs = "stream_bytes D s"
  define window where "window = (if bs_size s < kResyncScanWindow then bs_size s else kResyncScanWindow)"
  have size: "bs_size s = length ?bs" using s by (simp add: stream_ok_def)
  have w: "20 \<le> window" "window \<le> length ?bs" "window \<le> 256" using long size by (auto simp: window_def kResyncScanWindow_def)
  have view: "bufferstreamViewBytesAt D s 0 window = Some (take window ?bs)"
    using viewBytesAt_ok [OF s, of window 0] w size by simp
  have same: "plausible (drop j (take window ?bs)) = plausible (drop j ?bs)" if "j + 20 \<le> window" for j
    using that w plausible_take [of "window - j" "drop j ?bs"] by (simp add: drop_take)
  have len: "length (take window ?bs) = window" using w by simp
  obtain f where f: "resyncScan (take window ?bs) window 1 = Some f"
    "if f = 0 then (1 :: nat) = 0 \<or> (\<forall>j. 1 \<le> j \<longrightarrow> j + 20 \<le> window \<longrightarrow> \<not> plausible (drop j (take window ?bs)))
     else 1 \<le> f \<and> f + 20 \<le> window \<and> (\<forall>j. 1 \<le> j \<longrightarrow> j < f \<longrightarrow> \<not> plausible (drop j (take window ?bs)))"
    using resyncScan_eq [OF len, of 1] by (elim exE conjE)
  define n where "n = (if f > 0 then f else window - 19)"
  have sub: "sub64 window 19 = window - 19" using w by simp
  have n: "0 < n" "n + 19 \<le> window" using f(2) w by (auto simp: n_def split: if_splits)
  have skip: "\<not> plausible (drop j ?bs)" if "j < n" for j
  proof (cases "j = 0")
    case False
    then have "j + 20 \<le> window" "1 \<le> j" using that n by simp_all
    then show ?thesis using f(2) that same [of j] by (auto simp: n_def split: if_splits)
  qed (use no in simp)
  obtain r s' p' q where d: "bufferstreamReadExact D s p n = Some (r, s', p')" "bufferpoolReuseBuffer p' r = Some q"
    "stream_ok D s'" "pool_ok q" "stream_bytes D s' = drop n ?bs"
    using discard_ok [OF s p n(1) _ safe] n w size by auto
  have "ipv4streamDropResyncBytes D s p = Some (s', q)"
    using view f(1) d(1,2) sub
    by (cases "f = 0") (simp_all add: ipv4streamDropResyncBytes_def bufferstreamGetBufLen_def n_def flip: window_def)
  moreover have "next_packet (drop n ?bs) = next_packet ?bs"
    by (rule next_packet_skips [OF _ skip]) (use n w in simp)
  ultimately show ?thesis using d n w size by (intro exI [of _ s'] exI [of _ q] exI [of _ n]) simp
qed

lemma tryRead_ok:
  assumes "stream_ok D s" "pool_ok p" "bs_size s \<le> STREAM_SAFE_MAX"
  shows "\<exists>got s' p'. ipv4streamTryReadPacket D s p = Some (got, s', p') \<and> stream_ok D s' \<and> pool_ok p' \<and>
    (\<forall>b. got = Some b \<longrightarrow> sbuf_ok b) \<and> next_packet (stream_bytes D s) = (map_option payload got, stream_bytes D s') \<and>
    bs_size s' \<le> bs_size s"
  using assms
proof (induction "bs_size s" arbitrary: s p rule: less_induct)
  case less
  let ?bs = "stream_bytes D s"
  have size: "bs_size s = length ?bs" using less.prems by (simp add: stream_ok_def)
  show ?case
  proof (cases "bs_size s < 20")
    case True
    then have "ipv4streamTryReadPacket D s p = Some (None, s, p)"
      by (subst ipv4streamTryReadPacket.simps) (simp add: bufferstreamGetBufLen_def)
    then show ?thesis using less.prems True size by (simp add: next_packet_short)
  next
    case long: False
    have view: "bufferstreamViewBytesAt D s 0 20 = Some (take 20 ?bs)"
      using viewBytesAt_ok [OF less.prems(1), of 20 0] long by simp
    have pl: "plausible (take 20 ?bs) = plausible ?bs" using long size by (intro plausible_take) simp_all
    have be: "be_at (take 20 ?bs) 2 = be_at ?bs 2" using long size by (simp add: be_at_def)
    have looks: "ipv4streamIpv4HeaderLooksValid (take 20 ?bs) = Some (plausible ?bs, be_at ?bs 2)"
      using looks_plausible [of "take 20 ?bs"] pl be long size by simp
    note unf = ipv4streamTryReadPacket.simps [of D s p] bufferstreamGetBufLen_def
    show ?thesis
    proof (cases "plausible ?bs")
      case True
      show ?thesis
      proof (cases "bs_size s < be_at ?bs 2")
        case short: True
        then have "ipv4streamTryReadPacket D s p = Some (None, s, p)" using long view looks True by (simp add: unf)
        then show ?thesis using less.prems True short long size by (simp add: next_packet_cases)
      next
        case False
        obtain r s' p' where r: "bufferstreamReadExact D s p (be_at ?bs 2) = Some (r, s', p')" "sbuf_ok r" "stream_ok D s'"
          "payload r = take (be_at ?bs 2) ?bs" "stream_bytes D s' = drop (be_at ?bs 2) ?bs" "pool_ok p'"
          using readExact_ok [OF less.prems(1,2) _ _ less.prems(3), of "be_at ?bs 2"] plausible_bounds [OF True] False by auto
        then have "ipv4streamTryReadPacket D s p = Some (Some r, s', p')" using long view looks True False by (simp add: unf)
        moreover have "bs_size s' \<le> bs_size s" using r(3,5) size by (simp add: stream_ok_def)
        ultimately show ?thesis using r True False long size by (simp add: next_packet_cases)
      qed
    next
      case False
      obtain s' p' n where d: "ipv4streamDropResyncBytes D s p = Some (s', p')" "stream_ok D s'" "pool_ok p'" "0 < n" "n \<le> bs_size s"
        "stream_bytes D s' = drop n ?bs" "next_packet (stream_bytes D s') = next_packet ?bs"
        using resync_ok [OF less.prems _ False] long by auto
      have sm: "bs_size s' < bs_size s" using d(2,4,5,6) size by (simp add: stream_ok_def)
      have "ipv4streamTryReadPacket D s p = ipv4streamTryReadPacket D s' p'"
        using long view looks False d(1) by (simp add: unf)
      then show ?thesis using less.hyps [OF sm d(2,3)] sm less.prems(3) d(7) by fastforce
    qed
  qed
qed

end

lemma isForwardable_eq:
  assumes "sbuf_ok b"
  shows "ipv4streamIsForwardablePacket b = Some (forwardable (payload b))"
proof -
  have r: "sbufRead b (sb_len b) = Some (payload b)" and l: "length (payload b) = sb_len b"
    using assms by (simp_all add: sbufRead_eq length_payload)
  show ?thesis
  proof (cases "20 \<le> sb_len b")
    case False
    then show ?thesis using l sbuf_okD(8) [OF assms] by (auto simp: ipv4streamIsForwardablePacket_def forwardable_def plausible_def sbufGetLength_def)
  next
    case True
    then show ?thesis
      using l r looks_plausible [of "payload b"] sbuf_okD(8) [OF assms]
      by (auto simp: ipv4streamIsForwardablePacket_def forwardable_def sbufGetLength_def plausible_def Let_def)
  qed
qed

section \<open>Validation\<close>

lemma put_be_fixed: "i + 2 \<le> length m \<Longrightarrow> v \<le> UINT16_MAX \<Longrightarrow> put_be m i v = m \<longleftrightarrow> be_at m i = v"
  using be_at_put_same [of i m v] put_be_same [of i m] by metis

lemma restore16: "i + 2 \<le> length m \<Longrightarrow> st16 (put_be m i 0) i (byte_swap16 (be_at m i)) = Some m"
  by (simp add: st16_eq put_be_put_be put_be_same)

definition whole :: "byte list \<Rightarrow> bool" where
  "whole m \<longleftrightarrow> ip_ok m (length m) \<and> be_at m 2 = length m"

definition unchecked_udp :: "byte list \<Rightarrow> bool" where
  "unchecked_udp m \<longleftrightarrow> \<not> frag m \<and> udp_ok m \<and> be_at m (ip_hl m + 6) = 0"

lemma whole_bounds:
  assumes "whole m"
  shows "20 \<le> ip_hl m" "ip_hl m + transport_len m = length m" "20 \<le> length m" "length m \<le> UINT16_MAX" "ip_hl m \<le> length m"
  using assms ip_okD [of m "length m"] be_at_le [of m 2] by (auto simp: whole_def transport_len_def)

context checksum_backend
begin

lemma validate_header_eq:
  assumes "n = length m"
  shows "\<exists>r. ipv4streamValidateIpv4PacketHeader L m n = Some r \<and>
    (if whole m then r = Inr (ip_hl m, length m) else \<exists>reason. r = Inl reason)"
proof (cases "n < 20")
  case True
  then show ?thesis using assms by (auto simp: ipv4streamValidateIpv4PacketHeader_def whole_def ip_ok_def)
next
  case False
  then have l: "20 \<le> length m" using assms by simp
  have r: "rd8 m 0 = Some (m ! 0)" by (rule rd8_Some) (use l in linarith)
  have hl: "u8 (unat (m ! 0) mod 16 * 4) = ip_hl m" using ip_hl_le [of m] by (simp add: ip_hl_def)
  obtain x where ld: "ld16 m 2 = Some x" "lwip_htons L x = be_at m 2" using l by (simp add: ld16_eq)
  show ?thesis
    using l assms unfolding ipv4streamValidateIpv4PacketHeader_def whole_def ip_ok_def
    by (simp add: r hl ld Let_def del: mult_le_cancel2)
qed

lemma validate_header_checksum_eq:
  assumes "whole m"
  shows "\<exists>r. ipv4streamValidateIpv4HeaderChecksum L checksum m (ip_hl m) = Some (r, m) \<and> (r = None \<longleftrightarrow> fill_header m = m)"
proof -
  note w = whole_bounds [OF assms]
  have "inet_chksum L (wwLwipChecksum checksum) (put_be m 10 0) (ip_hl m) = Some (byte_swap16 (header_field m))"
    using w by (subst inet_chksum_eq) (simp_all add: header_field_def take_put_be)
  moreover have "fill_header m = m \<longleftrightarrow> be_at m 10 = header_field m"
    using w fields_le(1) by (simp add: fill_header_def put_be_fixed)
  moreover have "byte_swap16 (be_at m 10) = byte_swap16 (header_field m) \<longleftrightarrow> be_at m 10 = header_field m"
    by (rule swap16_inj) (simp_all add: fields_le)
  ultimately show ?thesis
    using w by (simp add: ipv4streamValidateIpv4HeaderChecksum_def ld16_eq st16_zero restore16)
qed

lemma stream_pseudo_eq:
  assumes "20 \<le> length m" "p \<le> UINT8_MAX" "n \<le> UINT16_MAX"
  shows "ipv4streamChecksumPseudoHeader L m p n = Some (pseudo m p n)"
proof -
  have "ipv4streamChecksumPseudoHeader L m p n =
      Some (checksumPseudoHeader L (net32 (addr m 12)) (net32 (addr m 16)) p n)"
    using assms by (simp add: ipv4streamChecksumPseudoHeader_def checksumPseudoHeader_def ld32_addr Let_def)
  then show ?thesis by (simp only: pseudo_eq [OF assms])
qed

lemma pseudo_zeroed: "whole m \<Longrightarrow> ip_hl m + off + 2 \<le> length m \<Longrightarrow> pseudo (put_be m (ip_hl m + off) 0) p n = pseudo m p n"
  using whole_bounds [of m] by (simp add: pseudo_def be_at_put_other)

lemma validate_tcp_eq:
  assumes "whole m" "proto m = 6" "\<not> frag m"
  shows "\<exists>r. ipv4streamValidateTcpChecksum L checksum m (ip_hl m) (length m) = Some (r, m) \<and>
    (r = None \<longleftrightarrow> tcp_ok m \<and> fill_transport m = m)"
proof -
  let ?hl = "ip_hl m" and ?tl = "transport_len m"
  note w = whole_bounds [OF assms(1)]
  have tl: "u16 (length m - ?hl) = ?tl" using w transport_len_le [of m] by (simp add: transport_len_def flip: w(2))
  have b2: "be_at m 2 = length m" using assms(1) by (simp add: whole_def)
  have off: "be_at m 6 AND 8191 = 0" using assms(3) and_fragment [of "be_at m 6"] by (auto simp: frag_def)
  have tok: "tcp_ok m \<longleftrightarrow> 20 \<le> tcp_hl m \<and> tcp_hl m \<le> ?tl" using assms(2) off b2 w by (auto simp: tcp_ok_def proto_def)
  show ?thesis
  proof (cases "tcp_ok m")
    case False
    have "ld16 m (?hl + 12) = Some (byte_swap16 (be_at m (?hl + 12)))" if "20 \<le> ?tl" using that w by (intro ld16_eq) simp
    moreover have "u8 (be_at m (?hl + 12) div 4096 * 4) = tcp_hl m" using tcp_hl_le [of m] by (simp add: tcp_hl_def)
    ultimately show ?thesis
      using False tok tl by (cases "?tl < 20") (auto simp: ipv4streamValidateTcpChecksum_def Let_def)
  next
    case True
    then have t: "20 \<le> ?tl" "20 \<le> tcp_hl m" "tcp_hl m \<le> ?tl" using tok by simp_all
    have o: "?hl + 16 + 2 \<le> length m" "?hl + 12 + 2 \<le> length m" using t w by simp_all
    define c where "c = region_field m 16 ?tl (pseudo m 6 ?tl)"
    have c: "c \<le> UINT16_MAX" unfolding c_def by (rule fields_le(2) [OF pseudo_le]) (use transport_len_le in simp_all)
    have hl: "u8 (be_at m (?hl + 12) div 4096 * 4) = tcp_hl m" using tcp_hl_le [of m] by (simp add: tcp_hl_def)
    have "calcGenericChecksum checksum (drop ?hl (put_be m (?hl + 16) 0)) ?tl (pseudo m 6 ?tl) = Some (byte_swap16 c)"
      unfolding calcGenericChecksum_def c_def by (rule region_backend) (use t w transport_len_le pseudo_le in auto)
    moreover have "ipv4streamChecksumPseudoHeader L (put_be m (?hl + 16) 0) 6 ?tl = Some (pseudo m 6 ?tl)"
      using o w transport_len_le [of m] by (subst stream_pseudo_eq) (simp_all add: pseudo_zeroed assms(1))
    moreover have "byte_swap16 (be_at m (?hl + 16)) = byte_swap16 c \<longleftrightarrow> be_at m (?hl + 16) = c" by (rule swap16_inj [OF _ c]) simp
    moreover have "fill_transport m = m \<longleftrightarrow> be_at m (?hl + 16) = c"
      using assms(2) o put_be_fixed [OF o(1) c] by (simp add: fill_transport_def Let_def c_def)
    ultimately show ?thesis
      using True t o tl hl by (simp add: ipv4streamValidateTcpChecksum_def Let_def ld16_eq st16_zero restore16)
  qed
qed

lemma validate_udp_eq:
  assumes "whole m" "proto m = 17" "\<not> frag m"
  shows "\<exists>r. ipv4streamValidateUdpChecksum L checksum m (ip_hl m) (length m) = Some (r, m) \<and>
    (r = None \<longleftrightarrow> udp_ok m \<and> (be_at m (ip_hl m + 6) = 0 \<or> fill_transport m = m))"
proof -
  let ?hl = "ip_hl m" and ?tl = "transport_len m" and ?ul = "udp_len m"
  note w = whole_bounds [OF assms(1)]
  have tl: "u16 (length m - ?hl) = ?tl" using w transport_len_le [of m] by (simp add: transport_len_def flip: w(2))
  have b2: "be_at m 2 = length m" using assms(1) by (simp add: whole_def)
  have off: "be_at m 6 AND 8191 = 0" using assms(3) and_fragment [of "be_at m 6"] by (auto simp: frag_def)
  have uok: "udp_ok m \<longleftrightarrow> 8 \<le> ?tl \<and> 8 \<le> ?ul \<and> ?ul \<le> ?tl"
    using assms(2,3) off b2 w by (auto simp: udp_ok_def proto_def udp_len_def frag_def)
  have ul: "ld16 m (?hl + 4) = Some (byte_swap16 ?ul)" if "8 \<le> ?tl" using that w by (simp add: ld16_eq udp_len_def)
  have u: "?ul \<le> UINT16_MAX" by (simp add: udp_len_def)
  show ?thesis
  proof (cases "udp_ok m")
    case False
    then show ?thesis
      using uok tl ul u by (cases "?tl < 8") (auto simp: ipv4streamValidateUdpChecksum_def Let_def)
  next
    case True
    then have t: "8 \<le> ?tl" "8 \<le> ?ul" "?ul \<le> ?tl" using uok by simp_all
    have o: "?hl + 6 + 2 \<le> length m" using t w by simp
    define c where "c = region_field m 6 ?ul (pseudo m 17 ?ul)"
    have c: "c \<le> UINT16_MAX" unfolding c_def by (rule fields_le(2) [OF pseudo_le]) (use u in simp_all)
    have "calcGenericChecksum checksum (drop ?hl (put_be m (?hl + 6) 0)) ?ul (pseudo m 17 ?ul) = Some (byte_swap16 c)"
      unfolding calcGenericChecksum_def c_def by (rule region_backend) (use t w u pseudo_le in auto)
    moreover have "ipv4streamChecksumPseudoHeader L (put_be m (?hl + 6) 0) 17 ?ul = Some (pseudo m 17 ?ul)"
      using o w u by (subst stream_pseudo_eq) (simp_all add: pseudo_zeroed assms(1))
    moreover have "byte_swap16 (be_at m (?hl + 6)) = (if c = 0 then 65535 else byte_swap16 c) \<longleftrightarrow> be_at m (?hl + 6) = nz c"
      using swap16_inj [of "be_at m (?hl + 6)" c] swap16_inj [of "be_at m (?hl + 6)" 65535] c by (simp add: nz_def)
    moreover have "fill_transport m = m \<longleftrightarrow> be_at m (?hl + 6) = nz c"
      using assms(2) put_be_fixed [OF o nz_le [OF c]] by (simp add: fill_transport_def Let_def c_def)
    ultimately show ?thesis
      using True t o tl ul u by (simp add: ipv4streamValidateUdpChecksum_def Let_def ld16_eq st16_zero restore16)
  qed
qed

lemma validate_icmp_eq:
  assumes "whole m" "proto m = 1" "\<not> frag m"
  shows "\<exists>r. ipv4streamValidateIcmpChecksum L checksum m (ip_hl m) (length m) = Some (r, m) \<and>
    (r = None \<longleftrightarrow> 8 \<le> transport_len m \<and> fill_transport m = m)"
proof -
  let ?hl = "ip_hl m" and ?tl = "transport_len m"
  note w = whole_bounds [OF assms(1)]
  have tl: "u16 (length m - ?hl) = ?tl" using w transport_len_le [of m] by (simp add: transport_len_def flip: w(2))
  show ?thesis
  proof (cases "8 \<le> ?tl")
    case False
    then show ?thesis using tl by (simp add: ipv4streamValidateIcmpChecksum_def Let_def)
  next
    case True
    have o: "?hl + 2 + 2 \<le> length m" using True w by simp
    define c where "c = region_field m 2 ?tl 0"
    have c: "c \<le> UINT16_MAX" unfolding c_def by (rule fields_le(2)) simp
    have "calcGenericChecksum checksum (drop ?hl (put_be m (?hl + 2) 0)) ?tl 0 = Some (byte_swap16 c)"
      unfolding calcGenericChecksum_def c_def by (rule region_backend) (use True w transport_len_le in auto)
    moreover have "byte_swap16 (be_at m (?hl + 2)) = byte_swap16 c \<longleftrightarrow> be_at m (?hl + 2) = c" by (rule swap16_inj [OF _ c]) simp
    moreover have "fill_transport m = m \<longleftrightarrow> be_at m (?hl + 2) = c"
      using assms(2) put_be_fixed [OF o c] by (simp add: fill_transport_def Let_def c_def)
    ultimately show ?thesis
      using True o tl by (simp add: ipv4streamValidateIcmpChecksum_def Let_def ld16_eq st16_zero restore16)
  qed
qed

lemma validateChecksums_eq:
  assumes "whole m"
  shows "\<exists>r. validateChecksums L checksum m (ip_hl m) (length m) = Some (r, m) \<and>
    (r = None \<longleftrightarrow> fill_header m = m \<and> (frag m \<or> (proto m = 6 \<longrightarrow> tcp_ok m \<and> fill_transport m = m) \<and>
      (proto m = 17 \<longrightarrow> udp_ok m \<and> (be_at m (ip_hl m + 6) = 0 \<or> fill_transport m = m)) \<and>
      (proto m = 1 \<longrightarrow> 8 \<le> transport_len m \<and> fill_transport m = m)))"
proof -
  note w = whole_bounds [OF assms]
  have ld: "ld16 m 6 = Some (byte_swap16 (be_at m 6))" "rd8 m 9 = Some (m ! 9)" using w by (simp_all add: ld16_eq rd8_Some)
  obtain h where h: "ipv4streamValidateIpv4HeaderChecksum L checksum m (ip_hl m) = Some (h, m)" "h = None \<longleftrightarrow> fill_header m = m"
    using validate_header_checksum_eq [OF assms] by blast
  note unf = validateChecksums_def h(1) ld
  show ?thesis
  proof (cases "fill_header m = m \<and> \<not> frag m")
    case False
    then show ?thesis using h(2) by (auto simp: unf frag_def)
  next
    case True
    then have f: "be_at m 6 AND 16383 = 0" by (simp add: frag_def)
    consider "proto m = 6" | "proto m = 17" | "proto m = 1" | "proto m \<noteq> 6" "proto m \<noteq> 17" "proto m \<noteq> 1" by blast
    then show ?thesis
    proof cases
      case 1
      then show ?thesis using validate_tcp_eq [OF assms 1] True h(2) f by (auto simp: unf proto_def)
    next
      case 2
      then show ?thesis using validate_udp_eq [OF assms 2] True h(2) f by (auto simp: unf proto_def)
    next
      case 3
      then show ?thesis using validate_icmp_eq [OF assms 3] True h(2) f by (auto simp: unf proto_def)
    next
      case 4
      then show ?thesis using True h(2) f by (auto simp: unf proto_def)
    qed
  qed
qed

lemma header_checksum_eq:
  assumes "a \<le> length m"
  shows "calcIpv4HeaderChecksum L checksum m a = Some (if ip_ok m a then (True, fill_header m) else (False, m))"
proof (cases "ip_ok m a")
  case True
  have "setHeaderChecksum L checksum m (ip_hl m) = Some (fill_header m)"
    using ip_okD [OF True] assms by (intro setHeader_eq) simp_all
  then show ?thesis using True by (simp add: calcIpv4HeaderChecksum_def parse_eq [OF assms])
qed (simp add: calcIpv4HeaderChecksum_def parse_eq [OF assms])

end

lemma fill_transport_header:
  assumes "ip_ok m (length m)" "accepted m" "\<not> frag m"
  shows "be_at (fill_transport m) 10 = be_at m 10"
proof -
  note ok = ip_okD [OF assms(1)] and len = accepted_lengths [OF assms(2,3)]
  have o: "be_at (put_be m (ip_hl m + off) v) 10 = be_at m 10" if "ip_hl m + off + 2 \<le> length m" for off v
    using that ok by (intro be_at_put_other) simp_all
  have l: "ip_hl m + transport_len m \<le> length m" using ok by (simp add: transport_len_def)
  consider "proto m = 6" | "proto m = 17" | "proto m = 1" | "proto m \<noteq> 6" "proto m \<noteq> 17" "proto m \<noteq> 1" by blast
  then show ?thesis
  proof cases
    case 1
    then show ?thesis using len(1) l o [of 16] by (simp add: fill_transport_def Let_def)
  next
    case 2
    then show ?thesis using len(2) l o [of 6] by (simp add: fill_transport_def Let_def)
  next
    case 3
    then show ?thesis using len(3) l o [of 2] by (simp add: fill_transport_def Let_def)
  qed (simp add: fill_transport_def Let_def)
qed

lemma fill_packet_fixed:
  assumes "ip_ok m (length m)" "accepted m"
  shows "fill_packet m = m \<longleftrightarrow> fill_header m = m \<and> (frag m \<or> fill_transport m = m)"
proof
  assume e: "fill_packet m = m"
  have l: "10 + 2 \<le> length m" using ip_okD [OF assms(1)] by simp
  have "fill_header m = m" if "\<not> frag m"
  proof -
    have "be_at (fill_packet m) 10 = header_field m"
      using that fill_transport_header [of "fill_header m"] header_put [OF assms(1), of "header_field m"] assms(2) shape_put(3) [OF l]
        be_at_put_same [OF l fields_le(1)]
      by (simp add: fill_packet_def fill_header_def)
    then show ?thesis using e put_be_same [OF l] by (simp add: fill_header_def)
  qed
  then show "fill_header m = m \<and> (frag m \<or> fill_transport m = m)"
    using e by (cases "frag m") (simp_all add: fill_packet_def)
qed (auto simp: fill_packet_def)

lemma hard_accepts:
  assumes "ip_ok m (length m)"
  shows "fill_header m = m \<and> (frag m \<or> (proto m = 6 \<longrightarrow> tcp_ok m \<and> fill_transport m = m) \<and>
      (proto m = 17 \<longrightarrow> udp_ok m \<and> (be_at m (ip_hl m + 6) = 0 \<or> fill_transport m = m)) \<and>
      (proto m = 1 \<longrightarrow> 8 \<le> transport_len m \<and> fill_transport m = m)) \<longleftrightarrow>
    accepted m \<and> fill_packet m = m \<or> unchecked_udp m \<and> fill_header m = m"
proof -
  have u: "udp_ok m \<Longrightarrow> proto m = 17" by (simp add: udp_ok_def proto_def)
  have f: "accepted m \<Longrightarrow> fill_packet m = m \<longleftrightarrow> fill_header m = m \<and> (frag m \<or> fill_transport m = m)"
    by (rule fill_packet_fixed [OF assms])
  consider "frag m" | "\<not> frag m" "proto m = 6" | "\<not> frag m" "proto m = 17" | "\<not> frag m" "proto m = 1"
    | "\<not> frag m" "proto m \<noteq> 6" "proto m \<noteq> 17" "proto m \<noteq> 1" by blast
  then show ?thesis
  proof cases
    case 1
    then show ?thesis using f by (simp add: accepted_def unchecked_udp_def)
  next
    case 2
    then show ?thesis using f u by (auto simp: accepted_def unchecked_udp_def)
  next
    case 3
    then show ?thesis using f by (auto simp: accepted_def unchecked_udp_def)
  next
    case 4
    then show ?thesis using f u by (auto simp: accepted_def unchecked_udp_def)
  next
    case 5
    then show ?thesis using f u by (auto simp: accepted_def unchecked_udp_def fill_transport_def Let_def)
  qed
qed

lemma rewrite_payload: "sbuf_ok b \<Longrightarrow> sbufWrite b (payload b) = Some b"
proof -
  assume b: "sbuf_ok b"
  have "take (curpos b) (sb_buf b) @ payload b @ drop (curpos b + sb_len b) (sb_buf b) = sb_buf b"
    unfolding payload_def by (metis append.assoc append_take_drop_id take_add)
  then show ?thesis using b sbuf_okD [OF b] by (simp add: sbufWrite_def sbufWriteAt_eq length_payload)
qed

section \<open>Properties\<close>

definition sample_packet :: "byte list" where
  "sample_packet = [69, 0, 0, 24, 0, 0, 0, 0, 64, 253, 101, 231, 10, 0, 0, 1, 10, 0, 0, 2, 1, 2, 3, 4]"

lemma sample_packet_forwardable: "forwardable sample_packet"
  by (simp add: forwardable_def plausible_def sample_packet_def ip_hl_def be_at_def be16_def kMaxAllowedPacketLength_def)

lemma sample_garbage: "garbage_before [1, 2] sample_packet"
  by (simp add: garbage_before_def plausible_def sample_packet_def ip_hl_def be_at_def be16_def less_Suc_eq numeral_2_eq_2)

text \<open>C14. Extraction, however the bytes were cut into buffers: it ends, never fails and does exactly what the reference does that
  looks at one position after the other. It hands out the first packet with a plausible header that is there as a
  whole and keeps what follows; otherwise it keeps what may still become a packet, and less than one packet
  of bytes. The scan window and the bytes kept at its end lose no packet.\<close>

theorem ipv4_extract_refines:
  assumes "sbuf_deque D" "stream_ok D s" "pool_ok p" "bs_size s \<le> STREAM_SAFE_MAX"
  shows "\<exists>got s' p'. ipv4streamTryReadPacket D s p = Some (got, s', p') \<and> stream_ok D s' \<and> pool_ok p' \<and>
    next_packet (stream_bytes D s) = (map_option payload got, stream_bytes D s') \<and>
    (case got of None \<Rightarrow> bs_size s' < kMaxAllowedPacketLength
     | Some b \<Rightarrow> sbuf_ok b \<and> ipv4streamIsForwardablePacket b = Some True)"
proof -
  obtain got s' p' where r: "ipv4streamTryReadPacket D s p = Some (got, s', p')" "stream_ok D s'" "pool_ok p'"
    "\<forall>b. got = Some b \<longrightarrow> sbuf_ok b" "next_packet (stream_bytes D s) = (map_option payload got, stream_bytes D s')"
    using sbuf_deque.tryRead_ok [OF assms] by blast
  show ?thesis
  proof (intro exI conjI)
    show "case got of None \<Rightarrow> bs_size s' < kMaxAllowedPacketLength
      | Some b \<Rightarrow> sbuf_ok b \<and> ipv4streamIsForwardablePacket b = Some True"
    proof (cases got)
      case None
      then show ?thesis using next_packet_rest [of "stream_bytes D s"] r(2,5) by (simp add: stream_ok_def)
    next
      case (Some b)
      then show ?thesis using r(4,5) next_packet_some [of "stream_bytes D s" "payload b"] isForwardable_eq [of b]
        by (simp add: forwardable_def)
    qed
  qed (use r in simp_all)
qed

theorem ipv4_extract_refines_witness:
  "\<exists>got s' p'. ipv4streamTryReadPacket list_deque
      \<lparr>bs_q = [sbuf_append sbuf_sample ([1, 2] @ take 10 sample_packet), sbuf_append sbuf_sample (drop 10 sample_packet @ [9])],
       bs_size = 27, bs_use_left_padding = 0\<rparr> sample_pool = Some (Some got, s', p') \<and>
    payload got = sample_packet \<and> stream_bytes list_deque s' = [9]"
proof -
  let ?s = "\<lparr>bs_q = [sbuf_append sbuf_sample ([1, 2] @ take 10 sample_packet), sbuf_append sbuf_sample (drop 10 sample_packet @ [9])],
       bs_size = 27, bs_use_left_padding = 0\<rparr>"
  have l: "length sample_packet = 24" by (simp add: sample_packet_def)
  have b: "stream_bytes list_deque ?s = [1, 2] @ sample_packet @ [9]" "stream_ok list_deque ?s"
    using l by (simp_all add: stream_ok_def stream_bytes_def list_deque_def sample_append_ok)
  obtain got s' p' where r: "ipv4streamTryReadPacket list_deque ?s sample_pool = Some (got, s', p')"
    "next_packet (stream_bytes list_deque ?s) = (map_option payload got, stream_bytes list_deque s')"
    using ipv4_extract_refines [OF list_stream.sbuf_deque_axioms b(2) sample_pool_ok] by auto
  have "map_option payload got = Some sample_packet \<and> stream_bytes list_deque s' = [9]"
    using r(2) next_packet_forwardable [OF sample_packet_forwardable sample_garbage, of "[9]"] unfolding b(1) by simp
  then show ?thesis using r(1) by (cases got) auto
qed

text \<open>C15. Validation leaves the packet as it was, whatever the bytes are, and never reads outside it. The loose level accepts
  exactly the packets whose header is consistent and whose total length is the buffer's. The hard level accepts exactly
  those of them that the computation of all checksums leaves unchanged, or that are UDP without
  a checksum and have the right header checksum.\<close>

theorem ipv4_validate_exact:
  assumes "checksum_backend L checksum" "sbuf_ok packet"
  shows "\<exists>reason. ipv4streamValidatePacket L checksum level packet = Some (reason, packet) \<and>
    (reason = None \<longleftrightarrow> (case level of
       kIpv4StreamValidationNone \<Rightarrow> True
     | kIpv4StreamValidationLoose \<Rightarrow> whole (payload packet)
     | kIpv4StreamValidationHard \<Rightarrow> whole (payload packet) \<and>
         (calcFullPacketChecksum L checksum (payload packet) (sbufGetLength packet) = Some (True, payload packet) \<or>
          unchecked_udp (payload packet) \<and>
          calcIpv4HeaderChecksum L checksum (payload packet) (sbufGetLength packet) = Some (True, payload packet))))"
proof -
  let ?m = "payload packet"
  have len: "sbufGetLength packet = length ?m" using assms(2) by (simp add: sbufGetLength_def length_payload)
  have rd: "sbufRead packet (length ?m) = Some ?m" using assms(2) by (simp add: sbufRead_eq length_payload)
  have spl: "\<not> sbufIsSplice packet" using assms(2) by (rule sbuf_okD)
  obtain h where h: "ipv4streamValidateIpv4PacketHeader L ?m (length ?m) = Some h"
    "if whole ?m then h = Inr (ip_hl ?m, length ?m) else \<exists>reason. h = Inl reason"
    using checksum_backend.validate_header_eq [OF assms(1) refl] by blast
  note unf = ipv4streamValidatePacket_def len rd h(1)
  consider "level = kIpv4StreamValidationNone" | "level \<noteq> kIpv4StreamValidationNone" "\<not> whole ?m"
    | "level = kIpv4StreamValidationLoose" "whole ?m" | "level = kIpv4StreamValidationHard" "whole ?m"
    by (cases level) blast+
  then show ?thesis
  proof cases
    case 1
    then show ?thesis using spl by (simp add: ipv4streamValidatePacket_def)
  next
    case 2
    then show ?thesis using spl h(2) by (auto simp: unf split: ipv4stream_validation_level.splits)
  next
    case 3
    then show ?thesis using spl h(2) by (simp add: unf)
  next
    case 4
    obtain r where r: "validateChecksums L checksum ?m (ip_hl ?m) (length ?m) = Some (r, ?m)"
      "r = None \<longleftrightarrow> fill_header ?m = ?m \<and> (frag ?m \<or> (proto ?m = 6 \<longrightarrow> tcp_ok ?m \<and> fill_transport ?m = ?m) \<and>
        (proto ?m = 17 \<longrightarrow> udp_ok ?m \<and> (be_at ?m (ip_hl ?m + 6) = 0 \<or> fill_transport ?m = ?m)) \<and>
        (proto ?m = 1 \<longrightarrow> 8 \<le> transport_len ?m \<and> fill_transport ?m = ?m))"
      using checksum_backend.validateChecksums_eq [OF assms(1) 4(2)] by blast
    have ok: "ip_ok ?m (length ?m)" using 4 by (simp add: whole_def)
    have v: "ipv4streamValidatePacket L checksum level packet = Some (r, packet)"
      using 4 spl h(2) r(1) rewrite_payload [OF assms(2)] by (simp add: unf)
    have full: "calcFullPacketChecksum L checksum ?m (length ?m) = Some (True, ?m) \<longleftrightarrow> accepted ?m \<and> fill_packet ?m = ?m"
      using checksum_backend.full_eq [OF assms(1), of "length ?m" ?m] ok by simp
    have hd: "calcIpv4HeaderChecksum L checksum ?m (length ?m) = Some (True, ?m) \<longleftrightarrow> fill_header ?m = ?m"
      using checksum_backend.header_checksum_eq [OF assms(1), of "length ?m" ?m] ok by simp
    have "r = None \<longleftrightarrow> accepted ?m \<and> fill_packet ?m = ?m \<or> unchecked_udp ?m \<and> fill_header ?m = ?m"
      unfolding r(2) by (rule hard_accepts [OF ok])
    then show ?thesis using v 4 by (simp add: len full hd)
  qed
qed

theorem ipv4_validate_exact_witness:
  "ipv4streamValidatePacket lwip_model (checksumDefault byte_swap16) kIpv4StreamValidationHard
    (sbuf_append sbuf_sample sample_packet) = Some (None, sbuf_append sbuf_sample sample_packet)"
proof -
  have l: "length sample_packet = 24" by (simp add: sample_packet_def)
  note o = sample_append_ok [of sample_packet, unfolded l, simplified]
  have h: "header_field sample_packet = be_at sample_packet 10"
    by (simp add: header_field_def rfc1071_canon canon_def sample_packet_def ip_hl_def put_be_def be_at_def be16_def be_bytes16_def)
  have f: "fill_packet sample_packet = sample_packet"
    using h l by (simp add: fill_packet_def fill_header_def put_be_same fill_transport_def) (simp add: proto_def sample_packet_def)
  have w: "whole sample_packet" "accepted sample_packet"
    by (simp_all add: whole_def ip_ok_def sample_packet_def ip_hl_def be_at_def be16_def accepted_def proto_def)
  have "calcFullPacketChecksum lwip_model (checksumDefault byte_swap16) sample_packet 24 = Some (True, sample_packet)"
    using portable.full_eq [of 24 sample_packet] w f l by (simp add: whole_def)
  then show ?thesis
    using ipv4_validate_exact [OF portable.checksum_backend_axioms o(1), of kIpv4StreamValidationHard] o w(1)
    by (simp add: sbufGetLength_def)
qed

end
