(* ===== verification/Ipv4_Input_Laws.thy ===== *)
theory Ipv4_Input_Laws
  imports Ipv4_Stream_Laws Queue_Laws
begin

text \<open>
  Deliveries that arrive while packets are being handed on. A session is an input with its stream; its
  owner delivers buffers and takes turns of the extraction loop that both tunnels on the codec run. The packets
  taken are those of the accepted bytes, in order, and the input's budget is accounted for exactly.
\<close>

section \<open>The invariant of an input\<close>

definition input_ok :: "('q, sbuf) deque_ops \<Rightarrow> budgets \<Rightarrow> 'q ipv4stream_input \<Rightarrow> bool" where
  "input_ok D B i \<longleftrightarrow> (\<forall>r. budget_ok (B r)) \<and> queue_ok D (in_pending i) \<and> bq_budget (in_pending i) = Some (in_budget i) \<and>
     (rv_budget (in_active i) = None \<or> rv_budget (in_active i) = Some (in_budget i)) \<and>
     cost_bytes (used (B (in_budget i))) = held cost_bytes (in_budget i) [bq_account (in_pending i), rv_account (in_active i)] \<and>
     cost_charge (used (B (in_budget i))) = held cost_charge (in_budget i) [bq_account (in_pending i), rv_account (in_active i)] \<and>
     limits (B (in_budget i)) = \<lparr>cost_bytes = kIpv4StreamNestedBytes, cost_charge = kIpv4StreamNestedCharge\<rparr> \<and>
     (\<not> in_draining i \<longrightarrow> dq_elems D (bq_q (in_pending i)) = [] \<and> rv_budget (in_active i) = None)"

definition pendings :: "('q, sbuf) deque_ops \<Rightarrow> 'q ipv4stream_input \<Rightarrow> byte list list" where
  "pendings D i = map payload (dq_elems D (bq_q (in_pending i)))"

lemma input_okD:
  assumes "input_ok D B i"
  shows "\<forall>r. budget_ok (B r)" "queue_ok D (in_pending i)" "bq_budget (in_pending i) = Some (in_budget i)"
    "rv_budget (in_active i) = None \<or> rv_budget (in_active i) = Some (in_budget i)"
    "cost_bytes (used (B (in_budget i))) = held cost_bytes (in_budget i) [bq_account (in_pending i), rv_account (in_active i)]"
    "cost_charge (used (B (in_budget i))) = held cost_charge (in_budget i) [bq_account (in_pending i), rv_account (in_active i)]"
    "limits (B (in_budget i)) = \<lparr>cost_bytes = kIpv4StreamNestedBytes, cost_charge = kIpv4StreamNestedCharge\<rparr>"
    "\<not> in_draining i \<Longrightarrow> dq_elems D (bq_q (in_pending i)) = [] \<and> rv_budget (in_active i) = None"
  using assms unfolding input_ok_def by blast+

lemma input_covered:
  assumes "input_ok D B i"
  shows "covered B [bq_account (in_pending i)]" "covered B [rv_account (in_active i)]"
  using input_okD [OF assms] by (auto simp: covered_def bq_account_def rv_account_def share_def)

lemma pending_small:
  assumes "input_ok D B i" "b \<in> set (dq_elems D (bq_q (in_pending i)))"
  shows "sb_len b \<le> kIpv4StreamNestedBytes"
proof -
  have "sb_len b \<le> total_len (in_pending i)"
    using assms(2) input_okD(2) [OF assms(1)] member_le_sum_list [of "sb_len b" "map sb_len (dq_elems D (bq_q (in_pending i)))"]
    by (simp add: queue_ok_def)
  also have "\<dots> \<le> cost_bytes (used (B (in_budget i)))"
    using input_okD(3,5) [OF assms(1)] by (simp add: bq_account_def)
  also have "\<dots> \<le> kIpv4StreamNestedBytes"
    using input_okD(1,7) [OF assms(1)] unfolding budget_ok_def by (metis buffer_budget_cost.select_convs(1))
  finally show ?thesis .
qed

context sbuf_deque
begin

lemma input_init_ok:
  assumes "\<forall>r. budget_ok (B r)"
  shows "\<exists>B' i. ipv4streamInputInit D B r = Some (B', i) \<and> input_ok D B' i \<and> pendings D i = [] \<and> in_budget i = r \<and> \<not> in_draining i"
proof -
  let ?b = "bufferbudgetInit \<lparr>cost_bytes = kIpv4StreamNestedBytes, cost_charge = kIpv4StreamNestedCharge\<rparr>"
  have b: "budget_ok ?b" "affords ?b (queue_cost (bufferqueueInitEmpty D))" "spend ?b (queue_cost (bufferqueueInitEmpty D)) = ?b"
    by (simp_all add: bufferbudgetInit_def budget_ok_def affords_def spend_def bufferqueueInitEmpty_def queue_cost_def zero_cost_def
        kIpv4StreamNestedBytes_def kIpv4StreamNestedCharge_def)
  have "ipv4streamInputInit D B r = Some (B(r := ?b),
      \<lparr>in_pending = (bufferqueueInitEmpty D)\<lparr>bq_budget := Some r\<rparr>, in_budget = r, in_active = empty_reservation, in_draining = False\<rparr>)"
    using b acquire_eq [OF b(1), of "queue_cost (bufferqueueInitEmpty D)"]
    by (simp add: ipv4streamInputInit_def bufferqueueTryAttachBudget_def budgetTryAcquireAt_def queue_cost_def)
       (simp add: bufferqueueInitEmpty_def)
  moreover have "input_ok D (B(r := ?b))
      \<lparr>in_pending = (bufferqueueInitEmpty D)\<lparr>bq_budget := Some r\<rparr>, in_budget = r, in_active = empty_reservation, in_draining = False\<rparr>"
    using assms b(1) unfolding input_ok_def
    by (simp add: bq_account_def queue_cost_def bufferbudgetInit_def) (simp add: bufferqueueInitEmpty_def empty_reservation_def)
  ultimately show ?thesis by (simp add: pendings_def bufferqueueInitEmpty_def)
qed

lemma release_active_ok:
  assumes "input_ok D B i"
  shows "\<exists>B' v. bufferbudgetReservationRelease B (in_active i) = Some (B', v) \<and> rv_budget v = None \<and>
    input_ok D B' (i\<lparr>in_active := v\<rparr>)"
proof -
  note I = input_okD [OF assms]
  obtain B' v where v: "bufferbudgetReservationRelease B (in_active i) = Some (B', v)" "\<forall>r. budget_ok (B' r)" "rv_budget v = None"
    "balanced B [rv_account (in_active i)] B' [rv_account v]"
    using rv_release_ok [OF input_covered(2) [OF assms]] by blast
  have "input_ok D B' (i\<lparr>in_active := v\<rparr>)"
    using I v(2,3) balancedD [OF v(4), of "in_budget i"] unfolding input_ok_def by simp
  then show ?thesis using v by blast
qed

lemma input_destroy_ok:
  assumes "input_ok D B i" "pool_ok p"
  shows "\<exists>B' p' i'. ipv4streamInputDestroy D B p i = Some (B', p', i') \<and> pool_ok p' \<and> (\<forall>r. budget_ok (B' r)) \<and> in_budget i' = in_budget i"
proof -
  let ?r = "in_budget i"
  note I = input_okD [OF assms(1)]
  obtain B1 p' where d: "bufferqueueDestroy D B p (in_pending i) = Some (B1, p', bufferqueueInitEmpty D)" "pool_ok p'"
    "\<forall>r. budget_ok (B1 r)" "balanced B [bq_account (in_pending i)] B1 [bq_account (bufferqueueInitEmpty D)]"
    using destroy_ok [OF I(2) input_covered(1) [OF assms(1)] assms(2)] by blast
  have e: "bq_account (bufferqueueInitEmpty D) = (None, zero_cost)"
    by (simp add: bufferqueueInitEmpty_def bq_account_def queue_cost_def zero_cost_def)
  have u: "cost_bytes (used (B1 ?r)) = share cost_bytes ?r (rv_account (in_active i))"
    "cost_charge (used (B1 ?r)) = share cost_charge ?r (rv_account (in_active i))"
    using balancedD [OF d(4), of ?r] I(5,6) e by simp_all
  have "covered B1 [rv_account (in_active i)]"
    using d(3) u I(4) by (auto simp: covered_def rv_account_def share_def)
  then obtain B2 v where v: "bufferbudgetReservationRelease B1 (in_active i) = Some (B2, v)" "\<forall>r. budget_ok (B2 r)" "rv_budget v = None"
    "balanced B1 [rv_account (in_active i)] B2 [rv_account v]"
    using rv_release_ok by blast
  have "share f ?r (rv_account v) = 0" for f using v(3) by (simp add: rv_account_def)
  then have "cost_bytes (used (B2 ?r)) = 0" "cost_charge (used (B2 ?r)) = 0"
    using balancedD(2,3) [OF v(4), of ?r] u by simp_all
  then show ?thesis using d v by (simp add: ipv4streamInputDestroy_def bufferbudgetAssertEmpty_def)
qed

lemma input_reset_ok:
  assumes "input_ok D B i" "pool_ok p"
  shows "\<exists>B' p' i'. ipv4streamInputReset D B p i = Some (B', p', i') \<and> pool_ok p' \<and> input_ok D B' i' \<and> pendings D i' = [] \<and>
    in_budget i' = in_budget i \<and> \<not> in_draining i'"
proof -
  obtain B1 p' i1 where d: "ipv4streamInputDestroy D B p i = Some (B1, p', i1)" "pool_ok p'" "\<forall>r. budget_ok (B1 r)" "in_budget i1 = in_budget i"
    using input_destroy_ok [OF assms] by blast
  obtain B2 i2 where "ipv4streamInputInit D B1 (in_budget i) = Some (B2, i2)" "input_ok D B2 i2" "pendings D i2 = []"
    "in_budget i2 = in_budget i" "\<not> in_draining i2"
    using input_init_ok [OF d(3)] by blast
  then show ?thesis using d by (simp add: ipv4streamInputReset_def)
qed

text \<open>Admission: an empty buffer is recycled, the first delivery starts a drain, one that arrives during a drain is queued if
  the budget affords it. A rejected one changes nothing.\<close>

lemma admit_ok:
  assumes i: "input_ok D B i" and s: "stream_ok D s" and p: "pool_ok p" and b: "sbuf_ok b"
  shows "\<exists>res B' i' s' p'. ipv4streamInputAdmit D B i s p b = Some (res, B', i', s', p') \<and>
    input_ok D B' i' \<and> stream_ok D s' \<and> pool_ok p' \<and> in_budget i' = in_budget i \<and>
    (res = kIpv4StreamInputEmpty \<and> payload b = [] \<and> B' = B \<and> i' = i \<and> s' = s \<or>
     res = kIpv4StreamInputDrain \<and> \<not> in_draining i \<and> in_draining i' \<and> pendings D i' = [] \<and>
       stream_bytes D s' = stream_bytes D s @ payload b \<or>
     res = kIpv4StreamInputQueued \<and> in_draining i \<and> in_draining i' \<and> s' = s \<and> pendings D i' = pendings D i @ [payload b] \<and>
       admissible D B (in_pending i) b None \<or>
     res = kIpv4StreamInputRejected \<and> B' = B \<and> i' = i \<and> s' = s \<and> p' = p \<and> payload b \<noteq> [] \<and>
       (if in_draining i then \<not> admissible D B (in_pending i) b None else UINT32_MAX < bs_size s + length (payload b)))"
proof -
  let ?q = "in_pending i"
  note I = input_okD [OF i]
  have sp: "\<not> sbufIsSplice b" using b by (rule sbuf_okD)
  have len: "length (payload b) = sb_len b" "payload b = [] \<longleftrightarrow> sb_len b = 0" using length_payload [OF b] by auto
  note unf = ipv4streamInputAdmit_def sbufGetLength_def
  consider (empty) "sb_len b = 0" | (queue) "sb_len b \<noteq> 0" "in_draining i" | (first) "sb_len b \<noteq> 0" "\<not> in_draining i" by blast
  then show ?thesis
  proof cases
    case empty
    obtain p' where "bufferpoolReuseBuffer p b = Some p'" "pool_ok p'" using reuse_ok [OF p b] by blast
    then show ?thesis using empty sp i s len by (simp add: unf)
  next
    case queue
    show ?thesis
    proof (cases "admissible D B ?q b None")
      case False
      then have "bufferqueueTryPushBack D B ?q b = Some (False, B, ?q, b, None)"
        using insert_refused [OF I(1) b _ False I(2)] by (simp add: bufferqueueTryPushBack_def)
      then show ?thesis using queue sp i s p len False by (simp add: unf)
    next
      case True
      obtain B' q' d where ins: "bufferqueueTryPushBack D B ?q b = Some (True, B', q', d, None)" "payload d = payload b"
        "queue_ok D q'" "bq_budget q' = bq_budget ?q" "dq_elems D (bq_q q') = dq_elems D (bq_q ?q) @ [d]" "\<forall>r. budget_ok (B' r)"
        "balanced B [bq_account ?q] B' [bq_account q']"
        using insert_accepted [OF I(1) b _ True I(2), of False] by (auto simp: bufferqueueTryPushBack_def)
      have "input_ok D B' (i\<lparr>in_pending := q'\<rparr>)"
        using I ins(3,4,6) balancedD [OF ins(7), of "in_budget i"] queue(2) unfolding input_ok_def by simp
      then show ?thesis using queue sp s p ins True by (simp add: unf pendings_def)
    qed
  next
    case first
    have c: "bufferqueueGetBufCount D ?q = 0" "rv_budget (in_active i) = None"
      using I(8) [OF first(2)] by (simp_all add: bufferqueueGetBufCount_def)
    have sub: "sub32 UINT32_MAX (sb_len b) = UINT32_MAX - sb_len b" using sbuf_okD(2,3) [OF b] by simp
    show ?thesis
    proof (cases "bs_size s > UINT32_MAX - sb_len b")
      case True
      then have "UINT32_MAX < bs_size s + sb_len b" by linarith
      then show ?thesis using True first sp i s p c len by (simp add: unf sub bufferstreamGetBufLen_def)
    next
      case False
      then have "bs_size s + sb_len b \<le> UINT32_MAX" using sbuf_okD(2,3) [OF b] by linarith
      from push_ok [OF s p b this] obtain s' p' where "bufferstreamPush D s p b = Some (s', p')" "stream_ok D s'"
        "stream_bytes D s' = stream_bytes D s @ payload b" "pool_ok p'" by blast
      moreover have "input_ok D B (i\<lparr>in_draining := True\<rparr>)" using i unfolding input_ok_def by simp
      ultimately show ?thesis
        using first False sp c I(8) [OF first(2)] by (simp add: unf sub bufferstreamGetBufLen_def pendings_def)
    qed
  qed
qed

text \<open>The advance to the next queued delivery, or the end of the drain.\<close>

lemma advance_ok:
  assumes i: "input_ok D B i" and s: "stream_ok D s" and p: "pool_ok p" and dr: "in_draining i"
    and size: "bs_size s < kMaxAllowedPacketLength"
  shows "\<exists>B' i' s' p'. ipv4streamInputAdvance D B i s p = Some (pendings D i \<noteq> [], B', i', s', p') \<and>
    input_ok D B' i' \<and> stream_ok D s' \<and> pool_ok p' \<and> in_budget i' = in_budget i \<and>
    (case pendings D i of
       [] \<Rightarrow> \<not> in_draining i' \<and> pendings D i' = [] \<and> stream_bytes D s' = stream_bytes D s
     | x # xs \<Rightarrow> in_draining i' \<and> pendings D i' = xs \<and> stream_bytes D s' = stream_bytes D s @ x \<and>
         length x \<le> kIpv4StreamNestedBytes)"
proof -
  let ?q = "in_pending i"
  have safe: "bs_size s \<le> STREAM_SAFE_MAX" using size by (simp add: kMaxAllowedPacketLength_def)
  obtain s1 p1 where st: "bufferstreamSettleRetained D s p kIpv4StreamIncompleteCharge = Some (True, s1, p1)" "stream_ok D s1"
    "pool_ok p1" "stream_bytes D s1 = stream_bytes D s"
    using settle_ok [OF s p safe, of kIpv4StreamIncompleteCharge] by blast
  obtain B1 v where v: "bufferbudgetReservationRelease B (in_active i) = Some (B1, v)" "rv_budget v = None"
    "input_ok D B1 (i\<lparr>in_active := v\<rparr>)"
    using release_active_ok [OF i] by blast
  note I = input_okD [OF v(3), simplified]
  note unf = ipv4streamInputAdvance_def bufferqueuePopFrontReserved_def bufferstreamGetBufLen_def
  show ?thesis
  proof (cases "dq_elems D (bq_q ?q)")
    case Nil
    then have "bufferqueuePop D B1 ?q (Some v) = Some (None, B1, ?q, Some v)" by (rule pop_empty)
    then have "ipv4streamInputAdvance D B i s p = Some (False, B1, i\<lparr>in_active := v, in_draining := False\<rparr>, s1, p1)"
      using dr size st(1) v(1,2) I(3) by (simp add: unf)
    moreover have "input_ok D B1 (i\<lparr>in_active := v, in_draining := False\<rparr>)"
      using v(2,3) Nil unfolding input_ok_def by simp
    ultimately show ?thesis using Nil st by (simp add: pendings_def)
  next
    case (Cons b bs)
    have b: "sbuf_ok b" using I(2) Cons by (simp add: queue_ok_def)
    have small: "sb_len b \<le> kIpv4StreamNestedBytes" using pending_small [OF i] Cons by simp
    obtain B' q' w where pop: "bufferqueuePop D B1 ?q (Some v) = Some (Some b, B', q', Some w)" "queue_ok D q'"
      "bq_budget q' = bq_budget ?q" "dq_elems D (bq_q q') = bs" "\<forall>r. budget_ok (B' r)" "reserved_for q' b w"
      "balanced B1 [bq_account ?q, rv_account v] B' [bq_account q', rv_account w]"
      using pop_first [OF I(2) input_covered(1) [OF v(3), simplified] Cons, of "Some v"] I(3) v(2) by auto
    have "bs_size s1 = bs_size s" using s st(2,4) by (simp add: stream_ok_def)
    then have "bs_size s1 + sb_len b \<le> UINT32_MAX"
      using size small by (simp add: kMaxAllowedPacketLength_def kIpv4StreamNestedBytes_def)
    from push_ok [OF st(2,3) b this] obtain s2 p2 where push: "bufferstreamPush D s1 p1 b = Some (s2, p2)" "stream_ok D s2"
      "stream_bytes D s2 = stream_bytes D s1 @ payload b" "pool_ok p2" by blast
    have "ipv4streamInputAdvance D B i s p = Some (True, B', i\<lparr>in_pending := q', in_active := w\<rparr>, s2, p2)"
      using dr size st(1) v(1,2) I(3) pop(1) push(1) by (simp add: unf)
    moreover have "input_ok D B' (i\<lparr>in_pending := q', in_active := w\<rparr>)"
      using I pop(2,3,5,6) balancedD [OF pop(7), of "in_budget i"] dr unfolding input_ok_def reserved_for_def by simp
    ultimately show ?thesis using Cons push st(4) dr pop(4) small length_payload [OF b] by (simp add: pendings_def)
  qed
qed

end

section \<open>Sessions\<close>

text \<open>An input with its stream, the bytes accepted since the last reset and the packets taken out of them. A turn is one round
  of the loop of the tunnels' payload handlers: extract a packet, or advance when there is none.\<close>

record 'q session =
  ses_budgets :: budgets
  ses_input :: "'q ipv4stream_input"
  ses_stream :: "'q buffer_stream"
  ses_pool :: buffer_pool
  ses_accepted :: "byte list"
  ses_taken :: "byte list list"

datatype session_cmd = Deliver sbuf | Turn | Reset

fun session_step :: "('q, sbuf) deque_ops \<Rightarrow> 'q session \<Rightarrow> session_cmd \<Rightarrow> 'q session option" where
  "session_step D t (Deliver b) = do {
     (res, B, i, s, p) \<leftarrow> ipv4streamInputAdmit D (ses_budgets t) (ses_input t) (ses_stream t) (ses_pool t) b;
     Some (t\<lparr>ses_budgets := B, ses_input := i, ses_stream := s, ses_pool := p,
       ses_accepted := ses_accepted t @ (if res = kIpv4StreamInputRejected then [] else payload b)\<rparr>)
   }"
| "session_step D t Turn =
     (if \<not> in_draining (ses_input t) then Some t else do {
        (got, s, p) \<leftarrow> ipv4streamTryReadPacket D (ses_stream t) (ses_pool t);
        case got of
          Some b \<Rightarrow> Some (t\<lparr>ses_stream := s, ses_pool := p, ses_taken := ses_taken t @ [payload b]\<rparr>)
        | None \<Rightarrow> do {
            (more, B, i, s, p) \<leftarrow> ipv4streamInputAdvance D (ses_budgets t) (ses_input t) s p;
            Some (t\<lparr>ses_budgets := B, ses_input := i, ses_stream := s, ses_pool := p\<rparr>)
          }
      })"
| "session_step D t Reset = do {
     (s, p) \<leftarrow> bufferstreamEmpty D (ses_stream t) (ses_pool t);
     (B, p, i) \<leftarrow> ipv4streamInputReset D (ses_budgets t) p (ses_input t);
     Some (t\<lparr>ses_budgets := B, ses_input := i, ses_stream := s, ses_pool := p, ses_accepted := [], ses_taken := []\<rparr>)
   }"

primrec session_run :: "('q, sbuf) deque_ops \<Rightarrow> 'q session \<Rightarrow> session_cmd list \<Rightarrow> 'q session option" where
  "session_run D t [] = Some t"
| "session_run D t (c # cs) = do { t \<leftarrow> session_step D t c; session_run D t cs }"

text \<open>Buffers of a delivery are at most this long, so that a stream that holds back less than one packet stays within what
  every allocation of a read can represent.\<close>

abbreviation DELIVERY_MAX :: nat where
  "DELIVERY_MAX \<equiv> 4294834000"

definition cmd_ok :: "session_cmd \<Rightarrow> bool" where
  "cmd_ok c \<longleftrightarrow> (\<forall>b. c = Deliver b \<longrightarrow> sbuf_ok b \<and> sb_len b \<le> DELIVERY_MAX)"

definition held_bytes :: "('q, sbuf) deque_ops \<Rightarrow> 'q session \<Rightarrow> byte list" where
  "held_bytes D t = stream_bytes D (ses_stream t) @ concat (pendings D (ses_input t))"

definition session_ok :: "('q, sbuf) deque_ops \<Rightarrow> 'q session \<Rightarrow> bool" where
  "session_ok D t \<longleftrightarrow> input_ok D (ses_budgets t) (ses_input t) \<and> stream_ok D (ses_stream t) \<and> pool_ok (ses_pool t) \<and>
     bs_size (ses_stream t) \<le> STREAM_SAFE_MAX \<and>
     (\<not> in_draining (ses_input t) \<longrightarrow> bs_size (ses_stream t) < kMaxAllowedPacketLength \<and>
        packets_of (stream_bytes D (ses_stream t)) = ([], stream_bytes D (ses_stream t))) \<and>
     packets_of (ses_accepted t) = (ses_taken t @ fst (packets_of (held_bytes D t)), snd (packets_of (held_bytes D t)))"

definition work :: "('q, sbuf) deque_ops \<Rightarrow> 'q session \<Rightarrow> nat" where
  "work D t = length (held_bytes D t) + length (pendings D (ses_input t)) + (if in_draining (ses_input t) then 1 else 0)"

lemma packets_of_none: "next_packet bs = (None, r) \<Longrightarrow> packets_of (bs @ cs) = packets_of (r @ cs)"
  using next_packet_append [of bs cs] by (simp add: packets_of.simps)

lemma packets_of_rest: "next_packet bs = (None, r) \<Longrightarrow> packets_of r = ([], r)"
  using packets_of_none [of bs r "[]"] packets_of.simps [of bs] by simp

lemma packets_of_some: "next_packet bs = (Some x, r) \<Longrightarrow>
    packets_of (bs @ cs) = (x # fst (packets_of (r @ cs)), snd (packets_of (r @ cs)))"
  using next_packet_append [of bs cs] by (simp add: packets_of.simps [of "bs @ cs"])

lemma account_append:
  assumes "packets_of acc = (taken @ fst (packets_of h), snd (packets_of h))"
  shows "packets_of (acc @ x) = (taken @ fst (packets_of (h @ x)), snd (packets_of (h @ x)))"
  using assms packets_of_append [of acc x] packets_of_append [of h x] by simp

lemma next_packet_none_length: "next_packet bs = (None, r) \<Longrightarrow> length r \<le> length bs"
proof (induction bs rule: next_packet.induct)
  case (1 bs)
  then show ?case using next_packet.simps [of bs] by (auto split: if_splits)
qed

context sbuf_deque
begin

lemma deliver_ok:
  assumes t: "session_ok D t" and c: "cmd_ok (Deliver b)"
  shows "\<exists>u. session_step D t (Deliver b) = Some u \<and> session_ok D u"
proof -
  note T = t [unfolded session_ok_def]
  have b: "sbuf_ok b" "sb_len b \<le> DELIVERY_MAX" using c by (simp_all add: cmd_ok_def)
  obtain res B' i' s' p' where a: "ipv4streamInputAdmit D (ses_budgets t) (ses_input t) (ses_stream t) (ses_pool t) b = Some (res, B', i', s', p')"
    "input_ok D B' i'" "stream_ok D s'" "pool_ok p'"
    "res = kIpv4StreamInputEmpty \<and> payload b = [] \<and> B' = ses_budgets t \<and> i' = ses_input t \<and> s' = ses_stream t \<or>
     res = kIpv4StreamInputDrain \<and> \<not> in_draining (ses_input t) \<and> in_draining i' \<and> pendings D i' = [] \<and>
       stream_bytes D s' = stream_bytes D (ses_stream t) @ payload b \<or>
     res = kIpv4StreamInputQueued \<and> in_draining (ses_input t) \<and> in_draining i' \<and> s' = ses_stream t \<and> pendings D i' = pendings D (ses_input t) @ [payload b] \<or>
     res = kIpv4StreamInputRejected \<and> B' = ses_budgets t \<and> i' = ses_input t \<and> s' = ses_stream t \<and> p' = ses_pool t"
    using admit_ok [of "ses_budgets t" "ses_input t" "ses_stream t" "ses_pool t" b] T b(1) by blast
  define u where "u = t\<lparr>ses_budgets := B', ses_input := i', ses_stream := s', ses_pool := p',
       ses_accepted := ses_accepted t @ (if res = kIpv4StreamInputRejected then [] else payload b)\<rparr>"
  have step: "session_step D t (Deliver b) = Some u" using a(1) by (simp add: u_def)
  have acc: "packets_of (ses_accepted t @ x) = (ses_taken t @ fst (packets_of (held_bytes D t @ x)), snd (packets_of (held_bytes D t @ x)))" for x
    using T account_append by blast
  from a(5) have "session_ok D u"
  proof (elim disjE conjE)
    assume "res = kIpv4StreamInputDrain" "\<not> in_draining (ses_input t)" "in_draining i'" "pendings D i' = []"
      "stream_bytes D s' = stream_bytes D (ses_stream t) @ payload b"
    moreover have "pendings D (ses_input t) = []" using input_okD(8) [of D "ses_budgets t" "ses_input t"] T calculation by (simp add: pendings_def)
    moreover have "bs_size s' \<le> STREAM_SAFE_MAX"
      using calculation T a(3) b length_payload [OF b(1)] by (simp add: stream_ok_def kMaxAllowedPacketLength_def)
    ultimately show ?thesis using a T acc [of "payload b"] by (simp add: session_ok_def u_def held_bytes_def)
  next
    assume "res = kIpv4StreamInputQueued" "in_draining (ses_input t)" "in_draining i'" "s' = ses_stream t"
      "pendings D i' = pendings D (ses_input t) @ [payload b]"
    then show ?thesis using a T acc [of "payload b"] by (simp add: session_ok_def u_def held_bytes_def)
  qed (use a T in \<open>simp_all add: session_ok_def u_def held_bytes_def\<close>)
  then show ?thesis using step by blast
qed

lemma admit_decision:
  assumes t: "session_ok D t" and c: "cmd_ok (Deliver b)"
  shows "\<exists>res x. ipv4streamInputAdmit D (ses_budgets t) (ses_input t) (ses_stream t) (ses_pool t) b = Some (res, x) \<and>
    (res = kIpv4StreamInputRejected \<longleftrightarrow> payload b \<noteq> [] \<and> in_draining (ses_input t) \<and>
      \<not> admissible D (ses_budgets t) (in_pending (ses_input t)) b None)"
proof -
  note T = t [unfolded session_ok_def]
  have b: "sbuf_ok b" "sb_len b \<le> DELIVERY_MAX" using c by (simp_all add: cmd_ok_def)
  have "\<not> UINT32_MAX < bs_size (ses_stream t) + length (payload b)" if "\<not> in_draining (ses_input t)"
    using T that b length_payload [OF b(1)] by (simp add: kMaxAllowedPacketLength_def)
  then show ?thesis
    using admit_ok [of "ses_budgets t" "ses_input t" "ses_stream t" "ses_pool t" b] T b(1)
    by (elim impCE exE conjE disjE) (auto split: if_splits)
qed

lemma turn_ok:
  assumes t: "session_ok D t"
  shows "\<exists>u. session_step D t Turn = Some u \<and> session_ok D u \<and> ses_accepted u = ses_accepted t \<and>
    (in_draining (ses_input t) \<longrightarrow> work D u < work D t)"
proof (cases "in_draining (ses_input t)")
  case False
  then show ?thesis using t by simp
next
  case dr: True
  note T = t [unfolded session_ok_def]
  let ?bs = "stream_bytes D (ses_stream t)" and ?pend = "pendings D (ses_input t)"
  obtain got s p where r: "ipv4streamTryReadPacket D (ses_stream t) (ses_pool t) = Some (got, s, p)" "stream_ok D s" "pool_ok p"
    "next_packet ?bs = (map_option payload got, stream_bytes D s)" "bs_size s \<le> bs_size (ses_stream t)"
    using tryRead_ok [of "ses_stream t" "ses_pool t"] T by blast
  show ?thesis
  proof (cases got)
    case (Some b)
    define u where "u = t\<lparr>ses_stream := s, ses_pool := p, ses_taken := ses_taken t @ [payload b]\<rparr>"
    have n: "next_packet ?bs = (Some (payload b), stream_bytes D s)" using r(4) Some by simp
    have "packets_of (held_bytes D t) = (payload b # fst (packets_of (held_bytes D u)), snd (packets_of (held_bytes D u)))"
      using packets_of_some [OF n, of "concat ?pend"] by (simp add: held_bytes_def u_def)
    then have "session_ok D u" using T r dr by (simp add: session_ok_def u_def)
    moreover have "length (stream_bytes D s) < length ?bs"
      using next_packet_some [OF n] by (auto simp: plausible_def)
    ultimately show ?thesis using r(1) Some dr by (simp add: u_def work_def held_bytes_def)
  next
    case None
    then have n: "next_packet ?bs = (None, stream_bytes D s)" using r(4) by simp
    have size: "bs_size s < kMaxAllowedPacketLength" using next_packet_rest [OF n] r(2) by (simp add: stream_ok_def)
    obtain B' i' s' p' where a: "ipv4streamInputAdvance D (ses_budgets t) (ses_input t) s p = Some (?pend \<noteq> [], B', i', s', p')"
      "input_ok D B' i'" "stream_ok D s'" "pool_ok p'"
      "case ?pend of [] \<Rightarrow> \<not> in_draining i' \<and> pendings D i' = [] \<and> stream_bytes D s' = stream_bytes D s
       | x # xs \<Rightarrow> in_draining i' \<and> pendings D i' = xs \<and> stream_bytes D s' = stream_bytes D s @ x \<and> length x \<le> kIpv4StreamNestedBytes"
      using advance_ok [of "ses_budgets t" "ses_input t" s p] T r(2,3) dr size by blast
    define u where "u = t\<lparr>ses_budgets := B', ses_input := i', ses_stream := s', ses_pool := p'\<rparr>"
    have step: "session_step D t Turn = Some u" using dr r(1) None a(1) by (simp add: u_def)
    have h: "held_bytes D u = stream_bytes D s @ concat ?pend"
      using a(5) by (cases ?pend) (simp_all add: held_bytes_def u_def)
    then have acc: "packets_of (held_bytes D t) = packets_of (held_bytes D u)"
      using packets_of_none [OF n, of "concat ?pend"] by (simp add: held_bytes_def)
    have sm: "bs_size s' \<le> STREAM_SAFE_MAX" "\<not> in_draining i' \<longrightarrow> bs_size s' < kMaxAllowedPacketLength \<and> stream_bytes D s' = stream_bytes D s"
      using a(3,5) size r(2) by (cases ?pend; simp add: stream_ok_def kMaxAllowedPacketLength_def kIpv4StreamNestedBytes_def)+
    have "session_ok D u" using T a acc sm packets_of_rest [OF n] by (auto simp: session_ok_def u_def)
    moreover have "length (stream_bytes D s) \<le> length ?bs" by (rule next_packet_none_length [OF n])
    then have "work D u < work D t"
      using a(5) dr h by (cases ?pend) (simp_all add: work_def u_def held_bytes_def)
    ultimately show ?thesis using step by (simp add: u_def)
  qed
qed

lemma session_reset_ok:
  assumes t: "session_ok D t"
  shows "\<exists>u. session_step D t Reset = Some u \<and> session_ok D u"
proof -
  note T = t [unfolded session_ok_def]
  obtain s p where e: "bufferstreamEmpty D (ses_stream t) (ses_pool t) = Some (s, p)" "stream_ok D s" "stream_bytes D s = []" "pool_ok p"
    using stream_empty_ok [of "ses_stream t" "ses_pool t"] T by blast
  obtain B' p' i' where i: "ipv4streamInputReset D (ses_budgets t) p (ses_input t) = Some (B', p', i')" "pool_ok p'" "input_ok D B' i'"
    "pendings D i' = []" "\<not> in_draining i'"
    using input_reset_ok [of "ses_budgets t" "ses_input t" p] T e(4) by blast
  have "bs_size s = 0" using e by (simp add: stream_ok_def)
  then show ?thesis using e i by (simp add: session_ok_def held_bytes_def kMaxAllowedPacketLength_def)
qed

lemma session_run_ok: "session_ok D t \<Longrightarrow> \<forall>c\<in>set cs. cmd_ok c \<Longrightarrow> \<exists>u. session_run D t cs = Some u \<and> session_ok D u"
proof (induction cs arbitrary: t)
  case (Cons c cs)
  have "\<exists>u. session_step D t c = Some u \<and> session_ok D u"
    using Cons.prems deliver_ok [of t] turn_ok [of t] session_reset_ok [of t] by (cases c) auto
  then show ?case using Cons by fastforce
qed simp

lemma session_drains:
  "session_ok D t \<Longrightarrow> \<exists>n u. session_run D t (replicate n Turn) = Some u \<and> session_ok D u \<and> \<not> in_draining (ses_input u) \<and>
    ses_accepted u = ses_accepted t"
proof (induction "work D t" arbitrary: t rule: less_induct)
  case less
  show ?case
  proof (cases "in_draining (ses_input t)")
    case False
    then show ?thesis using less.prems by (intro exI [of _ 0]) simp
  next
    case True
    obtain u where u: "session_step D t Turn = Some u" "session_ok D u" "ses_accepted u = ses_accepted t" "work D u < work D t"
      using turn_ok [OF less.prems] True by blast
    obtain n w where "session_run D u (replicate n Turn) = Some w" "session_ok D w" "\<not> in_draining (ses_input w)" "ses_accepted w = ses_accepted u"
      using less.hyps [OF u(4,2)] by blast
    then show ?thesis using u by (intro exI [of _ "Suc n"] exI [of _ w]) simp
  qed
qed

end

section \<open>Properties\<close>

text \<open>C4. Whatever is delivered, at whatever point of the extraction loop it arrives, and whenever the line is reset: a
  session runs without failing an assertion, its budget always holds exactly what is queued or being consumed, and
  stays within its limits. The packets taken are a prefix of those of the accepted bytes. The loop ends after
  finitely many turns; a delivery is rejected exactly when it arrives during a drain and the budget does not afford it. After the
  loop every packet of the accepted bytes has been taken, in order, and only bytes that may still become a packet
  are kept. If the accepted bytes are packets with garbage between them, exactly these packets come out.\<close>

theorem ipv4_session_exact:
  assumes "sbuf_deque D" "\<forall>r. budget_ok (B r)" "pool_ok p" "\<forall>c\<in>set cs. cmd_ok c"
  shows "\<exists>B0 i0 t n u. ipv4streamInputInit D B r = Some (B0, i0) \<and>
    session_run D \<lparr>ses_budgets = B0, ses_input = i0, ses_stream = bufferstreamCreate D 0, ses_pool = p, ses_accepted = [], ses_taken = []\<rparr> cs = Some t \<and>
    input_ok D (ses_budgets t) (ses_input t) \<and>
    (\<exists>more. fst (packets_of (ses_accepted t)) = ses_taken t @ more) \<and>
    (\<forall>b. cmd_ok (Deliver b) \<longrightarrow> (\<exists>res x. ipv4streamInputAdmit D (ses_budgets t) (ses_input t) (ses_stream t) (ses_pool t) b = Some (res, x) \<and>
      (res = kIpv4StreamInputRejected \<longleftrightarrow> payload b \<noteq> [] \<and> in_draining (ses_input t) \<and>
        \<not> admissible D (ses_budgets t) (in_pending (ses_input t)) b None))) \<and>
    session_run D t (replicate n Turn) = Some u \<and> \<not> in_draining (ses_input u) \<and>
    ses_taken u = fst (packets_of (ses_accepted t)) \<and> stream_bytes D (ses_stream u) = snd (packets_of (ses_accepted t)) \<and>
    bs_size (ses_stream u) < kMaxAllowedPacketLength \<and>
    (\<forall>gps. (\<forall>(g, x)\<in>set gps. forwardable x \<and> garbage_before g x) \<and> ses_accepted t = concat (map (\<lambda>(g, x). g @ x) gps) \<longrightarrow>
       ses_taken u = map snd gps)"
proof -
  obtain B0 i0 where i: "ipv4streamInputInit D B r = Some (B0, i0)" "input_ok D B0 i0" "pendings D i0 = []" "\<not> in_draining i0"
    using sbuf_deque.input_init_ok [OF assms(1,2)] by blast
  let ?t = "\<lparr>ses_budgets = B0, ses_input = i0, ses_stream = bufferstreamCreate D 0, ses_pool = p, ses_accepted = [], ses_taken = []\<rparr>"
  have s: "stream_ok D (bufferstreamCreate D 0)" "stream_bytes D (bufferstreamCreate D 0) = []" "bs_size (bufferstreamCreate D 0) = 0"
    using sbuf_deque.empty_ok(2) [OF assms(1), of 0] by (simp_all add: bufferstreamCreate_def stream_ok_def)
  have "session_ok D ?t" using i s assms(3) by (simp add: session_ok_def held_bytes_def kMaxAllowedPacketLength_def)
  then obtain t where t: "session_run D ?t cs = Some t" "session_ok D t"
    using sbuf_deque.session_run_ok [OF assms(1)] assms(4) by blast
  obtain n u where u: "session_run D t (replicate n Turn) = Some u" "session_ok D u" "\<not> in_draining (ses_input u)" "ses_accepted u = ses_accepted t"
    using sbuf_deque.session_drains [OF assms(1) t(2)] by blast
  have "held_bytes D u = stream_bytes D (ses_stream u)"
    using u(2,3) input_okD(8) [of D "ses_budgets u" "ses_input u"] by (simp add: session_ok_def held_bytes_def pendings_def)
  then have fin: "packets_of (ses_accepted t) = (ses_taken u, stream_bytes D (ses_stream u))" "bs_size (ses_stream u) < kMaxAllowedPacketLength"
    using u(2,3,4) by (simp_all add: session_ok_def)
  have "ses_taken u = map snd gps" if "\<forall>(g, x)\<in>set gps. forwardable x \<and> garbage_before g x" "ses_accepted t = concat (map (\<lambda>(g, x). g @ x) gps)" for gps
    using packets_of_stream [OF that(1), of "[]"] that(2) fin(1) by simp
  moreover have "\<exists>more. fst (packets_of (ses_accepted t)) = ses_taken t @ more" using t(2) by (simp add: session_ok_def)
  moreover note sbuf_deque.admit_decision [OF assms(1) t(2)]
  moreover have "input_ok D (ses_budgets t) (ses_input t)" using t(2) by (simp add: session_ok_def)
  ultimately show ?thesis
    using i(1) t(1) u(1,3) fin
    by (intro exI [of _ B0] exI [of _ i0] exI [of _ t] exI [of _ n] exI [of _ u]) simp
qed

theorem ipv4_session_exact_witness:
  "\<exists>B0 i0 t n u. ipv4streamInputInit list_deque sample_budgets 7 = Some (B0, i0) \<and>
    session_run list_deque \<lparr>ses_budgets = B0, ses_input = i0, ses_stream = bufferstreamCreate list_deque 0, ses_pool = sample_pool,
        ses_accepted = [], ses_taken = []\<rparr>
      [Deliver (sbuf_append sbuf_sample (take 10 sample_packet)), Deliver (sbuf_append sbuf_sample (drop 10 sample_packet)), Turn, Turn] = Some t \<and>
    session_run list_deque t (replicate n Turn) = Some u \<and> ses_taken u = fst (packets_of (ses_accepted t))"
proof -
  have l: "length sample_packet = 24" by (simp add: sample_packet_def)
  have "\<forall>c\<in>set [Deliver (sbuf_append sbuf_sample (take 10 sample_packet)), Deliver (sbuf_append sbuf_sample (drop 10 sample_packet)), Turn, Turn]. cmd_ok c"
    using l by (simp add: cmd_ok_def sample_append_ok)
  moreover have "\<forall>r. budget_ok (sample_budgets r)" by (simp add: sample_budgets_ok)
  ultimately show ?thesis
    using ipv4_session_exact [where r = 7, OF list_stream.sbuf_deque_axioms _ sample_pool_ok] by blast
qed

end
