(* ===== verification/Spec2Isabelle.thy ===== *)
theory Spec2Isabelle
  imports Queue_Laws Rate_Bucket Sniffer_Fragments Sniffer_Http Chunk_Laws Mux_Laws Websocket_Laws Checksum Udp_Laws Wireguard_Laws Socks_Address Packet_Update_Laws Ipv4_Input_Laws
begin

text \<open>
  \<^bold>\<open>WaterWall.\<close> WaterWall builds network tunnels as chains of nodes. A payload travels through a chain as
  a shift buffer: a byte array with room before the payload, into which every node writes its header
  without copying. Buffers come from pools local to a worker thread, are kept in streams, queues and
  framing queues while a node waits for more bytes, and are charged to budgets so that a slow peer
  cannot exhaust memory. On top of this the nodes parse what passes: TLS and HTTP sniffing, chunked
  bodies, WebSocket frames, the frames of a multiplexer, datagrams on a byte stream, WireGuard
  transport messages, SOCKS addresses. The development models this data path, from the memory layer up
  to two complete tunnels.

  \<^bold>\<open>Conventions\<close> (theory \<open>WW_Prelude\<close>). C integers are natural numbers with every wrap-around written
  out (\<open>u8\<close>, \<open>u16\<close>, \<open>u32\<close>, \<open>u64\<close>, \<open>sub32\<close>, \<open>sub64\<close>). A computation that may fail an \<open>assert\<close>, call
  \<open>abortProgramNow\<close> or touch memory outside its bounds returns an option, and \<open>None\<close> is exactly that
  cut-off; a result \<open>NULL\<close> or \<open>false\<close> of the source is a value inside. Theorems that an operation returns
  are therefore also theorems that it stays in bounds and never aborts. The C heap is not modelled:
  pointers that own an object are the object, and an operation that mutates it returns it. Debug
  assertions are part of the model, so the theorems hold in both builds. The host is little-endian
  with 64-bit \<open>size_t\<close>.

  \<^bold>\<open>Theories and the code they model.\<close>

  \<^item> \<open>Shift_Buffer\<close>: \<open>src/ww/bufio/shiftbuffer.h\<close>, \<open>shiftbuffer.c\<close> (\<open>sbuf_t\<close> is the record \<open>sbuf\<close>).
    \<open>sbuf_ok\<close> says that cursor, length and padding lie inside the storage. Every operation keeps
    it; creation accepts exactly the representable sizes; duplication, concatenation, slicing and header
    shifts act on the payload as a byte list. \<open>sbufSetLength_guard_wraps\<close> shows that the debug guard of
    \<open>sbufSetLength\<close> wraps.
  \<^item> \<open>Pools\<close>: \<open>master_pool.c\<close>, the cache shared by all workers, and \<open>generic_pool.c\<close>, the cache of one. The
    unlocked probes of the master pool read arbitrary values; workers interleave in the relation
    \<open>mp_step\<close>. Items are neither lost nor duplicated and the cache never overruns.
  \<^item> \<open>Buffer_Pool\<close>: \<open>buffer_pool.c\<close>, three size tiers over master pools, and best fit. Any traffic of
    takes and returns keeps \<open>pool_ok\<close>; the query predicts what best fit allocates.
  \<^item> \<open>Stc_Deque\<close>: the deque of the STC library, which is not part of the repository. Its operations
    are a parameter, the record \<open>deque_ops\<close>; its documented behaviour is the locale \<open>stc_deque\<close>, and
    \<open>list_deque\<close> shows that the laws can hold.
  \<^item> \<open>Buffer_Stream\<close>, \<open>Stream_Laws\<close>: \<open>buffer_stream.c\<close>. The stream refines a queue of bytes: reads, views and
    searches do not depend on how the bytes were cut into buffers.
  \<^item> \<open>Buffer_Budget\<close>, \<open>Buffer_Queue\<close>, \<open>Queue_Laws\<close>: \<open>buffer_budget.c\<close>, \<open>buffer_queue.c\<close>, \<open>context_queue.c\<close>. Budgets are
    a store addressed by name because queues and reservations share them. Usage is always the sum of
    what the owners hold, whatever allowed calls they make in whatever order.
  \<^item> \<open>Splice_Stream\<close>, \<open>Splice_Laws\<close>: \<open>splice_stream.c\<close>, \<open>splice_frame_reader.c\<close> and the ranges of
    \<open>splice_buffer.c\<close>, in the build without kernel splice. The cached header followed by the held
    buffers is one byte sequence, \<open>frame_bytes\<close>, which every operation changes as specified.
  \<^item> \<open>Udp_Over_Tcp\<close>, \<open>Udp_Laws\<close>: all line handlers of \<open>src/tunnels/UdpOverTcpClient\<close> and
    \<open>UdpOverTcpServer\<close>. The neighbouring tunnel is described by what it does during a delivery: use
    the pool, push more payload into the same handler, finish the line. Framed datagrams are
    delivered exactly, also when the neighbour pushes more within the 2 MiB limit of the reader; an empty frame
    closes the line.
  \<^item> \<open>Rate_Bucket\<close>: \<open>src/ww/base/rate_bucket.c\<close>. Refill is exact in thousandths of a byte for every 64-bit
    rate and clock, grants conform to the rate, and for a bucket refilled less than a step ago the reported wait is sufficient and
    minimal whenever it does not saturate; \<open>retry_saturation_phase\<close> shows what happens when it does.
  \<^item> \<open>Tls_Client_Hello\<close>, \<open>Tls_Laws\<close>: \<open>src/ww/net/tls_client_hello.c\<close>. The parser is total, stays inside
    its input, is stable under more input, and inverts a builder of ClientHello records.
  \<^item> \<open>Generic_Sniffer\<close>, \<open>Sniffer_Laws\<close>, \<open>Sniffer_Fragments\<close>, \<open>Sniffer_Http\<close>: \<open>src/ww/net/generic_sniffer.c\<close>. Every
    sniffer is memory safe; the server name is found however the ClientHello is split into records, up to the 8,192 bytes
    of the scratch window when there are several; the HTTP host is the first line named host of any header section with CR LF
    line ends. \<open>lf_request_host_from_body\<close> shows a request whose host
    is taken from its body.
  \<^item> \<open>Chunk_Decoder\<close>, \<open>Chunk_Laws\<close>: \<open>src/tunnels/Internals/HttpCommon/src/chunk_decoder.c\<close>, refined by a
    decoder that reads one byte at a time.
  \<^item> \<open>Websocket\<close>, \<open>Websocket_Laws\<close>: \<open>websocket_decoder.c\<close> of the same directory and the frame writers in
    \<open>src/tunnels/HttpClient/common/transport.c\<close> and \<open>src/tunnels/HttpServer/common/transport.c\<close>.
  \<^item> \<open>Mux_Wire\<close>, \<open>Mux_Laws\<close>: the codec of \<open>src/tunnels/Internals/MuxCommon/src/mux_wire.c\<close>.
  \<^item> \<open>Checksum\<close>: \<open>src/ww/net/wchecksum_default.c\<close>, equal to the checksum of RFC 1071 on whole byte sequences.
  \<^item> \<open>Packet_View\<close>: \<open>src/ww/net/ipv4_packet_view.c\<close>. A parser reads packet memory through the byte-order functions of
    lwIP, which are a parameter; its result is equal to one in host order, and every view is well formed.
  \<^item> \<open>Packet_Checksum\<close>, \<open>Packet_Checksum_Laws\<close>, \<open>Packet_Update_Laws\<close>: \<open>src/ww/net/wchecksum.c\<close>. Recomputed packets
    verify, incremental updates of fresh checksums agree with recomputation, and on other packets they keep the residues.
  \<^item> \<open>Ipv4_Stream\<close>, \<open>Ipv4_Stream_Laws\<close>, \<open>Ipv4_Input_Laws\<close>: \<open>src/tunnels/Internals/Ipv4StreamCodec\<close>, packets on a byte
    stream. Extraction is refined by a reference that looks at one position after the other; validation
    accepts what the checksum code would not change. A session interleaves deliveries with turns of
    the extraction loop of the payload handlers of \<open>PacketsToStream\<close> and \<open>StreamToPackets\<close>: every packet comes
    out once and in order, and the loop ends.
  \<^item> \<open>Wireguard\<close>, \<open>Wireguard_Laws\<close>: the sessions of \<open>src/tunnels/WireGuardDevice\<close>, from
    \<open>common/wireguard.c\<close>, \<open>common/helpers.c\<close> and \<open>downstream/payload.c\<close>. A pointer to one of a peer's three key
    pairs is the slot's name, \<open>keypair_slot\<close>. Key derivation, the AEAD, the comparison of networks and the
    clock are arguments. The replay window is exact and no packet is forwarded twice while keys move
    through the slots, both for counters below \<open>2 ^ 32 - 1\<close>, and peers are found by the longest prefix. \<open>replay_accepts_twice\<close> shows
    that the window's 32-bit distance lets a counter through again about \<open>2 ^ 32\<close> packets later.
  \<^item> \<open>Socks_Address\<close>: the codec \<open>src/tunnels/Internals/SocksAddress/src/address_codec.c\<close>. Encoding and decoding are
    inverse, and a decoder answer is final as soon as the whole address is there.

  \<^bold>\<open>Interfaces.\<close> What a client may use of the deque is the locale \<open>stc_deque\<close>, and \<open>sbuf_deque\<close> for buffers as
  elements; the lemmas of the stream, the queue, the framing queue and the tunnels are proved there, and
  the properties quantify over every deque that satisfies the laws. \<open>buffer_source\<close> is the contract of
  taking a buffer, interpreted on the three tiers and on best fit. \<open>byte_fifo\<close> is the contract of a queue
  of bytes, met by the buffer stream; \<open>fifo\<close> the one of a queue of elements, met by the buffer queue
  and the context queue; \<open>delimiter_scan\<close> the one of an automaton that finds a delimiter, interpreted on
  the two line-end scanners. \<open>lwip_laws\<close> is what the packet code relies on of lwIP, and
  \<open>checksum_backend\<close> the contract of the checksum function chosen at run time, met by the portable one.

  \<^bold>\<open>Loops.\<close> A loop bounded by data is structural recursion. A loop whose end depends on the state is a
  \<open>partial_function\<close> in the option monad, built from one definition per turn; not returning
  would be \<open>None\<close>, and the theorems state that the result is \<open>Some\<close>. There is no fuel in the definitions
  of loops. Bounds in hypotheses are those of the code: lengths of buffers below \<open>2 ^ 32\<close>, totals
  representable in \<open>size_t\<close>, sizes for which a pool can allocate (\<open>sbuf_fits\<close>). \<open>modest_pool\<close> asks that one
  pool buffer is within the retained-storage limit of a UdpOverTcp line, as it is for the sizes the
  pool manager configures.

  \<^bold>\<open>Not modelled.\<close> Sockets, TUN devices, timers, the event loop, threads and the configuration parser are
  input and output or start-up code. Kernel splice moves bytes between pipes inside the kernel.
  The vendored or fetched libraries (lwIP, mimalloc, cJSON, BoringSSL, nghttp2, STC) are not
  the program's own code. The vector variants of the checksum use intrinsics of the processor. The
  other tunnels are callbacks on lines whose behaviour lies mostly in their neighbours, in ciphers or in
  the protocol libraries; the manifest lists each of them.
\<close>

end
